(* ===== verification/Lucene_Prelude.thy ===== *)
theory Lucene_Prelude
  imports Main "HOL-Library.Word"
begin

text \<open>
  The vocabulary shared by every component of the development.

  \<^item> Machine integers are words of their width. A signed Rust integer is the same word read with
    \<open>sint\<close>; \<open>as\<close> casts are \<open>ucast\<close> (zero extension or truncation) and \<open>scast\<close> (sign
    extension). A \<open>usize\<close> is a \<open>nat\<close>, with \<open>checked\<close>/\<open>saturating\<close> arithmetic written out against
    \<open>usize_max\<close> wherever the source writes it.
  \<^item> \<open>lucene_store::Error\<close> is the datatype \<open>error\<close>; the text of a \<open>Corrupted\<close> message is the
    datatype \<open>reason\<close>, one constructor per message with the interpolated values as arguments.
  \<^item> A method with \<open>&mut self\<close> that returns a \<open>Result\<close> is a function from the state to the result
    and the new state, so the state an error leaves behind is part of the model. \<open>bnd\<close> is the
    question mark operator.
  \<^item> The parts of Rust's standard library that the source calls (\<open>slice::get\<close>, \<open>to_le_bytes\<close>,
    \<open>trailing_zeros\<close>, \<open>count_ones\<close>, \<open>str::from_utf8\<close>, ...) are defined here, executably.
\<close>

unbundle bit_operations_syntax

section \<open>Machine integers\<close>

type_synonym u8 = "8 word"
type_synonym u16 = "16 word"
type_synonym u32 = "32 word"
type_synonym u64 = "64 word"
type_synonym u128 = "128 word"
type_synonym i16 = "16 word"
type_synonym i32 = "32 word"
type_synonym i64 = "64 word"

definition usize_max :: nat where
  "usize_max = 2 ^ 64 - 1"

definition checked_add :: "nat \<Rightarrow> nat \<Rightarrow> nat option" where
  "checked_add a b = (if a + b \<le> usize_max then Some (a + b) else None)"

definition saturating_add :: "nat \<Rightarrow> nat \<Rightarrow> nat" where
  "saturating_add a b = min (a + b) usize_max"

definition saturating_mul :: "nat \<Rightarrow> nat \<Rightarrow> nat" where
  "saturating_mul a b = min (a * b) usize_max"

text \<open>String literals: a Rust \<open>str\<close> is the list of its UTF-8 bytes.\<close>

definition ascii :: "string \<Rightarrow> u8 list" where
  "ascii cs = map of_char cs"

lemma ascii_append [simp]: "ascii (a @ b) = ascii a @ ascii b"
  by (simp add: ascii_def)

section \<open>Errors and panics\<close>

datatype reason =
    NegativeLength string int
  | LengthExceedsRemaining string nat nat
  | InvalidUtf8
  | HeaderMismatch u32
  | CodecMismatch "u8 list" "u8 list"
  | VersionTooOld int int
  | VersionTooNew int int
  | IdMismatch
  | InvalidUtf8Suffix
  | SuffixMismatch "u8 list" "u8 list"
  | MisplacedFooter nat
  | NotAllBytesRead nat nat
  | FooterMismatch u32
  | UnknownAlgorithm u32
  | IllegalChecksum u64
  | ChecksumFailed u64 u64
  | FileTooSmall
  | ExpectedLengthTooSmall nat
  | TruncatedFile nat nat
  | FileTooLong nat nat
  | Lz4OffsetZero
  | Lz4BeforeStart
  | Lz4MatchLengthOverflow
  | Lz4LengthExtensionOverflow
  | OldSegmentsGen
  | NotASegmentsFile "u8 list"
  | NoCommitFile
  | InvalidSegmentsGeneration int
  | CompoundSegment "u8 list"
  | CompoundMember "u8 list"
  | SliceOutOfBounds nat nat nat
  | UnsupportedBits nat
  | MonotonicBlockShift nat
  | MonotonicNumValues int
  | MonotonicBlockBits nat
  | MonotonicLowerBound int

datatype io_kind = NotFound | AlreadyExists | PermissionDenied | Unsupported | OtherIo

datatype error =
    Eof nat
  | MalformedVarint
  | Corrupted reason
  | Io io_kind "u8 list"
  | LockObtainFailed "u8 list"
  | LockReleaseFailed "u8 list"
  | AlreadyClosed "u8 list"
  | IllegalArgument "u8 list"

datatype panic = IndexOutOfRange | AssertionFailed

type_synonym 'a panics = "panic + 'a"

text \<open>An \<open>assert!\<close>, and Rust's bounds-checked element access and update.\<close>

definition assert_that :: "bool \<Rightarrow> 'a panics \<Rightarrow> 'a panics" where
  "assert_that c r = (if c then r else Inl AssertionFailed)"

definition index_get :: "'a list \<Rightarrow> nat \<Rightarrow> 'a panics" where
  "index_get xs i = (if i < length xs then Inr (xs ! i) else Inl IndexOutOfRange)"

text \<open>A step after a step that may panic.\<close>

definition and_then :: "'a panics \<Rightarrow> ('a \<Rightarrow> 'b panics) \<Rightarrow> 'b panics" where
  "and_then r f = (case r of Inl p \<Rightarrow> Inl p | Inr a \<Rightarrow> f a)"

lemma and_then_simps [simp]: "and_then (Inr a) f = f a" "and_then (Inl p) f = Inl p"
  by (simp_all add: and_then_def)

lemma and_then_cong [fundef_cong]: "r = r' \<Longrightarrow> (\<And>a. r' = Inr a \<Longrightarrow> f a = f' a) \<Longrightarrow> and_then r f = and_then r' f'"
  by (cases r') simp_all

text \<open>A \<open>for\<close> loop.\<close>

fun each :: "('a \<Rightarrow> 's \<Rightarrow> 's panics) \<Rightarrow> 'a list \<Rightarrow> 's \<Rightarrow> 's panics" where
  "each f [] s = Inr s"
| "each f (x # xs) s = and_then (f x s) (each f xs)"

definition index_set :: "'a list \<Rightarrow> nat \<Rightarrow> 'a \<Rightarrow> 'a list panics" where
  "index_set xs i v = (if i < length xs then Inr (xs[i := v]) else Inl IndexOutOfRange)"

section \<open>Stateful code that can fail\<close>

type_synonym ('s, 'e, 'a) fallible = "'s \<Rightarrow> ('e + 'a) \<times> 's"

type_synonym ('s, 'a) stateful = "('s, error, 'a) fallible"

definition ret :: "'a \<Rightarrow> ('s, 'e, 'a) fallible" where
  "ret a s = (Inr a, s)"

definition fail :: "'e \<Rightarrow> ('s, 'e, 'a) fallible" where
  "fail e s = (Inl e, s)"

definition bnd :: "('s, 'e, 'a) fallible \<Rightarrow> ('a \<Rightarrow> ('s, 'e, 'b) fallible) \<Rightarrow> ('s, 'e, 'b) fallible" where
  "bnd m f s = (case m s of (Inl e, s') \<Rightarrow> (Inl e, s') | (Inr a, s') \<Rightarrow> f a s')"

lemma bnd_cong [fundef_cong]:
  assumes "m s = m' s'"
    and "\<And>a t. m' s' = (Inr a, t) \<Longrightarrow> f a t = f' a t"
  shows "bnd m f s = bnd m' f' s'"
  using assms by (auto simp: bnd_def split: prod.splits sum.splits)

lemma ret_app [simp]: "ret a s = (Inr a, s)"
  by (simp add: ret_def)

lemma fail_app [simp]: "fail e s = (Inl e, s)"
  by (simp add: fail_def)

lemma bnd_Inr [simp]: "m s = (Inr a, s') \<Longrightarrow> bnd m f s = f a s'"
  by (simp add: bnd_def)

lemma bnd_Inl [simp]: "m s = (Inl e, s') \<Longrightarrow> bnd m f s = (Inl e, s')"
  by (simp add: bnd_def)

lemma bnd_eq_Inr_iff:
  "bnd m f s = (Inr b, t) \<longleftrightarrow> (\<exists>a s'. m s = (Inr a, s') \<and> f a s' = (Inr b, t))"
  by (auto simp: bnd_def split: prod.splits sum.splits)

lemma bnd_assoc: "bnd (bnd m f) g s = bnd m (\<lambda>a. bnd (f a) g) s"
  by (auto simp: bnd_def split: prod.splits sum.splits)

text \<open>An error converted by \<open>From\<close> on its way out, and a fallible computation without state.\<close>

definition map_err :: "('e \<Rightarrow> 'f) \<Rightarrow> ('s, 'e, 'a) fallible \<Rightarrow> ('s, 'f, 'a) fallible" where
  "map_err g m s = (case m s of (Inl e, s') \<Rightarrow> (Inl (g e), s') | (Inr a, s') \<Rightarrow> (Inr a, s'))"

definition lift_res :: "'e + 'a \<Rightarrow> ('s, 'e, 'a) fallible" where
  "lift_res r s = (r, s)"

lemma map_err_Inr [simp]: "m s = (Inr a, s') \<Longrightarrow> map_err g m s = (Inr a, s')"
  by (simp add: map_err_def)

lemma map_err_Inl [simp]: "m s = (Inl e, s') \<Longrightarrow> map_err g m s = (Inl (g e), s')"
  by (simp add: map_err_def)

lemma map_err_eq_Inr_iff: "map_err g m s = (Inr a, s') \<longleftrightarrow> m s = (Inr a, s')"
  by (auto simp: map_err_def split: prod.splits sum.splits)

lemma lift_res_app [simp]: "lift_res r s = (r, s)"
  by (simp add: lift_res_def)

section \<open>Slices\<close>

definition slice_get :: "'a list \<Rightarrow> nat \<Rightarrow> nat \<Rightarrow> 'a list option" where
  "slice_get xs from to =
     (if from \<le> to \<and> to \<le> length xs then Some (take (to - from) (drop from xs)) else None)"

lemma length_slice_get [dest]: "slice_get xs i j = Some ys \<Longrightarrow> length ys = j - i"
  by (auto simp: slice_get_def split: if_splits)

lemma slice_get_some_iff:
  "slice_get xs i j = Some ys \<longleftrightarrow> i \<le> j \<and> j \<le> length xs \<and> ys = take (j - i) (drop i xs)"
  by (auto simp: slice_get_def)

lemma slice_get_none_iff: "slice_get xs i j = None \<longleftrightarrow> \<not> (i \<le> j \<and> j \<le> length xs)"
  by (auto simp: slice_get_def)

section \<open>Bit counts\<close>

declare push_bit_Suc [simp del] drop_bit_Suc [simp del]

lemma bit_beyond: "LENGTH('a) \<le> n \<Longrightarrow> \<not> bit w n" for w :: "'a::len word"
  by (auto dest: bit_imp_le_length)

lemma neg_and_1: "- (v AND 1) = (if bit v 0 then - 1 else 0)" for v :: "'a::len word"
  by (simp add: and_one_eq bit_0 odd_iff_mod_2_eq_one)

text \<open>A statement about one bit position of a 64-bit word, checked position by position.\<close>

lemma upt_64:
  "[0..<64] = [0, 1, 2, 3, 4, 5, 6, 7, 8, 9, 10, 11, 12, 13, 14, 15, 16, 17, 18, 19, 20, 21,
      22, 23, 24, 25, 26, 27, 28, 29, 30, 31, 32, 33, 34, 35, 36, 37, 38, 39, 40, 41, 42, 43,
      44, 45, 46, 47, 48, 49, 50, 51, 52, 53, 54, 55, 56, 57, 58, 59, 60, 61, 62, 63]"
  by code_simp

lemma all_less_64:
  assumes
    "list_all P [0, 1, 2, 3, 4, 5, 6, 7, 8, 9, 10, 11, 12, 13, 14, 15, 16, 17, 18, 19, 20, 21,
      22, 23, 24, 25, 26, 27, 28, 29, 30, 31, 32, 33, 34, 35, 36, 37, 38, 39, 40, 41, 42, 43,
      44, 45, 46, 47, 48, 49, 50, 51, 52, 53, 54, 55, 56, 57, 58, 59, 60, 61, 62, 63]"
    and "k < (64::nat)"
  shows "P k"
  using assms upt_64 by (metis atLeast0LessThan lessThan_iff list_all_iff set_upt)

lemmas list_all_unfold = list.pred_inject simp_thms

definition trailing_zeros :: "'a::len word \<Rightarrow> nat" where
  "trailing_zeros w = length (takeWhile (\<lambda>i. \<not> bit w i) [0..<LENGTH('a)])"

definition leading_zeros :: "'a::len word \<Rightarrow> nat" where
  "leading_zeros w = length (takeWhile (\<lambda>i. \<not> bit w i) (rev [0..<LENGTH('a)]))"

definition count_ones :: "'a::len word \<Rightarrow> nat" where
  "count_ones w = length (filter (bit w) [0..<LENGTH('a)])"

lemma length_takeWhile_upt:
  "length (takeWhile P [0..<n]) \<le> n"
  using length_takeWhile_le [of P "[0..<n]"] by simp

lemma takeWhile_upt_all:
  assumes "i < length (takeWhile P [0..<n])"
  shows "P i"
proof -
  have "i < n"
    using assms length_takeWhile_upt [of P n] by linarith
  have "takeWhile P [0..<n] ! i = [0..<n] ! i"
    using assms by (rule takeWhile_nth)
  with assms \<open>i < n\<close> have "i \<in> set (takeWhile P [0..<n])"
    using nth_mem by fastforce
  then show ?thesis by (blast dest: set_takeWhileD)
qed

lemma takeWhile_upt_stop:
  assumes "length (takeWhile P [0..<n]) < n"
  shows "\<not> P (length (takeWhile P [0..<n]))"
  using nth_length_takeWhile [of P "[0..<n]"] assms by simp

lemma word_eq_0_iff_bits: "w = 0 \<longleftrightarrow> (\<forall>i<LENGTH('a). \<not> bit w i)" for w :: "'a::len word"
  by (auto simp: bit_eq_iff bit_imp_le_length)

lemma trailing_zeros_less:
  fixes w :: "'a::len word"
  assumes "w \<noteq> 0"
  shows "trailing_zeros w < LENGTH('a)"
proof -
  obtain i where i: "i < LENGTH('a)" "bit w i"
    using assms by (auto simp: word_eq_0_iff_bits)
  then have "\<not> (\<forall>j \<in> set [0..<LENGTH('a)]. \<not> bit w j)" by auto
  then have "takeWhile (\<lambda>i. \<not> bit w i) [0..<LENGTH('a)] \<noteq> [0..<LENGTH('a)]"
    by (metis (no_types, lifting) takeWhile_eq_all_conv)
  then have "length (takeWhile (\<lambda>i. \<not> bit w i) [0..<LENGTH('a)]) \<noteq> length [0..<LENGTH('a)]"
    by (metis takeWhile_eq_take take_all order_refl)
  then show ?thesis
    using length_takeWhile_upt [of "\<lambda>i. \<not> bit w i" "LENGTH('a)"] by (simp add: trailing_zeros_def)
qed

lemma bit_trailing_zeros: "w \<noteq> 0 \<Longrightarrow> bit w (trailing_zeros w)"
  for w :: "'a::len word"
  using takeWhile_upt_stop [of "\<lambda>i. \<not> bit w i" "LENGTH('a)"] trailing_zeros_less [of w]
  by (simp add: trailing_zeros_def)

lemma not_bit_below_trailing_zeros: "i < trailing_zeros w \<Longrightarrow> \<not> bit w i"
  for w :: "'a::len word"
  unfolding trailing_zeros_def by (rule takeWhile_upt_all)

lemma trailing_zeros_le: "bit w i \<Longrightarrow> trailing_zeros w \<le> i"
  for w :: "'a::len word"
  using not_bit_below_trailing_zeros [of i w] by (auto simp: not_less [symmetric])

lemma trailing_zeros_0 [simp]: "trailing_zeros (0 :: 'a::len word) = LENGTH('a)"
  by (simp add: trailing_zeros_def takeWhile_eq_all_conv [THEN iffD2])

lemma leading_zeros_alt:
  "leading_zeros w = length (takeWhile (\<lambda>j. \<not> bit w (LENGTH('a) - 1 - j)) [0..<LENGTH('a)])"
  for w :: "'a::len word"
proof -
  have "rev [0..<LENGTH('a)] = map (\<lambda>j. LENGTH('a) - 1 - j) [0..<LENGTH('a)]"
    by (rule nth_equalityI) (auto simp: rev_nth)
  then show ?thesis
    by (simp add: leading_zeros_def takeWhile_map comp_def)
qed

lemma leading_zeros_less:
  fixes w :: "'a::len word"
  assumes "w \<noteq> 0"
  shows "leading_zeros w < LENGTH('a)"
proof (rule ccontr)
  let ?P = "\<lambda>j. \<not> bit w (LENGTH('a) - 1 - j)"
  assume "\<not> leading_zeros w < LENGTH('a)"
  then have "?P j" if "j < LENGTH('a)" for j
    using that takeWhile_upt_all [of j ?P "LENGTH('a)"] by (simp add: leading_zeros_alt)
  from this [of "LENGTH('a) - 1 - i" for i] have "\<not> bit w i" if "i < LENGTH('a)" for i
    using that by (metis Suc_diff_Suc Suc_pred' diff_Suc_less diff_diff_cancel diff_diff_left len_gt_0 less_Suc_eq_le plus_1_eq_Suc)
  with assms show False by (simp add: word_eq_0_iff_bits)
qed

lemma bit_leading_zeros: "w \<noteq> 0 \<Longrightarrow> bit w (LENGTH('a) - 1 - leading_zeros w)"
  for w :: "'a::len word"
  using takeWhile_upt_stop [of "\<lambda>j. \<not> bit w (LENGTH('a) - 1 - j)" "LENGTH('a)"] leading_zeros_less [of w]
  by (simp add: leading_zeros_alt)

lemma le_leading_zeros:
  fixes w :: "'a::len word"
  assumes "bit w i"
  shows "i + leading_zeros w < LENGTH('a)"
proof (rule ccontr)
  let ?P = "\<lambda>j. \<not> bit w (LENGTH('a) - 1 - j)"
  have i: "i < LENGTH('a)" using assms by (rule bit_imp_le_length)
  assume "\<not> i + leading_zeros w < LENGTH('a)"
  then have "LENGTH('a) - 1 - i < leading_zeros w" using i by linarith
  then have "?P (LENGTH('a) - 1 - i)"
    unfolding leading_zeros_alt by (rule takeWhile_upt_all)
  with assms i show False by simp
qed

lemma count_ones_card: "count_ones w = card {i. bit w i}"
  for w :: "'a::len word"
proof -
  have "{i. bit w i} = set (filter (bit w) [0..<LENGTH('a)])"
    by (auto simp: bit_imp_le_length)
  then show ?thesis
    by (simp add: count_ones_def distinct_card del: set_filter)
qed

lemma bit_clear_lowest:
  fixes w :: "'a::len word"
  shows "bit (w AND (w - 1)) i \<longleftrightarrow> bit w i \<and> i \<noteq> trailing_zeros w"
proof (cases "w = 0")
  case True
  then show ?thesis by simp
next
  case False
  define k where "k = trailing_zeros w"
  have k: "k < LENGTH('a)" "bit w k" "\<And>j. j < k \<Longrightarrow> \<not> bit w j"
    using False by (simp_all add: k_def trailing_zeros_less bit_trailing_zeros not_bit_below_trailing_zeros)
  define u where "u = w AND NOT (mask (Suc k))"
  have w: "w = u OR push_bit k 1"
  proof (rule bit_word_eqI)
    fix n assume "n < LENGTH('a)"
    then show "bit w n \<longleftrightarrow> bit (u OR push_bit k 1) n"
      using k by (cases n k rule: linorder_cases) (auto simp: u_def bit_simps)
  qed
  also have "\<dots> = u + push_bit k 1"
    by (rule disjunctive_add_eq_or [symmetric], rule bit_word_eqI) (auto simp: u_def bit_simps)
  finally have "w - 1 = u + mask k"
    by (simp add: mask_eq_exp_minus_1 push_bit_eq_mult)
  also have "\<dots> = u OR mask k"
    by (rule disjunctive_add_eq_or, rule bit_word_eqI) (auto simp: u_def bit_simps)
  finally have "bit (w - 1) i \<longleftrightarrow> bit (u OR mask k) i" by simp
  then show ?thesis
    using k by (cases i k rule: linorder_cases) (auto simp: u_def bit_simps k_def [symmetric] bit_imp_le_length)
qed

section \<open>Words as numbers\<close>

lemma leading_zeros_0 [simp]: "leading_zeros (0 :: 'a::len word) = LENGTH('a)"
  by (simp add: leading_zeros_def takeWhile_eq_all_conv [THEN iffD2])

lemma unat_power2: "n < LENGTH('a) \<Longrightarrow> unat (2 ^ n :: 'a::len word) = 2 ^ n"
proof -
  assume n: "n < LENGTH('a)"
  have "unat (of_nat (2 ^ n) :: 'a word) = 2 ^ n"
    using n by (simp only: unsigned_of_nat) (simp add: take_bit_nat_eq_self power_strict_increasing)
  then show ?thesis by simp
qed

lemma unat_less_256: "unat b < 256" for b :: u8
  using unsigned_less [of b] by simp

lemma unat_push_bit:
  fixes x :: "'a::len word"
  assumes "unat x * 2 ^ n < 2 ^ LENGTH('a)"
  shows "unat (push_bit n x) = unat x * 2 ^ n"
proof -
  have "unat (push_bit n x) = take_bit LENGTH('a) (push_bit n (unat x))"
    by (rule unsigned_push_bit_eq)
  with assms show ?thesis
    by (simp add: push_bit_eq_mult [of n "unat x"] take_bit_nat_eq_self)
qed

lemma sint_eq_unat:
  fixes w :: "'a::len word"
  assumes "unat w < 2 ^ (LENGTH('a) - 1)"
  shows "sint w = int (unat w)"
proof -
  have "uint w < 2 ^ (LENGTH('a) - 1)" using assms by (metis of_nat_less_numeral_power_cancel_iff uint_nat)
  moreover have "- (2 ^ (LENGTH('a) - 1)) \<le> uint w"
    by (rule order_trans [of _ 0]) simp_all
  ultimately have "signed_take_bit (LENGTH('a) - 1) (uint w) = uint w"
    by (intro signed_take_bit_int_eq_self)
  then show ?thesis by (simp add: sint_uint)
qed

lemma signed_drop_bit_nonneg:
  fixes w :: "'a::len word"
  assumes "unat w < 2 ^ (LENGTH('a) - 1)" and "n < LENGTH('a)"
  shows "signed_drop_bit n w = drop_bit n w"
proof -
  have "\<not> bit w (LENGTH('a) - 1)"
    using sint_eq_unat [OF assms(1)] bit_last_iff [of w] by simp
  then show ?thesis
    using assms(2) by (intro bit_word_eqI) (auto simp: bit_simps bit_beyond)
qed

lemma unat_less_num_bits:
  fixes w :: "'a::len word"
  shows "unat w < 2 ^ (LENGTH('a) - leading_zeros w)"
proof -
  have "take_bit (LENGTH('a) - leading_zeros w) w = w"
    using le_leading_zeros [of w] by (intro bit_word_eqI) (fastforce simp: bit_simps)
  then have "take_bit (LENGTH('a) - leading_zeros w) (unat w) = unat w"
    by (metis unsigned_take_bit_eq)
  then show ?thesis by (metis take_bit_nat_less_exp)
qed

lemma num_bits_le_unat:
  fixes w :: "'a::len word"
  assumes "w \<noteq> 0"
  shows "2 ^ (LENGTH('a) - 1 - leading_zeros w) \<le> unat w"
proof -
  have "bit (unat w) (LENGTH('a) - 1 - leading_zeros w)"
    using bit_leading_zeros [OF assms] by (simp add: bit_unsigned_iff)
  then show ?thesis
    by (metis bit_nat_iff bit_take_bit_iff less_irrefl_nat not_le take_bit_nat_eq_self)
qed

section \<open>Byte order conversions\<close>

definition to_le_bytes :: "nat \<Rightarrow> 'a::len word \<Rightarrow> u8 list" where
  "to_le_bytes n w = map (\<lambda>i. ucast (drop_bit (8 * i) w)) [0..<n]"

fun from_le_bytes :: "u8 list \<Rightarrow> 'a::len word" where
  "from_le_bytes [] = 0"
| "from_le_bytes (b # bs) = ucast b OR push_bit 8 (from_le_bytes bs)"

definition to_be_bytes :: "nat \<Rightarrow> 'a::len word \<Rightarrow> u8 list" where
  "to_be_bytes n w = rev (to_le_bytes n w)"

definition from_be_bytes :: "u8 list \<Rightarrow> 'a::len word" where
  "from_be_bytes bs = from_le_bytes (rev bs)"

lemma length_to_le_bytes [simp]: "length (to_le_bytes n w) = n"
  by (simp add: to_le_bytes_def)

lemma length_to_be_bytes [simp]: "length (to_be_bytes n w) = n"
  by (simp add: to_be_bytes_def)

lemma nth_to_le_bytes: "i < n \<Longrightarrow> to_le_bytes n w ! i = ucast (drop_bit (8 * i) w)"
  by (simp add: to_le_bytes_def)

lemma bit_from_le_bytes:
  "bit (from_le_bytes bs :: 'a::len word) k \<longleftrightarrow>
     k < LENGTH('a) \<and> k div 8 < length bs \<and> bit (bs ! (k div 8)) (k mod 8)"
proof (induction bs arbitrary: k)
  case Nil
  then show ?case by simp
next
  case (Cons b bs)
  show ?case
  proof (cases "k < 8")
    case True
    then show ?thesis by (auto simp: bit_simps)
  next
    case False
    then have "\<not> bit b k" by (auto dest: bit_imp_le_length)
    moreover obtain j where "k = j + 8" using False by (metis add.commute le_add_diff_inverse not_less)
    moreover have "(j + 8) div 8 = Suc (j div 8)" by simp
    ultimately show ?thesis using Cons.IH [of j] by (auto simp: bit_simps)
  qed
qed

lemma from_le_to_le_bytes [simp]:
  assumes "LENGTH('a) \<le> 8 * n"
  shows "from_le_bytes (to_le_bytes n (w :: 'a::len word)) = w"
proof (rule bit_word_eqI)
  fix k assume k: "k < LENGTH('a)"
  then have "k div 8 < n" using assms by linarith
  with k show "bit (from_le_bytes (to_le_bytes n w) :: 'a word) k = bit w k"
    by (simp add: bit_from_le_bytes nth_to_le_bytes bit_simps)
qed

lemma from_be_to_be_bytes [simp]:
  "LENGTH('a) \<le> 8 * n \<Longrightarrow> from_be_bytes (to_be_bytes n (w :: 'a::len word)) = w"
  by (simp add: from_be_bytes_def to_be_bytes_def)

lemma to_le_from_le_bytes:
  assumes "length bs = n" and "8 * n \<le> LENGTH('a)"
  shows "to_le_bytes n (from_le_bytes bs :: 'a::len word) = bs"
proof (rule nth_equalityI)
  fix i assume "i < length (to_le_bytes n (from_le_bytes bs :: 'a word))"
  then have i: "i < n" by simp
  show "to_le_bytes n (from_le_bytes bs :: 'a word) ! i = bs ! i"
  proof (rule bit_word_eqI)
    fix j :: nat assume "j < LENGTH(8)"
    then have "j < 8" by simp
    then have "(8 * i + j) div 8 = i" "(8 * i + j) mod 8 = j" by auto
    with i \<open>j < 8\<close> assms show "bit (to_le_bytes n (from_le_bytes bs :: 'a word) ! i) j = bit (bs ! i) j"
      by (auto simp: nth_to_le_bytes bit_simps bit_from_le_bytes)
  qed
qed (simp add: assms)

section \<open>UTF-8\<close>

text \<open>
  \<open>str::from_utf8\<close>: a byte string is well formed when it splits into the sequences of the Unicode
  standard's table 3-7 (no overlong form, no surrogate, nothing past U+10FFFF). \<open>utf8_step\<close> is the
  length of the first sequence.
\<close>

definition continuation :: "u8 \<Rightarrow> bool" where
  "continuation b = (0x80 \<le> b \<and> b \<le> 0xBF)"

fun utf8_step :: "u8 list \<Rightarrow> nat option" where
  "utf8_step [] = None"
| "utf8_step (b # bs) =
     (if b < 0x80 then Some 1
      else if 0xC2 \<le> b \<and> b \<le> 0xDF then
        (case bs of c1 # _ \<Rightarrow> if continuation c1 then Some 2 else None | [] \<Rightarrow> None)
      else if 0xE0 \<le> b \<and> b \<le> 0xEF then
        (case bs of
           c1 # c2 # _ \<Rightarrow>
             if continuation c1 \<and> continuation c2 \<and> (b = 0xE0 \<longrightarrow> 0xA0 \<le> c1) \<and> (b = 0xED \<longrightarrow> c1 \<le> 0x9F)
             then Some 3 else None
         | _ \<Rightarrow> None)
      else if 0xF0 \<le> b \<and> b \<le> 0xF4 then
        (case bs of
           c1 # c2 # c3 # _ \<Rightarrow>
             if continuation c1 \<and> continuation c2 \<and> continuation c3 \<and>
                (b = 0xF0 \<longrightarrow> 0x90 \<le> c1) \<and> (b = 0xF4 \<longrightarrow> c1 \<le> 0x8F)
             then Some 4 else None
         | _ \<Rightarrow> None)
      else None)"

lemma utf8_step_pos: "utf8_step bs = Some n \<Longrightarrow> 0 < n \<and> n \<le> length bs"
  by (cases bs) (auto split: if_splits list.splits)

function valid_utf8 :: "u8 list \<Rightarrow> bool" where
  "valid_utf8 bs =
     (if bs = [] then True
      else case utf8_step bs of None \<Rightarrow> False | Some n \<Rightarrow> valid_utf8 (drop n bs))"
  by pat_completeness auto
termination
  by (relation "measure length") (auto dest: utf8_step_pos)

declare valid_utf8.simps [simp del]

lemma valid_utf8_ascii: "(\<And>b. b \<in> set bs \<Longrightarrow> b < 0x80) \<Longrightarrow> valid_utf8 bs"
  by (induction bs) (simp_all add: valid_utf8.simps)

end
