(* ===== verification/Bit_Kernels.thy ===== *)
theory Bit_Kernels
  imports Lucene_Prelude
begin

text \<open>
  The integer kernels of \<open>lucene-util\<close>: \<open>zigzag.rs\<close>, \<open>bit_util.rs\<close> (Morton interleave, power-of-two
  rounding), \<open>small_float.rs\<close> (the one-byte norm encodings) and the integer part of
  \<open>math_util.rs\<close>. Every operation is a definition on words; a floating-point number appears only
  in \<open>float_to_byte\<close>/\<open>byte_to_float\<close>, which work on its IEEE bit pattern, so it is that pattern.
\<close>

unbundle bit_operations_syntax

section \<open>Zigzag\<close>

definition encode :: "i64 \<Rightarrow> u64" where
  "encode v = signed_drop_bit 63 v XOR push_bit 1 v"

definition decode :: "u64 \<Rightarrow> i64" where
  "decode v = drop_bit 1 v XOR - (v AND 1)"

definition encode_i32 :: "i32 \<Rightarrow> u32" where
  "encode_i32 v = signed_drop_bit 31 v XOR push_bit 1 v"

definition decode_i32 :: "u32 \<Rightarrow> i32" where
  "decode_i32 v = drop_bit 1 v XOR - (v AND 1)"

section \<open>Bit tricks\<close>

definition MAGIC0 :: u64 where "MAGIC0 = 0x5555555555555555"
definition MAGIC1 :: u64 where "MAGIC1 = 0x3333333333333333"
definition MAGIC2 :: u64 where "MAGIC2 = 0x0F0F0F0F0F0F0F0F"
definition MAGIC3 :: u64 where "MAGIC3 = 0x00FF00FF00FF00FF"
definition MAGIC4 :: u64 where "MAGIC4 = 0x0000FFFF0000FFFF"
definition MAGIC5 :: u64 where "MAGIC5 = 0x00000000FFFFFFFF"
definition MAGIC6 :: u64 where "MAGIC6 = 0xAAAAAAAAAAAAAAAA"

lemmas magic_defs =
  MAGIC0_def MAGIC1_def MAGIC2_def MAGIC3_def MAGIC4_def MAGIC5_def MAGIC6_def

definition next_highest_power_of_two_i32 :: "i32 \<Rightarrow> i32" where
  "next_highest_power_of_two_i32 v =
     (let v = v - 1;
          v = v OR signed_drop_bit 1 v;
          v = v OR signed_drop_bit 2 v;
          v = v OR signed_drop_bit 4 v;
          v = v OR signed_drop_bit 8 v;
          v = v OR signed_drop_bit 16 v
      in v + 1)"

definition next_highest_power_of_two_i64 :: "i64 \<Rightarrow> i64" where
  "next_highest_power_of_two_i64 v =
     (let v = v - 1;
          v = v OR signed_drop_bit 1 v;
          v = v OR signed_drop_bit 2 v;
          v = v OR signed_drop_bit 4 v;
          v = v OR signed_drop_bit 8 v;
          v = v OR signed_drop_bit 16 v;
          v = v OR signed_drop_bit 32 v
      in v + 1)"

definition spread :: "u64 \<Rightarrow> u64" where
  "spread v =
     (let v = (v OR push_bit 16 v) AND MAGIC4;
          v = (v OR push_bit 8 v) AND MAGIC3;
          v = (v OR push_bit 4 v) AND MAGIC2;
          v = (v OR push_bit 2 v) AND MAGIC1
      in (v OR push_bit 1 v) AND MAGIC0)"

definition interleave :: "i32 \<Rightarrow> i32 \<Rightarrow> i64" where
  "interleave e d =
     (let v1 = spread (ucast e); v2 = spread (ucast d) in push_bit 1 v2 OR v1)"

definition deinterleave :: "i64 \<Rightarrow> i64" where
  "deinterleave b =
     (let b = b AND MAGIC0;
          b = (b XOR drop_bit 1 b) AND MAGIC1;
          b = (b XOR drop_bit 2 b) AND MAGIC2;
          b = (b XOR drop_bit 4 b) AND MAGIC3;
          b = (b XOR drop_bit 8 b) AND MAGIC4
      in (b XOR drop_bit 16 b) AND MAGIC5)"

definition flip_flop :: "i64 \<Rightarrow> i64" where
  "flip_flop b = drop_bit 1 (b AND MAGIC6) OR push_bit 1 (b AND MAGIC0)"

definition is_zero_or_power_of_two :: "i32 \<Rightarrow> bool" where
  "is_zero_or_power_of_two x = (x AND (x - 1) = 0)"

section \<open>Norm bytes\<close>

definition long_to_int4 :: "u64 \<Rightarrow> u32" where
  "long_to_int4 i =
     (let num_bits = 64 - leading_zeros i in
      if num_bits < 4 then ucast i
      else let shift = num_bits - 4;
               encoded = ucast (drop_bit shift i) AND 0x07
           in encoded OR push_bit 3 (of_nat (shift + 1)))"

definition int4_to_long :: "u32 \<Rightarrow> u64" where
  "int4_to_long i =
     (let bits = ucast (i AND 0x07); shift = drop_bit 3 i in
      if shift = 0 then bits else push_bit (unat (shift - 1)) (bits OR 0x08))"

definition num_free_values :: u32 where
  "num_free_values = 255 - long_to_int4 0x7FFFFFFF"

definition int_to_byte4 :: "u32 \<Rightarrow> u8" where
  "int_to_byte4 i =
     (let i = min i 0x7FFFFFFF; free = num_free_values in
      if i < free then ucast i else ucast (free + long_to_int4 (ucast (i - free))))"

definition byte4_to_int :: "u8 \<Rightarrow> u32" where
  "byte4_to_int b =
     (let i = ucast b; free = num_free_values in
      if i < free then i else ucast (ucast free + int4_to_long (i - free)))"

text \<open>A float is its bit pattern; \<open>bits\<close> of the source is the same word read as signed.\<close>

definition float_to_byte :: "u32 \<Rightarrow> nat \<Rightarrow> i32 \<Rightarrow> u8" where
  "float_to_byte f num_mantissa_bits zero_exp =
     (let fzero = push_bit num_mantissa_bits (63 - zero_exp);
          smallfloat = signed_drop_bit (24 - num_mantissa_bits) f
      in if sint smallfloat \<le> sint fzero then (if 0 < sint f then 1 else 0)
         else if sint (fzero + 0x100) \<le> sint smallfloat then 0xff
         else ucast (smallfloat - fzero))"

definition byte_to_float :: "u8 \<Rightarrow> nat \<Rightarrow> i32 \<Rightarrow> u32" where
  "byte_to_float b num_mantissa_bits zero_exp =
     (if b = 0 then 0
      else push_bit (24 - num_mantissa_bits) (ucast b) + push_bit 24 (63 - zero_exp))"

definition float_to_byte315 :: "u32 \<Rightarrow> u8" where
  "float_to_byte315 f = float_to_byte f 3 15"

definition byte315_to_float :: "u8 \<Rightarrow> u32" where
  "byte315_to_float b = byte_to_float b 3 15"

section \<open>Integer mathematics\<close>

definition unsigned_min :: "i32 \<Rightarrow> i32 \<Rightarrow> i32" where
  "unsigned_min a b = (if a < b then a else b)"

section \<open>Zigzag and interleave: lemmas\<close>

lemma decode_encode: "decode (encode v) = v"
proof (rule bit_word_eqI)
  fix n assume "n < LENGTH(64)"
  then consider "n < 63" | "n = 63" by fastforce
  then show "bit (decode (encode v)) n = bit v n"
    by cases (auto simp: decode_def encode_def neg_and_1 bit_simps bit_beyond)
qed

lemma encode_decode: "encode (decode v) = v"
proof (rule bit_word_eqI)
  fix n assume n: "n < LENGTH(64)"
  show "bit (encode (decode v)) n = bit v n"
    by (cases n) (use n in \<open>auto simp: decode_def encode_def neg_and_1 bit_simps bit_beyond\<close>)
qed

lemma decode_encode_i32: "decode_i32 (encode_i32 v) = v"
proof (rule bit_word_eqI)
  fix n assume "n < LENGTH(32)"
  then consider "n < 31" | "n = 31" by fastforce
  then show "bit (decode_i32 (encode_i32 v)) n = bit v n"
    by cases (auto simp: decode_i32_def encode_i32_def neg_and_1 bit_simps bit_beyond)
qed

lemma encode_decode_i32: "encode_i32 (decode_i32 v) = v"
proof (rule bit_word_eqI)
  fix n assume n: "n < LENGTH(32)"
  show "bit (encode_i32 (decode_i32 v)) n = bit v n"
    by (cases n) (use n in \<open>auto simp: decode_i32_def encode_i32_def neg_and_1 bit_simps bit_beyond\<close>)
qed

lemma signed_drop_bit_63: "signed_drop_bit 63 v = (if sint v < 0 then - 1 else 0)" for v :: i64
proof (rule bit_word_eqI)
  fix n assume "n < LENGTH(64)"
  then show "bit (signed_drop_bit 63 v) n = bit (if sint v < 0 then - 1 else 0 :: i64) n"
    using bit_last_iff [of v] by (cases n) (auto simp: bit_simps)
qed

lemma uint_encode:
  "uint (encode v) = (if 0 \<le> sint v then 2 * sint v else - 2 * sint v - 1)"
proof -
  let ?z = "if 0 \<le> sint v then 2 * sint v else - 2 * sint v - 1"
  have range: "- (2 ^ 63) \<le> sint v" "sint v < 2 ^ 63"
    using sint_ge [of v] sint_lt [of v] by simp_all
  have "encode v = word_of_int ?z"
    by (simp add: encode_def signed_drop_bit_63 push_bit_eq_mult not_eq_complement)
  then have "uint (encode v) = ?z mod 2 ^ 64"
    by (simp only: uint_word_of_int) simp
  also have "\<dots> = ?z" using range by (intro mod_pos_pos_trivial) auto
  finally show ?thesis .
qed

lemma bit_spread:
  fixes v :: u32
  assumes "k < 64"
  shows "bit (spread (ucast v)) k \<longleftrightarrow> even k \<and> bit v (k div 2)"
proof (rule all_less_64 [OF _ assms], simp only: list_all_unfold, intro conjI)
qed (simp_all add: spread_def Let_def bit_simps magic_defs bit_beyond)

lemma bit_interleave:
  assumes "k < 64"
  shows "bit (interleave e d) k \<longleftrightarrow> (if even k then bit e (k div 2) else bit d (k div 2))"
  using assms bit_spread [of k e] bit_spread [of "k - 1" d]
  by (auto simp: interleave_def Let_def bit_simps elim!: oddE)

text \<open>
  One compaction step of \<open>deinterleave\<close>: once the bits sit in runs of \<open>s\<close> at distance \<open>2 * s\<close>,
  the step merges neighbouring runs.
\<close>

definition compacted :: "nat \<Rightarrow> u64 \<Rightarrow> u64 \<Rightarrow> bool" where
  "compacted s b c \<longleftrightarrow> (\<forall>k. bit c k \<longleftrightarrow> k mod (2 * s) < s \<and> bit b (k + k mod (2 * s)))"

lemma compacted_step:
  assumes c: "compacted s b c" and "0 < s"
    and m: "\<And>k. k < 64 \<Longrightarrow> bit m k \<longleftrightarrow> k mod (4 * s) < 2 * s"
  shows "compacted (2 * s) b ((c XOR drop_bit s c) AND m)"
  unfolding compacted_def
proof (intro allI)
  fix k
  define r where "r = k mod (4 * s)"
  have r2: "k mod (2 * s) = r mod (2 * s)"
    unfolding r_def by (rule mod_mod_cancel [symmetric]) simp
  then have rs: "(s + k) mod (2 * s) = (s + r) mod (2 * s)"
    by (metis mod_add_right_eq)
  consider "64 \<le> k" | "k < 64" "2 * s \<le> r" | "k < 64" "r < s" | "k < 64" "s \<le> r" "r < 2 * s"
    by linarith
  then show "bit ((c XOR drop_bit s c) AND m) k \<longleftrightarrow>
      k mod (2 * (2 * s)) < 2 * s \<and> bit b (k + k mod (2 * (2 * s)))"
  proof cases
    case 1
    then show ?thesis by (simp add: bit_beyond)
  next
    case 2
    then show ?thesis by (simp add: bit_simps m r_def [symmetric])
  next
    case 3
    then have "(s + k) mod (2 * s) = s + r" "k mod (2 * s) = r" by (simp_all add: r2 rs)
    with 3 c show ?thesis by (simp add: compacted_def bit_simps m r_def [symmetric])
  next
    case 4
    then have "(s + r) mod (2 * s) = r - s" "r - s < s" by (simp_all add: mod_if)
    with 4 c show ?thesis by (simp add: compacted_def bit_simps m r2 rs r_def [symmetric])
  qed
qed

lemma bit_magic:
  assumes "k < 64"
  shows "bit MAGIC0 k \<longleftrightarrow> k mod 2 < 1" "bit MAGIC1 k \<longleftrightarrow> k mod 4 < 2" "bit MAGIC2 k \<longleftrightarrow> k mod 8 < 4"
    "bit MAGIC3 k \<longleftrightarrow> k mod 16 < 8" "bit MAGIC4 k \<longleftrightarrow> k mod 32 < 16" "bit MAGIC5 k \<longleftrightarrow> k mod 64 < 32"
  by (rule all_less_64 [OF _ assms], simp add: magic_defs)+

lemma bit_deinterleave: "bit (deinterleave b) k \<longleftrightarrow> k < 32 \<and> bit b (2 * k)"
proof -
  have "compacted 1 b (b AND MAGIC0)"
    using bit_imp_le_length [of b] by (auto simp: compacted_def bit_simps bit_magic)
  from compacted_step [OF this, of MAGIC1]
  have "compacted 2 b (let b = b AND MAGIC0 in (b XOR drop_bit 1 b) AND MAGIC1)"
    by (simp add: bit_magic)
  from compacted_step [OF this, of MAGIC2]
  have "compacted 4 b (let b = b AND MAGIC0; b = (b XOR drop_bit 1 b) AND MAGIC1
                       in (b XOR drop_bit 2 b) AND MAGIC2)"
    by (simp add: bit_magic Let_def)
  from compacted_step [OF this, of MAGIC3]
  have "compacted 8 b (let b = b AND MAGIC0; b = (b XOR drop_bit 1 b) AND MAGIC1;
                           b = (b XOR drop_bit 2 b) AND MAGIC2
                       in (b XOR drop_bit 4 b) AND MAGIC3)"
    by (simp add: bit_magic Let_def)
  from compacted_step [OF this, of MAGIC4]
  have "compacted 16 b (let b = b AND MAGIC0; b = (b XOR drop_bit 1 b) AND MAGIC1;
                            b = (b XOR drop_bit 2 b) AND MAGIC2; b = (b XOR drop_bit 4 b) AND MAGIC3
                        in (b XOR drop_bit 8 b) AND MAGIC4)"
    by (simp add: bit_magic Let_def)
  from compacted_step [OF this, of MAGIC5]
  have "compacted 32 b (deinterleave b)"
    by (simp add: bit_magic Let_def deinterleave_def)
  then have "bit (deinterleave b) k \<longleftrightarrow> k mod 64 < 32 \<and> bit b (k + k mod 64)"
    by (simp add: compacted_def)
  then show ?thesis
    by (cases "k < 64") (auto simp: mult_2 bit_beyond)
qed

lemma bit_flip_flop:
  assumes "k < 64"
  shows "bit (flip_flop b) k \<longleftrightarrow> bit b (if even k then k + 1 else k - 1)"
proof (rule all_less_64 [OF _ assms], simp only: list_all_unfold, intro conjI)
qed (simp_all add: flip_flop_def bit_simps magic_defs flip: numeral_2_eq_2 numeral_3_eq_3)

section \<open>Power-of-two rounding: lemmas\<close>

definition smeared :: "nat \<Rightarrow> 'a::len word \<Rightarrow> 'a word \<Rightarrow> bool" where
  "smeared s w c \<longleftrightarrow> (\<forall>k. bit c k \<longleftrightarrow> (\<exists>j < s. bit w (k + j)))"

lemma smeared_step:
  fixes w c :: "'a::len word"
  assumes c: "smeared s w c" and pos: "\<not> bit w (LENGTH('a) - 1)" and s: "0 < s" "s < LENGTH('a)"
  shows "smeared (2 * s) w (c OR signed_drop_bit s c)"
proof -
  have top: "\<not> bit c (LENGTH('a) - 1)"
  proof
    assume "bit c (LENGTH('a) - 1)"
    then obtain j where "bit w (LENGTH('a) - 1 + j)" using c by (auto simp: smeared_def)
    with pos show False by (cases j) (auto simp: bit_beyond)
  qed
  have "bit (signed_drop_bit s c) k \<longleftrightarrow> bit c (k + s)" for k
    using top s by (auto simp: bit_simps bit_beyond ac_simps)
  moreover have "(\<exists>j < s. bit w (k + j)) \<or> (\<exists>j < s. bit w (k + s + j)) \<longleftrightarrow> (\<exists>j<2 * s. bit w (k + j))" for k
  proof
    assume "\<exists>j<2 * s. bit w (k + j)"
    then obtain j where j: "j < 2 * s" "bit w (k + j)" by blast
    show "(\<exists>j < s. bit w (k + j)) \<or> (\<exists>j < s. bit w (k + s + j))"
    proof (cases "j < s")
      case True
      with j show ?thesis by blast
    next
      case False
      with j have "j - s < s" "bit w (k + s + (j - s))" by simp_all
      then show ?thesis by blast
    qed
  next
    assume "(\<exists>j < s. bit w (k + j)) \<or> (\<exists>j < s. bit w (k + s + j))"
    then obtain j where "j < s" "bit w (k + j) \<or> bit w (k + (s + j))" by (auto simp: add.assoc)
    then show "\<exists>j < 2 * s. bit w (k + j)" by (auto intro: exI [of _ j] exI [of _ "s + j"])
  qed
  ultimately show ?thesis using c by (simp add: smeared_def bit_or_iff)
qed

lemma smeared_mask:
  fixes w c :: "'a::len word"
  assumes "smeared s w c" and "LENGTH('a) \<le> s"
  shows "c = mask (LENGTH('a) - leading_zeros w)"
proof (rule bit_word_eqI)
  fix k assume k: "k < LENGTH('a)"
  have "bit c k \<longleftrightarrow> (\<exists>j < s. bit w (k + j))" using assms by (simp add: smeared_def)
  also have "\<dots> \<longleftrightarrow> k < LENGTH('a) - leading_zeros w"
  proof
    assume "\<exists>j < s. bit w (k + j)"
    then obtain j where "bit w (k + j)" by blast
    then show "k < LENGTH('a) - leading_zeros w" using le_leading_zeros [of w "k + j"] by linarith
  next
    assume less: "k < LENGTH('a) - leading_zeros w"
    have "w \<noteq> 0" 
    proof
      assume "w = 0"
      with less show False by (simp add: leading_zeros_def takeWhile_eq_all_conv [THEN iffD2])
    qed
    let ?j = "LENGTH('a) - 1 - leading_zeros w - k"
    have "bit w (k + ?j)" using bit_leading_zeros [OF \<open>w \<noteq> 0\<close>] less by simp
    moreover have "?j < s" using less assms(2) by linarith
    ultimately show "\<exists>j < s. bit w (k + j)" by blast
  qed
  finally show "bit c k = bit (mask (LENGTH('a) - leading_zeros w) :: 'a word) k"
    using k by (simp add: bit_simps)
qed

lemma power_of_two_bracket:
  fixes w :: "'a::len word"
  shows "unat w + 1 \<le> 2 ^ (LENGTH('a) - leading_zeros w)"
    "2 ^ (LENGTH('a) - leading_zeros w) < 2 * (unat w + 1)"
proof -
  show "unat w + 1 \<le> 2 ^ (LENGTH('a) - leading_zeros w)"
    using unat_less_num_bits [of w] by simp
  show "2 ^ (LENGTH('a) - leading_zeros w) < 2 * (unat w + 1)"
  proof (cases "w = 0")
    case False
    have "(2::nat) ^ (LENGTH('a) - leading_zeros w) = 2 * 2 ^ (LENGTH('a) - 1 - leading_zeros w)"
      using leading_zeros_less [OF False] by (simp flip: power_Suc add: Suc_diff_Suc)
    then show ?thesis using num_bits_le_unat [OF False] by simp
  qed simp
qed

lemma smeared_1: "smeared 1 w w"
  by (simp add: smeared_def)

lemma next_highest_power_of_two_mask:
  assumes "\<not> bit (v - 1) 31"
  shows "next_highest_power_of_two_i32 v = mask (32 - leading_zeros (v - 1)) + 1"
proof -
  have "\<not> bit (v - 1) (LENGTH(32) - 1)" using assms by simp
  note step = smeared_step [OF _ this]
  from smeared_mask [OF step [OF step [OF step [OF step [OF step [OF smeared_1]]]]]]
  show ?thesis by (simp add: next_highest_power_of_two_i32_def Let_def)
qed

lemma is_zero_or_power_of_two_iff:
  "is_zero_or_power_of_two x \<longleftrightarrow> x = 0 \<or> (\<exists>n < 32. x = 2 ^ n)"
proof (cases "x = 0")
  case False
  have "x AND (x - 1) = 0 \<longleftrightarrow> (\<forall>k. bit x k \<longrightarrow> k = trailing_zeros x)"
    unfolding word_eq_0_iff_bits bit_clear_lowest using bit_imp_le_length [of x] by auto
  also have "\<dots> \<longleftrightarrow> (\<exists>n < 32. x = 2 ^ n)"
  proof
    assume *: "\<forall>k. bit x k \<longrightarrow> k = trailing_zeros x"
    have "x = 2 ^ trailing_zeros x"
    proof (rule bit_word_eqI)
      fix n
      show "bit x n = bit (2 ^ trailing_zeros x :: i32) n"
        using * [rule_format, of n] bit_trailing_zeros [OF False] trailing_zeros_less [OF False]
        by (cases "n = trailing_zeros x") (auto simp: bit_exp_iff)
    qed
    then show "\<exists>n < 32. x = 2 ^ n" using trailing_zeros_less [OF False] by auto
  next
    assume "\<exists>n < 32. x = 2 ^ n"
    then obtain n where "x = 2 ^ n" by blast
    then have "bit x k \<longleftrightarrow> n < 32 \<and> k = n" for k by (auto simp: bit_exp_iff)
    with bit_trailing_zeros [OF False] show "\<forall>k. bit x k \<longrightarrow> k = trailing_zeros x" by simp
  qed
  finally show ?thesis using False by (simp add: is_zero_or_power_of_two_def)
qed (simp add: is_zero_or_power_of_two_def)


section \<open>Norm bytes: lemmas\<close>

text \<open>The shift the encoder picks, and closed forms of the two norm functions.\<close>

definition norm_shift :: "nat \<Rightarrow> u64 \<Rightarrow> bool" where
  "norm_shift s i \<longleftrightarrow> unat i div 2 ^ s < 16 \<and> (s = 0 \<or> 8 \<le> unat i div 2 ^ s)"

lemma num_free_values_eq [simp]: "num_free_values = 24"
  by code_simp

lemma unat_long_to_int4:
  obtains s where "norm_shift s i" "s \<le> 60" "unat (long_to_int4 i) = unat i div 2 ^ s + 8 * s"
proof -
  define nb where "nb = 64 - leading_zeros i"
  have lt: "unat i < 2 ^ nb" using unat_less_num_bits [of i] by (simp add: nb_def)
  show ?thesis
  proof (cases "nb < 4")
    case True
    have "(2::nat) ^ nb \<le> 2 ^ 3" using True by (intro power_increasing) auto
    with lt have "unat i < 8" by simp
    then have "norm_shift 0 i" and "unat (ucast i :: u32) = unat i"
      by (simp_all add: norm_shift_def unsigned_ucast_eq take_bit_nat_eq_self)
    then show ?thesis using that [of 0] True by (simp add: long_to_int4_def nb_def [symmetric])
  next
    case False
    define s where "s = nb - 4"
    define m where "m = unat i div 2 ^ s"
    have nb: "nb = s + 4" "nb \<le> 64" using False by (simp_all add: s_def nb_def)
    have "i \<noteq> 0" using False by (auto simp: nb_def)
    have "2 ^ (nb - 1) \<le> unat i" using num_bits_le_unat [OF \<open>i \<noteq> 0\<close>] by (simp add: nb_def)
    then have "8 * 2 ^ s \<le> unat i" by (simp add: nb power_add)
    then have m8: "8 \<le> m" by (simp add: m_def less_eq_div_iff_mult_less_eq)
    have m16: "m < 16" using lt by (simp add: m_def nb power_add div_less_iff_less_mult)
    have "unat (ucast (drop_bit s i) :: u32) = m" using m16
      by (simp add: m_def unsigned_ucast_eq unat_drop_bit_eq take_bit_nat_eq_self flip: drop_bit_eq_div)
    then have "unat (ucast (drop_bit s i) AND 7 :: u32) = m mod 8"
      using take_bit_eq_mask [of 3 m] by (simp add: unsigned_and_eq take_bit_eq_mod mask_eq_exp_minus_1)
    moreover have "unat (push_bit 3 (of_nat (s + 1)) :: u32) = push_bit 3 (s + 1)"
    proof -
      have "unat (of_nat (8 * (s + 1)) :: u32) = 8 * (s + 1)"
        using nb by (simp only: unsigned_of_nat) (simp add: take_bit_nat_eq_self)
      then show ?thesis by (simp add: push_bit_eq_mult algebra_simps)
    qed
    ultimately have "unat (long_to_int4 i) = (m mod 8) OR push_bit 3 (s + 1)"
      using False by (simp add: long_to_int4_def Let_def nb_def [symmetric] s_def [symmetric] unsigned_or_eq)
    also have "\<dots> = m mod 8 + push_bit 3 (s + 1)"
      by (rule disjunctive_add_eq_or [symmetric])
        (auto simp: bit_eq_iff bit_simps take_bit_eq_mod [of 3 m, simplified, symmetric])
    also have "\<dots> = m + 8 * s"
    proof -
      have "m mod 8 + 8 = m" using m8 m16 by presburger
      then show ?thesis by (simp add: push_bit_eq_mult)
    qed
    finally show ?thesis
      using that [of s] m8 m16 nb by (simp add: norm_shift_def m_def)
  qed
qed

lemma norm_shift_mono:
  assumes "norm_shift s i" "norm_shift t j" "unat i \<le> unat j"
  shows "unat i div 2 ^ s + 8 * s \<le> unat j div 2 ^ t + 8 * t"
proof (cases "s = t")
  case True
  then show ?thesis using assms(3) by (simp add: div_le_mono)
next
  case False
  show ?thesis
  proof (cases "s < t")
    case True
    have "unat i div 2 ^ s < 16" "8 \<le> unat j div 2 ^ t" using assms True by (auto simp: norm_shift_def)
    then show ?thesis using True by linarith
  next
    case False
    with \<open>s \<noteq> t\<close> have "t < s" by simp
    have "16 * 2 ^ t \<le> 8 * (2::nat) ^ s"
      using power_increasing [of "Suc t" s "2::nat"] \<open>t < s\<close> by simp
    also have "\<dots> \<le> unat i" using assms(1) \<open>t < s\<close> by (auto simp: norm_shift_def less_eq_div_iff_mult_less_eq)
    finally have "16 \<le> unat j div 2 ^ t" using assms(3) by (simp add: less_eq_div_iff_mult_less_eq)
    then show ?thesis using assms(2) by (simp add: norm_shift_def)
  qed
qed

lemma long_to_int4_mono: "unat i \<le> unat j \<Longrightarrow> unat (long_to_int4 i) \<le> unat (long_to_int4 j)"
  by (rule unat_long_to_int4 [of i], rule unat_long_to_int4 [of j]) (simp add: norm_shift_mono)

lemma unat_int4_to_long:
  assumes "unat e = m + 8 * s" "m < 16" "s = 0 \<or> 8 \<le> m" "s \<le> 60"
  shows "unat (int4_to_long e) = m * 2 ^ s"
proof -
  have e7: "unat (e AND 7) = unat e mod 8"
    using take_bit_eq_mask [of 3 "unat e"] by (simp add: unsigned_and_eq take_bit_eq_mod mask_eq_exp_minus_1)
  have sh: "unat (drop_bit 3 e) = unat e div 8"
    using unat_drop_bit_eq [of 3 e] drop_bit_eq_div [of 3 "unat e"] by simp
  have b: "unat (ucast (e AND 7) :: u64) = unat e mod 8"
    using e7 by (simp add: unsigned_ucast_eq take_bit_nat_eq_self)
  show ?thesis
  proof (cases "unat e < 8")
    case True
    then have "drop_bit 3 e = 0" using sh by (simp add: unat_eq_0)
    moreover have "s = 0" "m = unat e" using True assms by auto
    ultimately show ?thesis using True b by (simp add: int4_to_long_def Let_def)
  next
    case False
    have m8: "8 \<le> m" using False assms by auto
    then have "m div 8 = 1" "m mod 8 = m - 8" using assms(2) by presburger+
    then have d: "unat e div 8 = s + 1" "unat e mod 8 = m - 8" using assms(1) by simp_all
    then have "drop_bit 3 e \<noteq> 0" using sh by auto
    then have "unat (drop_bit 3 e - 1) = s" using sh d by (simp add: unat_minus_one)
    moreover have "unat (ucast (e AND 7) OR 8 :: u64) = m"
    proof -
      have "unat (ucast (e AND 7) OR 8 :: u64) = (m - 8) OR 8" using b d by (simp add: unsigned_or_eq)
      moreover have "m - 8 \<in> {0, 1, 2, 3, 4, 5, 6, 7}" using assms(2) by auto
      then have "(m - 8) OR 8 = (m - 8) + 8" by auto
      ultimately show ?thesis using m8 by simp
    qed
    moreover have "m * 2 ^ s < 2 ^ 64"
    proof -
      have "m * 2 ^ s < 16 * 2 ^ s" using assms(2) by simp
      also have "\<dots> = 2 ^ (s + 4)" by (simp add: power_add)
      also have "\<dots> \<le> 2 ^ 64" using assms(4) by (intro power_increasing) auto
      finally show ?thesis .
    qed
    ultimately show ?thesis using \<open>drop_bit 3 e \<noteq> 0\<close>
      using unat_push_bit [of "ucast (e AND 7) OR 8 :: u64" s] by (simp add: int4_to_long_def Let_def)
  qed
qed

lemma unat_int_to_byte4:
  assumes "unat i \<le> 0x7FFFFFFF"
  shows "unat (int_to_byte4 i) =
    (if unat i < 24 then unat i else 24 + unat (long_to_int4 (ucast (i - 24))))"
proof (cases "unat i < 24")
  case True
  then show ?thesis using assms
    by (simp add: int_to_byte4_def Let_def word_less_nat_alt min_def word_le_nat_alt unsigned_ucast_eq take_bit_nat_eq_self)
next
  case False
  have "unat (long_to_int4 (ucast (i - 24))) \<le> unat (long_to_int4 0x7FFFFFFF)"
  proof (rule long_to_int4_mono)
    show "unat (ucast (i - 24) :: u64) \<le> unat (0x7FFFFFFF :: u64)" 
      using assms False by (simp add: unsigned_ucast_eq take_bit_nat_eq_self unat_sub word_le_nat_alt)
  qed
  moreover have "unat (long_to_int4 0x7FFFFFFF) = 231" by code_simp
  ultimately have "unat (24 + long_to_int4 (ucast (i - 24))) = 24 + unat (long_to_int4 (ucast (i - 24)))"
      and "24 + unat (long_to_int4 (ucast (i - 24))) < 256"
    by (simp_all add: unat_word_ariths)
  then show ?thesis using assms False
    by (simp add: int_to_byte4_def Let_def word_less_nat_alt min_def word_le_nat_alt unsigned_ucast_eq take_bit_nat_eq_self)
qed

lemma int_to_byte4_clamp: "int_to_byte4 i = int_to_byte4 (min i 0x7FFFFFFF)"
  by (simp add: int_to_byte4_def)

lemma int_to_byte4_mono:
  assumes "i \<le> j"
  shows "int_to_byte4 i \<le> int_to_byte4 j"
proof -
  define a b where "a = min i 0x7FFFFFFF" and "b = min j 0x7FFFFFFF"
  have ab: "unat a \<le> unat b" "unat a \<le> 0x7FFFFFFF" "unat b \<le> 0x7FFFFFFF"
    using assms by (auto simp: a_def b_def word_le_nat_alt min_def)
  have "unat (int_to_byte4 a) \<le> unat (int_to_byte4 b)"
    using ab by (auto simp: unat_int_to_byte4 intro!: long_to_int4_mono
        simp: unsigned_ucast_eq take_bit_nat_eq_self unat_sub word_le_nat_alt)
  then show ?thesis
    using int_to_byte4_clamp [of i] int_to_byte4_clamp [of j] by (simp add: a_def b_def word_le_nat_alt)
qed

lemma unat_byte4_to_int:
  assumes "24 \<le> unat b" "unat b = 24 + (m + 8 * s)" "m < 16" "s = 0 \<or> 8 \<le> m"
  shows "unat (byte4_to_int b) = 24 + m * 2 ^ s"
proof -
  have b: "unat (ucast b :: u32) = unat b"
    using unat_less_256 [of b] by (simp add: unsigned_ucast_eq take_bit_nat_eq_self)
  have s: "s \<le> 27" using assms(2,4) unat_less_256 [of b] by auto
  have "unat (ucast b - 24 :: u32) = m + 8 * s"
    using assms(1,2) b by (simp add: unat_sub word_le_nat_alt)
  then have i: "unat (int4_to_long (ucast b - 24)) = m * 2 ^ s"
    using assms(3,4) s by (intro unat_int4_to_long) auto
  have "m * 2 ^ s \<le> 15 * (2::nat) ^ 27"
    using assms(3) s by (intro mult_le_mono power_increasing) auto
  then have "unat (24 + int4_to_long (ucast b - 24)) = 24 + m * 2 ^ s"
    using i by (simp add: unat_word_ariths)
  with \<open>m * 2 ^ s \<le> 15 * 2 ^ 27\<close> show ?thesis
    using assms(1) b by (simp add: byte4_to_int_def Let_def word_less_nat_alt unsigned_ucast_eq take_bit_nat_eq_self)
qed

lemma byte4_to_int_small: "unat b < 24 \<Longrightarrow> unat (byte4_to_int b) = unat b"
  by (simp add: byte4_to_int_def Let_def word_less_nat_alt unsigned_ucast_eq take_bit_nat_eq_self)

lemma byte4_to_int_le:
  assumes "unat i \<le> 0x7FFFFFFF"
  shows "unat (byte4_to_int (int_to_byte4 i)) \<le> unat i \<and>
    unat i \<le> unat (byte4_to_int (int_to_byte4 i)) + unat i div 8"
proof (cases "unat i < 24")
  case True
  then show ?thesis using assms by (simp add: byte4_to_int_small unat_int_to_byte4)
next
  case False
  define j :: u64 where "j = ucast (i - 24)"
  have j: "unat j = unat i - 24"
    using assms False by (simp add: j_def unsigned_ucast_eq take_bit_nat_eq_self unat_sub word_le_nat_alt)
  obtain s where s: "norm_shift s j" "unat (long_to_int4 j) = unat j div 2 ^ s + 8 * s"
    by (rule unat_long_to_int4 [of j])
  have enc: "unat (int_to_byte4 i) = 24 + (unat j div 2 ^ s + 8 * s)"
    using assms False s by (simp add: unat_int_to_byte4 j_def)
  have dec: "unat (byte4_to_int (int_to_byte4 i)) = 24 + unat j div 2 ^ s * 2 ^ s"
    by (rule unat_byte4_to_int [OF _ enc]) (use s enc in \<open>auto simp: norm_shift_def\<close>)
  have "unat j div 2 ^ s * 2 ^ s \<le> unat j" by simp
  moreover have "unat j \<le> unat j div 2 ^ s * 2 ^ s + unat j div 8"
  proof (cases "s = 0")
    case False
    then have "8 \<le> unat j div 2 ^ s" using s(1) by (simp add: norm_shift_def)
    then have "8 * 2 ^ s \<le> unat j" by (simp add: less_eq_div_iff_mult_less_eq)
    then have "2 ^ s \<le> unat j div 8" by (simp add: less_eq_div_iff_mult_less_eq ac_simps)
    moreover have "unat j mod 2 ^ s < 2 ^ s" by simp
    moreover have "unat j = unat j div 2 ^ s * 2 ^ s + unat j mod 2 ^ s"
      by (rule div_mult_mod_eq [symmetric])
    ultimately show ?thesis by linarith
  qed simp
  ultimately show ?thesis using dec j False by linarith
qed

lemma int_to_byte4_byte4_to_int: "int_to_byte4 (byte4_to_int b) = b"
proof (cases "unat b < 24")
  case True
  then have "unat (byte4_to_int b) = unat b" by (rule byte4_to_int_small)
  with True show ?thesis by (simp add: unat_int_to_byte4 word_unat_eq_iff)
next
  case False
  define e where "e = unat b - 24"
  define s m where "s = e div 8 - 1" and "m = e - 8 * s"
  have e: "e < 232" "unat b = 24 + e" using False unat_less_256 [of b] by (auto simp: e_def)
  have ms: "unat b = 24 + (m + 8 * s)" "m < 16" "s = 0 \<or> 8 \<le> m" "s \<le> 27"
    using e by (auto simp: s_def m_def)
  have dec: "unat (byte4_to_int b) = 24 + m * 2 ^ s"
    using False ms by (intro unat_byte4_to_int) auto
  have "m * 2 ^ s \<le> 15 * (2::nat) ^ 27"
    using ms by (intro mult_le_mono power_increasing) auto
  then have j: "unat (ucast (byte4_to_int b - 24) :: u64) = m * 2 ^ s" and le: "unat (byte4_to_int b) \<le> 0x7FFFFFFF"
    using dec by (simp_all add: unsigned_ucast_eq take_bit_nat_eq_self unat_sub word_le_nat_alt)
  obtain t where t: "norm_shift t (ucast (byte4_to_int b - 24))"
     "unat (long_to_int4 (ucast (byte4_to_int b - 24))) = m * 2 ^ s div 2 ^ t + 8 * t"
    using unat_long_to_int4 [of "ucast (byte4_to_int b - 24)"] j by metis
  have "norm_shift s (ucast (byte4_to_int b - 24))" using j ms by (simp add: norm_shift_def)
  from norm_shift_mono [OF this t(1)] norm_shift_mono [OF t(1) this]
  have "m * 2 ^ s div 2 ^ t + 8 * t = m + 8 * s" using j by simp
  then have "unat (int_to_byte4 (byte4_to_int b)) = unat b"
    using unat_int_to_byte4 [OF le] t(2) dec ms(1) by simp
  then show ?thesis by (simp add: word_unat_eq_iff)
qed

lemma float_to_byte315_roundtrip: "float_to_byte315 (byte315_to_float b) = b"
proof (cases "b = 0")
  case True
  then show ?thesis by (simp add: float_to_byte315_def byte315_to_float_def byte_to_float_def float_to_byte_def)
next
  case False
  define f where "f = byte315_to_float b"
  have b: "0 < unat b" "unat b < 256" using False unat_less_256 [of b] by (simp_all add: unat_gt_0)
  have u: "unat (ucast b :: u32) = unat b"
    using b by (simp add: unsigned_ucast_eq take_bit_nat_eq_self)
  have p: "unat (push_bit 21 (ucast b :: u32)) = unat b * 2 ^ 21"
    using b by (subst unat_push_bit) (simp_all add: u)
  have f: "unat f = unat b * 2 ^ 21 + 805306368"
    using False b p by (simp add: f_def byte315_to_float_def byte_to_float_def unat_word_ariths)
  have "unat (drop_bit 21 f) = unat b + 384"
    using unat_drop_bit_eq [of 21 f] drop_bit_eq_div [of 21 "unat f"] f by simp
  then have sf: "signed_drop_bit 21 f = ucast b + 384" and "unat (ucast b + 384 :: u32) = unat b + 384"
    using f b signed_drop_bit_nonneg [of f 21] u by (simp_all add: word_unat_eq_iff unat_word_ariths)
  then have "sint (ucast b + 384 :: u32) = int (unat b) + 384"
    using b sint_eq_unat [of "ucast b + 384 :: u32"] by simp
  moreover have "int (unat b) = uint b" by simp
  with b have "0 < uint b" "uint b < 256" by linarith+
  moreover have "ucast (ucast b :: u32) = b" by (rule bit_word_eqI) (simp add: bit_simps)
  ultimately show ?thesis using sf
    by (simp add: float_to_byte315_def float_to_byte_def f_def [symmetric] Let_def)
qed

section \<open>Properties\<close>

text \<open>
  Zigzag is a bijection in both widths, and the 64-bit code of a value of small magnitude is
  small: a non-negative \<open>v\<close> is \<open>2 * v\<close>, a negative one \<open>- 2 * v - 1\<close>.
\<close>

theorem zigzag_correct:
  "decode (encode v) = v \<and> encode (decode u) = u \<and>
   decode_i32 (encode_i32 w) = w \<and> encode_i32 (decode_i32 x) = x \<and>
   uint (encode v) = (if 0 \<le> sint v then 2 * sint v else - 2 * sint v - 1)"
  by (simp only: decode_encode encode_decode decode_encode_i32 encode_decode_i32 uint_encode simp_thms)

text \<open>
  The Morton code of two 32-bit values gives both back: \<open>deinterleave\<close> recovers the even
  half, and the odd half after a shift by one; \<open>flip_flop\<close> swaps the two halves.
\<close>

theorem interleave_correct:
  "deinterleave (interleave e d) = ucast e \<and>
   deinterleave (drop_bit 1 (interleave e d)) = ucast d \<and>
   flip_flop (interleave e d) = interleave d e"
proof (intro conjI bit_word_eqI)
  fix n assume n: "n < LENGTH(64)"
  then show "bit (deinterleave (interleave e d)) n = bit (ucast e :: i64) n"
    using bit_imp_le_length [of e n]
    by (cases "n < 32") (auto simp: bit_deinterleave bit_interleave bit_simps)
  from n show "bit (deinterleave (drop_bit 1 (interleave e d))) n = bit (ucast d :: i64) n"
    using bit_imp_le_length [of d n]
    by (cases "n < 32") (auto simp: bit_deinterleave bit_interleave bit_simps)
  from n show "bit (flip_flop (interleave e d)) n = bit (interleave d e) n"
    by (auto simp: bit_flip_flop bit_interleave elim!: oddE)
qed

text \<open>
  For a positive \<open>v\<close>, \<open>next_highest_power_of_two\<close> returns the least power of two that is at
  least \<open>v\<close> (read as unsigned: past \<open>2 ^ 30\<close> it is \<open>i32::MIN\<close>, which is \<open>2 ^ 31\<close>).
\<close>

theorem next_highest_power_of_two_i32_correct:
  assumes "0 < sint v"
  shows "\<exists>n \<le> 31. unat (next_highest_power_of_two_i32 v) = 2 ^ n \<and> unat v \<le> 2 ^ n \<and> 2 ^ n < 2 * unat v"
proof -
  define w where "w = v - 1"
  let ?n = "32 - leading_zeros w"
  have "v \<noteq> 0" using assms by auto
  then have v: "unat w + 1 = unat v" by (simp add: w_def unat_minus_one unat_gt_0)
  have "sint w = sint v - 1"
    using assms sint_lt [of v] by (simp add: w_def sint_word_ariths signed_take_bit_int_eq_self)
  then have w: "\<not> bit w 31" using assms bit_last_iff [of w] by simp
  have n: "?n \<le> 31"
  proof (cases "w = 0")
    case False
    then have "leading_zeros w = 0 \<Longrightarrow> bit w 31" using bit_leading_zeros [of w] by simp
    with w have "leading_zeros w \<noteq> 0" by blast
    then show ?thesis by simp
  qed simp
  have "next_highest_power_of_two_i32 v = 2 ^ ?n"
    using next_highest_power_of_two_mask [of v] w by (simp add: w_def mask_eq_exp_minus_1)
  moreover have "unat (2 ^ ?n :: i32) = 2 ^ ?n" using n by (simp add: unat_power2)
  ultimately show ?thesis
    using n power_of_two_bracket [of w] v by (intro exI [of _ ?n]) simp
qed

theorem next_highest_power_of_two_i32_correct_witness:
  "\<exists>n \<le> 31. unat (next_highest_power_of_two_i32 1000) = 2 ^ n \<and> 1000 \<le> (2::nat) ^ n \<and> (2::nat) ^ n < 2000"
  using next_highest_power_of_two_i32_correct [of 1000] by simp

text \<open>
  C38: The norm byte is monotone in the field length, never over-estimates it, loses at most an
  eighth of it, and every byte value re-encodes to itself.
\<close>

theorem norm_byte_correct:
  "(i \<le> j \<longrightarrow> int_to_byte4 i \<le> int_to_byte4 j) \<and>
   (unat i \<le> 0x7FFFFFFF \<longrightarrow>
      unat (byte4_to_int (int_to_byte4 i)) \<le> unat i \<and>
      unat i \<le> unat (byte4_to_int (int_to_byte4 i)) + unat i div 8) \<and>
   int_to_byte4 (byte4_to_int b) = b"
  using int_to_byte4_mono byte4_to_int_le int_to_byte4_byte4_to_int by blast

theorem norm_byte_correct_witness:
  "int_to_byte4 100 \<le> int_to_byte4 1000 \<and>
   unat (byte4_to_int (int_to_byte4 100)) \<le> 100 \<and>
   100 \<le> unat (byte4_to_int (int_to_byte4 100)) + 12 \<and>
   int_to_byte4 (byte4_to_int 77) = 77"
  using norm_byte_correct [of 100 1000 77] by simp

end
