(* ===== verification/Fixed_Bit_Set.thy ===== *)
theory Fixed_Bit_Set
  imports Bit_Kernels
begin

text \<open>
  \<open>lucene-util\<close>'s \<open>FixedBitSet\<close> (\<open>fixed_bit_set.rs\<close>) with the scalar population-count kernels it
  calls (\<open>popcount.rs\<close>). A bit set is a vector of 64-bit words and a length; \<open>bits_of\<close> is the set of
  indices it stands for and \<open>wf\<close> the type invariant (exactly \<open>bits2words num_bits\<close> words, no ghost
  bit past \<open>num_bits\<close>). Each operation is one definition; an operation that can panic returns
  \<open>panics\<close>, and \<open>index >> 6\<close>, \<open>index & 63\<close> on a \<open>usize\<close> are \<open>div 64\<close>, \<open>mod 64\<close>. The AVX kernels that
  compute the same counts and ors on CPUs that have them are not modelled.
\<close>

unbundle bit_operations_syntax

section \<open>Word arrays\<close>

definition bits2words :: "nat \<Rightarrow> nat" where
  "bits2words num_bits = (if num_bits = 0 then 0 else (num_bits - 1) div 64 + 1)"

definition ghost_bits_clear :: "u64 list \<Rightarrow> nat \<Rightarrow> bool" where
  "ghost_bits_clear ws num_bits =
     (if num_bits mod 64 = 0 then True
      else let msk = push_bit (num_bits mod 64) (- 1) in
           ws ! (bits2words num_bits - 1) AND msk = 0)"

definition FROM_BIT :: "nat \<Rightarrow> u64" where
  "FROM_BIT k = push_bit k (- 1)"

function scan_set :: "u64 list \<Rightarrow> nat \<Rightarrow> u64 \<Rightarrow> nat option" where
  "scan_set ws i word =
     (if word \<noteq> 0 then Some (i * 64 + trailing_zeros word)
      else if i + 1 < length ws then scan_set ws (i + 1) (ws ! (i + 1))
      else None)"
  by pat_completeness auto
termination by (relation "measure (\<lambda>(ws, i, word). length ws - i)") auto

definition next_set_bit_in_words :: "u64 list \<Rightarrow> nat \<Rightarrow> nat option" where
  "next_set_bit_in_words ws from =
     (let i = from div 64 in
      if i < length ws then scan_set ws i (ws ! i AND FROM_BIT (from mod 64)) else None)"

function scan_clear :: "u64 list \<Rightarrow> nat \<Rightarrow> u64 \<Rightarrow> nat \<Rightarrow> nat" where
  "scan_clear ws i word end =
     (if word \<noteq> - 1 then i * 64 + trailing_zeros (NOT word)
      else if i + 1 < length ws then scan_clear ws (i + 1) (ws ! (i + 1)) end
      else end)"
  by pat_completeness auto
termination by (relation "measure (\<lambda>(ws, i, word, end). length ws - i)") auto

definition next_clear_bit_in_words :: "u64 list \<Rightarrow> nat \<Rightarrow> nat" where
  "next_clear_bit_in_words ws from =
     (let end = saturating_mul (length ws) 64 in
      if end \<le> from then end
      else let i = from div 64 in scan_clear ws i (ws ! i OR NOT (FROM_BIT (from mod 64))) end)"

section \<open>Population counts\<close>

datatype Op = And | Or | AndNot

fun apply_op :: "Op \<Rightarrow> u64 \<Rightarrow> u64 \<Rightarrow> u64" where
  "apply_op And x y = x AND y"
| "apply_op Or x y = x OR y"
| "apply_op AndNot x y = x AND NOT y"

text \<open>Four accumulators over chunks of four words, then the remainder.\<close>

fun count_chunks :: "nat \<times> nat \<times> nat \<times> nat \<Rightarrow> u64 list \<Rightarrow> (nat \<times> nat \<times> nat \<times> nat) \<times> u64 list" where
  "count_chunks (a0, a1, a2, a3) (w0 # w1 # w2 # w3 # ws) =
     count_chunks (a0 + count_ones w0, a1 + count_ones w1, a2 + count_ones w2, a3 + count_ones w3) ws"
| "count_chunks acc ws = (acc, ws)"

definition scalar_words :: "u64 list \<Rightarrow> nat" where
  "scalar_words ws =
     (case count_chunks (0, 0, 0, 0) ws of
        ((a0, a1, a2, a3), rest) \<Rightarrow> foldl (+) (foldl (+) 0 (map count_ones rest)) [a0, a1, a2, a3])"

fun count_chunks2 ::
  "Op \<Rightarrow> nat \<times> nat \<times> nat \<times> nat \<Rightarrow> u64 list \<Rightarrow> u64 list \<Rightarrow> (nat \<times> nat \<times> nat \<times> nat) \<times> u64 list \<times> u64 list"
  where
  "count_chunks2 op (a0, a1, a2, a3) (x0 # x1 # x2 # x3 # xs) (y0 # y1 # y2 # y3 # ys) =
     count_chunks2 op
       (a0 + count_ones (apply_op op x0 y0), a1 + count_ones (apply_op op x1 y1),
        a2 + count_ones (apply_op op x2 y2), a3 + count_ones (apply_op op x3 y3)) xs ys"
| "count_chunks2 op acc xs ys = (acc, xs, ys)"

definition scalar_zip :: "u64 list \<Rightarrow> u64 list \<Rightarrow> Op \<Rightarrow> nat" where
  "scalar_zip a b op =
     (case count_chunks2 op (0, 0, 0, 0) a b of
        ((a0, a1, a2, a3), xs, ys) \<Rightarrow>
          foldl (+) (foldl (+) 0 (map (\<lambda>(x, y). count_ones (apply_op op x y)) (zip xs ys)))
            [a0, a1, a2, a3])"

definition popcount_zip :: "u64 list \<Rightarrow> u64 list \<Rightarrow> Op \<Rightarrow> nat" where
  "popcount_zip a b op =
     (let n = min (length a) (length b) in scalar_zip (take n a) (take n b) op)"

definition popcount_words :: "u64 list \<Rightarrow> nat" where
  "popcount_words ws = scalar_words ws"

section \<open>The bit set\<close>

record fixed_bit_set =
  words :: "u64 list"
  num_bits :: nat

definition from_words :: "u64 list \<Rightarrow> nat \<Rightarrow> fixed_bit_set panics" where
  "from_words ws n =
     assert_that (bits2words n \<le> length ws) (Inr \<lparr>words = ws, num_bits = n\<rparr>)"

definition new_bit_set :: "nat \<Rightarrow> fixed_bit_set" where
  "new_bit_set n = \<lparr>words = replicate (bits2words n) 0, num_bits = n\<rparr>"

definition len :: "fixed_bit_set \<Rightarrow> nat" where
  "len b = num_bits b"

definition is_empty :: "fixed_bit_set \<Rightarrow> bool" where
  "is_empty b = (num_bits b = 0)"

definition check :: "fixed_bit_set \<Rightarrow> nat \<Rightarrow> 'a panics \<Rightarrow> 'a panics" where
  "check b index r = (if num_bits b \<le> index then Inl IndexOutOfRange else r)"

definition get :: "fixed_bit_set \<Rightarrow> nat \<Rightarrow> bool panics" where
  "get b index =
     (if num_bits b \<le> index then Inl IndexOutOfRange
      else Inr (drop_bit (index mod 64) (words b ! (index div 64)) AND 1 \<noteq> 0))"

definition get_doc :: "fixed_bit_set \<Rightarrow> i32 \<Rightarrow> bool panics" where
  "get_doc b doc =
     (if sint doc < 0 then Inr False
      else let index = nat (sint doc) in if index < len b then get b index else Inr False)"

definition set_bit_at :: "fixed_bit_set \<Rightarrow> nat \<Rightarrow> fixed_bit_set panics" where
  "set_bit_at b index =
     (if num_bits b \<le> index then Inl IndexOutOfRange
      else Inr (b\<lparr>words := (words b)[index div 64 :=
                   words b ! (index div 64) OR push_bit (index mod 64) 1]\<rparr>))"

definition clear :: "fixed_bit_set \<Rightarrow> nat \<Rightarrow> fixed_bit_set panics" where
  "clear b index =
     (if num_bits b \<le> index then Inl IndexOutOfRange
      else Inr (b\<lparr>words := (words b)[index div 64 :=
                   words b ! (index div 64) AND NOT (push_bit (index mod 64) 1)]\<rparr>))"

definition clear_all :: "fixed_bit_set \<Rightarrow> fixed_bit_set" where
  "clear_all b = b\<lparr>words := replicate (length (words b)) 0\<rparr>"

definition cardinality :: "fixed_bit_set \<Rightarrow> nat" where
  "cardinality b = popcount_words (words b)"

definition next_set_bit :: "fixed_bit_set \<Rightarrow> nat \<Rightarrow> nat option" where
  "next_set_bit b index =
     (if num_bits b \<le> index then None
      else let i = index div 64 in
           scan_set (words b) i (words b ! i AND FROM_BIT (index mod 64)))"

text \<open>The inner loop of \<open>for_each_set_bit\<close>: the positions it visits in one word.\<close>

function word_positions :: "u64 \<Rightarrow> nat list" where
  "word_positions bits =
     (if bits \<noteq> 0 then trailing_zeros bits # word_positions (bits AND (bits - 1)) else [])"
  by pat_completeness auto
termination
proof (relation "measure (\<lambda>w. card {i. bit w i})", simp)
  fix w :: u64
  assume "w \<noteq> 0"
  have "finite {i. bit w i}"
    by (rule finite_subset [of _ "{..<64}"]) (auto dest: bit_imp_le_length)
  moreover have "{i. bit (w AND (w - 1)) i} = {i. bit w i} - {trailing_zeros w}"
    by (auto simp: bit_clear_lowest simp del: bit_and_iff)
  moreover have "trailing_zeros w \<in> {i. bit w i}"
    using bit_trailing_zeros [OF \<open>w \<noteq> 0\<close>] by simp
  ultimately show "(w AND (w - 1), w) \<in> measure (\<lambda>w. card {i. bit w i})"
    by (metis card_Diff1_less in_measure)
qed

text \<open>What \<open>for_each_set_bit\<close> passes to its callback, in order.\<close>

definition for_each_set_bit :: "fixed_bit_set \<Rightarrow> nat list" where
  "for_each_set_bit b =
     concat (map (\<lambda>(w, word). map (\<lambda>t. (w * 64) OR t) (word_positions word))
       (zip [0..<length (words b)] (words b)))"

definition or_words :: "u64 list \<Rightarrow> u64 list \<Rightarrow> u64 list" where
  "or_words dst src =
     (let n = min (length dst) (length src) in
      map2 (OR) (take n dst) (take n src) @ drop n dst)"

definition or_set :: "fixed_bit_set \<Rightarrow> fixed_bit_set \<Rightarrow> fixed_bit_set panics" where
  "or_set b other =
     assert_that (num_bits other \<le> num_bits b) (Inr (b\<lparr>words := or_words (words b) (words other)\<rparr>))"

definition and_set :: "fixed_bit_set \<Rightarrow> fixed_bit_set \<Rightarrow> fixed_bit_set" where
  "and_set b other =
     (let n = min (length (words b)) (length (words other)) in
      b\<lparr>words := map2 (AND) (take n (words b)) (take n (words other)) @
                   replicate (length (words b) - n) 0\<rparr>)"

text \<open>\<open>a.iter_mut().zip(b)\<close>: the common prefix is combined, the rest of \<open>a\<close> is kept.\<close>

definition zip_into :: "('a \<Rightarrow> 'b \<Rightarrow> 'a) \<Rightarrow> 'a list \<Rightarrow> 'b list \<Rightarrow> 'a list" where
  "zip_into f a b = map2 f a b @ drop (length b) a"

definition and_not :: "fixed_bit_set \<Rightarrow> fixed_bit_set \<Rightarrow> fixed_bit_set" where
  "and_not b other = b\<lparr>words := zip_into (\<lambda>x y. x AND NOT y) (words b) (words other)\<rparr>"

definition merge_words_at ::
  "fixed_bit_set \<Rightarrow> nat \<Rightarrow> u64 list \<Rightarrow> (u64 \<Rightarrow> u64 \<Rightarrow> u64) \<Rightarrow> bool \<times> fixed_bit_set" where
  "merge_words_at b word_offset ws op =
     (let own = bits2words (num_bits b);
          fit = min (own - word_offset) (length ws);
          in_range = list_all (\<lambda>w. w = 0) (drop fit ws)
      in if fit = 0 then (in_range, b)
         else let dst = take fit (drop word_offset (words b));
                  head_dst = map2 op (butlast dst) (take (fit - 1) ws);
                  last = ws ! (fit - 1);
                  cut = (word_offset + fit = own \<and> num_bits b mod 64 \<noteq> 0);
                  keep = push_bit (num_bits b mod 64) 1 - 1;
                  in_range = (if cut then in_range \<and> last AND NOT keep = 0 else in_range);
                  last = (if cut then last AND keep else last)
              in (in_range,
                  b\<lparr>words := take word_offset (words b) @ head_dst @ [op (List.last dst) last] @
                              drop (word_offset + fit) (words b)\<rparr>))"

definition or_words_at :: "fixed_bit_set \<Rightarrow> nat \<Rightarrow> u64 list \<Rightarrow> bool \<times> fixed_bit_set" where
  "or_words_at b word_offset ws = merge_words_at b word_offset ws (\<lambda>a b. a OR b)"

definition and_not_words_at :: "fixed_bit_set \<Rightarrow> nat \<Rightarrow> u64 list \<Rightarrow> bool \<times> fixed_bit_set" where
  "and_not_words_at b word_offset ws = merge_words_at b word_offset ws (\<lambda>a b. a AND NOT b)"

definition intersection_count :: "fixed_bit_set \<Rightarrow> fixed_bit_set \<Rightarrow> nat" where
  "intersection_count a b = popcount_zip (words a) (words b) And"

section \<open>Ranges, navigation and counting\<close>

definition range_masks :: "nat \<Rightarrow> nat \<Rightarrow> u64 \<times> u64" where
  "range_masks start end =
     (push_bit (start mod 64) (- 1), drop_bit ((64 - end mod 64) mod 64) (- 1))"

definition get_and_set :: "fixed_bit_set \<Rightarrow> nat \<Rightarrow> (bool \<times> fixed_bit_set) panics" where
  "get_and_set b index =
     check b index
       (let msk = push_bit (index mod 64) 1;
            word = words b ! (index div 64);
            was = (word AND msk \<noteq> 0)
        in Inr (was, b\<lparr>words := (words b)[index div 64 := word OR msk]\<rparr>))"

definition get_and_clear :: "fixed_bit_set \<Rightarrow> nat \<Rightarrow> (bool \<times> fixed_bit_set) panics" where
  "get_and_clear b index =
     check b index
       (let msk = push_bit (index mod 64) 1;
            word = words b ! (index div 64);
            was = (word AND msk \<noteq> 0)
        in Inr (was, b\<lparr>words := (words b)[index div 64 := word AND NOT msk]\<rparr>))"

definition flip :: "fixed_bit_set \<Rightarrow> nat \<Rightarrow> fixed_bit_set panics" where
  "flip b index =
     check b index
       (Inr (b\<lparr>words := (words b)[index div 64 :=
                  words b ! (index div 64) XOR push_bit (index mod 64) 1]\<rparr>))"

text \<open>
  The shape the three range updates share: one masked word, or a masked first word, whole words
  between and a masked last word. \<open>update_between f lo hi ws\<close> is the loop over \<open>words[lo..hi]\<close>.
\<close>

definition update_between :: "('a \<Rightarrow> 'a) \<Rightarrow> nat \<Rightarrow> nat \<Rightarrow> 'a list \<Rightarrow> 'a list" where
  "update_between f lo hi ws = take lo ws @ map f (take (hi - lo) (drop lo ws)) @ drop (max lo hi) ws"

definition flip_range :: "fixed_bit_set \<Rightarrow> nat \<Rightarrow> nat \<Rightarrow> fixed_bit_set panics" where
  "flip_range b start end =
     (if end \<le> start then Inr b
      else assert_that (end \<le> num_bits b)
        (let sw = start div 64; ew = (end - 1) div 64;
             (startmask, endmask) = range_masks start end;
             ws = words b
         in if sw = ew then Inr (b\<lparr>words := ws[sw := ws ! sw XOR (startmask AND endmask)]\<rparr>)
            else let ws = ws[sw := ws ! sw XOR startmask];
                     ws = update_between NOT (sw + 1) ew ws;
                     ws = ws[ew := ws ! ew XOR endmask]
                 in Inr (b\<lparr>words := ws\<rparr>)))"

definition set_range :: "fixed_bit_set \<Rightarrow> nat \<Rightarrow> nat \<Rightarrow> fixed_bit_set panics" where
  "set_range b start end =
     (if end \<le> start then Inr b
      else assert_that (end \<le> num_bits b)
        (let sw = start div 64; ew = (end - 1) div 64;
             (startmask, endmask) = range_masks start end;
             ws = words b
         in if sw = ew then Inr (b\<lparr>words := ws[sw := ws ! sw OR (startmask AND endmask)]\<rparr>)
            else let ws = ws[sw := ws ! sw OR startmask];
                     ws = update_between (\<lambda>_. - 1) (sw + 1) ew ws;
                     ws = ws[ew := ws ! ew OR endmask]
                 in Inr (b\<lparr>words := ws\<rparr>)))"

definition clear_range :: "fixed_bit_set \<Rightarrow> nat \<Rightarrow> nat \<Rightarrow> fixed_bit_set panics" where
  "clear_range b start end =
     (if end \<le> start then Inr b
      else assert_that (end \<le> num_bits b)
        (let sw = start div 64; ew = (end - 1) div 64;
             (startmask, endmask) = range_masks start end;
             startmask = NOT startmask; endmask = NOT endmask;
             ws = words b
         in if sw = ew then Inr (b\<lparr>words := ws[sw := ws ! sw AND (startmask OR endmask)]\<rparr>)
            else let ws = ws[sw := ws ! sw AND startmask];
                     ws = update_between (\<lambda>_. 0) (sw + 1) ew ws;
                     ws = ws[ew := ws ! ew AND endmask]
                 in Inr (b\<lparr>words := ws\<rparr>)))"

fun scan_back :: "u64 list \<Rightarrow> nat \<Rightarrow> nat option" where
  "scan_back ws 0 = None"
| "scan_back ws (Suc i) =
     (let word = ws ! i in
      if word \<noteq> 0 then Some (i * 64 + 63 - leading_zeros word) else scan_back ws i)"

definition prev_set_bit :: "fixed_bit_set \<Rightarrow> nat \<Rightarrow> nat option panics" where
  "prev_set_bit b index =
     check b index
       (let i = index div 64; sub = index mod 64;
            word = push_bit (63 - sub) (words b ! i)
        in if word \<noteq> 0 then Inr (Some (i * 64 + sub - leading_zeros word))
           else Inr (scan_back (words b) i))"

definition next_set_bit_in_range :: "fixed_bit_set \<Rightarrow> nat \<Rightarrow> nat \<Rightarrow> nat option" where
  "next_set_bit_in_range b start upper_bound =
     (let ub = min upper_bound (num_bits b) in
      if ub \<le> start then None
      else case next_set_bit_in_words (take (bits2words ub) (words b)) start of
             None \<Rightarrow> None
           | Some x \<Rightarrow> if x < ub then Some x else None)"

definition next_clear_bit_in_range :: "fixed_bit_set \<Rightarrow> nat \<Rightarrow> nat \<Rightarrow> nat option" where
  "next_clear_bit_in_range b start upper_bound =
     (if min upper_bound (num_bits b) \<le> start then None
      else let ub = min upper_bound (num_bits b);
               x = next_clear_bit_in_words (take (bits2words ub) (words b)) start
           in if x < ub then Some x else None)"

definition next_clear_bit :: "fixed_bit_set \<Rightarrow> nat \<Rightarrow> nat option" where
  "next_clear_bit b index = next_clear_bit_in_range b index (num_bits b)"

definition cardinality_range :: "fixed_bit_set \<Rightarrow> nat \<Rightarrow> nat \<Rightarrow> nat panics" where
  "cardinality_range b from to =
     assert_that (from \<le> to \<and> to \<le> num_bits b)
       (if from = to then Inr 0
        else let fw = from div 64; tw = (to - 1) div 64;
                 (startmask, endmask) = range_masks from to;
                 ws = words b
             in if fw = tw then Inr (count_ones (ws ! fw AND startmask AND endmask))
                else Inr (count_ones (ws ! fw AND startmask) +
                          popcount_words (take (tw - (fw + 1)) (drop (fw + 1) ws)) +
                          count_ones (ws ! tw AND endmask)))"

definition union_count :: "fixed_bit_set \<Rightarrow> fixed_bit_set \<Rightarrow> nat" where
  "union_count a b =
     (let n = min (length (words a)) (length (words b)) in
      popcount_zip (words a) (words b) Or + popcount_words (drop n (words a)) +
      popcount_words (drop n (words b)))"

definition and_not_count :: "fixed_bit_set \<Rightarrow> fixed_bit_set \<Rightarrow> nat" where
  "and_not_count a b =
     (let n = min (length (words a)) (length (words b)) in
      popcount_zip (words a) (words b) AndNot + popcount_words (drop n (words a)))"

definition xor_set :: "fixed_bit_set \<Rightarrow> fixed_bit_set \<Rightarrow> fixed_bit_set panics" where
  "xor_set b other =
     assert_that (length (words other) \<le> length (words b))
       (Inr (b\<lparr>words := zip_into (\<lambda>x y. x XOR y) (words b) (words other)\<rparr>))"

definition intersects :: "fixed_bit_set \<Rightarrow> fixed_bit_set \<Rightarrow> bool" where
  "intersects b other = list_ex (\<lambda>(x, y). x AND y \<noteq> 0) (zip (words b) (words other))"

definition scan_is_empty :: "fixed_bit_set \<Rightarrow> bool" where
  "scan_is_empty b = list_all (\<lambda>w. w = 0) (words b)"

definition or_mask :: "fixed_bit_set \<Rightarrow> nat \<Rightarrow> u64 \<Rightarrow> nat \<Rightarrow> fixed_bit_set panics" where
  "or_mask b start_bit msk mask_len =
     assert_that (start_bit + mask_len \<le> num_bits b)
       (let w = start_bit div 64; off = start_bit mod 64 in
        if w < length (words b) then
          let ws = (words b)[w := words b ! w OR push_bit off msk] in
          if 64 < off + mask_len then
            (if w + 1 < length ws
             then Inr (b\<lparr>words := ws[w + 1 := ws ! (w + 1) OR drop_bit (64 - off) msk]\<rparr>)
             else Inl IndexOutOfRange)
          else Inr (b\<lparr>words := ws\<rparr>)
        else Inl IndexOutOfRange)"

definition bits_at :: "fixed_bit_set \<Rightarrow> nat \<Rightarrow> nat \<Rightarrow> u64" where
  "bits_at b from n =
     (let w = from div 64; sh = from mod 64;
          v = drop_bit sh (words b ! w);
          v = (if 64 < sh + n then v OR push_bit (64 - sh) (words b ! (w + 1)) else v)
      in if n < 64 then v AND (push_bit n 1 - 1) else v)"

text \<open>
  The whole-word part of \<open>range_op\<close>: \<open>full\<close> destination words from \<open>dw\<close> on are combined with the
  source words from \<open>sw\<close> on, shifted down by \<open>shift\<close>.
\<close>

definition range_words ::
  "(u64 \<Rightarrow> u64 \<Rightarrow> u64) \<Rightarrow> u64 list \<Rightarrow> nat \<Rightarrow> u64 list \<Rightarrow> nat \<Rightarrow> nat \<Rightarrow> nat \<Rightarrow> u64 list" where
  "range_words word src sw dst dw full shift =
     take dw dst @
     map (\<lambda>i. word (dst ! (dw + i))
            (if shift = 0 then src ! (sw + i)
             else drop_bit shift (src ! (sw + i)) OR push_bit (64 - shift) (src ! (sw + i + 1))))
       [0..<full] @
     drop (dw + full) dst"

definition range_op ::
  "fixed_bit_set \<Rightarrow> nat \<Rightarrow> fixed_bit_set \<Rightarrow> nat \<Rightarrow> nat \<Rightarrow>
   (u64 \<Rightarrow> u64 \<Rightarrow> nat \<Rightarrow> nat \<Rightarrow> u64) \<Rightarrow> (u64 \<Rightarrow> u64 \<Rightarrow> u64) \<Rightarrow> fixed_bit_set panics" where
  "range_op source source_from dest dest_from count head word =
     assert_that
       ((case checked_add source_from count of None \<Rightarrow> False | Some e \<Rightarrow> e \<le> len source) \<and>
        (case checked_add dest_from count of None \<Rightarrow> False | Some e \<Rightarrow> e \<le> len dest))
       (if count = 0 then Inr dest
        else
          let n = (if dest_from mod 64 \<noteq> 0 then min (64 - dest_from mod 64) count else 0);
              dest = (if n = 0 then dest
                      else dest\<lparr>words := (words dest)[dest_from div 64 :=
                             head (words dest ! (dest_from div 64)) (bits_at source source_from n)
                               (dest_from mod 64) n]\<rparr>);
              source_from = source_from + n; dest_from = dest_from + n; count = count - n
          in if count = 0 then Inr dest
             else
               let full = count div 64;
                   sw = source_from div 64; dw = dest_from div 64;
                   shift = source_from mod 64;
                   dest = dest\<lparr>words := range_words word (words source) sw (words dest) dw full shift\<rparr>;
                   source_from = source_from + full * 64; dest_from = dest_from + full * 64;
                   count = count - full * 64
               in if 0 < count
                  then Inr (dest\<lparr>words := (words dest)[dest_from div 64 :=
                         head (words dest ! (dest_from div 64)) (bits_at source source_from count) 0 count]\<rparr>)
                  else Inr dest)"

definition or_range ::
  "fixed_bit_set \<Rightarrow> nat \<Rightarrow> fixed_bit_set \<Rightarrow> nat \<Rightarrow> nat \<Rightarrow> fixed_bit_set panics" where
  "or_range source source_from dest dest_from count =
     range_op source source_from dest dest_from count
       (\<lambda>d bits sh _. d OR push_bit sh bits) (\<lambda>d w. d OR w)"

definition and_range ::
  "fixed_bit_set \<Rightarrow> nat \<Rightarrow> fixed_bit_set \<Rightarrow> nat \<Rightarrow> nat \<Rightarrow> fixed_bit_set panics" where
  "and_range source source_from dest dest_from count =
     range_op source source_from dest dest_from count
       (\<lambda>d bits sh n.
          let span = (if n = 64 then - 1 else push_bit n 1 - 1)
          in d AND (push_bit sh bits OR NOT (push_bit sh span)))
       (\<lambda>d w. d AND w)"

definition ensure_capacity_internal :: "fixed_bit_set \<Rightarrow> nat \<Rightarrow> bool \<Rightarrow> fixed_bit_set" where
  "ensure_capacity_internal b desired_bit preserve =
     (if desired_bit < num_bits b then (if preserve then b else clear_all b)
      else let num_words = bits2words desired_bit;
               ws = (if preserve then words b else []);
               ws = (if length ws \<le> num_words
                     then let mn = num_words + 1; extra = max (mn div 8) 3
                          in ws @ replicate (mn + extra - length ws) 0
                     else ws)
           in \<lparr>words = ws, num_bits = length ws * 64\<rparr>)"

definition ensure_capacity :: "fixed_bit_set \<Rightarrow> nat \<Rightarrow> fixed_bit_set" where
  "ensure_capacity b desired_bit = ensure_capacity_internal b desired_bit True"

definition ensure_capacity_and_clear :: "fixed_bit_set \<Rightarrow> nat \<Rightarrow> fixed_bit_set" where
  "ensure_capacity_and_clear b desired_bit = ensure_capacity_internal b desired_bit False"

text \<open>
  \<open>for_each_word_in_range\<close>: the words it hands to its callback, masked to the range. The callbacks
  of \<open>for_each_in_range\<close> and \<open>into_array\<close> then walk the set bits of each.
\<close>

definition words_in_range :: "fixed_bit_set \<Rightarrow> nat \<Rightarrow> nat \<Rightarrow> (nat \<times> u64) list" where
  "words_in_range b from to =
     (if to \<le> from then []
      else let first = from div 64; final = (to - 1) div 64;
               tail = drop_bit (63 - (to - 1) mod 64) (- 1)
           in map (\<lambda>w. let bits = words b ! w;
                           bits = (if w = first then bits AND push_bit (from mod 64) (- 1) else bits);
                           bits = (if w = final then bits AND tail else bits)
                       in (w, bits)) [first..<final + 1])"

definition for_each_in_range :: "fixed_bit_set \<Rightarrow> nat \<Rightarrow> nat \<Rightarrow> i32 \<Rightarrow> i32 list panics" where
  "for_each_in_range b from to base =
     assert_that (from \<le> to \<and> to \<le> num_bits b)
       (Inr (concat (map (\<lambda>(w, bits). map (\<lambda>t. base + of_nat ((w * 64) OR t)) (word_positions bits))
               (words_in_range b from to))))"

definition into_array :: "fixed_bit_set \<Rightarrow> nat \<Rightarrow> nat \<Rightarrow> i32 \<Rightarrow> i32 list \<Rightarrow> (nat \<times> i32 list) panics" where
  "into_array b from to base array =
     assert_that (from \<le> to \<and> to \<le> num_bits b)
       (let docs = take (length array)
              (concat (map (\<lambda>(w, bits). map (\<lambda>t. base + of_nat ((w * 64) OR t)) (word_positions bits))
                 (words_in_range b from to)))
        in Inr (length docs, docs @ drop (length docs) array))"

definition apply_mask :: "fixed_bit_set \<Rightarrow> fixed_bit_set \<Rightarrow> nat \<Rightarrow> (unit option \<times> fixed_bit_set) panics" where
  "apply_mask b bit_set offset =
     (let count = min (num_bits bit_set) (num_bits b - offset);
          masked = (if offset \<le> num_bits b then and_range b offset bit_set 0 count else Inr bit_set)
      in case masked of
           Inl p \<Rightarrow> Inl p
         | Inr bit_set \<Rightarrow>
             if count < num_bits bit_set \<and> next_set_bit bit_set count \<noteq> None
             then Inr (None, bit_set) else Inr (Some (), bit_set))"

definition copy_of :: "nat \<Rightarrow> (nat \<Rightarrow> bool) \<Rightarrow> fixed_bit_set" where
  "copy_of n f =
     \<lparr>words = map (\<lambda>w. let base = w * 64; m = min (n - base) 64 in
                 foldl (\<lambda>acc i. acc OR push_bit i (if f (base + i) then 1 else 0)) 0 [0..<m])
               [0..<bits2words n],
      num_bits = n\<rparr>"

function approximate_loop :: "u64 list \<Rightarrow> nat \<Rightarrow> i64 \<Rightarrow> i64 \<times> nat" where
  "approximate_loop ws max_word pop =
     (if max_word + 1024 < length ws
      then approximate_loop ws (max_word + 1024)
             (foldl (\<lambda>pop i. pop + of_nat (count_ones (ws ! (max_word + i)))) pop [0..<16])
      else (pop, max_word))"
  by pat_completeness auto
termination by (relation "measure (\<lambda>(ws, max_word, pop). length ws - max_word)") auto

definition approximate_cardinality :: "fixed_bit_set \<Rightarrow> nat" where
  "approximate_cardinality b =
     (let num_words = length (words b) in
      if num_words \<le> 1024 then cardinality b
      else case approximate_loop (words b) 0 0 of
             (pop, max_word) \<Rightarrow>
               let pop = pop * of_nat ((1024 div 16 * num_words) div max_word)
               in unat (scast (ucast pop :: i32) :: u64))"

definition java_hash_code :: "fixed_bit_set \<Rightarrow> i32" where
  "java_hash_code b =
     (let h = foldl (\<lambda>h w. word_rotl 1 (h XOR w)) 0 (rev (words b))
      in ucast (signed_drop_bit 32 h XOR h) + 0x98761234)"

definition eq :: "fixed_bit_set \<Rightarrow> fixed_bit_set \<Rightarrow> bool" where
  "eq a b = (num_bits a = num_bits b \<and> words a = words b)"

definition into_words :: "fixed_bit_set \<Rightarrow> u64 list" where
  "into_words b = words b"

declare scan_set.simps [simp del] scan_clear.simps [simp del] word_positions.simps [simp del]
  approximate_loop.simps [simp del]

section \<open>The set a word array stands for\<close>

definition wbit :: "u64 list \<Rightarrow> nat \<Rightarrow> bool" where
  "wbit ws i = (i div 64 < length ws \<and> bit (ws ! (i div 64)) (i mod 64))"

definition bits_of :: "fixed_bit_set \<Rightarrow> nat set" where
  "bits_of b = {i. wbit (words b) i}"

definition wf_bits :: "fixed_bit_set \<Rightarrow> bool" where
  "wf_bits b = (length (words b) = bits2words (num_bits b) \<and> length (words b) * 64 \<le> usize_max \<and>
           ghost_bits_clear (words b) (num_bits b))"

lemma mod_64_less [simp]: "(i::nat) mod 64 < 64"
  by simp

lemma eq_div_mod_64: "i = j \<longleftrightarrow> i div 64 = j div 64 \<and> i mod 64 = j mod 64" for i j :: nat
  by (metis div_mult_mod_eq)

lemma div_mod_64_pos [simp]: "k < 64 \<Longrightarrow> (w * 64 + k) div 64 = w" "k < 64 \<Longrightarrow> (w * 64 + k) mod 64 = k"
  for w k :: nat
  by simp_all

lemma le_div_mod_64: "i \<le> j \<longleftrightarrow> i div 64 < j div 64 \<or> i div 64 = j div 64 \<and> i mod 64 \<le> j mod 64"
  for i j :: nat
proof -
  have lex: "a * 64 + x \<le> b * 64 + y \<longleftrightarrow> a < b \<or> a = b \<and> x \<le> y" if "x < 64" "y < 64" for a b x y :: nat
    using that by (cases a b rule: linorder_cases) auto
  show ?thesis
    using lex [of "i mod 64" "j mod 64" "i div 64" "j div 64"] by simp
qed

lemma div_less_bits2words [simp]: "i < n \<Longrightarrow> i div 64 < bits2words n"
  using div_le_mono [of i "n - 1" 64] by (auto simp: bits2words_def)

lemma div_pred: "n mod 64 \<noteq> 0 \<Longrightarrow> (n - 1) div 64 = n div 64" for n :: nat
proof -
  assume "n mod 64 \<noteq> 0"
  then have "n - 1 = n div 64 * 64 + (n mod 64 - 1)"
    using div_mult_mod_eq [of n 64] by linarith
  moreover have "n mod 64 - 1 < 64" by (rule le_less_trans [OF diff_le_self mod_64_less])
  ultimately show ?thesis by (metis div_mod_64_pos(1))
qed

lemma bits2words_mono: "m \<le> n \<Longrightarrow> bits2words m \<le> bits2words n"
  by (auto simp: bits2words_def div_le_mono)

lemma bits2words_bounds: "n \<le> bits2words n * 64" "bits2words n * 64 \<le> n + 63"
proof -
  have "(n - 1) div 64 * 64 + (n - 1) mod 64 = n - 1" "(n - 1) mod 64 < 64" by simp_all
  then show "n \<le> bits2words n * 64" "bits2words n * 64 \<le> n + 63"
    by (auto simp: bits2words_def)
qed

lemma bit_minus_1_64: "bit (- 1 :: u64) k \<longleftrightarrow> k < 64"
  by simp

lemma wbit_update:
  assumes "w < length ws"
  shows "wbit (ws[w := v]) i \<longleftrightarrow> (if i div 64 = w then bit v (i mod 64) else wbit ws i)"
  using assms by (auto simp: wbit_def nth_list_update)

lemma wbit_map2:
  assumes "length a = length b" and "\<And>x y k. bit (f x y) k \<longleftrightarrow> F (bit x k) (bit y k)"
    and "\<not> F False False"
  shows "wbit (map2 f a b) i \<longleftrightarrow> F (wbit a i) (wbit b i)"
  using assms by (cases "i div 64 < length b") (simp_all add: wbit_def)

lemma wbit_append:
  "wbit (a @ b) i \<longleftrightarrow> (if i div 64 < length a then wbit a i else wbit b (i - length a * 64))"
proof (cases "i div 64 < length a")
  case True
  then show ?thesis by (simp add: wbit_def nth_append)
next
  case False
  then have le: "length a * 64 \<le> i" by (simp add: less_eq_div_iff_mult_less_eq not_less)
  then obtain k where "i = length a * 64 + k" by (metis le_add_diff_inverse)
  with False show ?thesis by (auto simp: wbit_def nth_append)
qed

lemma wbit_take: "wbit (take n ws) i \<longleftrightarrow> i div 64 < n \<and> wbit ws i"
  by (auto simp: wbit_def)

lemma wbit_drop: "wbit (drop n ws) i \<longleftrightarrow> wbit ws (n * 64 + i)"
  by (cases "n \<le> length ws") (auto simp: wbit_def)

lemma wbit_replicate_0 [simp]: "\<not> wbit (replicate n 0) i"
  by (auto simp: wbit_def)

lemma wbit_Nil [simp]: "\<not> wbit [] i"
  by (simp add: wbit_def)

lemma mult_64_eq: "n mod 64 = 0 \<Longrightarrow> n \<le> m * 64 \<Longrightarrow> m * 64 \<le> n + 63 \<Longrightarrow> m * 64 = n" for n m :: nat
proof -
  assume a: "n mod 64 = 0" "n \<le> m * 64" "m * 64 \<le> n + 63"
  then obtain q where "n = q * 64" by (metis add.right_neutral div_mult_mod_eq)
  with a show ?thesis by simp
qed

lemma wf_iff:
  "wf_bits b \<longleftrightarrow> length (words b) = bits2words (num_bits b) \<and> length (words b) * 64 \<le> usize_max \<and>
     bits_of b \<subseteq> {..<num_bits b}"
proof -
  have "ghost_bits_clear (words b) (num_bits b) \<longleftrightarrow> bits_of b \<subseteq> {..<num_bits b}"
    if len: "length (words b) = bits2words (num_bits b)"
  proof (cases "num_bits b mod 64 = 0")
    case True
    then have "bits2words (num_bits b) * 64 = num_bits b"
      using bits2words_bounds [of "num_bits b"] mult_64_eq [of "num_bits b" "bits2words (num_bits b)"] by simp
    then have "\<forall>i. i div 64 < length (words b) \<longrightarrow> i < num_bits b"
      using len by (metis div_less_iff_less_mult zero_less_numeral)
    with True show ?thesis by (auto simp: ghost_bits_clear_def bits_of_def wbit_def)
  next
    case False
    define w where "w = bits2words (num_bits b) - 1"
    have wnb: "num_bits b div 64 = w" "w < length (words b)"
      using False len by (auto simp: bits2words_def w_def div_pred [simplified])
    have ge: "num_bits b \<le> i \<longleftrightarrow> w < i div 64 \<or> i div 64 = w \<and> num_bits b mod 64 \<le> i mod 64" for i
      using wnb by (auto simp: le_div_mod_64 [of "num_bits b"])
    have "bits_of b \<subseteq> {..<num_bits b} \<longleftrightarrow> (\<forall>i. num_bits b \<le> i \<longrightarrow> \<not> wbit (words b) i)"
      by (auto simp: bits_of_def subset_iff not_less [symmetric])
    also have "\<dots> \<longleftrightarrow> (\<forall>i. i div 64 = w \<longrightarrow> num_bits b mod 64 \<le> i mod 64 \<longrightarrow> \<not> bit (words b ! w) (i mod 64))"
      unfolding ge using wnb(2) len w_def by (auto simp: wbit_def)
    also
    have "\<dots> \<longleftrightarrow> (\<forall>k<64. num_bits b mod 64 \<le> k \<longrightarrow> \<not> bit (words b ! w) k)"
      by (metis div_mod_64_pos mod_64_less)
    also have "\<dots> \<longleftrightarrow> words b ! w AND push_bit (num_bits b mod 64) (- 1) = 0"
      by (auto simp: word_eq_0_iff_bits bit_simps)
    finally show ?thesis
      using False by (simp add: ghost_bits_clear_def w_def Let_def)
  qed
  then show ?thesis by (auto simp: wf_bits_def)
qed

lemma finite_wbit [simp]: "finite {i. wbit ws i}"
proof (rule finite_subset)
  show "{i. wbit ws i} \<subseteq> {..<length ws * 64}"
    by (auto simp: wbit_def div_less_iff_less_mult)
qed simp

lemma finite_bits_of [simp]: "finite (bits_of b)"
  by (simp add: bits_of_def)

lemma mem_bits_of: "i \<in> bits_of b \<longleftrightarrow> wbit (words b) i"
  by (simp add: bits_of_def)

lemma wf_word_index: "wf_bits b \<Longrightarrow> i < num_bits b \<Longrightarrow> i div 64 < length (words b)"
  by (simp add: wf_bits_def)

lemma wf_bound: "wf_bits b \<Longrightarrow> i \<in> bits_of b \<Longrightarrow> i < num_bits b"
  by (auto simp: wf_iff)

text \<open>An update of the words keeps the invariant when it adds no bit past the length.\<close>

lemma wf_words_update:
  assumes "wf_bits b" and "length ws = length (words b)" and "\<And>i. wbit ws i \<Longrightarrow> i < num_bits b"
  shows "wf_bits (b\<lparr>words := ws\<rparr>)"
  using assms by (auto simp: wf_iff bits_of_def)

section \<open>Single bits\<close>

lemma bit_at_mod: "drop_bit (i mod 64) w AND 1 \<noteq> 0 \<longleftrightarrow> bit w (i mod 64)" for w :: u64
  by (simp add: and_one_eq bit_iff_odd_drop_bit odd_iff_mod_2_eq_one)

lemma bit_single [simp]: "bit (2 ^ k :: u64) j \<longleftrightarrow> j = k \<and> k < 64"
  by (auto simp: bit_exp_iff)

lemma bit_and_not: "bit (x AND NOT y) k \<longleftrightarrow> bit x k \<and> \<not> bit y k" for x y :: u64
  by (auto simp: bit_simps dest: bit_imp_le_length)

lemma and_single: "w AND 2 ^ k \<noteq> 0 \<longleftrightarrow> bit w k" if "k < 64" for w :: u64
  using that by (auto simp: word_eq_0_iff_bits bit_and_iff bit_single)

lemma get_eq:
  "wf_bits b \<Longrightarrow> get b i = (if i < num_bits b then Inr (i \<in> bits_of b) else Inl IndexOutOfRange)"
  by (auto simp: get_def mem_bits_of wbit_def wf_word_index bit_at_mod)

lemma get_doc_eq: "wf_bits b \<Longrightarrow> get_doc b doc = Inr (0 \<le> sint doc \<and> nat (sint doc) \<in> bits_of b)"
  by (auto simp: get_doc_def len_def Let_def get_eq dest: wf_bound)

text \<open>Every single-bit update replaces one word; what it does to that bit decides the new set.\<close>

lemma word_update_refines:
  assumes "wf_bits b" and "i < num_bits b"
    and "\<And>k. k \<noteq> i mod 64 \<Longrightarrow> bit v k \<longleftrightarrow> bit (words b ! (i div 64)) k"
  defines "b' \<equiv> b\<lparr>words := (words b)[i div 64 := v]\<rparr>"
  shows "wf_bits b'" and "num_bits b' = num_bits b"
    and "bits_of b' = (if bit v (i mod 64) then insert i (bits_of b) else bits_of b - {i})"
proof -
  have w: "i div 64 < length (words b)" using assms by (simp add: wf_word_index)
  have bit: "wbit ((words b)[i div 64 := v]) j \<longleftrightarrow> (if j = i then bit v (i mod 64) else wbit (words b) j)" for j
    using w assms(3) [of "j mod 64"] by (auto simp: wbit_update eq_div_mod_64 [of j i]) (simp_all add: wbit_def)
  show "wf_bits b'" unfolding b'_def
    by (rule wf_words_update [OF \<open>wf_bits b\<close>])
       (use \<open>i < num_bits b\<close> wf_bound [OF \<open>wf_bits b\<close>] in \<open>auto simp: bit mem_bits_of split: if_splits\<close>)
  show "num_bits b' = num_bits b" by (simp add: b'_def)
  show "bits_of b' = (if bit v (i mod 64) then insert i (bits_of b) else bits_of b - {i})"
    by (auto simp: b'_def bits_of_def bit)
qed

lemma set_refines:
  assumes "wf_bits b" and "i < num_bits b"
  obtains b' where "set_bit_at b i = Inr b'" "wf_bits b'" "num_bits b' = num_bits b"
    "bits_of b' = insert i (bits_of b)"
  using word_update_refines [OF assms, of "words b ! (i div 64) OR push_bit (i mod 64) 1"] assms(2)
  by (simp add: set_bit_at_def bit_or_iff bit_single)

lemma clear_refines:
  assumes "wf_bits b" and "i < num_bits b"
  obtains b' where "clear b i = Inr b'" "wf_bits b'" "num_bits b' = num_bits b"
    "bits_of b' = bits_of b - {i}"
  using word_update_refines [OF assms, of "words b ! (i div 64) AND NOT (push_bit (i mod 64) 1)"] assms(2)
  by (simp add: clear_def bit_and_not)

lemma flip_refines:
  assumes "wf_bits b" and "i < num_bits b"
  obtains b' where "flip b i = Inr b'" "wf_bits b'" "num_bits b' = num_bits b"
    "bits_of b' = (if i \<in> bits_of b then bits_of b - {i} else insert i (bits_of b))"
  using word_update_refines [OF assms, of "words b ! (i div 64) XOR push_bit (i mod 64) 1"] assms
  by (simp add: flip_def check_def bit_xor_iff bit_single mem_bits_of wbit_def wf_word_index)

lemma get_and_set_eq:
  assumes "wf_bits b" and "i < num_bits b"
  shows "\<exists>b'. get_and_set b i = Inr (i \<in> bits_of b, b') \<and> set_bit_at b i = Inr b'"
  using assms by (simp add: get_and_set_def Let_def set_bit_at_def check_def and_single mem_bits_of wbit_def wf_word_index)

lemma get_and_clear_eq:
  assumes "wf_bits b" and "i < num_bits b"
  shows "\<exists>b'. get_and_clear b i = Inr (i \<in> bits_of b, b') \<and> clear b i = Inr b'"
  using assms by (simp add: get_and_clear_def Let_def clear_def check_def and_single mem_bits_of wbit_def wf_word_index)

lemma new_bit_set_refines: "bits2words n * 64 \<le> usize_max \<Longrightarrow> wf_bits (new_bit_set n) \<and> bits_of (new_bit_set n) = {}"
  by (auto simp: wf_iff new_bit_set_def bits_of_def)

lemma clear_all_refines: "wf_bits b \<Longrightarrow> wf_bits (clear_all b) \<and> bits_of (clear_all b) = {} \<and> num_bits (clear_all b) = num_bits b"
  by (auto simp: wf_iff clear_all_def bits_of_def)

section \<open>Boolean operations\<close>

lemma wbit_zip_into:
  assumes "\<And>x y k. bit (f x y) k \<longleftrightarrow> F (bit x k) (bit y k)" and "\<And>p. F p False = p"
    and "length b \<le> length a"
  shows "wbit (zip_into f a b) i \<longleftrightarrow> F (wbit a i) (wbit b i)"
  using assms by (cases "i div 64 < length b") (auto simp: zip_into_def wbit_def nth_append)

lemma length_zip_into [simp]: "length (zip_into f a b) = length a"
  by (simp add: zip_into_def)

lemma zip_into_take: "zip_into f a (take (length a) b) = zip_into f a b"
  by (cases "length b \<le> length a") (auto simp: zip_into_def intro!: nth_equalityI)

lemma or_words_eq: "length b \<le> length a \<Longrightarrow> or_words a b = zip_into (OR) a b"
  by (auto simp: or_words_def zip_into_def min_def Let_def intro!: nth_equalityI)

lemma words_mono: "wf_bits b \<Longrightarrow> wf_bits c \<Longrightarrow> num_bits c \<le> num_bits b \<Longrightarrow> length (words c) \<le> length (words b)"
  by (simp add: wf_bits_def bits2words_mono)

lemma or_refines:
  assumes "wf_bits b" and "wf_bits c" and "num_bits c \<le> num_bits b"
  obtains b' where "or_set b c = Inr b'" "wf_bits b'" "num_bits b' = num_bits b" "bits_of b' = bits_of b \<union> bits_of c"
proof -
  note len = words_mono [OF assms]
  have bit: "wbit (or_words (words b) (words c)) i \<longleftrightarrow> wbit (words b) i \<or> wbit (words c) i" for i
    using len by (simp add: or_words_eq wbit_zip_into bit_or_iff)
  have "wf_bits (b\<lparr>words := or_words (words b) (words c)\<rparr>)"
    using assms len by (intro wf_words_update)
      (auto simp: or_words_eq [OF len] bit [unfolded or_words_eq [OF len]] dest!: wf_bound [unfolded mem_bits_of])
  then show thesis
    using assms by (intro that [of "b\<lparr>words := or_words (words b) (words c)\<rparr>"]) (auto simp: or_set_def assert_that_def bits_of_def bit)
qed

lemma and_refines:
  assumes "wf_bits b" and "wf_bits c"
  shows "wf_bits (and_set b c)" and "num_bits (and_set b c) = num_bits b"
    and "bits_of (and_set b c) = bits_of b \<inter> bits_of c"
proof -
  have bit: "wbit (words (and_set b c)) i \<longleftrightarrow> wbit (words b) i \<and> wbit (words c) i" for i
    by (auto simp: and_set_def Let_def wbit_def nth_append bit_and_iff)
  show nb: "num_bits (and_set b c) = num_bits b" by (simp add: and_set_def Let_def)
  have "length (words (and_set b c)) = length (words b)" by (simp add: and_set_def Let_def)
  then show "wf_bits (and_set b c)"
    using assms(1) by (auto simp: wf_iff bits_of_def nb bit)
  show "bits_of (and_set b c) = bits_of b \<inter> bits_of c" by (auto simp: bits_of_def bit)
qed

lemma and_not_refines:
  assumes "wf_bits b" and "wf_bits c"
  shows "wf_bits (and_not b c)" and "num_bits (and_not b c) = num_bits b"
    and "bits_of (and_not b c) = bits_of b - bits_of c"
proof -
  have bit: "wbit (words (and_not b c)) i \<longleftrightarrow> wbit (words b) i \<and> \<not> wbit (words c) i" for i
  proof -
    have "wbit (words (and_not b c)) i \<longleftrightarrow> wbit (words b) i \<and> \<not> wbit (take (length (words b)) (words c)) i"
      using wbit_zip_into [of "\<lambda>x y. x AND NOT y" "\<lambda>p q. p \<and> \<not> q" "take (length (words b)) (words c)" "words b" i]
      by (simp add: and_not_def zip_into_take bit_and_not)
    then show ?thesis by (auto simp: wbit_take) (simp add: wbit_def)
  qed
  show nb: "num_bits (and_not b c) = num_bits b" by (simp add: and_not_def)
  have "length (words (and_not b c)) = length (words b)" by (simp add: and_not_def)
  then show "wf_bits (and_not b c)"
    using assms(1) by (auto simp: wf_iff bits_of_def nb bit)
  show "bits_of (and_not b c) = bits_of b - bits_of c" by (auto simp: bits_of_def bit)
qed

lemma xor_refines:
  assumes "wf_bits b" and "wf_bits c" and "num_bits c \<le> num_bits b"
  obtains b' where "xor_set b c = Inr b'" "wf_bits b'" "num_bits b' = num_bits b"
    "bits_of b' = (bits_of b - bits_of c) \<union> (bits_of c - bits_of b)"
proof -
  note len = words_mono [OF assms]
  have bit: "wbit (zip_into (XOR) (words b) (words c)) i \<longleftrightarrow> wbit (words b) i \<noteq> wbit (words c) i" for i
    using len by (simp add: wbit_zip_into bit_xor_iff)
  have "wf_bits (b\<lparr>words := zip_into (XOR) (words b) (words c)\<rparr>)"
    using assms by (intro wf_words_update) (auto simp: bit dest: wf_bound [unfolded mem_bits_of])
  then show thesis
    using assms len by (intro that [of "b\<lparr>words := zip_into (XOR) (words b) (words c)\<rparr>"]) (auto simp: xor_set_def assert_that_def bits_of_def bit)
qed

lemma intersects_eq: "intersects b c \<longleftrightarrow> bits_of b \<inter> bits_of c \<noteq> {}"
proof -
  have "intersects b c \<longleftrightarrow>
      (\<exists>w<min (length (words b)) (length (words c)). \<exists>k<64. bit (words b ! w) k \<and> bit (words c ! w) k)"
    by (simp add: intersects_def list_ex_iff set_zip Bex_def word_eq_0_iff_bits bit_and_iff) blast
  also have "\<dots> \<longleftrightarrow> (\<exists>i. wbit (words b) i \<and> wbit (words c) i)"
    by (auto simp: wbit_def) (metis div_mod_64_pos, metis mod_64_less)
  finally show ?thesis by (auto simp: bits_of_def)
qed

lemma scan_is_empty_eq: "scan_is_empty b \<longleftrightarrow> bits_of b = {}"
proof -
  have "scan_is_empty b \<longleftrightarrow> (\<forall>w<length (words b). \<forall>k<64. \<not> bit (words b ! w) k)"
    by (simp add: scan_is_empty_def list_all_length word_eq_0_iff_bits)
  also have "\<dots> \<longleftrightarrow> (\<forall>i. \<not> wbit (words b) i)"
    by (auto simp: wbit_def) (metis div_mod_64_pos)
  finally show ?thesis by (auto simp: bits_of_def)
qed

section \<open>Scans\<close>

text \<open>The first, respectively last, element of a set at or after, at or before, an index.\<close>

definition is_next :: "nat set \<Rightarrow> nat \<Rightarrow> nat option \<Rightarrow> bool" where
  "is_next S from r =
     (case r of
        None \<Rightarrow> S \<inter> {from..} = {}
      | Some x \<Rightarrow> x \<in> S \<and> from \<le> x \<and> S \<inter> {from..<x} = {})"

definition is_prev :: "nat set \<Rightarrow> nat \<Rightarrow> nat option \<Rightarrow> bool" where
  "is_prev S from r =
     (case r of
        None \<Rightarrow> S \<inter> {..from} = {}
      | Some x \<Rightarrow> x \<in> S \<and> x \<le> from \<and> S \<inter> {x<..from} = {})"

lemma is_next_unique: "is_next S i r \<Longrightarrow> is_next S i r' \<Longrightarrow> r = r'"
  by (auto simp: is_next_def disjoint_iff split: option.splits) (metis linorder_cases)

lemma is_next_cong:
  "is_next S i r \<Longrightarrow> (\<And>j. i' \<le> j \<Longrightarrow> j \<in> S' \<longleftrightarrow> i \<le> j \<and> j \<in> S) \<Longrightarrow> i' \<le> i \<Longrightarrow> is_next S' i' r"
  by (auto simp: is_next_def disjoint_iff split: option.splits)

lemma is_next_from:
  "is_next {j. from \<le> j \<and> j \<in> S} i r \<Longrightarrow> i \<le> from \<Longrightarrow> is_next S from r"
  by (cases r) (auto simp: is_next_def disjoint_iff)

lemma is_next_below:
  assumes "is_next S i r" and "\<And>j. j \<in> S' \<longleftrightarrow> j \<in> S \<and> j < u"
  shows "is_next S' i (case r of None \<Rightarrow> None | Some x \<Rightarrow> if x < u then Some x else None)"
  using assms by (cases r) (auto simp: is_next_def disjoint_iff)

lemma scan_set_next:
  assumes "i < length ws"
  shows "is_next ({j. j div 64 = i \<and> bit word (j mod 64)} \<union> {j. i < j div 64 \<and> wbit ws j}) (i * 64)
           (scan_set ws i word)"
  using assms
proof (induction ws i word rule: scan_set.induct)
  case (1 ws i word)
  let ?S = "{j. j div 64 = i \<and> bit word (j mod 64)} \<union> {j. i < j div 64 \<and> wbit ws j}"
  note scan_set.simps [of ws i word, simp]
  show ?case
  proof (cases "word = 0")
    case False
    then have t: "trailing_zeros word < 64" "bit word (trailing_zeros word)"
      using trailing_zeros_less [of word] by (auto simp: bit_trailing_zeros)
    have "j \<notin> ?S" if "i * 64 \<le> j" "j < i * 64 + trailing_zeros word" for j
    proof -
      define k where "k = j - i * 64"
      have "j = i * 64 + k" "k < 64" "k < trailing_zeros word" using that t by (auto simp: k_def)
      then show ?thesis using not_bit_below_trailing_zeros [of k word] by simp
    qed
    with False t show ?thesis by (auto simp: is_next_def)
  next
    case True
    show ?thesis
    proof (cases "i + 1 < length ws")
      case more: True
      have "is_next ({j. j div 64 = i + 1 \<and> bit (ws ! (i + 1)) (j mod 64)} \<union> {j. i + 1 < j div 64 \<and> wbit ws j})
         ((i + 1) * 64) (scan_set ws (i + 1) (ws ! (i + 1)))"
        using 1 True more by simp
      then have "is_next ?S (i * 64) (scan_set ws (i + 1) (ws ! (i + 1)))"
      proof (rule is_next_cong)
        fix j assume "i * 64 \<le> j"
        have "(i + 1) * 64 \<le> j \<longleftrightarrow> i + 1 \<le> j div 64"
          by (simp add: less_eq_div_iff_mult_less_eq)
        moreover have "i < j div 64 \<longleftrightarrow> j div 64 = i + 1 \<or> i + 1 < j div 64" by linarith
        ultimately show "j \<in> ?S \<longleftrightarrow> (i + 1) * 64 \<le> j \<and>
            j \<in> {j. j div 64 = i + 1 \<and> bit (ws ! (i + 1)) (j mod 64)} \<union> {j. i + 1 < j div 64 \<and> wbit ws j}"
          using True more by (auto simp: wbit_def)
      qed simp
      with True more show ?thesis by (simp add: scan_set.simps [of ws i 0])
    next
      case False
      with True show ?thesis by (auto simp: is_next_def wbit_def scan_set.simps [of ws i 0])
    qed
  qed
qed

lemma bit_FROM_BIT [simp]: "bit (FROM_BIT k) j \<longleftrightarrow> k \<le> j \<and> j < 64"
  by (auto simp: FROM_BIT_def bit_simps)

lemma scan_set_from:
  assumes "from div 64 < length ws"
  shows "is_next {j. wbit ws j} from (scan_set ws (from div 64) (ws ! (from div 64) AND FROM_BIT (from mod 64)))"
proof -
  let ?w = "from div 64"
  let ?S = "{j. j div 64 = ?w \<and> bit (ws ! ?w AND FROM_BIT (from mod 64)) (j mod 64)} \<union> {j. ?w < j div 64 \<and> wbit ws j}"
  have S: "?S = {j. from \<le> j \<and> wbit ws j}"
    using assms by (auto simp: wbit_def bit_and_iff le_div_mod_64 [of "from"])
  have "is_next {j. from \<le> j \<and> wbit ws j} (?w * 64)
      (scan_set ws ?w (ws ! ?w AND FROM_BIT (from mod 64)))"
    using scan_set_next [OF assms, of "ws ! ?w AND FROM_BIT (from mod 64)"] unfolding S .
  then show ?thesis
    by (intro is_next_from [of "from" "{j. wbit ws j}" "?w * 64"]) simp_all
qed

lemma next_set_bit_in_words_next: "is_next {j. wbit ws j} from (next_set_bit_in_words ws from)"
proof (cases "from div 64 < length ws")
  case True
  then show ?thesis using scan_set_from by (simp add: next_set_bit_in_words_def Let_def)
next
  case False
  have "\<not> wbit ws j" if "from \<le> j" for j
    using False div_le_mono [OF that, of 64] by (simp add: wbit_def)
  with False show ?thesis by (auto simp: next_set_bit_in_words_def is_next_def)
qed

lemma next_set_bit_next: "wf_bits b \<Longrightarrow> is_next (bits_of b) from (next_set_bit b from)"
proof (cases "num_bits b \<le> from")
  case True
  moreover assume "wf_bits b"
  ultimately show ?thesis by (auto simp: next_set_bit_def is_next_def dest: wf_bound)
next
  case False
  moreover assume "wf_bits b"
  ultimately show ?thesis
    using scan_set_from [of "from" "words b"] by (simp add: next_set_bit_def bits_of_def wf_word_index Let_def)
qed

lemma next_set_bit_in_range_next:
  assumes "wf_bits b"
  shows "is_next (bits_of b \<inter> {..<ub}) from (next_set_bit_in_range b from ub)"
proof -
  let ?u = "min ub (num_bits b)"
  show ?thesis
  proof (cases "?u \<le> from")
    case True
    then show ?thesis
      by (auto simp: next_set_bit_in_range_def is_next_def Let_def dest: wf_bound [OF assms])
  next
    case False
    let ?ws = "take (bits2words ?u) (words b)"
    have "j \<in> bits_of b \<inter> {..<ub} \<longleftrightarrow> j \<in> {j. wbit ?ws j} \<and> j < ?u" for j
      using wf_bound [OF assms, of j] by (auto simp: wbit_take mem_bits_of)
    then have "is_next (bits_of b \<inter> {..<ub}) from
      (case next_set_bit_in_words ?ws from of None \<Rightarrow> None | Some x \<Rightarrow> if x < ?u then Some x else None)"
      by (intro is_next_below [OF next_set_bit_in_words_next])
    with False show ?thesis by (simp add: next_set_bit_in_range_def Let_def)
  qed
qed

lemma scan_clear_next:
  assumes "i < length ws"
  shows "is_next ({j. j div 64 = i \<and> \<not> bit word (j mod 64)} \<union> {j. i < j div 64 \<and> \<not> wbit ws j}) (i * 64)
           (Some (scan_clear ws i word (length ws * 64)))"
  using assms
proof (induction ws i word "length ws * 64" rule: scan_clear.induct)
  case (1 ws i word)
  let ?S = "{j. j div 64 = i \<and> \<not> bit word (j mod 64)} \<union> {j. i < j div 64 \<and> \<not> wbit ws j}"
  note scan_clear.simps [of ws i word "length ws * 64", simp]
  show ?case
  proof (cases "word = - 1")
    case False
    then have "NOT word \<noteq> 0" by (metis bit.compl_zero bit.double_compl)
    then have t: "trailing_zeros (NOT word) < 64" "\<not> bit word (trailing_zeros (NOT word))"
      using trailing_zeros_less [of "NOT word"] bit_trailing_zeros [of "NOT word"] by (auto simp: bit_simps)
    have "j \<notin> ?S" if "i * 64 \<le> j" "j < i * 64 + trailing_zeros (NOT word)" for j
    proof -
      define k where "k = j - i * 64"
      have "j = i * 64 + k" "k < 64" "k < trailing_zeros (NOT word)" using that t by (auto simp: k_def)
      then show ?thesis using not_bit_below_trailing_zeros [of k "NOT word"] by (simp add: bit_simps)
    qed
    with False t show ?thesis by (auto simp: is_next_def)
  next
    case True
    show ?thesis
    proof (cases "i + 1 < length ws")
      case more: True
      have "is_next ({j. j div 64 = i + 1 \<and> \<not> bit (ws ! (i + 1)) (j mod 64)} \<union> {j. i + 1 < j div 64 \<and> \<not> wbit ws j})
         ((i + 1) * 64) (Some (scan_clear ws (i + 1) (ws ! (i + 1)) (length ws * 64)))"
        using 1 True more by simp
      then have "is_next ?S (i * 64) (Some (scan_clear ws (i + 1) (ws ! (i + 1)) (length ws * 64)))"
      proof (rule is_next_cong)
        fix j assume "i * 64 \<le> j"
        have "(i + 1) * 64 \<le> j \<longleftrightarrow> i + 1 \<le> j div 64"
          by (simp add: less_eq_div_iff_mult_less_eq)
        moreover have "i < j div 64 \<longleftrightarrow> j div 64 = i + 1 \<or> i + 1 < j div 64" by linarith
        ultimately show "j \<in> ?S \<longleftrightarrow> (i + 1) * 64 \<le> j \<and>
            j \<in> {j. j div 64 = i + 1 \<and> \<not> bit (ws ! (i + 1)) (j mod 64)} \<union> {j. i + 1 < j div 64 \<and> \<not> wbit ws j}"
          using True more by (auto simp: wbit_def)
      qed simp
      with True more show ?thesis by (simp add: scan_clear.simps [of ws i "- 1"])
    next
      case False
      then have i: "length ws = i + 1" using 1(2) by simp
      have "j \<notin> ?S" if "j < (i + 1) * 64" for j
        using that True by (auto simp flip: div_less_iff_less_mult)
      moreover have "(i + 1) * 64 \<in> ?S" by (simp add: wbit_def i)
      ultimately show ?thesis using True False i by (auto simp: is_next_def scan_clear.simps [of ws i "- 1"])
    qed
  qed
qed

lemma next_clear_bit_in_words_next:
  assumes "length ws * 64 \<le> usize_max" and "from < length ws * 64"
  shows "is_next {j. \<not> wbit ws j} from (Some (next_clear_bit_in_words ws from))"
proof -
  let ?w = "from div 64" and ?m = "ws ! (from div 64) OR NOT (FROM_BIT (from mod 64))"
  have w: "?w < length ws" using assms by (simp add: div_less_iff_less_mult)
  let ?S = "{j. j div 64 = ?w \<and> \<not> bit ?m (j mod 64)} \<union> {j. ?w < j div 64 \<and> \<not> wbit ws j}"
  have S: "?S = {j. from \<le> j \<and> \<not> wbit ws j}"
    using w by (auto simp: wbit_def bit_or_iff bit_not_iff le_div_mod_64 [of "from"])
  have "is_next {j. from \<le> j \<and> \<not> wbit ws j} (?w * 64) (Some (scan_clear ws ?w ?m (length ws * 64)))"
    using scan_clear_next [OF w, of ?m] unfolding S .
  then have "is_next {j. \<not> wbit ws j} from (Some (scan_clear ws ?w ?m (length ws * 64)))"
    by (intro is_next_from [of "from" "{j. \<not> wbit ws j}" "?w * 64"]) simp_all
  with assms show ?thesis
    by (simp add: next_clear_bit_in_words_def saturating_mul_def Let_def min_def)
qed

lemma next_clear_bit_in_range_next:
  assumes "wf_bits b"
  shows "is_next ({..<min ub (num_bits b)} - bits_of b) from (next_clear_bit_in_range b from ub)"
proof -
  let ?u = "min ub (num_bits b)"
  let ?ws = "take (bits2words ?u) (words b)"
  have len: "length ?ws = bits2words ?u"
    using assms by (simp add: wf_bits_def bits2words_mono)
  have bound: "length ?ws * 64 \<le> usize_max"
    using assms by (simp add: wf_bits_def min_def)
  show ?thesis
  proof (cases "?u \<le> from")
    case True
    then show ?thesis
      by (auto simp: next_clear_bit_in_range_def is_next_def Let_def)
  next
    case False
    then have "from < length ?ws * 64"
      using bits2words_bounds(1) [of ?u] len by simp
    then have "is_next {j. \<not> wbit ?ws j} from (Some (next_clear_bit_in_words ?ws from))"
      by (rule next_clear_bit_in_words_next [OF bound])
    moreover have "j \<in> {..<?u} - bits_of b \<longleftrightarrow> j \<in> {j. \<not> wbit ?ws j} \<and> j < ?u" for j
      by (auto simp: wbit_take mem_bits_of)
    ultimately have "is_next ({..<?u} - bits_of b) from
        (case Some (next_clear_bit_in_words ?ws from) of
           None \<Rightarrow> None | Some x \<Rightarrow> if x < ?u then Some x else None)"
      by (rule is_next_below)
    with False show ?thesis by (simp add: next_clear_bit_in_range_def Let_def)
  qed
qed

lemma next_clear_bit_next: "wf_bits b \<Longrightarrow> is_next ({..<num_bits b} - bits_of b) from (next_clear_bit b from)"
  using next_clear_bit_in_range_next [of b "num_bits b" "from"] by (simp add: next_clear_bit_def)

lemma scan_back_prev:
  "i \<le> length ws \<Longrightarrow> (case scan_back ws i of
      None \<Rightarrow> \<forall>j. j div 64 < i \<longrightarrow> \<not> wbit ws j
    | Some x \<Rightarrow> wbit ws x \<and> x div 64 < i \<and> (\<forall>j>x. j div 64 < i \<longrightarrow> \<not> wbit ws j))"
proof (induction ws i rule: scan_back.induct)
  case (1 ws)
  then show ?case by simp
next
  case (2 ws i)
  let ?w = "ws ! i"
  show ?case
  proof (cases "?w = 0")
    case True
    then have "\<not> wbit ws j" if "j div 64 = i" for j
      using that by (simp add: wbit_def)
    moreover have "j div 64 < Suc i \<longleftrightarrow> j div 64 < i \<or> j div 64 = i" for j :: nat by linarith
    ultimately show ?thesis using 2 True by (auto split: option.splits)
  next
    case False
    define k where "k = 63 - leading_zeros ?w"
    have k: "leading_zeros ?w < 64" "bit ?w k" "k < 64"
      using leading_zeros_less [OF False] bit_leading_zeros [OF False] by (auto simp: k_def)
    have none: "\<not> wbit ws j" if "i * 64 + k < j" "j div 64 < Suc i" for j
    proof -
      have "i \<le> j div 64" using that by (simp add: less_eq_div_iff_mult_less_eq)
      then have ji: "j div 64 = i" using that by simp
      have "k < j mod 64" using that(1) ji div_mult_mod_eq [of j 64] by linarith
      then have "\<not> bit ?w (j mod 64)" using le_leading_zeros [of ?w "j mod 64"] k(1) by (auto simp: k_def not_less)
      with ji show ?thesis by (simp add: wbit_def)
    qed
    have "i * 64 + 63 - leading_zeros ?w = i * 64 + k" using k(1) by (simp add: k_def)
    then have "scan_back ws (Suc i) = Some (i * 64 + k)" using False by (simp add: Let_def)
    moreover have "wbit ws (i * 64 + k)" using 2(2) k by (simp add: wbit_def)
    ultimately show ?thesis using none k(3) by simp
  qed
qed

lemma prev_set_bit_prev:
  assumes "wf_bits b" and "from < num_bits b"
  shows "\<exists>r. prev_set_bit b from = Inr r \<and> is_prev (bits_of b) from r"
proof -
  let ?i = "from div 64" and ?sub = "from mod 64"
  let ?w = "push_bit (63 - ?sub) (words b ! ?i)"
  have i: "?i < length (words b)" using assms by (rule wf_word_index)
  have bit: "bit ?w k \<longleftrightarrow> 63 - ?sub \<le> k \<and> k < 64 \<and> bit (words b ! ?i) (k - (63 - ?sub))" for k
    by (auto simp: bit_simps)
  show ?thesis
  proof (cases "?w = 0")
    case True
    have no: "\<not> wbit (words b) j" if "j div 64 = ?i" "j \<le> from" for j
    proof -
      have "j mod 64 \<le> ?sub" using that by (simp add: le_div_mod_64 [of j])
      moreover have "\<not> bit ?w (j mod 64 + (63 - ?sub))" by (simp add: True)
      ultimately show ?thesis using that by (auto simp: bit wbit_def)
    qed
    have below: "j div 64 < ?i" if "wbit (words b) j" "j \<le> from" for j
      using no [of j] that div_le_mono [OF that(2), of 64] by linarith
    have le: "j \<le> from" if "j div 64 < ?i" for j
      using that by (simp add: le_div_mod_64 [of j])
    have "is_prev (bits_of b) from (scan_back (words b) ?i)"
      using scan_back_prev [of ?i "words b"] i
      by (cases "scan_back (words b) ?i") (auto simp: is_prev_def mem_bits_of disjoint_iff intro: le dest: below)
    with True assms show ?thesis by (simp add: prev_set_bit_def check_def Let_def)
  next
    case False
    let ?l = "leading_zeros ?w"
    have l: "?l < 64" "bit ?w (63 - ?l)"
      using leading_zeros_less [OF False] bit_leading_zeros [OF False] by auto
    then have "63 - ?sub \<le> 63 - ?l" and b: "bit (words b ! ?i) (63 - ?l - (63 - ?sub))"
      unfolding bit by simp_all
    have arith3: "m \<le> s \<Longrightarrow> s < 64 \<Longrightarrow> m + (63 - s) < 64" for s m :: nat by linarith
    note \<open>63 - ?sub \<le> 63 - ?l\<close>
    moreover have arith: "63 - s \<le> 63 - l \<Longrightarrow> l < 64 \<Longrightarrow> s < 64 \<Longrightarrow> l \<le> s \<and> 63 - l - (63 - s) = s - l"
      for s l :: nat by linarith
    moreover have arith2: "s - l < m \<Longrightarrow> m + (63 - s) + l < 64 \<Longrightarrow> l \<le> s \<Longrightarrow> s < 64 \<Longrightarrow> False"
      for s l m :: nat by linarith
    ultimately have le: "?l \<le> ?sub" and "63 - ?l - (63 - ?sub) = ?sub - ?l"
      using l(1) mod_64_less [of "from"] by blast+
    with b have b: "bit (words b ! ?i) (?sub - ?l)" by metis
    have pos: "?i * 64 + ?sub - ?l = ?i * 64 + (?sub - ?l)" "?sub - ?l < 64" using le by (auto simp: less_imp_diff_less)
    have "\<not> wbit (words b) j" if "?i * 64 + (?sub - ?l) < j" "j \<le> from" for j
    proof -
      have "?i * 64 \<le> j" using that(1) by linarith
      then have ji: "j div 64 = ?i"
        using div_le_mono [OF that(2), of 64] by (simp add: less_eq_div_iff_mult_less_eq antisym)
      have js: "j mod 64 \<le> ?sub" using that(2) ji by (simp add: le_div_mod_64 [of j])
      have "?sub - ?l < j mod 64" using that(1) ji div_mult_mod_eq [of j 64] by linarith
      moreover have "j mod 64 + (63 - ?sub) + ?l < 64" if "bit ?w (j mod 64 + (63 - ?sub))"
        using le_leading_zeros [OF that] by simp
      ultimately have "\<not> bit ?w (j mod 64 + (63 - ?sub))"
        using le arith2 [of ?sub ?l "j mod 64"] mod_64_less [of "from"] by blast
      moreover have "j mod 64 + (63 - ?sub) < 64" using js by (rule arith3) simp
      ultimately show ?thesis using ji by (auto simp: bit wbit_def)
    qed
    then have "is_prev (bits_of b) from (Some (?i * 64 + (?sub - ?l)))"
      using b i pos(2) by (auto simp: is_prev_def mem_bits_of wbit_def disjoint_iff le_div_mod_64 [of _ "from"])
    with False assms(2) pos(1) show ?thesis
      by (simp add: prev_set_bit_def check_def Let_def)
  qed
qed

section \<open>Iteration in index order\<close>

lemma word_positions_0 [simp]: "word_positions 0 = []"
  by (simp add: word_positions.simps)

lemma set_word_positions: "set (word_positions w) = {i. bit w i}"
  and sorted_word_positions: "sorted_wrt (<) (word_positions w)"
proof (induction w rule: word_positions.induct)
  case (1 w)
  note word_positions.simps [of w, simp]
  have rest: "bit (w AND (w - 1)) i \<longleftrightarrow> bit w i \<and> i \<noteq> trailing_zeros w" for i
    by (rule bit_clear_lowest)
  {
    case 1
    show ?case
      using "1.IH"(1) bit_trailing_zeros [of w] by (cases "w = 0") (auto simp: rest simp del: bit_and_iff)
  next
    case 2
    have "trailing_zeros w < i" if "bit (w AND (w - 1)) i" for i
      using that trailing_zeros_le [of w i] unfolding rest by simp
    then show ?case
      using "1.IH" by (cases "w = 0") (simp_all del: bit_and_iff)
  }
qed

lemma numeral_64_eq: "(64::nat) = 2 ^ 6"
  by simp

lemma word_base_or: "t < 64 \<Longrightarrow> (w * 64) OR t = w * 64 + t" for w t :: nat
proof -
  assume t: "t < 64"
  have "w * 64 = push_bit 6 w" by (simp add: push_bit_eq_mult)
  moreover have "\<not> bit t n" if "6 \<le> n" for n
    using that t by (metis bit_take_bit_iff leD take_bit_nat_eq_self_iff numeral_64_eq)
  ultimately have "(w * 64) AND t = 0"
    by (intro bit_eqI) (auto simp: bit_simps)
  then show ?thesis by (simp add: disjunctive_add_eq_or)
qed

text \<open>Blocks of 64 positions listed one after the other.\<close>

definition block_positions :: "(nat \<Rightarrow> u64) \<Rightarrow> nat \<Rightarrow> nat \<Rightarrow> nat list" where
  "block_positions f lo hi = concat (map (\<lambda>w. map (\<lambda>t. (w * 64) OR t) (word_positions (f w))) [lo..<hi])"

lemma block_elems: "set (map (\<lambda>t. (w * 64) OR t) (word_positions v)) = {i. i div 64 = w \<and> bit v (i mod 64)}"
proof -
  have "i \<in> (\<lambda>t. (w * 64) OR t) ` {i. bit v i} \<longleftrightarrow> i div 64 = w \<and> bit v (i mod 64)" for i
  proof
    assume "i \<in> (\<lambda>t. (w * 64) OR t) ` {i. bit v i}"
    then obtain t where t: "bit v t" "i = (w * 64) OR t" by auto
    then have "t < 64" using bit_imp_le_length [of v t] by simp
    with t show "i div 64 = w \<and> bit v (i mod 64)" by (simp add: word_base_or)
  next
    assume "i div 64 = w \<and> bit v (i mod 64)"
    then have "i = (w * 64) OR (i mod 64)" by (auto simp: word_base_or)
    with \<open>i div 64 = w \<and> bit v (i mod 64)\<close> show "i \<in> (\<lambda>t. (w * 64) OR t) ` {i. bit v i}" by blast
  qed
  then show ?thesis by (auto simp: set_word_positions)
qed

lemma set_block_positions:
  "set (block_positions f lo hi) = {i. lo \<le> i div 64 \<and> i div 64 < hi \<and> bit (f (i div 64)) (i mod 64)}"
proof -
  have "set (block_positions f lo hi) =
      (\<Union>w \<in> {lo..<hi}. set (map (\<lambda>t. (w * 64) OR t) (word_positions (f w))))"
    by (simp add: block_positions_def)
  also have "\<dots> = (\<Union>w \<in> {lo..<hi}. {i. i div 64 = w \<and> bit (f w) (i mod 64)})"
    by (simp only: block_elems)
  finally show ?thesis by auto
qed

lemma sorted_block: "sorted_wrt (<) (map (\<lambda>t. (w * 64) OR t) (word_positions v))"
proof -
  have "\<forall>t \<in> set (word_positions v). t < 64"
    using bit_imp_le_length [of v] by (auto simp: set_word_positions)
  then have "map (\<lambda>t. (w * 64) OR t) (word_positions v) = map (\<lambda>t. w * 64 + t) (word_positions v)"
    by (simp add: word_base_or)
  moreover have "sorted_wrt (<) (map (\<lambda>t. w * 64 + t) (word_positions v))"
    by (simp add: sorted_wrt_map sorted_word_positions)
  ultimately show ?thesis by metis
qed

lemma sorted_block_positions: "sorted_wrt (<) (block_positions f lo hi)"
proof (induction hi)
  case 0
  then show ?case by (simp add: block_positions_def)
next
  case (Suc hi)
  show ?case
  proof (cases "lo \<le> hi")
    case True
    have "block_positions f lo (Suc hi) = block_positions f lo hi @ map (\<lambda>t. (hi * 64) OR t) (word_positions (f hi))"
      using True by (simp add: block_positions_def)
    moreover have "x < y" if "x \<in> set (block_positions f lo hi)"
      "y \<in> set (map (\<lambda>t. (hi * 64) OR t) (word_positions (f hi)))" for x y
    proof -
      have "x div 64 < y div 64"
        using that unfolding set_block_positions block_elems by simp
      then show ?thesis by (metis div_le_mono not_less)
    qed
    ultimately show ?thesis
      using Suc by (simp add: sorted_wrt_append sorted_block del: set_map)
  next
    case False
    then show ?thesis by (simp add: block_positions_def)
  qed
qed

lemma block_positions_eq:
  assumes "\<And>i. i \<in> S \<longleftrightarrow> lo \<le> i div 64 \<and> i div 64 < hi \<and> bit (f (i div 64)) (i mod 64)"
  shows "block_positions f lo hi = sorted_list_of_set S"
proof -
  have "set (block_positions f lo hi) = S" using assms by (auto simp: set_block_positions)
  then show ?thesis
    using sorted_block_positions [of f lo hi] by (metis sorted_list_of_set.idem_if_sorted_distinct strict_sorted_iff)
qed

lemma zip_upt_map: "map (\<lambda>(w, x). g w x) (zip [0..<length xs] xs) = map (\<lambda>w. g w (xs ! w)) [0..<length xs]"
  by (rule nth_equalityI) auto

lemma for_each_set_bit_eq: "for_each_set_bit b = sorted_list_of_set (bits_of b)"
proof -
  have "for_each_set_bit b = block_positions (\<lambda>w. words b ! w) 0 (length (words b))"
    unfolding for_each_set_bit_def block_positions_def by (subst zip_upt_map) simp
  also have "\<dots> = sorted_list_of_set (bits_of b)"
    by (rule block_positions_eq) (auto simp: mem_bits_of wbit_def)
  finally show ?thesis .
qed

section \<open>Population counts\<close>

lemma count_chunks_sum:
  "count_chunks (a0, a1, a2, a3) ws = ((b0, b1, b2, b3), rest) \<Longrightarrow>
   b0 + b1 + b2 + b3 + sum_list (map count_ones rest) = a0 + a1 + a2 + a3 + sum_list (map count_ones ws)"
  by (induction "(a0, a1, a2, a3)" ws arbitrary: a0 a1 a2 a3 rule: count_chunks.induct) auto

lemma foldl_plus_nat: "foldl (+) (a::nat) xs = a + sum_list xs"
  by (induction xs arbitrary: a) auto

lemma popcount_words_sum: "popcount_words ws = sum_list (map count_ones ws)"
  using count_chunks_sum [of 0 0 0 0 ws]
  by (auto simp: popcount_words_def scalar_words_def foldl_plus_nat split: prod.splits)

lemma count_chunks2_sum:
  "count_chunks2 op (a0, a1, a2, a3) xs ys = ((b0, b1, b2, b3), xs', ys') \<Longrightarrow> length xs = length ys \<Longrightarrow>
   length xs' = length ys' \<and>
   b0 + b1 + b2 + b3 + sum_list (map count_ones (map2 (apply_op op) xs' ys')) =
     a0 + a1 + a2 + a3 + sum_list (map count_ones (map2 (apply_op op) xs ys))"
  by (induction op "(a0, a1, a2, a3)" xs ys arbitrary: a0 a1 a2 a3 rule: count_chunks2.induct) auto

lemma popcount_zip_sum: "popcount_zip a b op = sum_list (map count_ones (map2 (apply_op op) a b))"
proof -
  let ?n = "min (length a) (length b)"
  obtain b0 b1 b2 b3 xs ys where c: "count_chunks2 op (0, 0, 0, 0) (take ?n a) (take ?n b) = ((b0, b1, b2, b3), xs, ys)"
    by (metis prod_cases6 surj_pair)
  have "zip (take ?n a) (take ?n b) = zip a b"
    by (metis min.left_idem take_zip length_zip take_all order_refl)
  moreover have "map (\<lambda>(x, y). count_ones (apply_op op x y)) zs = map count_ones (map (\<lambda>(x, y). apply_op op x y) zs)" for zs
    by auto
  ultimately show ?thesis
    using count_chunks2_sum [OF c]
    by (simp add: popcount_zip_def scalar_zip_def Let_def c foldl_plus_nat del: map_map)
qed

lemma card_wbit: "card {i. wbit ws i} = sum_list (map count_ones ws)"
proof (induction ws rule: rev_induct)
  case Nil
  then show ?case by simp
next
  case (snoc w ws)
  let ?hi = "(\<lambda>k. length ws * 64 + k) ` {k. bit w k}"
  have fin: "finite {k. bit w k}"
    by (rule finite_subset [of _ "{..<64}"]) (auto dest: bit_imp_le_length)
  have "{i. wbit (ws @ [w]) i} = {i. wbit ws i} \<union> ?hi"
  proof (intro set_eqI)
    fix i
    have "wbit (ws @ [w]) i \<longleftrightarrow> wbit ws i \<or> i div 64 = length ws \<and> bit w (i mod 64)"
      by (auto simp: wbit_def nth_append)
    moreover have "i \<in> ?hi \<longleftrightarrow> i div 64 = length ws \<and> bit w (i mod 64)"
    proof
      assume "i \<in> ?hi"
      then obtain k where "i = length ws * 64 + k" "bit w k" by auto
      moreover then have "k < 64" using bit_imp_le_length [of w k] by simp
      ultimately show "i div 64 = length ws \<and> bit w (i mod 64)" by simp
    next
      assume *: "i div 64 = length ws \<and> bit w (i mod 64)"
      then have "i = length ws * 64 + i mod 64" by (metis div_mult_mod_eq)
      with * show "i \<in> ?hi" by blast
    qed
    ultimately show "i \<in> {i. wbit (ws @ [w]) i} \<longleftrightarrow> i \<in> {i. wbit ws i} \<union> ?hi" by simp
  qed
  moreover have "{i. wbit ws i} \<inter> ?hi = {}"
    by (auto simp: wbit_def)
  moreover have "card ?hi = count_ones w"
    by (simp add: card_image count_ones_card)
  ultimately show ?case
    using snoc fin by (simp add: card_Un_disjoint)
qed

lemma popcount_words_card: "popcount_words ws = card {i. wbit ws i}"
  by (simp add: popcount_words_sum card_wbit)

lemma cardinality_eq: "cardinality b = card (bits_of b)"
  by (simp add: cardinality_def popcount_words_card bits_of_def)

lemma intersection_count_eq: "intersection_count a b = card (bits_of a \<inter> bits_of b)"
proof -
  have "{i. wbit (map2 (apply_op And) (words a) (words b)) i} = bits_of a \<inter> bits_of b"
    by (auto simp: bits_of_def wbit_def bit_and_iff)
  then show ?thesis
    by (simp only: intersection_count_def popcount_zip_sum flip: card_wbit)
qed

lemma union_count_eq: "union_count a b = card (bits_of a \<union> bits_of b)"
proof -
  let ?n = "min (length (words a)) (length (words b))"
  let ?ws = "map2 (OR) (words a) (words b) @ drop ?n (words a) @ drop ?n (words b)"
  have "wbit ?ws i \<longleftrightarrow> wbit (words a) i \<or> wbit (words b) i" for i
    by (cases "length (words a) \<le> length (words b)") (auto simp: wbit_def bit_or_iff nth_append min_def)
  then have "{i. wbit ?ws i} = bits_of a \<union> bits_of b" by (auto simp: bits_of_def)
  moreover have "union_count a b = sum_list (map count_ones ?ws)"
    by (simp add: union_count_def popcount_zip_sum popcount_words_sum Let_def add.assoc)
  ultimately show ?thesis by (simp only: flip: card_wbit)
qed

lemma and_not_count_eq: "and_not_count a b = card (bits_of a - bits_of b)"
proof -
  let ?n = "min (length (words a)) (length (words b))"
  let ?ws = "map2 (\<lambda>x y. x AND NOT y) (words a) (words b) @ drop ?n (words a)"
  have "wbit ?ws i \<longleftrightarrow> wbit (words a) i \<and> \<not> wbit (words b) i" for i
    by (cases "length (words a) \<le> length (words b)") (auto simp: wbit_def bit_and_not nth_append min_def)
  then have "{i. wbit ?ws i} = bits_of a - bits_of b" by (auto simp: bits_of_def)
  moreover have "and_not_count a b = sum_list (map count_ones ?ws)"
    by (simp add: and_not_count_def popcount_zip_sum popcount_words_sum Let_def)
  ultimately show ?thesis by (simp only: flip: card_wbit)
qed

section \<open>Ranges\<close>

lemma pred_mod_64: "(n - 1) mod 64 = (if n mod 64 = 0 then 63 else n mod 64 - 1)" if "0 < n" for n :: nat
proof (cases "n mod 64 = 0")
  case True
  then have "n div 64 * 64 = n" by (metis add.right_neutral div_mult_mod_eq)
  moreover from this that obtain p where "n div 64 = Suc p" by (cases "n div 64") auto
  ultimately have "n - 1 = p * 64 + 63" by simp
  then have "(n - 1) mod 64 = 63" by (simp only: div_mod_64_pos(2))
  with True show ?thesis by simp
next
  case False
  then have "n - 1 = n div 64 * 64 + (n mod 64 - 1)"
    using div_mult_mod_eq [of n 64] by linarith
  moreover have "n mod 64 - 1 < 64" by (rule le_less_trans [OF diff_le_self mod_64_less])
  ultimately show ?thesis using False by (metis div_mod_64_pos(2))
qed

lemma range_masks_eq:
  assumes "range_masks start end = (sm, em)"
  shows "bit sm k \<longleftrightarrow> start mod 64 \<le> k \<and> k < 64"
    and "0 < end \<Longrightarrow> bit em k \<longleftrightarrow> k \<le> (end - 1) mod 64"
proof -
  show "bit sm k \<longleftrightarrow> start mod 64 \<le> k \<and> k < 64"
    using assms by (auto simp: range_masks_def bit_simps)
  assume "0 < end"
  have em: "em = drop_bit ((64 - end mod 64) mod 64) (- 1)" using assms by (simp add: range_masks_def)
  have arith: "e \<noteq> 0 \<Longrightarrow> e < 64 \<Longrightarrow> 64 - e + k < 64 \<longleftrightarrow> k \<le> e - 1" for e :: nat by linarith
  show "bit em k \<longleftrightarrow> k \<le> (end - 1) mod 64"
  proof (cases "end mod 64 = 0")
    case True
    with \<open>0 < end\<close> have "em = - 1" "(end - 1) mod 64 = 63" by (simp_all only: em pred_mod_64) simp_all
    then show ?thesis by auto
  next
    case False
    then have "(64 - end mod 64) mod 64 = 64 - end mod 64" by (intro mod_less) simp
    then have "bit em k \<longleftrightarrow> 64 - end mod 64 + k < 64" by (simp only: em bit_drop_bit_eq o_def bit_minus_1_64)
    also have "\<dots> \<longleftrightarrow> k \<le> end mod 64 - 1" using False by (intro arith) simp_all
    finally show ?thesis using False \<open>0 < end\<close> by (simp only: pred_mod_64 if_False)
  qed
qed

lemma in_range_iff:
  fixes start :: nat
  assumes "start < end"
  shows "start \<le> i \<and> i < end \<longleftrightarrow>
    start div 64 \<le> i div 64 \<and> i div 64 \<le> (end - 1) div 64 \<and>
    (i div 64 = start div 64 \<longrightarrow> start mod 64 \<le> i mod 64) \<and>
    (i div 64 = (end - 1) div 64 \<longrightarrow> i mod 64 \<le> (end - 1) mod 64)"
proof -
  have "i < end \<longleftrightarrow> i \<le> end - 1" using assms by auto
  then have "i < end \<longleftrightarrow> i div 64 < (end - 1) div 64 \<or> i div 64 = (end - 1) div 64 \<and> i mod 64 \<le> (end - 1) mod 64"
    by (simp only: le_div_mod_64 [of i "end - 1"])
  moreover have "(a < x \<or> a = x \<and> p) \<and> (x < e \<or> x = e \<and> q) \<longleftrightarrow>
      a \<le> x \<and> x \<le> e \<and> (x = a \<longrightarrow> p) \<and> (x = e \<longrightarrow> q)" for a x e :: nat and p q
    by auto
  ultimately show ?thesis
    by (simp only: le_div_mod_64 [of start i])
qed

lemma nth_update_between:
  "w < length ws \<Longrightarrow> update_between g lo hi ws ! w = (if lo \<le> w \<and> w < hi then g (ws ! w) else ws ! w)"
  by (auto simp: update_between_def nth_append max_def min_def)

lemma length_update_between [simp]: "length (update_between g lo hi ws) = length ws"
  by (auto simp: update_between_def max_def min_def)

text \<open>
  The word array all three range updates compute, given what they do to a word under a mask \<open>m\<close>:
  masked first and last words, \<open>g\<close> for the whole words between.
\<close>

definition range_updated ::
  "(u64 \<Rightarrow> u64 \<Rightarrow> u64) \<Rightarrow> (u64 \<Rightarrow> u64) \<Rightarrow> nat \<Rightarrow> nat \<Rightarrow> u64 list \<Rightarrow> u64 list" where
  "range_updated f g start end ws =
     (let sw = start div 64; ew = (end - 1) div 64; (sm, em) = range_masks start end in
      if sw = ew then ws[sw := f (ws ! sw) (sm AND em)]
      else let ws = ws[sw := f (ws ! sw) sm]; ws = update_between g (sw + 1) ew ws
           in ws[ew := f (ws ! ew) em])"

lemma length_range_updated [simp]: "length (range_updated f g start end ws) = length ws"
  by (simp add: range_updated_def Let_def split: prod.splits)

lemma wbit_range_updated:
  assumes "start < end" and "(end - 1) div 64 < length ws"
    and f: "\<And>x m k. k < 64 \<Longrightarrow> bit (f x m) k \<longleftrightarrow> (if bit m k then G (bit x k) else bit x k)"
    and g: "\<And>x k. k < 64 \<Longrightarrow> bit (g x) k \<longleftrightarrow> G (bit x k)"
  shows "wbit (range_updated f g start end ws) i \<longleftrightarrow>
    (if start \<le> i \<and> i < end then G (wbit ws i) else wbit ws i)"
proof -
  let ?sw = "start div 64" and ?ew = "(end - 1) div 64"
  obtain sm em where m: "range_masks start end = (sm, em)" by fastforce
  note bits = range_masks_eq [OF m]
  have le: "?sw \<le> ?ew" using assms(1) by (intro div_le_mono) simp
  have nth: "range_updated f g start end ws ! w =
      (if w < ?sw \<or> ?ew < w then ws ! w
       else if w = ?sw \<and> w = ?ew then f (ws ! w) (sm AND em)
       else if w = ?sw then f (ws ! w) sm else if w = ?ew then f (ws ! w) em else g (ws ! w))"
    if "w < length ws" for w
    using le assms(2) that
    by (auto simp: range_updated_def Let_def m nth_list_update nth_update_between)
  show ?thesis
  proof (cases "i div 64 < length ws")
    case True
    then show ?thesis
      unfolding in_range_iff [OF assms(1)] wbit_def length_range_updated nth [OF True]
      using assms(1) by (auto simp: f g bits bit_and_iff)
  next
    case out: False
    then have "?ew < i div 64" using assms(2) by linarith
    then have "\<not> (start \<le> i \<and> i < end)" unfolding in_range_iff [OF assms(1)] by linarith
    with out show ?thesis by (auto simp: wbit_def)
  qed
qed

text \<open>The three range updates at once: they share the guard and the shape.\<close>

lemma range_update_refines:
  assumes "wf_bits b" and "end \<le> num_bits b"
    and op: "op b start end =
      (if end \<le> start then Inr b else assert_that (end \<le> num_bits b)
         (Inr (b\<lparr>words := range_updated f g start end (words b)\<rparr>)))"
    and f: "\<And>x m k. k < 64 \<Longrightarrow> bit (f x m) k \<longleftrightarrow> (if bit m k then G (bit x k) else bit x k)"
    and g: "\<And>x k. k < 64 \<Longrightarrow> bit (g x) k \<longleftrightarrow> G (bit x k)"
  obtains b' where "op b start end = Inr b'" "wf_bits b'" "num_bits b' = num_bits b"
    "bits_of b' = {i \<in> bits_of b. \<not> (start \<le> i \<and> i < end)} \<union> {i. start \<le> i \<and> i < end \<and> G (i \<in> bits_of b)}"
proof (cases "end \<le> start")
  case True
  then show ?thesis using op assms(1) by (intro that [of b]) auto
next
  case False
  let ?ws = "range_updated f g start end (words b)"
  have "(end - 1) div 64 < length (words b)"
    using assms(1,2) False by (intro wf_word_index) auto
  then have bit: "wbit ?ws i \<longleftrightarrow> (if start \<le> i \<and> i < end then G (wbit (words b) i) else wbit (words b) i)" for i
    using False f g by (intro wbit_range_updated) auto
  show ?thesis
  proof (rule that)
    show "op b start end = Inr (b\<lparr>words := ?ws\<rparr>)"
      using op False assms(2) by (simp add: assert_that_def)
    show "wf_bits (b\<lparr>words := ?ws\<rparr>)"
    proof (rule wf_words_update [OF assms(1)])
      show "i < num_bits b" if "wbit ?ws i" for i
        using that assms(2) wf_bound [OF assms(1), of i] by (auto simp: bit mem_bits_of split: if_splits)
    qed simp
  qed (auto simp: bits_of_def bit)
qed

lemma range_op_shapes:
  "flip_range b start end = (if end \<le> start then Inr b else assert_that (end \<le> num_bits b)
     (Inr (b\<lparr>words := range_updated (XOR) NOT start end (words b)\<rparr>)))"
  "set_range b start end = (if end \<le> start then Inr b else assert_that (end \<le> num_bits b)
     (Inr (b\<lparr>words := range_updated (OR) (\<lambda>_. - 1) start end (words b)\<rparr>)))"
  "clear_range b start end = (if end \<le> start then Inr b else assert_that (end \<le> num_bits b)
     (Inr (b\<lparr>words := range_updated (\<lambda>x m. x AND NOT m) (\<lambda>_. 0) start end (words b)\<rparr>)))"
  by (simp_all add: flip_range_def set_range_def clear_range_def range_updated_def Let_def assert_that_def
      split: prod.splits)

lemma flip_range_refines:
  assumes "wf_bits b" and "end \<le> num_bits b"
  obtains b' where "flip_range b start end = Inr b'" "wf_bits b'" "num_bits b' = num_bits b"
    "bits_of b' = (bits_of b - {start..<end}) \<union> ({start..<end} - bits_of b)"
  by (rule range_update_refines [OF assms, where op = flip_range and G = Not, OF range_op_shapes(1)])
     (auto simp: bit_xor_iff bit_not_iff intro!: that)

lemma set_range_refines:
  assumes "wf_bits b" and "end \<le> num_bits b"
  obtains b' where "set_range b start end = Inr b'" "wf_bits b'" "num_bits b' = num_bits b"
    "bits_of b' = bits_of b \<union> {start..<end}"
  by (rule range_update_refines [OF assms, where op = set_range and G = "\<lambda>_. True", OF range_op_shapes(2)])
     (auto simp: bit_or_iff intro!: that)

lemma clear_range_refines:
  assumes "wf_bits b" and "end \<le> num_bits b"
  obtains b' where "clear_range b start end = Inr b'" "wf_bits b'" "num_bits b' = num_bits b"
    "bits_of b' = bits_of b - {start..<end}"
  by (rule range_update_refines [OF assms, where op = clear_range and G = "\<lambda>_. False", OF range_op_shapes(3)])
     (auto simp: bit_and_not intro!: that)

section \<open>Walking and counting a range\<close>

definition masked :: "u64 list \<Rightarrow> nat \<Rightarrow> nat \<Rightarrow> nat \<Rightarrow> u64" where
  "masked ws from to w =
     (let bits = ws ! w;
          bits = (if w = from div 64 then bits AND push_bit (from mod 64) (- 1) else bits)
      in if w = (to - 1) div 64 then bits AND drop_bit (63 - (to - 1) mod 64) (- 1) else bits)"

lemma bit_masked:
  assumes "from < to" and "w < length ws" and "k < 64"
  shows "bit (masked ws from to w) k \<longleftrightarrow> bit (ws ! w) k \<and>
     (w = from div 64 \<longrightarrow> from mod 64 \<le> k) \<and> (w = (to - 1) div 64 \<longrightarrow> k \<le> (to - 1) mod 64)"
proof -
  have arith: "63 - e + k < 64 \<longleftrightarrow> k \<le> e" if "e < 64" for e :: nat using that by linarith
  have "bit (drop_bit (63 - (to - 1) mod 64) (- 1 :: u64)) k \<longleftrightarrow> k \<le> (to - 1) mod 64"
    by (simp only: bit_drop_bit_eq o_def bit_minus_1_64 arith [OF mod_64_less])
  moreover have "bit (push_bit (from mod 64) (- 1 :: u64)) k \<longleftrightarrow> from mod 64 \<le> k"
    using assms(3) by (auto simp: bit_simps)
  ultimately show ?thesis
    unfolding masked_def Let_def by (simp only: bit_and_iff split: if_splits) blast
qed

lemma masked_mem:
  assumes "from < to" and "(to - 1) div 64 < length ws"
  shows "from div 64 \<le> i div 64 \<and> i div 64 < (to - 1) div 64 + 1 \<and> bit (masked ws from to (i div 64)) (i mod 64) \<longleftrightarrow>
    wbit ws i \<and> from \<le> i \<and> i < to"
proof (cases "i div 64 \<le> (to - 1) div 64")
  case True
  then have "i div 64 < length ws" using assms(2) by (rule le_less_trans)
  then show ?thesis
    unfolding bit_masked [OF assms(1) \<open>i div 64 < length ws\<close> mod_64_less] in_range_iff [OF assms(1)] wbit_def
    using True by auto
next
  case False
  then have "\<not> (from \<le> i \<and> i < to)" unfolding in_range_iff [OF assms(1)] by blast
  with False show ?thesis by auto
qed

lemma masked_positions:
  assumes "from < to" and "(to - 1) div 64 < length ws"
  shows "block_positions (masked ws from to) (from div 64) ((to - 1) div 64 + 1) =
     sorted_list_of_set ({i. wbit ws i} \<inter> {from..<to})"
  by (rule block_positions_eq) (use masked_mem [OF assms] in auto)

lemma words_in_range_eq:
  "from < to \<Longrightarrow> words_in_range b from to =
     map (\<lambda>w. (w, masked (words b) from to w)) [from div 64..<(to - 1) div 64 + 1]"
  by (auto simp: words_in_range_def masked_def Let_def)

lemma length_word_positions: "length (word_positions w) = count_ones w"
  by (metis count_ones_card distinct_card set_word_positions sorted_word_positions strict_sorted_iff)

lemma length_block_positions: "length (block_positions f lo hi) = sum_list (map (\<lambda>w. count_ones (f w)) [lo..<hi])"
  by (simp add: block_positions_def length_concat comp_def length_word_positions)

lemma range_walk_eq:
  assumes "wf_bits b" and "to \<le> num_bits b"
  shows "concat (map (\<lambda>(w, bits). map (\<lambda>t. base + of_nat ((w * 64) OR t)) (word_positions bits)) (words_in_range b from to))
     = map (\<lambda>i. base + of_nat i) (sorted_list_of_set (bits_of b \<inter> {from..<to}))"
proof (cases "from < to")
  case True
  have "(to - 1) div 64 < length (words b)" using assms True by (intro wf_word_index) auto
  then have "block_positions (masked (words b) from to) (from div 64) ((to - 1) div 64 + 1) =
      sorted_list_of_set (bits_of b \<inter> {from..<to})"
    using masked_positions [OF True, of "words b"] by (simp add: bits_of_def)
  then have "map (\<lambda>i. base + of_nat i) (sorted_list_of_set (bits_of b \<inter> {from..<to})) =
      map (\<lambda>i. base + of_nat i) (block_positions (masked (words b) from to) (from div 64) ((to - 1) div 64 + 1))"
    by (simp only:)
  also have "\<dots> = concat (map (\<lambda>(w, bits). map (\<lambda>t. base + of_nat ((w * 64) OR t)) (word_positions bits)) (words_in_range b from to))"
    by (simp add: words_in_range_eq [OF True] block_positions_def map_concat comp_def)
  finally show ?thesis by (rule sym)
next
  case False
  then show ?thesis by (simp add: words_in_range_def)
qed

lemma for_each_in_range_eq:
  assumes "wf_bits b" and "from \<le> to" and "to \<le> num_bits b"
  shows "for_each_in_range b from to base =
     Inr (map (\<lambda>i. base + of_nat i) (sorted_list_of_set (bits_of b \<inter> {from..<to})))"
  using assms range_walk_eq [OF assms(1,3)] by (simp add: for_each_in_range_def assert_that_def)

lemma into_array_eq:
  assumes "wf_bits b" and "from \<le> to" and "to \<le> num_bits b"
  shows "into_array b from to base array =
     (let docs = take (length array) (map (\<lambda>i. base + of_nat i) (sorted_list_of_set (bits_of b \<inter> {from..<to})))
      in Inr (length docs, docs @ drop (length docs) array))"
  unfolding into_array_def range_walk_eq [OF assms(1,3)] using assms(2,3) by (simp add: assert_that_def)

lemma take_drop_map:
  assumes "\<And>w. lo \<le> w \<Longrightarrow> w < hi \<Longrightarrow> xs ! w = f w" and "hi \<le> length xs"
  shows "take (hi - lo) (drop lo xs) = map f [lo..<hi]"
  using assms by (intro nth_equalityI) auto

lemma upt_ends: "a < b \<Longrightarrow> [a..<b + 1] = a # [a + 1..<b] @ [b]"
  by (simp add: upt_conv_Cons)

lemma cardinality_range_eq:
  assumes "wf_bits b" and "from \<le> to" and "to \<le> num_bits b"
  shows "cardinality_range b from to = Inr (card (bits_of b \<inter> {from..<to}))"
proof (cases "from < to")
  case True
  let ?fw = "from div 64" and ?tw = "(to - 1) div 64" and ?ws = "words b"
  obtain sm em where m: "range_masks from to = (sm, em)" by fastforce
  have tw: "?tw < length ?ws" using assms True by (intro wf_word_index) auto
  have le: "?fw \<le> ?tw" using True by (intro div_le_mono) simp
  have sm: "sm = push_bit (from mod 64) (- 1)" using m by (simp add: range_masks_def)
  have em: "em = drop_bit (63 - (to - 1) mod 64) (- 1)"
  proof (rule bit_word_eqI)
    fix k :: nat
    have arith: "63 - e + k < 64 \<longleftrightarrow> k \<le> e" if "e < 64" for e :: nat using that by linarith
    show "bit em k \<longleftrightarrow> bit (drop_bit (63 - (to - 1) mod 64) (- 1 :: u64)) k"
      using True by (simp only: range_masks_eq(2) [OF m] bit_drop_bit_eq o_def bit_minus_1_64 arith [OF mod_64_less])
  qed
  have msk: "masked ?ws from to w =
      (if w = ?tw then (if w = ?fw then ?ws ! w AND sm else ?ws ! w) AND em
       else if w = ?fw then ?ws ! w AND sm else ?ws ! w)" for w
    by (simp only: masked_def Let_def sm em)
  have "card (bits_of b \<inter> {from..<to}) = length (sorted_list_of_set (bits_of b \<inter> {from..<to}))" by simp
  also have "\<dots> = sum_list (map (\<lambda>w. count_ones (masked ?ws from to w)) [?fw..<?tw + 1])"
    by (simp add: bits_of_def length_block_positions flip: masked_positions [OF True tw])
  finally have card: "card (bits_of b \<inter> {from..<to}) = \<dots>" .
  show ?thesis
  proof (cases "?fw = ?tw")
    case same: True
    then show ?thesis
      using card assms True m by (simp add: cardinality_range_def assert_that_def Let_def msk and.assoc)
  next
    case False
    then have lt: "?fw < ?tw" using le by simp
    have "[?fw..<?tw + 1] = ?fw # [?fw + 1..<?tw] @ [?tw]"
      using lt by (rule upt_ends)
    moreover have "take (?tw - (?fw + 1)) (drop (?fw + 1) ?ws) = map (\<lambda>w. masked ?ws from to w) [?fw + 1..<?tw]"
      using tw msk by (intro take_drop_map) auto
    ultimately have "card (bits_of b \<inter> {from..<to}) = count_ones (?ws ! ?fw AND sm) +
        (popcount_words (take (?tw - (?fw + 1)) (drop (?fw + 1) ?ws)) + count_ones (?ws ! ?tw AND em))"
      unfolding card popcount_words_sum using False False [symmetric] msk [of ?fw] msk [of ?tw] by (simp only: list.map map_append
        sum_list.Cons sum_list_append map_map comp_def sum_list.Nil add_0_right if_False if_True refl)
    then show ?thesis
      using assms(2,3) False less_imp_neq [OF True]
      unfolding cardinality_range_def assert_that_def Let_def m prod.case
      by (simp only: simp_thms if_True if_False add.assoc)
  qed
next
  case False
  then show ?thesis using assms by (simp add: cardinality_range_def assert_that_def)
qed

section \<open>Combining ranges of two sets\<close>

lemma bit_low_mask: "bit (2 ^ n - 1 :: u64) k \<longleftrightarrow> k < n \<and> k < 64"
proof -
  have "2 ^ n - 1 = (mask n :: u64)" by (simp add: mask_eq_exp_minus_1)
  then show ?thesis by (auto simp: bit_mask_iff)
qed

text \<open>Two neighbouring words read as one, from bit \<open>s\<close> of the first on.\<close>

lemma two_words:
  fixes s k w :: nat
  assumes "s + k < 128" and "s < 64"
  shows "(w * 64 + s + k) div 64 = (if s + k < 64 then w else w + 1)"
    and "(w * 64 + s + k) mod 64 = (if s + k < 64 then s + k else s + k - 64)"
proof -
  define q r where "q = (if s + k < 64 then w else w + 1)" and "r = (if s + k < 64 then s + k else s + k - 64)"
  have "w * 64 + s + k = q * 64 + r" "r < 64"
    using assms by (auto simp: q_def r_def)
  then show "(w * 64 + s + k) div 64 = (if s + k < 64 then w else w + 1)"
    and "(w * 64 + s + k) mod 64 = (if s + k < 64 then s + k else s + k - 64)"
    unfolding q_def [symmetric] r_def [symmetric] by (simp_all only: div_mod_64_pos)
qed

lemma bit_two_words:
  assumes "0 < s" and "s < 64" and "k < 64"
  shows "bit (drop_bit s x OR push_bit (64 - s) y :: u64) k \<longleftrightarrow> (if s + k < 64 then bit x (s + k) else bit y (s + k - 64))"
proof -
  have "k - (64 - s) = s + k - 64" "64 - s \<le> k \<longleftrightarrow> \<not> s + k < 64" using assms by linarith+
  moreover have "\<not> bit x (s + k)" if "\<not> s + k < 64" using that by (intro bit_beyond) simp
  ultimately show ?thesis using assms by (simp add: bit_or_iff bit_drop_bit_eq bit_push_bit_iff)
qed

lemma bit_bits_at:
  assumes "wf_bits b" and "from + n \<le> num_bits b" and "0 < n" "n \<le> 64"
  shows "bit (bits_at b from n) k \<longleftrightarrow> k < n \<and> from + k \<in> bits_of b"
proof (cases "k < n")
  case False
  then show ?thesis using assms(4)
    by (auto simp: bits_at_def Let_def bit_and_iff bit_low_mask dest: bit_imp_le_length)
next
  case True
  define w s where "w = from div 64" and "s = from mod 64"
  have f: "from + k = w * 64 + s + k" "s < 64" by (simp_all add: w_def s_def)
  have k: "k < 64" "s + k < 128" using True assms(4) f by simp_all
  have inb: "(from + k) div 64 < length (words b)"
    using assms True by (intro wf_word_index) auto
  have mem: "from + k \<in> bits_of b \<longleftrightarrow> (if s + k < 64 then bit (words b ! w) (s + k) else bit (words b ! (w + 1)) (s + k - 64))"
    using inb two_words [OF k(2) f(2), of w] by (simp add: mem_bits_of wbit_def f(1))
  let ?v = "drop_bit s (words b ! w)"
  let ?v2 = "if 64 < s + n then ?v OR push_bit (64 - s) (words b ! (w + 1)) else ?v"
  have "bit ?v2 k \<longleftrightarrow> from + k \<in> bits_of b"
  proof (cases "64 < s + n")
    case True
    then have "0 < s" using assms(4) by simp
    then show ?thesis using True bit_two_words [OF _ f(2) k(1)] mem by simp
  next
    case False
    then have "s + k < 64" using \<open>k < n\<close> by simp
    then show ?thesis using False mem by (simp add: bit_drop_bit_eq)
  qed
  moreover have "bits_at b from n = (if n < 64 then ?v2 AND (2 ^ n - 1) else ?v2)"
    by (simp add: bits_at_def Let_def w_def s_def)
  ultimately show ?thesis using True k by (auto simp: bit_and_iff bit_low_mask)
qed

text \<open>What the head and the whole-word callbacks of \<open>range_op\<close> must do, bit by bit.\<close>

definition bitwise_op ::
  "(u64 \<Rightarrow> u64 \<Rightarrow> nat \<Rightarrow> nat \<Rightarrow> u64) \<Rightarrow> (u64 \<Rightarrow> u64 \<Rightarrow> u64) \<Rightarrow> (bool \<Rightarrow> bool \<Rightarrow> bool) \<Rightarrow> bool" where
  "bitwise_op head word F \<longleftrightarrow>
     (\<forall>d bits sh n k. sh + n \<le> 64 \<longrightarrow> 0 < n \<longrightarrow> k < 64 \<longrightarrow> (\<forall>j. bit bits j \<longrightarrow> j < n) \<longrightarrow>
        bit (head d bits sh n) k = (if sh \<le> k \<and> k < sh + n then F (bit d k) (bit bits (k - sh)) else bit d k)) \<and>
     (\<forall>d w k. k < 64 \<longrightarrow> bit (word d w) k = F (bit d k) (bit w k))"

lemma bitwise_op_or: "bitwise_op (\<lambda>d bits sh _. d OR push_bit sh bits) (\<lambda>d w. d OR w) (\<or>)"
  unfolding bitwise_op_def
  by (auto simp: bit_or_iff bit_push_bit_iff)

lemma bitwise_op_and:
  "bitwise_op (\<lambda>d bits sh n. let span = (if n = 64 then - 1 else push_bit n 1 - 1)
                in d AND (push_bit sh bits OR NOT (push_bit sh span))) (\<lambda>d w. d AND w) (\<and>)"
proof -
  have span: "bit (if n = 64 then - 1 else push_bit n 1 - 1 :: u64) j \<longleftrightarrow> j < n" if "n \<le> 64" for n j
    using that by (auto simp: bit_low_mask)
  show ?thesis
    unfolding bitwise_op_def Let_def
    by (auto simp: bit_and_iff bit_or_iff bit_not_iff bit_push_bit_iff span simp del: push_bit_minus_one_eq_not_mask)
qed

lemma nth_range_words:
  assumes "dw + full \<le> length dst" and "w < length dst"
  shows "range_words word src sw dst dw full shift ! w =
     (if dw \<le> w \<and> w < dw + full
      then word (dst ! w)
        (if shift = 0 then src ! (sw + (w - dw))
         else drop_bit shift (src ! (sw + (w - dw))) OR push_bit (64 - shift) (src ! (sw + (w - dw) + 1)))
      else dst ! w)"
  using assms by (auto simp: range_words_def nth_append)

lemma length_range_words: "dw + full \<le> length dst \<Longrightarrow> length (range_words word src sw dst dw full shift) = length dst"
  by (simp add: range_words_def)

lemma block_range:
  "a < 64 \<Longrightarrow> b + n \<le> 64 \<Longrightarrow>
    y * 64 + b \<le> x * 64 + a \<and> x * 64 + a < y * 64 + b + n \<longleftrightarrow> x = y \<and> b \<le> a \<and> a < b + n"
  for x y a b n :: nat
  by (cases x y rule: linorder_cases) auto

lemma head_step:
  assumes op: "bitwise_op head word F" and n: "p mod 64 + n \<le> 64" "0 < n"
    and len: "p div 64 < length ws"
    and bits: "\<And>k. bit bits k \<longleftrightarrow> k < n \<and> S (p + k)"
  shows "wbit (ws[p div 64 := head (ws ! (p div 64)) bits (p mod 64) n]) j \<longleftrightarrow>
     (if p \<le> j \<and> j < p + n then F (wbit ws j) (S j) else wbit ws j)"
proof -
  have rng: "p \<le> j \<and> j < p + n \<longleftrightarrow> j div 64 = p div 64 \<and> p mod 64 \<le> j mod 64 \<and> j mod 64 < p mod 64 + n"
  proof -
    have "j = j div 64 * 64 + j mod 64" "p = p div 64 * 64 + p mod 64" "j mod 64 < 64" by simp_all
    then show ?thesis using block_range [OF _ n(1), of "j mod 64" "p div 64" "j div 64"] by metis
  qed
  have eqp: "p + (j mod 64 - p mod 64) = j" if "j div 64 = p div 64" "p mod 64 \<le> j mod 64"
    using that div_mult_mod_eq [of j 64] div_mult_mod_eq [of p 64] by linarith
  have "bit (head (ws ! (p div 64)) bits (p mod 64) n) k \<longleftrightarrow>
      (if p mod 64 \<le> k \<and> k < p mod 64 + n then F (bit (ws ! (p div 64)) k) (bit bits (k - p mod 64))
       else bit (ws ! (p div 64)) k)" if "k < 64" for k
    using op n bits that by (auto simp: bitwise_op_def)
  note h = this [OF mod_64_less]
  show ?thesis
  proof (cases "j div 64 = p div 64")
    case True
    have "bit bits (j mod 64 - p mod 64) = S j" if "p mod 64 \<le> j mod 64" "j mod 64 < p mod 64 + n"
      unfolding bits eqp [OF True that(1)] using that by (simp add: less_diff_conv2 add.commute)
    then show ?thesis unfolding rng using True len by (simp add: wbit_update h wbit_def)
  next
    case False
    then show ?thesis unfolding rng using len by (simp add: wbit_update)
  qed
qed

lemma words_step:
  assumes op: "bitwise_op head word F" and len: "dw + full \<le> length ws"
    and shift: "shift < 64" and src: "sw + full + (if shift = 0 then 0 else 1) \<le> length src"
  shows "wbit (range_words word src sw ws dw full shift) j \<longleftrightarrow>
     (if dw * 64 \<le> j \<and> j < dw * 64 + full * 64
      then F (wbit ws j) (wbit src (sw * 64 + shift + (j - dw * 64))) else wbit ws j)"
proof -
  have rng: "dw * 64 \<le> j \<and> j < dw * 64 + full * 64 \<longleftrightarrow> dw \<le> j div 64 \<and> j div 64 < dw + full"
    by (simp add: less_eq_div_iff_mult_less_eq div_less_iff_less_mult distrib_right)
  show ?thesis
  proof (cases "dw \<le> j div 64 \<and> j div 64 < dw + full")
    case False
    then show ?thesis unfolding rng using len
      by (auto simp: wbit_def length_range_words nth_range_words)
  next
    case True
    define w k where "w = j div 64 - dw" and "k = j mod 64"
    have j: "j div 64 = dw + w" "w < full" "k < 64" using True by (auto simp: w_def k_def)
    have jd: "j - dw * 64 = w * 64 + k"
      using j(1) div_mult_mod_eq [of j 64] by (simp add: k_def distrib_right)
    let ?y = "if shift = 0 then src ! (sw + w) else drop_bit shift (src ! (sw + w)) OR push_bit (64 - shift) (src ! (sw + w + 1))"
    have pos: "sw * 64 + shift + (j - dw * 64) = (sw + w) * 64 + shift + k"
      by (simp add: jd distrib_right)
    have "shift + k < 128" using shift j(3) by simp
    note tw = two_words [OF this shift, of "sw + w"]
    have "wbit src (sw * 64 + shift + (j - dw * 64)) = bit ?y k"
      unfolding pos wbit_def tw using src j shift bit_two_words [OF _ shift j(3)] by auto
    moreover have "wbit (range_words word src sw ws dw full shift) j = bit (word (ws ! (dw + w)) ?y) k"
      using True len j by (simp add: wbit_def length_range_words nth_range_words flip: k_def)
    moreover have "wbit ws j = bit (ws ! (dw + w)) k"
      using len j by (simp add: wbit_def flip: k_def)
    ultimately show ?thesis
      unfolding rng using True op j(3) by (simp add: bitwise_op_def)
  qed
qed

text \<open>The three phases one after the other: aligned head, whole words, tail.\<close>

definition range_head ::
  "fixed_bit_set \<Rightarrow> nat \<Rightarrow> nat \<Rightarrow> nat \<Rightarrow> (u64 \<Rightarrow> u64 \<Rightarrow> nat \<Rightarrow> nat \<Rightarrow> u64) \<Rightarrow> u64 list \<Rightarrow> u64 list" where
  "range_head source q p n head ws =
     (if n = 0 then ws
      else ws[p div 64 := head (ws ! (p div 64)) (bits_at source q n) (p mod 64) n])"

lemma length_range_head [simp]: "length (range_head source q p n head ws) = length ws"
  by (simp add: range_head_def)

lemma wbit_range_head:
  assumes "bitwise_op head word F" and "p mod 64 + n \<le> 64" and "p + n \<le> length ws * 64"
    and "wf_bits source" and "q + n \<le> num_bits source"
  shows "wbit (range_head source q p n head ws) j \<longleftrightarrow>
     (if p \<le> j \<and> j < p + n then F (wbit ws j) (q + (j - p) \<in> bits_of source) else wbit ws j)"
proof (cases "n = 0")
  case True
  then show ?thesis by (auto simp: range_head_def)
next
  case False
  have "bit (bits_at source q n) k \<longleftrightarrow> k < n \<and> q + (p + k - p) \<in> bits_of source" for k
    using assms False bit_bits_at [OF assms(4,5), of k] by auto
  moreover have "p div 64 < length ws"
    using assms(3) False by (simp add: div_less_iff_less_mult)
  ultimately show ?thesis
    using head_step [OF assms(1,2), of ws "bits_at source q n" "\<lambda>i. q + (i - p) \<in> bits_of source" j] False
    by (simp add: range_head_def)
qed

definition combined :: "(bool \<Rightarrow> bool \<Rightarrow> bool) \<Rightarrow> (nat \<Rightarrow> bool) \<Rightarrow> (nat \<Rightarrow> bool) \<Rightarrow> nat \<Rightarrow> nat \<Rightarrow> nat \<Rightarrow> nat \<Rightarrow> bool" where
  "combined F d src q p n j = (if p \<le> j \<and> j < p + n then F (d j) (src (q + (j - p))) else d j)"

lemma combined_split:
  assumes "\<And>j. d' j = combined F d src q p n j" and "\<And>j. d'' j = combined F d' src (q + n) (p + n) m j"
  shows "d'' j = combined F d src q p (n + m) j"
  using assms by (auto simp: combined_def)

lemma range_words_0 [simp]: "range_words word src sw dst dw 0 shift = dst"
  by (simp add: range_words_def)

text \<open>The number of bits up to the next word boundary of the destination.\<close>

definition head_bits :: "nat \<Rightarrow> nat \<Rightarrow> nat" where
  "head_bits p count = (if p mod 64 \<noteq> 0 then min (64 - p mod 64) count else 0)"

lemma head_bits_le: "head_bits p count \<le> count" "p mod 64 + head_bits p count \<le> 64"
proof -
  show "head_bits p count \<le> count" by (simp add: head_bits_def)
  have "a + min (64 - a) count \<le> 64" if "a < 64" for a :: nat using that by linarith
  from this [OF mod_64_less [of p]] show "p mod 64 + head_bits p count \<le> 64"
    unfolding head_bits_def by (cases "p mod 64 = 0") (simp_all only: if_True if_False not_True_eq_False not_False_eq_True add_0_right, simp)
qed

lemma head_bits_aligned:
  assumes "head_bits p count \<noteq> count"
  shows "(p + head_bits p count) mod 64 = 0"
proof (cases "p mod 64 = 0")
  case True
  then show ?thesis by (simp add: head_bits_def)
next
  case False
  then have "head_bits p count = 64 - p mod 64" using assms unfolding head_bits_def min_def by (metis (full_types))
  moreover have "p + (64 - p mod 64) = (p div 64 + 1) * 64"
  proof -
    have "a * 64 + b + (64 - b) = (a + 1) * 64" if "b < 64" for a b :: nat using that by simp
    from this [OF mod_64_less [of p], of "p div 64"] show ?thesis by simp
  qed
  ultimately show ?thesis by (simp only: mod_mult_self2_is_0)
qed

lemma range_op_phases:
  assumes "q + count \<le> len source" and "p + count \<le> len dest" and "count \<noteq> 0"
    and "q + count \<le> usize_max" and "p + count \<le> usize_max"
  defines "n \<equiv> head_bits p count"
  defines "m \<equiv> (count - n) div 64"
  shows "range_op source q dest p count head word =
    Inr (dest\<lparr>words :=
      range_head source (q + n + m * 64) (p + n + m * 64) (count - n - m * 64) head
        (range_words word (words source) ((q + n) div 64)
           (range_head source q p n head (words dest)) ((p + n) div 64) m ((q + n) mod 64))\<rparr>)"
proof (cases "n = count")
  case True
  then have "m = 0" by (simp add: m_def)
  have chk: "(case checked_add q count of None \<Rightarrow> False | Some e \<Rightarrow> e \<le> len source) \<and>
       (case checked_add p count of None \<Rightarrow> False | Some e \<Rightarrow> e \<le> len dest)"
    using assms by (simp add: checked_add_def)
  show ?thesis
    unfolding range_op_def Let_def head_bits_def [symmetric] n_def [symmetric] m_def [symmetric] \<open>m = 0\<close>
    using chk True assms(3) by (simp add: assert_that_def range_head_def)
next
  case False
  then have al: "(p + n) mod 64 = 0" unfolding n_def by (rule head_bits_aligned)
  then have al2: "(p + n + m * 64) mod 64 = 0" by (simp only: mod_mult_self1)
  have nz: "count - n \<noteq> 0" using False head_bits_le(1) [of p count] by (simp add: n_def)
  have chk: "(case checked_add q count of None \<Rightarrow> False | Some e \<Rightarrow> e \<le> len source) \<and>
       (case checked_add p count of None \<Rightarrow> False | Some e \<Rightarrow> e \<le> len dest)"
    using assms by (simp add: checked_add_def)
  show ?thesis
    unfolding range_op_def Let_def head_bits_def [symmetric] n_def [symmetric] m_def [symmetric]
    using chk nz assms(3) al2 by (auto simp: assert_that_def range_head_def)
qed

lemma ulen: "wf_bits b \<Longrightarrow> num_bits b \<le> usize_max"
  using bits2words_bounds(1) [of "num_bits b"] by (simp add: wf_bits_def)

lemma words_step_at:
  assumes op: "bitwise_op head word F" and al: "p mod 64 = 0"
    and len: "p + m * 64 \<le> length ws * 64" "q + m * 64 \<le> length src * 64"
  defines "ws' \<equiv> range_words word src (q div 64) ws (p div 64) m (q mod 64)"
  shows "wbit ws' j = combined F (wbit ws) (wbit src) q p (m * 64) j" and "length ws' = length ws"
proof -
  have p: "p div 64 * 64 = p" using al by (metis add.right_neutral div_mult_mod_eq)
  have q: "q div 64 * 64 + q mod 64 = q" by simp
  have dl: "p div 64 + m \<le> length ws" using len(1) p by linarith
  have "q div 64 + m + (if r = 0 then 0 else 1) \<le> length src"
    if "q div 64 * 64 + r = q" for r
    using len(2) that by auto
  then have sl: "q div 64 + m + (if q mod 64 = 0 then 0 else 1) \<le> length src" using q by blast
  show "length ws' = length ws" unfolding ws'_def using dl by (rule length_range_words)
  show "wbit ws' j = combined F (wbit ws) (wbit src) q p (m * 64) j"
    unfolding ws'_def words_step [OF op dl mod_64_less sl] combined_def p q ..
qed

lemma range_op_refines:
  assumes op: "bitwise_op head word F"
    and wf: "wf_bits source" "wf_bits dest"
    and rng: "q + count \<le> num_bits source" "p + count \<le> num_bits dest"
  obtains dest' where "range_op source q dest p count head word = Inr dest'" "wf_bits dest'"
    "num_bits dest' = num_bits dest"
    "\<And>j. j \<in> bits_of dest' \<longleftrightarrow>
       combined F (\<lambda>j. j \<in> bits_of dest) (\<lambda>i. i \<in> bits_of source) q p count j"
proof (cases "count = 0")
  case True
  with ulen [OF wf(1)] ulen [OF wf(2)] show ?thesis
    using rng wf by (intro that [of dest])
      (auto simp: range_op_def assert_that_def checked_add_def len_def combined_def)
next
  case False
  define n m where "n = head_bits p count" and "m = (count - n) div 64"
  define t where "t = count - n - m * 64"
  define w1 where "w1 = range_head source q p n head (words dest)"
  define w2 where "w2 = range_words word (words source) ((q + n) div 64) w1 ((p + n) div 64) m ((q + n) mod 64)"
  define w3 where "w3 = range_head source (q + n + m * 64) (p + n + m * 64) t head w2"
  let ?src = "\<lambda>i. wbit (words source) i"
  have dlen: "p + count \<le> length (words dest) * 64" and slen: "q + count \<le> length (words source) * 64"
    using rng wf bits2words_bounds(1) [of "num_bits dest"] bits2words_bounds(1) [of "num_bits source"]
    by (auto simp: wf_bits_def)
  have nle: "n \<le> count" "p mod 64 + n \<le> 64" unfolding n_def by (rule head_bits_le)+
  have mle: "n + m * 64 \<le> count" "t < 64"
    using nle(1) unfolding m_def t_def by (simp_all add: minus_div_mult_eq_mod)
  have cnt: "count = n + m * 64 + t" using mle(1) by (simp add: t_def)
  have b1: "wbit w1 j = combined F (wbit (words dest)) ?src q p n j" for j
    unfolding w1_def combined_def
    using wbit_range_head [OF op nle(2), of "words dest" source q j] dlen nle(1) rng(1) wf(1)
    by (simp add: mem_bits_of)
  have l1: "length w1 = length (words dest)" by (simp add: w1_def)
  have al: "(p + n) mod 64 = 0" if "n \<noteq> count"
    unfolding n_def using that by (intro head_bits_aligned) (simp add: n_def)
  have b2: "wbit w2 j = combined F (wbit w1) ?src (q + n) (p + n) (m * 64) j"
    and l2: "length w2 = length (words dest)" for j
  proof (atomize (full), cases "m = 0")
    case True
    then show "wbit w2 j = combined F (wbit w1) ?src (q + n) (p + n) (m * 64) j \<and> length w2 = length (words dest)"
      by (auto simp: w2_def combined_def l1)
  next
    case False
    then have "n \<noteq> count" using mle(1) by simp
    note whole_words = words_step_at [OF op al [OF this], of m w1 "q + n" "words source"]
    show "wbit w2 j = combined F (wbit w1) ?src (q + n) (p + n) (m * 64) j \<and> length w2 = length (words dest)"
      unfolding w2_def using whole_words dlen slen mle(1) l1 by simp
  qed
  have "(p + n + m * 64) mod 64 + t \<le> 64"
  proof (cases "n = count")
    case False
    then have "(p + n + m * 64) mod 64 = 0" using al [OF False] by (simp only: mod_mult_self1)
    then show ?thesis using mle(2) by linarith
  qed (simp add: t_def)
  then have b3: "wbit w3 j = combined F (wbit w2) ?src (q + n + m * 64) (p + n + m * 64) t j" for j
    unfolding w3_def combined_def
    using wbit_range_head [OF op, of "p + n + m * 64" t w2 source "q + n + m * 64" j] dlen l2 cnt rng(1) wf(1)
    by (simp add: mem_bits_of)
  have l3: "length w3 = length (words dest)" by (simp add: w3_def l2)
  have b: "wbit w3 j = combined F (wbit (words dest)) ?src q p count j" for j
    unfolding cnt
    by (rule combined_split [where d' = "wbit w2", OF combined_split [where d' = "wbit w1", OF b1 b2]])
       (simp add: b3 add.assoc)
  show ?thesis
  proof (rule that)
    show "range_op source q dest p count head word = Inr (dest\<lparr>words := w3\<rparr>)"
      unfolding w3_def w2_def w1_def t_def m_def n_def
      using rng False ulen [OF wf(1)] ulen [OF wf(2)] by (intro range_op_phases) (auto simp: len_def)
    show "wf_bits (dest\<lparr>words := w3\<rparr>)"
    proof (rule wf_words_update [OF wf(2) l3])
      show "i < num_bits dest" if "wbit w3 i" for i
        using that rng(2) wf_bound [OF wf(2), of i] by (auto simp: b combined_def mem_bits_of split: if_splits)
    qed
  qed (auto simp: mem_bits_of b)
qed

lemma or_range_refines:
  assumes "wf_bits source" and "wf_bits dest" and "q + n \<le> num_bits source" and "p + n \<le> num_bits dest"
  obtains dest' where "or_range source q dest p n = Inr dest'" "wf_bits dest'" "num_bits dest' = num_bits dest"
    "bits_of dest' = bits_of dest \<union> (\<lambda>i. i - q + p) ` (bits_of source \<inter> {q..<q + n})"
proof (rule range_op_refines [OF bitwise_op_or assms])
  fix d assume d: "range_op source q dest p n (\<lambda>d bits sh _. d OR push_bit sh bits) (\<lambda>d w. d OR w) = Inr d"
    "wf_bits d" "num_bits d = num_bits dest"
    "\<And>j. j \<in> bits_of d \<longleftrightarrow> combined (\<or>) (\<lambda>j. j \<in> bits_of dest) (\<lambda>i. i \<in> bits_of source) q p n j"
  have img: "j \<in> (\<lambda>i. i - q + p) ` (bits_of source \<inter> {q..<q + n}) \<longleftrightarrow>
      p \<le> j \<and> j < p + n \<and> q + (j - p) \<in> bits_of source" for j
    by (auto simp: image_iff intro!: bexI [of _ "q + (j - p)"])
  have "bits_of d = bits_of dest \<union> (\<lambda>i. i - q + p) ` (bits_of source \<inter> {q..<q + n})"
    by (intro set_eqI) (simp only: Un_iff img d(4) combined_def split: if_splits, blast)
  with d(1-3) show thesis by (intro that [of d]) (simp_all only: or_range_def)
qed

lemma and_range_refines:
  assumes "wf_bits source" and "wf_bits dest" and "q + n \<le> num_bits source" and "p + n \<le> num_bits dest"
  obtains dest' where "and_range source q dest p n = Inr dest'" "wf_bits dest'" "num_bits dest' = num_bits dest"
    "bits_of dest' = {j \<in> bits_of dest. p \<le> j \<and> j < p + n \<longrightarrow> q + (j - p) \<in> bits_of source}"
proof (rule range_op_refines [OF bitwise_op_and assms])
  fix d assume d: "range_op source q dest p n (\<lambda>d bits sh n. let span = (if n = 64 then - 1 else push_bit n 1 - 1)
                in d AND (push_bit sh bits OR NOT (push_bit sh span))) (\<lambda>d w. d AND w) = Inr d"
    "wf_bits d" "num_bits d = num_bits dest"
    "\<And>j. j \<in> bits_of d \<longleftrightarrow> combined (\<and>) (\<lambda>j. j \<in> bits_of dest) (\<lambda>i. i \<in> bits_of source) q p n j"
  have "bits_of d = {j \<in> bits_of dest. p \<le> j \<and> j < p + n \<longrightarrow> q + (j - p) \<in> bits_of source}"
    by (intro set_eqI) (simp only: mem_Collect_eq d(4) combined_def split: if_splits, blast)
  with d(1-3) show thesis by (intro that [of d]) (simp_all only: and_range_def)
qed

text \<open>
  \<open>apply_mask\<close>, the way deletions are applied to a collected set: what is left is the part of the
  set that is live, and an element past the end of the live docs is reported.
\<close>

lemma apply_mask_refines:
  assumes "wf_bits live" and "wf_bits b" and "offset \<le> num_bits live"
  obtains b' where "apply_mask live b offset =
      Inr (if \<exists>j \<in> bits_of b. num_bits live - offset \<le> j then None else Some (), b')"
    "wf_bits b'" "num_bits b' = num_bits b"
    "bits_of b' = {j \<in> bits_of b. j < num_bits live - offset \<longrightarrow> offset + j \<in> bits_of live}"
proof -
  let ?n = "min (num_bits b) (num_bits live - offset)"
  have n: "offset + ?n \<le> num_bits live" "0 + ?n \<le> num_bits b" using assms(3) by auto
  obtain b' where b':
    "and_range live offset b 0 ?n = Inr b'" "wf_bits b'" "num_bits b' = num_bits b"
    "bits_of b' = {j \<in> bits_of b. 0 \<le> j \<and> j < 0 + ?n \<longrightarrow> offset + (j - 0) \<in> bits_of live}"
    by (rule and_range_refines [OF assms(1,2) n])
  have bits: "bits_of b' = {j \<in> bits_of b. j < num_bits live - offset \<longrightarrow> offset + j \<in> bits_of live}"
    using wf_bound [OF assms(2)] by (auto simp: b'(4))
  have "?n < num_bits b' \<and> next_set_bit b' ?n \<noteq> None \<longleftrightarrow> (\<exists>j \<in> bits_of b. num_bits live - offset \<le> j)"
  proof -
    have "is_next (bits_of b') ?n (next_set_bit b' ?n)" using b'(2) by (rule next_set_bit_next)
    then have "next_set_bit b' ?n \<noteq> None \<longleftrightarrow> (\<exists>j \<in> bits_of b'. ?n \<le> j)"
      by (auto simp: is_next_def disjoint_iff split: option.splits)
    moreover have "(\<exists>j \<in> bits_of b'. ?n \<le> j) \<longleftrightarrow> (\<exists>j \<in> bits_of b. num_bits live - offset \<le> j)"
    proof
      assume "\<exists>j \<in> bits_of b'. ?n \<le> j"
      then obtain j where "j \<in> bits_of b" "?n \<le> j" by (auto simp: bits)
      then show "\<exists>j \<in> bits_of b. num_bits live - offset \<le> j"
        using wf_bound [OF assms(2)] by (intro bexI [of _ j]) (fastforce simp: min_def split: if_splits)+
    next
      assume "\<exists>j \<in> bits_of b. num_bits live - offset \<le> j"
      then obtain j where "j \<in> bits_of b" "num_bits live - offset \<le> j" by blast
      then show "\<exists>j \<in> bits_of b'. ?n \<le> j"
        by (intro bexI [of _ j]) (auto simp: bits)
    qed
    moreover have "?n < num_bits b" if "j \<in> bits_of b" "num_bits live - offset \<le> j" for j
      using that wf_bound [OF assms(2)] by fastforce
    ultimately show ?thesis unfolding b'(3) by blast
  qed
  then have "apply_mask live b offset =
      Inr (if \<exists>j \<in> bits_of b. num_bits live - offset \<le> j then None else Some (), b')"
    using b'(1) assms(3) by (simp add: apply_mask_def Let_def)
  with b' bits show thesis by (intro that) auto
qed

section \<open>Building and growing\<close>

lemma copy_of_word:
  "bit (foldl (\<lambda>acc i. acc OR push_bit i (if f (base + i) then 1 else 0)) (acc :: u64) [0..<m]) k \<longleftrightarrow>
     bit acc k \<or> k < m \<and> k < 64 \<and> f (base + k)"
proof (induction m)
  case 0
  then show ?case by simp
next
  case (Suc m)
  have "bit (push_bit m (if f (base + m) then 1 else 0) :: u64) k \<longleftrightarrow> k = m \<and> k < 64 \<and> f (base + m)"
    by auto
  then show ?case using Suc by (auto simp: bit_or_iff less_Suc_eq)
qed

lemma copy_of_refines:
  assumes "bits2words n * 64 \<le> usize_max"
  shows "wf_bits (copy_of n f)" and "num_bits (copy_of n f) = n" and "bits_of (copy_of n f) = {i. i < n \<and> f i}"
proof -
  have "wbit (words (copy_of n f)) i \<longleftrightarrow> i < n \<and> f i" for i
  proof (cases "i div 64 < bits2words n")
    case True
    have "k < min (n - w * 64) 64 \<longleftrightarrow> w * 64 + k < n" if "k < 64" for k w using that by auto
    from this [OF mod_64_less [of i], of "i div 64"]
    have lim: "i mod 64 < min (n - i div 64 * 64) 64 \<longleftrightarrow> i < n" by (simp only: div_mult_mod_eq)
    have "words (copy_of n f) ! (i div 64) =
        foldl (\<lambda>acc k. acc OR push_bit k (if f (i div 64 * 64 + k) then 1 else 0)) 0 [0..<min (n - i div 64 * 64) 64]"
      using True by (simp add: copy_of_def Let_def)
    then have "bit (words (copy_of n f) ! (i div 64)) (i mod 64) \<longleftrightarrow> i < n \<and> f i"
      by (simp only: copy_of_word lim bit_0_eq div_mult_mod_eq) simp
    with True show ?thesis by (simp add: wbit_def) (simp add: copy_of_def)
  next
    case False
    then have "\<not> i < n" using div_less_bits2words by blast
    with False show ?thesis by (simp add: copy_of_def wbit_def)
  qed
  then show bits: "bits_of (copy_of n f) = {i. i < n \<and> f i}" by (auto simp: bits_of_def)
  show "wf_bits (copy_of n f)"
    using assms by (auto simp: wf_iff bits) (simp_all add: copy_of_def)
  show "num_bits (copy_of n f) = n" by (simp add: copy_of_def)
qed

lemma ensure_capacity_refines:
  assumes "wf_bits b" and "(bits2words d + 1 + max ((bits2words d + 1) div 8) 3) * 64 \<le> usize_max"
  shows "wf_bits (ensure_capacity b d)" and "d < num_bits (ensure_capacity b d)"
    and "bits_of (ensure_capacity b d) = bits_of b"
proof -
  let ?w = "bits2words d" and ?e = "max ((bits2words d + 1) div 8) 3"
  have "wf_bits (ensure_capacity b d) \<and> d < num_bits (ensure_capacity b d) \<and> bits_of (ensure_capacity b d) = bits_of b"
  proof (cases "d < num_bits b")
    case True
    then show ?thesis using assms by (simp add: ensure_capacity_def ensure_capacity_internal_def)
  next
    case False
    have le: "length (words b) \<le> ?w" using False assms(1) by (simp add: wf_bits_def bits2words_mono)
    let ?ws = "words b @ replicate (?w + 1 + ?e - length (words b)) 0"
    have eq: "ensure_capacity b d = \<lparr>words = ?ws, num_bits = length ?ws * 64\<rparr>"
      using False le by (simp add: ensure_capacity_def ensure_capacity_internal_def Let_def)
    have len: "length ?ws = ?w + 1 + ?e" using le by simp
    have "wbit ?ws i \<longleftrightarrow> wbit (words b) i" for i
      unfolding wbit_append by (auto simp: wbit_def)
    moreover have "i < length ?ws * 64" if "wbit (words b) i" for i
      using that by (auto simp: wbit_def div_less_iff_less_mult)
    moreover have "bits2words (m * 64) = m" for m
      using bits2words_bounds [of "m * 64"] by simp
    moreover have "d < length ?ws * 64"
      unfolding len using bits2words_bounds(1) [of d] by simp
    moreover have "length ?ws * 64 \<le> usize_max" unfolding len by (rule assms(2))
    ultimately show ?thesis
      unfolding eq by (auto simp: wf_iff bits_of_def simp del: length_append)
  qed
  then show "wf_bits (ensure_capacity b d)" "d < num_bits (ensure_capacity b d)"
    "bits_of (ensure_capacity b d) = bits_of b" by auto
qed

section \<open>The interface of a bit set\<close>

text \<open>The loop \<open>i = next_set_bit(0); while i is some { visit(i); i = next_set_bit(i + 1) }\<close>.\<close>

fun walk_bits :: "('b \<Rightarrow> nat \<Rightarrow> nat option) \<Rightarrow> 'b \<Rightarrow> nat \<Rightarrow> nat \<Rightarrow> nat list" where
  "walk_bits nxt b 0 i = []"
| "walk_bits nxt b (Suc fuel) i =
     (case nxt b i of None \<Rightarrow> [] | Some x \<Rightarrow> x # walk_bits nxt b fuel (x + 1))"

fun set_all :: "('b \<Rightarrow> nat \<Rightarrow> 'b panics) \<Rightarrow> nat list \<Rightarrow> 'b \<Rightarrow> 'b panics" where
  "set_all st [] b = Inr b"
| "set_all st (i # is) b = (case st b i of Inl p \<Rightarrow> Inl p | Inr b' \<Rightarrow> set_all st is b')"

locale bit_set =
  fixes abs_set :: "'b \<Rightarrow> nat set" and inv :: "'b \<Rightarrow> bool" and size_of :: "'b \<Rightarrow> nat"
    and get_op :: "'b \<Rightarrow> nat \<Rightarrow> bool panics"
    and set_op :: "'b \<Rightarrow> nat \<Rightarrow> 'b panics" and clear_op :: "'b \<Rightarrow> nat \<Rightarrow> 'b panics"
    and next_op :: "'b \<Rightarrow> nat \<Rightarrow> nat option" and count_op :: "'b \<Rightarrow> nat"
  assumes abs_bound: "inv b \<Longrightarrow> abs_set b \<subseteq> {..<size_of b}"
    and get_law: "inv b \<Longrightarrow> get_op b i = (if i < size_of b then Inr (i \<in> abs_set b) else Inl IndexOutOfRange)"
    and set_law: "inv b \<Longrightarrow> i < size_of b \<Longrightarrow>
      \<exists>b'. set_op b i = Inr b' \<and> inv b' \<and> size_of b' = size_of b \<and> abs_set b' = insert i (abs_set b)"
    and clear_law: "inv b \<Longrightarrow> i < size_of b \<Longrightarrow>
      \<exists>b'. clear_op b i = Inr b' \<and> inv b' \<and> size_of b' = size_of b \<and> abs_set b' = abs_set b - {i}"
    and next_law: "inv b \<Longrightarrow> is_next (abs_set b) i (next_op b i)"
    and count_law: "inv b \<Longrightarrow> count_op b = card (abs_set b)"
begin

lemma finite_abs: "inv b \<Longrightarrow> finite (abs_set b)"
  using abs_bound finite_subset by blast

lemma walk_from:
  assumes "inv b" and "card (abs_set b \<inter> {i..}) \<le> fuel"
  shows "walk_bits next_op b fuel i = sorted_list_of_set (abs_set b \<inter> {i..})"
  using assms(2)
proof (induction fuel arbitrary: i)
  case 0
  then have "abs_set b \<inter> {i..} = {}" using finite_abs [OF assms(1)] by simp
  then show ?case by simp
next
  case (Suc fuel)
  let ?S = "abs_set b \<inter> {i..}"
  have fin: "finite ?S" using finite_abs [OF assms(1)] by simp
  show ?case
  proof (cases "next_op b i")
    case None
    then have "?S = {}" using next_law [OF assms(1), of i] by (simp add: is_next_def)
    with None show ?thesis by simp
  next
    case (Some x)
    then have x: "x \<in> abs_set b" "i \<le> x" "abs_set b \<inter> {i..<x} = {}"
      using next_law [OF assms(1), of i] by (simp_all add: is_next_def)
    have S: "?S = insert x (abs_set b \<inter> {x + 1..})"
    proof (intro set_eqI iffI)
      fix j assume "j \<in> ?S"
      with x(3) have "x \<le> j" by (auto simp: disjoint_iff not_less [symmetric])
      with \<open>j \<in> ?S\<close> show "j \<in> insert x (abs_set b \<inter> {x + 1..})" by auto
    qed (use x in auto)
    have finS: "finite (abs_set b \<inter> {x + 1..})" using finite_abs [OF assms(1)] by simp
    have "card ?S = Suc (card (abs_set b \<inter> {x + 1..}))"
      unfolding S using finS by (subst card_insert_disjoint) auto
    then have "walk_bits next_op b fuel (x + 1) = sorted_list_of_set (abs_set b \<inter> {x + 1..})"
      using Suc.prems by (intro Suc.IH) simp
    moreover have "sorted_list_of_set ?S = x # sorted_list_of_set (abs_set b \<inter> {x + 1..})"
      unfolding S using finS by (simp add: sorted_list_of_set_insert_remove insort_is_Cons)
    ultimately show ?thesis using Some by simp
  qed
qed

lemma walk_all: "inv b \<Longrightarrow> walk_bits next_op b (count_op b) 0 = sorted_list_of_set (abs_set b)"
  using walk_from [of b 0 "count_op b"] count_law [of b] by simp

lemma set_all_law:
  assumes "inv b" and "\<forall>i \<in> set is. i < size_of b"
  shows "\<exists>b'. set_all set_op is b = Inr b' \<and> inv b' \<and> size_of b' = size_of b \<and> abs_set b' = abs_set b \<union> set is"
  using assms
proof (induction "is" arbitrary: b)
  case Nil
  then show ?case by simp
next
  case (Cons i "is")
  then obtain b1 where "set_op b i = Inr b1" "inv b1" "size_of b1 = size_of b" "abs_set b1 = insert i (abs_set b)"
    using set_law [of b i] by auto
  with Cons.IH [of b1] Cons.prems show ?case by auto
qed

end

interpretation fbs: bit_set bits_of wf_bits num_bits get set_bit_at clear next_set_bit cardinality
proof unfold_locales
  fix b :: fixed_bit_set and i :: nat
  assume wf: "wf_bits b"
  show "bits_of b \<subseteq> {..<num_bits b}" using wf by (simp add: wf_iff)
  show "get b i = (if i < num_bits b then Inr (i \<in> bits_of b) else Inl IndexOutOfRange)"
    using wf by (rule get_eq)
  show "is_next (bits_of b) i (next_set_bit b i)" using wf by (rule next_set_bit_next)
  show "cardinality b = card (bits_of b)" by (rule cardinality_eq)
  assume i: "i < num_bits b"
  show "\<exists>b'. set_bit_at b i = Inr b' \<and> wf_bits b' \<and> num_bits b' = num_bits b \<and> bits_of b' = insert i (bits_of b)"
    by (rule set_refines [OF wf i]) blast
  show "\<exists>b'. clear b i = Inr b' \<and> wf_bits b' \<and> num_bits b' = num_bits b \<and> bits_of b' = bits_of b - {i}"
    by (rule clear_refines [OF wf i]) blast
qed

section \<open>Properties\<close>

text \<open>
  C35: Collecting documents into a fresh bit set and reading them back. After \<open>FixedBitSet::new(n)\<close>
  and one \<open>set\<close> per document of a list below \<open>n\<close>, nothing has panicked, \<open>get\<close> answers membership in
  the list, \<open>cardinality\<close> counts the distinct documents, and both ways of iterating
  (\<open>for_each_set_bit\<close> word by word, \<open>next_set_bit\<close> bit by bit) list them in increasing order.
\<close>
theorem collect_and_iterate:
  assumes "bits2words n * 64 \<le> usize_max" and "\<forall>d \<in> set docs. d < n"
  shows "\<exists>b. set_all set_bit_at docs (new_bit_set n) = Inr b \<and> wf_bits b \<and>
    (\<forall>i<n. get b i = Inr (i \<in> set docs)) \<and> cardinality b = card (set docs) \<and>
    for_each_set_bit b = sorted_list_of_set (set docs) \<and>
    walk_bits next_set_bit b (cardinality b) 0 = sorted_list_of_set (set docs)"
proof -
  have new: "wf_bits (new_bit_set n)" "bits_of (new_bit_set n) = {}" "num_bits (new_bit_set n) = n"
    using new_bit_set_refines [OF assms(1)] by (auto simp: new_bit_set_def)
  with assms(2) obtain b where b: "set_all set_bit_at docs (new_bit_set n) = Inr b" "wf_bits b" "num_bits b = n"
    "bits_of b = set docs"
    using fbs.set_all_law [of "new_bit_set n" docs] by auto
  then show ?thesis
    using fbs.walk_all [OF b(2)] by (simp add: get_eq cardinality_eq for_each_set_bit_eq)
qed

theorem collect_and_iterate_witness:
  "\<exists>b. set_all set_bit_at [70, 3, 70, 64] (new_bit_set 100) = Inr b \<and> for_each_set_bit b = [3, 64, 70] \<and>
    cardinality b = 3"
proof -
  have "bits2words 100 * 64 \<le> usize_max" by (simp add: bits2words_def usize_max_def)
  moreover have "sorted_list_of_set (set [70, 3, 70, 64 :: nat]) = [3, 64, 70]" by code_simp
  moreover have "card (set [70, 3, 70, 64 :: nat]) = 3" by code_simp
  ultimately show ?thesis
    using collect_and_iterate [of 100 "[70, 3, 70, 64]"] by auto
qed

text \<open>
  C36: The boolean operations on two bit sets are the set operations, word arrays of different
  lengths included, and keep the invariant; the four counting functions return the size of the set
  the corresponding operation would build.
\<close>
theorem boolean_algebra:
  assumes "wf_bits a" and "wf_bits b" and "num_bits b \<le> num_bits a"
  shows "(\<exists>c. or_set a b = Inr c \<and> wf_bits c \<and> bits_of c = bits_of a \<union> bits_of b) \<and>
    (\<exists>c. xor_set a b = Inr c \<and> wf_bits c \<and> bits_of c = (bits_of a - bits_of b) \<union> (bits_of b - bits_of a)) \<and>
    wf_bits (and_set a b) \<and> bits_of (and_set a b) = bits_of a \<inter> bits_of b \<and>
    wf_bits (and_not a b) \<and> bits_of (and_not a b) = bits_of a - bits_of b \<and>
    intersection_count a b = card (bits_of a \<inter> bits_of b) \<and>
    union_count a b = card (bits_of a \<union> bits_of b) \<and>
    and_not_count a b = card (bits_of a - bits_of b) \<and>
    intersects a b = (bits_of a \<inter> bits_of b \<noteq> {}) \<and> scan_is_empty a = (bits_of a = {})"
proof -
  have "\<exists>c. or_set a b = Inr c \<and> wf_bits c \<and> bits_of c = bits_of a \<union> bits_of b"
    by (rule or_refines [OF assms]) blast
  moreover have "\<exists>c. xor_set a b = Inr c \<and> wf_bits c \<and> bits_of c = (bits_of a - bits_of b) \<union> (bits_of b - bits_of a)"
    by (rule xor_refines [OF assms]) blast
  ultimately show ?thesis
    using assms(1,2)
    by (simp add: and_refines and_not_refines intersection_count_eq union_count_eq and_not_count_eq
        intersects_eq scan_is_empty_eq)
qed

definition sample_bits :: fixed_bit_set where
  "sample_bits = \<lparr>words = [0x8000000000000005, 0x21], num_bits = 70\<rparr>"

lemma num_bits_sample: "num_bits sample_bits = 70"
  by (simp add: sample_bits_def)

lemma wf_sample: "wf_bits sample_bits"
  by (simp add: wf_bits_def sample_bits_def bits2words_def usize_max_def ghost_bits_clear_def
      mask_eq_exp_minus_1)

theorem boolean_algebra_witness:
  "wf_bits sample_bits \<and> union_count sample_bits sample_bits = card (bits_of sample_bits)"
  using boolean_algebra [of sample_bits sample_bits] wf_sample by simp

text \<open>
  A range update changes exactly the indices of the range, wherever its ends fall in their
  words: \<open>set_range\<close> adds them, \<open>clear_range\<close> removes them, \<open>flip_range\<close> complements them, and
  \<open>cardinality_range\<close> counts the elements inside. None of them panics on a range inside the set.
\<close>
theorem range_updates:
  assumes "wf_bits b" and "end \<le> num_bits b"
  shows "(\<exists>c. set_range b start end = Inr c \<and> wf_bits c \<and> bits_of c = bits_of b \<union> {start..<end}) \<and>
    (\<exists>c. clear_range b start end = Inr c \<and> wf_bits c \<and> bits_of c = bits_of b - {start..<end}) \<and>
    (\<exists>c. flip_range b start end = Inr c \<and> wf_bits c \<and>
         bits_of c = (bits_of b - {start..<end}) \<union> ({start..<end} - bits_of b)) \<and>
    (start \<le> end \<longrightarrow> cardinality_range b start end = Inr (card (bits_of b \<inter> {start..<end})))"
proof (intro conjI impI)
  show "\<exists>c. set_range b start end = Inr c \<and> wf_bits c \<and> bits_of c = bits_of b \<union> {start..<end}"
    by (rule set_range_refines [OF assms, of start]) blast
  show "\<exists>c. clear_range b start end = Inr c \<and> wf_bits c \<and> bits_of c = bits_of b - {start..<end}"
    by (rule clear_range_refines [OF assms, of start]) blast
  show "\<exists>c. flip_range b start end = Inr c \<and> wf_bits c \<and>
      bits_of c = (bits_of b - {start..<end}) \<union> ({start..<end} - bits_of b)"
    by (rule flip_range_refines [OF assms, of start]) blast
  show "cardinality_range b start end = Inr (card (bits_of b \<inter> {start..<end}))" if "start \<le> end"
    using cardinality_range_eq [OF assms(1) that assms(2)] .
qed

theorem range_updates_witness:
  "wf_bits sample_bits \<and> cardinality_range sample_bits 2 65 = Inr (card (bits_of sample_bits \<inter> {2..<65}))"
  using range_updates [of sample_bits 65 2] wf_sample by (simp add: num_bits_sample)

text \<open>
  C37: Navigation. \<open>next_set_bit\<close>, \<open>next_set_bit_in_range\<close>, \<open>next_clear_bit\<close> and
  \<open>next_clear_bit_in_range\<close> return the least element at or after the index of the set, of its part
  below the bound, of its complement; \<open>prev_set_bit\<close> returns the greatest element at or before it.
  Each returns \<open>None\<close> exactly when there is no such element.
\<close>
theorem navigation:
  assumes "wf_bits b"
  shows "is_next (bits_of b) i (next_set_bit b i) \<and>
    is_next (bits_of b \<inter> {..<ub}) i (next_set_bit_in_range b i ub) \<and>
    is_next ({..<num_bits b} - bits_of b) i (next_clear_bit b i) \<and>
    is_next ({..<min ub (num_bits b)} - bits_of b) i (next_clear_bit_in_range b i ub) \<and>
    (i < num_bits b \<longrightarrow> (\<exists>r. prev_set_bit b i = Inr r \<and> is_prev (bits_of b) i r))"
  using next_set_bit_next [OF assms] next_set_bit_in_range_next [OF assms] next_clear_bit_next [OF assms]
    next_clear_bit_in_range_next [OF assms] prev_set_bit_prev [OF assms] by blast

theorem navigation_witness:
  "is_next (bits_of sample_bits) 3 (next_set_bit sample_bits 3) \<and> next_set_bit sample_bits 3 = Some 63"
proof
  show "is_next (bits_of sample_bits) 3 (next_set_bit sample_bits 3)"
    using navigation [OF wf_sample, of 3 0] by blast
  show "next_set_bit sample_bits 3 = Some 63" by code_simp
qed

text \<open>
  \<open>or_range\<close> copies an arbitrary, unaligned range of one bit set into another: the destination
  gains exactly the source's elements of the range, moved by the distance of the two starting points.
  \<open>apply_mask\<close> (the live-docs filter) keeps the elements whose counterpart at \<open>offset\<close> is set, and
  answers an error exactly when the set has an element past the end of the mask.
\<close>
theorem unaligned_ranges:
  assumes "wf_bits source" and "wf_bits dest" and "q + n \<le> num_bits source" and "p + n \<le> num_bits dest"
    and "offset \<le> num_bits source"
  shows "(\<exists>d. or_range source q dest p n = Inr d \<and> wf_bits d \<and>
      bits_of d = bits_of dest \<union> (\<lambda>i. i - q + p) ` (bits_of source \<inter> {q..<q + n})) \<and>
    (\<exists>d. apply_mask source dest offset =
        Inr (if \<exists>j. j \<in> bits_of dest \<and> num_bits source - offset \<le> j then None else Some (), d) \<and> wf_bits d \<and>
      bits_of d = {j. j \<in> bits_of dest \<and> (offset + j \<in> bits_of source \<or> num_bits source - offset \<le> j)})"
proof
  show "\<exists>d. or_range source q dest p n = Inr d \<and> wf_bits d \<and>
      bits_of d = bits_of dest \<union> (\<lambda>i. i - q + p) ` (bits_of source \<inter> {q..<q + n})"
    by (rule or_range_refines [OF assms(1-4)]) blast
  obtain d where "apply_mask source dest offset =
      Inr (if \<exists>j \<in> bits_of dest. num_bits source - offset \<le> j then None else Some (), d)" "wf_bits d"
    "bits_of d = {j \<in> bits_of dest. j < num_bits source - offset \<longrightarrow> offset + j \<in> bits_of source}"
    by (rule apply_mask_refines [OF assms(1,2,5)])
  then show "\<exists>d. apply_mask source dest offset =
        Inr (if \<exists>j. j \<in> bits_of dest \<and> num_bits source - offset \<le> j then None else Some (), d) \<and> wf_bits d \<and>
      bits_of d = {j. j \<in> bits_of dest \<and> (offset + j \<in> bits_of source \<or> num_bits source - offset \<le> j)}"
    by (intro exI [of _ d]) (auto simp: not_less [symmetric] Bex_def)
qed

theorem unaligned_ranges_witness:
  "\<exists>d. or_range sample_bits 1 sample_bits 6 64 = Inr d \<and> wf_bits d"
  using unaligned_ranges [of sample_bits sample_bits 1 64 6 0] wf_sample num_bits_sample by simp blast

text \<open>
  \<open>or_mask\<close> ors the whole mask word in, not only its low \<open>mask_len\<close> bits: a mask with a bit at or past
  \<open>mask_len\<close> leaves a bit past the set's length behind, which breaks the invariant.
\<close>

lemma or_mask_keeps_high_bits:
  "\<exists>b. or_mask (new_bit_set 4) 0 0xFF 4 = Inr b \<and> \<not> wf_bits b \<and> cardinality b = 8"
proof -
  let ?b = "\<lparr>words = [0xFF], num_bits = 4\<rparr> :: fixed_bit_set"
  have "or_mask (new_bit_set 4) 0 0xFF 4 = Inr ?b"
    by (simp add: or_mask_def new_bit_set_def assert_that_def bits2words_def)
  moreover have "\<not> wf_bits ?b" by (simp add: wf_bits_def ghost_bits_clear_def bits2words_def mask_eq_exp_minus_1 usize_max_def)
  moreover have "cardinality ?b = 8" by code_simp
  ultimately show ?thesis by blast
qed

end
