(* ===== verification/Base36.thy ===== *)
theory Base36
  imports Lucene_Prelude
begin

text \<open>
  \<open>base36.rs\<close>, the base-36 numbers in the names of commit files, segments and generations, and the commit
  file names of \<open>directory.rs\<close> built from them. \<open>from_str_radix\<close> is Rust's \<open>i64::from_str_radix(s, 36)\<close>:
  an optional sign, at least one digit of either case, every step checked against the range of \<open>i64\<close>.
\<close>

definition DIGITS :: "u8 list" where
  "DIGITS = ascii ''0123456789abcdefghijklmnopqrstuvwxyz''"

fun base36_digits :: "nat \<Rightarrow> u8 list \<Rightarrow> u8 list" where
  "base36_digits n out = (if n = 0 then out else base36_digits (n div 36) (out @ [DIGITS ! (n mod 36)]))"

declare base36_digits.simps [simp del]

definition to_base36 :: "i64 \<Rightarrow> u8 list" where
  "to_base36 n =
     (if n = 0 then ascii ''0''
      else let out = base36_digits (nat \<bar>sint n\<bar>) []
           in rev (if sint n < 0 then out @ ascii ''-'' else out))"

section \<open>Parsing an integer\<close>

definition to_digit :: "u8 \<Rightarrow> int option" where
  "to_digit b =
     (if 48 \<le> b \<and> b \<le> 57 then Some (uint b - 48)
      else if 97 \<le> b \<and> b \<le> 122 then Some (uint b - 87)
      else if 65 \<le> b \<and> b \<le> 90 then Some (uint b - 55)
      else None)"

definition checked_i64 :: "int \<Rightarrow> int option" where
  "checked_i64 v = (if - (2 ^ 63) \<le> v \<and> v < 2 ^ 63 then Some v else None)"

fun radix_loop :: "bool \<Rightarrow> int \<Rightarrow> u8 list \<Rightarrow> int option" where
  "radix_loop negative acc [] = Some acc"
| "radix_loop negative acc (b # bs) =
     (case checked_i64 (acc * 36) of
        None \<Rightarrow> None
      | Some r \<Rightarrow>
          (case to_digit b of
             None \<Rightarrow> None
           | Some d \<Rightarrow>
               (case checked_i64 (if negative then r - d else r + d) of
                  None \<Rightarrow> None
                | Some acc' \<Rightarrow> radix_loop negative acc' bs)))"

definition from_str_radix :: "u8 list \<Rightarrow> i64 option" where
  "from_str_radix s =
     (case s of
        [] \<Rightarrow> None
      | c # rest \<Rightarrow>
          if c = 43 \<and> rest \<noteq> [] then map_option word_of_int (radix_loop False 0 rest)
          else if c = 45 \<and> rest \<noteq> [] then map_option word_of_int (radix_loop True 0 rest)
          else map_option word_of_int (radix_loop False 0 s))"

definition from_base36 :: "u8 list \<Rightarrow> i64 option" where
  "from_base36 s = from_str_radix s"

section \<open>Commit file names\<close>

definition SEGMENTS_PREFIX :: "u8 list" where
  "SEGMENTS_PREFIX = ascii ''segments''"

definition OLD_SEGMENTS_GEN :: "u8 list" where
  "OLD_SEGMENTS_GEN = ascii ''segments.gen''"

definition PENDING_SEGMENTS_PREFIX :: "u8 list" where
  "PENDING_SEGMENTS_PREFIX = ascii ''pending_segments''"

definition starts_with :: "'a list \<Rightarrow> 'a list \<Rightarrow> bool" where
  "starts_with s p = (take (length p) s = p)"

definition ends_with :: "'a list \<Rightarrow> 'a list \<Rightarrow> bool" where
  "ends_with s p = (length p \<le> length s \<and> drop (length s - length p) s = p)"

definition strip_prefix :: "'a list \<Rightarrow> 'a list \<Rightarrow> 'a list option" where
  "strip_prefix s p = (if starts_with s p then Some (drop (length p) s) else None)"

text \<open>\<open>Chars::next\<close> then \<open>as_str\<close>: the string without its first character.\<close>

definition skip_char :: "u8 list \<Rightarrow> u8 list" where
  "skip_char s = (case utf8_step s of None \<Rightarrow> s | Some n \<Rightarrow> drop n s)"

definition generation_from_segments_file_name :: "u8 list \<Rightarrow> error + i64" where
  "generation_from_segments_file_name file_name =
     (if file_name = OLD_SEGMENTS_GEN then Inl (Corrupted OldSegmentsGen)
      else if file_name = SEGMENTS_PREFIX then Inr 0
      else case strip_prefix file_name SEGMENTS_PREFIX of
             Some rest \<Rightarrow>
               (case from_base36 (skip_char rest) of
                  Some g \<Rightarrow> Inr g
                | None \<Rightarrow> Inl (Corrupted (NotASegmentsFile file_name)))
           | None \<Rightarrow> Inl (Corrupted (NotASegmentsFile file_name)))"

definition is_segments_candidate :: "u8 list \<Rightarrow> bool" where
  "is_segments_candidate file_name =
     (starts_with file_name SEGMENTS_PREFIX \<and> \<not> starts_with file_name OLD_SEGMENTS_GEN)"

definition max_i64 :: "i64 \<Rightarrow> i64 \<Rightarrow> i64" where
  "max_i64 a b = (if sint a \<le> sint b then b else a)"

fun last_commit_scan :: "i64 \<Rightarrow> u8 list list \<Rightarrow> error + i64" where
  "last_commit_scan generation [] = Inr generation"
| "last_commit_scan generation (file # files) =
     (if is_segments_candidate file then
        case generation_from_segments_file_name file of
          Inl e \<Rightarrow> Inl e
        | Inr g \<Rightarrow> last_commit_scan (max_i64 generation g) files
      else last_commit_scan generation files)"

definition last_commit_generation :: "u8 list list \<Rightarrow> error + i64" where
  "last_commit_generation files = last_commit_scan (- 1) files"

definition segments_file_name :: "i64 \<Rightarrow> u8 list option" where
  "segments_file_name generation =
     (if generation = - 1 then None
      else if generation = 0 then Some SEGMENTS_PREFIX
      else Some (SEGMENTS_PREFIX @ ascii ''_'' @ to_base36 generation))"

definition pending_segments_file_name :: "i64 \<Rightarrow> u8 list option" where
  "pending_segments_file_name generation =
     (if sint generation < 0 then None
      else if generation = 0 then Some PENDING_SEGMENTS_PREFIX
      else Some (PENDING_SEGMENTS_PREFIX @ ascii ''_'' @ to_base36 generation))"

section \<open>Every number is read back\<close>

lemma digit_all: "list_all (\<lambda>d. to_digit (DIGITS ! d) = Some (int d) \<and> DIGITS ! d \<noteq> 43 \<and> DIGITS ! d \<noteq> 45) [0..<36]"
  by code_simp

lemma to_digit_DIGITS: "d < 36 \<Longrightarrow> to_digit (DIGITS ! d) = Some (int d) \<and> DIGITS ! d \<noteq> 43 \<and> DIGITS ! d \<noteq> 45"
  using digit_all by (simp add: list_all_iff)

text \<open>The digits of a number, most significant first, as the printer leaves them.\<close>

fun digits_of :: "nat \<Rightarrow> u8 list" where
  "digits_of n = (if n = 0 then [] else digits_of (n div 36) @ [DIGITS ! (n mod 36)])"

declare digits_of.simps [simp del]

lemma rev_base36_digits: "rev (base36_digits n out) = digits_of n @ rev out"
proof (induction n out rule: base36_digits.induct)
  case (1 n out)
  then show ?case by (subst base36_digits.simps, subst digits_of.simps) simp
qed

lemma digits_of_Nil: "digits_of n = [] \<longleftrightarrow> n = 0"
  by (subst digits_of.simps) simp

lemma set_digits_of: "b \<in> set (digits_of n) \<Longrightarrow> b \<noteq> 43 \<and> b \<noteq> 45"
proof (induction n rule: digits_of.induct)
  case (1 n)
  then show ?case
    using to_digit_DIGITS [of "n mod 36"] by (subst (asm) (2) digits_of.simps) (auto split: if_splits)
qed

lemma radix_loop_append:
  "radix_loop neg acc (xs @ ys) = (case radix_loop neg acc xs of None \<Rightarrow> None | Some a \<Rightarrow> radix_loop neg a ys)"
  by (induction xs arbitrary: acc) (auto split: option.splits)

lemma radix_step:
  assumes "0 \<le> q" and "0 \<le> r" and "q * 36 + r < 2 ^ 63 \<or> neg \<and> q * 36 + r \<le> 2 ^ 63" and "to_digit b = Some r"
  shows "radix_loop neg (if neg then - q else q) [b] = Some (if neg then - (q * 36 + r) else q * 36 + r)"
  using assms by (cases neg) (auto simp: checked_i64_def)

lemma radix_loop_digits:
  assumes "int n < 2 ^ 63 \<or> neg \<and> int n \<le> 2 ^ 63"
  shows "radix_loop neg 0 (digits_of n) = Some (if neg then - int n else int n)"
  using assms
proof (induction n rule: digits_of.induct)
  case (1 n)
  show ?case
  proof (cases "n = 0")
    case False
    let ?q = "n div 36" and ?r = "n mod 36"
    have split: "int n = int ?q * 36 + int ?r" by (metis div_mult_mod_eq of_nat_add of_nat_mult of_nat_numeral)
    have r: "0 \<le> int ?r" "0 \<le> int ?q" by (rule of_nat_0_le_iff)+
    have bound: "int ?q < 2 ^ 63 \<or> neg \<and> int ?q \<le> 2 ^ 63" using 1(2) split r by linarith
    have "radix_loop neg 0 (digits_of ?q) = Some (if neg then - int ?q else int ?q)"
      by (rule 1(1) [OF False bound])
    moreover have "radix_loop neg (if neg then - int ?q else int ?q) [DIGITS ! ?r] = Some (if neg then - int n else int n)"
      unfolding split using 1(2) split r to_digit_DIGITS [of ?r] by (intro radix_step) auto
    ultimately show ?thesis
      using False by (subst digits_of.simps) (simp only: radix_loop_append if_False option.case)
  qed (simp add: digits_of.simps)
qed

lemma from_to_base36: "from_base36 (to_base36 n) = Some n"
proof (cases "n = 0")
  case True
  then show ?thesis by (simp add: to_base36_def) code_simp
next
  case False
  define m where "m = nat \<bar>sint n\<bar>"
  have m: "int m = \<bar>sint n\<bar>" by (simp add: m_def)
  have range: "- (2 ^ 63) \<le> sint n" "sint n < 2 ^ 63" using sint_range_size [of n] by (simp_all add: word_size)
  have "m \<noteq> 0" using False signed_eq_0_iff [of n] by (simp add: m_def)
  then obtain c rest where dig: "digits_of m = c # rest" by (metis digits_of_Nil list.exhaust)
  then have c: "c \<noteq> 43" "c \<noteq> 45" using set_digits_of [of c m] by auto
  show ?thesis
  proof (cases "sint n < 0")
    case True
    then have "to_base36 n = 45 # digits_of m"
      using False by (simp add: to_base36_def m_def rev_base36_digits ascii_def)
    moreover have "radix_loop True 0 (digits_of m) = Some (sint n)"
      using radix_loop_digits [of m True] m range True by simp
    ultimately show ?thesis using dig by (simp add: from_base36_def from_str_radix_def)
  next
    case nonneg: False
    then have "to_base36 n = digits_of m"
      using False by (simp add: to_base36_def m_def rev_base36_digits)
    moreover have "radix_loop False 0 (digits_of m) = Some (sint n)"
      using radix_loop_digits [of m False] m range nonneg by simp
    ultimately show ?thesis using dig c by (simp add: from_base36_def from_str_radix_def)
  qed
qed

section \<open>Names and their generations\<close>

lemma segments_name_shape:
  assumes "segments_file_name g = Some name"
  shows "g \<noteq> - 1" "name = (if g = 0 then SEGMENTS_PREFIX else SEGMENTS_PREFIX @ 95 # to_base36 g)"
  using assms by (auto simp: segments_file_name_def ascii_def split: if_splits)

lemma segments_name_parses:
  assumes "segments_file_name g = Some name"
  shows "generation_from_segments_file_name name = Inr g" "is_segments_candidate name"
proof -
  have "SEGMENTS_PREFIX \<noteq> OLD_SEGMENTS_GEN" "length SEGMENTS_PREFIX = 8" "length OLD_SEGMENTS_GEN = 12"
    "OLD_SEGMENTS_GEN ! 8 = 46" "take 8 OLD_SEGMENTS_GEN = SEGMENTS_PREFIX"
    by (simp_all add: SEGMENTS_PREFIX_def OLD_SEGMENTS_GEN_def ascii_def)
  note lit = this
  have noold: "take 12 (SEGMENTS_PREFIX @ 95 # xs) \<noteq> OLD_SEGMENTS_GEN" for xs
  proof
    assume eq: "take 12 (SEGMENTS_PREFIX @ 95 # xs) = OLD_SEGMENTS_GEN"
    have "take 12 (SEGMENTS_PREFIX @ 95 # xs) ! 8 = 95" using lit(2) by (simp add: nth_append)
    with eq lit(4) show False by simp
  qed
  note shape = segments_name_shape [OF assms]
  show "generation_from_segments_file_name name = Inr g"
  proof (cases "g = 0")
    case False
    then have name: "name = SEGMENTS_PREFIX @ 95 # to_base36 g" using shape by simp
    have "name \<noteq> OLD_SEGMENTS_GEN" using noold [of "to_base36 g"] lit(3) name by (metis order_refl take_all)
    moreover have "name \<noteq> SEGMENTS_PREFIX" using name by simp
    moreover have "strip_prefix name SEGMENTS_PREFIX = Some (95 # to_base36 g)"
      using name by (simp add: strip_prefix_def starts_with_def)
    moreover have "skip_char (95 # to_base36 g) = to_base36 g" by (simp add: skip_char_def)
    ultimately show ?thesis by (simp add: generation_from_segments_file_name_def from_to_base36)
  qed (use shape lit in \<open>simp add: generation_from_segments_file_name_def\<close>)
  show "is_segments_candidate name"
    using shape lit noold [of "to_base36 g"] by (auto simp: is_segments_candidate_def starts_with_def)
qed

lemma pending_not_candidate: "\<not> is_segments_candidate (PENDING_SEGMENTS_PREFIX @ x)"
  by (simp add: is_segments_candidate_def starts_with_def PENDING_SEGMENTS_PREFIX_def SEGMENTS_PREFIX_def ascii_def)

lemma max_i64_sint [simp]: "sint (max_i64 a b) = max (sint a) (sint b)"
  by (simp add: max_i64_def)

lemma last_commit_scan_max:
  assumes "last_commit_scan g0 files = Inr g"
  shows "sint g0 \<le> sint g"
    and "\<And>f. f \<in> set files \<Longrightarrow> is_segments_candidate f \<Longrightarrow> \<exists>h. generation_from_segments_file_name f = Inr h \<and> sint h \<le> sint g"
    and "g = g0 \<or> (\<exists>f \<in> set files. is_segments_candidate f \<and> generation_from_segments_file_name f = Inr g)"
proof -
  have "sint g0 \<le> sint g \<and>
    (\<forall>f \<in> set files. is_segments_candidate f \<longrightarrow> (\<exists>h. generation_from_segments_file_name f = Inr h \<and> sint h \<le> sint g)) \<and>
    (g = g0 \<or> (\<exists>f \<in> set files. is_segments_candidate f \<and> generation_from_segments_file_name f = Inr g))"
    using assms
  proof (induction files arbitrary: g0)
    case (Cons f files)
    show ?case
    proof (cases "is_segments_candidate f")
      case True
      then obtain h where h: "generation_from_segments_file_name f = Inr h" "last_commit_scan (max_i64 g0 h) files = Inr g"
        using Cons.prems by (auto split: sum.splits)
      from Cons.IH [OF h(2)] h(1) True show ?thesis by (auto simp: max_i64_def split: if_splits)
    qed (use Cons in auto)
  qed simp
  then show "sint g0 \<le> sint g"
    "\<And>f. f \<in> set files \<Longrightarrow> is_segments_candidate f \<Longrightarrow> \<exists>h. generation_from_segments_file_name f = Inr h \<and> sint h \<le> sint g"
    "g = g0 \<or> (\<exists>f \<in> set files. is_segments_candidate f \<and> generation_from_segments_file_name f = Inr g)"
    by blast+
qed

lemma last_commit_scan_total:
  "(\<And>f. f \<in> set files \<Longrightarrow> is_segments_candidate f \<Longrightarrow> \<exists>h. generation_from_segments_file_name f = Inr h) \<Longrightarrow>
   \<exists>r. last_commit_scan g0 files = Inr r"
proof (induction files arbitrary: g0)
  case (Cons f files)
  show ?case
  proof (cases "is_segments_candidate f")
    case True
    then obtain h where "generation_from_segments_file_name f = Inr h" using Cons.prems by auto
    then show ?thesis using True Cons.IH [of "max_i64 g0 h"] Cons.prems by simp
  qed (use Cons in simp)
qed simp

text \<open>A newer commit file, wherever the listing shows it, becomes the last commit.\<close>

lemma last_commit_generation_insert:
  assumes "last_commit_generation files = Inr g0" and "set files' = insert n (set files)"
    and "is_segments_candidate n" and "generation_from_segments_file_name n = Inr g" and "sint g0 < sint g"
  shows "last_commit_generation files' = Inr g"
proof -
  have old: "last_commit_scan (- 1) files = Inr g0" using assms(1) by (simp add: last_commit_generation_def)
  have parses: "\<exists>h. generation_from_segments_file_name f = Inr h" if "f \<in> set files'" "is_segments_candidate f" for f
    using that assms(2,4) last_commit_scan_max(2) [OF old, of f] by auto
  then obtain r where r: "last_commit_scan (- 1) files' = Inr r" using last_commit_scan_total by blast
  have "sint g \<le> sint r" using last_commit_scan_max(2) [OF r, of n] assms(2-4) by auto
  moreover have "r = - 1 \<or> (\<exists>f \<in> insert n (set files). is_segments_candidate f \<and> generation_from_segments_file_name f = Inr r)"
    using last_commit_scan_max(3) [OF r] assms(2) by simp
  moreover have "sint r \<le> sint g0" if "f \<in> set files" "is_segments_candidate f" "generation_from_segments_file_name f = Inr r" for f
    using last_commit_scan_max(2) [OF old that(1,2)] that(3) by auto
  moreover have "sint (- 1 :: i64) \<le> sint g0" using last_commit_scan_max(1) [OF old] .
  ultimately have "r = g" using assms(4,5) by (metis insertE not_less order_trans sum.inject(2))
  then show ?thesis using r by (simp add: last_commit_generation_def)
qed

text \<open>A base-36 number has at most 14 characters.\<close>

lemma length_digits_of: "n < 36 ^ k \<Longrightarrow> length (digits_of n) \<le> k"
proof (induction k arbitrary: n)
  case (Suc k)
  then have "n div 36 < 36 ^ k" by (simp add: div_less_iff_less_mult)
  from Suc.IH [OF this] show ?case by (subst digits_of.simps) simp
qed (simp add: digits_of.simps)

lemma length_to_base36: "length (to_base36 n) \<le> 14"
proof -
  have "\<bar>sint n\<bar> \<le> 2 ^ 63" using sint_range_size [of n] by (auto simp: word_size)
  then have "nat \<bar>sint n\<bar> < 36 ^ 13" by (simp add: nat_less_iff)
  from length_digits_of [OF this] show ?thesis
    using rev_base36_digits [of "nat \<bar>sint n\<bar>" "[]", THEN arg_cong [of _ _ length]]
    by (auto simp: to_base36_def ascii_def Let_def)
qed

section \<open>Properties\<close>

text \<open>
  Every 64-bit integer printed in base 36 is parsed back to itself, the smallest negative one included.
\<close>
theorem base36_round_trip: "from_base36 (to_base36 n) = Some n"
  by (rule from_to_base36)

text \<open>
  C39: The newest commit is found. When a writer has committed generation \<open>g\<close> into a directory (the name
  \<open>segments_file_name\<close> gives) and the scan over the listing succeeds, the generation it returns is at least
  \<open>g\<close>, it is the generation of a commit file that is really listed, and a commit file still under its pending
  name cannot be the reason. A listed commit name that does not parse makes the scan fail.
\<close>
theorem last_commit_found:
  assumes "segments_file_name g = Some name" and "name \<in> set files" and "sint g \<ge> 0"
    and "last_commit_generation files = Inr h"
  shows "sint g \<le> sint h \<and>
    (\<exists>f \<in> set files. is_segments_candidate f \<and> (\<forall>x. f \<noteq> PENDING_SEGMENTS_PREFIX @ x) \<and>
       generation_from_segments_file_name f = Inr h) \<and>
    list_all (\<lambda>f. \<not> is_segments_candidate f \<or> (\<exists>k. generation_from_segments_file_name f = Inr k)) files"
proof -
  have scan: "last_commit_scan (- 1) files = Inr h" using assms(4) by (simp add: last_commit_generation_def)
  note name = segments_name_parses [OF assms(1)]
  have "sint g \<le> sint h" using last_commit_scan_max(2) [OF scan assms(2) name(2)] name(1) by auto
  moreover have "h \<noteq> - 1" using calculation assms(3) by auto
  ultimately show ?thesis
    using last_commit_scan_max(2,3) [OF scan] pending_not_candidate unfolding list_all_iff by blast
qed

theorem last_commit_found_witness:
  "\<exists>f \<in> set [ascii ''_0.si'', ascii ''segments_2'', ascii ''segments_a'', ascii ''pending_segments_b''].
     is_segments_candidate f \<and> (\<forall>x. f \<noteq> PENDING_SEGMENTS_PREFIX @ x) \<and> generation_from_segments_file_name f = Inr 10"
proof -
  let ?fs = "[ascii ''_0.si'', ascii ''segments_2'', ascii ''segments_a'', ascii ''pending_segments_b'']"
  have "segments_file_name 2 = Some (ascii ''segments_2'')" "last_commit_generation ?fs = Inr 10" "0 \<le> sint (2 :: i64)"
    by code_simp+
  then show ?thesis using last_commit_found [of 2 "ascii ''segments_2''" ?fs 10] by auto
qed

end
