(* ===== verification/Data_Output.thy ===== *)
theory Data_Output
  imports Bit_Kernels
begin

text \<open>
  The write side of \<open>lucene-store\<close>'s wire primitives (\<open>data_output.rs\<close>). The trait \<open>DataOutput\<close> is
  the record \<open>data_output\<close> of the methods an implementation may supply; its provided methods are
  definitions over such a record. \<open>encode_varint\<close> is the byte loop, \<open>push_varint\<close> the branch-free
  encoder of \<open>VecDataOutput\<close> (with the portable \<open>spread7\<close>; the BMI2 instruction of the other
  configuration is not modelled). The locale \<open>data_output_sink\<close> states what the trait promises (every
  method appends its bytes, varints are those of the byte loop); it is interpreted on
  \<open>VecDataOutput\<close> and, through the locale \<open>byte_sink\<close>, on any sink that keeps the provided methods.
\<close>

unbundle bit_operations_syntax

section \<open>Varint encoders\<close>

function encode_varint :: "u64 \<Rightarrow> u8 list" where
  "encode_varint v =
     (if v AND NOT 0x7f \<noteq> 0 then (ucast (v AND 0x7f) OR 0x80) # encode_varint (drop_bit 7 v)
      else [ucast v])"
  by pat_completeness auto
termination
proof (relation "measure unat", simp)
  fix v :: u64
  assume "v AND NOT 0x7f \<noteq> 0"
  then have "v \<noteq> 0" by auto
  then have "0 < unat v" by (simp add: unat_gt_0)
  then have "unat v div 2 ^ 7 < unat v" by simp
  then show "(drop_bit 7 v, v) \<in> measure unat"
    by (simp add: unat_drop_bit_eq drop_bit_eq_div [of 7 "unat v"] del: drop_bit_eq_div)
qed

declare encode_varint.simps [simp del]

definition spread7_portable :: "u64 \<Rightarrow> u64" where
  "spread7_portable v =
     (v AND 0x7f)
     OR (push_bit 1 v AND 0x7f00)
     OR (push_bit 2 v AND 0x7f0000)
     OR (push_bit 3 v AND 0x7f000000)
     OR (push_bit 4 v AND 0x7f00000000)
     OR (push_bit 5 v AND 0x7f0000000000)
     OR (push_bit 6 v AND 0x7f000000000000)
     OR (push_bit 7 v AND 0x7f00000000000000)"

definition push_varint :: "u8 list \<Rightarrow> u64 \<Rightarrow> u8 list" where
  "push_varint out v =
     (let bits = 64 - leading_zeros (v OR 1);
          n = (bits + 6) div 7;
          lanes = (ucast (spread7_portable v) :: u128)
                    OR push_bit 64 (ucast (drop_bit 56 v AND 0x7f))
                    OR push_bit 72 (ucast (drop_bit 63 v));
          CONT = 0x80808080808080808080 :: u128;
          encoded = lanes OR (CONT AND (push_bit (8 * (n - 1)) 1 - 1))
      in out @ take n (to_le_bytes 16 encoded))"

section \<open>The trait\<close>

record 's data_output =
  write_byte :: "'s \<Rightarrow> u8 \<Rightarrow> 's"
  write_bytes :: "'s \<Rightarrow> u8 list \<Rightarrow> 's"
  write_vint :: "'s \<Rightarrow> i32 \<Rightarrow> 's"
  write_vlong_raw_u64 :: "'s \<Rightarrow> u64 \<Rightarrow> 's"

text \<open>The provided bodies of \<open>write_vint\<close> and \<open>write_vlong_raw_u64\<close>.\<close>

definition write_vint_default :: "('s \<Rightarrow> u8 \<Rightarrow> 's) \<Rightarrow> ('s \<Rightarrow> u8 list \<Rightarrow> 's) \<Rightarrow> 's \<Rightarrow> i32 \<Rightarrow> 's" where
  "write_vint_default wb wbs s v =
     (if v \<le> 0x7f then wb s (ucast v) else wbs s (encode_varint (ucast v)))"

definition write_vlong_raw_u64_default :: "('s \<Rightarrow> u8 \<Rightarrow> 's) \<Rightarrow> ('s \<Rightarrow> u8 list \<Rightarrow> 's) \<Rightarrow> 's \<Rightarrow> u64 \<Rightarrow> 's" where
  "write_vlong_raw_u64_default wb wbs s v =
     (if v \<le> 0x7f then wb s (ucast v) else wbs s (encode_varint v))"

definition write_vlong :: "('s, 'z) data_output_scheme \<Rightarrow> 's \<Rightarrow> i64 \<Rightarrow> 's" where
  "write_vlong D s v = write_vlong_raw_u64 D s v"

definition write_zlong :: "('s, 'z) data_output_scheme \<Rightarrow> 's \<Rightarrow> i64 \<Rightarrow> 's" where
  "write_zlong D s v = write_vlong_raw_u64 D s (encode v)"

definition write_zint :: "('s, 'z) data_output_scheme \<Rightarrow> 's \<Rightarrow> i32 \<Rightarrow> 's" where
  "write_zint D s v = write_vint D s (encode_i32 v)"

text \<open>\<open>dst[at..at + bs.len()].copy_from_slice(bs)\<close> for a range inside \<open>dst\<close>.\<close>

definition copy_at :: "nat \<Rightarrow> 'a list \<Rightarrow> 'a list \<Rightarrow> 'a list" where
  "copy_at at bs dst = take at dst @ bs @ drop (at + length bs) dst"

definition num_bytes :: "u32 \<Rightarrow> nat" where
  "num_bytes v = 4 - leading_zeros (v OR 1) div 8"

definition group_flag :: "nat \<Rightarrow> nat \<Rightarrow> nat \<Rightarrow> nat \<Rightarrow> u32" where
  "group_flag l0 l1 l2 l3 =
     push_bit 6 (of_nat (l0 - 1)) OR push_bit 4 (of_nat (l1 - 1)) OR push_bit 2 (of_nat (l2 - 1)) OR of_nat (l3 - 1)"

text \<open>One group of four: the 17-byte stack buffer the loop fills, and the bytes it hands on.\<close>

definition group_bytes :: "u32 list \<Rightarrow> u8 list" where
  "group_bytes chunk =
     (let lens = map num_bytes chunk;
          flag = group_flag (lens ! 0) (lens ! 1) (lens ! 2) (lens ! 3);
          group = (replicate 17 0)[0 := ucast flag];
          (group, n) = foldl (\<lambda>(group, n) (v, len). (copy_at n (to_le_bytes 4 v) group, n + len))
                         (group, 1) (zip chunk lens)
      in take n group)"

fun write_group_vints :: "('s, 'z) data_output_scheme \<Rightarrow> 's \<Rightarrow> u32 list \<Rightarrow> 's" where
  "write_group_vints D s (v0 # v1 # v2 # v3 # vs) =
     write_group_vints D (write_bytes D s (group_bytes [v0, v1, v2, v3])) vs"
| "write_group_vints D s vs = foldl (write_vint D) s vs"

definition write_be_u32 :: "('s, 'z) data_output_scheme \<Rightarrow> 's \<Rightarrow> u32 \<Rightarrow> 's" where
  "write_be_u32 D s v = write_bytes D s (to_be_bytes 4 v)"

definition write_be_u64 :: "('s, 'z) data_output_scheme \<Rightarrow> 's \<Rightarrow> u64 \<Rightarrow> 's" where
  "write_be_u64 D s v = write_bytes D s (to_be_bytes 8 v)"

definition write_i16 :: "('s, 'z) data_output_scheme \<Rightarrow> 's \<Rightarrow> i16 \<Rightarrow> 's" where
  "write_i16 D s v = write_bytes D s (to_le_bytes 2 v)"

definition write_i32 :: "('s, 'z) data_output_scheme \<Rightarrow> 's \<Rightarrow> i32 \<Rightarrow> 's" where
  "write_i32 D s v = write_bytes D s (to_le_bytes 4 v)"

definition write_i64 :: "('s, 'z) data_output_scheme \<Rightarrow> 's \<Rightarrow> i64 \<Rightarrow> 's" where
  "write_i64 D s v = write_bytes D s (to_le_bytes 8 v)"

text \<open>A Rust string is its UTF-8 bytes; \<open>s.len() as i32\<close> truncates to 32 bits.\<close>

definition write_string :: "('s, 'z) data_output_scheme \<Rightarrow> 's \<Rightarrow> u8 list \<Rightarrow> 's" where
  "write_string D s str = write_bytes D (write_vint D s (of_nat (length str))) str"

definition write_map_of_strings :: "('s, 'z) data_output_scheme \<Rightarrow> 's \<Rightarrow> (u8 list \<times> u8 list) list \<Rightarrow> 's" where
  "write_map_of_strings D s m =
     foldl (\<lambda>s (k, v). write_string D (write_string D s k) v) (write_vint D s (of_nat (length m))) m"

definition write_set_of_strings :: "('s, 'z) data_output_scheme \<Rightarrow> 's \<Rightarrow> u8 list list \<Rightarrow> 's" where
  "write_set_of_strings D s xs = foldl (write_string D) (write_vint D s (of_nat (length xs))) xs"

section \<open>The growable buffer\<close>

record vec_data_output =
  buf :: "u8 list"

definition vec_new :: vec_data_output where
  "vec_new = \<lparr>buf = []\<rparr>"

definition vec_impl :: "vec_data_output data_output" where
  "vec_impl =
     \<lparr>write_byte = \<lambda>s b. s\<lparr>buf := buf s @ [b]\<rparr>,
      write_bytes = \<lambda>s bs. s\<lparr>buf := buf s @ bs\<rparr>,
      write_vint = \<lambda>s v. s\<lparr>buf := push_varint (buf s) (ucast v)\<rparr>,
      write_vlong_raw_u64 = \<lambda>s v. s\<lparr>buf := push_varint (buf s) v\<rparr>\<rparr>"

text \<open>A plain \<open>Vec<u8>\<close> is a sink of its own, with the same methods.\<close>

definition bytes_impl :: "u8 list data_output" where
  "bytes_impl =
     \<lparr>write_byte = \<lambda>s b. s @ [b], write_bytes = \<lambda>s bs. s @ bs,
      write_vint = \<lambda>s v. push_varint s (ucast v), write_vlong_raw_u64 = \<lambda>s v. push_varint s v\<rparr>"

text \<open>A sink that supplies the two required methods only.\<close>

definition with_defaults :: "('s \<Rightarrow> u8 \<Rightarrow> 's) \<Rightarrow> ('s \<Rightarrow> u8 list \<Rightarrow> 's) \<Rightarrow> 's data_output" where
  "with_defaults wb wbs =
     \<lparr>write_byte = wb, write_bytes = wbs, write_vint = write_vint_default wb wbs,
      write_vlong_raw_u64 = write_vlong_raw_u64_default wb wbs\<rparr>"

section \<open>Both encoders write the same bytes\<close>

definition groups :: "u64 \<Rightarrow> nat" where
  "groups v = (64 - leading_zeros (v OR 1) + 6) div 7"

lemma leading_zeros_unique:
  fixes w :: "'a::len word"
  assumes "bit w h" and "\<And>j. h < j \<Longrightarrow> \<not> bit w j"
  shows "leading_zeros w = LENGTH('a) - 1 - h"
proof -
  have "w \<noteq> 0" using assms(1) by auto
  then have b: "bit w (LENGTH('a) - 1 - leading_zeros w)" by (rule bit_leading_zeros)
  with assms(2) have "LENGTH('a) - 1 - leading_zeros w \<le> h" by (meson not_le)
  moreover have "h + leading_zeros w < LENGTH('a)" using assms(1) by (rule le_leading_zeros)
  ultimately show ?thesis by linarith
qed

lemma or_1_bits: "bit (v OR 1) j \<longleftrightarrow> bit v j \<or> j = 0" for v :: "'a::len word"
  by (auto simp: bit_or_iff bit_1_iff)

text \<open>The position of the highest bit of \<open>v OR 1\<close> decides the number of 7-bit groups.\<close>

lemma groups_top:
  fixes v :: u64
  obtains h where "h < 64" "bit (v OR 1) h" "\<And>j. h < j \<Longrightarrow> \<not> bit v j" "groups v = h div 7 + 1"
proof -
  define h where "h = 63 - leading_zeros (v OR 1)"
  have nz: "v OR 1 \<noteq> 0" using or_1_bits [of v 0] by (metis bit_0_eq bot_apply bot_bool_def)
  have lz: "leading_zeros (v OR 1) < 64" using leading_zeros_less [OF nz] by simp
  have "bit (v OR 1) h" using bit_leading_zeros [OF nz] by (simp add: h_def)
  moreover have "\<not> bit v j" if "h < j" for j
    using that le_leading_zeros [of "v OR 1" j] lz by (auto simp: or_1_bits h_def)
  moreover have "groups v = h div 7 + 1"
  proof -
    have "64 - leading_zeros (v OR 1) + 6 = h + 7" using lz by (simp add: h_def)
    then show ?thesis by (simp add: groups_def)
  qed
  moreover have "h < 64" by (simp add: h_def)
  ultimately show thesis using that by blast
qed

lemma groups_bounds: "0 < groups v" "groups v \<le> 10"
proof -
  obtain h where "h < 64" "groups v = h div 7 + 1" by (rule groups_top [of v])
  then show "0 < groups v" "groups v \<le> 10" by auto
qed

lemma bit_7f: "bit (0x7f :: 'a::len word) k \<longleftrightarrow> k < 7 \<and> k < LENGTH('a)"
proof -
  have "(0x7f :: 'a word) = mask 7" by (simp add: mask_eq_exp_minus_1)
  then show ?thesis by (simp only: bit_mask_iff) auto
qed

lemma bit_and_7f: "bit (x AND 0x7f) k \<longleftrightarrow> bit x k \<and> k < 7" for x :: "'a::len word"
  by (simp only: bit_and_iff bit_7f) (auto dest: bit_imp_le_length)

lemma high_bits_iff: "v AND NOT 0x7f \<noteq> 0 \<longleftrightarrow> (\<exists>j\<ge>7. bit v j)" for v :: u64
proof -
  have "(0x7f :: u64) = mask 7" by (simp add: mask_eq_exp_minus_1)
  then have "bit (v AND NOT 0x7f) j \<longleftrightarrow> 7 \<le> j \<and> bit v j" for j
    by (simp only: bit_and_iff bit_not_iff bit_mask_iff) (auto dest: bit_imp_le_length)
  then show ?thesis
    by (simp only: word_eq_0_iff_bits) (use bit_imp_le_length [of v] in fastforce)
qed

lemma groups_step:
  assumes "v AND NOT 0x7f \<noteq> 0"
  shows "groups v = Suc (groups (drop_bit 7 v))"
proof -
  obtain h where h: "h < 64" "bit (v OR 1) h" "\<And>j. h < j \<Longrightarrow> \<not> bit v j" "groups v = h div 7 + 1"
    using groups_top [of v] by blast
  have "7 \<le> h" using assms h(3) unfolding high_bits_iff by (meson le_trans not_le order.strict_implies_order)
  then have bh: "bit v h" using h(2) by (auto simp: or_1_bits)
  obtain g where g: "g < 64" "bit (drop_bit 7 v OR 1) g" "\<And>j. g < j \<Longrightarrow> \<not> bit (drop_bit 7 v) j"
    "groups (drop_bit 7 v) = g div 7 + 1"
    using groups_top [of "drop_bit 7 v"] by blast
  have "g = h - 7"
  proof (rule antisym)
    show "h - 7 \<le> g" using g(3) [of "h - 7"] bh \<open>7 \<le> h\<close> by (force simp: bit_drop_bit_eq)
    have "7 + g \<le> h" if "g \<noteq> 0"
      using that g(2) h(3) [of "7 + g"] by (auto simp: or_1_bits bit_drop_bit_eq not_less [symmetric])
    then show "g \<le> h - 7" by (cases "g = 0") auto
  qed
  then have "h = g + 7" using \<open>7 \<le> h\<close> by simp
  then show ?thesis by (simp add: h(4) g(4))
qed

lemma groups_last: "\<not> v AND NOT 0x7f \<noteq> 0 \<Longrightarrow> groups v = 1"
proof -
  assume "\<not> v AND NOT 0x7f \<noteq> 0"
  then have low: "\<not> bit v j" if "7 \<le> j" for j using that unfolding high_bits_iff by blast
  obtain h where "h < 64" "bit (v OR 1) h" "groups v = h div 7 + 1" by (rule groups_top [of v])
  moreover from this have "h < 7" using low [of h] by (auto simp: or_1_bits not_less [symmetric])
  ultimately show ?thesis by simp
qed

definition varint_byte :: "u64 \<Rightarrow> nat \<Rightarrow> u8" where
  "varint_byte v i = ucast (drop_bit (7 * i) v AND 0x7f) OR (if i + 1 < groups v then 0x80 else 0)"

lemma encode_varint_eq: "encode_varint v = map (varint_byte v) [0..<groups v]"
proof (induction v rule: encode_varint.induct)
  case (1 v)
  show ?case
  proof (cases "v AND NOT 0x7f \<noteq> 0")
    case True
    let ?w = "drop_bit 7 v"
    have g: "groups v = Suc (groups ?w)" using True by (rule groups_step)
    have "map (varint_byte v) [0..<groups v] = varint_byte v 0 # map (\<lambda>i. varint_byte v (Suc i)) [0..<groups ?w]"
      unfolding g upt_conv_Cons [OF zero_less_Suc] map_Suc_upt [symmetric] by simp
    also have "varint_byte v 0 = ucast (v AND 0x7f) OR 0x80"
      using g groups_bounds(1) [of ?w] by (simp add: varint_byte_def)
    also have "(\<lambda>i. varint_byte v (Suc i)) = varint_byte ?w"
      by (rule ext) (simp add: varint_byte_def g drop_bit_drop_bit add.commute)
    finally show ?thesis
      using "1.IH" [OF True] True by (simp add: encode_varint.simps [of v])
  next
    case False
    then have "\<not> bit v j" if "7 \<le> j" for j using that unfolding high_bits_iff by blast
    then have "v AND 0x7f = v" by (intro bit_word_eqI) (auto simp: bit_and_7f simp flip: not_le)
    then show ?thesis
      using False groups_last [OF False] by (simp add: encode_varint.simps [of v] varint_byte_def)
  qed
qed

lemma length_encode_varint: "length (encode_varint v) = groups v"
  by (simp add: encode_varint_eq)

lemma bit_or_80: "bit (x OR 0x80) k \<longleftrightarrow> bit x k \<or> k = 7" for x :: u8
proof -
  have "(0x80 :: u8) = 2 ^ 7" by simp
  then show ?thesis by (simp only: bit_or_iff bit_exp_iff) auto
qed

lemma bit_varint_byte:
  "k < 8 \<Longrightarrow> bit (varint_byte v i) k \<longleftrightarrow> (k < 7 \<and> bit v (7 * i + k)) \<or> (k = 7 \<and> i + 1 < groups v)"
  by (auto simp: varint_byte_def bit_or_80 bit_ucast_iff bit_and_7f bit_drop_bit_eq)

lemma bit_spread7:
  assumes "m < 64"
  shows "bit (spread7_portable v) m \<longleftrightarrow> m mod 8 < 7 \<and> bit v (7 * (m div 8) + m mod 8)"
proof (rule all_less_64 [OF _ assms], simp only: list_all_unfold, intro conjI)
qed (simp_all add: spread7_portable_def bit_or_iff bit_and_iff bit_push_bit_iff, simp add: numeral_2_eq_2)

lemma bit_cont: "i < 10 \<Longrightarrow> k < 8 \<Longrightarrow> bit (0x80808080808080808080 :: u128) (8 * i + k) \<longleftrightarrow> k = 7"
proof -
  have "list_all (\<lambda>i. list_all (\<lambda>k. bit (0x80808080808080808080 :: u128) (8 * i + k) \<longleftrightarrow> k = 7)
     [0, 1, 2, 3, 4, 5, 6, 7]) [0, 1, 2, 3, 4, 5, 6, 7, 8, 9]"
    by (simp only: list_all_unfold, intro conjI) simp_all
  moreover assume "i < 10" "k < 8"
  then have "i \<in> set [0, 1, 2, 3, 4, 5, 6, 7, 8, 9]" "k \<in> set [0, 1, 2, 3, 4, 5, 6, 7]" by auto
  ultimately show ?thesis unfolding list_all_iff by blast
qed

lemma bit_lanes:
  assumes "i < 10" and "k < 8"
  shows "bit ((ucast (spread7_portable v) :: u128) OR push_bit 64 (ucast (drop_bit 56 v AND 0x7f))
      OR push_bit 72 (ucast (drop_bit 63 v))) (8 * i + k) \<longleftrightarrow> k < 7 \<and> bit v (7 * i + k)"
proof -
  have big: "\<not> bit v n" if "64 \<le> n" for n using that by (intro bit_beyond) simp
  consider "i < 8" | "i = 8" | "i = 9" using assms(1) by linarith
  then show ?thesis
  proof cases
    case 1
    then have m: "8 * i + k < 64" "(8 * i + k) div 8 = i" "(8 * i + k) mod 8 = k" using assms(2) by auto
    show ?thesis
      using bit_spread7 [OF m(1), of v] m by (simp add: bit_or_iff bit_push_bit_iff bit_ucast_iff)
  next
    case 2
    have "\<not> bit (spread7_portable v) (64 + k)" by (intro bit_beyond) simp
    then show ?thesis
      using 2 assms(2) by (auto simp: bit_or_iff bit_push_bit_iff bit_ucast_iff bit_and_7f bit_drop_bit_eq)
  next
    case 3
    have "\<not> bit (spread7_portable v) (72 + k)" by (intro bit_beyond) simp
    then show ?thesis
      using 3 assms(2) big [of 70]
      by (cases "k = 7") (auto simp: bit_or_iff bit_push_bit_iff bit_ucast_iff bit_and_7f bit_drop_bit_eq)
  qed
qed

lemma bit_nth_to_le_bytes: "i < n \<Longrightarrow> k < 8 \<Longrightarrow> bit (to_le_bytes n w ! i) k \<longleftrightarrow> bit w (8 * i + k)"
  by (auto simp: nth_to_le_bytes bit_ucast_iff bit_drop_bit_eq)

lemma push_varint_eq: "push_varint out v = out @ encode_varint v"
proof -
  define n where "n = (64 - leading_zeros (v OR 1) + 6) div 7"
  let ?lanes = "(ucast (spread7_portable v) :: u128) OR push_bit 64 (ucast (drop_bit 56 v AND 0x7f))
      OR push_bit 72 (ucast (drop_bit 63 v))"
  let ?enc = "?lanes OR (0x80808080808080808080 AND (push_bit (8 * (n - 1)) 1 - 1))"
  have n: "n = groups v" "n \<le> 10" using groups_bounds [of v] by (simp_all add: groups_def n_def)
  have "take n (to_le_bytes 16 ?enc) = map (varint_byte v) [0..<n]"
  proof (rule nth_equalityI)
    show "length (take n (to_le_bytes 16 ?enc)) = length (map (varint_byte v) [0..<n])" using n(2) by simp
    fix i assume "i < length (take n (to_le_bytes 16 ?enc))"
    then have i: "i < n" "i < 10" using n(2) by auto
    show "take n (to_le_bytes 16 ?enc) ! i = map (varint_byte v) [0..<n] ! i"
    proof (rule bit_word_eqI)
      fix k :: nat assume "k < LENGTH(8)"
      then have k: "k < 8" by simp
      have cont: "bit (0x80808080808080808080 AND (push_bit (8 * (n - 1)) 1 - 1) :: u128) (8 * i + k) \<longleftrightarrow>
          k = 7 \<and> i + 1 < n"
      proof -
        have "push_bit (8 * (n - 1)) 1 - 1 = (mask (8 * (n - 1)) :: u128)"
          by (simp add: mask_eq_exp_minus_1)
        moreover have "k = 7 \<Longrightarrow> 8 * i + k < 8 * (n - 1) \<longleftrightarrow> i + 1 < n" by auto
        ultimately show ?thesis
          using bit_cont [OF i(2) k] i k n(2) by (simp only: bit_and_iff bit_mask_iff) auto
      qed
      have "bit (take n (to_le_bytes 16 ?enc) ! i) k \<longleftrightarrow> bit ?enc (8 * i + k)"
        using i k n(2) by (simp only: nth_take) (rule bit_nth_to_le_bytes, simp_all)
      also have "\<dots> \<longleftrightarrow> bit (varint_byte v i) k"
        unfolding bit_or_iff [of ?lanes] bit_lanes [OF i(2) k] cont bit_varint_byte [OF k] n(1) [symmetric] ..
      finally show "bit (take n (to_le_bytes 16 ?enc) ! i) k \<longleftrightarrow> bit (map (varint_byte v) [0..<n] ! i) k"
        using i by simp
    qed
  qed
  then show ?thesis by (simp add: push_varint_def encode_varint_eq Let_def flip: n_def) (simp only: n(1))
qed

section \<open>Group varints\<close>

lemma num_bytes_bounds: "1 \<le> num_bytes v" "num_bytes v \<le> 4"
proof -
  have "v OR 1 \<noteq> 0" using or_1_bits [of v 0] by (metis bit_0_eq bot_apply bot_bool_def)
  then have "leading_zeros (v OR 1) < 32" using leading_zeros_less [of "v OR 1"] by simp
  then show "1 \<le> num_bytes v" "num_bytes v \<le> 4" by (auto simp: num_bytes_def)
qed

lemma num_bytes_enough: "bit v j \<Longrightarrow> j < 8 * num_bytes v"
proof -
  assume "bit v j"
  then have "j + leading_zeros (v OR 1) < 32" using le_leading_zeros [of "v OR 1" j] by (simp add: or_1_bits)
  then show ?thesis by (simp add: num_bytes_def)
qed

definition group_payload :: "u32 list \<Rightarrow> u8 list" where
  "group_payload chunk = concat (map (\<lambda>v. take (num_bytes v) (to_le_bytes 4 v)) chunk)"

lemma group_fill:
  assumes "n + 4 * length chunk \<le> length arr"
  shows "\<exists>arr' n'. foldl (\<lambda>(group, n) (v, len). (copy_at n (to_le_bytes 4 v) group, n + len))
      (arr, n) (zip chunk (map num_bytes chunk)) = (arr', n') \<and>
      take n' arr' = take n arr @ group_payload chunk"
  using assms
proof (induction chunk arbitrary: arr n)
  case Nil
  then show ?case by (simp add: group_payload_def)
next
  case (Cons v chunk)
  let ?arr = "copy_at n (to_le_bytes 4 v) arr" and ?n = "n + num_bytes v"
  have len: "length ?arr = length arr" using Cons.prems by (simp add: copy_at_def)
  have "?n + 4 * length chunk \<le> length ?arr" using Cons.prems num_bytes_bounds [of v] len by simp
  from Cons.IH [OF this] obtain arr' n' where
    f: "foldl (\<lambda>(group, n) (v, len). (copy_at n (to_le_bytes 4 v) group, n + len))
      (?arr, ?n) (zip chunk (map num_bytes chunk)) = (arr', n')" "take n' arr' = take ?n ?arr @ group_payload chunk"
    by blast
  have "take ?n ?arr = take n arr @ take (num_bytes v) (to_le_bytes 4 v)"
    using Cons.prems num_bytes_bounds [of v] by (simp add: copy_at_def)
  with f show ?case by (simp add: group_payload_def)
qed

lemma group_bytes_eq:
  assumes "length chunk = 4"
  shows "group_bytes chunk =
    ucast (group_flag (num_bytes (chunk ! 0)) (num_bytes (chunk ! 1)) (num_bytes (chunk ! 2)) (num_bytes (chunk ! 3)))
      # group_payload chunk"
proof -
  let ?flag = "ucast (group_flag (num_bytes (chunk ! 0)) (num_bytes (chunk ! 1)) (num_bytes (chunk ! 2)) (num_bytes (chunk ! 3)))"
  let ?arr = "(replicate 17 0)[0 := ?flag] :: u8 list"
  obtain arr' n' where f: "foldl (\<lambda>(group, n) (v, len). (copy_at n (to_le_bytes 4 v) group, n + len))
      (?arr, 1) (zip chunk (map num_bytes chunk)) = (arr', n')" "take n' arr' = take 1 ?arr @ group_payload chunk"
    using group_fill [of 1 chunk ?arr] assms by auto
  have "take 1 ?arr = [?flag]" by (simp add: numeral_eq_Suc)
  with f assms show ?thesis by (simp add: group_bytes_def Let_def)
qed

fun group_vints_bytes :: "u32 list \<Rightarrow> u8 list" where
  "group_vints_bytes (v0 # v1 # v2 # v3 # vs) = group_bytes [v0, v1, v2, v3] @ group_vints_bytes vs"
| "group_vints_bytes vs = concat (map (\<lambda>v. encode_varint (ucast v)) vs)"

section \<open>What a sink promises\<close>

definition string_bytes :: "u8 list \<Rightarrow> u8 list" where
  "string_bytes str = encode_varint (ucast (of_nat (length str) :: i32)) @ str"

definition map_bytes :: "(u8 list \<times> u8 list) list \<Rightarrow> u8 list" where
  "map_bytes m = encode_varint (ucast (of_nat (length m) :: i32)) @
     concat (map (\<lambda>(k, v). string_bytes k @ string_bytes v) m)"

definition set_bytes :: "u8 list list \<Rightarrow> u8 list" where
  "set_bytes xs = encode_varint (ucast (of_nat (length xs) :: i32)) @ concat (map string_bytes xs)"

locale data_output_sink =
  fixes D :: "('s, 'z) data_output_scheme" and written :: "'s \<Rightarrow> u8 list"
  assumes write_byte_law: "written (write_byte D s b) = written s @ [b]"
    and write_bytes_law: "written (write_bytes D s bs) = written s @ bs"
    and write_vint_law: "written (write_vint D s i) = written s @ encode_varint (ucast i)"
    and write_vlong_raw_law: "written (write_vlong_raw_u64 D s u) = written s @ encode_varint u"
begin

lemma written_vlong: "written (write_vlong D s v) = written s @ encode_varint v"
  by (simp add: write_vlong_def write_vlong_raw_law)

lemma written_zlong: "written (write_zlong D s v) = written s @ encode_varint (encode v)"
  by (simp add: write_zlong_def write_vlong_raw_law)

lemma written_zint: "written (write_zint D s i) = written s @ encode_varint (ucast (encode_i32 i))"
  by (simp add: write_zint_def write_vint_law)

lemma written_fixed:
  "written (write_be_u32 D s a) = written s @ to_be_bytes 4 a"
  "written (write_be_u64 D s b) = written s @ to_be_bytes 8 b"
  "written (write_i16 D s c) = written s @ to_le_bytes 2 c"
  "written (write_i32 D s d) = written s @ to_le_bytes 4 d"
  "written (write_i64 D s e) = written s @ to_le_bytes 8 e"
  by (simp_all add: write_be_u32_def write_be_u64_def write_i16_def write_i32_def write_i64_def write_bytes_law)

lemma written_string: "written (write_string D s str) = written s @ string_bytes str"
  by (simp add: write_string_def write_bytes_law write_vint_law string_bytes_def)

lemma written_foldl:
  assumes "\<And>s x. written (f s x) = written s @ g x"
  shows "written (foldl f s xs) = written s @ concat (map g xs)"
  by (induction xs arbitrary: s) (simp_all add: assms)

lemma written_set: "written (write_set_of_strings D s xs) = written s @ set_bytes xs"
  by (simp add: write_set_of_strings_def set_bytes_def written_foldl [OF written_string] write_vint_law)

lemma written_map: "written (write_map_of_strings D s m) = written s @ map_bytes m"
proof -
  have "written (case kv of (k, v) \<Rightarrow> write_string D (write_string D s k) v) =
      written s @ (case kv of (k, v) \<Rightarrow> string_bytes k @ string_bytes v)" for s and kv :: "u8 list \<times> u8 list"
    by (cases kv) (simp add: written_string)
  then show ?thesis
    by (simp add: write_map_of_strings_def map_bytes_def written_foldl write_vint_law)
qed

lemma written_group_vints: "written (write_group_vints D s vs) = written s @ group_vints_bytes vs"
  by (induction vs arbitrary: s rule: group_vints_bytes.induct)
     (simp_all add: write_bytes_law write_vint_law)

end

lemma unat_ucast_up:
  fixes w :: "'a::len word"
  assumes "LENGTH('a) \<le> LENGTH('b::len)"
  shows "unat (ucast w :: 'b word) = unat w"
proof -
  from assms have "unat w < 2 ^ LENGTH('b)"
    using unsigned_less [of w] by (meson less_le_trans one_le_numeral power_increasing)
  then show ?thesis by (simp add: unsigned_ucast_eq take_bit_nat_eq_self)
qed

locale byte_sink =
  fixes wb :: "'s \<Rightarrow> u8 \<Rightarrow> 's" and wbs :: "'s \<Rightarrow> u8 list \<Rightarrow> 's" and written :: "'s \<Rightarrow> u8 list"
  assumes wb_law: "written (wb s b) = written s @ [b]"
    and wbs_law: "written (wbs s bs) = written s @ bs"

lemma encode_varint_single: "u \<le> 0x7f \<Longrightarrow> encode_varint u = [ucast u]"
proof -
  assume "u \<le> 0x7f"
  then have "unat u \<le> unat (0x7f :: u64)" by (simp only: word_le_nat_alt)
  then have "take_bit 7 u = u"
    by (intro word_unat_eq_iff [THEN iffD2]) (simp add: unsigned_take_bit_eq take_bit_nat_eq_self)
  then have "u AND NOT 0x7f = 0"
    unfolding high_bits_iff [of u, THEN arg_cong [of _ _ Not], simplified not_not]
    by (metis bit_take_bit_iff not_le)
  then show ?thesis by (simp add: encode_varint.simps)
qed

sublocale byte_sink \<subseteq> provided: data_output_sink "with_defaults wb wbs" written
proof
  fix s b bs and i :: i32 and u :: u64
  show "written (write_byte (with_defaults wb wbs) s b) = written s @ [b]"
    by (simp add: with_defaults_def wb_law)
  show "written (write_bytes (with_defaults wb wbs) s bs) = written s @ bs"
    by (simp add: with_defaults_def wbs_law)
  show "written (write_vlong_raw_u64 (with_defaults wb wbs) s u) = written s @ encode_varint u"
    by (simp add: with_defaults_def write_vlong_raw_u64_default_def wb_law wbs_law encode_varint_single)
  have "ucast i \<le> (0x7f :: u64)" if "i \<le> 0x7f"
    using that by (simp add: word_le_nat_alt unat_ucast_up)
  moreover have "ucast i = (ucast (ucast i :: u64) :: u8)"
    by (intro bit_word_eqI) (auto simp: bit_ucast_iff dest: bit_imp_le_length)
  ultimately show "written (write_vint (with_defaults wb wbs) s i) = written s @ encode_varint (ucast i)"
    by (simp add: with_defaults_def write_vint_default_def wb_law wbs_law encode_varint_single)
qed

interpretation vec: data_output_sink vec_impl buf
  by unfold_locales (simp_all add: vec_impl_def push_varint_eq)

interpretation bytes: data_output_sink bytes_impl "\<lambda>s. s"
  by unfold_locales (simp_all add: bytes_impl_def push_varint_eq)

interpretation vec_bytes: byte_sink "write_byte vec_impl" "write_bytes vec_impl" buf
  by unfold_locales (simp_all add: vec_impl_def)

section \<open>Properties\<close>

text \<open>
  The branch-free varint encoder writes exactly the bytes of the byte loop, for every 64-bit
  value, and those are at most ten, so neither the loop's ten-byte buffer nor the sixteen spare bytes
  overflow. All bytes but the last carry the continuation bit.
\<close>
theorem push_varint_is_encode_varint:
  "push_varint out v = out @ encode_varint v \<and> 1 \<le> length (encode_varint v) \<and> length (encode_varint v) \<le> 10 \<and>
   list_all (\<lambda>b. bit b 7) (butlast (encode_varint v)) \<and> \<not> bit (last (encode_varint v)) 7"
proof -
  obtain g where "groups v = Suc g" using groups_bounds(1) [of v] by (cases "groups v") auto
  then have "butlast (encode_varint v) = map (varint_byte v) [0..<g]" "last (encode_varint v) = varint_byte v g"
    by (simp_all add: encode_varint_eq)
  with \<open>groups v = Suc g\<close> show ?thesis
    using groups_bounds [of v] by (auto simp: push_varint_eq length_encode_varint list_all_iff bit_varint_byte)
qed

end
