(* ===== verification/Data_Input.thy ===== *)
theory Data_Input
  imports Data_Output
begin

text \<open>
  The read side of the wire primitives (\<open>data_input.rs\<close>). The trait \<open>DataInput\<close> is the record
  \<open>data_input\<close> of the methods an implementation supplies or overrides; the provided methods are
  definitions over such a record. \<open>slice_input\<close> is the cursor \<open>SliceInput\<close>, \<open>slice_impl\<close> its
  implementation of the trait, with its in-slice fast paths as definitions of their own. A method is a
  function from the cursor to its result and the cursor it leaves, also when it fails, so errors carry
  their offset and the position after them. A method that fills a slice returns the values it fills in;
  what an error leaves in the slice is not modelled. \<open>prefetch\<close> (a cache hint) is not modelled.

  The locale \<open>data_input_source\<close> states what the trait promises about the unread bytes; the decoders are
  proved once against it and interpreted on \<open>SliceInput\<close>.
\<close>

unbundle bit_operations_syntax

section \<open>The trait\<close>

record 's data_input =
  read_byte :: "('s, u8) stateful"
  read_bytes :: "nat \<Rightarrow> ('s, u8 list) stateful"
  remaining :: "'s \<Rightarrow> nat"
  read_vint :: "('s, i32) stateful"
  peek_u32_le :: "('s, u32) stateful"
  skip :: "nat \<Rightarrow> ('s, unit) stateful"

function vint_loop :: "('s, u8) stateful \<Rightarrow> u8 \<Rightarrow> i32 \<Rightarrow> nat \<Rightarrow> ('s, i32) stateful" where
  "vint_loop rb b v shift =
     (if b AND 0x80 \<noteq> 0 then
        if 28 < shift then fail MalformedVarint
        else bnd rb (\<lambda>b. vint_loop rb b (v OR push_bit shift (ucast (b AND 0x7f))) (shift + 7))
      else ret v)"
  by pat_completeness auto
termination by (relation "measure (\<lambda>(rb, b, v, shift). 36 - shift)") auto

definition read_vint_loop :: "('s, u8) stateful \<Rightarrow> ('s, i32) stateful" where
  "read_vint_loop rb = bnd rb (\<lambda>b. vint_loop rb b (ucast (b AND 0x7f)) 7)"

function vlong_loop :: "('s, u8) stateful \<Rightarrow> u8 \<Rightarrow> i64 \<Rightarrow> nat \<Rightarrow> ('s, i64) stateful" where
  "vlong_loop rb b v shift =
     (if b AND 0x80 \<noteq> 0 then
        if 64 \<le> shift then fail MalformedVarint
        else bnd rb (\<lambda>b. vlong_loop rb b (v OR push_bit shift (ucast (b AND 0x7f))) (shift + 7))
      else ret v)"
  by pat_completeness auto
termination by (relation "measure (\<lambda>(rb, b, v, shift). 71 - shift)") auto

definition read_vlong_loop :: "('s, u8) stateful \<Rightarrow> ('s, i64) stateful" where
  "read_vlong_loop rb = bnd rb (\<lambda>b. vlong_loop rb b (ucast (b AND 0x7f)) 7)"

function zlong_loop :: "('s, u8) stateful \<Rightarrow> u64 \<Rightarrow> nat \<Rightarrow> ('s, u64) stateful" where
  "zlong_loop rb v shift =
     bnd rb (\<lambda>b.
       let v = v OR push_bit shift (ucast (b AND 0x7f)) in
       if b AND 0x80 = 0 then ret v
       else let shift = shift + 7 in
            if 70 \<le> shift then fail MalformedVarint else zlong_loop rb v shift)"
  by pat_completeness auto
termination by (relation "measure (\<lambda>(rb, v, shift). 71 - shift)") auto

definition read_zlong_loop :: "('s, u8) stateful \<Rightarrow> ('s, i64) stateful" where
  "read_zlong_loop rb = bnd (zlong_loop rb 0 0) (\<lambda>v. ret (decode v))"

declare vint_loop.simps [simp del] vlong_loop.simps [simp del] zlong_loop.simps [simp del]

definition read_zint :: "('s, 'z) data_input_scheme \<Rightarrow> ('s, i32) stateful" where
  "read_zint D = bnd (read_vint D) (\<lambda>v. ret (decode_i32 v))"

definition read_u32_le_default :: "('s, 'z) data_input_scheme \<Rightarrow> ('s, u32) stateful" where
  "read_u32_le_default D = bnd (read_bytes D 4) (\<lambda>b. ret (from_le_bytes b))"

fun read_u32s_le_default :: "('s, 'z) data_input_scheme \<Rightarrow> nat \<Rightarrow> ('s, u32 list) stateful" where
  "read_u32s_le_default D 0 = ret []"
| "read_u32s_le_default D (Suc n) =
     bnd (read_u32_le_default D) (\<lambda>v. bnd (read_u32s_le_default D n) (\<lambda>vs. ret (v # vs)))"

definition read_be_u32 :: "('s, 'z) data_input_scheme \<Rightarrow> ('s, u32) stateful" where
  "read_be_u32 D = bnd (read_bytes D 4) (\<lambda>b. ret (from_be_bytes b))"

definition read_be_u64 :: "('s, 'z) data_input_scheme \<Rightarrow> ('s, u64) stateful" where
  "read_be_u64 D =
     bnd (read_be_u32 D) (\<lambda>hi. bnd (read_be_u32 D) (\<lambda>lo. ret (push_bit 32 (ucast hi) OR ucast lo)))"

definition read_be_i32 :: "('s, 'z) data_input_scheme \<Rightarrow> ('s, i32) stateful" where
  "read_be_i32 D = bnd (read_be_u32 D) ret"

definition read_length :: "('s, 'z) data_input_scheme \<Rightarrow> string \<Rightarrow> ('s, nat) stateful" where
  "read_length D what =
     bnd (read_vint D) (\<lambda>len s.
       if sint len < 0 then fail (Corrupted (NegativeLength what (sint len))) s
       else let len = nat (sint len) in
            if remaining D s < len then fail (Corrupted (LengthExceedsRemaining what len (remaining D s))) s
            else ret len s)"

definition read_string_default :: "('s, 'z) data_input_scheme \<Rightarrow> ('s, u8 list) stateful" where
  "read_string_default D =
     bnd (read_length D ''string'') (\<lambda>len. bnd (read_bytes D len) (\<lambda>b.
       if valid_utf8 b then ret b else fail (Corrupted InvalidUtf8)))"

definition read_u16 :: "('s, 'z) data_input_scheme \<Rightarrow> ('s, u16) stateful" where
  "read_u16 D = bnd (read_bytes D 2) (\<lambda>b. ret (from_le_bytes b))"

definition read_i16_default :: "('s, 'z) data_input_scheme \<Rightarrow> ('s, i16) stateful" where
  "read_i16_default D = bnd (read_bytes D 2) (\<lambda>b. ret (from_le_bytes b))"

definition read_i64_default :: "('s, 'z) data_input_scheme \<Rightarrow> ('s, i64) stateful" where
  "read_i64_default D = bnd (read_bytes D 8) (\<lambda>b. ret (from_le_bytes b))"

fun read_i64s_default :: "('s, 'z) data_input_scheme \<Rightarrow> nat \<Rightarrow> ('s, i64 list) stateful" where
  "read_i64s_default D 0 = ret []"
| "read_i64s_default D (Suc n) =
     bnd (read_i64_default D) (\<lambda>v. bnd (read_i64s_default D n) (\<lambda>vs. ret (v # vs)))"

text \<open>The counted loops over strings; \<open>rs\<close> is the implementation's \<open>read_string\<close>.\<close>

fun read_pairs :: "('s, u8 list) stateful \<Rightarrow> nat \<Rightarrow> ('s, (u8 list \<times> u8 list) list) stateful" where
  "read_pairs rs 0 = ret []"
| "read_pairs rs (Suc n) =
     bnd rs (\<lambda>k. bnd rs (\<lambda>v. bnd (read_pairs rs n) (\<lambda>out. ret ((k, v) # out))))"

definition read_map_of_strings ::
  "('s, 'z) data_input_scheme \<Rightarrow> ('s, u8 list) stateful \<Rightarrow> ('s, (u8 list \<times> u8 list) list) stateful" where
  "read_map_of_strings D rs = bnd (read_length D ''map-of-strings'') (\<lambda>count. read_pairs rs count)"

fun read_many :: "('s, 'e, 'a) fallible \<Rightarrow> nat \<Rightarrow> ('s, 'e, 'a list) fallible" where
  "read_many r 0 = ret []"
| "read_many r (Suc n) = bnd r (\<lambda>x. bnd (read_many r n) (\<lambda>out. ret (x # out)))"

definition read_set_of_strings ::
  "('s, 'z) data_input_scheme \<Rightarrow> ('s, u8 list) stateful \<Rightarrow> ('s, u8 list list) stateful" where
  "read_set_of_strings D rs = bnd (read_length D ''set-of-strings'') (\<lambda>count. read_many rs count)"

section \<open>Group varints\<close>

definition MASKS :: "u32 list" where
  "MASKS = [0xFF, 0xFFFF, 0xFFFFFF, 0xFFFFFFFF]"

definition flag_lens :: "u8 \<Rightarrow> nat list" where
  "flag_lens flag =
     (let flag = unat flag in [flag div 64 mod 4, flag div 16 mod 4, flag div 4 mod 4, flag mod 4])"

text \<open>The four values of one group: peeked words under a mask, or exactly their bytes.\<close>

fun group_peek :: "('s, 'z) data_input_scheme \<Rightarrow> nat list \<Rightarrow> ('s, u64 list) stateful" where
  "group_peek D [] = ret []"
| "group_peek D (n_minus_1 # ls) =
     bnd (peek_u32_le D) (\<lambda>w. bnd (skip D (n_minus_1 + 1)) (\<lambda>_.
       bnd (group_peek D ls) (\<lambda>vs. ret (ucast (w AND MASKS ! n_minus_1) # vs))))"

definition pad4 :: "u8 list \<Rightarrow> u8 list" where
  "pad4 b = b @ replicate (4 - length b) 0"

fun group_exact :: "('s, 'z) data_input_scheme \<Rightarrow> nat list \<Rightarrow> ('s, u64 list) stateful" where
  "group_exact D [] = ret []"
| "group_exact D (n_minus_1 # ls) =
     bnd (read_bytes D (n_minus_1 + 1)) (\<lambda>b.
       bnd (group_exact D ls) (\<lambda>vs. ret (ucast (from_le_bytes (pad4 b) :: u32) # vs)))"

definition read_group :: "('s, 'z) data_input_scheme \<Rightarrow> ('s, u64 list) stateful" where
  "read_group D =
     bnd (read_byte D) (\<lambda>flag s.
       let lens = flag_lens flag in
       case (if 16 \<le> remaining D s then peek_u32_le D s else (Inl (Eof 0), s)) of
         (Inr _, s) \<Rightarrow> group_peek D lens s
       | (Inl _, s) \<Rightarrow> group_exact D lens s)"

fun group_vints_default :: "('s, 'z) data_input_scheme \<Rightarrow> nat \<Rightarrow> ('s, u64 list) stateful" where
  "group_vints_default D limit =
     (if 4 \<le> limit then
        bnd (read_group D) (\<lambda>g. bnd (group_vints_default D (limit - 4)) (\<lambda>vs. ret (g @ vs)))
      else read_many (bnd (read_vint D) (\<lambda>v. ret (ucast v))) limit)"

declare group_vints_default.simps [simp del]

section \<open>The slice cursor\<close>

record slice_input =
  sbuf :: "u8 list"
  pos :: nat

definition slice_new :: "u8 list \<Rightarrow> slice_input" where
  "slice_new b = \<lparr>sbuf = b, pos = 0\<rparr>"

definition eof :: "slice_input \<Rightarrow> error" where
  "eof s = Eof (pos s)"

definition slice_read_byte :: "(slice_input, u8) stateful" where
  "slice_read_byte s =
     (if pos s < length (sbuf s) then (Inr (sbuf s ! pos s), s\<lparr>pos := pos s + 1\<rparr>) else (Inl (eof s), s))"

text \<open>
  The in-slice loops of \<open>read_vint\<close>, \<open>read_vlong\<close>, \<open>read_zlong\<close>: the value and the number of bytes, or
  \<open>None\<close> when every byte in view has its continuation bit.
\<close>

fun in_view :: "nat \<Rightarrow> 'a::len word \<Rightarrow> u8 list \<Rightarrow> ('a word \<times> nat) option" where
  "in_view i v [] = None"
| "in_view i v (x # xs) =
     (let v = v OR push_bit (7 * i) (ucast (x AND 0x7f)) in
      if x < 0x80 then Some (v, i + 1) else in_view (i + 1) v xs)"

definition slice_read_vint :: "(slice_input, i32) stateful" where
  "slice_read_vint s =
     (case slice_get (sbuf s) (pos s) (pos s + 5) of
        Some b \<Rightarrow>
          (case in_view 0 0 b of
             Some (v, n) \<Rightarrow> (Inr v, s\<lparr>pos := pos s + n\<rparr>)
           | None \<Rightarrow> read_vint_loop slice_read_byte s)
      | None \<Rightarrow> read_vint_loop slice_read_byte s)"

definition slice_read_vlong :: "(slice_input, i64) stateful" where
  "slice_read_vlong s =
     (case slice_get (sbuf s) (pos s) (pos s + 10) of
        Some b \<Rightarrow>
          (case in_view 0 0 b of
             Some (v, n) \<Rightarrow> (Inr v, s\<lparr>pos := pos s + n\<rparr>)
           | None \<Rightarrow> read_vlong_loop slice_read_byte s)
      | None \<Rightarrow> read_vlong_loop slice_read_byte s)"

definition slice_read_zlong :: "(slice_input, i64) stateful" where
  "slice_read_zlong s =
     (case slice_get (sbuf s) (pos s) (pos s + 10) of
        Some b \<Rightarrow>
          (case in_view 0 0 b of
             Some (v, n) \<Rightarrow> (Inr (decode v), s\<lparr>pos := pos s + n\<rparr>)
           | None \<Rightarrow> read_zlong_loop slice_read_byte s)
      | None \<Rightarrow> read_zlong_loop slice_read_byte s)"

definition slice_read_bytes :: "nat \<Rightarrow> (slice_input, u8 list) stateful" where
  "slice_read_bytes n s =
     (case checked_add (pos s) n of
        None \<Rightarrow> (Inl (eof s), s)
      | Some end \<Rightarrow>
          (case slice_get (sbuf s) (pos s) end of
             None \<Rightarrow> (Inl (eof s), s)
           | Some src \<Rightarrow> (Inr src, s\<lparr>pos := end\<rparr>)))"

definition slice_remaining :: "slice_input \<Rightarrow> nat" where
  "slice_remaining s = length (sbuf s) - pos s"

definition slice_peek_u32_le :: "(slice_input, u32) stateful" where
  "slice_peek_u32_le s =
     (case slice_get (sbuf s) (pos s) (pos s + 4) of
        None \<Rightarrow> (Inl (eof s), s) | Some b \<Rightarrow> (Inr (from_le_bytes b), s))"

definition slice_skip :: "nat \<Rightarrow> (slice_input, unit) stateful" where
  "slice_skip n s = (if slice_remaining s < n then (Inl (eof s), s) else (Inr (), s\<lparr>pos := pos s + n\<rparr>))"

definition slice_impl :: "slice_input data_input" where
  "slice_impl =
     \<lparr>read_byte = slice_read_byte, read_bytes = slice_read_bytes, remaining = slice_remaining,
      read_vint = slice_read_vint, peek_u32_le = slice_peek_u32_le, skip = slice_skip\<rparr>"

definition slice_read_fixed :: "nat \<Rightarrow> (slice_input, 'a::len word) stateful" where
  "slice_read_fixed n s =
     (case slice_get (sbuf s) (pos s) (pos s + n) of
        None \<Rightarrow> (Inl (eof s), s) | Some b \<Rightarrow> (Inr (from_le_bytes b), s\<lparr>pos := pos s + n\<rparr>))"

definition slice_read_u32_le :: "(slice_input, u32) stateful" where
  "slice_read_u32_le = slice_read_fixed 4"

definition slice_read_i32 :: "(slice_input, i32) stateful" where
  "slice_read_i32 = bnd slice_read_u32_le ret"

definition slice_read_i16 :: "(slice_input, i16) stateful" where
  "slice_read_i16 = slice_read_fixed 2"

definition slice_read_i64 :: "(slice_input, i64) stateful" where
  "slice_read_i64 = slice_read_fixed 8"

definition slice_read_string :: "(slice_input, u8 list) stateful" where
  "slice_read_string =
     bnd (read_length slice_impl ''string'') (\<lambda>len s.
       let bytes = take len (drop (pos s) (sbuf s)); s = s\<lparr>pos := pos s + len\<rparr> in
       if valid_utf8 bytes then ret bytes s else fail (Corrupted InvalidUtf8) s)"

fun chunks :: "nat \<Rightarrow> nat \<Rightarrow> u8 list \<Rightarrow> u8 list list" where
  "chunks w 0 bs = []"
| "chunks w (Suc n) bs = take w bs # chunks w n (drop w bs)"

text \<open>The bulk reads: one bounds check for the whole run, then a straight copy.\<close>

definition slice_read_words :: "nat \<Rightarrow> nat \<Rightarrow> (slice_input, 'a::len word list) stateful" where
  "slice_read_words w n s =
     (if n * w \<le> usize_max \<and> pos s + n * w \<le> usize_max then
        (case slice_get (sbuf s) (pos s) (pos s + n * w) of
           None \<Rightarrow> (Inl (eof s), s)
         | Some src \<Rightarrow> (Inr (map from_le_bytes (chunks w n src)), s\<lparr>pos := pos s + n * w\<rparr>))
      else (Inl (eof s), s))"

definition slice_read_u32s_le :: "nat \<Rightarrow> (slice_input, u32 list) stateful" where
  "slice_read_u32s_le n = slice_read_words 4 n"

definition slice_read_i64s :: "nat \<Rightarrow> (slice_input, i64 list) stateful" where
  "slice_read_i64s n = slice_read_words 8 n"

definition slice_seek :: "nat \<Rightarrow> (slice_input, unit) stateful" where
  "slice_seek p s = (if length (sbuf s) < p then (Inl (eof s), s) else (Inr (), s\<lparr>pos := p\<rparr>))"

definition slice_range :: "slice_input \<Rightarrow> nat \<Rightarrow> nat \<Rightarrow> error + u8 list" where
  "slice_range s from to = (case slice_get (sbuf s) from to of None \<Rightarrow> Inl (eof s) | Some b \<Rightarrow> Inr b)"

definition sub_input :: "slice_input \<Rightarrow> nat \<Rightarrow> nat \<Rightarrow> error + slice_input" where
  "sub_input s start len =
     (case checked_add start len of
        None \<Rightarrow> Inl (eof s)
      | Some end \<Rightarrow>
          (case slice_get (sbuf s) start end of
             None \<Rightarrow> Inl (eof s) | Some b \<Rightarrow> Inr \<lparr>sbuf = b, pos = 0\<rparr>))"

definition as_slice :: "slice_input \<Rightarrow> u8 list" where
  "as_slice s = drop (pos s) (sbuf s)"

text \<open>One group of the fast path: the 17 bytes in view and the offset \<open>at\<close> of the next value.\<close>

fun group_view :: "u8 \<Rightarrow> u8 list \<Rightarrow> nat \<Rightarrow> nat list \<Rightarrow> u32 list \<times> nat" where
  "group_view flag bytes at [] = ([], at)"
| "group_view flag bytes at (j # js) =
     (let n_minus_1 = unat (drop_bit (6 - 2 * j) flag AND 3);
          word = from_le_bytes (take 4 (drop at bytes)) AND MASKS ! n_minus_1;
          (vs, at) = group_view flag bytes (at + n_minus_1 + 1) js
      in (word # vs, at))"

text \<open>The fast loop over whole groups: the values decoded and the number of values left.\<close>

fun groups_in_view :: "nat \<Rightarrow> slice_input \<Rightarrow> u32 list \<times> nat \<times> slice_input" where
  "groups_in_view limit s =
     (if 4 \<le> limit then
        (case slice_get (sbuf s) (pos s) (pos s + 17) of
           None \<Rightarrow> ([], limit, s)
         | Some bytes \<Rightarrow>
             (let (g, at) = group_view (bytes ! 0) bytes 1 [0, 1, 2, 3];
                  (vs, left, s) = groups_in_view (limit - 4) (s\<lparr>pos := pos s + at\<rparr>)
              in (g @ vs, left, s)))
      else ([], limit, s))"

declare groups_in_view.simps [simp del]

definition slice_read_group_vints :: "nat \<Rightarrow> (slice_input, u64 list) stateful" where
  "slice_read_group_vints limit s =
     (case groups_in_view limit s of
        (vs, left, s) \<Rightarrow> bnd (group_vints_default slice_impl left) (\<lambda>ws. ret (map ucast vs @ ws)) s)"

text \<open>
  \<open>group_vints_i32_tail\<close>: groups whose own bytes are all there are decoded from them; the first cut
  short, and the remainder, go through the default decoder a group at a time.
\<close>

fun tail_values :: "u8 list \<Rightarrow> nat \<Rightarrow> nat list \<Rightarrow> i32 list" where
  "tail_values bytes at [] = []"
| "tail_values bytes at (n # ns) = from_le_bytes (pad4 (take n (drop at bytes))) # tail_values bytes (at + n) ns"

fun tail_groups :: "nat \<Rightarrow> slice_input \<Rightarrow> i32 list \<times> nat \<times> slice_input" where
  "tail_groups limit s =
     (if 4 \<le> limit \<and> pos s < length (sbuf s) then
        (let flag = sbuf s ! pos s;
             lens = map (\<lambda>l. l + 1) (flag_lens flag);
             need = 1 + sum_list lens
         in case slice_get (sbuf s) (pos s) (pos s + need) of
              None \<Rightarrow> ([], limit, s)
            | Some bytes \<Rightarrow>
                (let (vs, left, s) = tail_groups (limit - 4) (s\<lparr>pos := pos s + need\<rparr>)
                 in (tail_values bytes 1 lens @ vs, left, s)))
      else ([], limit, s))"

declare tail_groups.simps [simp del]

function default_chunks :: "nat \<Rightarrow> (slice_input, i32 list) stateful" where
  "default_chunks left =
     (if left = 0 then ret []
      else bnd (group_vints_default slice_impl (min 4 left)) (\<lambda>staged.
             bnd (default_chunks (left - 4)) (\<lambda>vs. ret (map ucast staged @ vs))))"
  by pat_completeness auto
termination by (relation "measure id") auto

declare default_chunks.simps [simp del]

definition group_vints_i32_tail :: "nat \<Rightarrow> (slice_input, i32 list) stateful" where
  "group_vints_i32_tail limit s =
     (case tail_groups limit s of
        (vs, left, s) \<Rightarrow> bnd (default_chunks left) (\<lambda>ws. ret (vs @ ws)) s)"

definition read_group_vints_i32 :: "nat \<Rightarrow> (slice_input, i32 list) stateful" where
  "read_group_vints_i32 limit s =
     (case groups_in_view limit s of
        (vs, left, s) \<Rightarrow>
          if 0 < left then bnd (group_vints_i32_tail left) (\<lambda>ws. ret (vs @ ws)) s else (Inr vs, s))"

section \<open>Decoding what was encoded\<close>

text \<open>
  \<open>decodes ok rest P bs v\<close>: started with \<open>bs\<close> at the front of the unread bytes, \<open>P\<close> succeeds with
  \<open>v\<close> and leaves exactly the bytes after \<open>bs\<close>.
\<close>

definition decodes :: "('s \<Rightarrow> bool) \<Rightarrow> ('s \<Rightarrow> u8 list) \<Rightarrow> ('s, 'e, 'a) fallible \<Rightarrow> u8 list \<Rightarrow> 'a \<Rightarrow> bool" where
  "decodes ok rest P bs v \<longleftrightarrow>
     (\<forall>s r. ok s \<longrightarrow> rest s = bs @ r \<longrightarrow> (\<exists>s'. P s = (Inr v, s') \<and> ok s' \<and> rest s' = r))"

lemma decodes_ret [simp]: "decodes ok rest (ret v) [] v"
  by (simp add: decodes_def)

lemma decodes_pair [simp]: "decodes ok rest (Pair (Inr v)) [] v"
  by (simp add: decodes_def)

lemma decodes_bnd:
  assumes "decodes ok rest P bs v" and "decodes ok rest (f v) cs w"
  shows "decodes ok rest (bnd P f) (bs @ cs) w"
  unfolding decodes_def
proof (intro allI impI)
  fix s r assume "ok s" "rest s = (bs @ cs) @ r"
  then obtain s1 where s1: "P s = (Inr v, s1)" "ok s1" "rest s1 = cs @ r"
    using assms(1) unfolding decodes_def by (metis append_assoc)
  then show "\<exists>s'. bnd P f s = (Inr w, s') \<and> ok s' \<and> rest s' = r"
    using assms(2) unfolding decodes_def by (metis bnd_Inr)
qed

lemma decodes_map: "decodes ok rest P bs v \<Longrightarrow> decodes ok rest (bnd P (\<lambda>x. ret (f x))) bs (f v)"
  using decodes_bnd [of ok rest P bs v "\<lambda>x. ret (f x)" "[]"] decodes_ret by force

lemma decodes_many:
  assumes "\<And>x. x \<in> set xs \<Longrightarrow> decodes ok rest P (enc x) x"
  shows "decodes ok rest (read_many P (length xs)) (concat (map enc xs)) xs"
  using assms
proof (induction xs)
  case Nil
  then show ?case by (simp add: decodes_ret)
next
  case (Cons x xs)
  have "decodes ok rest (bnd (read_many P (length xs)) (\<lambda>out. ret (x # out))) (concat (map enc xs)) (x # xs)"
    using Cons by (intro decodes_map) auto
  then show ?case using Cons.prems decodes_bnd [of ok rest P "enc x" x] by simp
qed

subsection \<open>Varints\<close>

lemma continuation_bit: "b AND 0x80 \<noteq> 0 \<longleftrightarrow> bit b 7" for b :: u8
proof -
  have "(0x80 :: u8) = 2 ^ 7" by simp
  then have "bit (b AND 0x80) k \<longleftrightarrow> bit b k \<and> k = 7" for k
    by (simp only: bit_and_iff bit_exp_iff) (auto dest: bit_imp_le_length)
  then show ?thesis by (metis bit_0_eq bot_apply bot_bool_def bit_word_eqI)
qed

lemma less_80_iff: "b < 0x80 \<longleftrightarrow> \<not> bit b 7" for b :: u8
proof -
  have "b < 0x80 \<longleftrightarrow> unat b < 128" by (simp add: word_less_nat_alt)
  also have "\<dots> \<longleftrightarrow> unat b div 128 = 0" by (simp add: div_eq_0_iff)
  also have "\<dots> \<longleftrightarrow> even (unat b div 128)"
  proof -
    have "unat b div 128 < 2" using unat_less_256 [of b] by (simp add: div_less_iff_less_mult)
    then have "unat b div 128 = 0 \<or> unat b div 128 = 1" by linarith
    then show ?thesis by auto
  qed
  also have "\<dots> \<longleftrightarrow> \<not> bit (unat b) 7" by (simp add: bit_iff_odd)
  finally show ?thesis by (simp add: bit_unsigned_iff)
qed

lemma varint_byte_cont: "varint_byte v i AND 0x80 \<noteq> 0 \<longleftrightarrow> i + 1 < groups v"
  unfolding continuation_bit by (simp add: bit_varint_byte)

lemma bit_payload:
  "bit (push_bit (7 * i) (ucast (varint_byte v i AND 0x7f)) :: 'a::len word) k \<longleftrightarrow>
     7 * i \<le> k \<and> k < 7 * (i + 1) \<and> k < LENGTH('a) \<and> bit v k"
proof (cases "7 * i \<le> k \<and> k < 7 * (i + 1)")
  case True
  then obtain j where "k = 7 * i + j" "j < 7" by (metis add_less_cancel_left distrib_left le_add_diff_inverse mult.right_neutral)
  then show ?thesis by (auto simp: bit_push_bit_iff bit_ucast_iff bit_and_7f bit_varint_byte dest: bit_imp_le_length)
next
  case False
  then show ?thesis by (auto simp: bit_push_bit_iff bit_ucast_iff bit_and_7f)
qed

lemma payload_step:
  fixes w :: "'a::len word"
  assumes "LENGTH('a) \<le> 64"
  shows "take_bit (7 * i) w OR push_bit (7 * i) (ucast (varint_byte (ucast w) i AND 0x7f)) = take_bit (7 * (i + 1)) w"
  using assms
  by (intro bit_word_eqI) (auto simp: bit_or_iff bit_take_bit_iff bit_payload bit_ucast_iff not_less [symmetric])

lemma payload_first: "(ucast (varint_byte (ucast w) 0 AND 0x7f) :: 'a::len word) = take_bit 7 w"
  if "LENGTH('a) \<le> 64" for w :: "'a::len word"
  using payload_step [OF that, of 0 w] by simp

lemma groups_cover: "bit v k \<Longrightarrow> k < 7 * groups v"
proof -
  assume b: "bit v k"
  obtain h where "\<And>j. h < j \<Longrightarrow> \<not> bit v j" "groups v = h div 7 + 1" using groups_top [of v] by blast
  then have "k \<le> h" "groups v = h div 7 + 1" using b by (auto simp: not_less [symmetric])
  then show ?thesis by simp
qed

lemma payload_last: "take_bit (7 * groups (ucast w)) w = w" if "LENGTH('a) \<le> 64" for w :: "'a::len word"
  using that groups_cover [of "ucast w"] 
  by (intro bit_word_eqI) (auto simp: bit_take_bit_iff bit_ucast_iff)

lemma groups_32: "groups (ucast (w :: u32)) \<le> 5"
proof -
  obtain h where h: "h < 64" "bit (ucast w OR 1 :: u64) h" "groups (ucast w) = h div 7 + 1"
    using groups_top [of "ucast w"] by blast
  then have "h < 32" using bit_imp_le_length [of w h] by (auto simp: or_1_bits bit_ucast_iff)
  then show ?thesis using h(3) by simp
qed

text \<open>A byte reader that hands out the unread bytes one by one decodes the three varint forms.\<close>

locale byte_source =
  fixes rb :: "('s, u8) stateful" and rest :: "'s \<Rightarrow> u8 list" and ok :: "'s \<Rightarrow> bool"
  assumes rb_law: "decodes ok rest rb [b] b"
begin

lemma decodes_byte: "decodes ok rest (f b) cs v \<Longrightarrow> decodes ok rest (bnd rb f) (b # cs) v"
  using decodes_bnd [OF rb_law [of b]] by simp

lemma vint_loop_decodes:
  "i < groups (ucast w) \<Longrightarrow>
   decodes ok rest (vint_loop rb (varint_byte (ucast w) i) (take_bit (7 * (i + 1)) w) (7 * (i + 1)))
     (map (varint_byte (ucast w)) [i + 1..<groups (ucast w)]) w"
proof (induction "groups (ucast w) - i" arbitrary: i)
  case (Suc n)
  show ?case
  proof (cases "i + 1 < groups (ucast w)")
    case True
    have "vint_loop rb (varint_byte (ucast w) i) (take_bit (7 * (i + 1)) w) (7 * (i + 1)) =
        bnd rb (\<lambda>b. vint_loop rb b (take_bit (7 * (i + 1)) w OR push_bit (7 * (i + 1)) (ucast (b AND 0x7f))) (7 * (i + 1) + 7))"
      using True groups_32 [of w] by (subst vint_loop.simps) (simp add: varint_byte_cont)
    moreover have "decodes ok rest
        (vint_loop rb (varint_byte (ucast w) (i + 1)) (take_bit (7 * (i + 1 + 1)) w) (7 * (i + 1 + 1)))
        (map (varint_byte (ucast w)) [i + 1 + 1..<groups (ucast w)]) w"
      using Suc True by (intro Suc.hyps) auto
    moreover have "7 * (i + 1) + 7 = 7 * (i + 1 + 1)" by simp
    ultimately show ?thesis
      unfolding upt_conv_Cons [OF True] list.map
      by (simp only:) (rule decodes_byte, subst payload_step, simp_all)
  next
    case False
    then have "groups (ucast w) = i + 1" using Suc.prems by simp
    then show ?thesis
      using payload_last [of w] by (subst vint_loop.simps) (simp add: varint_byte_cont)
  qed
qed simp

lemma vint_decodes: "decodes ok rest (read_vint_loop rb) (encode_varint (ucast w)) w"
proof -
  have g: "0 < groups (ucast w)" by (rule groups_bounds)
  have "decodes ok rest (vint_loop rb (varint_byte (ucast w) 0) (take_bit 7 w) 7)
      (map (varint_byte (ucast w)) [Suc 0..<groups (ucast w)]) w"
    using vint_loop_decodes [OF g] by simp
  then show ?thesis
    unfolding read_vint_loop_def encode_varint_eq upt_conv_Cons [OF g] list.map
    by (intro decodes_byte) (simp add: payload_first)
qed

lemma vlong_loop_decodes:
  "i < groups w \<Longrightarrow>
   decodes ok rest (vlong_loop rb (varint_byte w i) (take_bit (7 * (i + 1)) w) (7 * (i + 1)))
     (map (varint_byte w) [i + 1..<groups w]) w"
proof (induction "groups w - i" arbitrary: i)
  case (Suc n)
  show ?case
  proof (cases "i + 1 < groups w")
    case True
    have "vlong_loop rb (varint_byte w i) (take_bit (7 * (i + 1)) w) (7 * (i + 1)) =
        bnd rb (\<lambda>b. vlong_loop rb b (take_bit (7 * (i + 1)) w OR push_bit (7 * (i + 1)) (ucast (b AND 0x7f))) (7 * (i + 1) + 7))"
      using True groups_bounds [of w] by (subst vlong_loop.simps) (simp add: varint_byte_cont)
    moreover have "decodes ok rest
        (vlong_loop rb (varint_byte w (i + 1)) (take_bit (7 * (i + 1 + 1)) w) (7 * (i + 1 + 1)))
        (map (varint_byte w) [i + 1 + 1..<groups w]) w"
      using Suc True by (intro Suc.hyps) auto
    moreover have "7 * (i + 1) + 7 = 7 * (i + 1 + 1)" by simp
    ultimately show ?thesis
      using payload_step [of "i + 1" w]
      unfolding upt_conv_Cons [OF True] list.map
      by (simp only: ucast_id) (rule decodes_byte, simp)
  next
    case False
    then have "groups w = i + 1" using Suc.prems by simp
    then show ?thesis
      using payload_last [of w] by (subst vlong_loop.simps) (simp add: varint_byte_cont)
  qed
qed simp

lemma vlong_decodes: "decodes ok rest (read_vlong_loop rb) (encode_varint w) w"
proof -
  have g: "0 < groups w" by (rule groups_bounds)
  have "decodes ok rest (vlong_loop rb (varint_byte w 0) (take_bit 7 w) 7) (map (varint_byte w) [Suc 0..<groups w]) w"
    using vlong_loop_decodes [OF g] by simp
  then show ?thesis
    using payload_first [of w] unfolding read_vlong_loop_def encode_varint_eq upt_conv_Cons [OF g] list.map
    by (intro decodes_byte) simp
qed

lemma zlong_loop_decodes:
  "i < groups w \<Longrightarrow>
   decodes ok rest (zlong_loop rb (take_bit (7 * i) w) (7 * i)) (map (varint_byte w) [i..<groups w]) w"
proof (induction "groups w - i" arbitrary: i)
  case (Suc n)
  let ?f = "\<lambda>b. let v = take_bit (7 * i) w OR push_bit (7 * i) (ucast (b AND 0x7f)) in
       if b AND 0x80 = 0 then ret v
       else let shift = 7 * i + 7 in
            if 70 \<le> shift then fail MalformedVarint else zlong_loop rb v shift"
  have step: "take_bit (7 * i) w OR push_bit (7 * i) (ucast (varint_byte w i AND 0x7f)) = take_bit (7 * (i + 1)) w"
    using payload_step [of i w] by simp
  have "decodes ok rest (?f (varint_byte w i)) (map (varint_byte w) [Suc i..<groups w]) w"
  proof (cases "i + 1 < groups w")
    case True
    have "decodes ok rest (zlong_loop rb (take_bit (7 * (i + 1)) w) (7 * (i + 1))) (map (varint_byte w) [i + 1..<groups w]) w"
      using Suc True by (intro Suc.hyps) auto
    then show ?thesis
      using True groups_bounds(2) [of w] varint_byte_cont [of w i]
      by (simp add: step Let_def add.commute)
  next
    case False
    then have "groups w = i + 1" using Suc.prems by simp
    then show ?thesis
      using payload_last [of w] varint_byte_cont [of w i] by (simp add: step Let_def)
  qed
  then show ?case
    unfolding upt_conv_Cons [OF Suc.prems] list.map by (subst zlong_loop.simps) (rule decodes_byte)
qed simp

lemma zlong_decodes: "decodes ok rest (read_zlong_loop rb) (encode_varint (encode v)) v"
proof -
  have "decodes ok rest (zlong_loop rb 0 0) (encode_varint (encode v)) (encode v)"
    using zlong_loop_decodes [OF groups_bounds(1), of "encode v"] by (simp add: encode_varint_eq)
  from decodes_map [OF this, of decode] show ?thesis
    by (simp add: read_zlong_loop_def decode_encode)
qed

end

subsection \<open>The trait's promises\<close>

lemma flag_bits_all:
  "list_all (\<lambda>a. list_all (\<lambda>b. list_all (\<lambda>c. list_all (\<lambda>d.
      flag_lens (ucast (group_flag (a + 1) (b + 1) (c + 1) (d + 1))) = [a, b, c, d])
    [0, 1, 2, 3]) [0, 1, 2, 3]) [0, 1, 2, 3]) [0, 1, 2, 3]"
  by code_simp

lemma flag_bits:
  assumes "a < 4" "b < 4" "c < 4" "d < 4"
  shows "flag_lens (ucast (group_flag (a + 1) (b + 1) (c + 1) (d + 1))) = [a, b, c, d]"
proof -
  have "a \<in> set [0, 1, 2, 3]" "b \<in> set [0, 1, 2, 3]" "c \<in> set [0, 1, 2, 3]" "d \<in> set [0, 1, 2, 3]"
    using assms by auto
  then show ?thesis using flag_bits_all unfolding list_all_iff by blast
qed

lemma length_group_payload: "length (group_payload chunk) = sum_list (map num_bytes chunk)"
proof (induction chunk)
  case (Cons v chunk)
  then show ?case using num_bytes_bounds(2) [of v] by (simp add: group_payload_def)
qed (simp add: group_payload_def)

lemma bit_MASKS: "n < 4 \<Longrightarrow> bit (MASKS ! n) k \<longleftrightarrow> k < 8 * (n + 1) \<and> k < 32"
proof -
  assume "n < 4"
  then have "n \<in> {0, 1, 2, 3}" by auto
  then have "MASKS ! n = mask (8 * (n + 1))"
    by (auto simp: MASKS_def mask_eq_exp_minus_1)
  then show ?thesis by (simp only: bit_mask_iff) auto
qed

text \<open>Both ways of cutting a value out of the bytes give its low \<open>n\<close> bytes.\<close>

lemma peeked_value:
  assumes "4 \<le> length bs" and "n < 4"
  shows "from_le_bytes (take 4 bs) AND MASKS ! n = (from_le_bytes (pad4 (take (n + 1) bs)) :: u32)"
proof (rule bit_word_eqI)
  fix k :: nat assume "k < LENGTH(32)"
  then have "k div 8 < 4" by simp
  moreover have "k < 8 * (n + 1) \<longleftrightarrow> k div 8 < n + 1" by (simp add: div_less_iff_less_mult mult.commute)
  ultimately show "bit (from_le_bytes (take 4 bs) AND MASKS ! n) k = bit (from_le_bytes (pad4 (take (n + 1) bs)) :: u32) k"
    using assms \<open>k < LENGTH(32)\<close>
    by (simp only: bit_and_iff bit_MASKS bit_from_le_bytes) (auto simp: pad4_def nth_append min_def)
qed

lemma padded_value: "from_le_bytes (pad4 (take (num_bytes v) (to_le_bytes 4 v))) = v"
proof (rule bit_word_eqI)
  fix k :: nat assume k: "k < LENGTH(32)"
  then have "k div 8 < 4" by simp
  have "bit v k \<Longrightarrow> k div 8 < num_bytes v"
    using num_bytes_enough [of v k] by (simp add: div_less_iff_less_mult mult.commute)
  moreover have "8 * (k div 8) + k mod 8 = k" by simp
  ultimately show "bit (from_le_bytes (pad4 (take (num_bytes v) (to_le_bytes 4 v))) :: u32) k = bit v k"
    using k \<open>k div 8 < 4\<close> num_bytes_bounds [of v] bit_nth_to_le_bytes [of "k div 8" 4 "k mod 8" v]
    by (auto simp: bit_from_le_bytes pad4_def nth_append)
qed

lemma be_u64_split: "to_be_bytes 8 v = to_be_bytes 4 (ucast (drop_bit 32 v) :: u32) @ to_be_bytes 4 (ucast v :: u32)"
  for v :: u64
proof -
  have "[0..<8] = [0, 1, 2, 3, 4, 5, 6, 7]" "[0..<4] = [0, 1, 2, 3]" by code_simp+
  then show ?thesis
    by (simp add: to_be_bytes_def to_le_bytes_def drop_bit_drop_bit)
       (auto intro!: bit_word_eqI simp: bit_ucast_iff bit_drop_bit_eq)
qed

lemma be_u64_join: "push_bit 32 (ucast (ucast (drop_bit 32 v) :: u32)) OR ucast (ucast v :: u32) = v" for v :: u64
  by (rule bit_word_eqI) (auto simp: bit_or_iff bit_push_bit_iff bit_ucast_iff bit_drop_bit_eq not_less [symmetric])

definition good_string :: "u8 list \<Rightarrow> bool" where
  "good_string str = (valid_utf8 str \<and> length str < 2 ^ 31)"

lemma length_string_bytes: "1 \<le> length (string_bytes str)"
  using groups_bounds(1) by (simp add: string_bytes_def length_encode_varint Suc_le_eq trans_less_add1)

locale data_input_source =
  fixes D :: "('s, 'z) data_input_scheme" and rest :: "'s \<Rightarrow> u8 list" and ok :: "'s \<Rightarrow> bool"
    and offset :: "'s \<Rightarrow> nat" and can_peek :: bool
  assumes read_byte_law: "decodes ok rest (read_byte D) [b] b"
    and read_byte_eof: "ok s \<Longrightarrow> rest s = [] \<Longrightarrow> read_byte D s = (Inl (Eof (offset s)), s)"
    and read_bytes_law: "decodes ok rest (read_bytes D (length bs)) bs bs"
    and remaining_law: "ok s \<Longrightarrow> remaining D s = length (rest s)"
    and read_vint_law: "ok s \<Longrightarrow> read_vint D s = read_vint_loop (read_byte D) s"
    and peek_law: "ok s \<Longrightarrow> peek_u32_le D s =
      (if can_peek \<and> 4 \<le> length (rest s) then Inr (from_le_bytes (take 4 (rest s))) else Inl (Eof (offset s)), s)"
    and skip_law: "decodes ok rest (skip D (length bs)) bs ()"

sublocale data_input_source \<subseteq> bytes: byte_source "read_byte D" rest ok
  by unfold_locales (rule read_byte_law)

context data_input_source
begin

lemma vint_ok: "decodes ok rest (read_vint D) (encode_varint (ucast w)) w"
  using bytes.vint_decodes [of w] by (auto simp: decodes_def read_vint_law)

lemma zint_ok: "decodes ok rest (read_zint D) (encode_varint (ucast (encode_i32 v))) v"
  using decodes_map [OF vint_ok, of decode_i32 "encode_i32 v"] by (simp add: read_zint_def decode_encode_i32)

lemma fixed_ok:
  "decodes ok rest (read_u32_le_default D) (to_le_bytes 4 a) a"
  "decodes ok rest (read_be_u32 D) (to_be_bytes 4 a) a"
  "decodes ok rest (read_be_i32 D) (to_be_bytes 4 a) a"
  "decodes ok rest (read_u16 D) (to_le_bytes 2 c) c"
  "decodes ok rest (read_i16_default D) (to_le_bytes 2 c) c"
  "decodes ok rest (read_i64_default D) (to_le_bytes 8 e) e"
proof -
  note r = decodes_map [OF read_bytes_law]
  show "decodes ok rest (read_u32_le_default D) (to_le_bytes 4 a) a"
    using r [of "to_le_bytes 4 a" "from_le_bytes :: _ \<Rightarrow> u32"] by (simp add: read_u32_le_default_def)
  show be: "decodes ok rest (read_be_u32 D) (to_be_bytes 4 a) a"
    using r [of "to_be_bytes 4 a" "from_be_bytes :: _ \<Rightarrow> u32"] by (simp add: read_be_u32_def)
  then show "decodes ok rest (read_be_i32 D) (to_be_bytes 4 a) a"
    using decodes_map [OF be, of id] by (simp add: read_be_i32_def)
  show "decodes ok rest (read_u16 D) (to_le_bytes 2 c) c"
    using r [of "to_le_bytes 2 c" "from_le_bytes :: _ \<Rightarrow> u16"] by (simp add: read_u16_def)
  show "decodes ok rest (read_i16_default D) (to_le_bytes 2 c) c"
    using r [of "to_le_bytes 2 c" "from_le_bytes :: _ \<Rightarrow> u16"] by (simp add: read_i16_default_def)
  show "decodes ok rest (read_i64_default D) (to_le_bytes 8 e) e"
    using r [of "to_le_bytes 8 e" "from_le_bytes :: _ \<Rightarrow> i64"] by (simp add: read_i64_default_def)
qed

lemma be_u64_ok: "decodes ok rest (read_be_u64 D) (to_be_bytes 8 v) v"
  unfolding read_be_u64_def be_u64_split
proof (rule decodes_bnd [OF fixed_ok(2)])
  show "decodes ok rest (bnd (read_be_u32 D) (\<lambda>lo. ret (push_bit 32 (ucast (ucast (drop_bit 32 v) :: u32)) OR ucast lo)))
      (to_be_bytes 4 (ucast v :: u32)) v"
    using decodes_map [OF fixed_ok(2), of "\<lambda>lo. push_bit 32 (ucast (ucast (drop_bit 32 v) :: u32)) OR ucast lo :: u64" "ucast v"]
    unfolding be_u64_join .
qed

lemma length_ok:
  assumes "ok s" and "rest s = encode_varint (ucast (of_nat n :: i32)) @ r" and "n \<le> length r" and "n < 2 ^ 31"
  shows "\<exists>s'. read_length D what s = (Inr n, s') \<and> ok s' \<and> rest s' = r"
proof -
  obtain s1 where s1: "read_vint D s = (Inr (of_nat n), s1)" "ok s1" "rest s1 = r"
    using vint_ok [of "of_nat n"] assms(1,2) by (auto simp: decodes_def)
  have "unat (of_nat n :: i32) = n"
    using assms(4) by (simp add: unsigned_of_nat take_bit_nat_eq_self)
  then have "sint (of_nat n :: i32) = int n"
    using assms(4) sint_eq_unat [of "of_nat n :: i32"] by simp
  with s1 assms(3) show ?thesis by (simp add: read_length_def remaining_law)
qed

lemma string_ok:
  assumes "valid_utf8 str" and "length str < 2 ^ 31"
  shows "decodes ok rest (read_string_default D) (string_bytes str) str"
  unfolding decodes_def
proof (intro allI impI)
  fix s r assume s: "ok s" "rest s = string_bytes str @ r"
  obtain s1 where s1: "read_length D ''string'' s = (Inr (length str), s1)" "ok s1" "rest s1 = str @ r"
    using length_ok [OF s(1), of "length str" "str @ r" "''string''"] s(2) assms(2) by (auto simp: string_bytes_def)
  obtain s2 where "read_bytes D (length str) s1 = (Inr str, s2)" "ok s2" "rest s2 = r"
    using read_bytes_law [of str] s1(2,3) unfolding decodes_def by metis
  with s1 show "\<exists>s'. read_string_default D s = (Inr str, s') \<and> ok s' \<and> rest s' = r"
    using assms(1) by (simp add: read_string_default_def)
qed

lemma pairs_ok:
  assumes "\<And>str. good_string str \<Longrightarrow> decodes ok rest rs (string_bytes str) str"
    and "\<And>k v. (k, v) \<in> set m \<Longrightarrow> good_string k \<and> good_string v"
  shows "decodes ok rest (read_pairs rs (length m)) (concat (map (\<lambda>(k, v). string_bytes k @ string_bytes v) m)) m"
  using assms(2)
proof (induction m)
  case Nil
  then show ?case by simp
next
  case (Cons kv m)
  obtain k v where kv: "kv = (k, v)" by fastforce
  have "decodes ok rest (bnd (read_pairs rs (length m)) (\<lambda>out. ret ((k, v) # out)))
      (concat (map (\<lambda>(k, v). string_bytes k @ string_bytes v) m)) ((k, v) # m)"
    using Cons by (intro decodes_map) auto
  moreover have "decodes ok rest rs (string_bytes k) k" "decodes ok rest rs (string_bytes v) v"
    using Cons.prems kv assms(1) by auto
  ultimately show ?case
    unfolding kv by (simp add: decodes_bnd)
qed

lemma map_ok:
  assumes rs: "\<And>str. good_string str \<Longrightarrow> decodes ok rest rs (string_bytes str) str"
    and m: "\<And>k v. (k, v) \<in> set m \<Longrightarrow> good_string k \<and> good_string v" and len: "length m < 2 ^ 31"
  shows "decodes ok rest (read_map_of_strings D rs) (map_bytes m) m"
  unfolding decodes_def
proof (intro allI impI)
  fix s r assume s: "ok s" "rest s = map_bytes m @ r"
  let ?body = "concat (map (\<lambda>(k, v). string_bytes k @ string_bytes v) m)"
  have "length m \<le> length ?body"
  proof (induction m)
    case (Cons kv m)
    then show ?case using length_string_bytes [of "fst kv"] by (simp add: case_prod_beta)
  qed simp
  then obtain s1 where s1: "read_length D ''map-of-strings'' s = (Inr (length m), s1)" "ok s1" "rest s1 = ?body @ r"
    using length_ok [OF s(1), of "length m" "?body @ r" "''map-of-strings''"] s(2) len by (auto simp: map_bytes_def)
  with pairs_ok [OF rs m] show "\<exists>s'. read_map_of_strings D rs s = (Inr m, s') \<and> ok s' \<and> rest s' = r"
    unfolding decodes_def read_map_of_strings_def by simp
qed

lemma set_ok:
  assumes rs: "\<And>str. good_string str \<Longrightarrow> decodes ok rest rs (string_bytes str) str"
    and m: "\<And>x. x \<in> set xs \<Longrightarrow> good_string x" and len: "length xs < 2 ^ 31"
  shows "decodes ok rest (read_set_of_strings D rs) (set_bytes xs) xs"
  unfolding decodes_def
proof (intro allI impI)
  fix s r assume s: "ok s" "rest s = set_bytes xs @ r"
  have "length xs \<le> length (concat (map string_bytes xs))"
  proof (induction xs)
    case (Cons x xs)
    then show ?case using length_string_bytes [of x] by simp
  qed simp
  then obtain s1 where s1: "read_length D ''set-of-strings'' s = (Inr (length xs), s1)" "ok s1"
      "rest s1 = concat (map string_bytes xs) @ r"
    using length_ok [OF s(1), of "length xs" "concat (map string_bytes xs) @ r" "''set-of-strings''"] s(2) len
    by (auto simp: set_bytes_def)
  with decodes_many [of xs ok rest rs string_bytes] rs m
  show "\<exists>s'. read_set_of_strings D rs s = (Inr xs, s') \<and> ok s' \<and> rest s' = r"
    unfolding decodes_def read_set_of_strings_def by simp
qed


lemma group_exact_ok:
  "decodes ok rest (group_exact D (map (\<lambda>v. num_bytes v - 1) chunk)) (group_payload chunk) (map ucast chunk)"
proof (induction chunk)
  case Nil
  then show ?case by (simp add: group_payload_def)
next
  case (Cons v chunk)
  let ?bs = "take (num_bytes v) (to_le_bytes 4 v)"
  have "length ?bs = num_bytes v - 1 + 1" using num_bytes_bounds [of v] by simp
  then have "decodes ok rest (read_bytes D (num_bytes v - 1 + 1)) ?bs ?bs"
    using read_bytes_law [of ?bs] by simp
  moreover have "decodes ok rest (bnd (group_exact D (map (\<lambda>v. num_bytes v - 1) chunk))
      (\<lambda>vs. ret (ucast (from_le_bytes (pad4 ?bs) :: u32) # vs))) (group_payload chunk) (ucast v # map ucast chunk)"
    using decodes_map [OF Cons.IH] by (simp add: padded_value)
  ultimately show ?case
    by (simp add: group_payload_def decodes_bnd del: One_nat_def)
qed

lemma group_peek_ok:
  assumes "ok s" and "rest s = group_payload chunk @ r" and "4 * length chunk \<le> length (rest s)" and can_peek
  shows "\<exists>s'. group_peek D (map (\<lambda>v. num_bytes v - 1) chunk) s = (Inr (map ucast chunk), s') \<and> ok s' \<and> rest s' = r"
  using assms(1-3)
proof (induction chunk arbitrary: s)
  case Nil
  then show ?case by (simp add: group_payload_def)
next
  case (Cons v chunk)
  let ?bs = "take (num_bytes v) (to_le_bytes 4 v)"
  have n: "num_bytes v - 1 + 1 = num_bytes v" "num_bytes v - 1 < 4" using num_bytes_bounds [of v] by auto
  have rest: "rest s = ?bs @ group_payload chunk @ r" "length ?bs = num_bytes v"
    using Cons.prems(2) num_bytes_bounds [of v] by (simp_all add: group_payload_def)
  have "from_le_bytes (take 4 (rest s)) AND MASKS ! (num_bytes v - 1) = v"
    using peeked_value [OF _ n(2), of "rest s"] Cons.prems(3) rest n(1) padded_value [of v] by simp
  moreover have "peek_u32_le D s = (Inr (from_le_bytes (take 4 (rest s))), s)"
    using peek_law [OF Cons.prems(1)] Cons.prems(3) \<open>can_peek\<close> by simp
  moreover obtain s1 where s1: "skip D (num_bytes v - 1 + 1) s = (Inr (), s1)" "ok s1" "rest s1 = group_payload chunk @ r"
    using skip_law [of ?bs] Cons.prems(1) rest n(1) unfolding decodes_def by metis
  moreover have "4 * length chunk \<le> length (rest s1)"
    using Cons.prems(3) rest s1(3) num_bytes_bounds [of v] by simp
  ultimately show ?case
    using Cons.IH [of s1] by (force simp del: One_nat_def)
qed

lemma group_ok:
  assumes "length chunk = 4"
  shows "decodes ok rest (read_group D) (group_bytes chunk) (map ucast chunk)"
  unfolding decodes_def
proof (intro allI impI)
  fix s r assume s: "ok s" "rest s = group_bytes chunk @ r"
  obtain v0 v1 v2 v3 where c: "chunk = [v0, v1, v2, v3]"
    using assms by (auto simp: numeral_eq_Suc length_Suc_conv)
  let ?flag = "ucast (group_flag (num_bytes v0) (num_bytes v1) (num_bytes v2) (num_bytes v3)) :: u8"
  have nb: "num_bytes v - 1 < 4" "num_bytes v - 1 + 1 = num_bytes v" for v
    using num_bytes_bounds [of v] by auto
  have lens: "flag_lens ?flag = map (\<lambda>v. num_bytes v - 1) chunk"
    using flag_bits [OF nb(1) nb(1) nb(1) nb(1), of v0 v1 v2 v3] unfolding nb(2) by (simp add: c)
  have bytes: "group_bytes chunk = ?flag # group_payload chunk"
    using group_bytes_eq [OF assms] by (simp add: c)
  obtain s1 where s1: "read_byte D s = (Inr ?flag, s1)" "ok s1" "rest s1 = group_payload chunk @ r"
    using read_byte_law [of ?flag] s unfolding bytes decodes_def by (metis append_Cons append_Nil)
  show "\<exists>s'. read_group D s = (Inr (map ucast chunk), s') \<and> ok s' \<and> rest s' = r"
  proof (cases "can_peek \<and> 16 \<le> length (rest s1)")
    case True
    then show ?thesis
      using group_peek_ok [OF s1(2,3)] s1 assms peek_law [OF s1(2)]
      by (simp add: read_group_def lens remaining_law)
  next
    case False
    have "\<exists>s'. group_exact D (map (\<lambda>v. num_bytes v - 1) chunk) s1 = (Inr (map ucast chunk), s') \<and> ok s' \<and> rest s' = r"
      using group_exact_ok [of chunk] s1(2,3) unfolding decodes_def by blast
    then show ?thesis
      using False s1 peek_law [OF s1(2)] by (auto simp: read_group_def lens remaining_law)
  qed
qed

lemma group_tail:
  fixes vs :: "u32 list"
  assumes "length vs < 4"
  shows "decodes ok rest (group_vints_default D (length vs)) (concat (map (\<lambda>v. encode_varint (ucast v)) vs)) (map ucast vs)"
proof -
  let ?rd = "bnd (read_vint D) (\<lambda>v. ret (ucast v :: u64))"
  have cast: "ucast (ucast v :: u64) = v" for v :: u32
    by (intro bit_word_eqI) (simp add: bit_ucast_iff)
  have "decodes ok rest (read_many ?rd (length (map ucast vs :: u64 list)))
      (concat (map (\<lambda>w. encode_varint (ucast (ucast w :: u32))) (map ucast vs :: u64 list))) (map ucast vs)"
  proof (rule decodes_many)
    fix w :: u64 assume "w \<in> set (map ucast vs)"
    then obtain v :: u32 where w: "w = ucast v" by auto
    show "decodes ok rest ?rd (encode_varint (ucast (ucast w :: u32))) w"
      unfolding w cast by (rule decodes_map [OF vint_ok])
  qed
  then show ?thesis
    using assms by (subst group_vints_default.simps) (simp add: comp_def cast)
qed

lemma group_vints_ok:
  "decodes ok rest (group_vints_default D (length vs)) (group_vints_bytes vs) (map ucast vs)"
proof (induction vs rule: group_vints_bytes.induct)
  case (1 v0 v1 v2 v3 vs)
  have "decodes ok rest (bnd (group_vints_default D (length vs)) (\<lambda>ws. ret (map ucast [v0, v1, v2, v3] @ ws)))
      (group_vints_bytes vs) (map ucast [v0, v1, v2, v3] @ map ucast vs)"
    using 1 by (rule decodes_map)
  then have "decodes ok rest (bnd (read_group D) (\<lambda>g. bnd (group_vints_default D (length vs)) (\<lambda>ws. ret (g @ ws))))
      (group_bytes [v0, v1, v2, v3] @ group_vints_bytes vs) (map ucast [v0, v1, v2, v3] @ map ucast vs)"
    by (intro decodes_bnd [OF group_ok]) simp_all
  then show ?case
    by (subst group_vints_default.simps) simp
qed (use group_tail [of "[]"] group_tail [of "[_]"] group_tail [of "[_, _]"] group_tail [of "[_, _, _]"] in simp_all)

end

section \<open>The slice cursor keeps the promises\<close>

definition slice_ok :: "slice_input \<Rightarrow> bool" where
  "slice_ok s = (pos s \<le> length (sbuf s) \<and> length (sbuf s) \<le> usize_max)"

lemma slice_byte_Some: "pos s < length (sbuf s) \<Longrightarrow> slice_read_byte s = (Inr (sbuf s ! pos s), s\<lparr>pos := pos s + 1\<rparr>)"
  by (simp add: slice_read_byte_def)

lemma view_cons:
  assumes "slice_get (sbuf s) (pos s) (pos s + length (y # ys)) = Some (y # ys)"
  shows "slice_read_byte s = (Inr y, s\<lparr>pos := pos s + 1\<rparr>)"
    and "slice_get (sbuf s) (pos s + 1) (pos s + 1 + length ys) = Some ys"
proof -
  have inb: "pos s + length (y # ys) \<le> length (sbuf s)" "take (length (y # ys)) (drop (pos s) (sbuf s)) = y # ys"
    using assms by (simp_all add: slice_get_def split: if_splits)
  then have lt: "pos s < length (sbuf s)" by simp
  then have "drop (pos s) (sbuf s) = sbuf s ! pos s # drop (pos s + 1) (sbuf s)"
    by (simp add: Cons_nth_drop_Suc)
  with inb have "sbuf s ! pos s = y" "take (length ys) (drop (pos s + 1) (sbuf s)) = ys" by simp_all
  with lt inb(1) show "slice_read_byte s = (Inr y, s\<lparr>pos := pos s + 1\<rparr>)"
    "slice_get (sbuf s) (pos s + 1) (pos s + 1 + length ys) = Some ys"
    by (simp_all add: slice_read_byte_def slice_get_def)
qed

text \<open>What a byte loop does on bytes that are in view: the in-slice decoders agree with it.\<close>

lemma vint_in_view:
  assumes "in_view i v (x # xs) = Some (r, n)" and "i + length xs \<le> 4"
    and "slice_get (sbuf s) (pos s) (pos s + length xs) = Some xs"
  shows "vint_loop slice_read_byte x (v OR push_bit (7 * i) (ucast (x AND 0x7f))) (7 * (i + 1)) s =
    (Inr r, s\<lparr>pos := pos s + (n - (i + 1))\<rparr>) \<and> i + 1 \<le> n"
  using assms
proof (induction xs arbitrary: i v x s)
  case Nil
  then show ?case
    by (subst vint_loop.simps) (auto simp: Let_def continuation_bit less_80_iff split: if_splits)
next
  case (Cons y ys)
  let ?v = "v OR push_bit (7 * i) (ucast (x AND 0x7f))" and ?s = "s\<lparr>pos := pos s + 1\<rparr>"
  show ?case
  proof (cases "x < 0x80")
    case True
    with Cons.prems(1) show ?thesis
      by (subst vint_loop.simps) (auto simp: Let_def continuation_bit less_80_iff)
  next
    case False
    then have IH: "vint_loop slice_read_byte y (?v OR push_bit (7 * (i + 1)) (ucast (y AND 0x7f))) (7 * (i + 1 + 1)) ?s =
        (Inr r, ?s\<lparr>pos := pos ?s + (n - (i + 1 + 1))\<rparr>) \<and> i + 1 + 1 \<le> n"
      using Cons.prems view_cons(2) [OF Cons.prems(3)] by (intro Cons.IH) (auto simp: Let_def)
    have "vint_loop slice_read_byte x ?v (7 * (i + 1)) s =
        vint_loop slice_read_byte y (?v OR push_bit (7 * (i + 1)) (ucast (y AND 0x7f))) (7 * (i + 1 + 1)) ?s"
      using False Cons.prems(2) view_cons(1) [OF Cons.prems(3)]
      by (subst vint_loop.simps) (simp add: continuation_bit less_80_iff add.commute)
    with IH show ?thesis by (auto simp: Suc_diff_Suc)
  qed
qed

lemma vlong_in_view:
  assumes "in_view i v (x # xs) = Some (r, n)" and "i + length xs \<le> 9"
    and "slice_get (sbuf s) (pos s) (pos s + length xs) = Some xs"
  shows "vlong_loop slice_read_byte x (v OR push_bit (7 * i) (ucast (x AND 0x7f))) (7 * (i + 1)) s =
    (Inr r, s\<lparr>pos := pos s + (n - (i + 1))\<rparr>) \<and> i + 1 \<le> n"
  using assms
proof (induction xs arbitrary: i v x s)
  case Nil
  then show ?case
    by (subst vlong_loop.simps) (auto simp: Let_def continuation_bit less_80_iff split: if_splits)
next
  case (Cons y ys)
  let ?v = "v OR push_bit (7 * i) (ucast (x AND 0x7f))" and ?s = "s\<lparr>pos := pos s + 1\<rparr>"
  show ?case
  proof (cases "x < 0x80")
    case True
    with Cons.prems(1) show ?thesis
      by (subst vlong_loop.simps) (auto simp: Let_def continuation_bit less_80_iff)
  next
    case False
    then have IH: "vlong_loop slice_read_byte y (?v OR push_bit (7 * (i + 1)) (ucast (y AND 0x7f))) (7 * (i + 1 + 1)) ?s =
        (Inr r, ?s\<lparr>pos := pos ?s + (n - (i + 1 + 1))\<rparr>) \<and> i + 1 + 1 \<le> n"
      using Cons.prems view_cons(2) [OF Cons.prems(3)] by (intro Cons.IH) (auto simp: Let_def)
    have "vlong_loop slice_read_byte x ?v (7 * (i + 1)) s =
        vlong_loop slice_read_byte y (?v OR push_bit (7 * (i + 1)) (ucast (y AND 0x7f))) (7 * (i + 1 + 1)) ?s"
      using False Cons.prems(2) view_cons(1) [OF Cons.prems(3)]
      by (subst vlong_loop.simps) (simp add: continuation_bit less_80_iff add.commute)
    with IH show ?thesis by (auto simp: Suc_diff_Suc)
  qed
qed

lemma zlong_in_view:
  assumes "in_view i v xs = Some (r, n)" and "i + length xs \<le> 10"
    and "slice_get (sbuf s) (pos s) (pos s + length xs) = Some xs"
  shows "zlong_loop slice_read_byte v (7 * i) s = (Inr r, s\<lparr>pos := pos s + (n - i)\<rparr>) \<and> i + 1 \<le> n"
  using assms
proof (induction xs arbitrary: i v s)
  case (Cons x xs)
  note byte = view_cons [OF Cons.prems(3)]
  let ?v = "v OR push_bit (7 * i) (ucast (x AND 0x7f))" and ?s = "s\<lparr>pos := pos s + 1\<rparr>"
  show ?case
  proof (cases "x < 0x80")
    case True
    with Cons.prems(1) byte(1) show ?thesis
      by (subst zlong_loop.simps) (auto simp: Let_def continuation_bit [THEN arg_cong [of _ _ Not], simplified] less_80_iff)
  next
    case False
    with Cons.prems(1) have view: "in_view (i + 1) ?v xs = Some (r, n)" by (simp add: Let_def)
    then have "xs \<noteq> []" by auto
    then have "\<not> 70 \<le> 7 * i + 7" using Cons.prems(2) by (cases xs) auto
    with False byte(1) have "zlong_loop slice_read_byte v (7 * i) s = zlong_loop slice_read_byte ?v (7 * (i + 1)) ?s"
      by (subst zlong_loop.simps)
         (simp add: Let_def continuation_bit [THEN arg_cong [of _ _ Not], simplified] less_80_iff add.commute)
    moreover have "zlong_loop slice_read_byte ?v (7 * (i + 1)) ?s = (Inr r, ?s\<lparr>pos := pos ?s + (n - (i + 1))\<rparr>) \<and> i + 1 + 1 \<le> n"
      using Cons.prems view byte(2) by (intro Cons.IH) auto
    ultimately show ?thesis by (auto simp: Suc_diff_Suc)
  qed
qed simp

lemma in_view_first:
  assumes "in_view 0 0 b = Some (r, n)" and "slice_get (sbuf s) (pos s) (pos s + length b) = Some b" and "length b = Suc m"
  obtains x xs where "b = x # xs" "length xs = m" "slice_read_byte s = (Inr x, s\<lparr>pos := pos s + 1\<rparr>)"
    "slice_get (sbuf s) (pos s + 1) (pos s + 1 + length xs) = Some xs"
  using assms view_cons [of s] by (cases b) auto

lemma slice_read_vint_eq: "slice_read_vint s = read_vint_loop slice_read_byte s"
proof (cases "slice_get (sbuf s) (pos s) (pos s + 5)")
  case (Some b)
  then have len: "length b = 5" by auto
  show ?thesis
  proof (cases "in_view 0 0 b :: (i32 \<times> nat) option")
    case (Some rn)
    obtain r :: i32 and n where rn: "in_view 0 0 b = Some (r, n)" using Some by (cases rn) auto
    obtain x xs where b: "b = x # xs" "length xs = 4" and rb: "slice_read_byte s = (Inr x, s\<lparr>pos := pos s + 1\<rparr>)"
      and view: "slice_get (sbuf s) (pos s + 1) (pos s + 1 + length xs) = Some xs"
      using in_view_first [OF rn, of s 4] \<open>slice_get _ _ _ = Some b\<close> len by auto
    have "vint_loop slice_read_byte x (0 OR push_bit (7 * 0) (ucast (x AND 0x7f))) (7 * (0 + 1)) (s\<lparr>pos := pos s + 1\<rparr>) =
        (Inr r, s\<lparr>pos := pos s + 1\<rparr>\<lparr>pos := pos (s\<lparr>pos := pos s + 1\<rparr>) + (n - (0 + 1))\<rparr>) \<and> 0 + 1 \<le> n"
      using rn b view by (intro vint_in_view) auto
    then show ?thesis
      using rn rb \<open>slice_get _ _ _ = Some b\<close> by (simp add: slice_read_vint_def read_vint_loop_def)
  qed (simp add: slice_read_vint_def Some)
qed (simp add: slice_read_vint_def)

lemma slice_read_vlong_eq: "slice_read_vlong s = read_vlong_loop slice_read_byte s"
proof (cases "slice_get (sbuf s) (pos s) (pos s + 10)")
  case (Some b)
  then have len: "length b = 10" by auto
  show ?thesis
  proof (cases "in_view 0 0 b :: (i64 \<times> nat) option")
    case (Some rn)
    obtain r :: i64 and n where rn: "in_view 0 0 b = Some (r, n)" using Some by (cases rn) auto
    obtain x xs where b: "b = x # xs" "length xs = 9" and rb: "slice_read_byte s = (Inr x, s\<lparr>pos := pos s + 1\<rparr>)"
      and view: "slice_get (sbuf s) (pos s + 1) (pos s + 1 + length xs) = Some xs"
      using in_view_first [OF rn, of s 9] \<open>slice_get _ _ _ = Some b\<close> len by auto
    have "vlong_loop slice_read_byte x (0 OR push_bit (7 * 0) (ucast (x AND 0x7f))) (7 * (0 + 1)) (s\<lparr>pos := pos s + 1\<rparr>) =
        (Inr r, s\<lparr>pos := pos s + 1\<rparr>\<lparr>pos := pos (s\<lparr>pos := pos s + 1\<rparr>) + (n - (0 + 1))\<rparr>) \<and> 0 + 1 \<le> n"
      using rn b view by (intro vlong_in_view) auto
    then show ?thesis
      using rn rb \<open>slice_get _ _ _ = Some b\<close> by (simp add: slice_read_vlong_def read_vlong_loop_def)
  qed (simp add: slice_read_vlong_def Some)
qed (simp add: slice_read_vlong_def)

lemma slice_read_zlong_eq: "slice_read_zlong s = read_zlong_loop slice_read_byte s"
proof (cases "slice_get (sbuf s) (pos s) (pos s + 10)")
  case (Some b)
  show ?thesis
  proof (cases "in_view 0 0 b :: (u64 \<times> nat) option")
    case (Some rn)
    obtain r :: u64 and n where rn: "in_view 0 0 b = Some (r, n)" using Some by (cases rn) auto
    have "length b = 10" using \<open>slice_get _ _ _ = Some b\<close> by auto
    then have "zlong_loop slice_read_byte 0 (7 * 0) s = (Inr r, s\<lparr>pos := pos s + (n - 0)\<rparr>) \<and> 0 + 1 \<le> n"
      using rn \<open>slice_get _ _ _ = Some b\<close> by (intro zlong_in_view) auto
    then show ?thesis
      using rn \<open>slice_get _ _ _ = Some b\<close> by (simp add: slice_read_zlong_def read_zlong_loop_def)
  qed (simp add: slice_read_zlong_def Some)
qed (simp add: slice_read_zlong_def)

lemma slice_advance:
  assumes "slice_ok s" and "as_slice s = bs @ r"
  defines "s' \<equiv> s\<lparr>pos := pos s + length bs\<rparr>"
  shows "pos s + length bs \<le> length (sbuf s)" and "slice_ok s'" and "as_slice s' = r"
    and "take (length bs) (drop (pos s) (sbuf s)) = bs"
proof -
  have "length (sbuf s) - pos s = length bs + length r"
    by (metis as_slice_def assms(2) length_append length_drop)
  with assms(1) show fits: "pos s + length bs \<le> length (sbuf s)" by (auto simp: slice_ok_def)
  with assms(1) show "slice_ok s'" by (simp add: slice_ok_def s'_def)
  have "drop (pos s + length bs) (sbuf s) = drop (length bs) (bs @ r)"
    using assms(2) by (metis add.commute as_slice_def drop_drop)
  then show "as_slice s' = r" by (simp add: as_slice_def s'_def)
  show "take (length bs) (drop (pos s) (sbuf s)) = bs" using assms(2) by (simp add: as_slice_def)
qed

interpretation slice: data_input_source slice_impl as_slice slice_ok pos True
proof unfold_locales
  fix s :: slice_input and b :: u8 and bs :: "u8 list"
  show "decodes slice_ok as_slice (read_byte slice_impl) [b] b"
    unfolding decodes_def
  proof (intro allI impI)
    fix s r assume s: "slice_ok s" "as_slice s = [b] @ r"
    note adv = slice_advance [OF s]
    have "sbuf s ! pos s = b" using s(2) by (simp add: as_slice_def nth_via_drop)
    then show "\<exists>s'. read_byte slice_impl s = (Inr b, s') \<and> slice_ok s' \<and> as_slice s' = r"
      using adv by (auto simp: slice_impl_def slice_read_byte_def)
  qed
  show "decodes slice_ok as_slice (read_bytes slice_impl (length bs)) bs bs"
    unfolding decodes_def
  proof (intro allI impI)
    fix s r assume s: "slice_ok s" "as_slice s = bs @ r"
    note adv = slice_advance [OF s]
    then show "\<exists>s'. read_bytes slice_impl (length bs) s = (Inr bs, s') \<and> slice_ok s' \<and> as_slice s' = r"
      using s(1) by (auto simp: slice_impl_def slice_read_bytes_def checked_add_def slice_get_def slice_ok_def)
  qed
  show "decodes slice_ok as_slice (skip slice_impl (length bs)) bs ()"
    unfolding decodes_def
  proof (intro allI impI)
    fix s r assume s: "slice_ok s" "as_slice s = bs @ r"
    note adv = slice_advance [OF s]
    then show "\<exists>s'. skip slice_impl (length bs) s = (Inr (), s') \<and> slice_ok s' \<and> as_slice s' = r"
      by (auto simp: slice_impl_def slice_skip_def slice_remaining_def)
  qed
  assume ok: "slice_ok s"
  show "remaining slice_impl s = length (as_slice s)"
    by (simp add: slice_impl_def slice_remaining_def as_slice_def)
  show "read_vint slice_impl s = read_vint_loop (read_byte slice_impl) s"
    by (simp add: slice_impl_def slice_read_vint_eq)
  show "peek_u32_le slice_impl s = (if True \<and> 4 \<le> length (as_slice s) then Inr (from_le_bytes (take 4 (as_slice s))) else Inl (Eof (pos s)), s)"
    using ok by (auto simp: slice_impl_def slice_peek_u32_le_def slice_get_def as_slice_def slice_ok_def eof_def)
  assume "as_slice s = []"
  then show "read_byte slice_impl s = (Inl (Eof (pos s)), s)"
    by (simp add: slice_impl_def slice_read_byte_def as_slice_def eof_def)
qed

section \<open>The cursor stays inside its buffer\<close>

definition keeps :: "('s \<Rightarrow> bool) \<Rightarrow> ('s, 'e, 'a) fallible \<Rightarrow> bool" where
  "keeps ok P \<longleftrightarrow> (\<forall>s r s'. ok s \<longrightarrow> P s = (r, s') \<longrightarrow> ok s')"

lemma keepsD: "keeps ok P \<Longrightarrow> ok s \<Longrightarrow> P s = (r, s') \<Longrightarrow> ok s'"
  by (simp add: keeps_def)

lemma keeps_ret [simp, intro]: "keeps ok (ret v)" and keeps_fail [simp, intro]: "keeps ok (fail e)"
  by (simp_all add: keeps_def)

lemma keeps_bnd [intro]: "keeps ok P \<Longrightarrow> (\<And>a. keeps ok (f a)) \<Longrightarrow> keeps ok (bnd P f)"
  unfolding keeps_def
proof (intro allI impI)
  fix s r s'
  assume P: "\<forall>s r s'. ok s \<longrightarrow> P s = (r, s') \<longrightarrow> ok s'"
    and f: "\<And>a. \<forall>s r s'. ok s \<longrightarrow> f a s = (r, s') \<longrightarrow> ok s'"
    and s: "ok s" "bnd P f s = (r, s')"
  obtain r1 s1 where r1: "P s = (r1, s1)" by fastforce
  then have "ok s1" using P s(1) by blast
  then show "ok s'" using r1 s(2) f by (cases r1) auto
qed

lemma keeps_many: "keeps ok P \<Longrightarrow> keeps ok (read_many P n)"
  by (induction n) auto

lemma keeps_vint_loop: "keeps ok rb \<Longrightarrow> keeps ok (vint_loop rb b v shift)"
proof (induction rb b v shift rule: vint_loop.induct)
  case (1 rb b v shift)
  then show ?case by (subst vint_loop.simps) (cases "28 < shift"; auto intro!: keeps_bnd)
qed

lemma keeps_vlong_loop: "keeps ok rb \<Longrightarrow> keeps ok (vlong_loop rb b v shift)"
proof (induction rb b v shift rule: vlong_loop.induct)
  case (1 rb b v shift)
  then show ?case by (subst vlong_loop.simps) (cases "64 \<le> shift"; auto intro!: keeps_bnd)
qed

lemma keeps_zlong_loop: "keeps ok rb \<Longrightarrow> keeps ok (zlong_loop rb v shift)"
proof (induction rb v shift rule: zlong_loop.induct)
  case (1 rb v shift)
  then show ?case by (subst zlong_loop.simps) (auto simp: Let_def intro!: keeps_bnd)
qed

lemma keeps_slice_core:
  "keeps slice_ok slice_read_byte" "keeps slice_ok (slice_read_bytes n)"
  "keeps slice_ok slice_peek_u32_le" "keeps slice_ok (slice_skip n)"
  "keeps slice_ok (slice_read_fixed n)" "keeps slice_ok (slice_seek n)"
  by (auto simp: keeps_def slice_ok_def slice_read_byte_def slice_read_bytes_def slice_peek_u32_le_def
      slice_skip_def slice_remaining_def slice_read_fixed_def slice_seek_def slice_get_def checked_add_def
      split: if_splits option.splits)

lemma keeps_slice_varints:
  "keeps slice_ok slice_read_vint" "keeps slice_ok slice_read_vlong" "keeps slice_ok slice_read_zlong"
proof -
  have "slice_read_vint = read_vint_loop slice_read_byte" "slice_read_vlong = read_vlong_loop slice_read_byte"
    "slice_read_zlong = read_zlong_loop slice_read_byte"
    by (auto simp: slice_read_vint_eq slice_read_vlong_eq slice_read_zlong_eq)
  note eqs = this [unfolded read_vint_loop_def read_vlong_loop_def read_zlong_loop_def]
  note intros = keeps_bnd keeps_vint_loop keeps_vlong_loop keeps_zlong_loop keeps_ret keeps_slice_core(1)
  show "keeps slice_ok slice_read_vint" unfolding eqs by (intro intros)
  show "keeps slice_ok slice_read_vlong" unfolding eqs by (intro intros)
  show "keeps slice_ok slice_read_zlong" unfolding eqs by (intro intros)
qed

section \<open>Fast paths of the slice cursor\<close>

lemma slice_read_fixed_eq:
  assumes "slice_ok s"
  shows "slice_read_fixed n s = bnd (slice_read_bytes n) (\<lambda>b. ret (from_le_bytes b)) s"
  using assms by (auto simp: slice_read_fixed_def slice_read_bytes_def bnd_def slice_get_def checked_add_def slice_ok_def
      split: option.splits)

lemma slice_read_string_eq:
  assumes "slice_ok s"
  shows "slice_read_string s = read_string_default slice_impl s"
proof -
  obtain r s1 where rl: "read_length slice_impl ''string'' s = (r, s1)" by fastforce
  show ?thesis
  proof (cases r)
    case (Inl e)
    then show ?thesis using rl by (simp add: slice_read_string_def read_string_default_def)
  next
    case (Inr len)
    obtain v where v: "slice_read_vint s = (Inr v, s1)" "len \<le> slice_remaining s1"
      using rl Inr by (auto simp: read_length_def bnd_def slice_impl_def Let_def split: prod.splits sum.splits if_splits)
    then have "slice_ok s1" using keepsD [OF keeps_slice_varints(1) assms] by simp
    with v(2) have fits: "pos s1 + len \<le> length (sbuf s1)" "length (sbuf s1) \<le> usize_max"
      by (auto simp: slice_ok_def slice_remaining_def)
    then show ?thesis
      using rl Inr by (auto simp: slice_read_string_def read_string_default_def slice_impl_def slice_read_bytes_def
          checked_add_def slice_get_def Let_def bnd_def)
  qed
qed

lemma read_many_words:
  assumes "slice_ok s" and "pos s + n * w \<le> length (sbuf s)"
  shows "read_many (slice_read_fixed w :: (slice_input, 'a::len word) stateful) n s = (Inr (map from_le_bytes (chunks w n (drop (pos s) (sbuf s)))), s\<lparr>pos := pos s + n * w\<rparr>)"
  using assms
proof (induction n arbitrary: s)
  case (Suc n)
  let ?s = "s\<lparr>pos := pos s + w\<rparr>"
  have "(slice_read_fixed w :: (slice_input, 'a word) stateful) s = (Inr (from_le_bytes (take w (drop (pos s) (sbuf s)))), ?s)"
    using Suc.prems by (simp add: slice_read_fixed_def slice_get_def)
  moreover have "slice_ok ?s" "pos ?s + n * w \<le> length (sbuf ?s)" using Suc.prems by (auto simp: slice_ok_def)
  ultimately show ?case
    using Suc.IH [of ?s] by (simp add: add.commute add.left_commute)
qed simp

lemma chunks_take: "chunks w n (take (n * w + k) bs) = chunks w n bs"
  by (induction n arbitrary: bs k) (simp_all add: min_def drop_take add.assoc)

lemma slice_read_words_eq:
  assumes "slice_ok s"
  shows "(slice_read_words w n :: (slice_input, 'a::len word list) stateful) s =
    (if pos s + n * w \<le> length (sbuf s) then read_many (slice_read_fixed w) n s else (Inl (Eof (pos s)), s))"
proof (cases "pos s + n * w \<le> length (sbuf s)")
  case True
  then show ?thesis
    using read_many_words [OF assms True, where 'a = 'a] assms chunks_take [of w n 0]
    by (simp add: slice_read_words_def slice_get_def slice_ok_def)
next
  case False
  then show ?thesis by (simp add: slice_read_words_def slice_get_def eof_def)
qed

text \<open>One word at a time, a truncated run fails at the first word that is not whole, behind the words before it.\<close>

lemma read_many_fixed_cut:
  assumes "slice_ok s" and "0 < w" and "length (sbuf s) < pos s + n * w"
  defines "stop \<equiv> pos s + (length (sbuf s) - pos s) div w * w"
  shows "(read_many (slice_read_fixed w) n :: (slice_input, 'a::len word list) stateful) s = (Inl (Eof stop), s\<lparr>pos := stop\<rparr>)"
  using assms(1,3) unfolding stop_def
proof (induction n arbitrary: s)
  case (Suc n)
  show ?case
  proof (cases "pos s + w \<le> length (sbuf s)")
    case True
    let ?s = "s\<lparr>pos := pos s + w\<rparr>"
    have "length (sbuf s) - pos s = length (sbuf s) - (pos s + w) + w" using True by simp
    then have "(length (sbuf s) - pos s) div w = (length (sbuf s) - (pos s + w)) div w + 1" using assms(2) by (metis div_add_self2 less_not_refl2)
    moreover have "slice_ok ?s" using True Suc.prems(1) by (simp add: slice_ok_def)
    ultimately show ?thesis
      using Suc.IH [of ?s] Suc.prems(2) True by (simp add: slice_read_fixed_def slice_get_def bnd_def algebra_simps)
  next
    case False
    then have "(length (sbuf s) - pos s) div w = 0" by (intro div_less) (use assms(2) in linarith)
    then show ?thesis using False by (simp add: slice_read_fixed_def slice_get_def eof_def bnd_def)
  qed
qed (simp add: slice_ok_def)

subsection \<open>Group varints off the slice\<close>

lemma flag_lens_bits: "flag_lens flag = map (\<lambda>j. unat (drop_bit (6 - 2 * j) flag AND 3)) [0, 1, 2, 3]"
proof -
  have "(3 :: u8) = mask 2" by (simp add: mask_eq_exp_minus_1)
  then have "unat (drop_bit k flag AND 3) = unat flag div 2 ^ k mod 4" for k
    by (simp only: take_bit_eq_mask [symmetric] unsigned_take_bit_eq unat_drop_bit_eq)
       (simp add: take_bit_eq_mod drop_bit_eq_div [of k "unat flag"])
  then show ?thesis by (simp add: flag_lens_def Let_def)
qed

lemma flag_lens_less: "l \<in> set (flag_lens flag) \<Longrightarrow> l < 4"
  by (auto simp: flag_lens_def Let_def)

lemma length_flag_lens [simp]: "length (flag_lens flag) = 4"
  by (simp add: flag_lens_def Let_def)

lemma tail_values_drop: "tail_values bs (at + k) ns = tail_values (drop k bs) at ns"
proof (induction ns arbitrary: "at")
  case (Cons n ns)
  have "at + k + n = at + n + k" by simp
  then have "tail_values bs (at + k + n) ns = tail_values (drop k bs) (at + n) ns" using Cons.IH [of "at + n"] by metis
  then show ?case by (simp add: add.commute)
qed simp

lemma tail_values_take: "at + sum_list ns \<le> k \<Longrightarrow> tail_values (take k bs) at ns = tail_values bs at ns"
  by (induction ns arbitrary: "at") (auto simp: drop_take min_def)

abbreviation "advance s n \<equiv> s\<lparr>pos := pos s + n\<rparr>"

lemma slice_take:
  assumes "slice_ok s" and "n \<le> length (as_slice s)"
  shows "pos s + n \<le> length (sbuf s)" and "slice_ok (advance s n)" and "as_slice (advance s n) = drop n (as_slice s)"
  using assms by (auto simp: slice_ok_def as_slice_def add.commute)

lemma slice_bytes_eq:
  assumes "slice_ok s" and "n \<le> length (as_slice s)"
  shows "read_bytes slice_impl n s = (Inr (take n (as_slice s)), advance s n)"
  using slice_take [OF assms] assms(1)
  by (simp add: slice_impl_def slice_read_bytes_def checked_add_def slice_get_def as_slice_def slice_ok_def)

lemma group_exact_slice:
  assumes "slice_ok s" and "sum_list (map (\<lambda>l. l + 1) ls) \<le> length (as_slice s)"
  shows "group_exact slice_impl ls s =
    (Inr (map ucast (tail_values (as_slice s) 0 (map (\<lambda>l. l + 1) ls))), advance s (sum_list (map (\<lambda>l. l + 1) ls)))"
  using assms
proof (induction ls arbitrary: s)
  case (Cons l ls)
  have n: "l + 1 \<le> length (as_slice s)" using Cons.prems by simp
  note adv = slice_take [OF Cons.prems(1) n]
  have "group_exact slice_impl ls (advance s (l + 1)) =
      (Inr (map ucast (tail_values (drop (l + 1) (as_slice s)) 0 (map (\<lambda>l. l + 1) ls))),
       advance (advance s (l + 1)) (sum_list (map (\<lambda>l. l + 1) ls)))"
    unfolding adv(3) [symmetric] using Cons.prems adv by (intro Cons.IH) (simp_all add: adv(3))
  then show ?case
    using slice_bytes_eq [OF Cons.prems(1) n] tail_values_drop [of "as_slice s" 0 "l + 1" "map (\<lambda>l. l + 1) ls"]
    by (simp add: add.assoc)
qed simp

lemma group_peek_slice:
  assumes "slice_ok s" and "4 * length ls \<le> length (as_slice s)" and "\<And>l. l \<in> set ls \<Longrightarrow> l < 4"
  shows "group_peek slice_impl ls s =
    (Inr (map ucast (tail_values (as_slice s) 0 (map (\<lambda>l. l + 1) ls))), advance s (sum_list (map (\<lambda>l. l + 1) ls)))"
  using assms
proof (induction ls arbitrary: s)
  case (Cons l ls)
  have l: "l < 4" using Cons.prems(3) by simp
  have n: "l + 1 \<le> length (as_slice s)" "4 \<le> length (as_slice s)" using Cons.prems(2) l by simp_all
  note adv = slice_take [OF Cons.prems(1) n(1)]
  have "group_peek slice_impl ls (advance s (l + 1)) =
      (Inr (map ucast (tail_values (drop (l + 1) (as_slice s)) 0 (map (\<lambda>l. l + 1) ls))),
       advance (advance s (l + 1)) (sum_list (map (\<lambda>l. l + 1) ls)))"
    unfolding adv(3) [symmetric]
  proof (rule Cons.IH [OF adv(2)])
    have "4 * length ls \<le> m - (l + 1)" if "4 + 4 * length ls \<le> m" for m using that l by linarith
    then show "4 * length ls \<le> length (as_slice (advance s (l + 1)))" using Cons.prems(2) unfolding adv(3) by simp
  qed (use Cons.prems(3) in auto)
  moreover have "peek_u32_le slice_impl s = (Inr (from_le_bytes (take 4 (as_slice s))), s)"
    using slice.peek_law [OF Cons.prems(1)] n(2) by simp
  moreover have "skip slice_impl (l + 1) s = (Inr (), advance s (l + 1))"
    using adv(1) by (simp add: slice_impl_def slice_skip_def slice_remaining_def)
  ultimately show ?case
    using peeked_value [OF n(2) l] tail_values_drop [of "as_slice s" 0 "l + 1" "map (\<lambda>l. l + 1) ls"]
    by (simp add: add.assoc)
qed simp

text \<open>One whole group whose bytes are all there, whichever way the default decoder reads it.\<close>

lemma read_group_slice:
  assumes "slice_ok s" and "as_slice s = flag # r" and "sum_list (map (\<lambda>l. l + 1) (flag_lens flag)) \<le> length r"
  shows "read_group slice_impl s =
    (Inr (map ucast (tail_values r 0 (map (\<lambda>l. l + 1) (flag_lens flag)))),
     advance s (1 + sum_list (map (\<lambda>l. l + 1) (flag_lens flag))))"
proof -
  let ?s = "advance s 1" and ?ls = "flag_lens flag"
  have one: "1 \<le> length (as_slice s)" using assms(2) by simp
  note adv = slice_take [OF assms(1) one]
  have r: "as_slice ?s = r" using adv(3) assms(2) by simp
  have "read_byte slice_impl s = (Inr flag, ?s)"
  proof -
    have "sbuf s ! pos s = flag" using assms(2) by (simp add: as_slice_def nth_via_drop)
    then show ?thesis using adv(1) by (simp add: slice_impl_def slice_read_byte_def)
  qed
  moreover have "group_exact slice_impl ?ls ?s =
      (Inr (map ucast (tail_values r 0 (map (\<lambda>l. l + 1) ?ls))), advance ?s (sum_list (map (\<lambda>l. l + 1) ?ls)))"
    using group_exact_slice [OF adv(2), of ?ls] assms(3) unfolding r by simp
  moreover have "group_peek slice_impl ?ls ?s =
      (Inr (map ucast (tail_values r 0 (map (\<lambda>l. l + 1) ?ls))), advance ?s (sum_list (map (\<lambda>l. l + 1) ?ls)))"
    if "16 \<le> length r"
    using group_peek_slice [OF adv(2), of ?ls] that flag_lens_less unfolding r by simp
  moreover have "remaining slice_impl ?s = length r" using slice.remaining_law [OF adv(2)] r by simp
  moreover have "peek_u32_le slice_impl ?s = (Inr (from_le_bytes (take 4 r)), ?s)" if "16 \<le> length r"
    using slice.peek_law [OF adv(2)] that r by simp
  ultimately show ?thesis
    by (auto simp: read_group_def Let_def split: prod.splits)
qed

lemma group_view_eq:
  assumes "at + 4 * length js \<le> length bytes"
  shows "group_view flag bytes at js =
    (let ns = map (\<lambda>j. unat (drop_bit (6 - 2 * j) flag AND 3) + 1) js in (tail_values bytes at ns, at + sum_list ns))"
  using assms
proof (induction js arbitrary: "at")
  case (Cons j js)
  let ?n = "unat (drop_bit (6 - 2 * j) flag AND 3)"
  have n: "?n < 4"
    by (rule le_less_trans [OF word_le_nat_alt [THEN iffD1, OF word_and_le1]]) simp
  have "from_le_bytes (take 4 (drop at bytes)) AND MASKS ! ?n = (from_le_bytes (pad4 (take (?n + 1) (drop at bytes))) :: u32)"
    using Cons.prems n by (intro peeked_value) auto
  moreover have "at + ?n + 1 + 4 * length js \<le> length bytes" using Cons.prems n by simp
  ultimately show ?case
    using Cons.IH [of "at + ?n + 1"] by (simp add: Let_def add.assoc)
qed simp

lemma group_vints_default_step:
  "4 \<le> limit \<Longrightarrow> read_group D s = (Inr g, s') \<Longrightarrow>
   group_vints_default D limit s = bnd (group_vints_default D (limit - 4)) (\<lambda>vs. ret (g @ vs)) s'"
  by (subst group_vints_default.simps) simp

lemma ret_Pair: "ret a = Pair (Inr a)"
  by (rule ext) simp

lemma bnd_step:
  "P s = bnd Q (\<lambda>ws. ret (f ws)) t \<Longrightarrow> bnd P (\<lambda>vs. ret (h vs)) s = bnd Q (\<lambda>ws. ret (h (f ws))) t"
  by (simp add: bnd_def split: prod.splits sum.splits)

lemma groups_in_view_eq:
  assumes "slice_ok s" and "groups_in_view limit s = (vs, left, s')"
  shows "group_vints_default slice_impl limit s = bnd (group_vints_default slice_impl left) (\<lambda>ws. ret (map ucast vs @ ws)) s'
    \<and> slice_ok s' \<and> left \<le> limit"
  using assms
proof (induction limit arbitrary: s vs left s' rule: less_induct)
  case (less limit)
  note gv = groups_in_view.simps [of limit s]
  have stop: ?case if "groups_in_view limit s = ([], limit, s)"
    using that less.prems by (auto simp: bnd_def split: prod.splits sum.splits)
  show ?case
  proof (cases "4 \<le> limit \<and> pos s + 17 \<le> length (sbuf s)")
    case False
    then show ?thesis using gv by (intro stop) (auto simp: slice_get_def)
  next
    case True
    let ?bytes = "take 17 (drop (pos s) (sbuf s))"
    let ?flag = "sbuf s ! pos s"
    let ?ns = "map (\<lambda>l. l + 1) (flag_lens ?flag)"
    have get: "slice_get (sbuf s) (pos s) (pos s + 17) = Some ?bytes" using True by (simp add: slice_get_def)
    have as: "as_slice s = ?flag # drop (pos s + 1) (sbuf s)"
      using True by (simp add: as_slice_def Cons_nth_drop_Suc)
    have b0: "?bytes = ?flag # take 16 (drop (pos s + 1) (sbuf s))"
      using as by (simp add: as_slice_def numeral_eq_Suc)
    have "?bytes ! 0 = ?flag" using b0 by simp
    have sum: "sum_list ?ns \<le> 16"
    proof -
      have "sum_list ?ns \<le> sum_list (map (\<lambda>_. 4) (flag_lens ?flag))"
        unfolding map_map [symmetric] by (rule sum_list_mono) (use flag_lens_less in force)
      then show ?thesis by (simp add: sum_list_triv)
    qed
    have view: "group_view ?flag ?bytes 1 [0, 1, 2, 3] = (tail_values (drop (pos s + 1) (sbuf s)) 0 ?ns, 1 + sum_list ?ns)"
    proof -
      have "group_view ?flag ?bytes 1 [0, 1, 2, 3] = (tail_values ?bytes 1 ?ns, 1 + sum_list ?ns)"
      proof (subst group_view_eq)
        have "17 \<le> length (drop (pos s) (sbuf s))" using True by auto
        then have "length ?bytes = 17" by simp
        then show "1 + 4 * length [0, 1, 2, 3 :: nat] \<le> length ?bytes" by simp
      qed (simp add: flag_lens_bits Let_def)
      moreover have "tail_values ?bytes (0 + 1) ?ns = tail_values (take 16 (drop (pos s + 1) (sbuf s))) 0 ?ns"
        unfolding tail_values_drop b0 by simp
      ultimately show ?thesis using sum by (simp add: tail_values_take)
    qed
    have rd: "read_group slice_impl s =
        (Inr (map ucast (tail_values (drop (pos s + 1) (sbuf s)) 0 ?ns)), advance s (1 + sum_list ?ns))"
      using less.prems(1) as sum True by (intro read_group_slice) auto
    have ok: "slice_ok (advance s (1 + sum_list ?ns))"
      using less.prems(1) sum True by (auto simp: slice_ok_def)
    obtain vs1 left1 s1 where rec: "groups_in_view (limit - 4) (advance s (1 + sum_list ?ns)) = (vs1, left1, s1)"
      by (metis prod_cases3)
    have "groups_in_view limit s = (tail_values (drop (pos s + 1) (sbuf s)) 0 ?ns @ vs1, left1, s1)"
      using gv True get view rec \<open>?bytes ! 0 = ?flag\<close> by (simp add: Let_def del: group_view.simps)
    moreover have "group_vints_default slice_impl (limit - 4) (advance s (1 + sum_list ?ns)) =
        bnd (group_vints_default slice_impl left1) (\<lambda>ws. ret (map ucast vs1 @ ws)) s1 \<and> slice_ok s1 \<and> left1 \<le> limit - 4"
      using True ok rec by (intro less.IH) auto
    moreover from calculation have "group_vints_default slice_impl limit s =
        bnd (group_vints_default slice_impl left1)
          (\<lambda>ws. ret (map ucast (tail_values (drop (pos s + 1) (sbuf s)) 0 ?ns) @ map ucast vs1 @ ws)) s1"
      using True unfolding group_vints_default_step [OF conjunct1 [OF True] rd] by (intro bnd_step) blast
    ultimately show ?thesis using less.prems(2) by (auto simp: ret_Pair)
  qed
qed

lemma slice_read_group_vints_eq:
  assumes "slice_ok s"
  shows "slice_read_group_vints limit s = group_vints_default slice_impl limit s"
proof -
  obtain vs left s' where g: "groups_in_view limit s = (vs, left, s')" by (metis prod_cases3)
  show ?thesis using groups_in_view_eq [OF assms g] by (simp add: slice_read_group_vints_def g)
qed

lemma ucast_back: "ucast (ucast v :: u64) = v" for v :: u32
  by (intro bit_word_eqI) (simp add: bit_ucast_iff)

lemma default_chunks_eq:
  "default_chunks left s = bnd (group_vints_default slice_impl left) (\<lambda>ws. ret (map ucast ws)) s"
proof (induction left arbitrary: s rule: less_induct)
  case (less left)
  consider "left = 0" | "0 < left" "left < 4" | "4 \<le> left" by linarith
  then show ?case
  proof cases
    case 1
    then show ?thesis by (simp add: default_chunks.simps group_vints_default.simps)
  next
    case 2
    then show ?thesis
      by (subst default_chunks.simps) (simp add: default_chunks.simps [of 0] bnd_def split: prod.splits sum.splits)
  next
    case 3
    have four: "group_vints_default slice_impl 4 s = read_group slice_impl s" for s
      by (subst group_vints_default.simps)
         (simp add: group_vints_default.simps [of _ 0] bnd_def split: prod.splits sum.splits)
    obtain g s1 where g: "read_group slice_impl s = (g, s1)" by fastforce
    show ?thesis
    proof (cases g)
      case (Inl e)
      then show ?thesis
        using 3 g four [of s]
        by (subst default_chunks.simps, subst group_vints_default.simps) (simp add: bnd_def)
    next
      case (Inr vs)
      have "default_chunks left s = bnd (default_chunks (left - 4)) (\<lambda>ws. ret (map ucast vs @ ws)) s1"
        using 3 g four [of s] Inr by (subst default_chunks.simps) simp
      also have "\<dots> = bnd (group_vints_default slice_impl (left - 4)) (\<lambda>ws. ret (map ucast vs @ map ucast ws)) s1"
        by (rule bnd_step) (use less.IH [of "left - 4" s1] 3 in \<open>simp add: ret_Pair\<close>)
      also have "\<dots> = bnd (group_vints_default slice_impl left) (\<lambda>ws. ret (map ucast ws)) s"
        using group_vints_default_step [OF 3 g [unfolded Inr]]
        by (auto simp: bnd_def split: prod.splits sum.splits)
      finally show ?thesis .
    qed
  qed
qed

lemma tail_groups_eq:
  assumes "slice_ok s" and "tail_groups limit s = (vs, left, s')"
  shows "group_vints_default slice_impl limit s = bnd (group_vints_default slice_impl left) (\<lambda>ws. ret (map ucast vs @ ws)) s'"
  using assms
proof (induction limit arbitrary: s vs left s' rule: less_induct)
  case (less limit)
  let ?flag = "sbuf s ! pos s"
  let ?ns = "map (\<lambda>l. l + 1) (flag_lens ?flag)"
  let ?need = "1 + sum_list ?ns"
  note tg = tail_groups.simps [of limit s]
  have stop: ?case if "tail_groups limit s = ([], limit, s)"
    using that less.prems by (auto simp: bnd_def split: prod.splits sum.splits)
  show ?case
  proof (cases "4 \<le> limit \<and> pos s < length (sbuf s) \<and> pos s + ?need \<le> length (sbuf s)")
    case False
    then show ?thesis using tg by (intro stop) (auto simp: slice_get_def Let_def)
  next
    case True
    let ?bytes = "take ?need (drop (pos s) (sbuf s))"
    have get: "slice_get (sbuf s) (pos s) (pos s + ?need) = Some ?bytes" using True by (simp add: slice_get_def)
    have as: "as_slice s = ?flag # drop (pos s + 1) (sbuf s)"
      using True by (simp add: as_slice_def Cons_nth_drop_Suc)
    have vals: "tail_values ?bytes 1 ?ns = tail_values (drop (pos s + 1) (sbuf s)) 0 ?ns"
    proof -
      have "tail_values ?bytes 1 ?ns = tail_values (as_slice s) (0 + 1) ?ns"
        by (simp add: as_slice_def tail_values_take)
      also have "\<dots> = tail_values (drop (pos s + 1) (sbuf s)) 0 ?ns"
        unfolding tail_values_drop by (simp add: as)
      finally show ?thesis .
    qed
    have rd: "read_group slice_impl s =
        (Inr (map ucast (tail_values (drop (pos s + 1) (sbuf s)) 0 ?ns)), advance s ?need)"
      using less.prems(1) as True by (intro read_group_slice) auto
    have ok: "slice_ok (advance s ?need)" using less.prems(1) True by (auto simp: slice_ok_def)
    obtain vs1 left1 s1 where rec: "tail_groups (limit - 4) (advance s ?need) = (vs1, left1, s1)"
      by (metis prod_cases3)
    have "tail_groups limit s = (tail_values (drop (pos s + 1) (sbuf s)) 0 ?ns @ vs1, left1, s1)"
      using tg True get vals rec by (simp add: Let_def)
    moreover have "group_vints_default slice_impl (limit - 4) (advance s ?need) =
        bnd (group_vints_default slice_impl left1) (\<lambda>ws. ret (map ucast vs1 @ ws)) s1"
      using True ok rec by (intro less.IH) auto
    moreover from calculation have "group_vints_default slice_impl limit s =
        bnd (group_vints_default slice_impl left1)
          (\<lambda>ws. ret (map ucast (tail_values (drop (pos s + 1) (sbuf s)) 0 ?ns) @ map ucast vs1 @ ws)) s1"
      using True unfolding group_vints_default_step [OF conjunct1 [OF True] rd] by (intro bnd_step) blast
    ultimately show ?thesis using less.prems(2) by (auto simp: ret_Pair)
  qed
qed

lemma read_group_vints_i32_eq:
  assumes "slice_ok s"
  shows "read_group_vints_i32 limit s = bnd (group_vints_default slice_impl limit) (\<lambda>ws. ret (map ucast ws)) s"
proof -
  obtain vs left s1 where g: "groups_in_view limit s = (vs, left, s1)" by (metis prod_cases3)
  note fast = groups_in_view_eq [OF assms g]
  obtain ws left2 s2 where t: "tail_groups left s1 = (ws, left2, s2)" by (metis prod_cases3)
  have tail: "group_vints_i32_tail left s1 = bnd (group_vints_default slice_impl left) (\<lambda>ws. ret (map ucast ws)) s1"
    using tail_groups_eq [OF _ t] fast
    by (auto simp: group_vints_i32_tail_def t default_chunks_eq bnd_def comp_def ucast_back split: prod.splits sum.splits)
  have none: "group_vints_default slice_impl 0 s = (Inr [], s)" for s
    by (subst group_vints_default.simps) simp
  show ?thesis
  proof (cases "0 < left")
    case True
    then show ?thesis
      using fast tail
      by (auto simp: read_group_vints_i32_def g bnd_def comp_def ucast_back split: prod.splits sum.splits)
  next
    case False
    then show ?thesis
      using fast none by (simp add: read_group_vints_i32_def g comp_def ucast_back)
  qed
qed

section \<open>Malformed and truncated varints\<close>

lemma slice_next:
  assumes "slice_ok s" and "as_slice s = b # r"
  shows "slice_read_byte s = (Inr b, advance s 1)" and "slice_ok (advance s 1)" and "as_slice (advance s 1) = r"
proof -
  have "as_slice s = [b] @ r" using assms(2) by simp
  note adv = slice_advance [OF assms(1) this]
  then show "slice_read_byte s = (Inr b, advance s 1)" "slice_ok (advance s 1)" "as_slice (advance s 1) = r"
    using assms(2) by (auto simp: slice_read_byte_def as_slice_def nth_via_drop)
qed

lemma slice_end: "as_slice s = [] \<Longrightarrow> slice_ok s \<Longrightarrow> slice_read_byte s = (Inl (Eof (length (sbuf s))), s) \<and> pos s = length (sbuf s)"
  by (auto simp: as_slice_def slice_read_byte_def eof_def slice_ok_def)

lemma vint_loop_overlong:
  assumes "bit b 7" and "list_all (\<lambda>b. bit b 7) bs" and "slice_ok s" and "as_slice s = bs @ r" and "i + length bs = 5"
  shows "vint_loop slice_read_byte b v (7 * i) s = (Inl MalformedVarint, advance s (length bs))"
  using assms
proof (induction bs arbitrary: i b v s)
  case Nil
  then show ?case by (subst vint_loop.simps) (simp add: continuation_bit)
next
  case (Cons x xs)
  note nx = slice_next [OF Cons.prems(3), of x "xs @ r"]
  have "vint_loop slice_read_byte x (v OR push_bit (7 * i) (ucast (x AND 0x7f))) (7 * (i + 1)) (advance s 1) =
      (Inl MalformedVarint, advance (advance s 1) (length xs))"
    using Cons.prems nx by (intro Cons.IH) auto
  then show ?case
    using Cons.prems nx by (subst vint_loop.simps) (simp add: continuation_bit add.commute [of 7])
qed

lemma vlong_loop_overlong:
  assumes "bit b 7" and "list_all (\<lambda>b. bit b 7) bs" and "slice_ok s" and "as_slice s = bs @ r" and "i + length bs = 10"
  shows "vlong_loop slice_read_byte b v (7 * i) s = (Inl MalformedVarint, advance s (length bs))"
  using assms
proof (induction bs arbitrary: i b v s)
  case Nil
  then show ?case by (subst vlong_loop.simps) (simp add: continuation_bit)
next
  case (Cons x xs)
  note nx = slice_next [OF Cons.prems(3), of x "xs @ r"]
  have "vlong_loop slice_read_byte x (v OR push_bit (7 * i) (ucast (x AND 0x7f))) (7 * (i + 1)) (advance s 1) =
      (Inl MalformedVarint, advance (advance s 1) (length xs))"
    using Cons.prems nx by (intro Cons.IH) auto
  then show ?case
    using Cons.prems nx by (subst vlong_loop.simps) (simp add: continuation_bit add.commute [of 7])
qed

lemma vint_loop_cut:
  assumes "bit b 7" and "list_all (\<lambda>b. bit b 7) bs" and "slice_ok s" and "as_slice s = bs" and "i + length bs < 5"
  shows "vint_loop slice_read_byte b v (7 * i) s = (Inl (Eof (length (sbuf s))), s\<lparr>pos := length (sbuf s)\<rparr>)"
  using assms
proof (induction bs arbitrary: i b v s)
  case Nil
  then show ?case using slice_end [of s] by (subst vint_loop.simps) (auto simp: continuation_bit)
next
  case (Cons x xs)
  note nx = slice_next [OF Cons.prems(3), of x xs]
  have "vint_loop slice_read_byte x (v OR push_bit (7 * i) (ucast (x AND 0x7f))) (7 * (i + 1)) (advance s 1) =
      (Inl (Eof (length (sbuf (advance s 1)))), (advance s 1)\<lparr>pos := length (sbuf (advance s 1))\<rparr>)"
    using Cons.prems nx by (intro Cons.IH) auto
  then show ?case
    using Cons.prems nx by (subst vint_loop.simps) (simp add: continuation_bit add.commute [of 7])
qed

lemma vlong_loop_cut:
  assumes "bit b 7" and "list_all (\<lambda>b. bit b 7) bs" and "slice_ok s" and "as_slice s = bs" and "i + length bs < 10"
  shows "vlong_loop slice_read_byte b v (7 * i) s = (Inl (Eof (length (sbuf s))), s\<lparr>pos := length (sbuf s)\<rparr>)"
  using assms
proof (induction bs arbitrary: i b v s)
  case Nil
  then show ?case using slice_end [of s] by (subst vlong_loop.simps) (auto simp: continuation_bit)
next
  case (Cons x xs)
  note nx = slice_next [OF Cons.prems(3), of x xs]
  have "vlong_loop slice_read_byte x (v OR push_bit (7 * i) (ucast (x AND 0x7f))) (7 * (i + 1)) (advance s 1) =
      (Inl (Eof (length (sbuf (advance s 1)))), (advance s 1)\<lparr>pos := length (sbuf (advance s 1))\<rparr>)"
    using Cons.prems nx by (intro Cons.IH) auto
  then show ?case
    using Cons.prems nx by (subst vlong_loop.simps) (simp add: continuation_bit add.commute [of 7])
qed

section \<open>Properties\<close>

text \<open>
  C33: The fast paths of the slice cursor against the trait's defaults. The unrolled varint decoders, the in-slice string reader, the
  fixed-width reads and both group-varint decoders (17-byte window, byte-exact tail) compute what the byte-at-a-time default computes, on
  every buffer, well formed, malformed or truncated: the same value or the same error with the same offset, and the same cursor
  afterwards. The bulk word reads compute what the default loop computes when all their words are there. On a truncated
  buffer they differ from it: they are all or nothing and report the end of file at the offset they started from, with the cursor unmoved, where
  the default loop fails at the first word that is not whole, with the cursor there.
\<close>
theorem slice_fast_paths:
  assumes "slice_ok s"
  shows "slice_read_vint s = read_vint_loop slice_read_byte s \<and>
    slice_read_vlong s = read_vlong_loop slice_read_byte s \<and>
    slice_read_zlong s = read_zlong_loop slice_read_byte s \<and>
    slice_read_string s = read_string_default slice_impl s \<and>
    slice_read_u32_le s = read_u32_le_default slice_impl s \<and>
    slice_read_i16 s = read_i16_default slice_impl s \<and>
    slice_read_i64 s = read_i64_default slice_impl s \<and>
    slice_read_group_vints limit s = group_vints_default slice_impl limit s \<and>
    read_group_vints_i32 limit s = bnd (group_vints_default slice_impl limit) (\<lambda>ws. ret (map ucast ws)) s \<and>
    (if pos s + n * 8 \<le> length (sbuf s) then slice_read_i64s n s = read_many slice_read_i64 n s
     else slice_read_i64s n s = (Inl (Eof (pos s)), s) \<and>
       (let stop = pos s + (length (sbuf s) - pos s) div 8 * 8 in read_many slice_read_i64 n s = (Inl (Eof stop), s\<lparr>pos := stop\<rparr>))) \<and>
    (if pos s + n * 4 \<le> length (sbuf s) then slice_read_u32s_le n s = read_many slice_read_u32_le n s
     else slice_read_u32s_le n s = (Inl (Eof (pos s)), s) \<and>
       (let stop = pos s + (length (sbuf s) - pos s) div 4 * 4 in read_many slice_read_u32_le n s = (Inl (Eof stop), s\<lparr>pos := stop\<rparr>)))"
proof (intro conjI)
  show "slice_read_u32_le s = read_u32_le_default slice_impl s"
    "slice_read_i16 s = read_i16_default slice_impl s" "slice_read_i64 s = read_i64_default slice_impl s"
    using slice_read_fixed_eq [OF assms]
    by (simp_all add: slice_read_u32_le_def slice_read_i16_def slice_read_i64_def read_u32_le_default_def
        read_i16_default_def read_i64_default_def slice_impl_def)
  show "if pos s + n * 8 \<le> length (sbuf s) then slice_read_i64s n s = read_many slice_read_i64 n s
     else slice_read_i64s n s = (Inl (Eof (pos s)), s) \<and>
       (let stop = pos s + (length (sbuf s) - pos s) div 8 * 8 in read_many slice_read_i64 n s = (Inl (Eof stop), s\<lparr>pos := stop\<rparr>))"
    "if pos s + n * 4 \<le> length (sbuf s) then slice_read_u32s_le n s = read_many slice_read_u32_le n s
     else slice_read_u32s_le n s = (Inl (Eof (pos s)), s) \<and>
       (let stop = pos s + (length (sbuf s) - pos s) div 4 * 4 in read_many slice_read_u32_le n s = (Inl (Eof stop), s\<lparr>pos := stop\<rparr>))"
    unfolding slice_read_i64s_def slice_read_u32s_le_def slice_read_i64_def slice_read_u32_le_def Let_def
    by (simp_all add: not_le slice_read_words_eq [OF assms] read_many_fixed_cut [OF assms])
qed (use assms in \<open>simp_all only: slice_read_vint_eq slice_read_vlong_eq slice_read_zlong_eq slice_read_string_eq
       slice_read_group_vints_eq read_group_vints_i32_eq\<close>)

definition fast_bytes :: "u8 list" where
  "fast_bytes = [0x96, 1, 0, 0, 0, 0, 0, 2, 3, 0, 0, 0, 0, 0, 0, 0, 9, 9]"

text \<open>Eighteen bytes: every fast path is taken (5, 10 and 17 bytes in view, two words of eight); a third word is not there.\<close>

theorem slice_fast_paths_witness:
  "slice_ok (slice_new fast_bytes) \<and> slice_get fast_bytes 0 17 \<noteq> None \<and>
   slice_read_vint (slice_new fast_bytes) = read_vint_loop slice_read_byte (slice_new fast_bytes) \<and>
   slice_read_vint (slice_new fast_bytes) = (Inr 150, (slice_new fast_bytes)\<lparr>pos := 2\<rparr>) \<and>
   slice_read_group_vints 4 (slice_new fast_bytes) = group_vints_default slice_impl 4 (slice_new fast_bytes) \<and>
   slice_read_i64s 2 (slice_new fast_bytes) = read_many slice_read_i64 2 (slice_new fast_bytes) \<and>
   slice_read_i64s 3 (slice_new fast_bytes) = (Inl (Eof 0), slice_new fast_bytes) \<and>
   read_many slice_read_i64 3 (slice_new fast_bytes) = (Inl (Eof 16), (slice_new fast_bytes)\<lparr>pos := 16\<rparr>)"
proof -
  have ok: "slice_ok (slice_new fast_bytes)" by (simp add: slice_ok_def slice_new_def usize_max_def fast_bytes_def)
  have b: "pos (slice_new fast_bytes) = 0" "length (sbuf (slice_new fast_bytes)) = 18" by (simp_all add: slice_new_def fast_bytes_def)
  have "slice_get fast_bytes 0 17 \<noteq> None" by (simp add: slice_get_def fast_bytes_def)
  moreover have "slice_read_vint (slice_new fast_bytes) = (Inr 150, (slice_new fast_bytes)\<lparr>pos := 2\<rparr>)" by code_simp
  moreover note slice_fast_paths [OF ok, of 4 2] slice_fast_paths [OF ok, of 4 3]
  ultimately show ?thesis using ok unfolding b by (simp add: Let_def del: read_many.simps)
qed

text \<open>
  C34: A varint whose continuation bits never end is rejected as malformed once five bytes (ten for the
  64-bit form) are read, with the cursor after them; one cut short by the end of the buffer is an
  end-of-file error that names the offset where the buffer ends. No decoder reads past the buffer or runs on.
\<close>
theorem bad_varints_rejected:
  assumes "slice_ok s" and "as_slice s = bs @ r" and "list_all (\<lambda>b. bit b 7) bs"
  shows "(length bs = 5 \<longrightarrow> slice_read_vint s = (Inl MalformedVarint, advance s 5)) \<and>
    (length bs = 10 \<longrightarrow> slice_read_vlong s = (Inl MalformedVarint, advance s 10)) \<and>
    (r = [] \<longrightarrow> length bs < 5 \<longrightarrow> slice_read_vint s = (Inl (Eof (length (sbuf s))), s\<lparr>pos := length (sbuf s)\<rparr>)) \<and>
    (r = [] \<longrightarrow> length bs < 10 \<longrightarrow> slice_read_vlong s = (Inl (Eof (length (sbuf s))), s\<lparr>pos := length (sbuf s)\<rparr>))"
proof (cases bs)
  case Nil
  then show ?thesis
    using slice_end [of s] assms by (auto simp: slice_read_vint_eq slice_read_vlong_eq read_vint_loop_def read_vlong_loop_def)
next
  case (Cons b cs)
  have nx: "slice_read_byte s = (Inr b, advance s 1)" "slice_ok (advance s 1)" "as_slice (advance s 1) = cs @ r"
    using slice_next [OF assms(1), of b "cs @ r"] assms(2) Cons by auto
  have cont: "bit b 7" "list_all (\<lambda>b. bit b 7) cs" using assms(3) Cons by auto
  note over = vint_loop_overlong [OF cont nx(2,3), of 1] vlong_loop_overlong [OF cont nx(2,3), of 1]
  note cut = vint_loop_cut [OF cont nx(2), of 1] vlong_loop_cut [OF cont nx(2), of 1]
  from Cons nx over cut show ?thesis
    by (auto simp: slice_read_vint_eq slice_read_vlong_eq read_vint_loop_def read_vlong_loop_def)
qed

theorem bad_varints_rejected_witness:
  "slice_read_vint (slice_new [0x80, 0x80, 0x80, 0x80, 0x80, 1]) = (Inl MalformedVarint, advance (slice_new [0x80, 0x80, 0x80, 0x80, 0x80, 1]) 5)"
  using bad_varints_rejected [of "slice_new [0x80, 0x80, 0x80, 0x80, 0x80, 1]" "[0x80, 0x80, 0x80, 0x80, 0x80]" "[1]"]
  by (simp add: slice_ok_def slice_new_def usize_max_def as_slice_def)

text \<open>
  \<open>read_string\<close> on every branch: after the length prefix it rejects a negative length and a length
  beyond the bytes that remain (before touching the body), rejects a body that is not UTF-8, and
  otherwise returns the body and leaves the bytes after it.
\<close>
theorem read_string_cases:
  assumes "slice_ok s" and "as_slice s = encode_varint (ucast (len :: i32)) @ r"
  shows "\<exists>s'. slice_ok s' \<and> slice_read_string s =
    (if sint len < 0 then (Inl (Corrupted (NegativeLength ''string'' (sint len))), s')
     else if length r < nat (sint len) then (Inl (Corrupted (LengthExceedsRemaining ''string'' (nat (sint len)) (length r))), s')
     else if valid_utf8 (take (nat (sint len)) r) then (Inr (take (nat (sint len)) r), s')
     else (Inl (Corrupted InvalidUtf8), s')) \<and>
    (as_slice s' = (if sint len < 0 \<or> length r < nat (sint len) then r else drop (nat (sint len)) r))"
proof -
  let ?n = "nat (sint len)"
  obtain s1 where s1: "read_vint slice_impl s = (Inr len, s1)" "slice_ok s1" "as_slice s1 = r"
    using slice.vint_ok [of len] assms by (auto simp: decodes_def)
  have rem: "remaining slice_impl s1 = length r" using slice.remaining_law [OF s1(2)] s1(3) by simp
  show ?thesis
  proof (cases "sint len < 0 \<or> length r < ?n")
    case True
    then show ?thesis using s1 rem by (intro exI [of _ s1]) (auto simp: slice_read_string_def read_length_def)
  next
    case False
    let ?s = "s1\<lparr>pos := pos s1 + ?n\<rparr>"
    have len: "length (take ?n r) = ?n" using False by simp
    have "as_slice s1 = take ?n r @ drop ?n r" using s1(3) by simp
    note adv = slice_advance [OF s1(2) this, unfolded len]
    have "slice_read_string s = (if valid_utf8 (take ?n r) then ret (take ?n r) ?s else fail (Corrupted InvalidUtf8) ?s)"
      using False s1 rem adv(4) by (simp add: slice_read_string_def read_length_def Let_def)
    then show ?thesis using adv(2,3) False by (intro exI [of _ ?s]) auto
  qed
qed

theorem read_string_cases_witness:
  "\<exists>s'. slice_read_string (slice_new (encode_varint (ucast (- 1 :: i32)))) =
     (Inl (Corrupted (NegativeLength ''string'' (- 1))), s')"
proof -
  have "length (encode_varint (ucast (- 1 :: i32))) \<le> usize_max"
    unfolding length_encode_varint by (rule order_trans [OF groups_bounds(2)]) (simp add: usize_max_def)
  then show ?thesis
    using read_string_cases [of "slice_new (encode_varint (ucast (- 1 :: i32)))" "- 1" "[]"]
    by (auto simp: slice_ok_def slice_new_def as_slice_def)
qed

end
