(* ===== verification/Wire_Round_Trip.thy ===== *)
theory Wire_Round_Trip
  imports Data_Input
begin

text \<open>
  The write side and the read side together. An \<open>item\<close> is one call of a \<open>DataOutput\<close> method;
  \<open>write_item\<close> performs it on the growable buffer and \<open>read_item\<close> is the matching call on the slice
  cursor (for group varints the reader is told the count, as its callers are). The property states that
  any sequence of calls is read back, whatever precedes and follows it in the file.
\<close>

unbundle bit_operations_syntax

datatype item =
    Vint i32
  | Vlong i64
  | Zint i32
  | Zlong i64
  | BeU32 u32
  | BeU64 u64
  | I16 i16
  | I32 i32
  | I64 i64
  | Str "u8 list"
  | StrMap "(u8 list \<times> u8 list) list"
  | StrSet "u8 list list"
  | GroupVints "u32 list"
  | GroupVintsI32 "u32 list"

fun write_item :: "vec_data_output \<Rightarrow> item \<Rightarrow> vec_data_output" where
  "write_item out (Vint v) = write_vint vec_impl out v"
| "write_item out (Vlong v) = write_vlong vec_impl out v"
| "write_item out (Zint v) = write_zint vec_impl out v"
| "write_item out (Zlong v) = write_zlong vec_impl out v"
| "write_item out (BeU32 v) = write_be_u32 vec_impl out v"
| "write_item out (BeU64 v) = write_be_u64 vec_impl out v"
| "write_item out (I16 v) = write_i16 vec_impl out v"
| "write_item out (I32 v) = write_i32 vec_impl out v"
| "write_item out (I64 v) = write_i64 vec_impl out v"
| "write_item out (Str v) = write_string vec_impl out v"
| "write_item out (StrMap v) = write_map_of_strings vec_impl out v"
| "write_item out (StrSet v) = write_set_of_strings vec_impl out v"
| "write_item out (GroupVints v) = write_group_vints vec_impl out v"
| "write_item out (GroupVintsI32 v) = write_group_vints vec_impl out v"

fun read_item :: "item \<Rightarrow> (slice_input, item) stateful" where
  "read_item (Vint _) = bnd slice_read_vint (\<lambda>v. ret (Vint v))"
| "read_item (Vlong _) = bnd slice_read_vlong (\<lambda>v. ret (Vlong v))"
| "read_item (Zint _) = bnd (read_zint slice_impl) (\<lambda>v. ret (Zint v))"
| "read_item (Zlong _) = bnd slice_read_zlong (\<lambda>v. ret (Zlong v))"
| "read_item (BeU32 _) = bnd (read_be_u32 slice_impl) (\<lambda>v. ret (BeU32 v))"
| "read_item (BeU64 _) = bnd (read_be_u64 slice_impl) (\<lambda>v. ret (BeU64 v))"
| "read_item (I16 _) = bnd slice_read_i16 (\<lambda>v. ret (I16 v))"
| "read_item (I32 _) = bnd slice_read_i32 (\<lambda>v. ret (I32 v))"
| "read_item (I64 _) = bnd slice_read_i64 (\<lambda>v. ret (I64 v))"
| "read_item (Str _) = bnd slice_read_string (\<lambda>v. ret (Str v))"
| "read_item (StrMap _) = bnd (read_map_of_strings slice_impl slice_read_string) (\<lambda>v. ret (StrMap v))"
| "read_item (StrSet _) = bnd (read_set_of_strings slice_impl slice_read_string) (\<lambda>v. ret (StrSet v))"
| "read_item (GroupVints vs) = bnd (slice_read_group_vints (length vs)) (\<lambda>v. ret (GroupVints (map ucast v)))"
| "read_item (GroupVintsI32 vs) = bnd (read_group_vints_i32 (length vs)) (\<lambda>v. ret (GroupVintsI32 v))"

fun read_items :: "item list \<Rightarrow> (slice_input, item list) stateful" where
  "read_items [] = ret []"
| "read_items (it # its) = bnd (read_item it) (\<lambda>x. bnd (read_items its) (\<lambda>xs. ret (x # xs)))"

text \<open>Strings are UTF-8, and lengths and counts fit the signed 32-bit length prefix.\<close>

fun good_item :: "item \<Rightarrow> bool" where
  "good_item (Str v) = good_string v"
| "good_item (StrMap v) = (list_all (\<lambda>(k, v). good_string k \<and> good_string v) v \<and> length v < 2 ^ 31)"
| "good_item (StrSet v) = (list_all good_string v \<and> length v < 2 ^ 31)"
| "good_item _ = True"

section \<open>The bytes of an item\<close>

fun item_bytes :: "item \<Rightarrow> u8 list" where
  "item_bytes (Vint v) = encode_varint (ucast v)"
| "item_bytes (Vlong v) = encode_varint v"
| "item_bytes (Zint v) = encode_varint (ucast (encode_i32 v))"
| "item_bytes (Zlong v) = encode_varint (encode v)"
| "item_bytes (BeU32 v) = to_be_bytes 4 v"
| "item_bytes (BeU64 v) = to_be_bytes 8 v"
| "item_bytes (I16 v) = to_le_bytes 2 v"
| "item_bytes (I32 v) = to_le_bytes 4 v"
| "item_bytes (I64 v) = to_le_bytes 8 v"
| "item_bytes (Str v) = string_bytes v"
| "item_bytes (StrMap v) = map_bytes v"
| "item_bytes (StrSet v) = set_bytes v"
| "item_bytes (GroupVints v) = group_vints_bytes v"
| "item_bytes (GroupVintsI32 v) = group_vints_bytes v"

lemma write_item_bytes: "buf (write_item out it) = buf out @ item_bytes it"
  by (cases it) (simp_all add: vec.write_vint_law vec.written_vlong vec.written_zint vec.written_zlong
      vec.written_fixed vec.written_string vec.written_map vec.written_set vec.written_group_vints)

lemma write_items_bytes: "buf (foldl write_item out its) = buf out @ concat (map item_bytes its)"
  by (rule vec.written_foldl) (rule write_item_bytes)

text \<open>Two readers that agree on well-formed cursors decode the same encodings.\<close>

lemma decodes_cong:
  assumes "decodes ok rest P bs v" and "\<And>s. ok s \<Longrightarrow> Q s = P s"
  shows "decodes ok rest Q bs v"
  using assms by (simp add: decodes_def)

lemma slice_decoders:
  "decodes slice_ok as_slice slice_read_vint (encode_varint (ucast i)) i"
  "decodes slice_ok as_slice slice_read_vlong (encode_varint u) u"
  "decodes slice_ok as_slice slice_read_zlong (encode_varint (encode u)) u"
  "decodes slice_ok as_slice slice_read_i16 (to_le_bytes 2 c) c"
  "decodes slice_ok as_slice slice_read_i32 (to_le_bytes 4 i) i"
  "decodes slice_ok as_slice slice_read_i64 (to_le_bytes 8 u) u"
  "decodes slice_ok as_slice (slice_read_group_vints (length vs)) (group_vints_bytes vs) (map ucast vs)"
  "decodes slice_ok as_slice (read_group_vints_i32 (length vs)) (group_vints_bytes vs) vs"
proof -
  have rb: "read_byte slice_impl = slice_read_byte" by (simp add: slice_impl_def)
  show "decodes slice_ok as_slice slice_read_vint (encode_varint (ucast i)) i"
    using slice.bytes.vint_decodes [of i] by (rule decodes_cong) (simp add: slice_read_vint_eq rb)
  show "decodes slice_ok as_slice slice_read_vlong (encode_varint u) u"
    using slice.bytes.vlong_decodes [of u] by (rule decodes_cong) (simp add: slice_read_vlong_eq rb)
  show "decodes slice_ok as_slice slice_read_zlong (encode_varint (encode u)) u"
    using slice.bytes.zlong_decodes [of u] by (rule decodes_cong) (simp add: slice_read_zlong_eq rb)
  show "decodes slice_ok as_slice slice_read_i16 (to_le_bytes 2 c) c"
    using slice.fixed_ok(5) [of c]
    by (rule decodes_cong) (simp add: slice_read_i16_def slice_read_fixed_eq read_i16_default_def slice_impl_def)
  have "decodes slice_ok as_slice slice_read_u32_le (to_le_bytes 4 i) i"
    using slice.fixed_ok(1) [of i]
    by (rule decodes_cong) (simp add: slice_read_u32_le_def slice_read_fixed_eq read_u32_le_default_def slice_impl_def)
  from decodes_map [OF this, of id] show "decodes slice_ok as_slice slice_read_i32 (to_le_bytes 4 i) i"
    by (simp add: slice_read_i32_def)
  show "decodes slice_ok as_slice slice_read_i64 (to_le_bytes 8 u) u"
    using slice.fixed_ok(6) [of u]
    by (rule decodes_cong) (simp add: slice_read_i64_def slice_read_fixed_eq read_i64_default_def slice_impl_def)
  show "decodes slice_ok as_slice (slice_read_group_vints (length vs)) (group_vints_bytes vs) (map ucast vs)"
    using slice.group_vints_ok [of vs] by (rule decodes_cong) (simp add: slice_read_group_vints_eq)
  show "decodes slice_ok as_slice (read_group_vints_i32 (length vs)) (group_vints_bytes vs) vs"
  proof (rule decodes_cong)
    show "decodes slice_ok as_slice (bnd (group_vints_default slice_impl (length vs)) (\<lambda>ws. ret (map ucast ws)))
        (group_vints_bytes vs) vs"
      using decodes_map [OF slice.group_vints_ok [of vs], of "map ucast :: u64 list \<Rightarrow> u32 list"]
      by (simp add: comp_def ucast_back)
  qed (simp add: read_group_vints_i32_eq)
qed

lemma slice_string: "good_string str \<Longrightarrow> decodes slice_ok as_slice slice_read_string (string_bytes str) str"
  using slice.string_ok [of str] by (auto simp: good_string_def slice_read_string_eq intro: decodes_cong)

lemma read_item_decodes: "good_item it \<Longrightarrow> decodes slice_ok as_slice (read_item it) (item_bytes it) it"
proof (cases it)
  case (GroupVints vs)
  then show ?thesis
    using decodes_map [OF slice_decoders(7) [of vs], of "\<lambda>v. GroupVints (map ucast v)"] by (simp add: comp_def ucast_back)
next
  case (StrMap m)
  moreover assume "good_item it"
  ultimately show ?thesis
    using slice.map_ok [OF slice_string, of m] by (auto simp: list_all_iff intro!: decodes_map)
next
  case (StrSet m)
  moreover assume "good_item it"
  ultimately show ?thesis
    using slice.set_ok [OF slice_string, of m] by (auto simp: list_all_iff intro!: decodes_map)
qed (auto intro!: decodes_map slice_decoders slice_string slice.zint_ok slice.fixed_ok(2) slice.be_u64_ok)

lemma read_items_decodes:
  "list_all good_item its \<Longrightarrow> decodes slice_ok as_slice (read_items its) (concat (map item_bytes its)) its"
proof (induction its)
  case (Cons it its)
  then have "decodes slice_ok as_slice (bnd (read_items its) (\<lambda>xs. ret (it # xs))) (concat (map item_bytes its)) (it # its)"
    by (intro decodes_map) simp
  then show ?case using Cons.prems by (simp add: decodes_bnd [OF read_item_decodes])
qed simp

section \<open>Properties\<close>

text \<open>
  C32: Wire round trip. Whatever sequence of primitives (varints, zigzag varints, fixed-width integers of
  either byte order, strings, string maps and sets, group varints) is written to a \<open>VecDataOutput\<close>, a
  \<open>SliceInput\<close> positioned where the writing began reads the same values back in the same order and stops
  exactly where the writing stopped, whatever bytes stand before and after. Strings must be UTF-8, lengths
  and counts below \<open>2 ^ 31\<close>.
\<close>
theorem wire_round_trip:
  assumes "list_all good_item its"
    and "buf (foldl write_item \<lparr>buf = pre\<rparr> its) = pre @ bytes"
    and "length (pre @ bytes @ post) \<le> usize_max"
  shows "\<exists>s'. read_items its \<lparr>sbuf = pre @ bytes @ post, pos = length pre\<rparr> = (Inr its, s') \<and> as_slice s' = post"
proof -
  have "bytes = concat (map item_bytes its)" using assms(2) by (simp add: write_items_bytes)
  then show ?thesis
    using read_items_decodes [OF assms(1)] assms(3)
    by (simp add: decodes_def) (smt (verit) as_slice_def append_eq_conv_conj length_append le_add1 slice_input.select_convs slice_ok_def)
qed

theorem wire_round_trip_witness:
  "\<exists>s'. read_items [Vint 5, I16 2] \<lparr>sbuf = [9] @ [5, 2, 0] @ [7], pos = length [9::u8]\<rparr> = (Inr [Vint 5, I16 2], s') \<and> as_slice s' = [7]"
proof (rule wire_round_trip)
  have "[0..<2] = [0, 1]" by code_simp
  then show "buf (foldl write_item \<lparr>buf = [9]\<rparr> [Vint 5, I16 2]) = [9] @ [5, 2, 0]"
    unfolding write_items_bytes by (simp add: encode_varint.simps to_le_bytes_def)
qed (simp_all add: usize_max_def)

end
