(* ===== verification/Codec_Util.thy ===== *)
theory Codec_Util
  imports Data_Input
begin

text \<open>
  The file framing of \<open>codec_util.rs\<close>: every index file opens with a header (magic, codec name, version,
  and for segment files the segment id and suffix) and ends with a footer (magic, algorithm id, CRC-32).
  Writers are definitions over the \<open>DataOutput\<close> record, checkers are definitions on the slice cursor
  with one branch per error message. \<open>HeaderCursor\<close> is the fixed buffer that assembles an index header;
  its state is \<open>None\<close> once a write ran past the buffer (the source panics there).

  The crate \<open>crc32fast\<close> is the record \<open>crc32fast\<close> of the functions the source calls, an argument of
  everything that computes a checksum, as is the number of threads \<open>available_parallelism\<close> reports.
  \<open>crc32fast_laws\<close> names what its documentation promises: a hasher fed with bytes finalises to their hash,
  and combining two hashers gives the hasher of the concatenation. The \<open>debug_assert!\<close>s of the writers
  are not modelled; what they assert appears as a hypothesis where it matters. \<open>write_footer_to\<close> (the
  streaming output) is not modelled.
\<close>

unbundle bit_operations_syntax

section \<open>Constants and results\<close>

definition CODEC_MAGIC :: u32 where
  "CODEC_MAGIC = 0x3fd76c17"

definition FOOTER_MAGIC :: u32 where
  "FOOTER_MAGIC = NOT CODEC_MAGIC"

definition FOOTER_LENGTH :: nat where
  "FOOTER_LENGTH = 16"

definition ID_LENGTH :: nat where
  "ID_LENGTH = 16"

record header =
  version :: i32

record index_header =
  ih_version :: i32
  ih_id :: "u8 list"
  ih_suffix :: "u8 list"

section \<open>Checking a header\<close>

definition read_string_bytes :: "(slice_input, u8 list) stateful" where
  "read_string_bytes =
     bnd (read_length slice_impl ''string'') (\<lambda>len s.
       let start = pos s; end = saturating_add start len in
       case slice_range s start end of
         Inl e \<Rightarrow> fail e s
       | Inr bytes \<Rightarrow> bnd (slice_seek end) (\<lambda>_. ret bytes) s)"

definition check_header_no_magic :: "u8 list \<Rightarrow> i32 \<Rightarrow> i32 \<Rightarrow> (slice_input, header) stateful" where
  "check_header_no_magic expected_codec min_version max_version =
     bnd read_string_bytes (\<lambda>actual_codec.
       if actual_codec \<noteq> expected_codec then
         if valid_utf8 actual_codec then fail (Corrupted (CodecMismatch actual_codec expected_codec))
         else fail (Corrupted InvalidUtf8)
       else bnd (read_be_u32 slice_impl) (\<lambda>v.
         if sint v < sint min_version then fail (Corrupted (VersionTooOld (sint v) (sint min_version)))
         else if sint max_version < sint v then fail (Corrupted (VersionTooNew (sint v) (sint max_version)))
         else ret \<lparr>version = v\<rparr>))"

definition check_header :: "u8 list \<Rightarrow> i32 \<Rightarrow> i32 \<Rightarrow> (slice_input, header) stateful" where
  "check_header expected_codec min_version max_version =
     bnd (read_be_u32 slice_impl) (\<lambda>magic.
       if magic \<noteq> CODEC_MAGIC then fail (Corrupted (HeaderMismatch magic))
       else check_header_no_magic expected_codec min_version max_version)"

definition peek_codec_name :: "u8 list \<Rightarrow> u8 list option" where
  "peek_codec_name b =
     (case read_be_u32 slice_impl (slice_new b) of
        (Inr magic, s) \<Rightarrow>
          if magic \<noteq> CODEC_MAGIC then None
          else (case slice_read_string s of (Inr name, _) \<Rightarrow> Some name | (Inl _, _) \<Rightarrow> None)
      | (Inl _, _) \<Rightarrow> None)"

definition check_index_header_id :: "u8 list \<Rightarrow> (slice_input, u8 list) stateful" where
  "check_index_header_id expected_id =
     bnd (slice_read_bytes ID_LENGTH) (\<lambda>i.
       if i \<noteq> expected_id then fail (Corrupted IdMismatch) else ret i)"

definition check_index_header_suffix :: "u8 list \<Rightarrow> (slice_input, u8 list) stateful" where
  "check_index_header_suffix expected_suffix =
     bnd slice_read_byte (\<lambda>b s.
       let len = unat b; start = pos s in
       case slice_range s start (saturating_add start len) of
         Inl e \<Rightarrow> fail e s
       | Inr bytes \<Rightarrow>
           bnd (slice_seek (saturating_add start len)) (\<lambda>_.
             if bytes = expected_suffix then ret expected_suffix
             else if valid_utf8 bytes then fail (Corrupted (SuffixMismatch bytes expected_suffix))
             else fail (Corrupted InvalidUtf8Suffix)) s)"

definition check_index_header ::
  "u8 list \<Rightarrow> i32 \<Rightarrow> i32 \<Rightarrow> u8 list \<Rightarrow> u8 list \<Rightarrow> (slice_input, index_header) stateful" where
  "check_index_header expected_codec min_version max_version expected_id expected_suffix =
     bnd (check_header expected_codec min_version max_version) (\<lambda>h.
     bnd (check_index_header_id expected_id) (\<lambda>i.
     bnd (check_index_header_suffix expected_suffix) (\<lambda>suffix.
       ret \<lparr>ih_version = version h, ih_id = i, ih_suffix = suffix\<rparr>)))"

section \<open>Writing a header\<close>

definition header_length :: "u8 list \<Rightarrow> nat" where
  "header_length codec = 9 + length codec"

definition index_header_length :: "u8 list \<Rightarrow> u8 list \<Rightarrow> nat" where
  "index_header_length codec suffix = header_length codec + ID_LENGTH + 1 + length suffix"

definition write_header :: "('s, 'z) data_output_scheme \<Rightarrow> 's \<Rightarrow> u8 list \<Rightarrow> i32 \<Rightarrow> 's" where
  "write_header D out codec v =
     write_be_u32 D (write_string D (write_be_u32 D out CODEC_MAGIC) codec) v"

definition header_len :: "u8 list \<Rightarrow> u8 list \<Rightarrow> nat" where
  "header_len codec suffix = foldl saturating_add 0 [4, 5, length codec, 4, ID_LENGTH, 1, length suffix]"

record header_cursor =
  hbuf :: "u8 list"
  hlen :: nat

definition cursor_write_bytes :: "header_cursor option \<Rightarrow> u8 list \<Rightarrow> header_cursor option" where
  "cursor_write_bytes c b =
     (case c of
        None \<Rightarrow> None
      | Some c \<Rightarrow>
          (let end = saturating_add (hlen c) (length b) in
           if end \<le> length (hbuf c) \<and> end = hlen c + length b
           then Some \<lparr>hbuf = copy_at (hlen c) b (hbuf c), hlen = end\<rparr> else None))"

definition cursor_write_byte :: "header_cursor option \<Rightarrow> u8 \<Rightarrow> header_cursor option" where
  "cursor_write_byte c b = cursor_write_bytes c [b]"

definition cursor_impl :: "header_cursor option data_output" where
  "cursor_impl = with_defaults cursor_write_byte cursor_write_bytes"

definition write_index_header ::
  "('s, 'z) data_output_scheme \<Rightarrow> 's \<Rightarrow> u8 list \<Rightarrow> i32 \<Rightarrow> u8 list \<Rightarrow> u8 list \<Rightarrow> 's option" where
  "write_index_header D out codec v object_id suffix =
     (let cap = 4 + 5 + 127 + 4 + ID_LENGTH + 1 + 255;
          len = header_len codec suffix;
          buf = (if len \<le> cap then replicate cap 0 else replicate len 0);
          cursor = write_header cursor_impl (Some \<lparr>hbuf = buf, hlen = 0\<rparr>) codec v;
          cursor = write_bytes cursor_impl cursor object_id;
          cursor = write_byte cursor_impl cursor (of_nat (length suffix));
          cursor = write_bytes cursor_impl cursor suffix
      in case cursor of None \<Rightarrow> None | Some c \<Rightarrow> Some (write_bytes D out (take (hlen c) (hbuf c))))"

section \<open>The checksum\<close>

record 'h crc32fast =
  hash :: "u8 list \<Rightarrow> u32"
  hasher_new :: 'h
  hasher_update :: "'h \<Rightarrow> u8 list \<Rightarrow> 'h"
  hasher_combine :: "'h \<Rightarrow> 'h \<Rightarrow> 'h"
  hasher_finalize :: "'h \<Rightarrow> u32"

definition PARALLEL_CRC_MIN :: nat where
  "PARALLEL_CRC_MIN = 8388608"

fun pieces_of :: "nat \<Rightarrow> 'a list \<Rightarrow> 'a list list" where
  "pieces_of n xs = (if n = 0 \<or> xs = [] then [] else take n xs # pieces_of n (drop n xs))"

declare pieces_of.simps [simp del]

definition crc32 :: "('h, 'z) crc32fast_scheme \<Rightarrow> nat \<Rightarrow> u8 list \<Rightarrow> u32" where
  "crc32 K threads b =
     (if length b < PARALLEL_CRC_MIN then hash K b
      else
        let pieces = max 1 (min threads (length b div (PARALLEL_CRC_MIN div 2))) in
        if pieces = 1 then hash K b
        else
          let piece = (length b + pieces - 1) div pieces;
              partials = map (hasher_update K (hasher_new K)) (pieces_of piece b);
              acc = (case partials of [] \<Rightarrow> hasher_new K | h # _ \<Rightarrow> h)
          in hasher_finalize K (foldl (hasher_combine K) acc (tl partials)))"

definition crc32fast_laws :: "('h, 'z) crc32fast_scheme \<Rightarrow> bool" where
  "crc32fast_laws K \<longleftrightarrow>
     (\<forall>bs. hasher_finalize K (hasher_update K (hasher_new K) bs) = hash K bs) \<and>
     (\<forall>bs cs. hasher_combine K (hasher_update K (hasher_new K) bs) (hasher_update K (hasher_new K) cs) =
        hasher_update K (hasher_new K) (bs @ cs))"

section \<open>The footer\<close>

definition write_footer :: "('h, 'z) crc32fast_scheme \<Rightarrow> nat \<Rightarrow> u8 list \<Rightarrow> u8 list" where
  "write_footer K threads b =
     (let b = write_be_u32 bytes_impl b FOOTER_MAGIC;
          b = write_be_u32 bytes_impl b 0;
          checksum = ucast (crc32 K threads b)
      in write_be_u64 bytes_impl b checksum)"

definition check_footer :: "('h, 'z) crc32fast_scheme \<Rightarrow> nat \<Rightarrow> nat \<Rightarrow> (slice_input, u64) stateful" where
  "check_footer K threads total_len s =
     (if total_len < FOOTER_LENGTH then fail (Corrupted (MisplacedFooter total_len)) s
      else
        let footer_start = total_len - FOOTER_LENGTH in
        if pos s \<noteq> footer_start then fail (Corrupted (NotAllBytesRead (pos s) total_len)) s
        else
          bnd (read_be_u32 slice_impl) (\<lambda>magic.
            if magic \<noteq> FOOTER_MAGIC then fail (Corrupted (FooterMismatch magic))
            else bnd (read_be_u32 slice_impl) (\<lambda>algorithm_id.
              if algorithm_id \<noteq> 0 then fail (Corrupted (UnknownAlgorithm algorithm_id))
              else (\<lambda>s.
                case slice_range s 0 (footer_start + 8) of
                  Inl e \<Rightarrow> fail e s
                | Inr covered \<Rightarrow>
                    (let actual_checksum = ucast (crc32 K threads covered) in
                     bnd (read_be_u64 slice_impl) (\<lambda>expected_checksum.
                       if expected_checksum AND 0xFFFFFFFF00000000 \<noteq> 0
                       then fail (Corrupted (IllegalChecksum expected_checksum))
                       else if expected_checksum \<noteq> actual_checksum
                       then fail (Corrupted (ChecksumFailed expected_checksum actual_checksum))
                       else ret actual_checksum) s)))) s)"

definition check_whole_file_header :: "u8 list \<Rightarrow> u8 list \<Rightarrow> i32 \<Rightarrow> i32 \<Rightarrow> error + header" where
  "check_whole_file_header b expected_codec min_version max_version =
     (if length b < FOOTER_LENGTH then Inl (Corrupted FileTooSmall)
      else fst (check_header expected_codec min_version max_version (slice_new b)))"

definition check_whole_file_footer :: "('h, 'z) crc32fast_scheme \<Rightarrow> nat \<Rightarrow> u8 list \<Rightarrow> nat \<Rightarrow> error + u64" where
  "check_whole_file_footer K threads b payload_end =
     fst (bnd (slice_seek payload_end) (\<lambda>_. check_footer K threads (length b)) (slice_new b))"

definition retrieve_checksum :: "u8 list \<Rightarrow> error + u64" where
  "retrieve_checksum b =
     (if length b < FOOTER_LENGTH then Inl (Corrupted (MisplacedFooter (length b)))
      else fst (bnd (slice_seek (length b - FOOTER_LENGTH)) (\<lambda>_.
        bnd (read_be_u32 slice_impl) (\<lambda>magic.
          if magic \<noteq> FOOTER_MAGIC then fail (Corrupted (FooterMismatch magic))
          else bnd (read_be_u32 slice_impl) (\<lambda>algorithm_id.
            if algorithm_id \<noteq> 0 then fail (Corrupted (UnknownAlgorithm algorithm_id))
            else bnd (read_be_u64 slice_impl) (\<lambda>checksum.
              if checksum AND 0xFFFFFFFF00000000 \<noteq> 0 then fail (Corrupted (IllegalChecksum checksum))
              else ret checksum)))) (slice_new b)))"

definition retrieve_checksum_with_expected_length :: "u8 list \<Rightarrow> nat \<Rightarrow> error + u64" where
  "retrieve_checksum_with_expected_length b expected_length =
     (if expected_length < FOOTER_LENGTH then Inl (Corrupted (ExpectedLengthTooSmall expected_length))
      else if length b < expected_length then Inl (Corrupted (TruncatedFile (length b) expected_length))
      else if expected_length < length b then Inl (Corrupted (FileTooLong (length b) expected_length))
      else retrieve_checksum b)"


section \<open>What the writers produce\<close>

definition header_bytes :: "u8 list \<Rightarrow> i32 \<Rightarrow> u8 list" where
  "header_bytes codec v = to_be_bytes 4 CODEC_MAGIC @ string_bytes codec @ to_be_bytes 4 v"

definition index_header_bytes :: "u8 list \<Rightarrow> i32 \<Rightarrow> u8 list \<Rightarrow> u8 list \<Rightarrow> u8 list" where
  "index_header_bytes codec v i suffix = header_bytes codec v @ i @ [of_nat (length suffix)] @ suffix"

definition footer_bytes :: "u32 \<Rightarrow> u8 list" where
  "footer_bytes crc = to_be_bytes 4 FOOTER_MAGIC @ to_be_bytes 4 (0 :: u32) @ to_be_bytes 8 (ucast crc :: u64)"

context data_output_sink
begin

lemma written_header: "written (write_header D out codec v) = written out @ header_bytes codec v"
  by (simp add: write_header_def header_bytes_def written_fixed written_string)

end

lemma write_footer_eq:
  "write_footer K threads b = b @ footer_bytes (crc32 K threads (b @ to_be_bytes 4 FOOTER_MAGIC @ to_be_bytes 4 (0 :: u32)))"
  by (simp add: write_footer_def Let_def bytes.written_fixed footer_bytes_def)

text \<open>The header cursor: \<open>bs\<close> written into a buffer of \<open>n\<close> bytes.\<close>

definition cursor_at :: "header_cursor option \<Rightarrow> u8 list \<Rightarrow> nat \<Rightarrow> bool" where
  "cursor_at c bs n \<longleftrightarrow> (\<exists>b. c = Some \<lparr>hbuf = b, hlen = length bs\<rparr> \<and> take (length bs) b = bs \<and> length b = n)"

lemma cursor_write_at:
  assumes "cursor_at c bs n" and "length bs + length cs \<le> n" and "n \<le> usize_max"
  shows "cursor_at (cursor_write_bytes c cs) (bs @ cs) n"
  using assms by (auto simp: cursor_at_def cursor_write_bytes_def saturating_add_def Let_def copy_at_def min_def)

lemma cursor_methods:
  "write_bytes cursor_impl c cs = cursor_write_bytes c cs"
  "write_byte cursor_impl c b = cursor_write_bytes c [b]"
  "write_vint cursor_impl c i = cursor_write_bytes c (encode_varint (ucast i))"
proof -
  show "write_bytes cursor_impl c cs = cursor_write_bytes c cs"
    "write_byte cursor_impl c b = cursor_write_bytes c [b]"
    by (simp_all add: cursor_impl_def with_defaults_def cursor_write_byte_def)
  have "encode_varint (ucast i) = [ucast i]" if "i \<le> 0x7f"
  proof -
    have "ucast i \<le> (0x7f :: u64)" using that by (simp add: word_le_nat_alt unat_ucast_up)
    moreover have "ucast i = (ucast (ucast i :: u64) :: u8)"
      by (intro bit_word_eqI) (auto simp: bit_ucast_iff dest: bit_imp_le_length)
    ultimately show ?thesis by (simp add: encode_varint_single)
  qed
  then show "write_vint cursor_impl c i = cursor_write_bytes c (encode_varint (ucast i))"
    by (simp add: cursor_impl_def with_defaults_def write_vint_default_def cursor_write_byte_def)
qed

lemma cursor_write_header:
  "write_header cursor_impl c codec v =
     cursor_write_bytes (cursor_write_bytes (cursor_write_bytes (cursor_write_bytes c (to_be_bytes 4 CODEC_MAGIC))
       (encode_varint (ucast (of_nat (length codec) :: i32)))) codec) (to_be_bytes 4 v)"
  by (simp add: write_header_def write_be_u32_def write_string_def cursor_methods)

lemma header_len_eq:
  "30 + length codec + length suffix \<le> usize_max \<Longrightarrow> header_len codec suffix = 30 + length codec + length suffix"
  by (simp add: header_len_def saturating_add_def ID_LENGTH_def)

lemma length_vint: "length (encode_varint (ucast (i :: i32))) \<le> 5"
  using groups_32 by (simp add: length_encode_varint)

lemma write_index_header_eq:
  assumes "length i = ID_LENGTH" and "30 + length codec + length suffix \<le> usize_max"
  shows "write_index_header D out codec v i suffix = Some (write_bytes D out (index_header_bytes codec v i suffix))"
proof -
  define b :: "u8 list" where
    "b = (if header_len codec suffix \<le> 4 + 5 + 127 + 4 + ID_LENGTH + 1 + 255
       then replicate (4 + 5 + 127 + 4 + ID_LENGTH + 1 + 255) 0 else replicate (header_len codec suffix) 0)"
  let ?vint = "encode_varint (ucast (of_nat (length codec) :: i32))"
  have b: "30 + length codec + length suffix \<le> length b" "length b \<le> usize_max"
    using assms(2) by (auto simp: b_def header_len_eq ID_LENGTH_def usize_max_def)
  have id: "length i = 16" using assms(1) by (simp add: ID_LENGTH_def)
  have step: "cursor_at (cursor_write_bytes c cs) (bs @ cs) (length b)"
    if "cursor_at c bs (length b)" "length bs + length cs \<le> 30 + length codec + length suffix" for c bs cs
    using that b by (intro cursor_write_at) auto
  have "cursor_at (Some \<lparr>hbuf = b, hlen = 0\<rparr>) [] (length b)" by (simp add: cursor_at_def)
  note c1 = step [OF this, of "to_be_bytes 4 CODEC_MAGIC"]
  note c2 = step [OF c1, of ?vint]
  note c3 = step [OF c2, of codec]
  note c4 = step [OF c3, of "to_be_bytes 4 v"]
  note c5 = step [OF c4, of i]
  note c6 = step [OF c5, of "[of_nat (length suffix)]"]
  note c7 = step [OF c6, of suffix]
  have "cursor_at (cursor_write_bytes (cursor_write_bytes (cursor_write_bytes
      (write_header cursor_impl (Some \<lparr>hbuf = b, hlen = 0\<rparr>) codec v) i) [of_nat (length suffix)]) suffix)
      (index_header_bytes codec v i suffix) (length b)"
    using c7 id length_vint [of "of_nat (length codec)"]
    by (simp add: cursor_write_header index_header_bytes_def header_bytes_def string_bytes_def)
  then show ?thesis
    by (auto simp: write_index_header_def cursor_methods cursor_at_def Let_def b_def)
qed

lemma length_index_header_bytes:
  assumes "length codec < 128" and "length i = ID_LENGTH"
  shows "length (index_header_bytes codec v i suffix) = index_header_length codec suffix"
proof -
  have "unat (of_nat (length codec) :: i32) = length codec"
    using assms(1) by (simp add: unsigned_of_nat take_bit_nat_eq_self)
  then have "ucast (of_nat (length codec) :: i32) \<le> (0x7f :: u64)"
    using assms(1) by (simp add: word_le_nat_alt unat_ucast_up)
  then have "length (encode_varint (ucast (of_nat (length codec) :: i32))) = 1"
    by (simp add: encode_varint_single)
  then show ?thesis
    using assms by (simp add: index_header_bytes_def header_bytes_def string_bytes_def index_header_length_def header_length_def)
qed

section \<open>What the checkers accept\<close>

lemma read_string_bytes_ok:
  assumes "length str < 2 ^ 31"
  shows "decodes slice_ok as_slice read_string_bytes (string_bytes str) str"
  unfolding decodes_def
proof (intro allI impI)
  fix s r assume s: "slice_ok s" "as_slice s = string_bytes str @ r"
  obtain s1 where s1: "read_length slice_impl ''string'' s = (Inr (length str), s1)" "slice_ok s1" "as_slice s1 = str @ r"
    using slice.length_ok [OF s(1), of "length str" "str @ r" "''string''"] s(2) assms by (auto simp: string_bytes_def)
  note adv = slice_advance [OF s1(2,3)]
  have "saturating_add (pos s1) (length str) = pos s1 + length str"
    using adv(1) s1(2) by (simp add: saturating_add_def slice_ok_def)
  then show "\<exists>s'. read_string_bytes s = (Inr str, s') \<and> slice_ok s' \<and> as_slice s' = r"
    using s1 adv by (auto simp: read_string_bytes_def slice_range_def slice_get_def slice_seek_def)
qed

lemma suffix_read:
  assumes "slice_ok s" and "as_slice s = [of_nat (length suffix)] @ suffix @ r" and "length suffix < 256"
  shows "\<exists>s'. check_index_header_suffix expected s =
      (if suffix = expected then Inr expected
       else Inl (Corrupted (if valid_utf8 suffix then SuffixMismatch suffix expected else InvalidUtf8Suffix)), s') \<and>
      slice_ok s' \<and> as_slice s' = r"
proof -
  let ?b = "of_nat (length suffix) :: u8"
  obtain s1 where s1: "slice_read_byte s = (Inr ?b, s1)" "slice_ok s1" "as_slice s1 = suffix @ r"
    using slice.read_byte_law [of ?b] assms(1,2) unfolding decodes_def slice_impl_def by auto
  have "unat ?b = length suffix"
    using assms(3) by (simp add: unsigned_of_nat take_bit_nat_eq_self)
  note adv = slice_advance [OF s1(2,3)]
  have "saturating_add (pos s1) (length suffix) = pos s1 + length suffix"
    using adv(1) s1(2) by (simp add: saturating_add_def slice_ok_def)
  then show ?thesis
    using s1 adv \<open>unat ?b = length suffix\<close>
    by (auto simp: check_index_header_suffix_def slice_range_def slice_get_def slice_seek_def Let_def)
qed

lemma header_read:
  assumes "slice_ok s" and "as_slice s = header_bytes codec v @ r" and "length codec < 2 ^ 31"
  shows "\<exists>s'. check_header expected mn mx s =
      (if codec \<noteq> expected then Inl (Corrupted (if valid_utf8 codec then CodecMismatch codec expected else InvalidUtf8))
       else if sint v < sint mn then Inl (Corrupted (VersionTooOld (sint v) (sint mn)))
       else if sint mx < sint v then Inl (Corrupted (VersionTooNew (sint v) (sint mx)))
       else Inr \<lparr>version = v\<rparr>, s') \<and> slice_ok s' \<and> (codec = expected \<longrightarrow> as_slice s' = r)"
proof -
  obtain s1 where s1: "read_be_u32 slice_impl s = (Inr CODEC_MAGIC, s1)" "slice_ok s1"
      "as_slice s1 = string_bytes codec @ to_be_bytes 4 v @ r"
    using slice.fixed_ok(2) [of CODEC_MAGIC] assms(1,2) by (auto simp: decodes_def header_bytes_def)
  obtain s2 where s2: "read_string_bytes s1 = (Inr codec, s2)" "slice_ok s2" "as_slice s2 = to_be_bytes 4 v @ r"
    using read_string_bytes_ok [OF assms(3)] s1 by (auto simp: decodes_def)
  obtain s3 where s3: "read_be_u32 slice_impl s2 = (Inr v, s3)" "slice_ok s3" "as_slice s3 = r"
    using slice.fixed_ok(2) [of v] s2 by (auto simp: decodes_def)
  show ?thesis
  proof (cases "codec = expected")
    case True
    then show ?thesis using s1 s2 s3 by (intro exI [of _ s3]) (auto simp: check_header_def check_header_no_magic_def)
  next
    case False
    then show ?thesis using s1 s2 by (intro exI [of _ s2]) (auto simp: check_header_def check_header_no_magic_def)
  qed
qed

lemma id_read:
  assumes "slice_ok s" and "as_slice s = i @ r" and "length i = ID_LENGTH"
  shows "\<exists>s'. check_index_header_id expected s = (if i = expected then Inr i else Inl (Corrupted IdMismatch), s') \<and>
    slice_ok s' \<and> as_slice s' = r"
proof -
  obtain s1 where "slice_read_bytes ID_LENGTH s = (Inr i, s1)" "slice_ok s1" "as_slice s1 = r"
    using slice.read_bytes_law [of i] assms unfolding decodes_def slice_impl_def by auto
  then show ?thesis by (intro exI [of _ s1]) (auto simp: check_index_header_id_def)
qed

subsection \<open>Checksums\<close>

lemma concat_pieces: "0 < n \<Longrightarrow> concat (pieces_of n xs) = xs"
  by (induction n xs rule: pieces_of.induct) (subst pieces_of.simps, simp)

lemma combine_all:
  assumes "crc32fast_laws K"
  shows "foldl (hasher_combine K) (hasher_update K (hasher_new K) bs) (map (hasher_update K (hasher_new K)) bss) =
    hasher_update K (hasher_new K) (bs @ concat bss)"
  using assms by (induction bss arbitrary: bs) (simp_all add: crc32fast_laws_def)

lemma be_bytes_of:
  "length bs = 4 \<Longrightarrow> \<exists>v :: u32. bs = to_be_bytes 4 v" "length bs = 8 \<Longrightarrow> \<exists>v :: u64. bs = to_be_bytes 8 v"
proof -
  assume "length bs = 4"
  then have "bs = to_be_bytes 4 (from_be_bytes bs :: u32)"
    using to_le_from_le_bytes [of "rev bs" 4, where 'a = 32] by (simp add: to_be_bytes_def from_be_bytes_def)
  then show "\<exists>v :: u32. bs = to_be_bytes 4 v" by blast
next
  assume "length bs = 8"
  then have "bs = to_be_bytes 8 (from_be_bytes bs :: u64)"
    using to_le_from_le_bytes [of "rev bs" 8, where 'a = 64] by (simp add: to_be_bytes_def from_be_bytes_def)
  then show "\<exists>v :: u64. bs = to_be_bytes 8 v" by blast
qed

lemma crc_fits: "(ucast (c :: u32) :: u64) AND 0xFFFFFFFF00000000 = 0"
proof (rule bit_word_eqI)
  fix k :: nat
  have "(0xFFFFFFFF00000000 :: u64) = push_bit 32 (mask 32)" by (simp add: mask_eq_exp_minus_1 push_bit_eq_mult)
  then show "bit ((ucast c :: u64) AND 0xFFFFFFFF00000000) k = bit (0 :: u64) k"
    by (simp only: bit_and_iff bit_push_bit_iff bit_ucast_iff) (auto dest: bit_imp_le_length)
qed

text \<open>The verdict of a footer check, in the order the code tests its fields.\<close>

definition footer_verdict :: "u32 \<Rightarrow> u32 \<Rightarrow> u64 \<Rightarrow> u64 option \<Rightarrow> error + u64" where
  "footer_verdict magic algorithm stored actual =
     (if magic \<noteq> FOOTER_MAGIC then Inl (Corrupted (FooterMismatch magic))
      else if algorithm \<noteq> 0 then Inl (Corrupted (UnknownAlgorithm algorithm))
      else if stored AND 0xFFFFFFFF00000000 \<noteq> 0 then Inl (Corrupted (IllegalChecksum stored))
      else case actual of
             None \<Rightarrow> Inr stored
           | Some c \<Rightarrow> if stored \<noteq> c then Inl (Corrupted (ChecksumFailed stored c)) else Inr c)"

lemma footer_reads:
  assumes "length b \<le> usize_max"
    and "b = payload @ to_be_bytes 4 m @ to_be_bytes 4 (a :: u32) @ to_be_bytes 8 (k :: u64)"
  obtains s1 s2 s3 where
    "read_be_u32 slice_impl \<lparr>sbuf = b, pos = length payload\<rparr> = (Inr m, s1)" "read_be_u32 slice_impl s1 = (Inr a, s2)"
    "read_be_u64 slice_impl s2 = (Inr k, s3)" "sbuf s2 = b"
proof -
  let ?s = "\<lparr>sbuf = b, pos = length payload\<rparr>"
  have s: "slice_ok ?s" "as_slice ?s = to_be_bytes 4 m @ to_be_bytes 4 a @ to_be_bytes 8 k"
    using assms by (simp_all add: slice_ok_def as_slice_def)
  obtain s1 where s1: "read_be_u32 slice_impl ?s = (Inr m, s1)" "slice_ok s1" "as_slice s1 = to_be_bytes 4 a @ to_be_bytes 8 k"
    using slice.fixed_ok(2) [of m] s by (auto simp: decodes_def)
  obtain s2 where s2: "read_be_u32 slice_impl s1 = (Inr a, s2)" "slice_ok s2" "as_slice s2 = to_be_bytes 8 k"
    using slice.fixed_ok(2) [of a] s1 by (auto simp: decodes_def)
  obtain s3 where s3: "read_be_u64 slice_impl s2 = (Inr k, s3)"
    using slice.be_u64_ok [of k] s2 unfolding decodes_def by (metis append_Nil2)
  have keep: "sbuf s' = sbuf s" if "read_be_u32 slice_impl s = (Inr v, s')" for v s s'
    using that by (auto simp: read_be_u32_def bnd_def slice_impl_def slice_read_bytes_def split: option.splits prod.splits sum.splits)
  show thesis using that [OF s1(1) s2(1) s3] keep [OF s1(1)] keep [OF s2(1)] by simp
qed

lemma check_footer_eval:
  assumes "length b \<le> usize_max"
    and "b = payload @ to_be_bytes 4 m @ to_be_bytes 4 (a :: u32) @ to_be_bytes 8 (k :: u64)"
  shows "fst (check_footer K threads (length b) \<lparr>sbuf = b, pos = length payload\<rparr>) =
      footer_verdict m a k (Some (ucast (crc32 K threads (payload @ to_be_bytes 4 m @ to_be_bytes 4 a))))"
    and "retrieve_checksum b = footer_verdict m a k None"
proof -
  obtain s1 s2 s3 where r:
    "read_be_u32 slice_impl \<lparr>sbuf = b, pos = length payload\<rparr> = (Inr m, s1)" "read_be_u32 slice_impl s1 = (Inr a, s2)"
    "read_be_u64 slice_impl s2 = (Inr k, s3)" "sbuf s2 = b"
    using footer_reads [OF assms] by blast
  have len: "length b = length payload + 16" using assms(2) by simp
  then have sl: "slice_range s2 0 (length payload + 8) = Inr (payload @ to_be_bytes 4 m @ to_be_bytes 4 a)"
    using r(4) assms(2) by (simp add: slice_range_def slice_get_def)
  show "fst (check_footer K threads (length b) \<lparr>sbuf = b, pos = length payload\<rparr>) =
      footer_verdict m a k (Some (ucast (crc32 K threads (payload @ to_be_bytes 4 m @ to_be_bytes 4 a))))"
    using r sl len by (simp add: check_footer_def FOOTER_LENGTH_def footer_verdict_def Let_def)
  have "slice_seek (length payload) (slice_new b) = (Inr (), \<lparr>sbuf = b, pos = length payload\<rparr>)"
    using len by (simp add: slice_seek_def slice_new_def)
  then show "retrieve_checksum b = footer_verdict m a k None"
    using r len by (simp add: retrieve_checksum_def FOOTER_LENGTH_def footer_verdict_def)
qed

lemma whole_file_footer_eval:
  "check_whole_file_footer K threads b p =
     (if length b < p then Inl (Eof 0) else fst (check_footer K threads (length b) \<lparr>sbuf = b, pos = p\<rparr>))"
  by (simp add: check_whole_file_footer_def slice_seek_def slice_new_def bnd_def eof_def)

lemma footer_shape:
  assumes "16 \<le> length b"
  obtains payload and m a :: u32 and k :: u64 where
    "b = payload @ to_be_bytes 4 m @ to_be_bytes 4 a @ to_be_bytes 8 k" "length payload = length b - 16"
proof -
  define payload where "payload = take (length b - 16) b"
  define t where "t = drop (length b - 16) b"
  have "length t = 16" "b = payload @ t" using assms by (simp_all add: t_def payload_def)
  moreover have "t = take 4 t @ take 4 (drop 4 t) @ drop 8 t"
    by (metis add_numeral_left append_take_drop_id drop_drop numeral_plus_numeral semiring_norm(2) semiring_norm(6))
  moreover obtain m :: u32 where "take 4 t = to_be_bytes 4 m" using be_bytes_of(1) [of "take 4 t"] \<open>length t = 16\<close> by auto
  moreover obtain a :: u32 where "take 4 (drop 4 t) = to_be_bytes 4 a"
    using be_bytes_of(1) [of "take 4 (drop 4 t)"] \<open>length t = 16\<close> by auto
  moreover obtain k :: u64 where "drop 8 t = to_be_bytes 8 k" using be_bytes_of(2) [of "drop 8 t"] \<open>length t = 16\<close> by auto
  ultimately show thesis using that [of payload m a k] by (simp add: payload_def)
qed


section \<open>Properties\<close>

text \<open>
  C12: What \<open>check_index_header\<close> answers on a header written by \<open>write_index_header\<close>, whatever the two
  sides disagree on. The header occupies \<open>index_header_length\<close> bytes; the check succeeds exactly when
  codec name, version range, segment id and suffix all match, and then leaves the cursor after the header;
  otherwise it reports the first mismatch in that order. The writer's fixed buffer never overflows.
\<close>
theorem index_header_verdict:
  assumes "length codec < 128" and "length i = ID_LENGTH" and "length suffix < 256"
    and "buf out = pre" and "length pre + 1000 + length post \<le> usize_max"
  shows "\<exists>out' s'. write_index_header vec_impl out codec v i suffix = Some out' \<and>
    length (buf out') = length pre + index_header_length codec suffix \<and>
    check_index_header codec' mn mx i' suffix' \<lparr>sbuf = buf out' @ post, pos = length pre\<rparr> =
      (if codec \<noteq> codec' then Inl (Corrupted (if valid_utf8 codec then CodecMismatch codec codec' else InvalidUtf8))
       else if sint v < sint mn then Inl (Corrupted (VersionTooOld (sint v) (sint mn)))
       else if sint mx < sint v then Inl (Corrupted (VersionTooNew (sint v) (sint mx)))
       else if i \<noteq> i' then Inl (Corrupted IdMismatch)
       else if suffix \<noteq> suffix' then Inl (Corrupted (if valid_utf8 suffix then SuffixMismatch suffix suffix' else InvalidUtf8Suffix))
       else Inr \<lparr>ih_version = v, ih_id = i, ih_suffix = suffix\<rparr>, s') \<and>
    (codec = codec' \<and> sint mn \<le> sint v \<and> sint v \<le> sint mx \<and> i = i' \<longrightarrow> as_slice s' = post)"
proof -
  let ?hd = "index_header_bytes codec v i suffix"
  define out' where "out' = write_bytes vec_impl out ?hd"
  define s where "s = \<lparr>sbuf = buf out' @ post, pos = length pre\<rparr>"
  have w: "write_index_header vec_impl out codec v i suffix = Some out'"
    using assms(1-3,5) by (simp add: out'_def write_index_header_eq)
  have b: "buf out' = pre @ ?hd" using assms(4) by (simp add: out'_def vec.write_bytes_law)
  have len: "length ?hd = index_header_length codec suffix" using assms(1,2) by (rule length_index_header_bytes)
  then have "length ?hd < 1000" using assms(1,3) by (simp add: index_header_length_def header_length_def ID_LENGTH_def)
  then have s: "slice_ok s" "as_slice s = header_bytes codec v @ i @ [of_nat (length suffix)] @ suffix @ post"
    using assms(5) by (simp_all add: s_def b slice_ok_def as_slice_def index_header_bytes_def)
  have "length codec < 2 ^ 31" using assms(1) by simp
  from header_read [OF s this, of codec' mn mx] obtain s1 where s1:
    "check_header codec' mn mx s =
      (if codec \<noteq> codec' then Inl (Corrupted (if valid_utf8 codec then CodecMismatch codec codec' else InvalidUtf8))
       else if sint v < sint mn then Inl (Corrupted (VersionTooOld (sint v) (sint mn)))
       else if sint mx < sint v then Inl (Corrupted (VersionTooNew (sint v) (sint mx)))
       else Inr \<lparr>version = v\<rparr>, s1)" "slice_ok s1" "codec = codec' \<longrightarrow> as_slice s1 = i @ [of_nat (length suffix)] @ suffix @ post"
    by blast
  have result: ?thesis if "check_index_header codec' mn mx i' suffix' s =
      (if codec \<noteq> codec' then Inl (Corrupted (if valid_utf8 codec then CodecMismatch codec codec' else InvalidUtf8))
       else if sint v < sint mn then Inl (Corrupted (VersionTooOld (sint v) (sint mn)))
       else if sint mx < sint v then Inl (Corrupted (VersionTooNew (sint v) (sint mx)))
       else if i \<noteq> i' then Inl (Corrupted IdMismatch)
       else if suffix \<noteq> suffix' then Inl (Corrupted (if valid_utf8 suffix then SuffixMismatch suffix suffix' else InvalidUtf8Suffix))
       else Inr \<lparr>ih_version = v, ih_id = i, ih_suffix = suffix\<rparr>, s')"
    and "codec = codec' \<and> sint mn \<le> sint v \<and> sint v \<le> sint mx \<and> i = i' \<longrightarrow> as_slice s' = post" for s'
    using w that b len unfolding s_def by (intro exI [of _ out'] exI [of _ s'] conjI) simp_all
  show ?thesis
  proof (cases "codec = codec' \<and> \<not> sint v < sint mn \<and> \<not> sint mx < sint v")
    case False
    then show ?thesis using s1(1) by (intro result [of s1]) (auto simp: check_index_header_def)
  next
    case True
    then obtain s2 where s2: "check_index_header_id i' s1 = (if i = i' then Inr i else Inl (Corrupted IdMismatch), s2)"
        "slice_ok s2" "as_slice s2 = [of_nat (length suffix)] @ suffix @ post"
      using id_read [OF s1(2) _ assms(2)] s1(3) by blast
    obtain s3 where s3: "check_index_header_suffix suffix' s2 =
        (if suffix = suffix' then Inr suffix'
         else Inl (Corrupted (if valid_utf8 suffix then SuffixMismatch suffix suffix' else InvalidUtf8Suffix)), s3)"
        "as_slice s3 = post"
      using suffix_read [OF s2(2,3) assms(3), of suffix'] by blast
    show ?thesis
      using True s1(1) s2(1) s3
      by (intro result [of "if i = i' then s3 else s2"]) (simp_all add: check_index_header_def)
  qed
qed

theorem index_header_verdict_witness:
  "\<exists>out' s'. write_index_header vec_impl vec_new [65] 3 (replicate 16 7) [95] = Some out' \<and>
    check_index_header [65] 0 5 (replicate 16 7) [95] \<lparr>sbuf = buf out' @ [1], pos = 0\<rparr> =
      (Inr \<lparr>ih_version = 3, ih_id = replicate 16 7, ih_suffix = [95]\<rparr>, s') \<and> as_slice s' = [1]"
proof -
  have "sint (0 :: i32) = 0" "sint (3 :: i32) = 3" "sint (5 :: i32) = 5" by simp_all
  then show ?thesis
    using index_header_verdict [of "[65]" "replicate 16 7" "[95]" vec_new "[]" "[1]" 3 "[65]" 0 5 "replicate 16 7" "[95]"]
    by (auto simp: vec_new_def ID_LENGTH_def usize_max_def)
qed

text \<open>
  C11: The footer check accepts exactly the files that \<open>write_footer\<close> produces. A file of any content passes
  \<open>check_whole_file_footer\<close> at \<open>payload_end\<close> if and only if it is the footer-terminated form of its first
  \<open>payload_end\<close> bytes, and then the checksum returned is the CRC of everything before the checksum field.
\<close>
theorem footer_accepts_exactly:
  assumes "length b \<le> usize_max"
  shows "check_whole_file_footer K threads b payload_end = Inr c \<longleftrightarrow>
    (\<exists>payload. b = write_footer K threads payload \<and> payload_end = length payload \<and>
       c = ucast (crc32 K threads (take (length b - 8) b)))"
proof
  assume ok: "check_whole_file_footer K threads b payload_end = Inr c"
  then have seek: "payload_end \<le> length b" and "fst (check_footer K threads (length b) \<lparr>sbuf = b, pos = payload_end\<rparr>) = Inr c"
    by (auto simp: whole_file_footer_eval split: if_splits)
  then have fit: "16 \<le> length b" "payload_end = length b - 16"
    by (auto simp: check_footer_def FOOTER_LENGTH_def Let_def split: if_splits)
  obtain payload and m a :: u32 and k :: u64 where b: "b = payload @ to_be_bytes 4 m @ to_be_bytes 4 a @ to_be_bytes 8 k"
      "length payload = length b - 16"
    using footer_shape [OF fit(1)] by blast
  have "footer_verdict m a k (Some (ucast (crc32 K threads (payload @ to_be_bytes 4 m @ to_be_bytes 4 a)))) = Inr c"
    using check_footer_eval(1) [OF assms b(1), of K threads] \<open>fst _ = Inr c\<close> fit(2) b(2) by simp
  then have "m = FOOTER_MAGIC" "a = 0" "k = ucast (crc32 K threads (payload @ to_be_bytes 4 m @ to_be_bytes 4 a))" "c = k"
    by (auto simp: footer_verdict_def split: if_splits)
  then show "\<exists>payload. b = write_footer K threads payload \<and> payload_end = length payload \<and>
       c = ucast (crc32 K threads (take (length b - 8) b))"
    using b fit by (intro exI [of _ payload]) (simp add: write_footer_eq footer_bytes_def)
next
  assume "\<exists>payload. b = write_footer K threads payload \<and> payload_end = length payload \<and>
       c = ucast (crc32 K threads (take (length b - 8) b))"
  then obtain payload where p: "b = write_footer K threads payload" "payload_end = length payload"
      "c = ucast (crc32 K threads (take (length b - 8) b))" by blast
  let ?crc = "crc32 K threads (payload @ to_be_bytes 4 FOOTER_MAGIC @ to_be_bytes 4 (0 :: u32))"
  have b: "b = payload @ to_be_bytes 4 FOOTER_MAGIC @ to_be_bytes 4 (0 :: u32) @ to_be_bytes 8 (ucast ?crc :: u64)"
    using p(1) by (simp add: write_footer_eq footer_bytes_def)
  then have "take (length b - 8) b = payload @ to_be_bytes 4 FOOTER_MAGIC @ to_be_bytes 4 (0 :: u32)" by simp
  with p(3) have "c = ucast ?crc" by simp
  then have "fst (check_footer K threads (length b) \<lparr>sbuf = b, pos = length payload\<rparr>) = Inr c"
    using check_footer_eval(1) [OF assms b, of K threads] by (simp add: footer_verdict_def crc_fits)
  moreover have "length payload \<le> length b" using b by simp
  ultimately show "check_whole_file_footer K threads b payload_end = Inr c"
    using p(2) by (simp add: whole_file_footer_eval)
qed

definition xor_hasher :: "u8 list crc32fast" where
  "xor_hasher = \<lparr>hash = \<lambda>bs. foldr (\<lambda>b acc. ucast b XOR acc) bs 0, hasher_new = [], hasher_update = (@),
     hasher_combine = (@), hasher_finalize = \<lambda>bs. foldr (\<lambda>b acc. ucast b XOR acc) bs 0\<rparr>"

theorem footer_accepts_exactly_witness:
  "check_whole_file_footer xor_hasher 4 (write_footer xor_hasher 4 [1, 2, 3]) 3 =
     Inr (ucast (crc32 xor_hasher 4 (take (length (write_footer xor_hasher 4 [1, 2, 3]) - 8) (write_footer xor_hasher 4 [1, 2, 3]))))"
proof -
  have "length (write_footer xor_hasher 4 [1, 2, 3]) \<le> usize_max"
    by (simp add: write_footer_eq footer_bytes_def usize_max_def)
  then show ?thesis
    using footer_accepts_exactly [of "write_footer xor_hasher 4 [1, 2, 3]" xor_hasher 4 3] by force
qed

text \<open>
  The structural check agrees with the full one: on a file that passes \<open>check_whole_file_footer\<close>,
  \<open>retrieve_checksum\<close> returns the same checksum, and with the expected length it does so exactly when the
  length is the file's. On a file cut short or extended it reports which.
\<close>
theorem retrieve_checksum_agrees:
  assumes "length b \<le> usize_max" and "check_whole_file_footer K threads b payload_end = Inr c"
  shows "retrieve_checksum b = Inr c \<and>
    retrieve_checksum_with_expected_length b n =
      (if n < 16 then Inl (Corrupted (ExpectedLengthTooSmall n))
       else if length b < n then Inl (Corrupted (TruncatedFile (length b) n))
       else if n < length b then Inl (Corrupted (FileTooLong (length b) n)) else Inr c)"
proof -
  have ok: "fst (check_footer K threads (length b) \<lparr>sbuf = b, pos = payload_end\<rparr>) = Inr c"
    using assms(2) by (auto simp: whole_file_footer_eval split: if_splits)
  then have fit: "16 \<le> length b" "payload_end = length b - 16"
    by (auto simp: check_footer_def FOOTER_LENGTH_def Let_def split: if_splits)
  obtain payload and m a :: u32 and k :: u64 where
    b: "b = payload @ to_be_bytes 4 m @ to_be_bytes 4 a @ to_be_bytes 8 k" "length payload = length b - 16"
    using footer_shape [OF fit(1)] by blast
  have "footer_verdict m a k (Some (ucast (crc32 K threads (payload @ to_be_bytes 4 m @ to_be_bytes 4 a)))) = Inr c"
    using check_footer_eval(1) [OF assms(1) b(1), of K threads] ok unfolding fit(2) b(2) by simp
  then have "retrieve_checksum b = Inr c"
    unfolding check_footer_eval(2) [OF assms(1) b(1)] by (auto simp: footer_verdict_def split: if_splits)
  then show ?thesis by (simp add: retrieve_checksum_with_expected_length_def FOOTER_LENGTH_def)
qed

theorem retrieve_checksum_agrees_witness:
  "\<exists>c. retrieve_checksum (write_footer xor_hasher 4 [1, 2, 3]) = Inr c"
proof -
  let ?b = "write_footer xor_hasher 4 [1, 2, 3]"
  have len: "length ?b = 19" "length ?b \<le> usize_max"
    by (simp_all add: write_footer_eq footer_bytes_def usize_max_def)
  have b: "?b = [1, 2, 3] @ to_be_bytes 4 FOOTER_MAGIC @ to_be_bytes 4 (0 :: u32) @ to_be_bytes 8
      (ucast (crc32 xor_hasher 4 ([1, 2, 3] @ to_be_bytes 4 FOOTER_MAGIC @ to_be_bytes 4 (0 :: u32))) :: u64)"
    by (simp add: write_footer_eq footer_bytes_def)
  have "\<exists>c. check_whole_file_footer xor_hasher 4 ?b 3 = Inr c"
    using check_footer_eval(1) [OF len(2) b, of xor_hasher 4] len(1)
    by (simp add: footer_verdict_def crc_fits whole_file_footer_eval numeral_3_eq_3)
  then show ?thesis using retrieve_checksum_agrees [OF len(2)] by blast
qed

text \<open>
  Hashing a large file in parallel pieces gives the hash of the whole file, for every number of threads,
  from what \<open>crc32fast\<close> documents about its hasher.
\<close>
theorem parallel_crc32:
  assumes "crc32fast_laws K"
  shows "crc32 K threads b = hash K b"
proof -
  define pieces where "pieces = max 1 (min threads (length b div (PARALLEL_CRC_MIN div 2)))"
  define piece where "piece = (length b + pieces - 1) div pieces"
  have hash: "hasher_finalize K (foldl (hasher_combine K)
      (case map (hasher_update K (hasher_new K)) (pieces_of piece b) of [] \<Rightarrow> hasher_new K | h # _ \<Rightarrow> h)
      (tl (map (hasher_update K (hasher_new K)) (pieces_of piece b)))) = hash K b" if big: "PARALLEL_CRC_MIN \<le> length b"
  proof -
    have "0 < length b" using big by (auto simp: PARALLEL_CRC_MIN_def)
    have "0 < pieces" by (simp add: pieces_def)
    with \<open>0 < length b\<close> have "pieces \<le> length b + pieces - 1" by linarith
    with \<open>0 < pieces\<close> have pos: "0 < piece" by (simp add: piece_def div_greater_zero_iff)
    obtain p ps where ps: "pieces_of piece b = p # ps"
      using pos \<open>0 < length b\<close> pieces_of.simps [of piece b] by auto
    then have "b = p @ concat ps" using concat_pieces [OF pos, of b] by simp
    with ps show ?thesis using assms combine_all [OF assms, of p ps] by (simp add: crc32fast_laws_def)
  qed
  show ?thesis
    using hash unfolding crc32_def pieces_def [symmetric] Let_def piece_def [symmetric] by simp
qed

theorem parallel_crc32_witness: "crc32 xor_hasher 8 (replicate 9000000 5) = hash xor_hasher (replicate 9000000 5)"
  by (rule parallel_crc32) (simp add: crc32fast_laws_def xor_hasher_def)

end
