(* ===== verification/Framed_Files.thy ===== *)
theory Framed_Files
  imports Wire_Round_Trip Codec_Util
begin

text \<open>
  What the parsers of whole files share: a file is an index header, a body written with the wire primitives and a
  footer. Reading leaves the buffer alone (\<open>keeps (reading b)\<close>), an index header that was written is accepted, and a
  parser that decodes the body succeeds on the whole file (\<open>parse_framed\<close>).
\<close>

section \<open>Decoding\<close>

lemma decodes_last:
  assumes "decodes ok rest P bs v" and "decodes ok rest (f v) [] w"
  shows "decodes ok rest (bnd P f) bs w"
  using decodes_bnd [of ok rest P bs v f "[]" w] assms by simp

lemma decodes_map_err: "decodes ok rest P bs v \<Longrightarrow> decodes ok rest (map_err g P) bs v"
  unfolding decodes_def by (metis map_err_Inr)

lemma small_count: "n < 2 ^ 31 \<Longrightarrow> sint (of_nat n :: i32) = int n"
proof -
  assume "n < 2 ^ 31"
  then have "unat (of_nat n :: i32) = n" by (simp add: unsigned_of_nat take_bit_nat_eq_self)
  then show ?thesis using \<open>n < 2 ^ 31\<close> sint_eq_unat [of "of_nat n :: i32"] by simp
qed

lemma length_concat_ge: "(\<And>x. x \<in> set xs \<Longrightarrow> 1 \<le> length (f x)) \<Longrightarrow> length xs \<le> length (concat (map f xs))"
proof (induction xs)
  case (Cons x xs)
  then have "1 \<le> length (f x)" "length xs \<le> length (concat (map f xs))" by auto
  then show ?case by simp
qed simp

lemma good_ascii: "list_all (\<lambda>b. b < 0x80) str \<Longrightarrow> length str < 2 ^ 31 \<Longrightarrow> good_string str"
  by (simp add: good_string_def valid_utf8_ascii list_all_iff)

lemma index_header_decodes:
  assumes "length i = ID_LENGTH" and "length suffix < 256" and "length codec < 2 ^ 31" and "sint mn \<le> sint v" and "sint v \<le> sint mx"
  shows "decodes slice_ok as_slice (check_index_header codec mn mx i suffix) (index_header_bytes codec v i suffix)
    \<lparr>ih_version = v, ih_id = i, ih_suffix = suffix\<rparr>"
  unfolding check_index_header_def index_header_bytes_def
proof (rule decodes_bnd)
  show "decodes slice_ok as_slice (check_header codec mn mx) (header_bytes codec v) \<lparr>version = v\<rparr>"
    using header_read [of _ codec v _ codec mn mx] assms(3-5) by (fastforce simp: decodes_def)
  have "decodes slice_ok as_slice (check_index_header_id i) i i"
    using id_read [of _ i _ i] assms(1) by (simp add: decodes_def)
  moreover have "decodes slice_ok as_slice (check_index_header_suffix suffix) ([of_nat (length suffix)] @ suffix) suffix"
    using suffix_read [OF _ _ assms(2), of _ _ suffix] by (simp add: decodes_def)
  ultimately show "decodes slice_ok as_slice (bnd (check_index_header_id i) (\<lambda>i. bnd (check_index_header_suffix suffix) (\<lambda>suffix.
      ret \<lparr>ih_version = version \<lparr>version = v\<rparr>, ih_id = i, ih_suffix = suffix\<rparr>)))
      (i @ [of_nat (length suffix)] @ suffix) \<lparr>ih_version = v, ih_id = i, ih_suffix = suffix\<rparr>"
    using decodes_map [of slice_ok as_slice "check_index_header_suffix suffix" _ suffix "\<lambda>suffix. \<lparr>ih_version = v, ih_id = i, ih_suffix = suffix\<rparr>"]
    by (intro decodes_bnd [of slice_ok as_slice "check_index_header_id i" i i]) simp_all
qed

lemma length_string_bytes_le: "length (string_bytes str) \<le> 10 + length str"
  using groups_bounds(2) by (simp add: string_bytes_def length_encode_varint)

lemma length_write_footer: "length (write_footer K threads b) = length b + 16"
  by (simp add: write_footer_eq footer_bytes_def)

section \<open>Reading\<close>

text \<open>Reading moves the cursor and leaves the buffer alone.\<close>

abbreviation reading :: "u8 list \<Rightarrow> slice_input \<Rightarrow> bool" where
  "reading b s \<equiv> slice_ok s \<and> sbuf s = b"

lemma keeps_map_err: "keeps ok P \<Longrightarrow> keeps ok (map_err g P)"
  by (auto simp: keeps_def map_err_def split: prod.splits sum.splits)

lemma keeps_lift_res: "keeps ok (lift_res r)"
  by (auto simp: keeps_def)

lemma keeps_conj: "keeps p P \<Longrightarrow> keeps q P \<Longrightarrow> keeps (\<lambda>s. p s \<and> q s) P"
  unfolding keeps_def by blast

lemma keeps_reading_core:
  "keeps (reading b) slice_read_byte" "keeps (reading b) (slice_read_bytes n)" "keeps (reading b) (slice_seek n)"
proof -
  have "keeps (\<lambda>s. sbuf s = b) slice_read_byte" "keeps (\<lambda>s. sbuf s = b) (slice_read_bytes n)" "keeps (\<lambda>s. sbuf s = b) (slice_seek n)"
    by (auto simp: keeps_def slice_read_byte_def slice_read_bytes_def slice_seek_def split: option.splits if_splits)
  then show "keeps (reading b) slice_read_byte" "keeps (reading b) (slice_read_bytes n)" "keeps (reading b) (slice_seek n)"
    by (auto intro!: keeps_conj keeps_slice_core)
qed

lemma keeps_reading_varints: "keeps (reading b) slice_read_vint" "keeps (reading b) slice_read_vlong"
proof -
  have eqs: "slice_read_vint = bnd slice_read_byte (\<lambda>x. vint_loop slice_read_byte x (ucast (x AND 0x7f)) 7)"
      "slice_read_vlong = bnd slice_read_byte (\<lambda>x. vlong_loop slice_read_byte x (ucast (x AND 0x7f)) 7)"
    by (auto simp: fun_eq_iff slice_read_vint_eq slice_read_vlong_eq read_vint_loop_def read_vlong_loop_def)
  show "keeps (reading b) slice_read_vint" "keeps (reading b) slice_read_vlong"
    unfolding eqs by (intro keeps_bnd keeps_vint_loop keeps_vlong_loop keeps_reading_core)+
qed

lemma keeps_reading_length: "keeps (reading b) (read_length slice_impl what)"
proof -
  have "read_vint slice_impl = slice_read_vint" by (simp add: slice_impl_def)
  then have "keeps (reading b) (read_vint slice_impl)" by (simp add: keeps_reading_varints)
  then show ?thesis
    unfolding read_length_def by (rule keeps_bnd) (auto simp: keeps_def Let_def split: if_splits)
qed

lemma keeps_reading_string: "keeps (reading b) slice_read_string"
  unfolding keeps_def
proof (intro allI impI)
  fix s r s' assume s: "reading b s" "slice_read_string s = (r, s')"
  obtain r1 s1 where r1: "read_length slice_impl ''string'' s = (r1, s1)" by (metis surj_pair)
  then have "reading b s1" using keepsD [OF keeps_reading_length s(1)] by blast
  moreover have "nat_ok \<le> length (sbuf s1) - pos s1" if "r1 = Inr nat_ok" for nat_ok
    using r1 that by (auto simp: read_length_def bnd_def slice_impl_def slice_remaining_def Let_def split: prod.splits sum.splits if_splits)
  ultimately show "reading b s'"
    using s(2) r1 by (cases r1) (auto simp: slice_read_string_def slice_ok_def Let_def split: if_splits)
qed

lemma keeps_reading_pairs: "keeps ok rs \<Longrightarrow> keeps ok (read_pairs rs n)"
  by (induction n) auto

lemma keeps_reading_strings:
  "keeps (reading b) (read_set_of_strings slice_impl slice_read_string)"
  "keeps (reading b) (read_map_of_strings slice_impl slice_read_string)"
  unfolding read_set_of_strings_def read_map_of_strings_def
  by (intro keeps_bnd keeps_reading_length keeps_many keeps_reading_pairs keeps_reading_string)+

lemma keeps_reading_fixed:
  "keeps (reading b) (read_be_u32 slice_impl)" "keeps (reading b) (read_be_i32 slice_impl)" "keeps (reading b) (read_be_u64 slice_impl)"
proof -
  have "read_bytes slice_impl = slice_read_bytes" by (simp add: slice_impl_def)
  then show u32: "keeps (reading b) (read_be_u32 slice_impl)"
    unfolding read_be_u32_def by (intro keeps_bnd) (auto simp: keeps_reading_core)
  show "keeps (reading b) (read_be_i32 slice_impl)" "keeps (reading b) (read_be_u64 slice_impl)"
    unfolding read_be_i32_def read_be_u64_def by (intro keeps_bnd u32 keeps_ret)+
qed

lemma keeps_reading_framed:
  "keeps (reading b) read_string_bytes" "keeps (reading b) (check_index_header_suffix suffix)"
proof -
  show "keeps (reading b) read_string_bytes"
    unfolding read_string_bytes_def
  proof (intro keeps_bnd keeps_reading_length)
    fix len show "keeps (reading b) (\<lambda>s. let start = pos s; end = saturating_add start len in
       case slice_range s start end of Inl e \<Rightarrow> fail e s | Inr bytes \<Rightarrow> bnd (slice_seek end) (\<lambda>_. ret bytes) s)"
      by (auto simp: keeps_def Let_def bnd_def slice_seek_def slice_ok_def split: sum.splits if_splits prod.splits)
  qed
  show "keeps (reading b) (check_index_header_suffix suffix)"
    unfolding check_index_header_suffix_def
    by (intro keeps_bnd keeps_reading_core)
       (auto simp: keeps_def Let_def bnd_def slice_seek_def slice_ok_def split: sum.splits if_splits prod.splits)
qed

lemma keeps_reading_header: "keeps (reading b) (check_header codec mn mx)"
  unfolding check_header_def check_header_no_magic_def
  by (intro keeps_bnd keeps_reading_fixed) (auto intro!: keeps_bnd keeps_reading_fixed keeps_reading_framed)

lemmas keeps_reading = keeps_map_err keeps_lift_res keeps_reading_core keeps_reading_varints keeps_reading_string
  keeps_reading_strings keeps_reading_fixed keeps_reading_framed keeps_reading_header keeps_many keeps_ret keeps_fail

lemma keeps_if: "keeps ok P \<Longrightarrow> keeps ok Q \<Longrightarrow> keeps ok (if c then P else Q)"
  by simp

lemma keeps_pointwise_if: "keeps ok P \<Longrightarrow> keeps ok Q \<Longrightarrow> keeps ok (\<lambda>s. if c s then P s else Q s)"
  unfolding keeps_def by metis

lemma keeps_reading_index_header: "keeps (reading b) (check_index_header codec mn mx i suffix)"
  unfolding check_index_header_def check_index_header_id_def by (intro keeps_bnd keeps_if keeps_reading)

text \<open>A file that is a payload and a footer: a parser that reads the payload and then checks the footer succeeds.\<close>

lemma parse_framed:
  assumes "decodes slice_ok as_slice P payload v" and "\<And>b. keeps (reading b) P"
    and b: "b = write_footer K threads payload" and len: "length b \<le> usize_max"
  shows "fst (bnd P (\<lambda>v. bnd (map_err g (check_footer K threads (length b))) (\<lambda>_. ret v)) (slice_new b)) = Inr v"
proof -
  define crc where "crc = crc32 K threads (payload @ to_be_bytes 4 FOOTER_MAGIC @ to_be_bytes 4 (0 :: u32))"
  have bb: "b = payload @ to_be_bytes 4 FOOTER_MAGIC @ to_be_bytes 4 (0 :: u32) @ to_be_bytes 8 (ucast crc :: u64)"
    unfolding b crc_def by (simp add: write_footer_eq footer_bytes_def)
  have start: "slice_ok (slice_new b)" "as_slice (slice_new b) = payload @ drop (length payload) b"
    using len bb by (simp_all add: slice_ok_def slice_new_def as_slice_def)
  then obtain s where s: "P (slice_new b) = (Inr v, s)" "slice_ok s" "as_slice s = drop (length payload) b"
    using assms(1) unfolding decodes_def by blast
  moreover have "sbuf s = b"
    using keepsD [OF assms(2) _ s(1), of b] start by (simp add: slice_new_def)
  moreover have "length b = length payload + 16" using bb by simp
  ultimately have "s = \<lparr>sbuf = b, pos = length payload\<rparr>"
    by (cases s) (auto simp: as_slice_def slice_ok_def dest!: arg_cong [of _ _ length])
  moreover have "fst (check_footer K threads (length b) \<lparr>sbuf = b, pos = length payload\<rparr>) = Inr (ucast crc)"
    unfolding check_footer_eval(1) [OF len bb] by (simp add: footer_verdict_def crc_fits crc_def)
  ultimately show ?thesis using s(1) by (cases "check_footer K threads (length b) s") simp
qed

end
