(* ===== verification/Live_Docs.thy ===== *)
theory Live_Docs
  imports Fixed_Bit_Set Base36 Framed_Files
begin

text \<open>
  The live documents of a segment: the trait \<open>Bits\<close> of \<open>lucene-util/src/bits.rs\<close> and the \<open>.liv\<close> files of
  \<open>lucene-codecs/src/live_docs.rs\<close>, one bit per document between an index header and a footer. \<open>Bits\<close> is a record
  of its methods; the locale \<open>bits_source\<close> says what the writer needs of an implementation, and the dense set,
  \<open>MatchAllBits\<close> and \<open>MatchNoBits\<close> interpret it.
\<close>

section \<open>Bits\<close>

record bits_methods =
  bits_get :: "nat \<Rightarrow> bool panics"
  bits_length :: nat
  bits_apply_mask :: "fixed_bit_set \<Rightarrow> nat \<Rightarrow> fixed_bit_set panics"

lemma scan_set_ge: "\<forall>j<k. \<not> bit word j \<Longrightarrow> k \<le> 64 \<Longrightarrow> scan_set ws i word = Some r \<Longrightarrow> i * 64 + k \<le> r"
proof (induction ws i word arbitrary: k rule: scan_set.induct)
  case (1 ws i word)
  show ?case
  proof (cases "word = 0")
    case False
    then have "bit word (trailing_zeros word)" by (rule bit_trailing_zeros)
    then have "k \<le> trailing_zeros word" using "1.prems"(1) not_less by blast
    then show ?thesis using False "1.prems"(3) by (auto simp: scan_set.simps [of ws i word])
  next
    case True
    then have "i + 1 < length ws" "scan_set ws (i + 1) (ws ! (i + 1)) = Some r"
      using "1.prems"(3) by (auto simp: scan_set.simps [of ws i 0] split: if_splits)
    then show ?thesis using "1.IH" [of 0] True "1.prems"(2) by simp
  qed
qed

lemma next_set_bit_ge: "next_set_bit b i = Some r \<Longrightarrow> i \<le> r"
  using scan_set_ge [of "i mod 64" "words b ! (i div 64) AND FROM_BIT (i mod 64)" "words b" "i div 64" r]
  by (auto simp: next_set_bit_def Let_def FROM_BIT_def bit_simps split: if_splits)

lemma num_bits_clear: "clear b i = Inr b' \<Longrightarrow> num_bits b' = num_bits b"
  by (auto simp: clear_def split: if_splits)

text \<open>The default \<open>apply_mask\<close>: the loop over the set bits, \<open>i\<close> the position it looks at.\<close>

function mask_loop :: "(nat \<Rightarrow> bool panics) \<Rightarrow> nat \<Rightarrow> fixed_bit_set \<Rightarrow> nat option \<Rightarrow> fixed_bit_set panics" where
  "mask_loop bget offset target None = Inr target"
| "mask_loop bget offset target (Some b) =
     (case bget (offset + b) of
        Inl p \<Rightarrow> Inl p
      | Inr live \<Rightarrow>
          (case (if \<not> live then clear target b else Inr target) of
             Inl p \<Rightarrow> Inl p
           | Inr target' \<Rightarrow>
               mask_loop bget offset target' (if len target' \<le> b + 1 then None else next_set_bit target' (b + 1))))"
  by pat_completeness auto
termination
proof (relation "measure (\<lambda>(g, off, bs, i). case i of None \<Rightarrow> 0 | Some b \<Rightarrow> Suc (num_bits bs - b))", simp)
  fix bget :: "nat \<Rightarrow> bool panics" and offset b and bs bs' :: fixed_bit_set and live
  assume "(if \<not> live then clear bs b else Inr bs) = Inr bs'"
  then have n: "num_bits bs' = num_bits bs" by (auto simp: num_bits_clear split: if_splits)
  show "((bget, offset, bs', if len bs' \<le> b + 1 then None else next_set_bit bs' (b + 1)), (bget, offset, bs, Some b))
      \<in> measure (\<lambda>(g, off, bs, i). case i of None \<Rightarrow> 0 | Some b \<Rightarrow> Suc (num_bits bs - b))"
    using n next_set_bit_ge [of bs' "b + 1"] by (auto simp: len_def split: option.splits)
qed

definition default_apply_mask :: "(nat \<Rightarrow> bool panics) \<Rightarrow> fixed_bit_set \<Rightarrow> nat \<Rightarrow> fixed_bit_set panics" where
  "default_apply_mask bget target offset = mask_loop bget offset target (next_set_bit target 0)"

definition match_all_bits :: "nat \<Rightarrow> bits_methods" where
  "match_all_bits n = \<lparr>bits_get = \<lambda>_. Inr True, bits_length = n, bits_apply_mask = default_apply_mask (\<lambda>_. Inr True)\<rparr>"

definition match_no_bits :: "nat \<Rightarrow> bits_methods" where
  "match_no_bits n = \<lparr>bits_get = \<lambda>_. Inr False, bits_length = n, bits_apply_mask = default_apply_mask (\<lambda>_. Inr False)\<rparr>"

text \<open>The override of \<open>FixedBitSet\<close>; its \<open>panic!\<close> on a bit past the end is a failed assertion.\<close>

definition fixed_bits :: "fixed_bit_set \<Rightarrow> bits_methods" where
  "fixed_bits b =
     \<lparr>bits_get = get b, bits_length = len b,
      bits_apply_mask = \<lambda>target offset.
        case apply_mask b target offset of
          Inl p \<Rightarrow> Inl p
        | Inr (None, _) \<Rightarrow> Inl AssertionFailed
        | Inr (Some _, target) \<Rightarrow> Inr target\<rparr>"

section \<open>The .liv format\<close>

definition LIVE_CODEC_NAME :: "u8 list" where
  "LIVE_CODEC_NAME = ascii ''Lucene90LiveDocs''"

definition LIVE_VERSION_START :: i32 where
  "LIVE_VERSION_START = 0"

definition LIVE_VERSION_CURRENT :: i32 where
  "LIVE_VERSION_CURRENT = 0"

datatype live_error =
    LiveStore error
  | DelCountMismatch nat nat
  | GhostBitsSet nat
  | LivePanic panic

type_synonym 'a live_parser = "(slice_input, live_error, 'a) fallible"

definition no_panic :: "'a panics \<Rightarrow> live_error + 'a" where
  "no_panic r = map_sum LivePanic id r"

definition live_words :: "u8 list \<Rightarrow> i64 \<Rightarrow> nat \<Rightarrow> u64 list live_parser" where
  "live_words segid del_gen max_doc =
     bnd (map_err LiveStore (check_index_header LIVE_CODEC_NAME LIVE_VERSION_START LIVE_VERSION_CURRENT segid (to_base36 del_gen))) (\<lambda>_.
     bnd (map_err LiveStore (slice_read_i64s (bits2words max_doc))) (\<lambda>ws.
       if ws \<noteq> [] \<and> max_doc mod 64 \<noteq> 0 \<and> drop_bit (max_doc mod 64) (last ws) \<noteq> 0 then fail (GhostBitsSet max_doc)
       else ret ws))"

definition check_del_count :: "nat \<Rightarrow> nat \<Rightarrow> 'a \<Rightarrow> live_error + 'a" where
  "check_del_count actual expected r = (if actual \<noteq> expected then Inl (DelCountMismatch actual expected) else Inr r)"

text \<open>A subtraction that would underflow is a panic.\<close>

definition live_parse ::
    "('h, 'z) crc32fast_scheme \<Rightarrow> nat \<Rightarrow> u8 list \<Rightarrow> u8 list \<Rightarrow> i64 \<Rightarrow> nat \<Rightarrow> nat \<Rightarrow> live_error + fixed_bit_set" where
  "live_parse K threads b segid del_gen max_doc expected_del_count =
     fst (bnd (live_words segid del_gen max_doc) (\<lambda>ws.
          bnd (lift_res (no_panic (from_words ws max_doc))) (\<lambda>live_docs.
          bnd (map_err LiveStore (check_footer K threads (length b))) (\<lambda>_.
            lift_res (if max_doc < cardinality live_docs then Inl (LivePanic AssertionFailed)
              else check_del_count (max_doc - cardinality live_docs) expected_del_count live_docs))))
        (slice_new b))"

text \<open>\<open>None\<close> is a panic of \<open>write_index_header\<close>, whose buffer is too small for a header.\<close>

definition live_write ::
    "('h, 'z) crc32fast_scheme \<Rightarrow> nat \<Rightarrow> fixed_bit_set \<Rightarrow> u8 list \<Rightarrow> i64 \<Rightarrow> nat \<Rightarrow> (live_error + u8 list) option" where
  "live_write K threads live_docs segid del_gen expected_del_count =
     (case write_index_header bytes_impl [] LIVE_CODEC_NAME LIVE_VERSION_CURRENT segid (to_base36 del_gen) of
        None \<Rightarrow> None
      | Some out \<Rightarrow>
          let out = foldl (write_i64 bytes_impl) out (words live_docs);
              out = write_footer K threads out
          in Some (if len live_docs < cardinality live_docs then Inl (GhostBitsSet (len live_docs))
                   else check_del_count (len live_docs - cardinality live_docs) expected_del_count out))"

definition BATCH :: nat where
  "BATCH = 1024"

text \<open>One round of the loop: the next 1024 documents, masked.\<close>

definition masked_batch :: "bits_methods \<Rightarrow> fixed_bit_set \<Rightarrow> nat \<Rightarrow> nat \<Rightarrow> fixed_bit_set panics" where
  "masked_batch B copy n offset =
     (case set_range copy 0 BATCH of
        Inl p \<Rightarrow> Inl p
      | Inr copy \<Rightarrow>
          (case clear_range copy n BATCH of
             Inl p \<Rightarrow> Inl p
           | Inr copy \<Rightarrow> bits_apply_mask B copy offset))"

text \<open>The loop of \<open>write_bits\<close>. A \<open>usize\<close> below another one is below \<open>usize::MAX\<close>, so the second test never fails.\<close>

function write_batches :: "bits_methods \<Rightarrow> fixed_bit_set \<Rightarrow> nat \<Rightarrow> nat \<Rightarrow> u8 list \<Rightarrow> (nat \<times> u8 list) panics" where
  "write_batches B copy offset live out =
     (if offset < bits_length B \<and> offset < usize_max then
        let n = min BATCH (bits_length B - offset) in
        case masked_batch B copy n offset of
          Inl p \<Rightarrow> Inl p
        | Inr copy \<Rightarrow>
            write_batches B copy (saturating_add offset BATCH) (saturating_add live (cardinality copy))
              (foldl (write_i64 bytes_impl) out (take (bits2words n) (words copy)))
      else Inr (live, out))"
  by pat_completeness auto
termination
  by (relation "measure (\<lambda>(B, copy, offset, live, out). usize_max - offset)") (auto simp: saturating_add_def BATCH_def)

declare write_batches.simps [simp del]

definition write_bits ::
    "('h, 'z) crc32fast_scheme \<Rightarrow> nat \<Rightarrow> bits_methods \<Rightarrow> u8 list \<Rightarrow> i64 \<Rightarrow> nat \<Rightarrow> (live_error + u8 list) option" where
  "write_bits K threads live_docs segid del_gen expected_del_count =
     (case write_index_header bytes_impl [] LIVE_CODEC_NAME LIVE_VERSION_CURRENT segid (to_base36 del_gen) of
        None \<Rightarrow> None
      | Some out \<Rightarrow>
          (case write_batches live_docs (new_bit_set BATCH) 0 0 out of
             Inl p \<Rightarrow> Some (Inl (LivePanic p))
           | Inr (live, out) \<Rightarrow>
               Some (check_del_count (bits_length live_docs - live) expected_del_count (write_footer K threads out))))"

section \<open>Sources of live documents\<close>

text \<open>What the writer needs of a \<open>Bits\<close> object \<open>x\<close> that stands for the set \<open>abs x\<close>.\<close>

locale bits_source =
  fixes methods :: "'b \<Rightarrow> bits_methods" and abs :: "'b \<Rightarrow> nat set" and ok :: "'b \<Rightarrow> bool"
  assumes abs_below: "ok x \<Longrightarrow> abs x \<subseteq> {..<bits_length (methods x)}"
    and mask_law: "ok x \<Longrightarrow> wf_bits m \<Longrightarrow> offset \<le> bits_length (methods x) \<Longrightarrow>
      bits_of m \<subseteq> {..<bits_length (methods x) - offset} \<Longrightarrow>
      \<exists>m'. bits_apply_mask (methods x) m offset = Inr m' \<and> wf_bits m' \<and> num_bits m' = num_bits m \<and>
        bits_of m' = {j \<in> bits_of m. offset + j \<in> abs x}"

lemma mask_loop_law:
  assumes "\<And>j. j \<in> bits_of m \<Longrightarrow> k \<le> j \<Longrightarrow> bget (offset + j) = Inr (offset + j \<in> S)" and "wf_bits m"
  shows "\<exists>m'. mask_loop bget offset m (next_set_bit m k) = Inr m' \<and> wf_bits m' \<and> num_bits m' = num_bits m \<and>
    bits_of m' = {j \<in> bits_of m. k \<le> j \<longrightarrow> offset + j \<in> S}"
  using assms
proof (induction "num_bits m - k" arbitrary: m k rule: less_induct)
  case less
  note nx = fbs.next_law [OF less.prems(2), of k]
  show ?case
  proof (cases "next_set_bit m k")
    case None
    then show ?thesis using nx less.prems(2) by (auto simp: is_next_def disjoint_iff)
  next
    case (Some b)
    then have b: "b \<in> bits_of m" "k \<le> b" "bits_of m \<inter> {k..<b} = {}" "b < num_bits m"
      using nx wf_bound [OF less.prems(2)] by (auto simp: is_next_def)
    obtain m1 where m1: "(if \<not> offset + b \<in> S then clear m b else Inr m) = Inr m1" "wf_bits m1" "num_bits m1 = num_bits m"
        "bits_of m1 = {j \<in> bits_of m. j = b \<longrightarrow> offset + b \<in> S}"
      using fbs.clear_law [OF less.prems(2) b(4)] less.prems(2) by (cases "offset + b \<in> S") auto
    have get: "bget (offset + b) = Inr (offset + b \<in> S)" using less.prems(1) b by blast
    have step: "mask_loop bget offset m (next_set_bit m k) =
        mask_loop bget offset m1 (if len m1 \<le> b + 1 then None else next_set_bit m1 (b + 1))"
      using Some get m1(1) by simp
    have nxt: "(if len m1 \<le> b + 1 then None else next_set_bit m1 (b + 1)) = next_set_bit m1 (b + 1)"
      by (simp add: len_def next_set_bit_def)
    have "num_bits m1 - (b + 1) < num_bits m - k" using b m1(3) by linarith
    from less.hyps [OF this _ m1(2)] obtain m2 where m2: "mask_loop bget offset m1 (next_set_bit m1 (b + 1)) = Inr m2" "wf_bits m2"
        "num_bits m2 = num_bits m" "bits_of m2 = {j \<in> bits_of m1. b + 1 \<le> j \<longrightarrow> offset + j \<in> S}"
      using less.prems(1) b(2) m1(3,4) by auto
    have "bits_of m2 = {j \<in> bits_of m. k \<le> j \<longrightarrow> offset + j \<in> S}"
      unfolding m2(4) m1(4) using b by (auto simp: disjoint_iff not_less [symmetric] Suc_le_eq less_Suc_eq)
    then show ?thesis using m2 step nxt by simp
  qed
qed

lemma default_mask_law:
  assumes "wf_bits m" and "\<And>j. j \<in> bits_of m \<Longrightarrow> bget (offset + j) = Inr (offset + j \<in> S)"
  shows "\<exists>m'. default_apply_mask bget m offset = Inr m' \<and> wf_bits m' \<and> num_bits m' = num_bits m \<and>
    bits_of m' = {j \<in> bits_of m. offset + j \<in> S}"
  using mask_loop_law [of m 0 bget offset S] assms by (simp add: default_apply_mask_def)

interpretation all_source: bits_source match_all_bits "\<lambda>n. {..<n}" "\<lambda>_. True"
proof
  fix n m offset
  assume m: "wf_bits m" "bits_of m \<subseteq> {..<bits_length (match_all_bits n) - offset}"
  then have "offset + j < n" if "j \<in> bits_of m" for j using that by (auto simp: match_all_bits_def)
  then show "\<exists>m'. bits_apply_mask (match_all_bits n) m offset = Inr m' \<and> wf_bits m' \<and> num_bits m' = num_bits m \<and>
      bits_of m' = {j \<in> bits_of m. offset + j \<in> {..<n}}"
    using default_mask_law [OF m(1), of "\<lambda>_. Inr True" offset "{..<n}"] by (simp add: match_all_bits_def)
qed (simp add: match_all_bits_def)

interpretation none_source: bits_source match_no_bits "\<lambda>n. {}" "\<lambda>_. True"
proof
  fix n m offset
  assume "wf_bits m"
  then show "\<exists>m'. bits_apply_mask (match_no_bits n) m offset = Inr m' \<and> wf_bits m' \<and> num_bits m' = num_bits m \<and>
      bits_of m' = {j \<in> bits_of m. offset + j \<in> {}}"
    using default_mask_law [of m "\<lambda>_. Inr False" offset "{}"] by (simp add: match_no_bits_def)
qed simp

interpretation fixed_source: bits_source fixed_bits bits_of wf_bits
proof
  fix x m offset
  assume x: "wf_bits x" and m: "wf_bits m" "offset \<le> bits_length (fixed_bits x)" "bits_of m \<subseteq> {..<bits_length (fixed_bits x) - offset}"
  then have below: "j < num_bits x - offset" if "j \<in> bits_of m" for j using that by (auto simp: fixed_bits_def len_def)
  then have none: "\<not> (\<exists>j \<in> bits_of m. num_bits x - offset \<le> j)" by (auto simp: not_less [symmetric])
  have "offset \<le> num_bits x" using m(2) by (simp add: fixed_bits_def len_def)
  then obtain m' where m': "apply_mask x m offset =
      Inr (if \<exists>j \<in> bits_of m. num_bits x - offset \<le> j then None else Some (), m')" "wf_bits m'" "num_bits m' = num_bits m"
      "bits_of m' = {j \<in> bits_of m. j < num_bits x - offset \<longrightarrow> offset + j \<in> bits_of x}"
    by (rule apply_mask_refines [OF x m(1)])
  have "bits_apply_mask (fixed_bits x) m offset = Inr m'" using m'(1) none by (simp add: fixed_bits_def)
  moreover have "bits_of m' = {j \<in> bits_of m. offset + j \<in> bits_of x}" unfolding m'(4) using below by blast
  ultimately show "\<exists>m'. bits_apply_mask (fixed_bits x) m offset = Inr m' \<and> wf_bits m' \<and> num_bits m' = num_bits m \<and>
      bits_of m' = {j \<in> bits_of m. offset + j \<in> bits_of x}"
    using m'(2,3) by blast
qed (use fbs.abs_bound in \<open>simp add: fixed_bits_def len_def\<close>)

section \<open>The batches\<close>

definition live_bytes :: "u64 list \<Rightarrow> u8 list" where
  "live_bytes ws = concat (map (to_le_bytes 8) ws)"

lemma written_words: "foldl (write_i64 bytes_impl) out ws = out @ live_bytes ws"
  by (induction ws arbitrary: out) (simp_all add: live_bytes_def bytes.written_fixed)

lemma live_bytes_append: "live_bytes (ws @ vs) = live_bytes ws @ live_bytes vs"
  by (simp add: live_bytes_def)

lemma length_live_bytes: "length (live_bytes ws) = 8 * length ws"
  by (induction ws) (simp_all add: live_bytes_def)

lemma words_ext:
  assumes "length ws = length vs" and "\<And>i. wbit ws i = wbit vs i"
  shows "ws = vs"
proof (rule nth_equalityI [OF assms(1)])
  fix w assume w: "w < length ws"
  show "ws ! w = vs ! w"
  proof (rule bit_word_eqI)
    fix k assume "k < LENGTH(64)"
    then show "bit (ws ! w) k = bit (vs ! w) k"
      using assms(2) [of "w * 64 + k"] w assms(1) by (simp add: wbit_def)
  qed
qed

lemma wbit_take_drop: "wbit (take n (drop w ws)) i \<longleftrightarrow> i div 64 < n \<and> wbit ws (w * 64 + i)"
  by (auto simp: wbit_def)

lemma bits2words_le: "n \<le> m \<Longrightarrow> bits2words n \<le> bits2words m"
  using div_le_mono [of "n - 1" "m - 1" 64] by (auto simp: bits2words_def)

context bits_source
begin

lemma batch_law:
  assumes "ok x" and "wf_bits copy" and "num_bits copy = BATCH" and "offset < bits_length (methods x)"
  defines "n \<equiv> min BATCH (bits_length (methods x) - offset)"
  shows "\<exists>c. masked_batch (methods x) copy n offset = Inr c \<and> wf_bits c \<and> num_bits c = BATCH \<and>
    bits_of c = {j. j < n \<and> offset + j \<in> abs x}"
proof -
  have n: "n \<le> BATCH" "n \<le> bits_length (methods x) - offset" by (simp_all add: n_def)
  obtain c1 where c1: "set_range copy 0 BATCH = Inr c1" "wf_bits c1" "num_bits c1 = BATCH" "bits_of c1 = bits_of copy \<union> {0..<BATCH}"
    using set_range_refines [OF assms(2), of BATCH 0] assms(3) by auto
  obtain c2 where c2: "clear_range c1 n BATCH = Inr c2" "wf_bits c2" "num_bits c2 = BATCH" "bits_of c2 = bits_of c1 - {n..<BATCH}"
    using clear_range_refines [OF c1(2), of BATCH n] c1(3) by auto
  have "bits_of copy \<subseteq> {..<BATCH}" using fbs.abs_bound [OF assms(2)] assms(3) by simp
  then have b2: "bits_of c2 = {..<n}" using n(1) unfolding c2(4) c1(4) by auto
  have below: "bits_of c2 \<subseteq> {..<bits_length (methods x) - offset}" unfolding b2 using n(2) by auto
  obtain c where c: "bits_apply_mask (methods x) c2 offset = Inr c" "wf_bits c" "num_bits c = BATCH"
      "bits_of c = {j \<in> bits_of c2. offset + j \<in> abs x}"
    using mask_law [OF assms(1) c2(2) _ below] assms(4) c2(3) by auto
  have "masked_batch (methods x) copy n offset = Inr c" using c1(1) c2(1) c(1) by (simp add: masked_batch_def)
  then show ?thesis using c b2 by auto
qed

text \<open>
  From the document \<open>k * BATCH\<close> on, the loop counts the live documents and writes the words of any bit set that
  stands for the same documents.
\<close>

lemma write_batches_law:
  assumes "ok x" and "wf_bits full" and "num_bits full = bits_length (methods x)" and "bits_of full = abs x"
    and "bits_length (methods x) \<le> usize_max" and "wf_bits copy" and "num_bits copy = BATCH"
    and "live + card (abs x \<inter> {k * BATCH..}) \<le> usize_max" and "offset = min (k * BATCH) usize_max"
  shows "write_batches (methods x) copy offset live out =
    Inr (live + card (abs x \<inter> {k * BATCH..}), out @ live_bytes (drop (k * 16) (words full)))"
  using assms(6-9)
proof (induction "bits_length (methods x) - k * BATCH" arbitrary: k copy live out offset rule: less_induct)
  case less
  let ?len = "bits_length (methods x)"
  have fin: "finite (abs x)" using abs_below [OF assms(1)] finite_subset by blast
  show ?case
  proof (cases "k * BATCH < ?len")
    case False
    then have "abs x \<inter> {k * BATCH..} = {}" using abs_below [OF assms(1)] by auto
    moreover have "length (words full) \<le> k * 16"
      using False assms(2,3) by (auto simp: wf_bits_def bits2words_def BATCH_def)
    moreover have stop: "\<not> (offset < ?len \<and> offset < usize_max)" using False assms(5) less.prems(4) by auto
    ultimately show ?thesis
      unfolding write_batches.simps [of "methods x" copy offset] if_not_P [OF stop] by (simp add: live_bytes_def)
  next
    case True
    define n where "n = min BATCH (?len - k * BATCH)"
    have off: "offset = k * BATCH" "offset < usize_max" using True assms(5) less.prems(4) by auto
    obtain c where c: "masked_batch (methods x) copy n offset = Inr c" "wf_bits c" "num_bits c = BATCH"
        "bits_of c = {j. j < n \<and> offset + j \<in> abs x}"
      using batch_law [OF assms(1) less.prems(1,2), of offset] True off(1) unfolding n_def by auto
    have split: "abs x \<inter> {k * BATCH..} = (\<lambda>j. offset + j) ` bits_of c \<union> abs x \<inter> {Suc k * BATCH..}"
    proof (intro set_eqI iffI)
      fix i assume i: "i \<in> abs x \<inter> {k * BATCH..}"
      then have "i < ?len" using abs_below [OF assms(1)] by auto
      then show "i \<in> (\<lambda>j. offset + j) ` bits_of c \<union> abs x \<inter> {Suc k * BATCH..}"
        using i unfolding c(4) n_def off(1) by (cases "i < Suc k * BATCH") (auto intro!: image_eqI [of _ _ "i - k * BATCH"])
    qed (auto simp: c(4) off(1))
    have card: "card (abs x \<inter> {k * BATCH..}) = cardinality c + card (abs x \<inter> {Suc k * BATCH..})"
    proof -
      have "card ((\<lambda>j. offset + j) ` bits_of c) = cardinality c" by (simp add: card_image cardinality_eq)
      moreover have "(\<lambda>j. offset + j) ` bits_of c \<inter> (abs x \<inter> {Suc k * BATCH..}) = {}"
        unfolding c(4) n_def off(1) by auto
      ultimately show ?thesis unfolding split using fin by (simp add: card_Un_disjoint)
    qed
    have wds: "take (bits2words n) (words c) = take 16 (drop (k * 16) (words full))"
    proof (rule words_ext)
      have "length (words c) = 16" using c(2,3) by (simp add: wf_bits_def bits2words_def BATCH_def)
      moreover have "length (words full) = bits2words ?len" using assms(2,3) by (simp add: wf_bits_def)
      moreover have "bits2words n = min 16 (bits2words ?len - k * 16)"
        using True by (auto simp: n_def bits2words_def BATCH_def min_def)
      ultimately show "length (take (bits2words n) (words c)) = length (take 16 (drop (k * 16) (words full)))" by simp
      fix i
      have "wbit (take (bits2words n) (words c)) i \<longleftrightarrow> i div 64 < bits2words n \<and> i \<in> bits_of c"
        using wbit_take_drop [of "bits2words n" 0 "words c" i] by (simp add: mem_bits_of)
      also have "\<dots> \<longleftrightarrow> i div 64 < 16 \<and> offset + i \<in> bits_of full"
      proof
        assume i: "i div 64 < 16 \<and> offset + i \<in> bits_of full"
        then have "offset + i < ?len" using abs_below [OF assms(1)] assms(4) by auto
        moreover have "i < 16 * 64" using i by (simp add: div_less_iff_less_mult)
        ultimately have "i < n" using off(1) by (auto simp: n_def BATCH_def)
        then show "i div 64 < bits2words n \<and> i \<in> bits_of c"
          using i assms(4) div_le_mono [of i "n - 1" 64] by (auto simp: c(4) bits2words_def)
      next
        assume i: "i div 64 < bits2words n \<and> i \<in> bits_of c"
        then have "i < 16 * 64" by (simp add: c(4) n_def BATCH_def)
        then show "i div 64 < 16 \<and> offset + i \<in> bits_of full"
          using i assms(4) by (simp add: c(4) div_less_iff_less_mult)
      qed
      finally show "wbit (take (bits2words n) (words c)) i = wbit (take 16 (drop (k * 16) (words full))) i"
        by (simp add: wbit_take_drop mem_bits_of off(1) BATCH_def mult.commute)
    qed
    have sums: "saturating_add live (cardinality c) = live + cardinality c"
        "saturating_add offset BATCH = min (Suc k * BATCH) usize_max"
      using less.prems(3) card off by (simp_all add: saturating_add_def)
    have go: "offset < ?len \<and> offset < usize_max" using True off by simp
    have "write_batches (methods x) copy offset live out =
        write_batches (methods x) c (saturating_add offset BATCH) (saturating_add live (cardinality c))
          (out @ live_bytes (take (bits2words n) (words c)))"
      unfolding write_batches.simps [of "methods x" copy offset] if_P [OF go]
      using c(1) off(1) by (simp add: n_def written_words Let_def)
    also have "\<dots> = Inr (live + cardinality c + card (abs x \<inter> {Suc k * BATCH..}),
        (out @ live_bytes (take (bits2words n) (words c))) @ live_bytes (drop (Suc k * 16) (words full)))"
      unfolding sums
    proof (rule less.hyps [OF _ c(2,3) _ refl])
      show "?len - Suc k * BATCH < ?len - k * BATCH" using True by (simp add: BATCH_def)
      show "live + cardinality c + card (abs x \<inter> {Suc k * BATCH..}) \<le> usize_max" using less.prems(3) card by simp
    qed
    also have "\<dots> = Inr (live + card (abs x \<inter> {k * BATCH..}), out @ live_bytes (drop (k * 16) (words full)))"
      unfolding wds card using append_take_drop_id [of 16 "drop (k * 16) (words full)"]
      by (simp add: add.assoc add.commute flip: live_bytes_append)
    finally show ?thesis .
  qed
qed

text \<open>Writing the batches of a source writes the file of the dense set with the same documents.\<close>

lemma write_bits_law:
  assumes "ok x" and "wf_bits full" and "num_bits full = bits_length (methods x)" and "bits_of full = abs x"
    and "bits_length (methods x) \<le> usize_max"
  shows "write_bits K threads (methods x) segid g e = live_write K threads full segid g e"
proof -
  have card: "card (abs x) \<le> bits_length (methods x)"
    using abs_below [OF assms(1)] card_mono [of "{..<bits_length (methods x)}"] by simp
  have "wf_bits (new_bit_set BATCH)" "num_bits (new_bit_set BATCH) = BATCH"
    using new_bit_set_refines [of BATCH] by (simp_all add: BATCH_def bits2words_def usize_max_def, simp add: new_bit_set_def)
  moreover have "0 + card (abs x \<inter> {0 * BATCH..}) \<le> usize_max" using card assms(5) by simp
  ultimately have "write_batches (methods x) (new_bit_set BATCH) 0 0 out = Inr (card (abs x), out @ live_bytes (words full))" for out
    using write_batches_law [OF assms, of "new_bit_set BATCH" 0 0 0 out] by simp
  moreover have "cardinality full = card (abs x)" using assms(4) by (simp add: cardinality_eq)
  ultimately show ?thesis
    using assms(3) card by (simp add: write_bits_def live_write_def written_words len_def Let_def split: option.splits)
qed

end

section \<open>Parsing\<close>

lemma words_decode: "decodes slice_ok as_slice (slice_read_i64s (length ws)) (live_bytes ws) ws"
  unfolding decodes_def
proof (intro allI impI)
  fix s r assume s: "slice_ok s" "as_slice s = live_bytes ws @ r"
  have "decodes slice_ok as_slice slice_read_i64 (to_le_bytes 8 v) v" for v
    by (rule slice_decoders)
  then have many: "decodes slice_ok as_slice (read_many slice_read_i64 (length ws)) (live_bytes ws) ws"
    unfolding live_bytes_def by (rule decodes_many)
  have "length (sbuf s) - pos s = length ws * 8 + length r"
    using arg_cong [OF s(2), of length] by (simp add: as_slice_def length_live_bytes)
  then have "pos s + length ws * 8 \<le> length (sbuf s)" using s(1) by (auto simp: slice_ok_def)
  then have "slice_read_i64s (length ws) s = read_many slice_read_i64 (length ws) s"
    using slice_read_words_eq [OF s(1), of 8 "length ws"] by (simp add: slice_read_i64s_def slice_read_i64_def)
  then show "\<exists>s'. slice_read_i64s (length ws) s = (Inr ws, s') \<and> slice_ok s' \<and> as_slice s' = r"
    using many s unfolding decodes_def by metis
qed

lemma ghost_check:
  assumes "length ws = bits2words n"
  shows "(ws \<noteq> [] \<and> n mod 64 \<noteq> 0 \<and> drop_bit (n mod 64) (last ws) \<noteq> 0) = (\<not> ghost_bits_clear ws n)"
proof (cases "n mod 64 = 0")
  case False
  then have "ws \<noteq> []" using assms by (cases "n = 0") (auto simp: bits2words_def)
  then have l: "last ws = ws ! (bits2words n - 1)" using assms by (simp add: last_conv_nth)
  have "drop_bit (n mod 64) w = 0 \<longleftrightarrow> w AND push_bit (n mod 64) (- 1) = 0" for w :: u64
  proof -
    have "k < 64" if "bit w (n mod 64 + k)" for k using bit_imp_le_length [OF that] by simp
    then have "drop_bit (n mod 64) w = 0 \<longleftrightarrow> (\<forall>k. \<not> bit w (n mod 64 + k))" by (auto simp: bit_eq_iff bit_drop_bit_eq)
    also have "\<dots> \<longleftrightarrow> (\<forall>k. n mod 64 \<le> k \<longrightarrow> \<not> bit w k)" by (metis le_add1 le_iff_add)
    also have "\<dots> \<longleftrightarrow> w AND push_bit (n mod 64) (- 1) = 0"
      using bit_imp_le_length [of w] by (simp add: bit_eq_iff bit_simps) (metis not_le)
    finally show ?thesis .
  qed
  then show ?thesis using False \<open>ws \<noteq> []\<close> by (simp add: ghost_bits_clear_def l Let_def)
qed (simp add: ghost_bits_clear_def)

lemma parse_framed_then:
  assumes "decodes slice_ok as_slice P payload v" and "\<And>b. keeps (reading b) P"
    and "b = write_footer K threads payload" and "length b \<le> usize_max"
  shows "fst (bnd P (\<lambda>v. bnd (map_err g (check_footer K threads (length b))) (\<lambda>_. lift_res (f v))) (slice_new b)) = f v"
proof -
  let ?F = "map_err g (check_footer K threads (length b))"
  obtain s1 s2 c where "P (slice_new b) = (Inr v, s1)" "?F s1 = (Inr c, s2)"
    using parse_framed [OF assms, of g] by (auto simp: bnd_def split: prod.splits sum.splits)
  then show ?thesis by simp
qed

lemma live_words_decode:
  assumes "length segid = ID_LENGTH" and "length ws = bits2words n" and "ghost_bits_clear ws n"
  shows "decodes slice_ok as_slice (live_words segid g n)
    (index_header_bytes LIVE_CODEC_NAME LIVE_VERSION_CURRENT segid (to_base36 g) @ live_bytes ws) ws"
  unfolding live_words_def
proof (rule decodes_bnd [OF decodes_map_err [OF index_header_decodes]])
  have "decodes slice_ok as_slice (map_err LiveStore (slice_read_i64s (bits2words n))) (live_bytes ws) ws"
    using decodes_map_err [OF words_decode [of ws]] assms(2) by simp
  moreover have clear: "\<not> (ws \<noteq> [] \<and> n mod 64 \<noteq> 0 \<and> drop_bit (n mod 64) (last ws) \<noteq> 0)"
    using ghost_check [OF assms(2)] assms(3) by blast
  have "decodes slice_ok as_slice (if ws \<noteq> [] \<and> n mod 64 \<noteq> 0 \<and> drop_bit (n mod 64) (last ws) \<noteq> 0
      then fail (GhostBitsSet n) else ret ws) [] ws"
    unfolding if_not_P [OF clear] by (rule decodes_ret)
  ultimately show "decodes slice_ok as_slice (bnd (map_err LiveStore (slice_read_i64s (bits2words n))) (\<lambda>ws.
      if ws \<noteq> [] \<and> n mod 64 \<noteq> 0 \<and> drop_bit (n mod 64) (last ws) \<noteq> 0 then fail (GhostBitsSet n) else ret ws)) (live_bytes ws) ws"
    by (rule decodes_last)
qed (use assms(1) le_less_trans [OF length_to_base36, of 256] in
    \<open>simp_all add: LIVE_CODEC_NAME_def ascii_def LIVE_VERSION_START_def LIVE_VERSION_CURRENT_def\<close>)

lemma keeps_live_words: "keeps (reading b) (live_words segid g n)"
proof -
  have "keeps (reading b) (slice_read_i64s k)" for k
    by (auto simp: keeps_def slice_read_i64s_def slice_read_words_def slice_ok_def slice_get_def split: option.splits if_splits)
  then show ?thesis
    unfolding live_words_def by (intro keeps_bnd keeps_if keeps_reading keeps_reading_index_header)
qed

definition live_payload :: "u8 list \<Rightarrow> i64 \<Rightarrow> u64 list \<Rightarrow> u8 list" where
  "live_payload segid g ws = index_header_bytes LIVE_CODEC_NAME LIVE_VERSION_CURRENT segid (to_base36 g) @ live_bytes ws"

lemma live_write_eq:
  assumes "length segid = ID_LENGTH" and "wf_bits b"
  shows "live_write K threads b segid g e =
    Some (check_del_count (num_bits b - card (bits_of b)) e (write_footer K threads (live_payload segid g (words b))))"
proof -
  have "card (bits_of b) \<le> num_bits b" using fbs.abs_bound [OF assms(2)] card_mono [of "{..<num_bits b}"] by simp
  moreover have "write_index_header bytes_impl [] LIVE_CODEC_NAME LIVE_VERSION_CURRENT segid (to_base36 g) =
      Some (index_header_bytes LIVE_CODEC_NAME LIVE_VERSION_CURRENT segid (to_base36 g))"
    using assms(1) length_to_base36 [of g]
    by (subst write_index_header_eq) (simp_all add: LIVE_CODEC_NAME_def ascii_def usize_max_def bytes.write_bytes_law)
  ultimately show ?thesis
    by (simp add: live_write_def written_words live_payload_def len_def cardinality_eq Let_def)
qed

lemma length_live_file:
  assumes "length segid = ID_LENGTH" and "wf_bits b"
  shows "length (write_footer K threads (live_payload segid g (words b))) \<le> usize_max"
proof -
  have "length (index_header_bytes LIVE_CODEC_NAME LIVE_VERSION_CURRENT segid (to_base36 g)) \<le> 100"
    using length_to_base36 [of g] length_vint [of "of_nat (length LIVE_CODEC_NAME)"] assms(1)
    by (simp add: index_header_bytes_def header_bytes_def string_bytes_def LIVE_CODEC_NAME_def ascii_def ID_LENGTH_def)
  moreover have "length (words b) * 64 \<le> usize_max" using assms(2) by (simp add: wf_bits_def)
  ultimately show ?thesis by (simp add: length_write_footer live_payload_def length_live_bytes usize_max_def)
qed

lemma live_parse_written:
  assumes "length segid = ID_LENGTH" and "wf_bits b"
  shows "live_parse K threads (write_footer K threads (live_payload segid g (words b))) segid g (num_bits b) e =
    check_del_count (num_bits b - card (bits_of b)) e b"
proof -
  have card: "card (bits_of b) \<le> num_bits b" using fbs.abs_bound [OF assms(2)] card_mono [of "{..<num_bits b}"] by simp
  have wf: "length (words b) = bits2words (num_bits b)" "ghost_bits_clear (words b) (num_bits b)"
    using assms(2) by (simp_all add: wf_bits_def)
  have from_words: "no_panic (from_words ws n) = Inr \<lparr>words = ws, num_bits = n\<rparr>" if "length ws = bits2words n" for ws n
    using that by (simp add: no_panic_def from_words_def assert_that_def)
  let ?P = "bnd (live_words segid g (num_bits b)) (\<lambda>ws. lift_res (no_panic (from_words ws (num_bits b))))"
  have dec: "decodes slice_ok as_slice ?P (live_payload segid g (words b)) b"
    unfolding live_payload_def
    using from_words [OF wf(1)] by (intro decodes_last [OF live_words_decode [OF assms(1) wf]]) (simp add: decodes_def)
  have keeps: "keeps (reading c) ?P" for c by (intro keeps_bnd keeps_live_words keeps_lift_res)
  have eq: "live_parse K threads c segid g (num_bits b) e =
      fst (bnd ?P (\<lambda>live. bnd (map_err LiveStore (check_footer K threads (length c))) (\<lambda>_.
        lift_res (if num_bits b < cardinality live then Inl (LivePanic AssertionFailed)
          else check_del_count (num_bits b - cardinality live) e live))) (slice_new c))" for c
    unfolding live_parse_def by (auto simp: bnd_def split: prod.splits sum.splits)
  show ?thesis
    unfolding eq parse_framed_then [OF dec keeps refl length_live_file [OF assms]] using card by (simp add: cardinality_eq)
qed

text \<open>On any input: the words that pass the ghost check are a well-formed set, so nothing panics.\<close>

lemma live_words_ok:
  assumes "live_words segid g n s = (Inr ws, s')"
  shows "length ws = bits2words n \<and> ghost_bits_clear ws n"
proof -
  obtain s1 where s1: "slice_read_i64s (bits2words n) s1 = (Inr ws, s')"
      "\<not> (ws \<noteq> [] \<and> n mod 64 \<noteq> 0 \<and> drop_bit (n mod 64) (last ws) \<noteq> 0)"
    using assms by (auto simp: live_words_def bnd_eq_Inr_iff map_err_eq_Inr_iff split: if_splits)
  have "length (chunks 8 k bs) = k" for k and bs :: "u8 list" by (induction k arbitrary: bs) simp_all
  then have "length ws = bits2words n"
    using s1(1) by (auto simp: slice_read_i64s_def slice_read_words_def split: option.splits if_splits)
  then show ?thesis using ghost_check s1(2) by blast
qed

lemma live_set_ok:
  assumes "live_words segid g n s = (Inr ws, s')" and "n + 64 \<le> usize_max"
  defines "b \<equiv> \<lparr>words = ws, num_bits = n\<rparr>"
  shows "no_panic (from_words ws n) = Inr b" "wf_bits b" "cardinality b \<le> n"
proof -
  have ws: "length ws = bits2words n" "ghost_bits_clear ws n" using live_words_ok [OF assms(1)] by blast+
  show "no_panic (from_words ws n) = Inr b"
    using ws(1) by (simp add: no_panic_def from_words_def assert_that_def b_def)
  have "bits2words n * 64 \<le> usize_max" using bits2words_bounds [of n] assms(2) by simp
  then show wf: "wf_bits b" using ws by (simp add: wf_bits_def b_def)
  show "cardinality b \<le> n"
    using fbs.abs_bound [OF wf] card_mono [of "{..<n}"] by (simp add: cardinality_eq b_def)
qed

section \<open>Properties\<close>

text \<open>
  C19: A \<open>.liv\<close> file reads back the set of live documents it was written from, and both sides check the number of
  deletions: with any other expected count, writing and reading fail with the count found and the count expected.
\<close>
theorem live_docs_round_trip:
  assumes "length segid = ID_LENGTH" and "wf_bits b"
  defines "deleted \<equiv> num_bits b - card (bits_of b)"
  shows "\<exists>out. live_write K threads b segid g deleted = Some (Inr out) \<and>
    live_parse K threads out segid g (num_bits b) deleted = Inr b \<and>
    (\<forall>e. e \<noteq> deleted \<longrightarrow> live_write K threads b segid g e = Some (Inl (DelCountMismatch deleted e)) \<and>
       live_parse K threads out segid g (num_bits b) e = Inl (DelCountMismatch deleted e))"
  unfolding live_write_eq [OF assms(1,2)]
  by (rule exI [of _ "write_footer K threads (live_payload segid g (words b))"])
     (simp add: live_parse_written [OF assms(1,2)] check_del_count_def deleted_def)

theorem live_docs_round_trip_witness:
  "\<exists>out. live_write xor_hasher 4 sample_bits (replicate 16 7) 3 (70 - card (bits_of sample_bits)) = Some (Inr out) \<and>
     live_parse xor_hasher 4 out (replicate 16 7) 3 70 (70 - card (bits_of sample_bits)) = Inr sample_bits"
proof -
  have "length (replicate 16 7 :: u8 list) = ID_LENGTH" by (simp add: ID_LENGTH_def)
  from live_docs_round_trip [OF this wf_sample, of xor_hasher 4 3] show ?thesis unfolding num_bits_sample by blast
qed

text \<open>
  C21: Whatever bytes it is given, the reader of a \<open>.liv\<close> file does not panic, and what it accepts is a well-formed
  set of documents below \<open>max_doc\<close>, over exactly \<open>max_doc\<close> bits, that leaves out exactly as many documents as the commit announces deleted.
\<close>
theorem live_parse_sound:
  assumes "max_doc + 64 \<le> usize_max"
  shows "live_parse K threads file_bytes segid g max_doc e \<noteq> Inl (LivePanic p) \<and>
    (\<forall>b. live_parse K threads file_bytes segid g max_doc e = Inr b \<longrightarrow>
       wf_bits b \<and> num_bits b = max_doc \<and> bits_of b \<subseteq> {..<max_doc} \<and> card (bits_of b) + e = max_doc)"
proof (cases "live_words segid g max_doc (slice_new file_bytes)")
  case (Pair r s)
  show ?thesis
  proof (cases r)
    case (Inl x)
    then have "live_parse K threads file_bytes segid g max_doc e = Inl x" using Pair by (simp add: live_parse_def)
    moreover have "x \<noteq> LivePanic p"
      using Pair Inl by (auto simp: live_words_def bnd_def map_err_def split: prod.splits sum.splits if_splits)
    ultimately show ?thesis by simp
  next
    case (Inr ws)
    note L = live_set_ok [OF Pair [unfolded Inr] assms]
    obtain rf s' where "check_footer K threads (length file_bytes) s = (rf, s')" by (metis surj_pair)
    then show ?thesis
      using Pair Inr L fbs.abs_bound [OF L(2)] by (cases rf) (auto simp: live_parse_def check_del_count_def cardinality_eq)
  qed
qed

theorem live_parse_sound_witness:
  "(\<exists>liv. live_parse xor_hasher 4 liv (replicate 16 7) 3 70 65 = Inr sample_bits \<and> wf_bits sample_bits \<and> num_bits sample_bits = 70 \<and>
     bits_of sample_bits \<subseteq> {..<70} \<and> card (bits_of sample_bits) + 65 = 70) \<and>
   live_parse xor_hasher 4 [1, 2, 3] (replicate 16 7) 3 70 5 \<noteq> Inl (LivePanic AssertionFailed)"
proof -
  have m: "70 + 64 \<le> usize_max" by (simp add: usize_max_def)
  have "cardinality sample_bits = 5" by code_simp
  then have "card (bits_of sample_bits) = 5" by (simp only: cardinality_eq)
  then obtain liv where liv: "live_parse xor_hasher 4 liv (replicate 16 7) 3 70 65 = Inr sample_bits"
    using live_parse_written [OF _ wf_sample, of "replicate 16 7" xor_hasher 4 3 65]
    by (auto simp: ID_LENGTH_def num_bits_sample check_del_count_def)
  from live_parse_sound [OF m, of xor_hasher 4 liv "replicate 16 7" 3 65] have "wf_bits sample_bits \<and> num_bits sample_bits = 70 \<and>
      bits_of sample_bits \<subseteq> {..<70} \<and> card (bits_of sample_bits) + 65 = 70" using liv by blast
  with liv live_parse_sound [OF m] show ?thesis by blast
qed

end
