(* ===== verification/Sparse_Bit_Set.thy ===== *)
theory Sparse_Bit_Set
  imports Fixed_Bit_Set
begin

text \<open>
  \<open>lucene-util/src/sparse_fixed_bit_set.rs\<close>: a bit set that stores only its non-zero words. The index space is cut
  into blocks of 4096 bits; per block, a 64-bit index says which of its 64 words are non-zero and an array holds exactly
  those, in order, with free slots at the end. The words refine a function from word numbers to words, and through
  it a set of numbers: the same interface \<open>bit_set\<close> as the dense set.

  The unchecked reads of \<open>get\<close> and \<open>get_and_set\<close> are modelled as checked ones: that the operation returns a value
  shows that the reads stay inside their arrays. A subtraction that would underflow is a panic.
  \<open>approximate_cardinality\<close> (a floating-point estimate) and \<open>ram_bytes_used\<close> are not modelled.
\<close>

section \<open>Slices\<close>

text \<open>\<open>slice.copy_within(from..to, dest)\<close>.\<close>

definition copy_inside :: "'a list \<Rightarrow> nat \<Rightarrow> nat \<Rightarrow> nat \<Rightarrow> 'a list panics" where
  "copy_inside xs from to dest =
     (if from \<le> to \<and> to \<le> length xs \<and> dest + (to - from) \<le> length xs
      then Inr (take dest xs @ take (to - from) (drop from xs) @ drop (dest + (to - from)) xs)
      else Inl IndexOutOfRange)"

definition checked_minus :: "nat \<Rightarrow> nat \<Rightarrow> nat panics" where
  "checked_minus a b = (if b \<le> a then Inr (a - b) else Inl AssertionFailed)"

section \<open>The sparse set\<close>

definition block_count :: "nat \<Rightarrow> nat" where
  "block_count n = (n + 4095) div 4096"

definition oversize :: "nat \<Rightarrow> nat" where
  "oversize s = (let n = s + s div 2 in if 50 < n then 64 else n)"

record sparse_bit_set =
  indices :: "u64 list"
  blocks :: "u64 list option list"
  sp_length :: nat
  non_zero_long_count :: nat

definition sp_new :: "nat \<Rightarrow> sparse_bit_set panics" where
  "sp_new n =
     assert_that (1 \<le> n)
       (Inr \<lparr>indices = replicate (block_count n) 0, blocks = replicate (block_count n) None, sp_length = n,
             non_zero_long_count = 0\<rparr>)"

definition sp_check :: "sparse_bit_set \<Rightarrow> nat \<Rightarrow> 'a panics \<Rightarrow> 'a panics" where
  "sp_check s i r = (if sp_length s \<le> i then Inl IndexOutOfRange else r)"

definition sp_clear_all :: "sparse_bit_set \<Rightarrow> sparse_bit_set" where
  "sp_clear_all s =
     s\<lparr>indices := replicate (length (indices s)) 0, blocks := replicate (length (blocks s)) None, non_zero_long_count := 0\<rparr>"

definition sp_cardinality :: "sparse_bit_set \<Rightarrow> nat" where
  "sp_cardinality s =
     sum_list (map (\<lambda>b. case b of None \<Rightarrow> 0 | Some ws \<Rightarrow> sum_list (map count_ones ws)) (blocks s))"

text \<open>The number of stored words before the one an index bit stands for.\<close>

definition rank :: "u64 \<Rightarrow> u64 \<Rightarrow> nat" where
  "rank index i64bit = count_ones (index AND (i64bit - 1))"

text \<open>\<open>expect("block")\<close>, and the unchecked reads.\<close>

definition the_block :: "sparse_bit_set \<Rightarrow> nat \<Rightarrow> u64 list panics" where
  "the_block s k = and_then (index_get (blocks s) k) (\<lambda>b. case b of None \<Rightarrow> Inl AssertionFailed | Some ws \<Rightarrow> Inr ws)"

definition set_block :: "sparse_bit_set \<Rightarrow> nat \<Rightarrow> u64 list option \<Rightarrow> sparse_bit_set panics" where
  "set_block s k b = and_then (index_set (blocks s) k b) (\<lambda>bs. Inr (s\<lparr>blocks := bs\<rparr>))"

definition set_index :: "sparse_bit_set \<Rightarrow> nat \<Rightarrow> u64 \<Rightarrow> sparse_bit_set panics" where
  "set_index s k w = and_then (index_set (indices s) k w) (\<lambda>is. Inr (s\<lparr>indices := is\<rparr>))"

definition sp_get :: "sparse_bit_set \<Rightarrow> nat \<Rightarrow> bool panics" where
  "sp_get s i =
     sp_check s i
       (let i4096 = i div 4096 in
        and_then (index_get (indices s) i4096) (\<lambda>index.
          let i64bit = push_bit (i div 64 mod 64) 1 in
          if index AND i64bit = 0 then Inr False
          else
            and_then (the_block s i4096) (\<lambda>block.
            and_then (index_get block (rank index i64bit)) (\<lambda>w. Inr (w AND push_bit (i mod 64) 1 \<noteq> 0)))))"

definition shifted :: "u64 list \<Rightarrow> nat \<Rightarrow> u64 \<Rightarrow> u64 list panics" where
  "shifted block at_o value =
     and_then (copy_inside block at_o (length block - 1) (at_o + 1)) (\<lambda>block. index_set block at_o value)"

definition grown :: "u64 list \<Rightarrow> nat \<Rightarrow> u64 \<Rightarrow> u64 list panics" where
  "grown block at_o value =
     (let n = length block; new_size = oversize (n + 1) in
      if at_o \<le> n \<and> n + 1 \<le> new_size
      then Inr (take at_o block @ [value] @ drop at_o block @ replicate (new_size - (n + 1)) 0)
      else Inl IndexOutOfRange)"

definition sp_insert :: "sparse_bit_set \<Rightarrow> nat \<Rightarrow> u64 \<Rightarrow> u64 \<Rightarrow> u64 \<Rightarrow> sparse_bit_set panics" where
  "sp_insert s i4096 i64bit value index =
     (if index = 0 then
        and_then (set_index s i4096 i64bit) (\<lambda>s.
        and_then (set_block s i4096 (Some [value])) (\<lambda>s.
          Inr (s\<lparr>non_zero_long_count := non_zero_long_count s + 1\<rparr>)))
      else
        and_then (index_get (indices s) i4096) (\<lambda>old.
        and_then (set_index s i4096 (old OR i64bit)) (\<lambda>s.
        and_then (the_block s i4096) (\<lambda>block.
        and_then
          (if block = [] then Inl AssertionFailed
           else if last block = 0 then shifted block (rank index i64bit) value
           else grown block (rank index i64bit) value) (\<lambda>block.
        and_then (set_block s i4096 (Some block)) (\<lambda>s.
          Inr (s\<lparr>non_zero_long_count := non_zero_long_count s + 1\<rparr>)))))))"

definition sp_get_and_set :: "sparse_bit_set \<Rightarrow> nat \<Rightarrow> (bool \<times> sparse_bit_set) panics" where
  "sp_get_and_set s i =
     sp_check s i
       (let i4096 = i div 4096 in
        and_then (index_get (indices s) i4096) (\<lambda>index.
          let i64bit = push_bit (i div 64 mod 64) 1 in
          if index AND i64bit \<noteq> 0 then
            let at_o = rank index i64bit; b = push_bit (i mod 64) 1 in
            and_then (the_block s i4096) (\<lambda>block.
            and_then (index_get block at_o) (\<lambda>w.
            and_then (set_block s i4096 (Some (block[at_o := w OR b]))) (\<lambda>s. Inr (w AND b \<noteq> 0, s))))
          else and_then (sp_insert s i4096 i64bit (push_bit (i mod 64) 1) index) (\<lambda>s. Inr (False, s))))"

definition sp_set :: "sparse_bit_set \<Rightarrow> nat \<Rightarrow> sparse_bit_set panics" where
  "sp_set s i = and_then (sp_get_and_set s i) (\<lambda>(_, s). Inr s)"

definition remove_long :: "sparse_bit_set \<Rightarrow> nat \<Rightarrow> nat \<Rightarrow> u64 \<Rightarrow> nat \<Rightarrow> sparse_bit_set panics" where
  "remove_long s i4096 i64 index at_o =
     (let index = index AND NOT (push_bit i64 1) in
      and_then (set_index s i4096 index) (\<lambda>s.
      and_then
        (if index = 0 then set_block s i4096 None
         else
           let n = count_ones index in
           and_then (the_block s i4096) (\<lambda>block.
           and_then (copy_inside block (at_o + 1) (n + 1) at_o) (\<lambda>block.
           and_then (index_set block n 0) (\<lambda>block. set_block s i4096 (Some block))))) (\<lambda>s.
      and_then (checked_minus (non_zero_long_count s) 1) (\<lambda>c. Inr (s\<lparr>non_zero_long_count := c\<rparr>)))))"

definition sp_and :: "sparse_bit_set \<Rightarrow> nat \<Rightarrow> nat \<Rightarrow> u64 \<Rightarrow> sparse_bit_set panics" where
  "sp_and s i4096 i64 msk =
     and_then (index_get (indices s) i4096) (\<lambda>index.
       if index AND push_bit i64 1 \<noteq> 0 then
         let at_o = rank index (push_bit i64 1) in
         and_then (the_block s i4096) (\<lambda>block.
         and_then (index_get block at_o) (\<lambda>w.
           let b = w AND msk in
           if b = 0 then remove_long s i4096 i64 index at_o
           else set_block s i4096 (Some (block[at_o := b]))))
       else Inr s)"

definition sp_clear :: "sparse_bit_set \<Rightarrow> nat \<Rightarrow> sparse_bit_set panics" where
  "sp_clear s i = sp_check s i (sp_and s (i div 4096) (i div 64 mod 64) (NOT (push_bit (i mod 64) 1)))"

definition or_long :: "sparse_bit_set \<Rightarrow> nat \<Rightarrow> nat \<Rightarrow> u64 \<Rightarrow> sparse_bit_set panics" where
  "or_long s i4096 i64 new_bits =
     (if new_bits = 0 then Inr s
      else
        and_then (index_get (indices s) i4096) (\<lambda>index.
          let i64bit = push_bit i64 1 in
          if index AND i64bit \<noteq> 0 then
            let at_o = rank index i64bit in
            and_then (the_block s i4096) (\<lambda>block.
            and_then (index_get block at_o) (\<lambda>w. set_block s i4096 (Some (block[at_o := w OR new_bits]))))
          else sp_insert s i4096 i64bit new_bits index))"

text \<open>The callers pass \<open>from \<le> to < 64\<close>.\<close>

definition range_mask :: "nat \<Rightarrow> nat \<Rightarrow> u64" where
  "range_mask from to =
     (let span = to - from + 1; m = if 64 \<le> span then - 1 else push_bit span 1 - 1
      in push_bit (from mod 64) m)"

definition clear_within_block :: "nat \<Rightarrow> nat \<Rightarrow> nat \<Rightarrow> sparse_bit_set \<Rightarrow> sparse_bit_set panics" where
  "clear_within_block i4096 from to s =
     (let first = from div 64; last = to div 64 in
      if first = last then sp_and s i4096 first (NOT (range_mask (from mod 64) (to mod 64)))
      else
        and_then (sp_and s i4096 last (NOT (range_mask 0 (to mod 64)))) (\<lambda>s.
        and_then (each (\<lambda>i s. sp_and s i4096 i 0) (rev [first + 1..<last]) s) (\<lambda>s.
          sp_and s i4096 first (NOT (range_mask (from mod 64) 63)))))"

definition set_within_block :: "nat \<Rightarrow> nat \<Rightarrow> nat \<Rightarrow> sparse_bit_set \<Rightarrow> sparse_bit_set panics" where
  "set_within_block i4096 from to s =
     (let first = from div 64; last = to div 64 in
      if first = last then or_long s i4096 first (range_mask (from mod 64) (to mod 64))
      else
        and_then (or_long s i4096 last (range_mask 0 (to mod 64))) (\<lambda>s.
        and_then (each (\<lambda>i s. or_long s i4096 i (- 1)) [first + 1..<last] s) (\<lambda>s.
          or_long s i4096 first (range_mask (from mod 64) 63))))"

definition sp_set_range :: "sparse_bit_set \<Rightarrow> nat \<Rightarrow> nat \<Rightarrow> sparse_bit_set panics" where
  "sp_set_range s start to =
     (if to \<le> start then Inr s
      else assert_that (start < sp_length s \<and> to \<le> sp_length s)
        (let first = start div 4096; last = (to - 1) div 4096 in
         if first = last then set_within_block first (start mod 4096) ((to - 1) mod 4096) s
         else
           and_then (set_within_block first (start mod 4096) 4095 s) (\<lambda>s.
           and_then (each (\<lambda>i. set_within_block i 0 4095) [first + 1..<last] s) (\<lambda>s.
             set_within_block last 0 ((to - 1) mod 4096) s))))"

definition drop_block :: "nat \<Rightarrow> sparse_bit_set \<Rightarrow> sparse_bit_set panics" where
  "drop_block i s =
     and_then (index_get (indices s) i) (\<lambda>index.
     and_then (checked_minus (non_zero_long_count s) (count_ones index)) (\<lambda>c.
     and_then (set_index (s\<lparr>non_zero_long_count := c\<rparr>) i 0) (\<lambda>s. set_block s i None)))"

definition sp_clear_range :: "sparse_bit_set \<Rightarrow> nat \<Rightarrow> nat \<Rightarrow> sparse_bit_set panics" where
  "sp_clear_range s from to =
     (if to \<le> from then Inr s
      else assert_that (to \<le> sp_length s)
        (let first = from div 4096; last = (to - 1) div 4096 in
         if first = last then clear_within_block first (from mod 4096) ((to - 1) mod 4096) s
         else
           and_then (clear_within_block first (from mod 4096) 4095 s) (\<lambda>s.
           and_then (each drop_block [first + 1..<last] s) (\<lambda>s.
             clear_within_block last 0 ((to - 1) mod 4096) s))))"

section \<open>Navigation\<close>

text \<open>\<open>(i4096 << 12) | (i64 << 6) | b\<close>.\<close>

definition doc_at :: "nat \<Rightarrow> nat \<Rightarrow> nat \<Rightarrow> nat" where
  "doc_at i4096 i64 b = (i4096 * 4096) OR (i64 * 64) OR b"

function first_doc :: "sparse_bit_set \<Rightarrow> nat \<Rightarrow> nat \<Rightarrow> nat option panics" where
  "first_doc s i4096 upper =
     (if i4096 < upper then
        and_then (index_get (indices s) i4096) (\<lambda>index.
          if index \<noteq> 0 then
            and_then (the_block s i4096) (\<lambda>block.
            and_then (index_get block 0) (\<lambda>w.
              Inr (Some (doc_at i4096 (trailing_zeros index) (trailing_zeros w)))))
          else first_doc s (i4096 + 1) upper)
      else Inr None)"
  by pat_completeness auto
termination by (relation "measure (\<lambda>(s, i, u). u - i)") auto

declare first_doc.simps [simp del]

definition below :: "nat \<Rightarrow> nat \<Rightarrow> nat option" where
  "below upper_bound r = (if r < upper_bound then Some r else None)"

text \<open>The second half of \<open>next_set_bit_in_range\<close>: nothing in the word of \<open>start\<close>, so look at the later words of its
  block, then at the later blocks.\<close>

definition next_after_word :: "sparse_bit_set \<Rightarrow> nat \<Rightarrow> u64 \<Rightarrow> nat \<Rightarrow> nat \<Rightarrow> nat \<Rightarrow> nat option panics" where
  "next_after_word s i4096 index i64 at_o upper_bound =
     (let index_bits = drop_bit 1 (drop_bit i64 index) in
      if index_bits = 0 then
        and_then (first_doc s (i4096 + 1)
          (if upper_bound = sp_length s then length (indices s) else block_count upper_bound)) (\<lambda>r.
        Inr (Option.bind r (below upper_bound)))
      else
        and_then (the_block s i4096) (\<lambda>block.
        and_then (index_get block at_o) (\<lambda>w.
          Inr (below upper_bound (doc_at i4096 (i64 + (1 + trailing_zeros index_bits)) (trailing_zeros w))))))"

definition sp_next_set_bit_in_range :: "sparse_bit_set \<Rightarrow> nat \<Rightarrow> nat \<Rightarrow> nat option panics" where
  "sp_next_set_bit_in_range s start upper_bound =
     (if upper_bound \<le> start then Inr None
      else
        let i4096 = start div 4096 in
        and_then (index_get (indices s) i4096) (\<lambda>index.
          let i64 = start div 64 mod 64; i64bit = push_bit i64 1; at_o = rank index i64bit in
          if index AND i64bit \<noteq> 0 then
            and_then (the_block s i4096) (\<lambda>block.
            and_then (index_get block at_o) (\<lambda>w.
              let b = drop_bit (start mod 64) w in
              if b \<noteq> 0 then Inr (below upper_bound (start + trailing_zeros b))
              else next_after_word s i4096 index i64 (at_o + 1) upper_bound))
          else next_after_word s i4096 index i64 at_o upper_bound))"

definition sp_next_set_bit :: "sparse_bit_set \<Rightarrow> nat \<Rightarrow> nat option panics" where
  "sp_next_set_bit s i = (if sp_length s \<le> i then Inr None else sp_next_set_bit_in_range s i (sp_length s))"

definition sp_word :: "sparse_bit_set \<Rightarrow> nat \<Rightarrow> u64 panics" where
  "sp_word s w =
     and_then (index_get (indices s) (w div 64)) (\<lambda>index.
       let i64bit = push_bit (w mod 64) 1 in
       if index AND i64bit = 0 then Inr 0
       else and_then (the_block s (w div 64)) (\<lambda>block. index_get block (rank index i64bit)))"

function clear_scan :: "sparse_bit_set \<Rightarrow> nat \<Rightarrow> nat \<Rightarrow> nat \<Rightarrow> nat \<Rightarrow> nat option panics" where
  "clear_scan s w from final upper_bound =
     (if w \<le> final then
        and_then (index_get (indices s) (w div 64)) (\<lambda>index.
          let i64bit = push_bit (w mod 64) 1 in
          if index AND i64bit = 0 then Inr (below upper_bound (w * 64 + from))
          else
            and_then (the_block s (w div 64)) (\<lambda>block.
            and_then (index_get block (rank index i64bit)) (\<lambda>word.
              let clear = NOT word AND push_bit from (- 1) in
              if clear = 0 then clear_scan s (w + 1) 0 final upper_bound
              else Inr (below upper_bound (w * 64 + trailing_zeros clear)))))
      else Inr None)"
  by pat_completeness auto
termination by (relation "measure (\<lambda>(s, w, f, l, u). Suc l - w)") auto

declare clear_scan.simps [simp del]

definition sp_next_clear_bit_in_range :: "sparse_bit_set \<Rightarrow> nat \<Rightarrow> nat \<Rightarrow> nat option panics" where
  "sp_next_clear_bit_in_range s start upper_bound =
     (let upper_bound = min upper_bound (sp_length s) in
      if upper_bound \<le> start then Inr None
      else clear_scan s (start div 64) (start mod 64) ((upper_bound - 1) div 64) upper_bound)"

definition sp_next_clear_bit :: "sparse_bit_set \<Rightarrow> nat \<Rightarrow> nat option panics" where
  "sp_next_clear_bit s i = sp_next_clear_bit_in_range s i (sp_length s)"

text \<open>\<open>last_doc(Some(i4096))\<close> is \<open>last_doc s (i4096 + 1)\<close>, \<open>last_doc(None)\<close> is \<open>last_doc s 0\<close>.\<close>

fun last_doc :: "sparse_bit_set \<Rightarrow> nat \<Rightarrow> nat option panics" where
  "last_doc s 0 = Inr None"
| "last_doc s (Suc i4096) =
     and_then (index_get (indices s) i4096) (\<lambda>index.
       if index \<noteq> 0 then
         and_then (the_block s i4096) (\<lambda>block.
         and_then (index_get block (count_ones index - 1)) (\<lambda>w.
           Inr (Some (doc_at i4096 (63 - leading_zeros index) (63 - leading_zeros w)))))
       else last_doc s i4096)"

text \<open>The second half of \<open>prev_set_bit\<close>: the earlier words of the block, then the earlier blocks.\<close>

definition prev_before_word :: "sparse_bit_set \<Rightarrow> nat \<Rightarrow> u64 \<Rightarrow> nat option panics" where
  "prev_before_word s i4096 index_bits =
     (if index_bits = 0 then last_doc s i4096
      else
        and_then (the_block s i4096) (\<lambda>block.
        and_then (index_get block (count_ones index_bits - 1)) (\<lambda>w.
          Inr (Some (doc_at i4096 (63 - leading_zeros index_bits) (63 - leading_zeros w))))))"

definition up_to :: "nat \<Rightarrow> u64" where
  "up_to sub = (if sub = 63 then - 1 else push_bit (sub + 1) 1 - 1)"

definition sp_prev_set_bit :: "sparse_bit_set \<Rightarrow> nat \<Rightarrow> nat option panics" where
  "sp_prev_set_bit s i =
     sp_check s i
       (let i4096 = i div 4096 in
        and_then (index_get (indices s) i4096) (\<lambda>index.
          let i64 = i div 64 mod 64;
              index_bits = index AND (push_bit i64 1 - 1);
              at_o = count_ones index_bits
          in if index AND push_bit i64 1 \<noteq> 0 then
               and_then (the_block s i4096) (\<lambda>block.
               and_then (index_get block at_o) (\<lambda>w.
                 let b = w AND up_to (i mod 64) in
                 if b \<noteq> 0 then Inr (Some (doc_at i4096 i64 (63 - leading_zeros b)))
                 else prev_before_word s i4096 index_bits))
             else prev_before_word s i4096 index_bits))"

section \<open>Unions\<close>

definition sp_or_iter :: "sparse_bit_set \<Rightarrow> nat list \<Rightarrow> sparse_bit_set panics" where
  "sp_or_iter s docs = each (\<lambda>d s. sp_set s d) docs s"

text \<open>The inner loop visits the bits of the index from the lowest; \<open>o\<close> counts the words of the block.\<close>

definition or_block :: "sparse_bit_set \<Rightarrow> nat \<Rightarrow> sparse_bit_set \<Rightarrow> sparse_bit_set panics" where
  "or_block other i4096 s =
     and_then (index_get (indices other) i4096) (\<lambda>index.
       if index = 0 then Inr s
       else
         and_then (the_block other i4096) (\<lambda>block.
           each (\<lambda>(n, i64) s. and_then (index_get block n) (\<lambda>w. or_long s i4096 i64 w))
             (List.enumerate 0 (word_positions index)) s))"

definition sp_or :: "sparse_bit_set \<Rightarrow> sparse_bit_set \<Rightarrow> sparse_bit_set panics" where
  "sp_or s other = each (or_block other) [0..<min (length (indices other)) (length (indices s))] s"

section \<open>What a sparse set holds\<close>

text \<open>A block that stores the words \<open>f 0 \<dots> f 63\<close>.\<close>

definition block_holds :: "(nat \<Rightarrow> u64) \<Rightarrow> u64 \<Rightarrow> u64 list option \<Rightarrow> bool" where
  "block_holds f index blk \<longleftrightarrow>
     (\<forall>j. bit index j \<longleftrightarrow> j < 64 \<and> f j \<noteq> 0) \<and>
     (case blk of
        None \<Rightarrow> index = 0
      | Some ws \<Rightarrow> index \<noteq> 0 \<and> length ws \<le> 64 \<and> (\<exists>z. ws = map f (filter (\<lambda>j. f j \<noteq> 0) [0..<64]) @ replicate z 0))"

text \<open>A set that stores the words \<open>F 0, F 1, \<dots>\<close>.\<close>

definition holds :: "(nat \<Rightarrow> u64) \<Rightarrow> sparse_bit_set \<Rightarrow> bool" where
  "holds F s \<longleftrightarrow>
     1 \<le> sp_length s \<and> length (indices s) = block_count (sp_length s) \<and> length (blocks s) = block_count (sp_length s) \<and>
     (\<forall>k < block_count (sp_length s). block_holds (\<lambda>j. F (k * 64 + j)) (indices s ! k) (blocks s ! k)) \<and>
     non_zero_long_count s = card {w. F w \<noteq> 0} \<and> (\<forall>w b. bit (F w) b \<longrightarrow> w * 64 + b < sp_length s)"

definition set_of_words :: "(nat \<Rightarrow> u64) \<Rightarrow> nat set" where
  "set_of_words F = {i. bit (F (i div 64)) (i mod 64)}"

definition sparse_wf :: "sparse_bit_set \<Rightarrow> bool" where
  "sparse_wf s \<longleftrightarrow> (\<exists>F. holds F s)"

definition sparse_set :: "sparse_bit_set \<Rightarrow> nat set" where
  "sparse_set s = {i. sp_get s i = Inr True}"

lemma bit_index_and: "j < 64 \<Longrightarrow> (index :: u64) AND 2 ^ j = 0 \<longleftrightarrow> \<not> bit index j"
  using and_single [of j index] by auto

lemma length_filter_card: "length (filter P [0..<n]) = card {j. j < n \<and> P j}"
proof -
  have "card {j. j < n \<and> P j} = card (set (filter P [0..<n]))" by (rule arg_cong [of _ _ card]) auto
  also have "\<dots> = length (filter P [0..<n])" by (rule distinct_card) simp
  finally show ?thesis by simp
qed

lemma rank_eq:
  assumes "\<And>i. bit index i \<longleftrightarrow> i < 64 \<and> f i \<noteq> 0" and "j < 64"
  shows "rank index (2 ^ j) = length (filter (\<lambda>i. f i \<noteq> 0) [0..<j])"
proof -
  have "bit (2 ^ j - 1 :: u64) i \<longleftrightarrow> i < j" for i
    using assms(2) by (auto simp: bit_low_mask)
  then have "{i. bit (index AND (2 ^ j - 1)) i} = {i. i < j \<and> f i \<noteq> 0}" using assms by (auto simp: bit_and_iff)
  then show ?thesis by (simp add: rank_def count_ones_card length_filter_card)
qed

lemma filter_split:
  assumes "j < n"
  shows "filter P [0..<n] = filter P [0..<j] @ (if P j then [j] else []) @ filter P [Suc j..<n]"
proof -
  have "[0..<n] = [0..<j] @ j # [Suc j..<n]" using assms by (metis less_imp_le_nat upt_add_eq_append upt_conv_Cons le0 le_add_diff_inverse)
  then show ?thesis by simp
qed

lemma map_filter_cong:
  "(\<And>x. x \<in> set xs \<Longrightarrow> P x = Q x) \<Longrightarrow> (\<And>x. x \<in> set xs \<Longrightarrow> f x = g x) \<Longrightarrow> map f (filter P xs) = map g (filter Q xs)"
  by (induction xs) simp_all

text \<open>The words stored before and after word \<open>j\<close>.\<close>

definition before :: "(nat \<Rightarrow> u64) \<Rightarrow> nat \<Rightarrow> u64 list" where
  "before f j = map f (filter (\<lambda>i. f i \<noteq> 0) [0..<j])"

definition after :: "(nat \<Rightarrow> u64) \<Rightarrow> nat \<Rightarrow> u64 list" where
  "after f j = map f (filter (\<lambda>i. f i \<noteq> 0) [Suc j..<64])"

lemma stored_split:
  "j < 64 \<Longrightarrow> map f (filter (\<lambda>i. f i \<noteq> 0) [0..<64]) = before f j @ (if f j \<noteq> 0 then [f j] else []) @ after f j"
  by (simp add: filter_split [of j 64] before_def after_def)

lemma around_cong: "\<forall>i. i \<noteq> j \<longrightarrow> g i = f i \<Longrightarrow> before g j = before f j" "\<forall>i. i \<noteq> j \<longrightarrow> g i = f i \<Longrightarrow> after g j = after f j"
  unfolding before_def after_def by (rule map_filter_cong; auto)+

lemma around_upd [simp]: "before (f(j := v)) j = before f j" "after (f(j := v)) j = after f j"
  by (rule around_cong; simp)+

lemma nonzero_around: "0 \<notin> set (before f j)" "0 \<notin> set (after f j)"
  by (auto simp: before_def after_def)

lemma block_holds_cases:
  assumes "block_holds f index blk" and "j < 64"
  obtains "blk = None" "index = 0" "\<And>i. i < 64 \<Longrightarrow> f i = 0"
  | z where "blk = Some (before f j @ (if f j \<noteq> 0 then [f j] else []) @ after f j @ replicate z 0)" "index \<noteq> 0"
      "length (before f j @ (if f j \<noteq> 0 then [f j] else []) @ after f j @ replicate z 0) \<le> 64"
proof (cases blk)
  case None
  then have "index = 0" using assms(1) by (simp add: block_holds_def)
  moreover have "f i = 0" if "i < 64" for i using assms(1) that \<open>index = 0\<close> by (auto simp: block_holds_def)
  ultimately show ?thesis using None that(1) by blast
next
  case (Some ws)
  then obtain z where "ws = map f (filter (\<lambda>j. f j \<noteq> 0) [0..<64]) @ replicate z 0" "index \<noteq> 0" "length ws \<le> 64"
    using assms(1) by (auto simp: block_holds_def)
  then show ?thesis using that(2) [of z] Some by (simp add: stored_split [OF assms(2)])
qed

lemma block_present:
  assumes "block_holds f index blk" and "j < 64" and "f j \<noteq> 0"
  obtains z where "blk = Some (before f j @ f j # after f j @ replicate z 0)" "length (before f j @ f j # after f j @ replicate z 0) \<le> 64"
  by (rule block_holds_cases [OF assms(1,2)]) (use assms(2,3) that in auto)

lemma block_absent:
  assumes "block_holds f index blk" and "j < 64" and "f j = 0" and "index \<noteq> 0"
  obtains z where "blk = Some (before f j @ after f j @ replicate z 0)" "length (before f j @ after f j @ replicate z 0) \<le> 64"
  by (rule block_holds_cases [OF assms(1,2)]) (use assms(3,4) that in auto)

lemma block_rank: "block_holds f index blk \<Longrightarrow> j < 64 \<Longrightarrow> rank index (2 ^ j) = length (before f j)"
  using rank_eq [of index f j] by (simp add: block_holds_def before_def)

lemma block_bit: "block_holds f index blk \<Longrightarrow> j < 64 \<Longrightarrow> bit index j \<longleftrightarrow> f j \<noteq> 0"
  by (simp add: block_holds_def)

lemma block_holdsI:
  assumes "\<And>i. bit index i \<longleftrightarrow> i < 64 \<and> f i \<noteq> 0" and "j < 64" and "f j \<noteq> 0 \<or> index \<noteq> 0"
    and "length (before f j @ (if f j \<noteq> 0 then [f j] else []) @ after f j @ replicate z 0) \<le> 64"
  shows "block_holds f index (Some (before f j @ (if f j \<noteq> 0 then [f j] else []) @ after f j @ replicate z 0))"
proof -
  have "index \<noteq> 0" using assms(1) [of j] assms(2,3) by auto
  then show ?thesis using assms(1,4) by (auto simp: block_holds_def stored_split [OF assms(2)])
qed

text \<open>Reading, replacing, removing and inserting a word.\<close>

lemma block_read:
  assumes "block_holds f index blk" and "j < 64" and "f j \<noteq> 0"
  obtains ws where "blk = Some ws" "rank index (2 ^ j) < length ws" "ws ! rank index (2 ^ j) = f j"
    "\<And>v. v \<noteq> 0 \<Longrightarrow> block_holds (f(j := v)) index (Some (ws[rank index (2 ^ j) := v]))"
proof -
  obtain z where z: "blk = Some (before f j @ f j # after f j @ replicate z 0)" "length (before f j @ f j # after f j @ replicate z 0) \<le> 64"
    by (rule block_present [OF assms])
  let ?ws = "before f j @ f j # after f j @ replicate z 0"
  note r = block_rank [OF assms(1,2)]
  have "block_holds (f(j := v)) index (Some (?ws[length (before f j) := v]))" if "v \<noteq> 0" for v
    using block_holdsI [of index "f(j := v)" j z] assms z that block_bit [OF assms(1)]
    by (auto simp: list_update_append block_holds_def)
  then show ?thesis using that [of ?ws] z(1) by (simp add: r nth_append)
qed

lemma stored_count:
  assumes "\<And>i. bit index i \<longleftrightarrow> i < 64 \<and> f i \<noteq> 0"
  shows "count_ones index = length (filter (\<lambda>j. f j \<noteq> 0) [0..<64])"
proof -
  have "{i. bit index i} = {j. j < 64 \<and> f j \<noteq> 0}" using assms by blast
  then show ?thesis by (simp only: count_ones_card length_filter_card)
qed

lemma stored_around: "j < 64 \<Longrightarrow> length (filter (\<lambda>i. f i \<noteq> 0) [0..<64]) = length (before f j) + (if f j \<noteq> 0 then 1 else 0) + length (after f j)"
  by (simp add: filter_split [of j 64] before_def after_def)

lemma bit_removed: "j < 64 \<Longrightarrow> bit ((index :: u64) AND NOT (2 ^ j)) i \<longleftrightarrow> bit index i \<and> i \<noteq> j"
  by (auto simp: bit_and_iff bit_not_iff bit_single dest: bit_imp_le_length)

lemma bit_inserted: "j < 64 \<Longrightarrow> bit ((index :: u64) OR 2 ^ j) i \<longleftrightarrow> bit index i \<or> i = j"
  by (auto simp: bit_or_iff bit_single)

lemma drop_to_last: "drop (length ys) (x # ys @ zs) = last (x # ys) # zs"
  by (induction ys arbitrary: x) simp_all

lemma block_remove:
  assumes "block_holds f index blk" and "j < 64" and "f j \<noteq> 0"
  defines "index' \<equiv> index AND NOT (2 ^ j)"
  shows "index' = 0 \<Longrightarrow> block_holds (f(j := 0)) index' None"
    and "index' \<noteq> 0 \<Longrightarrow> \<exists>ws ws1 ws2. blk = Some ws \<and> copy_inside ws (rank index (2 ^ j) + 1) (count_ones index' + 1) (rank index (2 ^ j)) = Inr ws1 \<and>
      index_set ws1 (count_ones index') 0 = Inr ws2 \<and> block_holds (f(j := 0)) index' (Some ws2)"
proof -
  have bits: "bit index' i \<longleftrightarrow> i < 64 \<and> (f(j := 0)) i \<noteq> 0" for i
    using assms(1,2) by (auto simp: index'_def bit_removed block_holds_def)
  show "index' = 0 \<Longrightarrow> block_holds (f(j := 0)) index' None" using bits by (simp add: block_holds_def)
  assume nz: "index' \<noteq> 0"
  let ?A = "before f j" and ?B = "after f j"
  have n: "count_ones index' = length ?A + length ?B"
    using stored_count [OF bits] stored_around [OF assms(2), of "f(j := 0)"] by simp
  note r = block_rank [OF assms(1,2)]
  obtain z where z: "blk = Some (?A @ f j # ?B @ replicate z 0)" "length (?A @ f j # ?B @ replicate z 0) \<le> 64"
    by (rule block_present [OF assms(1-3)])
  let ?ws = "?A @ f j # ?B @ replicate z 0"
  have copy: "copy_inside ?ws (length ?A + 1) (length ?A + length ?B + 1) (length ?A) = Inr (?A @ ?B @ drop (length ?B) (f j # ?B @ replicate z 0))"
    by (simp add: copy_inside_def)
  have "drop (length ?B) (f j # ?B @ replicate z 0) = last (f j # ?B) # replicate z 0"
    by (rule drop_to_last)
  then have "index_set (?A @ ?B @ drop (length ?B) (f j # ?B @ replicate z 0)) (length ?A + length ?B) 0 = Inr (?A @ ?B @ replicate (Suc z) 0)"
    by (simp add: index_set_def list_update_append)
  moreover have "block_holds (f(j := 0)) index' (Some (?A @ ?B @ replicate (Suc z) 0))"
    using block_holdsI [of index' "f(j := 0)" j "Suc z", OF bits assms(2)] nz z(2) by simp
  ultimately show "\<exists>ws ws1 ws2. blk = Some ws \<and> copy_inside ws (rank index (2 ^ j) + 1) (count_ones index' + 1) (rank index (2 ^ j)) = Inr ws1 \<and>
      index_set ws1 (count_ones index') 0 = Inr ws2 \<and> block_holds (f(j := 0)) index' (Some ws2)"
    using z(1) copy by (auto simp: r n)
qed

lemma oversize_bounds: "s \<le> 64 \<Longrightarrow> s \<le> oversize s" "oversize s \<le> 64"
  by (simp_all add: oversize_def Let_def)

lemma last_stored: "last (xs @ ys @ replicate z 0) = 0 \<longleftrightarrow> 0 < z" if "0 \<notin> set xs" "0 \<notin> set ys" "xs @ ys \<noteq> []"
  using that by (cases z) (auto simp: last_append dest: last_in_set)

lemma block_insert:
  assumes "block_holds f index blk" and "j < 64" and "f j = 0" and "index \<noteq> 0" and "v \<noteq> 0"
  shows "\<exists>ws ws'. blk = Some ws \<and> ws \<noteq> [] \<and>
    (if last ws = 0 then shifted ws (rank index (2 ^ j)) v else grown ws (rank index (2 ^ j)) v) = Inr ws' \<and>
    block_holds (f(j := v)) (index OR 2 ^ j) (Some ws')"
proof -
  let ?A = "before f j" and ?B = "after f j"
  have bits: "bit (index OR 2 ^ j) i \<longleftrightarrow> i < 64 \<and> (f(j := v)) i \<noteq> 0" for i
    using assms by (auto simp: bit_inserted block_holds_def)
  obtain z where z: "blk = Some (?A @ ?B @ replicate z 0)" "length (?A @ ?B @ replicate z 0) \<le> 64"
    by (rule block_absent [OF assms(1-4)])
  let ?ws = "?A @ ?B @ replicate z 0"
  note r = block_rank [OF assms(1,2)]
  have "count_ones index = length ?A + length ?B" using stored_count [of index f] assms(1) stored_around [OF assms(2), of f] assms(3)
    by (simp add: block_holds_def)
  moreover have "count_ones index \<noteq> 0" using assms(4) by (auto simp: count_ones_card word_eq_0_iff_bits)
  ultimately have ne: "?A @ ?B \<noteq> []" by auto
  have holds: "block_holds (f(j := v)) (index OR 2 ^ j) (Some (?A @ v # ?B @ replicate y 0))" if "length ?A + length ?B + y < 64" for y
    using block_holdsI [of "index OR 2 ^ j" "f(j := v)" j y, OF bits assms(2)] that assms(5) by simp
  show ?thesis
  proof (cases "last ?ws = 0")
    case True
    then obtain y where y: "z = Suc y" using last_stored [OF nonzero_around ne] gr0_implies_Suc by blast
    have "shifted ?ws (length ?A) v = Inr (?A @ v # ?B @ replicate y 0)"
      by (simp add: shifted_def copy_inside_def index_set_def y replicate_append_same [symmetric] list_update_append del: replicate_Suc)
        (cases "after f j"; simp)
    then show ?thesis using holds [of y] z True ne by (auto simp: r y)
  next
    case False
    then have z0: "z = 0" using last_stored [OF nonzero_around ne] by blast
    have "length ?A + length ?B < 64"
    proof -
      have "card {i. bit index i} < card {..<64 :: nat}"
        by (rule psubset_card_mono) (use assms in \<open>auto simp: block_holds_def\<close>)
      then show ?thesis using \<open>count_ones index = length ?A + length ?B\<close> by (simp add: count_ones_card)
    qed
    then have "grown ?ws (length ?A) v = Inr (?A @ v # ?B @ replicate (oversize (length ?ws + 1) - (length ?ws + 1)) 0)"
      using oversize_bounds(1) [of "length ?ws + 1"] by (simp add: grown_def Let_def z0)
    moreover have "length ?A + length ?B + (oversize (length ?ws + 1) - (length ?ws + 1)) < 64"
      using oversize_bounds(2) [of "length ?ws + 1"] \<open>length ?A + length ?B < 64\<close> by (simp add: z0)
    ultimately show ?thesis using holds z False ne by (auto simp: r)
  qed
qed

lemma block_insert_first:
  assumes "block_holds f 0 blk" and "j < 64" and "v \<noteq> 0"
  shows "block_holds (f(j := v)) (2 ^ j) (Some [v])"
proof -
  have z: "f i = 0" if "i < 64" for i using assms(1) that by (auto simp: block_holds_def)
  have "before f j = []" "after f j = []" using z assms(2) by (auto simp: before_def after_def filter_empty_conv)
  moreover have "bit (2 ^ j :: u64) i \<longleftrightarrow> i < 64 \<and> (f(j := v)) i \<noteq> 0" for i using z assms by (auto simp: bit_single)
  ultimately show ?thesis using block_holdsI [of "2 ^ j" "f(j := v)" j 0] assms(2,3) by simp
qed

section \<open>Operations on one word\<close>

lemma div_4096: "i div 64 div 64 = i div (4096 :: nat)"
  by (simp add: div_mult2_eq [symmetric])

lemma block_count_less: "i < n \<Longrightarrow> i div 4096 < block_count n"
  by (simp add: block_count_def less_eq_div_iff_mult_less_eq Suc_le_eq [symmetric] div_le_mono)

lemma holdsD:
  assumes "holds F s"
  shows "1 \<le> sp_length s" "length (indices s) = block_count (sp_length s)" "length (blocks s) = block_count (sp_length s)"
    "\<And>k. k < block_count (sp_length s) \<Longrightarrow> block_holds (\<lambda>j. F (k * 64 + j)) (indices s ! k) (blocks s ! k)"
    "non_zero_long_count s = card {w. F w \<noteq> 0}" "\<And>w b. bit (F w) b \<Longrightarrow> w * 64 + b < sp_length s"
  using assms by (auto simp: holds_def)

lemma holds_nonzero:
  assumes "holds F s" and "F w \<noteq> 0"
  shows "w * 64 < sp_length s" "w div 64 < block_count (sp_length s)"
proof -
  obtain b where "bit (F w) b" using assms(2) by (metis word_eq_0_iff_bits)
  then show l: "w * 64 < sp_length s" using holdsD(6) [OF assms(1)] by fastforce
  show "w div 64 < block_count (sp_length s)" using block_count_less [OF l] div_4096 [of "w * 64"] by simp
qed

lemma finite_nonzero: "holds F s \<Longrightarrow> finite {w. F w \<noteq> 0}"
  by (rule finite_subset [of _ "{..<sp_length s}"]) (auto dest: holds_nonzero)

lemma block_holds_cong:
  assumes "\<And>i. i < 64 \<Longrightarrow> f i = g i"
  shows "block_holds f x y \<longleftrightarrow> block_holds g x y"
proof -
  have "map f (filter (\<lambda>j. f j \<noteq> 0) [0..<64]) = map g (filter (\<lambda>j. g j \<noteq> 0) [0..<64])"
    by (rule map_filter_cong) (simp_all add: assms)
  moreover have "(\<forall>j. bit x j \<longleftrightarrow> j < 64 \<and> f j \<noteq> 0) \<longleftrightarrow> (\<forall>j. bit x j \<longleftrightarrow> j < 64 \<and> g j \<noteq> 0)" using assms by auto
  ultimately show ?thesis unfolding block_holds_def by (cases y) simp_all
qed

lemma holds_upd:
  assumes "holds F s" and "k < block_count (sp_length s)" and "j < 64"
    and "block_holds ((\<lambda>j. F (k * 64 + j))(j := v)) index' blk'" and "\<forall>b. bit v b \<longrightarrow> (k * 64 + j) * 64 + b < sp_length s"
    and "n = (if v \<noteq> 0 then card (insert (k * 64 + j) {w. F w \<noteq> 0}) else card ({w. F w \<noteq> 0} - {k * 64 + j}))"
  shows "holds (F(k * 64 + j := v)) (s\<lparr>indices := (indices s)[k := index'], blocks := (blocks s)[k := blk'], non_zero_long_count := n\<rparr>)"
proof -
  note D = holdsD [OF assms(1)]
  have "{w. (F(k * 64 + j := v)) w \<noteq> 0} = (if v \<noteq> 0 then insert (k * 64 + j) {w. F w \<noteq> 0} else {w. F w \<noteq> 0} - {k * 64 + j})"
    by auto
  moreover have "block_holds (\<lambda>i. (F(k * 64 + j := v)) (k' * 64 + i)) ((indices s)[k := index'] ! k') ((blocks s)[k := blk'] ! k')"
    if k': "k' < block_count (sp_length s)" for k'
  proof (cases "k' = k")
    case True
    have "(\<lambda>i. (F(k * 64 + j := v)) (k * 64 + i)) = (\<lambda>j. F (k * 64 + j))(j := v)" by auto
    then show ?thesis using True assms(2,4) D(2,3) by simp
  next
    case False
    have "k' * 64 + i \<noteq> k * 64 + j" if "i < 64" for i
    proof
      assume "k' * 64 + i = k * 64 + j"
      then have "(k' * 64 + i) div 64 = (k * 64 + j) div 64" by (rule arg_cong)
      then show False using that assms(3) False by simp
    qed
    then have "(F(k * 64 + j := v)) (k' * 64 + i) = F (k' * 64 + i)" if "i < 64" for i using that by simp
    then have "block_holds (\<lambda>i. (F(k * 64 + j := v)) (k' * 64 + i)) x y \<longleftrightarrow> block_holds (\<lambda>i. F (k' * 64 + i)) x y" for x y
      by (rule block_holds_cong)
    then show ?thesis using D(4) [OF k'] False by simp
  qed
  ultimately show ?thesis using D(1-3,6) assms(5,6) unfolding holds_def by (auto split: if_splits)
qed

text \<open>The index word and block that the operations look at.\<close>

lemma index_seen:
  assumes "holds F s" and "k < block_count (sp_length s)" and "j < 64"
  shows "index_get (indices s) k = Inr (indices s ! k)" "indices s ! k AND 2 ^ j = 0 \<longleftrightarrow> F (k * 64 + j) = 0"
    "bit (indices s ! k) j \<longleftrightarrow> F (k * 64 + j) \<noteq> 0"
proof -
  note D = holdsD [OF assms(1)] and B = holdsD(4) [OF assms(1,2)]
  show "index_get (indices s) k = Inr (indices s ! k)" using assms(2) D(2) by (simp add: index_get_def)
  show "bit (indices s ! k) j \<longleftrightarrow> F (k * 64 + j) \<noteq> 0" using block_bit [OF B assms(3)] .
  then show "indices s ! k AND 2 ^ j = 0 \<longleftrightarrow> F (k * 64 + j) = 0" using bit_index_and [OF assms(3)] by blast
qed

lemma word_stored:
  assumes "holds F s" and "k < block_count (sp_length s)" and "j < 64" and nz: "F (k * 64 + j) \<noteq> 0"
  obtains ws where "the_block s k = Inr ws" "index_get ws (rank (indices s ! k) (2 ^ j)) = Inr (F (k * 64 + j))"
    "\<And>v. v \<noteq> 0 \<Longrightarrow> \<forall>b. bit v b \<longrightarrow> (k * 64 + j) * 64 + b < sp_length s \<Longrightarrow>
       \<exists>s'. set_block s k (Some (ws[rank (indices s ! k) (2 ^ j) := v])) = Inr s' \<and> holds (F(k * 64 + j := v)) s' \<and> sp_length s' = sp_length s"
proof -
  note D = holdsD [OF assms(1)] and B = holdsD(4) [OF assms(1,2)]
  let ?r = "rank (indices s ! k) (2 ^ j)"
  obtain ws where ws: "blocks s ! k = Some ws" "?r < length ws" "ws ! ?r = F (k * 64 + j)"
      "\<And>v. v \<noteq> 0 \<Longrightarrow> block_holds ((\<lambda>j. F (k * 64 + j))(j := v)) (indices s ! k) (Some (ws[?r := v]))"
    using block_read [OF B assms(3) nz] by metis
  have "insert (k * 64 + j) {w. F w \<noteq> 0} = {w. F w \<noteq> 0}" using nz by auto
  then have n: "v \<noteq> 0 \<Longrightarrow> non_zero_long_count s =
      (if v \<noteq> 0 then card (insert (k * 64 + j) {w. F w \<noteq> 0}) else card ({w. F w \<noteq> 0} - {k * 64 + j}))" for v :: u64
    using D(5) by simp
  have "holds (F(k * 64 + j := v)) (s\<lparr>blocks := (blocks s)[k := Some (ws[?r := v])]\<rparr>)"
    if "v \<noteq> 0" "\<forall>b. bit v b \<longrightarrow> (k * 64 + j) * 64 + b < sp_length s" for v
    using holds_upd [OF assms(1-3) ws(4) [OF that(1)] that(2) n [OF that(1)]] by simp
  then show ?thesis using that [of ws] ws(1-3) assms(2) D(3)
    by (simp add: the_block_def set_block_def index_get_def index_set_def)
qed

lemma sp_insert_law:
  assumes "holds F s" and "k < block_count (sp_length s)" and "j < 64" and "F (k * 64 + j) = 0" and "v \<noteq> 0"
    and "\<forall>b. bit v b \<longrightarrow> (k * 64 + j) * 64 + b < sp_length s"
  shows "\<exists>s'. sp_insert s k (2 ^ j) v (indices s ! k) = Inr s' \<and> holds (F(k * 64 + j := v)) s' \<and> sp_length s' = sp_length s"
proof -
  note D = holdsD [OF assms(1)] and B = holdsD(4) [OF assms(1,2)]
  have n: "non_zero_long_count s + 1 = card (insert (k * 64 + j) {w. F w \<noteq> 0})"
    using D(5) finite_nonzero [OF assms(1)] assms(4) by simp
  note U = holds_upd [OF assms(1-3) _ assms(6), of _ _ "non_zero_long_count s + 1"]
  have l: "k < length (indices s)" "k < length (blocks s)" using assms(2) D(2,3) by simp_all
  show ?thesis
  proof (cases "indices s ! k = 0")
    case True
    then show ?thesis using U [OF block_insert_first [OF B [unfolded True] assms(3,5)]] l n assms(5)
      by (simp add: sp_insert_def set_index_def set_block_def index_set_def)
  next
    case False
    obtain ws ws' where "blocks s ! k = Some ws" "ws \<noteq> []"
      "(if last ws = 0 then shifted ws (rank (indices s ! k) (2 ^ j)) v else grown ws (rank (indices s ! k) (2 ^ j)) v) = Inr ws'"
      "block_holds ((\<lambda>j. F (k * 64 + j))(j := v)) (indices s ! k OR 2 ^ j) (Some ws')"
      using block_insert [OF B assms(3) _ False assms(5)] assms(4) by blast
    then show ?thesis using U [of "indices s ! k OR 2 ^ j" "Some ws'"] l n assms(5) False
      by (simp add: sp_insert_def set_index_def set_block_def index_set_def index_get_def the_block_def)
  qed
qed

lemma or_long_law:
  assumes "holds F s" and "k < block_count (sp_length s)" and "j < 64" and "\<forall>b. bit v b \<longrightarrow> (k * 64 + j) * 64 + b < sp_length s"
  shows "\<exists>s'. or_long s k j v = Inr s' \<and> holds (F(k * 64 + j := F (k * 64 + j) OR v)) s' \<and> sp_length s' = sp_length s"
proof (cases "v = 0")
  case True
  then show ?thesis using assms(1) by (simp add: or_long_def)
next
  case False
  note I = index_seen [OF assms(1-3)]
  show ?thesis
  proof (cases "F (k * 64 + j) = 0")
    case True
    then show ?thesis using sp_insert_law [OF assms(1-3) True False assms(4)] I(1,2) False by (simp add: or_long_def Let_def)
  next
    case nz: False
    obtain ws where ws: "the_block s k = Inr ws" "index_get ws (rank (indices s ! k) (2 ^ j)) = Inr (F (k * 64 + j))"
        "\<And>v. v \<noteq> 0 \<Longrightarrow> \<forall>b. bit v b \<longrightarrow> (k * 64 + j) * 64 + b < sp_length s \<Longrightarrow>
         \<exists>s'. set_block s k (Some (ws[rank (indices s ! k) (2 ^ j) := v])) = Inr s' \<and> holds (F(k * 64 + j := v)) s' \<and> sp_length s' = sp_length s"
      by (rule word_stored [OF assms(1-3) nz]) blast
    have "F (k * 64 + j) OR v \<noteq> 0" using nz by (simp add: or_eq_0_iff)
    moreover have "\<forall>b. bit (F (k * 64 + j) OR v) b \<longrightarrow> (k * 64 + j) * 64 + b < sp_length s"
      unfolding bit_or_iff using assms(4) holdsD(6) [OF assms(1)] by blast
    ultimately show ?thesis using I(1,2) ws(1,2) ws(3) [of "F (k * 64 + j) OR v"] nz False by (simp add: or_long_def Let_def)
  qed
qed

lemma remove_long_law:
  assumes "holds F s" and "k < block_count (sp_length s)" and "j < 64" and "F (k * 64 + j) \<noteq> 0"
  shows "\<exists>s'. remove_long s k j (indices s ! k) (rank (indices s ! k) (2 ^ j)) = Inr s' \<and> holds (F(k * 64 + j := 0)) s' \<and> sp_length s' = sp_length s"
proof -
  note D = holdsD [OF assms(1)] and B = holdsD(4) [OF assms(1,2)]
  let ?i = "indices s ! k AND NOT (2 ^ j)"
  have n: "non_zero_long_count s - 1 = card ({w. F w \<noteq> 0} - {k * 64 + j})" "1 \<le> non_zero_long_count s"
    using D(5) finite_nonzero [OF assms(1)] assms(4) by (auto simp: Suc_le_eq card_gt_0_iff)
  have l: "k < length (indices s)" "k < length (blocks s)" using assms(2) D(2,3) by simp_all
  note U = holds_upd [OF assms(1-3), of 0 ?i _ "non_zero_long_count s - 1"]
  show ?thesis
  proof (cases "?i = 0")
    case True
    then show ?thesis using U [of None] block_remove(1) [OF B assms(3,4) True] l n
      by (simp add: remove_long_def set_index_def set_block_def index_set_def checked_minus_def)
  next
    case False
    obtain ws ws1 ws2 where w: "blocks s ! k = Some ws" "copy_inside ws (rank (indices s ! k) (2 ^ j) + 1) (count_ones ?i + 1) (rank (indices s ! k) (2 ^ j)) = Inr ws1"
      "index_set ws1 (count_ones ?i) 0 = Inr ws2" "block_holds ((\<lambda>j. F (k * 64 + j))(j := 0)) ?i (Some ws2)"
      using block_remove(2) [OF B assms(3,4) False] by blast
    then show ?thesis using U [of "Some ws2"] l n False
      by (simp add: remove_long_def set_index_def set_block_def index_set_def [of _ k] checked_minus_def the_block_def index_get_def Let_def)
  qed
qed

lemma sp_and_law:
  assumes "holds F s" and "k < block_count (sp_length s)" and "j < 64"
  shows "\<exists>s'. sp_and s k j m = Inr s' \<and> holds (F(k * 64 + j := F (k * 64 + j) AND m)) s' \<and> sp_length s' = sp_length s"
proof -
  note I = index_seen [OF assms]
  show ?thesis
  proof (cases "F (k * 64 + j) = 0")
    case True
    then have "F(k * 64 + j := F (k * 64 + j) AND m) = F" by auto
    then show ?thesis using assms(1) I(1,2) True by (simp add: sp_and_def)
  next
    case False
    obtain ws where ws: "the_block s k = Inr ws" "index_get ws (rank (indices s ! k) (2 ^ j)) = Inr (F (k * 64 + j))"
        "\<And>v. v \<noteq> 0 \<Longrightarrow> \<forall>b. bit v b \<longrightarrow> (k * 64 + j) * 64 + b < sp_length s \<Longrightarrow>
         \<exists>s'. set_block s k (Some (ws[rank (indices s ! k) (2 ^ j) := v])) = Inr s' \<and> holds (F(k * 64 + j := v)) s' \<and> sp_length s' = sp_length s"
      by (rule word_stored [OF assms False]) blast
    show ?thesis
    proof (cases "F (k * 64 + j) AND m = 0")
      case True
      then show ?thesis using remove_long_law [OF assms False] I(1,2) ws(1,2) False by (simp add: sp_and_def Let_def)
    next
      case nz: False
      have "\<forall>b. bit (F (k * 64 + j) AND m) b \<longrightarrow> (k * 64 + j) * 64 + b < sp_length s"
        unfolding bit_and_iff using holdsD(6) [OF assms(1)] by blast
      then show ?thesis using ws(3) [OF nz] nz I(1,2) ws(1,2) False by (simp add: sp_and_def Let_def)
    qed
  qed
qed

section \<open>The set a sparse set stands for\<close>

lemma sp_get_holds: "holds F s \<Longrightarrow> sp_get s i = (if i < sp_length s then Inr (i \<in> set_of_words F) else Inl IndexOutOfRange)"
proof (cases "i < sp_length s")
  case True
  assume h: "holds F s"
  let ?k = "i div 4096" and ?j = "i div 64 mod 64"
  have k: "?k < block_count (sp_length s)" and w: "?k * 64 + ?j = i div 64"
    using block_count_less [OF True] div_mult_mod_eq [of "i div 64" 64] by (simp_all add: div_4096 del: div_mult_mod_eq)
  note I = index_seen [OF h k mod_64_less [of "i div 64"]]
  show ?thesis
  proof (cases "F (?k * 64 + ?j) = 0")
    case zero: True
    then show ?thesis using True I by (simp add: sp_get_def sp_check_def set_of_words_def w)
  next
    case False
    obtain ws where "the_block s ?k = Inr ws" "index_get ws (rank (indices s ! ?k) (2 ^ ?j)) = Inr (F (i div 64))"
      using word_stored [OF h k mod_64_less [of "i div 64"] False] unfolding w by metis
    then show ?thesis using True I(1,2) False by (simp add: sp_get_def sp_check_def set_of_words_def w and_single [of "i mod 64"] Let_def)
  qed
qed (simp add: sp_get_def sp_check_def)

lemma set_of_words_below: "holds F s \<Longrightarrow> i \<in> set_of_words F \<Longrightarrow> i < sp_length s"
  using holdsD(6) [of F s "i div 64" "i mod 64"] by (simp add: set_of_words_def)

lemma sparse_set_holds: "holds F s \<Longrightarrow> sparse_set s = set_of_words F"
  by (auto simp: sparse_set_def sp_get_holds set_of_words_below)

lemma sparse_set_below: "sparse_wf s \<Longrightarrow> sparse_set s \<subseteq> {..<sp_length s}"
  by (auto simp: sparse_wf_def sparse_set_holds dest: set_of_words_below)

text \<open>A step that succeeds and leaves a set of the same length standing for \<open>S\<close>.\<close>

definition becomes :: "sparse_bit_set \<Rightarrow> sparse_bit_set panics \<Rightarrow> nat set \<Rightarrow> bool" where
  "becomes s r S \<longleftrightarrow> (\<exists>s'. r = Inr s' \<and> sparse_wf s' \<and> sp_length s' = sp_length s \<and> sparse_set s' = S)"

definition word_set :: "nat \<Rightarrow> u64 \<Rightarrow> nat set" where
  "word_set w v = {i. i div 64 = w \<and> bit v (i mod 64)}"

lemma becomesI: "r = Inr s' \<Longrightarrow> holds F s' \<Longrightarrow> sp_length s' = sp_length s \<Longrightarrow> set_of_words F = S \<Longrightarrow> becomes s r S"
  by (auto simp: becomes_def sparse_wf_def sparse_set_holds)

lemma becomes_then:
  assumes "becomes s r S" and "\<And>s'. sparse_wf s' \<Longrightarrow> sp_length s' = sp_length s \<Longrightarrow> sparse_set s' = S \<Longrightarrow> becomes s' (f s') T"
  shows "becomes s (and_then r f) T"
proof -
  obtain s' where s': "r = Inr s'" "sparse_wf s'" "sp_length s' = sp_length s" "sparse_set s' = S" using assms(1) by (auto simp: becomes_def)
  from assms(2) [OF s'(2-4)] show ?thesis using s'(1,3) by (simp add: becomes_def)
qed

lemma becomes_each:
  assumes "\<And>x s'. x \<in> set xs \<Longrightarrow> sparse_wf s' \<Longrightarrow> sp_length s' = sp_length s \<Longrightarrow> becomes s' (f x s') (g (sparse_set s') x)" and "sparse_wf s"
  shows "becomes s (each f xs s) (foldl g (sparse_set s) xs)"
  using assms
proof (induction xs arbitrary: s)
  case Nil
  then show ?case by (simp add: becomes_def)
next
  case (Cons x xs)
  have "becomes s (f x s) (g (sparse_set s) x)" using Cons.prems by simp
  then have "becomes s (and_then (f x s) (each f xs)) (foldl g (g (sparse_set s) x) xs)"
  proof (rule becomes_then)
    fix s' assume "sparse_wf s'" "sp_length s' = sp_length s" "sparse_set s' = g (sparse_set s) x"
    then show "becomes s' (each f xs s') (foldl g (g (sparse_set s) x) xs)" using Cons.IH [of s'] Cons.prems(1) by simp
  qed
  then show ?case by simp
qed

lemma foldl_sets: "foldl (\<lambda>S x. S \<union> A x) S xs = S \<union> (\<Union>x \<in> set xs. A x)" "foldl (\<lambda>S x. S - A x) S xs = S - (\<Union>x \<in> set xs. A x)"
  by (induction xs arbitrary: S) auto

lemma word_set_below: "word_set w v \<subseteq> {..<n} \<longleftrightarrow> (\<forall>b. bit v b \<longrightarrow> w * 64 + b < n)"
proof -
  have "w * 64 + b \<in> word_set w v" if "bit v b" for b
    using that bit_imp_le_length [OF that] by (simp add: word_set_def)
  moreover have "bit v (i mod 64) \<and> w * 64 + i mod 64 = i" if "i \<in> word_set w v" for i using that by (auto simp: word_set_def)
  ultimately show ?thesis by (metis lessThan_iff subset_eq)
qed

lemma or_long_set:
  assumes "sparse_wf s" and "k < block_count (sp_length s)" and "j < 64" and "word_set (k * 64 + j) v \<subseteq> {..<sp_length s}"
  shows "becomes s (or_long s k j v) (sparse_set s \<union> word_set (k * 64 + j) v)"
proof -
  obtain F where F: "holds F s" using assms(1) by (auto simp: sparse_wf_def)
  obtain s' where "or_long s k j v = Inr s'" "holds (F(k * 64 + j := F (k * 64 + j) OR v)) s'" "sp_length s' = sp_length s"
    using or_long_law [OF F assms(2,3)] assms(4) by (auto simp: word_set_below)
  then show ?thesis by (rule becomesI) (auto simp: sparse_set_holds [OF F] set_of_words_def word_set_def bit_or_iff)
qed

lemma sp_and_set:
  assumes "sparse_wf s" and "k < block_count (sp_length s)" and "j < 64"
  shows "becomes s (sp_and s k j (NOT v)) (sparse_set s - word_set (k * 64 + j) v)"
proof -
  obtain F where F: "holds F s" using assms(1) by (auto simp: sparse_wf_def)
  obtain s' where "sp_and s k j (NOT v) = Inr s'" "holds (F(k * 64 + j := F (k * 64 + j) AND NOT v)) s'" "sp_length s' = sp_length s"
    using sp_and_law [OF F assms(2,3)] by blast
  then show ?thesis
    by (rule becomesI) (auto simp: sparse_set_holds [OF F] set_of_words_def word_set_def bit_and_iff bit_not_iff)
qed

lemma new_set:
  assumes "1 \<le> n"
  shows "\<exists>s. sp_new n = Inr s \<and> sparse_wf s \<and> sp_length s = n \<and> sparse_set s = {}"
proof -
  let ?s = "\<lparr>indices = replicate (block_count n) 0, blocks = replicate (block_count n) None, sp_length = n, non_zero_long_count = 0\<rparr>"
  have "holds (\<lambda>_. 0) ?s" using assms by (simp add: holds_def block_holds_def)
  then show ?thesis using assms by (auto simp: sp_new_def assert_that_def sparse_wf_def sparse_set_holds set_of_words_def)
qed

lemma clear_all_set: "sparse_wf s \<Longrightarrow> becomes s (Inr (sp_clear_all s)) {}"
proof -
  assume "sparse_wf s"
  then obtain F where "holds F s" by (auto simp: sparse_wf_def)
  then have "holds (\<lambda>_. 0) (sp_clear_all s)" by (auto simp: holds_def block_holds_def sp_clear_all_def)
  then show ?thesis by (auto intro!: becomesI simp: sp_clear_all_def set_of_words_def)
qed

lemma word_of: "i div 4096 * 64 + i div 64 mod 64 = (i div 64 :: nat)"
  using div_mult_mod_eq [of "i div 64" 64] by (simp only: div_4096)

lemma word_set_image: "word_set w v = (+) (w * 64) ` {b. bit v b}"
proof -
  have "(w * 64 + b) div 64 = w \<and> (w * 64 + b) mod 64 = b" if "bit v b" for b using bit_imp_le_length [OF that] by simp
  moreover have "i = w * 64 + i mod 64" if "i div 64 = w" for i using that by auto
  ultimately show ?thesis by (auto simp: word_set_def image_iff)
qed

lemma word_set_single: "word_set (i div 64) (2 ^ (i mod 64)) = {i}"
proof -
  have "{b. bit (2 ^ (i mod 64) :: u64) b} = {i mod 64}" by (auto simp: bit_single)
  then show ?thesis by (simp add: word_set_image)
qed

lemma get_law: "sparse_wf s \<Longrightarrow> sp_get s i = (if i < sp_length s then Inr (i \<in> sparse_set s) else Inl IndexOutOfRange)"
  by (auto simp: sparse_wf_def sp_get_holds sparse_set_holds)

text \<open>\<open>set\<close> is \<open>or_long\<close> with one bit; the value \<open>get_and_set\<close> returns is the old bit.\<close>

lemma get_and_set_or_long:
  assumes "sparse_wf s" and "i < sp_length s"
  shows "sp_get_and_set s i = and_then (or_long s (i div 4096) (i div 64 mod 64) (2 ^ (i mod 64))) (\<lambda>s'. Inr (i \<in> sparse_set s, s'))"
proof -
  obtain F where F: "holds F s" using assms(1) by (auto simp: sparse_wf_def)
  let ?k = "i div 4096" and ?j = "i div 64 mod 64"
  note k = block_count_less [OF assms(2)] and S = sparse_set_holds [OF F]
  note I = index_seen [OF F k mod_64_less [of "i div 64"], unfolded word_of]
  show ?thesis
  proof (cases "F (i div 64) = 0")
    case True
    then show ?thesis using assms(2) I(1,2) S
      by (cases "sp_insert s ?k (2 ^ ?j) (2 ^ (i mod 64)) (indices s ! ?k)")
        (simp_all add: sp_get_and_set_def sp_check_def or_long_def Let_def set_of_words_def)
  next
    case False
    obtain ws where "the_block s ?k = Inr ws" "index_get ws (rank (indices s ! ?k) (2 ^ ?j)) = Inr (F (i div 64))"
      using word_stored [OF F k mod_64_less [of "i div 64"]] False unfolding word_of by metis
    then show ?thesis using assms(2) I(1,2) False S
      by (cases "set_block s ?k (Some (ws[rank (indices s ! ?k) (2 ^ ?j) := F (i div 64) OR 2 ^ (i mod 64)]))")
        (simp_all add: sp_get_and_set_def sp_check_def or_long_def Let_def set_of_words_def and_single [of "i mod 64"])
  qed
qed

lemma or_one_set:
  assumes "sparse_wf s" and "i < sp_length s"
  shows "becomes s (or_long s (i div 4096) (i div 64 mod 64) (2 ^ (i mod 64))) (insert i (sparse_set s))"
  using or_long_set [OF assms(1) block_count_less [OF assms(2)] mod_64_less [of "i div 64"], of "2 ^ (i mod 64)"] assms(2)
  by (simp add: word_of word_set_single)

lemma get_and_set_law:
  assumes "sparse_wf s" and "i < sp_length s"
  shows "\<exists>s'. sp_get_and_set s i = Inr (i \<in> sparse_set s, s') \<and> becomes s (Inr s') (insert i (sparse_set s))"
  using or_one_set [OF assms] by (auto simp: get_and_set_or_long [OF assms] becomes_def)

lemma set_law: "sparse_wf s \<Longrightarrow> i < sp_length s \<Longrightarrow> becomes s (sp_set s i) (insert i (sparse_set s))"
  using get_and_set_law [of s i] by (auto simp: sp_set_def)

lemma clear_law:
  assumes "sparse_wf s" and "i < sp_length s"
  shows "becomes s (sp_clear s i) (sparse_set s - {i})"
  using sp_and_set [OF assms(1) block_count_less [OF assms(2)] mod_64_less [of "i div 64"], of "2 ^ (i mod 64)"] assms(2)
  by (simp add: sp_clear_def sp_check_def word_of word_set_single)

section \<open>Ranges\<close>

lemma bit_range_mask:
  assumes "a \<le> b" and "b < 64"
  shows "bit (range_mask a b) i \<longleftrightarrow> a \<le> i \<and> i \<le> b"
proof -
  have "bit (if 64 \<le> b - a + 1 then - 1 else 2 ^ (b - a + 1) - 1 :: u64) n \<longleftrightarrow> n < b - a + 1 \<and> n < 64" for n
    using bit_low_mask [of "b - a + 1" n] assms by (auto simp: bit_minus_1_64 simp del: power_Suc)
  moreover have "range_mask a b = push_bit a (if 64 \<le> b - a + 1 then - 1 else 2 ^ (b - a + 1) - 1)"
    using assms by (simp add: range_mask_def Let_def)
  ultimately have "bit (range_mask a b) i \<longleftrightarrow> a \<le> i \<and> i < 64 \<and> i - a < b - a + 1 \<and> i - a < 64"
    by (simp only: bit_push_bit_iff) auto
  then show ?thesis using assms by auto
qed

lemma word_set_range: "a \<le> b \<Longrightarrow> b < 64 \<Longrightarrow> word_set w (range_mask a b) = {w * 64 + a..w * 64 + b}"
  using image_add_atLeastAtMost [of "w * 64" a b] by (simp add: word_set_image bit_range_mask atLeastAtMost_def atLeast_def atMost_def Collect_conj_eq ac_simps)

lemma word_set_full: "word_set w (- 1) = {w * 64..w * 64 + 63}"
proof -
  have "bit (- 1 :: u64) b \<longleftrightarrow> bit (range_mask 0 63) b" for b by (auto simp: bit_range_mask bit_minus_1_64)
  then have "- 1 = range_mask 0 63" by (intro bit_word_eqI) blast
  then show ?thesis by (simp add: word_set_range)
qed

lemma range_split:
  assumes "0 < N" and "a div N < b div N"
  shows "{b div N * N..b} \<union> (\<Union>j \<in> {a div N + 1..<b div N}. {j * N..j * N + (N - 1)}) \<union> {a..a div N * N + (N - 1)} = {a..b :: nat}" (is "?L = _")
proof
  have bN: "b div N * N \<le> b" by simp
  have aN: "a < a div N * N + N" using div_mult_mod_eq [of a N] mod_less_divisor [OF assms(1), of a] by linarith
  have step: "j * N + N \<le> b div N * N" if "j < b div N" for j using mult_le_mono1 [of "Suc j" "b div N" N] that by simp
  have up: "a div N * N + N \<le> j * N" if "a div N < j" for j using mult_le_mono1 [of "Suc (a div N)" j N] that by simp
  show "?L \<subseteq> {a..b}"
  proof
    fix x assume "x \<in> ?L"
    then show "x \<in> {a..b}"
    proof (elim UnE UN_E)
      assume "x \<in> {b div N * N..b}"
      then show ?thesis using up [OF assms(2)] aN by simp
    next
      fix j assume "j \<in> {a div N + 1..<b div N}" and "x \<in> {j * N..j * N + (N - 1)}"
      then have j: "a div N < j" "j < b div N" "j * N \<le> x" "x \<le> j * N + (N - 1)" by simp_all
      then have "a \<le> x" "x \<le> b div N * N" using up [OF j(1)] step [OF j(2)] aN assms(1) by linarith+
      then show ?thesis using bN by (simp del: div_times_less_eq_dividend)
    next
      assume "x \<in> {a..a div N * N + (N - 1)}"
      then have "a \<le> x" "x \<le> a div N * N + (N - 1)" by simp_all
      then have "a \<le> x" "x \<le> b div N * N" using step [OF assms(2)] assms(1) by linarith+
      then show ?thesis using bN by (simp del: div_times_less_eq_dividend)
    qed
  qed
  show "{a..b} \<subseteq> ?L"
  proof
    fix x assume x: "x \<in> {a..b}"
    have d: "x div N * N \<le> x" "x \<le> x div N * N + (N - 1)"
      using div_mult_mod_eq [of x N] mod_less_divisor [OF assms(1), of x] by linarith+
    have "a div N \<le> x div N" "x div N \<le> b div N" using x by (auto simp: div_le_mono)
    then consider "x div N = b div N" | "x div N = a div N" | "x div N \<in> {a div N + 1..<b div N}" by force
    then show "x \<in> ?L"
    proof cases
      case 1
      then show ?thesis using d(1) x by simp
    next
      case 2
      then show ?thesis using d(2) x by simp
    next
      case 3
      show ?thesis by (rule UnI1, rule UnI2, rule UN_I [OF 3]) (use d in simp)
    qed
  qed
qed

text \<open>A range inside a block of 4096, in words and in documents.\<close>

lemma word_in_block:
  assumes "from \<le> to" and "to < 4096" and "from div 64 < to div 64"
  shows "word_set (k * 64 + to div 64) (range_mask 0 (to mod 64)) \<union>
      (\<Union>j \<in> {from div 64 + 1..<to div 64}. word_set (k * 64 + j) (- 1)) \<union>
      word_set (k * 64 + from div 64) (range_mask (from mod 64) 63) = {k * 4096 + from..k * 4096 + to}"
proof -
  have shift: "{(k * 64 + j) * 64 + a..(k * 64 + j) * 64 + b} = (+) (k * 4096) ` {j * 64 + a..j * 64 + b}" for j a b
    by (simp add: add_mult_distrib ac_simps)
  have "(+) (k * 4096) ` {from..to} = (+) (k * 4096) ` ({to div 64 * 64..to} \<union> (\<Union>j \<in> {from div 64 + 1..<to div 64}. {j * 64..j * 64 + 63}) \<union>
      {from..from div 64 * 64 + 63})"
    using range_split [OF _ assms(3), of] by simp
  moreover have "word_set (k * 64 + j) (- 1) = (+) (k * 4096) ` {j * 64..j * 64 + 63}" for j
    using shift [of j 0 63] by (simp add: word_set_full)
  moreover have "word_set (k * 64 + to div 64) (range_mask 0 (to mod 64)) = (+) (k * 4096) ` {to div 64 * 64..to}"
    using shift [of "to div 64" 0 "to mod 64"] by (simp add: word_set_range)
  moreover have "word_set (k * 64 + from div 64) (range_mask (from mod 64) 63) = (+) (k * 4096) ` {from..from div 64 * 64 + 63}"
    using shift [of "from div 64" "from mod 64" 63] by (simp add: word_set_range less_Suc_eq_le [symmetric])
  moreover have "(+) (k * 4096) ` {from..to} = {k * 4096 + from..k * 4096 + to}" by (simp add: ac_simps)
  ultimately show ?thesis by (simp only: image_Un image_UN)
qed

lemma block_count_of: "k * 4096 + to < n \<Longrightarrow> k < block_count n"
  using block_count_less [of "k * 4096" n] by simp

text \<open>Three steps in a row, each of which adds or removes a part; \<open>g\<close> is union or difference.\<close>

lemma becomes_three:
  assumes "sparse_wf s"
    and "\<And>s'. sparse_wf s' \<Longrightarrow> sp_length s' = sp_length s \<Longrightarrow> becomes s' (f1 s') (g (sparse_set s') A)"
    and "\<And>s'. sparse_wf s' \<Longrightarrow> sp_length s' = sp_length s \<Longrightarrow> becomes s' (f2 s') (g (sparse_set s') B)"
    and "\<And>s'. sparse_wf s' \<Longrightarrow> sp_length s' = sp_length s \<Longrightarrow> becomes s' (f3 s') (g (sparse_set s') C)"
    and "\<And>S A B. g (g S A) B = g S (A \<union> B)"
  shows "becomes s (and_then (f1 s) (\<lambda>s. and_then (f2 s) f3)) (g (sparse_set s) (A \<union> B \<union> C))"
proof (rule becomes_then [OF assms(2) [OF assms(1) refl]])
  fix s1 assume s1: "sparse_wf s1" "sp_length s1 = sp_length s" "sparse_set s1 = g (sparse_set s) A"
  show "becomes s1 (and_then (f2 s1) f3) (g (sparse_set s) (A \<union> B \<union> C))"
  proof (rule becomes_then [OF assms(3) [OF s1(1,2)]])
    fix s2 assume "sparse_wf s2" "sp_length s2 = sp_length s1" "sparse_set s2 = g (sparse_set s1) B"
    then show "becomes s2 (f3 s2) (g (sparse_set s) (A \<union> B \<union> C))" using assms(4) [of s2] s1(2,3) by (simp add: assms(5) Un_assoc)
  qed
qed

lemma becomes_each_part:
  assumes "\<And>x s'. x \<in> set xs \<Longrightarrow> sparse_wf s' \<Longrightarrow> sp_length s' = sp_length s \<Longrightarrow> becomes s' (f x s') (g (sparse_set s') (A x))"
    and "sparse_wf s" and "\<And>S A B. g (g S A) B = g S (A \<union> B)" and "\<And>S. g S {} = S"
  shows "becomes s (each f xs s) (g (sparse_set s) (\<Union>x \<in> set xs. A x))"
proof -
  have "foldl (\<lambda>S x. g S (A x)) S ys = g S (\<Union>x \<in> set ys. A x)" for S ys
    by (induction ys arbitrary: S) (simp_all add: assms(3,4))
  then show ?thesis using becomes_each [of xs s f "\<lambda>S x. g S (A x)"] assms(1,2) by simp
qed

lemma within_block:
  assumes "sparse_wf s" and "from \<le> to" and "to < 4096"
    and step: "\<And>s' j v. sparse_wf s' \<Longrightarrow> sp_length s' = sp_length s \<Longrightarrow> j < 64 \<Longrightarrow>
      word_set (k * 64 + j) v \<subseteq> {k * 4096 + from..k * 4096 + to} \<Longrightarrow> becomes s' (f j v s') (g (sparse_set s') (word_set (k * 64 + j) v))"
    and g: "\<And>S A B. g (g S A) B = g S (A \<union> B)" "\<And>S. g S {} = S" and xs: "set xs = {from div 64 + 1..<to div 64}"
  shows "becomes s
    (if from div 64 = to div 64 then f (from div 64) (range_mask (from mod 64) (to mod 64)) s
     else and_then (f (to div 64) (range_mask 0 (to mod 64)) s) (\<lambda>s.
       and_then (each (\<lambda>i. f i (- 1)) xs s) (f (from div 64) (range_mask (from mod 64) 63))))
    (g (sparse_set s) {k * 4096 + from..k * 4096 + to})"
proof -
  have w: "from div 64 < 64" "to div 64 < 64" using assms(2,3) by (simp_all add: div_less_iff_less_mult)
  show ?thesis
  proof (cases "from div 64 = to div 64")
    case True
    then have "from mod 64 \<le> to mod 64" using assms(2) by (metis add_le_cancel_left div_mult_mod_eq)
    then have r: "word_set (k * 64 + from div 64) (range_mask (from mod 64) (to mod 64)) = {k * 4096 + from..k * 4096 + to}"
      using True div_mult_mod_eq [of "from" 64] div_mult_mod_eq [of to 64]
      by (simp add: word_set_range add_mult_distrib add.assoc del: div_mult_mod_eq)
    then show ?thesis using step [OF assms(1) refl w(1), of "range_mask (from mod 64) (to mod 64)"] True by simp
  next
    case False
    then have lt: "from div 64 < to div 64" using div_le_mono [OF assms(2), of 64] by linarith
    note parts = word_in_block [OF assms(2,3) lt, of k]
    let ?mid = "\<Union>j \<in> set xs. word_set (k * 64 + j) (- 1)"
    have "becomes s (and_then (f (to div 64) (range_mask 0 (to mod 64)) s) (\<lambda>s.
        and_then (each (\<lambda>i. f i (- 1)) xs s) (f (from div 64) (range_mask (from mod 64) 63))))
      (g (sparse_set s) (word_set (k * 64 + to div 64) (range_mask 0 (to mod 64)) \<union> ?mid \<union>
         word_set (k * 64 + from div 64) (range_mask (from mod 64) 63)))"
    proof (rule becomes_three [where g = g, OF assms(1) _ _ _ g(1)])
      fix s' assume s': "sparse_wf s'" "sp_length s' = sp_length s"
      show "becomes s' (f (to div 64) (range_mask 0 (to mod 64)) s') (g (sparse_set s') (word_set (k * 64 + to div 64) (range_mask 0 (to mod 64))))"
        by (rule step [OF s' w(2)]) (unfold parts [symmetric], blast)
      show "becomes s' (each (\<lambda>i. f i (- 1)) xs s') (g (sparse_set s') ?mid)"
      proof (rule becomes_each_part [where g = g, OF _ s'(1) g])
        fix j s'' assume j: "j \<in> set xs" and s'': "sparse_wf s''" "sp_length s'' = sp_length s'"
        have "j < 64" using j w(2) xs by simp
        moreover have "word_set (k * 64 + j) (- 1) \<subseteq> {k * 4096 + from..k * 4096 + to}" using j unfolding xs parts [symmetric] by blast
        ultimately show "becomes s'' (f j (- 1) s'') (g (sparse_set s'') (word_set (k * 64 + j) (- 1)))"
          using step [OF s''(1)] s''(2) s'(2) by simp
      qed
      show "becomes s' (f (from div 64) (range_mask (from mod 64) 63) s') (g (sparse_set s') (word_set (k * 64 + from div 64) (range_mask (from mod 64) 63)))"
        by (rule step [OF s' w(1)]) (unfold parts [symmetric], blast)
    qed
    then show ?thesis using lt parts xs by simp
  qed
qed

lemma set_within_block_set:
  assumes "sparse_wf s" and "from \<le> to" and "to < 4096" and "k * 4096 + to < sp_length s"
  shows "becomes s (set_within_block k from to s) (sparse_set s \<union> {k * 4096 + from..k * 4096 + to})"
  using within_block [OF assms(1-3), of k "\<lambda>j v s. or_long s k j v" "(\<union>)" "[from div 64 + 1..<to div 64]"] or_long_set [of _ k] block_count_of [OF assms(4)] assms(4)
  by (fastforce simp: set_within_block_def Let_def Un_assoc)

lemma clear_within_block_set:
  assumes "sparse_wf s" and "from \<le> to" and "to < 4096" and "k * 4096 + to < sp_length s"
  shows "becomes s (clear_within_block k from to s) (sparse_set s - {k * 4096 + from..k * 4096 + to})"
  using within_block [OF assms(1-3), of k "\<lambda>j v s. sp_and s k j (NOT v)" "(-)" "rev [from div 64 + 1..<to div 64]"] sp_and_set [of _ k] block_count_of [OF assms(4)]
  by (fastforce simp: clear_within_block_def Let_def Diff_eq Int_assoc)

lemma in_block: "i \<in> {k * 4096..k * 4096 + 4095} \<longleftrightarrow> i div 64 div 64 = (k :: nat)"
proof
  assume "i \<in> {k * 4096..k * 4096 + 4095}"
  then show "i div 64 div 64 = k" unfolding div_4096 by (intro div_nat_eqI) simp_all
next
  assume "i div 64 div 64 = k"
  then have e: "k * 4096 + i mod 4096 = i" using div_mult_mod_eq [of i 4096] by (simp only: div_4096)
  have "k * 4096 + r \<in> {k * 4096..k * 4096 + 4095}" if "r < 4096" for r using that by simp
  from this [of "i mod 4096"] have "k * 4096 + i mod 4096 \<in> {k * 4096..k * 4096 + 4095}" by (simp only: mod_less_divisor zero_less_numeral)
  then show "i \<in> {k * 4096..k * 4096 + 4095}" unfolding e .
qed

lemma drop_block_set:
  assumes "sparse_wf s" and "k < block_count (sp_length s)"
  shows "becomes s (drop_block k s) (sparse_set s - {k * 4096..k * 4096 + 4095})"
proof -
  obtain F where F: "holds F s" using assms(1) by (auto simp: sparse_wf_def)
  note D = holdsD [OF F] and B = holdsD(4) [OF F assms(2)]
  let ?G = "\<lambda>w. if w div 64 = k then 0 else F w" and ?in = "{w. F w \<noteq> 0 \<and> w div 64 = k}"
  have "?in = (+) (k * 64) ` {j. j < 64 \<and> F (k * 64 + j) \<noteq> 0}"
  proof (intro set_eqI iffI)
    fix w assume "w \<in> ?in"
    then have "w = k * 64 + w mod 64" "F (k * 64 + w mod 64) \<noteq> 0" by (metis (mono_tags, lifting) div_mult_mod_eq mem_Collect_eq)+
    then show "w \<in> (+) (k * 64) ` {j. j < 64 \<and> F (k * 64 + j) \<noteq> 0}" by (intro image_eqI [of _ _ "w mod 64"]) simp_all
  qed auto
  then have "card ?in = count_ones (indices s ! k)"
    using stored_count [of "indices s ! k" "\<lambda>j. F (k * 64 + j)"] B by (simp add: block_holds_def card_image length_filter_card)
  moreover have "{w. F w \<noteq> 0} - ?in = {w. ?G w \<noteq> 0}" "?in \<subseteq> {w. F w \<noteq> 0}" by auto
  ultimately have c: "card {w. ?G w \<noteq> 0} = non_zero_long_count s - count_ones (indices s ! k)" "count_ones (indices s ! k) \<le> non_zero_long_count s"
    using card_Diff_subset [of ?in "{w. F w \<noteq> 0}"] card_mono [of "{w. F w \<noteq> 0}" ?in] finite_nonzero [OF F] D(5)
      finite_subset [of ?in "{w. F w \<noteq> 0}"] by simp_all
  let ?s = "s\<lparr>indices := (indices s)[k := 0], blocks := (blocks s)[k := None], non_zero_long_count := non_zero_long_count s - count_ones (indices s ! k)\<rparr>"
  have "block_holds (\<lambda>j. ?G (k' * 64 + j)) ((indices s)[k := 0] ! k') ((blocks s)[k := None] ! k')" if k': "k' < block_count (sp_length s)" for k'
  proof (cases "k' = k")
    case True
    then show ?thesis using k' D(2,3) by (auto simp: block_holds_def)
  next
    case False
    then have "block_holds (\<lambda>j. ?G (k' * 64 + j)) x y \<longleftrightarrow> block_holds (\<lambda>j. F (k' * 64 + j)) x y" for x y
      by (intro block_holds_cong) simp
    then show ?thesis using D(4) [OF k'] False by simp
  qed
  then have "holds ?G ?s" using D(1-3,6) c(1) by (auto simp: holds_def split: if_splits)
  moreover have "drop_block k s = Inr ?s" using assms(2) D(2,3) c(2)
    by (simp add: drop_block_def index_get_def checked_minus_def set_index_def set_block_def index_set_def)
  moreover have "set_of_words ?G = set_of_words F - {k * 4096..k * 4096 + 4095}"
    by (intro set_eqI) (simp only: Diff_iff in_block set_of_words_def mem_Collect_eq, simp)
  ultimately show ?thesis by (intro becomesI [of _ ?s ?G]) (simp_all add: sparse_set_holds [OF F])
qed

lemma over_blocks:
  assumes "sparse_wf s" and "start < to" and "to \<le> sp_length s"
    and part: "\<And>s' k a b. sparse_wf s' \<Longrightarrow> sp_length s' = sp_length s \<Longrightarrow> a \<le> b \<Longrightarrow> b < 4096 \<Longrightarrow> k * 4096 + b < sp_length s \<Longrightarrow>
      becomes s' (f k a b s') (g (sparse_set s') {k * 4096 + a..k * 4096 + b})"
    and whole: "\<And>s' k. sparse_wf s' \<Longrightarrow> sp_length s' = sp_length s \<Longrightarrow> k * 4096 + 4095 < sp_length s \<Longrightarrow>
      becomes s' (h k s') (g (sparse_set s') {k * 4096..k * 4096 + 4095})"
    and g: "\<And>S A B. g (g S A) B = g S (A \<union> B)" "\<And>S. g S {} = S"
  shows "becomes s
    (if start div 4096 = (to - 1) div 4096 then f (start div 4096) (start mod 4096) ((to - 1) mod 4096) s
     else and_then (f (start div 4096) (start mod 4096) 4095 s) (\<lambda>s.
       and_then (each h [start div 4096 + 1..<(to - 1) div 4096] s) (f ((to - 1) div 4096) 0 ((to - 1) mod 4096))))
    (g (sparse_set s) {start..<to})"
proof -
  let ?a = "start" and ?b = "to - 1"
  have le: "?a \<le> ?b" and last: "?b < sp_length s" and ran: "{start..<to} = {?a..?b}" using assms(2,3) by auto
  have m: "start mod 4096 < 4096" "?b mod 4096 < 4096" by simp_all
  have b: "?b div 4096 * 4096 + ?b mod 4096 = ?b" "start div 4096 * 4096 + start mod 4096 = start" by (rule div_mult_mod_eq)+
  show ?thesis
  proof (cases "?a div 4096 = ?b div 4096")
    case True
    then have "start mod 4096 \<le> ?b mod 4096" using le by (metis add_le_cancel_left div_mult_mod_eq)
    from part [OF assms(1) refl this m(2), of "?b div 4096"] show ?thesis using True b last ran by simp
  next
    case False
    then have lt: "?a div 4096 < ?b div 4096" using div_le_mono [OF le, of 4096] by linarith
    have full: "k * 4096 + 4095 < sp_length s" if "k < ?b div 4096" for k
      using mult_le_mono1 [of "Suc k" "?b div 4096" 4096] that b(1) last by linarith
    have "becomes s (and_then (f (start div 4096) (start mod 4096) 4095 s) (\<lambda>s.
        and_then (each h [start div 4096 + 1..<?b div 4096] s) (f (?b div 4096) 0 (?b mod 4096))))
      (g (sparse_set s) ({start..start div 4096 * 4096 + 4095} \<union> (\<Union>k \<in> set [start div 4096 + 1..<?b div 4096]. {k * 4096..k * 4096 + 4095}) \<union>
         {?b div 4096 * 4096..?b}))"
    proof (rule becomes_three [where g = g, OF assms(1) _ _ _ g(1)])
      fix s' assume s': "sparse_wf s'" "sp_length s' = sp_length s"
      show "becomes s' (f (start div 4096) (start mod 4096) 4095 s') (g (sparse_set s') {start..start div 4096 * 4096 + 4095})"
        using part [OF s', of "start mod 4096" 4095 "start div 4096"] m(1) full [OF lt] b(2) by (simp add: less_Suc_eq_le [symmetric])
      show "becomes s' (each h [start div 4096 + 1..<?b div 4096] s') (g (sparse_set s') (\<Union>k \<in> set [start div 4096 + 1..<?b div 4096]. {k * 4096..k * 4096 + 4095}))"
        by (rule becomes_each_part [where g = g, OF _ s'(1) g]) (use whole full s' in simp)
      show "becomes s' (f (?b div 4096) 0 (?b mod 4096) s') (g (sparse_set s') {?b div 4096 * 4096..?b})"
        using part [OF s', of 0 "?b mod 4096" "?b div 4096"] m(2) b(1) last by simp
    qed
    moreover have "{start..start div 4096 * 4096 + 4095} \<union> (\<Union>k \<in> set [start div 4096 + 1..<?b div 4096]. {k * 4096..k * 4096 + 4095}) \<union>
        {?b div 4096 * 4096..?b} = {start..?b}"
      using range_split [of 4096, OF _ lt] by (simp add: Un_ac)
    ultimately show ?thesis using lt ran by simp
  qed
qed

lemma set_range_set:
  assumes "sparse_wf s" and "to \<le> sp_length s"
  shows "becomes s (sp_set_range s start to) (sparse_set s \<union> {start..<to})"
proof (cases "start < to")
  case True
  then have c: "\<not> to \<le> start" "start < sp_length s \<and> to \<le> sp_length s" using assms(2) by simp_all
  show ?thesis unfolding sp_set_range_def assert_that_def Let_def if_not_P [OF c(1)] if_P [OF c(2)]
  proof (rule over_blocks [where g = "(\<union>)", OF assms(1) True assms(2)])
    fix s' k a b
    assume s': "sparse_wf s'" "sp_length s' = sp_length s"
    then show "a \<le> b \<Longrightarrow> b < 4096 \<Longrightarrow> k * 4096 + b < sp_length s \<Longrightarrow>
        becomes s' (set_within_block k a b s') (sparse_set s' \<union> {k * 4096 + a..k * 4096 + b})"
      using set_within_block_set by simp
    show "k * 4096 + 4095 < sp_length s \<Longrightarrow> becomes s' (set_within_block k 0 4095 s') (sparse_set s' \<union> {k * 4096..k * 4096 + 4095})"
      using s' set_within_block_set [of s' 0 4095 k] by simp
  qed auto
qed (use assms in \<open>simp add: sp_set_range_def becomes_def\<close>)

lemma clear_range_set:
  assumes "sparse_wf s" and "to \<le> sp_length s"
  shows "becomes s (sp_clear_range s start to) (sparse_set s - {start..<to})"
proof (cases "start < to")
  case True
  then have c: "\<not> to \<le> start" by simp
  show ?thesis unfolding sp_clear_range_def assert_that_def Let_def if_not_P [OF c] if_P [OF assms(2)]
  proof (rule over_blocks [where g = "(-)", OF assms(1) True assms(2)])
    fix s' k a b
    assume s': "sparse_wf s'" "sp_length s' = sp_length s"
    then show "a \<le> b \<Longrightarrow> b < 4096 \<Longrightarrow> k * 4096 + b < sp_length s \<Longrightarrow>
        becomes s' (clear_within_block k a b s') (sparse_set s' - {k * 4096 + a..k * 4096 + b})"
      using clear_within_block_set by simp
    show "k * 4096 + 4095 < sp_length s \<Longrightarrow> becomes s' (drop_block k s') (sparse_set s' - {k * 4096..k * 4096 + 4095})"
      using s' drop_block_set [of s' k] block_count_of [of k 4095] by simp
  qed auto
qed (use assms in \<open>simp add: sp_clear_range_def becomes_def\<close>)

section \<open>Counting\<close>

lemma sum_filter: "(\<And>x. x \<in> set xs \<Longrightarrow> \<not> P x \<Longrightarrow> h x = 0) \<Longrightarrow> sum_list (map h (filter P xs)) = (sum_list (map h xs) :: nat)"
  by (induction xs) simp_all

lemma sum_blocks: "sum_list (map (\<lambda>k. sum_list (map (\<lambda>j. h (k * 64 + j)) [0..<64])) [0..<n]) = (sum_list (map h [0..<n * 64]) :: nat)"
proof (induction n)
  case (Suc n)
  have "[0..<Suc n * 64] = [0..<n * 64] @ map (\<lambda>i. i + n * 64) [0..<64]"
    using upt_add_eq_append [of 0 "n * 64" 64] by (simp add: map_add_upt ac_simps)
  then show ?case using Suc by (simp only: upt_Suc_append map_append sum_list_append map_map o_def add.commute [of _ "n * 64"] le0) simp
qed simp

lemma sparse_cardinality: "holds F s \<Longrightarrow> sp_cardinality s = card (set_of_words F)"
proof -
  assume h: "holds F s"
  let ?n = "block_count (sp_length s)"
  have "(case blocks s ! k of None \<Rightarrow> 0 | Some ws \<Rightarrow> sum_list (map count_ones ws)) = sum_list (map (\<lambda>j. count_ones (F (k * 64 + j))) [0..<64])"
    if k: "k < ?n" for k
  proof -
    note B = holdsD(4) [OF h k]
    have zero: "count_ones (0 :: u64) = 0" by (simp add: count_ones_card)
    show ?thesis
    proof (cases "blocks s ! k")
      case None
      then have "indices s ! k = 0" using B by (simp add: block_holds_def)
      then have "F (k * 64 + j) = 0" if "j < 64" for j using block_bit [OF B that] by simp
      then have "sum_list (map (\<lambda>j. count_ones (F (k * 64 + j))) [0..<64]) = 0"
        unfolding sum_list_eq_0_iff by (auto simp: zero)
      then show ?thesis using None by (simp only: option.case)
    next
      case (Some ws)
      then obtain z where "ws = map (\<lambda>j. F (k * 64 + j)) (filter (\<lambda>j. F (k * 64 + j) \<noteq> 0) [0..<64]) @ replicate z 0"
        using B by (auto simp: block_holds_def)
      then have "sum_list (map count_ones ws) = sum_list (map (\<lambda>j. count_ones (F (k * 64 + j))) (filter (\<lambda>j. F (k * 64 + j) \<noteq> 0) [0..<64]))"
        by (simp add: zero o_def sum_list_replicate)
      also have "\<dots> = sum_list (map (\<lambda>j. count_ones (F (k * 64 + j))) [0..<64])" by (rule sum_filter) (simp add: zero)
      finally show ?thesis using Some by simp
    qed
  qed
  moreover have "blocks s = map (\<lambda>k. blocks s ! k) [0..<?n]" using holdsD(3) [OF h] by (metis map_nth)
  ultimately have "sp_cardinality s = sum_list (map (\<lambda>k. sum_list (map (\<lambda>j. count_ones (F (k * 64 + j))) [0..<64])) [0..<?n])"
  proof -
    assume 1: "\<And>k. k < ?n \<Longrightarrow> (case blocks s ! k of None \<Rightarrow> 0 | Some ws \<Rightarrow> sum_list (map count_ones ws)) = sum_list (map (\<lambda>j. count_ones (F (k * 64 + j))) [0..<64])"
    assume "blocks s = map (\<lambda>k. blocks s ! k) [0..<?n]"
    then have "sp_cardinality s = sum_list (map (\<lambda>b. case b of None \<Rightarrow> 0 | Some ws \<Rightarrow> sum_list (map count_ones ws)) (map (\<lambda>k. blocks s ! k) [0..<?n]))"
      by (simp only: sp_cardinality_def)
    also have "\<dots> = sum_list (map (\<lambda>k. sum_list (map (\<lambda>j. count_ones (F (k * 64 + j))) [0..<64])) [0..<?n])"
      unfolding map_map o_def by (rule arg_cong [of _ _ sum_list], rule map_cong) (simp_all only: 1 set_upt atLeastLessThan_iff)
    finally show ?thesis .
  qed
  also have "\<dots> = sum_list (map count_ones (map F [0..<?n * 64]))" by (simp only: sum_blocks [of "\<lambda>w. count_ones (F w)"] map_map o_def)
  also have "\<dots> = card {i. wbit (map F [0..<?n * 64]) i}" by (simp only: card_wbit)
  also have "{i. wbit (map F [0..<?n * 64]) i} = set_of_words F"
  proof -
    have "i div 64 < ?n * 64" if "bit (F (i div 64)) (i mod 64)" for i
    proof -
      have "F (i div 64) \<noteq> 0" using that by auto
      from holds_nonzero(2) [OF h this] show ?thesis by (simp add: div_less_iff_less_mult)
    qed
    then show ?thesis by (auto simp: wbit_def set_of_words_def)
  qed
  finally show ?thesis .
qed

section \<open>Searching\<close>

lemma doc_at_eq: "j < 64 \<Longrightarrow> t < 64 \<Longrightarrow> doc_at k j t = (k * 64 + j) * 64 + t"
proof -
  assume j: "j < 64" and t: "t < 64"
  have "(k * 4096) OR (j * 64) = push_bit 6 ((k * 64) OR j)"
    unfolding push_bit_or by (simp add: push_bit_eq_mult mult.commute)
  also have "\<dots> = (k * 64 + j) * 64" by (simp add: word_base_or [OF j] push_bit_eq_mult)
  finally have "(k * 4096) OR (j * 64) = (k * 64 + j) * 64" .
  then have "doc_at k j t = ((k * 64 + j) * 64) OR t" by (simp only: doc_at_def or.assoc [symmetric])
  then show ?thesis by (simp only: word_base_or [OF t])
qed

lemma next_in_word:
  assumes "F w \<noteq> 0" and "\<And>v. w0 \<le> v \<Longrightarrow> v < w \<Longrightarrow> F v = 0" and "w0 \<le> w"
  shows "is_next (set_of_words F) (w0 * 64) (Some (w * 64 + trailing_zeros (F w)))"
proof -
  note t = trailing_zeros_less [OF assms(1)] bit_trailing_zeros [OF assms(1)] not_bit_below_trailing_zeros [of _ "F w"]
  have "i \<notin> set_of_words F" if i: "w0 * 64 \<le> i" "i < w * 64 + trailing_zeros (F w)" for i
  proof (cases "i div 64 = w")
    case True
    then have "i mod 64 < trailing_zeros (F w)" using i(2) div_mult_mod_eq [of i 64] by linarith
    then show ?thesis using t(3) True by (simp add: set_of_words_def)
  next
    case False
    have "w0 \<le> i div 64" using div_le_mono [OF i(1), of 64] by simp
    moreover have "i div 64 < w" using False i(2) t(1) div_le_mono [of i "w * 64 + trailing_zeros (F w)" 64] by simp
    ultimately show ?thesis using assms(2) by (simp add: set_of_words_def)
  qed
  then show ?thesis using t(1,2) assms(3) by (auto simp: is_next_def set_of_words_def disjoint_iff trans_le_add1)
qed

lemma is_next_skip: "is_next S i r \<Longrightarrow> i0 \<le> i \<Longrightarrow> S \<inter> {i0..<i} = {} \<Longrightarrow> is_next S i0 r"
  by (rule is_next_cong) (auto simp: disjoint_iff not_less [symmetric])

text \<open>The next stored word of a block, from word \<open>j0\<close> on; \<open>stored j0\<close> words come before it.\<close>

definition stored :: "(nat \<Rightarrow> u64) \<Rightarrow> nat \<Rightarrow> nat \<Rightarrow> nat" where
  "stored F k j = length (filter (\<lambda>i. F (k * 64 + i) \<noteq> 0) [0..<j])"

lemma stored_simps: "stored F k 0 = 0" "stored F k (Suc j) = (if F (k * 64 + j) \<noteq> 0 then stored F k j + 1 else stored F k j)"
  by (simp_all add: stored_def)

lemma stored_rank:
  assumes "holds F s" and "k < block_count (sp_length s)" and "j < 64"
  shows "rank (indices s ! k) (2 ^ j) = stored F k j"
  using block_rank [OF holdsD(4) [OF assms(1,2)] assms(3)] by (simp add: stored_def before_def)

lemma next_stored_word:
  assumes "holds F s" and "k < block_count (sp_length s)" and "drop_bit j0 (indices s ! k) \<noteq> 0"
  defines "j1 \<equiv> j0 + trailing_zeros (drop_bit j0 (indices s ! k))"
  shows "j1 < 64" "F (k * 64 + j1) \<noteq> 0" "\<And>j. j0 \<le> j \<Longrightarrow> j < j1 \<Longrightarrow> F (k * 64 + j) = 0"
    "\<exists>ws. the_block s k = Inr ws \<and> index_get ws (stored F k j0) = Inr (F (k * 64 + j1))"
proof -
  have b: "bit (indices s ! k) j1" using bit_trailing_zeros [OF assms(3)] by (simp add: j1_def bit_drop_bit_eq)
  then show j1: "j1 < 64" using bit_imp_le_length by fastforce
  then show nz: "F (k * 64 + j1) \<noteq> 0" using index_seen(3) [OF assms(1,2)] b by blast
  show zero: "F (k * 64 + j) = 0" if "j0 \<le> j" "j < j1" for j
  proof -
    have "j - j0 < trailing_zeros (drop_bit j0 (indices s ! k))" using that by (simp add: j1_def)
    from not_bit_below_trailing_zeros [OF this] have "\<not> bit (indices s ! k) j" using that(1) by (simp add: bit_drop_bit_eq)
    then show ?thesis using index_seen(3) [OF assms(1,2)] that(2) j1 by fastforce
  qed
  have "stored F k (j0 + d) = stored F k j0" if "j0 + d \<le> j1" for d
    using that
  proof (induction d)
    case (Suc d)
    then show ?case using zero [of "j0 + d"] by (simp add: stored_simps)
  qed simp
  from this [of "j1 - j0"] have "rank (indices s ! k) (2 ^ j1) = stored F k j0" using stored_rank [OF assms(1,2) j1] by (simp add: j1_def)
  then show "\<exists>ws. the_block s k = Inr ws \<and> index_get ws (stored F k j0) = Inr (F (k * 64 + j1))"
    using word_stored [OF assms(1,2) j1 nz] by metis
qed

lemma no_stored_word:
  assumes "holds F s" and "k < block_count (sp_length s)" and "drop_bit j0 (indices s ! k) = 0" and "j0 \<le> j" and "j < 64"
  shows "F (k * 64 + j) = 0"
proof -
  have "\<not> bit (drop_bit j0 (indices s ! k)) (j - j0)" using assms(3) by simp
  then show ?thesis using index_seen(3) [OF assms(1,2,5)] assms(4) by (simp add: bit_drop_bit_eq)
qed

lemma no_words: "(\<And>w. a \<le> w \<Longrightarrow> w < b \<Longrightarrow> F w = 0) \<Longrightarrow> set_of_words F \<inter> {a * 64..<b * 64} = {}"
  by (auto simp: set_of_words_def less_eq_div_iff_mult_less_eq div_less_iff_less_mult)

lemma doc_below: "k < n \<Longrightarrow> j < 64 \<Longrightarrow> t < 64 \<Longrightarrow> (k * 64 + j) * 64 + t < n * (4096 :: nat)"
proof -
  assume a: "k < n" "j < 64" "t < 64"
  then have "Suc k * 4096 \<le> n * 4096" by (intro mult_le_mono1) simp
  then show ?thesis using a(2,3) by simp
qed

lemma first_doc_next:
  assumes "holds F s" and "upper \<le> block_count (sp_length s)"
  shows "\<exists>r. first_doc s k upper = Inr r \<and> is_next (set_of_words F \<inter> {..<upper * 4096}) (k * 4096) r"
proof (induction "upper - k" arbitrary: k)
  case 0
  then have "is_next (set_of_words F \<inter> {..<upper * 4096}) (k * 4096) None" by (auto simp: is_next_def)
  then show ?case using 0 by (simp add: first_doc.simps [of s k])
next
  case (Suc d)
  then have k: "k < upper" "k < block_count (sp_length s)" using assms(2) by simp_all
  note I = index_seen(1) [OF assms(1) k(2), of 0]
  show ?case
  proof (cases "indices s ! k = 0")
    case True
    have "d = upper - (k + 1)" using Suc.hyps(2) by simp
    from Suc.hyps(1) [OF this] obtain r where r: "first_doc s (k + 1) upper = Inr r" "is_next (set_of_words F \<inter> {..<upper * 4096}) ((k + 1) * 4096) r" by blast
    have "set_of_words F \<inter> {(k * 64) * 64..<(k * 64 + 64) * 64} = {}"
    proof (rule no_words)
      fix w assume "k * 64 \<le> w" "w < k * 64 + 64"
      then show "F w = 0" using no_stored_word [OF assms(1) k(2), of 0 "w - k * 64"] True by simp
    qed
    then have "set_of_words F \<inter> {..<upper * 4096} \<inter> {k * 4096..<(k + 1) * 4096} = {}" by (auto simp: algebra_simps)
    from is_next_skip [OF r(2) _ this] show ?thesis using r(1) k(1) I True by (simp add: first_doc.simps [of s k])
  next
    case False
    then have nz: "drop_bit 0 (indices s ! k) \<noteq> 0" by simp
    let ?j = "trailing_zeros (indices s ! k)"
    note N = next_stored_word [OF assms(1) k(2) nz, simplified]
    have doc: "is_next (set_of_words F) (k * 64 * 64) (Some ((k * 64 + ?j) * 64 + trailing_zeros (F (k * 64 + ?j))))"
    proof (rule next_in_word [of F "k * 64 + ?j", OF N(2)])
      fix v assume "k * 64 \<le> v" "v < k * 64 + ?j"
      then show "F v = 0" using N(3) [of "v - k * 64"] by simp
    qed simp
    have t: "trailing_zeros (F (k * 64 + ?j)) < 64" using trailing_zeros_less [OF N(2)] by simp
    have "(k * 64 + ?j) * 64 + trailing_zeros (F (k * 64 + ?j)) < upper * 4096"
      by (rule doc_below [OF k(1) N(1) t])
    then have "is_next (set_of_words F \<inter> {..<upper * 4096}) (k * 4096) (Some (doc_at k ?j (trailing_zeros (F (k * 64 + ?j)))))"
      using doc by (auto simp: is_next_def doc_at_eq [OF N(1) t])
    moreover have "first_doc s k upper = Inr (Some (doc_at k ?j (trailing_zeros (F (k * 64 + ?j)))))"
      using k(1) I False N(4) by (auto simp: first_doc.simps [of s k] stored_simps)
    ultimately show ?thesis by blast
  qed
qed

lemma is_next_cut: "is_next (S \<inter> {..<m}) i r \<Longrightarrow> u \<le> m \<Longrightarrow> is_next (S \<inter> {..<u}) i (Option.bind r (below u))"
  by (cases r) (auto simp: is_next_def below_def disjoint_iff)

lemma same_word:
  assumes "i \<le> n" and "n < (i div 64 + 1) * (64 :: nat)"
  shows "n div 64 = i div 64" "n mod 64 = i mod 64 + (n - i)"
proof -
  show d: "n div 64 = i div 64"
  proof (rule div_nat_eqI)
    show "64 * (i div 64) \<le> n" using div_times_less_eq_dividend [of i 64] assms(1) by (simp only: mult.commute [of 64] le_trans)
    show "n < 64 * Suc (i div 64)" using assms(2) by (simp only: mult.commute [of 64] Suc_eq_plus1)
  qed
  show "n mod 64 = i mod 64 + (n - i)" using div_mult_mod_eq [of n 64] div_mult_mod_eq [of i 64] d assms(1) by linarith
qed

lemma rest_of_word:
  assumes "drop_bit (i mod 64) (F (i div 64)) = 0"
  shows "set_of_words F \<inter> {i..<(i div 64 + 1) * 64} = {}"
proof -
  have "n \<notin> set_of_words F" if "i \<le> n" "n < (i div 64 + 1) * 64" for n
  proof -
    have "\<not> bit (drop_bit (i mod 64) (F (i div 64))) (n - i)" using assms by simp
    then show ?thesis using same_word [OF that] by (simp add: set_of_words_def bit_drop_bit_eq)
  qed
  then show ?thesis by (simp only: disjoint_iff atLeastLessThan_iff) blast
qed

lemma next_in_same_word:
  assumes "drop_bit (i mod 64) (F (i div 64)) \<noteq> 0"
  shows "is_next (set_of_words F) i (Some (i + trailing_zeros (drop_bit (i mod 64) (F (i div 64)))))"
proof -
  let ?t = "trailing_zeros (drop_bit (i mod 64) (F (i div 64)))"
  have b: "bit (F (i div 64)) (i mod 64 + ?t)" using bit_trailing_zeros [OF assms] by (simp add: bit_drop_bit_eq)
  then have "i mod 64 + ?t < 64" using bit_imp_le_length by fastforce
  then have l: "i + n < (i div 64 + 1) * 64" if "n \<le> ?t" for n
    using that div_mult_mod_eq [of i 64] unfolding distrib_right mult_1 by linarith
  have "n \<notin> set_of_words F" if n: "i \<le> n" "n < i + ?t" for n
  proof -
    have "n - i < ?t" using n by linarith
    from not_bit_below_trailing_zeros [OF this] show ?thesis
      using same_word [OF n(1)] l [of "n - i"] n by (simp add: set_of_words_def bit_drop_bit_eq)
  qed
  moreover have "i + ?t \<in> set_of_words F" using same_word [of i "i + ?t"] l [of ?t] b by (simp add: set_of_words_def)
  ultimately show ?thesis by (simp only: is_next_def option.case disjoint_iff atLeastLessThan_iff le_add1) blast
qed

lemma block_count_mono: "m \<le> n \<Longrightarrow> block_count m \<le> block_count n"
  by (simp add: block_count_def div_le_mono)

lemma block_count_covers: "n \<le> block_count n * 4096"
  using block_count_less [of "n - 1" n] by (cases n) (simp_all add: block_count_def less_eq_div_iff_mult_less_eq div_less_iff_less_mult)

text \<open>The end of a search: nothing was found in the word of \<open>start\<close>.\<close>

lemma next_later:
  assumes h: "holds F s" and k: "k < block_count (sp_length s)" and j: "j < 64" and w0: "w0 = k * 64 + j"
    and S: "set_of_words F \<inter> {start..<(w0 + 1) * 64} = {}" and le: "start \<le> (w0 + 1) * 64" and ub: "ub \<le> sp_length s"
  shows "\<exists>r. next_after_word s k (indices s ! k) j (stored F k (Suc j)) ub = Inr r \<and>
    is_next (set_of_words F \<inter> {..<ub}) start r"
proof -
  have bits: "drop_bit 1 (drop_bit j (indices s ! k)) = drop_bit (Suc j) (indices s ! k)" by (simp add: drop_bit_drop_bit)
  show ?thesis
  proof (cases "drop_bit (Suc j) (indices s ! k) = 0")
    case True
    have upper: "(if ub = sp_length s then length (indices s) else block_count ub) = block_count ub" using holdsD(2) [OF h] by simp
    obtain r where r: "first_doc s (k + 1) (block_count ub) = Inr r" "is_next (set_of_words F \<inter> {..<block_count ub * 4096}) ((k + 1) * 4096) r"
      using first_doc_next [OF h block_count_mono [OF ub]] by blast
    have "set_of_words F \<inter> {(w0 + 1) * 64..<((k + 1) * 64) * 64} = {}"
    proof (rule no_words)
      fix w assume "w0 + 1 \<le> w" "w < (k + 1) * 64"
      then show "F w = 0" using no_stored_word [OF h k True, of "w - k * 64"] w0 by simp
    qed
    then have "set_of_words F \<inter> {..<block_count ub * 4096} \<inter> {start..<(k + 1) * 4096} = {}" using S by (fastforce simp: algebra_simps disjoint_iff)
    moreover have "start \<le> (k + 1) * 4096" using le j unfolding w0 by simp
    ultimately have "is_next (set_of_words F \<inter> {..<block_count ub * 4096}) start r" using is_next_skip [OF r(2)] by blast
    from is_next_cut [OF this block_count_covers] show ?thesis using r(1) True unfolding next_after_word_def bits upper Let_def by simp
  next
    case False
    note N = next_stored_word [OF h k False]
    let ?j = "Suc j + trailing_zeros (drop_bit (Suc j) (indices s ! k))"
    obtain ws where ws: "the_block s k = Inr ws" "index_get ws (stored F k (Suc j)) = Inr (F (k * 64 + ?j))" using N(4) by blast
    have t: "trailing_zeros (F (k * 64 + ?j)) < 64" using trailing_zeros_less [OF N(2)] by simp
    have "is_next (set_of_words F) ((w0 + 1) * 64) (Some ((k * 64 + ?j) * 64 + trailing_zeros (F (k * 64 + ?j))))"
    proof (rule next_in_word [of F "k * 64 + ?j", OF N(2)])
      fix v assume "w0 + 1 \<le> v" "v < k * 64 + ?j"
      then show "F v = 0" using N(3) [of "v - k * 64"] w0 by simp
    qed (simp add: w0)
    from is_next_skip [OF this le S]
    have "is_next (set_of_words F) start (Some (doc_at k ?j (trailing_zeros (F (k * 64 + ?j)))))" by (simp only: doc_at_eq [OF N(1) t])
    then have "is_next (set_of_words F \<inter> {..<ub}) start (below ub (doc_at k ?j (trailing_zeros (F (k * 64 + ?j)))))"
      by (auto simp: is_next_def below_def disjoint_iff)
    then show ?thesis using ws False unfolding next_after_word_def bits Let_def by simp
  qed
qed

lemma next_set_bit_range_law:
  assumes h: "holds F s" and ub: "ub \<le> sp_length s"
  shows "\<exists>r. sp_next_set_bit_in_range s start ub = Inr r \<and> is_next (set_of_words F \<inter> {..<ub}) start r"
proof (cases "start < ub")
  case True
  let ?k = "start div 4096" and ?j = "start div 64 mod 64" and ?w = "start div 64"
  have k: "?k < block_count (sp_length s)" using block_count_less [of start] True ub by simp
  note I = index_seen [OF h k mod_64_less [of ?w], unfolded word_of] and R = stored_rank [OF h k mod_64_less [of ?w]]
  have le: "start \<le> (?w + 1) * 64" using div_mult_mod_eq [of start 64] mod_64_less [of start] unfolding distrib_right mult_1 by linarith
  note L = next_later [OF h k mod_64_less [of ?w] word_of [symmetric] _ le ub]
  note def = sp_next_set_bit_in_range_def [of s start ub]
  show ?thesis
  proof (cases "F ?w = 0")
    case zero: True
    then have "drop_bit (start mod 64) (F ?w) = 0" by simp
    from L [OF rest_of_word [of start F, OF this]] show ?thesis using True I(1,2) zero R unfolding def stored_simps word_of Let_def by simp
  next
    case False
    obtain ws where ws: "the_block s ?k = Inr ws" "index_get ws (stored F ?k ?j) = Inr (F ?w)"
      using word_stored [OF h k mod_64_less [of ?w]] False unfolding word_of R by metis
    show ?thesis
    proof (cases "drop_bit (start mod 64) (F ?w) = 0")
      case zero: True
      from L [OF rest_of_word [of start F, OF zero]] show ?thesis using True I(1,2) False R ws zero unfolding def stored_simps word_of Let_def by simp
    next
      case nz: False
      from next_in_same_word [of start F, OF nz] have "is_next (set_of_words F \<inter> {..<ub}) start (below ub (start + trailing_zeros (drop_bit (start mod 64) (F ?w))))"
        by (auto simp: is_next_def below_def disjoint_iff)
      then show ?thesis using True I(1,2) False R ws nz unfolding def Let_def by simp
    qed
  qed
qed (auto simp: sp_next_set_bit_in_range_def is_next_def)

interpretation sparse: bit_set sparse_set sparse_wf sp_length sp_get sp_set sp_clear "\<lambda>s i. projr (sp_next_set_bit s i)" sp_cardinality
proof unfold_locales
  fix s :: sparse_bit_set and i :: nat
  assume wf: "sparse_wf s"
  then obtain F where F: "holds F s" by (auto simp: sparse_wf_def)
  show "sparse_set s \<subseteq> {..<sp_length s}" using wf by (rule sparse_set_below)
  show "sp_get s i = (if i < sp_length s then Inr (i \<in> sparse_set s) else Inl IndexOutOfRange)" using wf by (rule get_law)
  show "sp_cardinality s = card (sparse_set s)" using sparse_cardinality [OF F] sparse_set_holds [OF F] by simp
  have below: "set_of_words F \<inter> {..<sp_length s} = set_of_words F" using set_of_words_below [OF F] by blast
  obtain r where "sp_next_set_bit_in_range s i (sp_length s) = Inr r" "is_next (set_of_words F) i r"
    using next_set_bit_range_law [OF F order_refl, of i] unfolding below by blast
  moreover have "is_next (set_of_words F) i None" if "sp_length s \<le> i"
    using that set_of_words_below [OF F] by (fastforce simp: is_next_def)
  ultimately show "is_next (sparse_set s) i (projr (sp_next_set_bit s i))" by (simp add: sp_next_set_bit_def sparse_set_holds [OF F])
  assume i: "i < sp_length s"
  show "\<exists>b'. sp_set s i = Inr b' \<and> sparse_wf b' \<and> sp_length b' = sp_length s \<and> sparse_set b' = insert i (sparse_set s)"
    using set_law [OF wf i] by (simp add: becomes_def)
  show "\<exists>b'. sp_clear s i = Inr b' \<and> sparse_wf b' \<and> sp_length b' = sp_length s \<and> sparse_set b' = sparse_set s - {i}"
    using clear_law [OF wf i] by (simp add: becomes_def)
qed

lemma sp_word_law: "holds F s \<Longrightarrow> w div 64 < block_count (sp_length s) \<Longrightarrow> sp_word s w = Inr (F w)"
proof -
  assume h: "holds F s" and k: "w div 64 < block_count (sp_length s)"
  note I = index_seen [OF h k mod_64_less [of w], unfolded div_mult_mod_eq]
  show ?thesis
  proof (cases "F w = 0")
    case False
    obtain ws where "the_block s (w div 64) = Inr ws" "index_get ws (rank (indices s ! (w div 64)) (2 ^ (w mod 64))) = Inr (F w)"
      using word_stored [OF h k mod_64_less [of w]] False unfolding div_mult_mod_eq by metis
    then show ?thesis using I(1,2) False by (simp add: sp_word_def Let_def)
  qed (use I(1,2) in \<open>simp add: sp_word_def\<close>)
qed

lemma trailing_zeros_unique: "bit w n \<Longrightarrow> (\<And>j. bit w j \<Longrightarrow> n \<le> j) \<Longrightarrow> trailing_zeros w = n" for w :: "'a::len word"
  using trailing_zeros_le [of w n] bit_trailing_zeros [of w] by fastforce

text \<open>The scan for a clear bit reads the words one after the other.\<close>

lemma clear_scan_word:
  assumes asm: "holds F s" "final div 64 < block_count (sp_length s)" "from < 64"
  shows "clear_scan s w from final ub =
     (if w \<le> final then
        and_then (sp_word s w) (\<lambda>word.
          let clear = NOT word AND push_bit from (- 1) in
          if clear = 0 then clear_scan s (w + 1) 0 final ub else Inr (below ub (w * 64 + trailing_zeros clear)))
      else Inr None)"
proof (cases "w \<le> final")
  case True
  then have k: "w div 64 < block_count (sp_length s)" using asm(2) div_le_mono [OF True, of 64] by linarith
  note I = index_seen [OF asm(1) k mod_64_less [of w], unfolded div_mult_mod_eq]
  show ?thesis
  proof (cases "F w = 0")
    case zero: True
    have "bit (NOT 0 AND push_bit from (- 1) :: u64) n \<longleftrightarrow> from \<le> n \<and> n < 64" for n by (auto simp: bit_simps)
    then have c: "NOT (0 :: u64) AND push_bit from (- 1) \<noteq> 0" "trailing_zeros (NOT (0 :: u64) AND push_bit from (- 1)) = from"
      using asm(3) by (metis bit_0_eq bot_apply bot_bool_def order_refl, intro trailing_zeros_unique) auto
    then show ?thesis using True zero I(1,2) sp_word_law [OF asm(1) k] by (simp add: clear_scan.simps [of s w] Let_def)
  next
    case False
    obtain ws where "the_block s (w div 64) = Inr ws" "index_get ws (rank (indices s ! (w div 64)) (2 ^ (w mod 64))) = Inr (F w)"
      using word_stored [OF asm(1) k mod_64_less [of w]] False unfolding div_mult_mod_eq by metis
    then show ?thesis using True False I(1,2) sp_word_law [OF asm(1) k] by (simp add: clear_scan.simps [of s w] Let_def)
  qed
qed (simp add: clear_scan.simps [of s w])

lemma clear_scan_next:
  assumes h: "holds F s" and ub: "0 < ub" "ub \<le> sp_length s"
  shows "from < 64 \<Longrightarrow> \<exists>r. clear_scan s w from ((ub - 1) div 64) ub = Inr r \<and> is_next ({..<ub} - set_of_words F) (w * 64 + from) r"
proof (induction "Suc ((ub - 1) div 64) - w" arbitrary: w "from")
  case 0
  then have "(ub - 1) div 64 < w" by simp
  then have "ub \<le> w * 64" using ub(1) by (simp add: div_less_iff_less_mult)
  then have "is_next ({..<ub} - set_of_words F) (w * 64 + from) None" by (auto simp: is_next_def)
  then show ?case using 0 by (auto simp: clear_scan.simps [of s w])
next
  case (Suc d)
  have last: "(ub - 1) div 64 div 64 < block_count (sp_length s)" using block_count_less [of "ub - 1"] ub by (simp add: div_4096)
  have w: "w \<le> (ub - 1) div 64" using Suc.hyps(2) by simp
  then have k: "w div 64 < block_count (sp_length s)" using last div_le_mono [OF w, of 64] by linarith
  let ?c = "NOT (F w) AND push_bit from (- 1)"
  have c: "bit ?c b \<longleftrightarrow> from \<le> b \<and> b < 64 \<and> \<not> bit (F w) b" for b by (auto simp: bit_simps)
  have step: "clear_scan s w from ((ub - 1) div 64) ub =
      (if ?c = 0 then clear_scan s (w + 1) 0 ((ub - 1) div 64) ub else Inr (below ub (w * 64 + trailing_zeros ?c)))"
    using w sp_word_law [OF h k] by (simp only: clear_scan_word [OF h last Suc.prems] and_then_simps Let_def if_True)
  have pos: "w * 64 + b \<in> set_of_words F \<longleftrightarrow> bit (F w) b" if "b < 64" for b using that by (simp add: set_of_words_def)
  show ?case
  proof (cases "?c = 0")
    case True
    have "d = Suc ((ub - 1) div 64) - (w + 1)" using Suc.hyps(2) by simp
    from Suc.hyps(1) [OF this, of 0] obtain r where r: "clear_scan s (w + 1) 0 ((ub - 1) div 64) ub = Inr r" "is_next ({..<ub} - set_of_words F) ((w + 1) * 64) r" by auto
    have "n \<in> set_of_words F" if n: "w * 64 + from \<le> n" "n < (w + 1) * 64" for n
    proof -
      have "from \<le> n - w * 64" "n - w * 64 < 64" "w * 64 + (n - w * 64) = n" using n by simp_all
      then show ?thesis using c [of "n - w * 64"] True pos [of "n - w * 64"] by simp
    qed
    then have "({..<ub} - set_of_words F) \<inter> {w * 64 + from..<(w + 1) * 64} = {}" by auto
    from is_next_skip [OF r(2) _ this] show ?thesis using r(1) step True Suc.prems by simp
  next
    case False
    note t = bit_trailing_zeros [OF False, unfolded c] trailing_zeros_le [of ?c]
    have "n \<in> set_of_words F" if n: "w * 64 + from \<le> n" "n < w * 64 + trailing_zeros ?c" for n
    proof -
      have "from \<le> n - w * 64" "n - w * 64 < trailing_zeros ?c" using n by linarith+
      then show ?thesis using pos [of "n - w * 64"] c [of "n - w * 64"] not_bit_below_trailing_zeros [of "n - w * 64" ?c] t(1) n(1) by simp
    qed
    moreover have "w * 64 + trailing_zeros ?c \<notin> set_of_words F" using t(1) by (simp add: pos)
    ultimately have "is_next ({..<ub} - set_of_words F) (w * 64 + from) (below ub (w * 64 + trailing_zeros ?c))"
      using t(1) by (auto simp: is_next_def below_def disjoint_iff)
    then show ?thesis using step False by simp
  qed
qed

lemma next_clear_bit_law:
  assumes "holds F s"
  shows "\<exists>r. sp_next_clear_bit_in_range s start ub = Inr r \<and> is_next ({..<min ub (sp_length s)} - set_of_words F) start r"
proof (cases "start < min ub (sp_length s)")
  case True
  then have "\<not> min ub (sp_length s) \<le> start" by linarith
  then show ?thesis using clear_scan_next [OF assms, of "min ub (sp_length s)" "start mod 64" "start div 64"]
    by (simp add: sp_next_clear_bit_in_range_def Let_def)
next
  case False
  then have le: "min ub (sp_length s) \<le> start" by linarith
  then have "is_next ({..<min ub (sp_length s)} - set_of_words F) start None" by (auto simp: is_next_def)
  then show ?thesis using le by (simp add: sp_next_clear_bit_in_range_def Let_def)
qed

text \<open>The last stored word of a block before word \<open>j0\<close>, and the last document before a block.\<close>

lemma prev_stored_word:
  fixes index_bits :: u64
  assumes h: "holds F s" and k: "k < block_count (sp_length s)" and "j0 \<le> 64"
    and bits: "\<And>j. bit index_bits j \<longleftrightarrow> bit (indices s ! k) j \<and> j < j0" and nz: "index_bits \<noteq> 0"
  defines "j1 \<equiv> 63 - leading_zeros index_bits"
  shows "j1 < j0" "F (k * 64 + j1) \<noteq> 0" "\<And>j. j1 < j \<Longrightarrow> j < j0 \<Longrightarrow> F (k * 64 + j) = 0"
    "\<exists>ws. the_block s k = Inr ws \<and> index_get ws (count_ones index_bits - 1) = Inr (F (k * 64 + j1))"
proof -
  have b: "bit index_bits j1" using bit_leading_zeros [OF nz] by (simp add: j1_def)
  then show lt: "j1 < j0" using bits by blast
  then have j1: "j1 < 64" using assms(3) by linarith
  show nzw: "F (k * 64 + j1) \<noteq> 0" using index_seen(3) [OF h k j1] b bits by blast
  show zero: "F (k * 64 + j) = 0" if "j1 < j" "j < j0" for j
    using le_leading_zeros [of index_bits j] index_seen(3) [OF h k, of j] bits that assms(3) by (fastforce simp: j1_def)
  have "{j. bit index_bits j} = {j. j < j0 \<and> F (k * 64 + j) \<noteq> 0}" using bits index_seen(3) [OF h k] assms(3) by (meson order_less_le_trans)
  then have "count_ones index_bits = stored F k j0" by (simp add: count_ones_card stored_def length_filter_card)
  moreover have "stored F k (Suc j1 + d) = stored F k (Suc j1)" if "Suc j1 + d \<le> j0" for d
    using that
  proof (induction d)
    case (Suc d)
    then show ?case using zero [of "Suc j1 + d"] by (simp add: stored_simps)
  qed simp
  from this [of "j0 - Suc j1"] have "stored F k j0 = stored F k j1 + 1" using lt nzw by (simp add: stored_simps)
  ultimately have "rank (indices s ! k) (2 ^ j1) = count_ones index_bits - 1" using stored_rank [OF h k j1] by simp
  then show "\<exists>ws. the_block s k = Inr ws \<and> index_get ws (count_ones index_bits - 1) = Inr (F (k * 64 + j1))"
    using word_stored [OF h k j1 nzw] by metis
qed

definition is_last_below :: "nat set \<Rightarrow> nat \<Rightarrow> nat option \<Rightarrow> bool" where
  "is_last_below S n r = (case r of None \<Rightarrow> S \<inter> {..<n} = {} | Some x \<Rightarrow> x \<in> S \<and> x < n \<and> S \<inter> {x<..<n} = {})"

lemma is_last_skip: "is_last_below S m r \<Longrightarrow> m \<le> n \<Longrightarrow> S \<inter> {m..<n} = {} \<Longrightarrow> is_last_below S n r"
  by (cases r) (auto simp: is_last_below_def disjoint_iff not_less [symmetric] intro: order_less_le_trans)

lemma is_last_prev: "is_last_below S (Suc i) r \<longleftrightarrow> is_prev S i r"
  by (cases r) (auto simp: is_last_below_def is_prev_def less_Suc_eq_le disjoint_iff)

lemma last_in_word:
  assumes "F w \<noteq> 0" and "\<And>v. w < v \<Longrightarrow> v < w1 \<Longrightarrow> F v = 0" and "w < w1"
  shows "is_last_below (set_of_words F) (w1 * 64) (Some (w * 64 + (63 - leading_zeros (F w))))"
proof -
  let ?t = "63 - leading_zeros (F w)"
  have t: "bit (F w) ?t" "?t < 64" using bit_leading_zeros [OF assms(1)] by simp_all
  have "i \<notin> set_of_words F" if i: "w * 64 + ?t < i" "i < w1 * 64" for i
  proof (cases "i div 64 = w")
    case True
    then have "?t < i mod 64" using i(1) div_mult_mod_eq [of i 64] by linarith
    then have "\<not> bit (F w) (i mod 64)" using le_leading_zeros [of "F w" "i mod 64"] by fastforce
    then show ?thesis using True by (simp add: set_of_words_def)
  next
    case False
    have "w \<le> i div 64" using i(1) by (simp add: less_eq_div_iff_mult_less_eq)
    moreover have "i div 64 < w1" using i(2) by (simp add: div_less_iff_less_mult)
    ultimately show ?thesis using assms(2) [of "i div 64"] False by (simp add: set_of_words_def)
  qed
  moreover have "w * 64 + ?t \<in> set_of_words F" using t by (simp add: set_of_words_def)
  moreover have "w * 64 + ?t < w1 * 64" using mult_le_mono1 [of "Suc w" w1 64] assms(3) t(2) by simp
  ultimately show ?thesis by (simp only: is_last_below_def option.case disjoint_iff greaterThanLessThan_iff) blast
qed

lemma last_doc_law:
  assumes h: "holds F s"
  shows "k \<le> block_count (sp_length s) \<Longrightarrow> \<exists>r. last_doc s k = Inr r \<and> is_last_below (set_of_words F) (k * 4096) r"
proof (induction k)
  case (Suc k)
  then have k: "k < block_count (sp_length s)" by simp
  note I = index_seen(1) [OF h k, of 0]
  show ?case
  proof (cases "indices s ! k = 0")
    case True
    obtain r where r: "last_doc s k = Inr r" "is_last_below (set_of_words F) (k * 4096) r" using Suc by auto
    have "set_of_words F \<inter> {(k * 64) * 64..<(k * 64 + 64) * 64} = {}"
    proof (rule no_words)
      fix w assume "k * 64 \<le> w" "w < k * 64 + 64"
      then show "F w = 0" using no_stored_word [OF h k, of 0 "w - k * 64"] True by simp
    qed
    then have "is_last_below (set_of_words F) (Suc k * 4096) r" by (intro is_last_skip [OF r(2)]) (simp_all add: algebra_simps)
    then show ?thesis using r(1) I True by simp
  next
    case False
    have bits: "bit (indices s ! k) j \<longleftrightarrow> bit (indices s ! k) j \<and> j < 64" for j using bit_imp_le_length by fastforce
    note P = prev_stored_word [OF h k order_refl bits False]
    let ?j = "63 - leading_zeros (indices s ! k)"
    have "is_last_below (set_of_words F) ((Suc k * 64) * 64) (Some ((k * 64 + ?j) * 64 + (63 - leading_zeros (F (k * 64 + ?j)))))"
    proof (rule last_in_word [of F "k * 64 + ?j", OF P(2)])
      fix v assume "k * 64 + ?j < v" "v < Suc k * 64"
      then show "F v = 0" using P(3) [of "v - k * 64"] by simp
    qed (use P(1) in simp)
    then have "is_last_below (set_of_words F) (Suc k * 4096) (Some (doc_at k ?j (63 - leading_zeros (F (k * 64 + ?j)))))"
      by (simp add: doc_at_eq algebra_simps)
    then show ?thesis using I False P(4) by auto
  qed
qed (simp add: is_last_below_def)

lemma prev_before_word_law:
  assumes h: "holds F s" and k: "k < block_count (sp_length s)" and j: "j < 64"
  shows "\<exists>r. prev_before_word s k (indices s ! k AND (2 ^ j - 1)) = Inr r \<and> is_last_below (set_of_words F) ((k * 64 + j) * 64) r"
proof -
  let ?b = "indices s ! k AND (2 ^ j - 1)"
  have bits: "bit ?b n \<longleftrightarrow> bit (indices s ! k) n \<and> n < j" for n using j by (auto simp: bit_and_iff bit_low_mask)
  show ?thesis
  proof (cases "?b = 0")
    case True
    have e: "k * 4096 = k * 64 * 64" by simp
    obtain r where r: "last_doc s k = Inr r" "is_last_below (set_of_words F) (k * 64 * 64) r"
      using last_doc_law [OF h less_imp_le [OF k]] unfolding e by blast
    have "set_of_words F \<inter> {(k * 64) * 64..<(k * 64 + j) * 64} = {}"
    proof (rule no_words)
      fix w assume "k * 64 \<le> w" "w < k * 64 + j"
      then have d: "w - k * 64 < j" "k * 64 + (w - k * 64) = w" by linarith+
      have "\<not> bit ?b (w - k * 64)" using True by simp
      then have "\<not> bit (indices s ! k) (w - k * 64)" using bits d(1) by blast
      then show "F w = 0" using index_seen(3) [OF h k less_trans [OF d(1) j]] unfolding d(2) by blast
    qed
    from is_last_skip [OF r(2) _ this] show ?thesis using r(1) True by (simp add: prev_before_word_def)
  next
    case False
    note P = prev_stored_word [OF h k less_imp_le [OF j] bits False]
    let ?j = "63 - leading_zeros ?b"
    have "is_last_below (set_of_words F) ((k * 64 + j) * 64) (Some ((k * 64 + ?j) * 64 + (63 - leading_zeros (F (k * 64 + ?j)))))"
    proof (rule last_in_word [of F "k * 64 + ?j", OF P(2)])
      fix v assume "k * 64 + ?j < v" "v < k * 64 + j"
      then show "F v = 0" using P(3) [of "v - k * 64"] by simp
    qed (use P(1) in simp)
    then have "is_last_below (set_of_words F) ((k * 64 + j) * 64) (Some (doc_at k ?j (63 - leading_zeros (F (k * 64 + ?j)))))"
      by (simp only: doc_at_eq [of ?j] diff_less_Suc)
    then show ?thesis using P(4) False by (auto simp: prev_before_word_def)
  qed
qed

lemma bit_up_to: "n < 64 \<Longrightarrow> bit (up_to n) b \<longleftrightarrow> b \<le> n"
  using bit_low_mask [of "n + 1" b] by (cases "n = 63") (auto simp: up_to_def bit_minus_1_64 less_Suc_eq_le simp del: power_Suc)

lemma prev_set_bit_law:
  assumes h: "holds F s" and i: "i < sp_length s"
  shows "\<exists>r. sp_prev_set_bit s i = Inr r \<and> is_prev (set_of_words F) i r"
proof -
  let ?k = "i div 4096" and ?j = "i div 64 mod 64" and ?w = "i div 64"
  note k = block_count_less [OF i]
  note I = index_seen [OF h k mod_64_less [of ?w], unfolded word_of] and R = stored_rank [OF h k mod_64_less [of ?w], unfolded rank_def]
  let ?m = "up_to (i mod 64)"
  note m = bit_up_to [OF mod_64_less [of i]]
  have w: "?w * 64 \<le> i" "?w * 64 + i mod 64 = i" by simp_all
  have up: "i < (?w * 64 div 64 + 1) * 64" using w(2) mod_64_less [of i] unfolding distrib_right mult_1 by simp
  have word: "n div 64 = ?w" "n mod 64 \<le> i mod 64" if "?w * 64 \<le> n" "n \<le> i" for n
    using same_word [OF that(1) le_less_trans [OF that(2) up]] same_word(2) [OF w(1) up] that(2) by (simp_all add: diff_le_mono)
  obtain r where r: "prev_before_word s ?k (indices s ! ?k AND (2 ^ ?j - 1)) = Inr r" "is_last_below (set_of_words F) (?w * 64) r"
    using prev_before_word_law [OF h k mod_64_less [of ?w]] unfolding word_of by blast
  have earlier: "is_prev (set_of_words F) i r" if "F ?w AND ?m = 0"
  proof -
    have "\<not> bit (F ?w AND ?m) (n mod 64)" for n using that by simp
    then have "n \<notin> set_of_words F" if "?w * 64 \<le> n" "n < Suc i" for n
      using word [of n] that m by (auto simp: set_of_words_def bit_and_iff)
    then have "set_of_words F \<inter> {?w * 64..<Suc i} = {}" by (simp only: disjoint_iff atLeastLessThan_iff) blast
    from is_last_skip [OF r(2) le_SucI [OF w(1)] this] show ?thesis unfolding is_last_prev .
  qed
  note def = sp_prev_set_bit_def [of s i]
  show ?thesis
  proof (cases "F ?w = 0")
    case True
    then show ?thesis using i I(1,2) r(1) earlier unfolding def sp_check_def Let_def by simp
  next
    case False
    obtain ws where ws: "the_block s ?k = Inr ws" "index_get ws (stored F ?k ?j) = Inr (F ?w)"
      using word_stored [OF h k mod_64_less [of ?w]] False unfolding word_of rank_def R by metis
    show ?thesis
    proof (cases "F ?w AND ?m = 0")
      case True
      then show ?thesis using i I(1,2) False r(1) earlier R ws unfolding def sp_check_def Let_def by simp
    next
      case nz: False
      let ?t = "63 - leading_zeros (F ?w AND ?m)"
      have t: "bit (F ?w) ?t" "?t \<le> i mod 64" "?t < 64" using bit_leading_zeros [OF nz] m by (auto simp: bit_and_iff)
      have "n \<notin> set_of_words F" if n: "?w * 64 + ?t < n" "n \<le> i" for n
      proof -
        note e = word [OF less_imp_le [OF le_less_trans [OF le_add1 n(1)]] n(2)]
        have "?t < n mod 64" using n(1) e(1) div_mult_mod_eq [of n 64] by linarith
        then have "\<not> bit (F ?w AND ?m) (n mod 64)" using le_leading_zeros [of "F ?w AND ?m" "n mod 64"] by fastforce
        then show ?thesis using e m by (simp add: set_of_words_def bit_and_iff)
      qed
      moreover have "?w * 64 + ?t \<in> set_of_words F" using t by (simp add: set_of_words_def)
      moreover have "?w * 64 + ?t \<le> i" using t(2) w(2) by linarith
      ultimately have "is_prev (set_of_words F) i (Some (doc_at ?k ?j ?t))"
        unfolding doc_at_eq [OF mod_64_less [of ?w] t(3)] word_of by (simp only: is_prev_def option.case disjoint_iff greaterThanAtMost_iff) blast
      then show ?thesis using i I(1,2) False R ws nz unfolding def sp_check_def Let_def by simp
    qed
  qed
qed

section \<open>Unions\<close>

lemma or_iter_set:
  assumes "sparse_wf s" and "\<forall>d \<in> set docs. d < sp_length s"
  shows "becomes s (sp_or_iter s docs) (sparse_set s \<union> set docs)"
proof -
  have "becomes s (each (\<lambda>d s. sp_set s d) docs s) (sparse_set s \<union> (\<Union>d \<in> set docs. {d}))"
    by (rule becomes_each_part [where g = "(\<union>)", OF _ assms(1)]) (use set_law assms(2) in auto)
  then show ?thesis by (simp add: sp_or_iter_def)
qed

lemma word_positions_filter: "word_positions w = filter (bit w) [0..<64]"
proof (rule sorted_distinct_set_unique)
  show "sorted (word_positions w)" "distinct (word_positions w)" using sorted_word_positions [of w] strict_sorted_iff by auto
  show "set (word_positions w) = set (filter (bit w) [0..<64])" using bit_imp_le_length [of w] by (auto simp: set_word_positions)
qed (simp_all add: sorted_wrt_filter)

lemma words_union: "set_of_words F = (\<Union>w. word_set w (F w))"
  by (auto simp: set_of_words_def word_set_def)

lemma or_block_set:
  assumes o: "holds G other" and k: "k < block_count (sp_length other)" "k < block_count (sp_length s)" and wf: "sparse_wf s"
    and fits: "set_of_words G \<subseteq> {..<sp_length s}"
  shows "becomes s (or_block other k s) (sparse_set s \<union> (\<Union>j \<in> {..<64}. word_set (k * 64 + j) (G (k * 64 + j))))"
proof -
  note I = index_seen(1) [OF o k(1), of 0] and B = holdsD(4) [OF o k(1)]
  have zero: "word_set (k * 64 + j) (G (k * 64 + j)) = {}" if "\<not> bit (indices other ! k) j" "j < 64" for j
    using index_seen(3) [OF o k(1) that(2)] that(1) by (simp add: word_set_def)
  show ?thesis
  proof (cases "indices other ! k = 0")
    case True
    then have "(\<Union>j \<in> {..<64}. word_set (k * 64 + j) (G (k * 64 + j))) = {}" using zero by auto
    then show ?thesis using wf I True by (simp add: or_block_def becomes_def)
  next
    case False
    then obtain ws z where ws: "the_block other k = Inr ws" "ws = map (\<lambda>j. G (k * 64 + j)) (filter (\<lambda>j. G (k * 64 + j) \<noteq> 0) [0..<64]) @ replicate z 0"
      using B k(1) holdsD(3) [OF o] by (auto simp: block_holds_def the_block_def index_get_def split: option.splits)
    let ?P = "word_positions (indices other ! k)"
    have P: "?P = filter (\<lambda>j. G (k * 64 + j) \<noteq> 0) [0..<64]"
      unfolding word_positions_filter using index_seen(3) [OF o k(1)] by (intro filter_cong) simp_all
    have "becomes s (each (\<lambda>(n, i64) s. and_then (index_get ws n) (\<lambda>w. or_long s k i64 w)) (List.enumerate 0 ?P) s)
        (sparse_set s \<union> (\<Union>(n, j) \<in> set (List.enumerate 0 ?P). word_set (k * 64 + j) (G (k * 64 + j))))"
    proof (rule becomes_each_part [where g = "(\<union>)" and A = "\<lambda>(n, j). word_set (k * 64 + j) (G (k * 64 + j))", OF _ wf], clarify)
      fix n j s' assume nj: "(n, j) \<in> set (List.enumerate 0 ?P)" and s': "sparse_wf s'" "sp_length s' = sp_length s"
      then have n: "n < length ?P" "?P ! n = j" by (auto simp: in_set_enumerate_eq)
      then have "j < 64" using nth_mem [OF n(1)] P by auto
      moreover have "index_get ws n = Inr (G (k * 64 + j))" using n by (simp add: index_get_def ws(2) P nth_append)
      moreover have "word_set (k * 64 + j) (G (k * 64 + j)) \<subseteq> {..<sp_length s}"
        using fits words_union [of G] by blast
      ultimately show "becomes s' (and_then (index_get ws n) (\<lambda>w. or_long s' k j w)) (sparse_set s' \<union> word_set (k * 64 + j) (G (k * 64 + j)))"
        using or_long_set [OF s'(1)] k(2) s'(2) by simp
    qed auto
    moreover have "(\<Union>(n, j) \<in> set (List.enumerate 0 ?P). word_set (k * 64 + j) (G (k * 64 + j))) = (\<Union>j \<in> {..<64}. word_set (k * 64 + j) (G (k * 64 + j)))"
    proof -
      have "snd ` set (List.enumerate 0 ?P) = set ?P" by (metis list.set_map map_snd_enumerate)
      then have "(\<Union>(n, j) \<in> set (List.enumerate 0 ?P). word_set (k * 64 + j) (G (k * 64 + j))) = (\<Union>j \<in> set ?P. word_set (k * 64 + j) (G (k * 64 + j)))"
        by force
      also have "\<dots> = (\<Union>j \<in> {..<64}. word_set (k * 64 + j) (G (k * 64 + j)))" unfolding P by (force simp: word_set_def)
      finally show ?thesis .
    qed
    ultimately show ?thesis using I False ws(1) by (simp add: or_block_def)
  qed
qed

lemma or_set_law:
  assumes "sparse_wf s" and "sparse_wf other" and "sparse_set other \<subseteq> {..<sp_length s}"
  shows "becomes s (sp_or s other) (sparse_set s \<union> sparse_set other)"
proof -
  obtain F where F: "holds F s" using assms(1) by (auto simp: sparse_wf_def)
  obtain G where G: "holds G other" using assms(2) by (auto simp: sparse_wf_def)
  let ?n = "min (block_count (sp_length other)) (block_count (sp_length s))"
  note S = sparse_set_holds [OF G]
  have "becomes s (each (or_block other) [0..<?n] s) (sparse_set s \<union> (\<Union>k \<in> set [0..<?n]. \<Union>j \<in> {..<64}. word_set (k * 64 + j) (G (k * 64 + j))))"
    by (rule becomes_each_part [where g = "(\<union>)", OF _ assms(1)]) (use or_block_set [OF G] assms(3) S in auto)
  moreover have "(\<Union>k \<in> set [0..<?n]. \<Union>j \<in> {..<64}. word_set (k * 64 + j) (G (k * 64 + j))) = set_of_words G"
  proof
    show "set_of_words G \<subseteq> (\<Union>k \<in> set [0..<?n]. \<Union>j \<in> {..<64}. word_set (k * 64 + j) (G (k * 64 + j)))"
    proof
      fix i assume i: "i \<in> set_of_words G"
      then have "i div 4096 < ?n" using block_count_less set_of_words_below [OF G] assms(3) S by auto
      moreover have "i \<in> word_set (i div 4096 * 64 + i div 64 mod 64) (G (i div 4096 * 64 + i div 64 mod 64))"
        using i by (simp only: word_of) (simp add: word_set_def set_of_words_def)
      ultimately show "i \<in> (\<Union>k \<in> set [0..<?n]. \<Union>j \<in> {..<64}. word_set (k * 64 + j) (G (k * 64 + j)))"
        using mod_64_less [of "i div 64"] by (intro UN_I [of "i div 4096"] UN_I [of "i div 64 mod 64"]) auto
    qed
  qed (use words_union [of G] in blast)
  ultimately show ?thesis using holdsD(2) [OF F] holdsD(2) [OF G] S by (simp add: sp_or_def)
qed

section \<open>Properties\<close>

text \<open>
  C22: The sparse set is a bit set. \<open>new\<close> gives the empty set of any positive length. On any well-formed set, however it came about, \<open>get\<close>
  answers membership, \<open>cardinality\<close> counts and \<open>next_set_bit\<close> lists the members in increasing order; \<open>get_and_set\<close> returns the old bit and adds
  the document, \<open>set\<close> adds it, \<open>clear\<close> removes it, range updates add and remove exactly the range, wherever its ends fall in words and
  blocks, \<open>clear_all\<close> empties the set, and the unions with a list of documents and with another set are the unions. No operation panics
  inside its bounds (the ones on a single document fail the index check outside), no unchecked read leaves its array, and every result is
  of the same length and well formed again: its index words name exactly the non-zero words, which are stored in order.
\<close>
theorem sparse_is_bit_set:
  assumes "sparse_wf s"
  shows "(\<forall>n. if n = 0 then sp_new n = Inl AssertionFailed
      else \<exists>s0. sp_new n = Inr s0 \<and> sparse_wf s0 \<and> sp_length s0 = n \<and> sparse_set s0 = {}) \<and>
    sparse_set s \<subseteq> {..<sp_length s} \<and> sp_cardinality s = card (sparse_set s) \<and>
    walk_bits (\<lambda>s i. projr (sp_next_set_bit s i)) s (sp_cardinality s) 0 = sorted_list_of_set (sparse_set s) \<and>
    (\<forall>i. if i < sp_length s then
        sp_get s i = Inr (i \<in> sparse_set s) \<and>
        (\<exists>s'. sp_get_and_set s i = Inr (i \<in> sparse_set s, s') \<and> becomes s (Inr s') (insert i (sparse_set s))) \<and>
        becomes s (sp_set s i) (insert i (sparse_set s)) \<and> becomes s (sp_clear s i) (sparse_set s - {i})
      else sp_get s i = Inl IndexOutOfRange \<and> sp_get_and_set s i = Inl IndexOutOfRange \<and>
        sp_set s i = Inl IndexOutOfRange \<and> sp_clear s i = Inl IndexOutOfRange) \<and>
    (\<forall>a b. b \<le> sp_length s \<longrightarrow>
       becomes s (sp_set_range s a b) (sparse_set s \<union> {a..<b}) \<and> becomes s (sp_clear_range s a b) (sparse_set s - {a..<b})) \<and>
    becomes s (Inr (sp_clear_all s)) {} \<and>
    (\<forall>docs. (\<forall>d \<in> set docs. d < sp_length s) \<longrightarrow> becomes s (sp_or_iter s docs) (sparse_set s \<union> set docs)) \<and>
    (\<forall>other. sparse_wf other \<and> sparse_set other \<subseteq> {..<sp_length s} \<longrightarrow> becomes s (sp_or s other) (sparse_set s \<union> sparse_set other))"
proof (intro conjI allI impI)
  fix n show "if n = 0 then sp_new n = Inl AssertionFailed
      else \<exists>s0. sp_new n = Inr s0 \<and> sparse_wf s0 \<and> sp_length s0 = n \<and> sparse_set s0 = {}"
    using new_set [of n] by (simp add: sp_new_def assert_that_def)
next
  fix i show "if i < sp_length s then
      sp_get s i = Inr (i \<in> sparse_set s) \<and>
      (\<exists>s'. sp_get_and_set s i = Inr (i \<in> sparse_set s, s') \<and> becomes s (Inr s') (insert i (sparse_set s))) \<and>
      becomes s (sp_set s i) (insert i (sparse_set s)) \<and> becomes s (sp_clear s i) (sparse_set s - {i})
    else sp_get s i = Inl IndexOutOfRange \<and> sp_get_and_set s i = Inl IndexOutOfRange \<and>
      sp_set s i = Inl IndexOutOfRange \<and> sp_clear s i = Inl IndexOutOfRange"
    using get_law [OF assms, of i] get_and_set_law [OF assms, of i] set_law [OF assms, of i] clear_law [OF assms, of i]
    by (auto simp: sp_get_and_set_def sp_set_def sp_clear_def sp_check_def)
qed (use assms sparse.abs_bound sparse.count_law sparse.walk_all set_range_set clear_range_set clear_all_set or_iter_set or_set_law in \<open>simp_all\<close>)

theorem sparse_is_bit_set_witness:
  "\<exists>s. and_then (and_then (sp_new 10000) (\<lambda>s. sp_set_range s 4090 4100)) (\<lambda>s. sp_clear s 4095) = Inr s \<and>
    sp_get s 4095 = Inr False \<and> sp_get s 4096 = Inr True \<and> sp_cardinality s = 9 \<and>
    becomes s (sp_clear_range s 4096 9000) {4090..<4095} \<and> becomes s (sp_set s 7) (insert 7 ({4090..<4100} - {4095})) \<and>
    becomes s (Inr (sp_clear_all s)) {}"
proof -
  obtain s0 where s0: "sp_new 10000 = Inr s0" "sparse_wf s0" "sp_length s0 = 10000" "sparse_set s0 = {}" using new_set [of 10000] by auto
  obtain s1 where s1: "sp_set_range s0 4090 4100 = Inr s1" "sparse_wf s1" "sp_length s1 = 10000" "sparse_set s1 = {4090..<4100}"
    using set_range_set [OF s0(2), of 4100 4090] s0(3,4) by (auto simp: becomes_def)
  obtain s where s: "sp_clear s1 4095 = Inr s" "sparse_wf s" "sp_length s = 10000" "sparse_set s = {4090..<4100} - {4095}"
    using clear_law [OF s1(2), of 4095] s1(3,4) by (auto simp: becomes_def)
  note P = sparse_is_bit_set [OF s(2), unfolded s(3,4)]
  have "sp_get s 4095 = Inr False" "sp_get s 4096 = Inr True" "becomes s (sp_set s 7) (insert 7 ({4090..<4100} - {4095}))"
    using P by auto
  moreover have "becomes s (sp_clear_range s 4096 9000) ({4090..<4100} - {4095} - {4096..<9000})" using P by simp
  moreover have "{4090..<4100} - {4095} - {4096..<9000} = {4090..<4095 :: nat}" by auto
  moreover have "sp_cardinality s = 9" "becomes s (Inr (sp_clear_all s)) {}" using P by simp_all
  ultimately show ?thesis using s0(1) s1(1) s(1) by auto
qed

text \<open>
  C23: Navigation on a sparse set. The searches for the next set bit, the next clear bit and the previous set bit, with and
  without an upper bound, return the nearest such position, and none exactly when there is none; they cross words and
  blocks that are not stored without reading them, and never panic on a bound inside the set.
\<close>
theorem sparse_navigation:
  assumes "sparse_wf s" and "ub \<le> sp_length s"
  shows "(\<exists>r. sp_next_set_bit s i = Inr r \<and> is_next (sparse_set s) i r) \<and>
    (\<exists>r. sp_next_set_bit_in_range s i ub = Inr r \<and> is_next (sparse_set s \<inter> {..<ub}) i r) \<and>
    (\<exists>r. sp_next_clear_bit s i = Inr r \<and> is_next ({..<sp_length s} - sparse_set s) i r) \<and>
    (\<exists>r. sp_next_clear_bit_in_range s i ub = Inr r \<and> is_next ({..<ub} - sparse_set s) i r) \<and>
    (if i < sp_length s then \<exists>r. sp_prev_set_bit s i = Inr r \<and> is_prev (sparse_set s) i r else sp_prev_set_bit s i = Inl IndexOutOfRange)"
proof -
  obtain F where F: "holds F s" using assms(1) by (auto simp: sparse_wf_def)
  note S = sparse_set_holds [OF F] and c = next_clear_bit_law [OF F, of i]
  have "\<exists>r. sp_next_set_bit s i = Inr r"
    using next_set_bit_range_law [OF F order_refl, of i] by (auto simp: sp_next_set_bit_def)
  then have "\<exists>r. sp_next_set_bit s i = Inr r \<and> is_next (sparse_set s) i r" using sparse.next_law [OF assms(1), of i] by auto
  moreover have "\<exists>r. sp_next_clear_bit s i = Inr r \<and> is_next ({..<sp_length s} - sparse_set s) i r"
    using c [of "sp_length s"] unfolding S sp_next_clear_bit_def by simp
  moreover have "\<exists>r. sp_next_clear_bit_in_range s i ub = Inr r \<and> is_next ({..<ub} - sparse_set s) i r"
    using c [of ub] assms(2) unfolding S by (simp add: min_absorb1)
  ultimately show ?thesis
    using next_set_bit_range_law [OF F assms(2), of i] prev_set_bit_law [OF F, of i] unfolding S by (simp add: sp_prev_set_bit_def sp_check_def)
qed

theorem sparse_navigation_witness:
  "\<exists>s. and_then (sp_new 5000) (set_all sp_set [4500]) = Inr s \<and> sp_length s = 5000 \<and> (\<exists>r. sp_next_set_bit s 10 = Inr r \<and> is_next {4500} 10 r)"
proof -
  obtain s0 where s0: "sp_new 5000 = Inr s0" "sparse_wf s0" "sp_length s0 = 5000" "sparse_set s0 = {}" using new_set [of 5000] by auto
  obtain s where s: "set_all sp_set [4500] s0 = Inr s" "sparse_wf s" "sp_length s = 5000" "sparse_set s = {4500}"
    using sparse.set_all_law [of s0 "[4500]"] s0 by auto
  from sparse_navigation [OF s(2), of 5000 10] show ?thesis using s s0(1) by auto
qed

end
