(* ===== verification/Doc_Id_Sets.thy ===== *)
theory Doc_Id_Sets
  imports Live_Docs Sparse_Bit_Set
begin

text \<open>
  The rest of \<open>lucene-util/src/bits.rs\<close>: the sparse set and complements as sources of live documents, the trait \<open>BitSet\<close>
  over its two implementations (\<open>AnyBitSet\<close>, built dense or sparse by expected density), and \<open>NotDocIdSetIter\<close>, the
  iterator over the documents another iterator leaves out. Document numbers are \<open>i32\<close>; an iterator over documents is
  the list it still has to return. \<open>approximate_cardinality\<close> is not modelled.
\<close>

section \<open>Sources\<close>

definition sparse_bits :: "sparse_bit_set \<Rightarrow> bits_methods" where
  "sparse_bits s = \<lparr>bits_get = sp_get s, bits_length = sp_length s, bits_apply_mask = default_apply_mask (sp_get s)\<rparr>"

definition not_bits :: "bits_methods \<Rightarrow> bits_methods" where
  "not_bits B =
     (let bget = \<lambda>i. map_sum id Not (bits_get B i)
      in \<lparr>bits_get = bget, bits_length = bits_length B, bits_apply_mask = default_apply_mask bget\<rparr>)"

text \<open>What a source needs when it keeps the default \<open>apply_mask\<close>.\<close>

locale plain_bits =
  fixes methods :: "'b \<Rightarrow> bits_methods" and abs :: "'b \<Rightarrow> nat set" and ok :: "'b \<Rightarrow> bool"
  assumes within: "ok x \<Longrightarrow> abs x \<subseteq> {..<bits_length (methods x)}"
    and get_in: "ok x \<Longrightarrow> i < bits_length (methods x) \<Longrightarrow> bits_get (methods x) i = Inr (i \<in> abs x)"
    and default_mask: "bits_apply_mask (methods x) = default_apply_mask (bits_get (methods x))"

sublocale plain_bits \<subseteq> bits_source methods abs ok
proof
  fix x m offset
  assume x: "ok x" and m: "wf_bits m" "bits_of m \<subseteq> {..<bits_length (methods x) - offset}"
  have "bits_get (methods x) (offset + j) = Inr (offset + j \<in> abs x)" if "j \<in> bits_of m" for j
    using get_in [OF x, of "offset + j"] that m(2) by force
  from default_mask_law [OF m(1) this] show "\<exists>m'. bits_apply_mask (methods x) m offset = Inr m' \<and> wf_bits m' \<and> num_bits m' = num_bits m \<and>
      bits_of m' = {j \<in> bits_of m. offset + j \<in> abs x}" by (simp add: default_mask)
qed (use within in auto)

interpretation sparse_source: plain_bits sparse_bits sparse_set sparse_wf
  by unfold_locales (simp_all add: sparse_bits_def sparse.abs_bound sparse.get_law)

interpretation not_fixed_source: plain_bits "\<lambda>b. not_bits (fixed_bits b)" "\<lambda>b. {..<num_bits b} - bits_of b" wf_bits
  by unfold_locales (auto simp: not_bits_def fixed_bits_def len_def Let_def fbs.get_law)

interpretation not_sparse_source: plain_bits "\<lambda>s. not_bits (sparse_bits s)" "\<lambda>s. {..<sp_length s} - sparse_set s" sparse_wf
  by unfold_locales (auto simp: not_bits_def sparse_bits_def Let_def sparse.get_law)

section \<open>Dense or sparse\<close>

definition NO_MORE_DOCS :: i32 where
  "NO_MORE_DOCS = 0x7FFFFFFF"

text \<open>\<open>d as usize\<close>.\<close>

definition doc_index :: "i32 \<Rightarrow> nat" where
  "doc_index d = unat (scast d :: u64)"

text \<open>The loop of \<open>BitSet::or_iter\<close>, which \<open>AnyBitSet::of\<close> repeats for each representation.\<close>

fun set_docs :: "('b \<Rightarrow> nat \<Rightarrow> 'b panics) \<Rightarrow> i32 list \<Rightarrow> 'b \<Rightarrow> 'b panics" where
  "set_docs st [] b = Inr b"
| "set_docs st (d # docs) b = (if d = NO_MORE_DOCS then Inr b else and_then (st b (doc_index d)) (set_docs st docs))"

datatype any_bit_set = Dense fixed_bit_set | Sparse sparse_bit_set

definition any_of :: "i32 list \<Rightarrow> u64 \<Rightarrow> nat \<Rightarrow> any_bit_set panics" where
  "any_of docs cost max_doc =
     (let threshold = max_doc div 128 in
      if unat cost < threshold
      then and_then (sp_new max_doc) (\<lambda>b. and_then (set_docs sp_set docs b) (\<lambda>b. Inr (Sparse b)))
      else and_then (set_docs set_bit_at docs (new_bit_set max_doc)) (\<lambda>b. Inr (Dense b)))"

text \<open>The methods of \<open>BitSet\<close> behind \<open>as_bit_set\<close>; \<open>next_set_bit\<close> and \<open>clear_all\<close> are the trait's defaults.\<close>

fun any_length :: "any_bit_set \<Rightarrow> nat" where
  "any_length (Dense b) = len b"
| "any_length (Sparse s) = sp_length s"

fun any_get :: "any_bit_set \<Rightarrow> nat \<Rightarrow> bool panics" where
  "any_get (Dense b) i = get b i"
| "any_get (Sparse s) i = sp_get s i"

fun any_put :: "any_bit_set \<Rightarrow> nat \<Rightarrow> any_bit_set panics" where
  "any_put (Dense b) i = and_then (set_bit_at b i) (\<lambda>b. Inr (Dense b))"
| "any_put (Sparse s) i = and_then (sp_set s i) (\<lambda>s. Inr (Sparse s))"

fun any_get_and_set :: "any_bit_set \<Rightarrow> nat \<Rightarrow> (bool \<times> any_bit_set) panics" where
  "any_get_and_set (Dense b) i = and_then (get_and_set b i) (\<lambda>(was, b). Inr (was, Dense b))"
| "any_get_and_set (Sparse s) i = and_then (sp_get_and_set s i) (\<lambda>(was, s). Inr (was, Sparse s))"

fun any_clear :: "any_bit_set \<Rightarrow> nat \<Rightarrow> any_bit_set panics" where
  "any_clear (Dense b) i = and_then (clear b i) (\<lambda>b. Inr (Dense b))"
| "any_clear (Sparse s) i = and_then (sp_clear s i) (\<lambda>s. Inr (Sparse s))"

fun any_clear_range :: "any_bit_set \<Rightarrow> nat \<Rightarrow> nat \<Rightarrow> any_bit_set panics" where
  "any_clear_range (Dense b) start to = and_then (clear_range b start to) (\<lambda>b. Inr (Dense b))"
| "any_clear_range (Sparse s) start to = and_then (sp_clear_range s start to) (\<lambda>s. Inr (Sparse s))"

definition any_clear_all :: "any_bit_set \<Rightarrow> any_bit_set panics" where
  "any_clear_all b = any_clear_range b 0 (any_length b)"

fun any_cardinality :: "any_bit_set \<Rightarrow> nat" where
  "any_cardinality (Dense b) = cardinality b"
| "any_cardinality (Sparse s) = sp_cardinality s"

fun any_next_set_bit_in_range :: "any_bit_set \<Rightarrow> nat \<Rightarrow> nat \<Rightarrow> nat option panics" where
  "any_next_set_bit_in_range (Dense b) start to = Inr (next_set_bit_in_range b start to)"
| "any_next_set_bit_in_range (Sparse s) start to = sp_next_set_bit_in_range s start to"

definition any_next_set_bit :: "any_bit_set \<Rightarrow> nat \<Rightarrow> nat option panics" where
  "any_next_set_bit b i = any_next_set_bit_in_range b i (any_length b)"

fun any_next_clear_bit_in_range :: "any_bit_set \<Rightarrow> nat \<Rightarrow> nat \<Rightarrow> nat option panics" where
  "any_next_clear_bit_in_range (Dense b) start to = Inr (next_clear_bit_in_range b start to)"
| "any_next_clear_bit_in_range (Sparse s) start to = sp_next_clear_bit_in_range s start to"

fun any_prev_set_bit :: "any_bit_set \<Rightarrow> nat \<Rightarrow> nat option panics" where
  "any_prev_set_bit (Dense b) i = prev_set_bit b i"
| "any_prev_set_bit (Sparse s) i = sp_prev_set_bit s i"

fun any_set :: "any_bit_set \<Rightarrow> nat set" where
  "any_set (Dense b) = bits_of b"
| "any_set (Sparse s) = sparse_set s"

fun any_wf :: "any_bit_set \<Rightarrow> bool" where
  "any_wf (Dense b) \<longleftrightarrow> wf_bits b"
| "any_wf (Sparse s) \<longleftrightarrow> sparse_wf s"

lemma any_next_law:
  assumes "any_wf b" and "ub \<le> any_length b"
  shows "\<exists>r. any_next_set_bit_in_range b i ub = Inr r \<and> is_next (any_set b \<inter> {..<ub}) i r"
proof (cases b)
  case (Dense d)
  then show ?thesis using next_set_bit_in_range_next [of d ub i] assms(1) by simp
next
  case (Sparse s)
  then obtain F where F: "holds F s" using assms(1) by (auto simp: sparse_wf_def)
  show ?thesis using next_set_bit_range_law [OF F, of ub i] assms(2) Sparse by (simp add: sparse_set_holds [OF F])
qed

lemma any_put_law:
  assumes "any_wf b" and "i < any_length b"
  shows "\<exists>b'. any_put b i = Inr b' \<and> any_wf b' \<and> any_length b' = any_length b \<and> any_set b' = insert i (any_set b)"
proof (cases b)
  case (Dense d)
  then obtain d' where "set_bit_at d i = Inr d'" "wf_bits d'" "num_bits d' = num_bits d" "bits_of d' = insert i (bits_of d)"
    using fbs.set_law [of d i] assms by (auto simp: len_def)
  then show ?thesis using Dense by (intro exI [of _ "Dense d'"]) (simp add: len_def)
next
  case (Sparse s)
  then obtain s' where "sp_set s i = Inr s'" "sparse_wf s'" "sp_length s' = sp_length s" "sparse_set s' = insert i (sparse_set s)"
    using sparse.set_law [of s i] assms by auto
  then show ?thesis using Sparse by (intro exI [of _ "Sparse s'"]) simp
qed

lemma any_clear_law:
  assumes "any_wf b" and "i < any_length b"
  shows "\<exists>b'. any_clear b i = Inr b' \<and> any_wf b' \<and> any_length b' = any_length b \<and> any_set b' = any_set b - {i}"
proof (cases b)
  case (Dense d)
  then obtain d' where "clear d i = Inr d'" "wf_bits d'" "num_bits d' = num_bits d" "bits_of d' = bits_of d - {i}"
    using fbs.clear_law [of d i] assms by (auto simp: len_def)
  then show ?thesis using Dense by (intro exI [of _ "Dense d'"]) (simp add: len_def)
next
  case (Sparse s)
  then obtain s' where "sp_clear s i = Inr s'" "sparse_wf s'" "sp_length s' = sp_length s" "sparse_set s' = sparse_set s - {i}"
    using sparse.clear_law [of s i] assms by auto
  then show ?thesis using Sparse by (intro exI [of _ "Sparse s'"]) simp
qed

interpretation anyb: bit_set any_set any_wf any_length any_get any_put any_clear "\<lambda>b i. projr (any_next_set_bit b i)" any_cardinality
proof unfold_locales
  fix b :: any_bit_set and i :: nat
  assume wf: "any_wf b"
  show bound: "any_set b \<subseteq> {..<any_length b}" using wf fbs.abs_bound sparse.abs_bound by (cases b) (simp_all add: len_def)
  show "any_get b i = (if i < any_length b then Inr (i \<in> any_set b) else Inl IndexOutOfRange)"
    using wf fbs.get_law sparse.get_law by (cases b) (simp_all add: len_def)
  show "any_cardinality b = card (any_set b)" using wf fbs.count_law sparse.count_law by (cases b) simp_all
  have eq: "any_set b \<inter> {..<any_length b} = any_set b" using bound by blast
  obtain r where "any_next_set_bit b i = Inr r" "is_next (any_set b) i r"
    using any_next_law [OF wf order_refl, of i] unfolding any_next_set_bit_def eq by blast
  then show "is_next (any_set b) i (projr (any_next_set_bit b i))" by simp
  assume i: "i < any_length b"
  show "\<exists>b'. any_put b i = Inr b' \<and> any_wf b' \<and> any_length b' = any_length b \<and> any_set b' = insert i (any_set b)"
    by (rule any_put_law [OF wf i])
  show "\<exists>b'. any_clear b i = Inr b' \<and> any_wf b' \<and> any_length b' = any_length b \<and> any_set b' = any_set b - {i}"
    by (rule any_clear_law [OF wf i])
qed

lemma any_old_bit:
  assumes "any_wf b" and "i < any_length b"
  shows "\<exists>b'. any_get_and_set b i = Inr (i \<in> any_set b, b') \<and> any_wf b' \<and> any_set b' = insert i (any_set b)"
proof (cases b)
  case (Dense d)
  then obtain d' where "get_and_set d i = Inr (i \<in> bits_of d, d')" "wf_bits d'" "bits_of d' = insert i (bits_of d)"
    using get_and_set_eq [of d i] fbs.set_law [of d i] assms by (auto simp: len_def)
  then show ?thesis using Dense by (intro exI [of _ "Dense d'"]) simp
next
  case (Sparse s)
  then obtain s' where "sp_get_and_set s i = Inr (i \<in> sparse_set s, s')" "sparse_wf s'" "sparse_set s' = insert i (sparse_set s)"
    using get_and_set_law [of s i] assms by (auto simp: becomes_def)
  then show ?thesis using Sparse by (intro exI [of _ "Sparse s'"]) simp
qed

lemma any_prev_law: "any_wf b \<Longrightarrow> i < any_length b \<Longrightarrow> \<exists>r. any_prev_set_bit b i = Inr r \<and> is_prev (any_set b) i r"
  using prev_set_bit_prev [of _ i] prev_set_bit_law [of _ _ i] by (cases b) (auto simp: len_def sparse_wf_def sparse_set_holds)

lemma any_clear_all_law:
  assumes "any_wf b"
  shows "\<exists>b'. any_clear_all b = Inr b' \<and> any_wf b' \<and> any_set b' = {}"
proof (cases b)
  case (Dense d)
  then have wf: "wf_bits d" using assms by simp
  obtain d' where "clear_range d 0 (num_bits d) = Inr d'" "wf_bits d'" "bits_of d' = bits_of d - {0..<num_bits d}"
    by (rule clear_range_refines [OF wf order_refl, of 0]) blast
  then show ?thesis using Dense fbs.abs_bound [OF wf] by (intro exI [of _ "Dense d'"]) (auto simp: any_clear_all_def len_def)
next
  case (Sparse s)
  then have wf: "sparse_wf s" using assms by simp
  obtain s' where "sp_clear_range s 0 (sp_length s) = Inr s'" "sparse_wf s'" "sparse_set s' = sparse_set s - {0..<sp_length s}"
    using clear_range_set [OF wf order_refl, of 0] by (auto simp: becomes_def)
  then show ?thesis using Sparse sparse.abs_bound [OF wf] by (intro exI [of _ "Sparse s'"]) (auto simp: any_clear_all_def)
qed

lemma set_docs_all: "set_docs st docs b = set_all st (map doc_index (takeWhile (\<lambda>d. d \<noteq> NO_MORE_DOCS) docs)) b"
  by (induction docs arbitrary: b) (auto simp: and_then_def split: sum.splits)

lemma doc_index_nonneg: "0 \<le> sint d \<Longrightarrow> doc_index d = nat (sint d)"
proof -
  assume d: "0 \<le> sint d"
  have "sint d < 2 ^ 31" using sint_lt [of d] by simp
  then have "take_bit LENGTH(64) (sint d) = sint d" using d by (simp add: take_bit_int_eq_self)
  then have "uint (scast d :: u64) = sint d" unfolding scast_eq by (simp only: uint_word_of_int_eq)
  then show ?thesis by (simp add: doc_index_def unat_eq_nat_uint)
qed

section \<open>Leaving documents out\<close>

record not_iter =
  ni_inner :: "i32 list"
  ni_max_doc :: i32
  ni_doc :: i32
  next_skipped_doc :: i32

definition not_new :: "i32 \<Rightarrow> i32 list \<Rightarrow> not_iter" where
  "not_new max_doc docs = \<lparr>ni_inner = docs, ni_max_doc = max_doc, ni_doc = - 1, next_skipped_doc = - 1\<rparr>"

text \<open>The loop over the inner iterator: the document found, and what the iterator still has.\<close>

fun inner_advance :: "i32 \<Rightarrow> i32 list \<Rightarrow> i32 \<times> i32 list" where
  "inner_advance target [] = (NO_MORE_DOCS, [])"
| "inner_advance target (d # docs) = (if sint target \<le> sint d then (d, docs) else inner_advance target docs)"

fun inner_next :: "i32 list \<Rightarrow> i32 \<times> i32 list" where
  "inner_next [] = (NO_MORE_DOCS, [])"
| "inner_next (d # docs) = (d, docs)"

lemma sint_plus_1: "sint a < sint b \<Longrightarrow> sint (a + 1) = sint a + 1" for a b :: i32
proof -
  assume l: "sint a < sint b"
  have "- (2 ^ 31) \<le> sint a" "sint b < 2 ^ 31" using sint_ge [of a] sint_lt [of b] by simp_all
  then show ?thesis using l sint_word_ariths(1) [of a 1] by (simp add: signed_take_bit_int_eq_self)
qed

function skip_loop :: "not_iter \<Rightarrow> not_iter" where
  "skip_loop st =
     (if sint (ni_max_doc st) \<le> sint (ni_doc st) then st\<lparr>ni_doc := NO_MORE_DOCS\<rparr>
      else if ni_doc st \<noteq> next_skipped_doc st then st
      else let (d, docs) = inner_next (ni_inner st) in skip_loop (st\<lparr>ni_doc := ni_doc st + 1, next_skipped_doc := d, ni_inner := docs\<rparr>))"
  by pat_completeness auto
termination
proof (relation "measure (\<lambda>st. nat (sint (ni_max_doc st) - sint (ni_doc st)))", simp)
  fix st :: not_iter and x :: "i32 \<times> i32 list" and d docs
  assume "\<not> sint (ni_max_doc st) \<le> sint (ni_doc st)"
  then show "(st\<lparr>ni_doc := ni_doc st + 1, next_skipped_doc := d, ni_inner := docs\<rparr>, st) \<in> measure (\<lambda>st. nat (sint (ni_max_doc st) - sint (ni_doc st)))"
    using sint_plus_1 [of "ni_doc st" "ni_max_doc st"] by simp
qed

declare skip_loop.simps [simp del]

definition not_advance :: "i32 \<Rightarrow> not_iter \<Rightarrow> not_iter" where
  "not_advance target st =
     (let st = st\<lparr>ni_doc := target\<rparr>;
          st = if sint (next_skipped_doc st) < sint (ni_doc st)
               then let (d, docs) = inner_advance (ni_doc st) (ni_inner st) in st\<lparr>next_skipped_doc := d, ni_inner := docs\<rparr>
               else st
      in skip_loop st)"

definition not_next_doc :: "not_iter \<Rightarrow> not_iter" where
  "not_next_doc st = not_advance (if ni_doc st = NO_MORE_DOCS then ni_doc st else ni_doc st + 1) st"

definition doc_id_run_end :: "not_iter \<Rightarrow> i32" where
  "doc_id_run_end st = (if sint (next_skipped_doc st) \<le> sint (ni_max_doc st) then next_skipped_doc st else ni_max_doc st)"

definition not_next :: "not_iter \<Rightarrow> i32 option \<times> not_iter" where
  "not_next st =
     (if ni_doc st = NO_MORE_DOCS then (None, st)
      else let st = not_next_doc st in (if ni_doc st = NO_MORE_DOCS then None else Some (ni_doc st), st))"

fun drain :: "nat \<Rightarrow> not_iter \<Rightarrow> i32 list" where
  "drain 0 st = []"
| "drain (Suc fuel) st = (case not_next st of (None, _) \<Rightarrow> [] | (Some d, st) \<Rightarrow> d # drain fuel st)"

text \<open>From \<open>lo\<close> on, the documents of \<open>X\<close> are the next one to skip and what the inner iterator still has, in increasing order.\<close>

definition skips :: "int set \<Rightarrow> not_iter \<Rightarrow> int \<Rightarrow> bool" where
  "skips X st lo \<longleftrightarrow>
     (\<forall>d. lo \<le> d \<and> d < sint NO_MORE_DOCS \<longrightarrow> (d \<in> X \<longleftrightarrow> d = sint (next_skipped_doc st) \<or> d \<in> sint ` set (ni_inner st))) \<and>
     sorted_wrt (\<lambda>a b. sint a < sint b) (next_skipped_doc st # ni_inner st)"

text \<open>What \<open>advance\<close> owes its caller: the first document at or after \<open>lo\<close> that is not in \<open>X\<close>.\<close>

definition lands :: "int set \<Rightarrow> int \<Rightarrow> not_iter \<Rightarrow> bool" where
  "lands X lo st \<longleftrightarrow>
     (if ni_doc st = NO_MORE_DOCS then {lo..<sint (ni_max_doc st)} \<subseteq> X
      else lo \<le> sint (ni_doc st) \<and> sint (ni_doc st) < sint (ni_max_doc st) \<and> sint (ni_doc st) \<notin> X \<and>
        {lo..<sint (ni_doc st)} \<subseteq> X \<and> {sint (ni_doc st)..<sint (doc_id_run_end st)} \<inter> X = {})"

lemma below_no_more: "sint d \<le> sint NO_MORE_DOCS" for d :: i32
  using sint_lt [of d] by (simp add: NO_MORE_DOCS_def)

lemma no_more_max: "sint a < sint b \<Longrightarrow> a \<noteq> NO_MORE_DOCS" for a b :: i32
  using below_no_more [of b] by auto

lemma inner_advance_skips:
  assumes "sorted_wrt (\<lambda>a b. sint a < sint b) docs" and "inner_advance target docs = (d, rest)"
  shows "sint target \<le> sint d" "sorted_wrt (\<lambda>a b. sint a < sint b) (d # rest)"
    "\<And>x. sint target \<le> x \<Longrightarrow> x < sint NO_MORE_DOCS \<Longrightarrow> x \<in> sint ` set docs \<longleftrightarrow> x = sint d \<or> x \<in> sint ` set rest"
  using assms
proof (induction docs)
  case (Cons e docs)
  {
    case 1
    then show ?case using Cons.IH(1) by (auto split: if_splits)
  next
    case 2
    then show ?case using Cons.IH(2) by (auto split: if_splits)
  next
    case (3 x)
    then show ?case using Cons.IH(3) [of x] by (auto split: if_splits)
  }
qed (simp_all add: below_no_more)

lemma skip_loop_lands:
  assumes "skips X st (sint (ni_doc st))" and "sint (ni_doc st) \<le> sint (next_skipped_doc st)"
  shows "lands X (sint (ni_doc st)) (skip_loop st) \<and> ni_max_doc (skip_loop st) = ni_max_doc st \<and>
    skips X (skip_loop st) (sint (ni_doc (skip_loop st)) + 1)"
  using assms
proof (induction "nat (sint (ni_max_doc st) - sint (ni_doc st))" arbitrary: st rule: less_induct)
  case less
  let ?d = "sint (ni_doc st)" and ?s = "sint (next_skipped_doc st)"
  have nmd: "skips X (st\<lparr>ni_doc := NO_MORE_DOCS\<rparr>) (sint NO_MORE_DOCS + 1)" using less.prems(1) by (simp add: skips_def)
  consider "sint (ni_max_doc st) \<le> ?d" | "?d < sint (ni_max_doc st)" "ni_doc st \<noteq> next_skipped_doc st"
    | "?d < sint (ni_max_doc st)" "ni_doc st = next_skipped_doc st" by linarith
  then show ?case
  proof cases
    case 1
    then show ?thesis using nmd by (simp add: skip_loop.simps [of st] lands_def)
  next
    case 2
    then have lt: "?d < ?s" using less.prems(2) by (metis order_le_imp_less_or_eq signed_word_eqI)
    have gap: "x \<notin> X" if "?d \<le> x" "x < ?s" for x
      using less.prems(1) that below_no_more [of "next_skipped_doc st"] unfolding skips_def by fastforce
    have "{?d..<sint (doc_id_run_end st)} \<inter> X = {}" using gap by (auto simp: doc_id_run_end_def split: if_splits)
    moreover have "skips X st (?d + 1)" using less.prems(1) by (auto simp: skips_def)
    ultimately show ?thesis using 2 gap [of ?d] lt no_more_max [of "ni_doc st"] by (simp add: skip_loop.simps [of st] lands_def)
  next
    case 3
    obtain e docs where e: "inner_next (ni_inner st) = (e, docs)" by (metis surj_pair)
    define st' where "st' = st\<lparr>ni_doc := ni_doc st + 1, next_skipped_doc := e, ni_inner := docs\<rparr>"
    have d': "sint (ni_doc st') = ?d + 1" using sint_plus_1 [of "ni_doc st" "ni_max_doc st"] 3(1) by (simp add: st'_def)
    have step: "skip_loop st = skip_loop st'" using 3 e by (simp add: skip_loop.simps [of st] st'_def)
    have next_e: "?d < sint e" "sorted_wrt (\<lambda>a b. sint a < sint b) (e # docs)"
        "\<And>x. x < sint NO_MORE_DOCS \<Longrightarrow> x \<in> sint ` set (ni_inner st) \<longleftrightarrow> x = sint e \<or> x \<in> sint ` set docs"
      using less.prems(1) e 3 less_le_trans [OF 3(1) below_no_more] by (cases "ni_inner st"; auto simp: skips_def)+
    have "skips X st' (sint (ni_doc st'))" using less.prems(1) next_e 3(2) unfolding d' by (auto simp: skips_def st'_def)
    moreover have "sint (ni_doc st') \<le> sint (next_skipped_doc st')" using next_e(1) unfolding d' by (simp add: st'_def)
    moreover have "nat (sint (ni_max_doc st') - sint (ni_doc st')) < nat (sint (ni_max_doc st) - ?d)" using 3(1) unfolding d' by (simp add: st'_def)
    ultimately have IH: "lands X (?d + 1) (skip_loop st')" "ni_max_doc (skip_loop st') = ni_max_doc st" "skips X (skip_loop st') (sint (ni_doc (skip_loop st')) + 1)"
      using less.hyps [of st'] unfolding d' by (simp_all add: st'_def)
    have here: "?d \<in> X" using less.prems(1) 3(2) less_le_trans [OF 3(1) below_no_more] by (simp add: skips_def)
    have ins: "{?d..<b} \<subseteq> X" if "{?d + 1..<b} \<subseteq> X" for b
    proof
      fix x assume "x \<in> {?d..<b}"
      then have "x = ?d \<or> x \<in> {?d + 1..<b}" by auto
      then show "x \<in> X" using that here by blast
    qed
    have "lands X ?d (skip_loop st')" using IH(1) ins by (auto simp: lands_def)
    then show ?thesis using IH(2,3) unfolding step by blast
  qed
qed

lemma advance_lands:
  assumes "skips X st (sint (ni_doc st) + 1)" and "sint (ni_doc st) < sint target"
  shows "lands X (sint target) (not_advance target st)" "ni_max_doc (not_advance target st) = ni_max_doc st"
    "skips X (not_advance target st) (sint (ni_doc (not_advance target st)) + 1)"
proof -
  define st1 where "st1 = (if sint (next_skipped_doc st) < sint target
    then let (d, docs) = inner_advance target (ni_inner st) in st\<lparr>ni_doc := target, next_skipped_doc := d, ni_inner := docs\<rparr>
    else st\<lparr>ni_doc := target\<rparr>)"
  have eq: "not_advance target st = skip_loop st1" by (simp add: not_advance_def st1_def Let_def case_prod_beta)
  have "skips X st1 (sint target) \<and> sint target \<le> sint (next_skipped_doc st1) \<and> ni_doc st1 = target \<and> ni_max_doc st1 = ni_max_doc st"
  proof (cases "sint (next_skipped_doc st) < sint target")
    case True
    obtain d docs where d: "inner_advance target (ni_inner st) = (d, docs)" by (metis surj_pair)
    have "sorted_wrt (\<lambda>a b. sint a < sint b) (ni_inner st)" using assms(1) by (simp add: skips_def)
    note A = inner_advance_skips [OF this d]
    have "st1 = st\<lparr>ni_doc := target, next_skipped_doc := d, ni_inner := docs\<rparr>" using True d by (simp add: st1_def)
    moreover have "skips X (st\<lparr>ni_doc := target, next_skipped_doc := d, ni_inner := docs\<rparr>) (sint target)"
      using assms A True by (auto simp: skips_def)
    ultimately show ?thesis using A(1) by simp
  next
    case False
    then show ?thesis using assms by (auto simp: st1_def skips_def)
  qed
  then show "lands X (sint target) (not_advance target st)" "ni_max_doc (not_advance target st) = ni_max_doc st"
    "skips X (not_advance target st) (sint (ni_doc (not_advance target st)) + 1)"
    unfolding eq using skip_loop_lands [of X st1] by auto
qed

text \<open>The iterators a caller can reach: \<open>advance\<close> is called with targets past the current document.\<close>

inductive positioned :: "i32 \<Rightarrow> i32 list \<Rightarrow> not_iter \<Rightarrow> bool" for max_doc docs where
  start: "positioned max_doc docs (not_new max_doc docs)"
| step: "positioned max_doc docs st \<Longrightarrow> sint (ni_doc st) < sint target \<Longrightarrow> positioned max_doc docs (not_advance target st)"

lemma sint_minus_1: "sint (- 1 :: i32) = - 1"
  by simp

lemma positioned_inv:
  assumes "positioned max_doc docs st" and "sorted_wrt (\<lambda>a b. sint a < sint b) docs" and "\<forall>d \<in> set docs. 0 \<le> sint d"
  shows "skips (sint ` set docs) st (sint (ni_doc st) + 1) \<and> ni_max_doc st = max_doc"
  using assms(1)
proof induction
  case start
  show ?case using assms(2,3) by (auto simp: skips_def not_new_def)
next
  case (step st target)
  then show ?case using advance_lands [of "sint ` set docs" st target] by simp
qed

lemma drain_from:
  assumes "skips X st (sint (ni_doc st) + 1)" and "- 1 \<le> sint (ni_doc st)" and "ni_doc st \<noteq> NO_MORE_DOCS"
    and "card ({sint (ni_doc st) + 1..<sint (ni_max_doc st)} - X) \<le> fuel"
  shows "map sint (drain fuel st) = sorted_list_of_set ({sint (ni_doc st) + 1..<sint (ni_max_doc st)} - X)"
  using assms
proof (induction fuel arbitrary: st)
  case 0
  have "finite ({sint (ni_doc st) + 1..<sint (ni_max_doc st)} - X)" by simp
  then have none: "{sint (ni_doc st) + 1..<sint (ni_max_doc st)} - X = {}" using "0.prems"(4) by (metis card_0_eq le_zero_eq)
  show ?case unfolding none by simp
next
  case (Suc fuel)
  let ?d = "sint (ni_doc st)" and ?M = "sint (ni_max_doc st)"
  have "sint (ni_doc st) \<noteq> sint NO_MORE_DOCS" using Suc.prems(3) by (metis signed_word_eqI)
  then have t: "sint (ni_doc st + 1) = ?d + 1" using sint_plus_1 [of "ni_doc st" NO_MORE_DOCS] below_no_more [of "ni_doc st"] by linarith
  define st' where "st' = not_advance (ni_doc st + 1) st"
  have "?d < sint (ni_doc st + 1)" using t by simp
  note A = advance_lands [OF Suc.prems(1) this, folded st'_def, unfolded t]
  have nx: "not_next st = (if ni_doc st' = NO_MORE_DOCS then None else Some (ni_doc st'), st')"
    using Suc.prems(3) by (simp add: not_next_def not_next_doc_def st'_def Let_def)
  show ?case
  proof (cases "ni_doc st' = NO_MORE_DOCS")
    case True
    then have none: "{?d + 1..<?M} - X = {}" using A(1,2) by (auto simp: lands_def)
    show ?thesis unfolding none using nx True by simp
  next
    case False
    let ?e = "sint (ni_doc st')"
    have e: "?d + 1 \<le> ?e" "?e < ?M" "?e \<notin> X" "{?d + 1..<?e} \<subseteq> X" using A(1,2) False by (simp_all add: lands_def)
    have S: "{?d + 1..<?M} - X = insert ?e ({?e + 1..<?M} - X)"
    proof (intro set_eqI iffI)
      fix x assume x: "x \<in> {?d + 1..<?M} - X"
      then have "?e \<le> x" using e(4) by (metis DiffD1 DiffD2 atLeastLessThan_iff not_le subsetD)
      then show "x \<in> insert ?e ({?e + 1..<?M} - X)" using x by auto
    qed (use e in auto)
    have "card ({?d + 1..<?M} - X) = Suc (card ({?e + 1..<?M} - X))" unfolding S by (subst card_insert_disjoint) auto
    then have "map sint (drain fuel st') = sorted_list_of_set ({?e + 1..<?M} - X)"
      using Suc.IH [of st'] A(2,3) e(1) Suc.prems(2,4) False by simp
    moreover have "sorted_list_of_set ({?d + 1..<?M} - X) = ?e # sorted_list_of_set ({?e + 1..<?M} - X)"
      unfolding S by (subst sorted_list_of_set_insert_remove) (auto simp: insort_is_Cons)
    ultimately show ?thesis using nx False by simp
  qed
qed

section \<open>Properties\<close>

text \<open>
  C20: The writer of live documents writes the same file for every source of the same documents: the dense set, whose
  \<open>apply_mask\<close> works on whole words, the sparse set, the complements of both and the two constant sources, which
  mask bit by bit. Each gives the bytes, or the error, that writing the dense set's words directly gives.
\<close>
theorem write_bits_is_write:
  assumes "wf_bits b" and "sparse_wf s" and "bits_of b = sparse_set s" and "num_bits b = sp_length s"
    and "wf_bits c" and "num_bits c = num_bits b" and "bits_of c = {..<num_bits b} - bits_of b"
    and "wf_bits everything" and "bits_of everything = {..<num_bits everything}" and "wf_bits nothing" and "bits_of nothing = {}"
  shows "write_bits K threads (fixed_bits b) segid g e = live_write K threads b segid g e \<and>
    write_bits K threads (sparse_bits s) segid g e = live_write K threads b segid g e \<and>
    write_bits K threads (not_bits (fixed_bits b)) segid g e = live_write K threads c segid g e \<and>
    write_bits K threads (not_bits (sparse_bits s)) segid g e = live_write K threads c segid g e \<and>
    write_bits K threads (match_all_bits (num_bits everything)) segid g e = live_write K threads everything segid g e \<and>
    write_bits K threads (match_no_bits (num_bits nothing)) segid g e = live_write K threads nothing segid g e"
proof -
  have small: "num_bits x \<le> usize_max" if "wf_bits x" for x
    using that bits2words_bounds [of "num_bits x"] by (simp add: wf_bits_def)
  note lengths = fixed_bits_def sparse_bits_def not_bits_def match_all_bits_def match_no_bits_def len_def Let_def
  have "write_bits K threads (fixed_bits b) segid g e = live_write K threads b segid g e"
    by (rule fixed_source.write_bits_law) (use assms(1) small in \<open>simp_all add: lengths\<close>)
  moreover have "write_bits K threads (sparse_bits s) segid g e = live_write K threads b segid g e"
    by (rule sparse_source.write_bits_law) (use assms(1-4) small [OF assms(1)] in \<open>simp_all add: lengths\<close>)
  moreover have "write_bits K threads (not_bits (fixed_bits b)) segid g e = live_write K threads c segid g e"
    by (rule not_fixed_source.write_bits_law) (use assms(1,5-7) small [OF assms(1)] in \<open>simp_all add: lengths\<close>)
  moreover have "write_bits K threads (not_bits (sparse_bits s)) segid g e = live_write K threads c segid g e"
    by (rule not_sparse_source.write_bits_law) (use assms(2-7) small [OF assms(1)] in \<open>simp_all add: lengths\<close>)
  moreover have "write_bits K threads (match_all_bits (num_bits everything)) segid g e = live_write K threads everything segid g e"
    by (rule all_source.write_bits_law) (use assms(8,9) small in \<open>simp_all add: lengths\<close>)
  moreover have "write_bits K threads (match_no_bits (num_bits nothing)) segid g e = live_write K threads nothing segid g e"
    by (rule none_source.write_bits_law) (use assms(10,11) small in \<open>simp_all add: lengths\<close>)
  ultimately show ?thesis by blast
qed

text \<open>
  C24: \<open>BitSet.of\<close>. The documents an iterator returns before \<open>NO_MORE_DOCS\<close> are exactly the elements of the set it builds,
  sparse when the announced cost is below one document in 128 and dense otherwise; the trait object lists them in
  increasing order, and every method that changes or searches it behaves as on the set, whichever representation
  was chosen.
\<close>
theorem bit_set_of_documents:
  assumes "bits2words max_doc * 64 \<le> usize_max" and "\<forall>d \<in> set (takeWhile (\<lambda>d. d \<noteq> NO_MORE_DOCS) docs). 0 \<le> sint d \<and> sint d < int max_doc"
  shows "\<exists>b S. any_of docs cost max_doc = Inr b \<and> any_wf b \<and> any_length b = max_doc \<and>
    S = (\<lambda>d. nat (sint d)) ` set (takeWhile (\<lambda>d. d \<noteq> NO_MORE_DOCS) docs) \<and> any_set b = S \<and>
    ((\<exists>s. b = Sparse s) \<longleftrightarrow> unat cost < max_doc div 128) \<and>
    walk_bits (\<lambda>b i. projr (any_next_set_bit b i)) b (any_cardinality b) 0 = sorted_list_of_set S \<and>
    (\<forall>i<max_doc. any_get b i = Inr (i \<in> S) \<and> (\<exists>b'. any_get_and_set b i = Inr (i \<in> S, b') \<and> any_wf b' \<and> any_set b' = insert i S) \<and>
       (\<exists>r. any_prev_set_bit b i = Inr r \<and> is_prev S i r)) \<and>
    (\<exists>b'. any_clear_all b = Inr b' \<and> any_wf b' \<and> any_set b' = {})"
proof -
  let ?docs = "map doc_index (takeWhile (\<lambda>d. d \<noteq> NO_MORE_DOCS) docs)" and ?S = "(\<lambda>d. nat (sint d)) ` set (takeWhile (\<lambda>d. d \<noteq> NO_MORE_DOCS) docs)"
  have docs: "set ?docs = ?S" "\<forall>i \<in> set ?docs. i < max_doc" using assms(2) doc_index_nonneg by (force, force)
  obtain b where b: "any_of docs cost max_doc = Inr b" "any_wf b" "any_length b = max_doc" "any_set b = ?S" "(\<exists>s. b = Sparse s) \<longleftrightarrow> unat cost < max_doc div 128"
  proof (cases "unat cost < max_doc div 128")
    case True
    then have "1 \<le> max_doc" by (cases max_doc) simp_all
    then obtain s0 where s0: "sp_new max_doc = Inr s0" "sparse_wf s0" "sp_length s0 = max_doc" "sparse_set s0 = {}" using new_set by blast
    then obtain s where "set_all sp_set ?docs s0 = Inr s" "sparse_wf s" "sp_length s = max_doc" "sparse_set s = ?S"
      using sparse.set_all_law [of s0 ?docs] docs by auto
    then show ?thesis using that [of "Sparse s"] True s0(1) by (simp add: any_of_def set_docs_all)
  next
    case False
    have "wf_bits (new_bit_set max_doc)" "bits_of (new_bit_set max_doc) = {}" "num_bits (new_bit_set max_doc) = max_doc"
      using new_bit_set_refines [OF assms(1)] by (simp_all add: new_bit_set_def)
    then obtain d where "set_all set_bit_at ?docs (new_bit_set max_doc) = Inr d" "wf_bits d" "num_bits d = max_doc" "bits_of d = ?S"
      using fbs.set_all_law [of "new_bit_set max_doc" ?docs] docs by auto
    then show ?thesis using that [of "Dense d"] False by (simp add: any_of_def set_docs_all len_def)
  qed
  have "any_get b i = Inr (i \<in> ?S) \<and> (\<exists>b'. any_get_and_set b i = Inr (i \<in> ?S, b') \<and> any_wf b' \<and> any_set b' = insert i ?S) \<and>
      (\<exists>r. any_prev_set_bit b i = Inr r \<and> is_prev ?S i r)" if "i < max_doc" for i
    using that b anyb.get_law [OF b(2)] any_old_bit [OF b(2), of i] any_prev_law [OF b(2), of i] by simp
  moreover have "walk_bits (\<lambda>b i. projr (any_next_set_bit b i)) b (any_cardinality b) 0 = sorted_list_of_set ?S" using anyb.walk_all [OF b(2)] b(4) by simp
  ultimately show ?thesis using b any_clear_all_law [OF b(2)] by blast
qed

text \<open>
  C25: \<open>NotDocIdSetIter\<close> is the complement of an ascending iterator: draining it lists exactly the documents below
  \<open>max_doc\<close> that the inner iterator does not return, in increasing order; and from every position a caller can reach,
  \<open>advance\<close> lands on the first such document at or after its target, or on \<open>NO_MORE_DOCS\<close> when there is none, and every
  document up to \<open>doc_id_run_end\<close> is one of the complement too.
\<close>
theorem not_iter_complements:
  assumes "sorted_wrt (\<lambda>a b. sint a < sint b) docs" and "\<forall>d \<in> set docs. 0 \<le> sint d"
  shows "map sint (drain (nat (sint max_doc)) (not_new max_doc docs)) = sorted_list_of_set ({0..<sint max_doc} - sint ` set docs) \<and>
    (\<forall>st target. positioned max_doc docs st \<and> sint (ni_doc st) < sint target \<longrightarrow>
       lands (sint ` set docs) (sint target) (not_advance target st) \<and> ni_max_doc (not_advance target st) = max_doc)"
proof
  let ?X = "sint ` set docs" and ?st = "not_new max_doc docs"
  have "positioned max_doc docs ?st" by (rule positioned.start)
  note inv = positioned_inv [OF this assms]
  have "card ({0..<sint max_doc} - ?X) \<le> nat (sint max_doc)" using card_mono [of "{0..<sint max_doc}" "{0..<sint max_doc} - ?X"] by simp
  moreover have "ni_doc ?st = - 1" by (simp add: not_new_def)
  ultimately show "map sint (drain (nat (sint max_doc)) ?st) = sorted_list_of_set ({0..<sint max_doc} - ?X)"
    using drain_from [of ?X ?st "nat (sint max_doc)"] inv by (simp add: NO_MORE_DOCS_def)
  show "\<forall>st target. positioned max_doc docs st \<and> sint (ni_doc st) < sint target \<longrightarrow>
       lands ?X (sint target) (not_advance target st) \<and> ni_max_doc (not_advance target st) = max_doc"
    using positioned_inv [OF _ assms] advance_lands by blast
qed

theorem not_iter_complements_witness:
  "map sint (drain 6 (not_new 6 [1, 2, 4])) = [0, 3, 5]"
proof -
  have "sorted_list_of_set ({0..<6} - {1, 2, 4 :: int}) = [0, 3, 5]"
  proof -
    have "{0..<6} - {1, 2, 4 :: int} = set [0, 3, 5]" by auto
    then show ?thesis by (simp only: sorted_list_of_set_sort_remdups) simp
  qed
  then show ?thesis using not_iter_complements [of "[1, 2, 4]" 6] by simp
qed

theorem write_bits_is_write_witness:
  "\<exists>s c. sparse_set s = bits_of sample_bits \<and>
    write_bits xor_hasher 4 (sparse_bits s) (replicate 16 7) 3 5 = live_write xor_hasher 4 sample_bits (replicate 16 7) 3 5 \<and>
    write_bits xor_hasher 4 (not_bits (sparse_bits s)) (replicate 16 7) 3 5 = live_write xor_hasher 4 c (replicate 16 7) 3 5"
proof -
  have "finite (bits_of sample_bits)" "bits_of sample_bits \<subseteq> {..<70}" using fbs.abs_bound [OF wf_sample] finite_subset by (auto simp: num_bits_sample)
  then obtain docs where docs: "set docs = bits_of sample_bits" "\<forall>d \<in> set docs. d < 70" using finite_list by (metis lessThan_iff subsetD)
  obtain s0 where s0: "sparse_wf s0" "sp_length s0 = 70" "sparse_set s0 = {}" using new_set [of 70] by auto
  obtain s where s: "sparse_wf s" "sp_length s = 70" "sparse_set s = bits_of sample_bits"
    using sparse.set_all_law [of s0 docs] s0 docs by auto
  have small: "bits2words 70 * 64 \<le> usize_max" by (simp add: bits2words_def usize_max_def)
  note c = copy_of_refines [OF small, of "\<lambda>i. i \<notin> bits_of sample_bits"] and n = new_bit_set_refines [of 0] 
  have "bits_of (copy_of 70 (\<lambda>i. i \<notin> bits_of sample_bits)) = {..<70} - bits_of sample_bits" using c(3) by auto
  then show ?thesis
    using write_bits_is_write [OF wf_sample s(1) s(3) [symmetric] _ c(1) _ _, of "new_bit_set 0" "new_bit_set 0" xor_hasher 4 "replicate 16 7" 3 5] s c(2) n
    by (auto simp: num_bits_sample usize_max_def bits2words_def new_bit_set_def)
qed

theorem bit_set_of_documents_witness:
  "\<exists>b. any_of [7, 300, NO_MORE_DOCS, 5] 2 1000 = Inr b \<and> (\<exists>s. b = Sparse s) \<and>
    walk_bits (\<lambda>b i. projr (any_next_set_bit b i)) b (any_cardinality b) 0 = [7, 300]"
proof -
  have t: "takeWhile (\<lambda>d. d \<noteq> NO_MORE_DOCS) [7, 300, NO_MORE_DOCS, 5] = [7, 300]" by (simp add: NO_MORE_DOCS_def)
  have "bits2words 1000 * 64 \<le> usize_max" by (simp add: bits2words_def usize_max_def)
  moreover have "sorted_list_of_set ((\<lambda>d. nat (sint (d :: i32))) ` set [7, 300]) = [7, 300]"
    by (simp only: set_map [symmetric] sorted_list_of_set_sort_remdups) simp
  ultimately show ?thesis using bit_set_of_documents [of 1000 "[7, 300, NO_MORE_DOCS, 5]" 2] unfolding t by auto
qed

end
