(* ===== verification/Packed_Longs.thy ===== *)
theory Packed_Longs
  imports Lucene_Prelude
begin

text \<open>
  \<open>lucene-util/src/packed_longs.rs\<close>: values of one width packed into little-endian bytes, read with one unaligned load
  each. The specification is the stream of bits of a byte slice (\<open>stream_bit\<close>), bit \<open>k\<close> being bit \<open>k mod 8\<close> of byte
  \<open>k div 8\<close>: a value is the next \<open>bits\<close> bits, lowest first (\<open>value_at\<close>).

  The unchecked loads are modelled as checked ones that panic: that a read returns a value shows that its load stays
  inside the slice. Slices have fewer than \<open>2 ^ 61\<close> bytes where a product with 8 has to fit a \<open>u64\<close>.
\<close>

section \<open>Bit streams\<close>

definition stream_bit :: "u8 list \<Rightarrow> nat \<Rightarrow> bool" where
  "stream_bit bs k \<longleftrightarrow> k div 8 < length bs \<and> bit (bs ! (k div 8)) (k mod 8)"

definition stream_bits :: "u8 list \<Rightarrow> nat \<Rightarrow> nat \<Rightarrow> u64" where
  "stream_bits bs p n = horner_sum of_bool 2 (map (stream_bit bs) [p..<p + n])"

definition value_at :: "u8 list \<Rightarrow> nat \<Rightarrow> nat \<Rightarrow> u64" where
  "value_at bs bits i = stream_bits bs (i * bits) bits"

section \<open>The reader\<close>

text \<open>A load of \<open>n\<close> bytes, widened to a \<open>u64\<close>.\<close>

definition load :: "nat \<Rightarrow> u8 list \<Rightarrow> nat \<Rightarrow> u64 panics" where
  "load n bytes at_byte =
     (if at_byte + n \<le> length bytes then Inr (from_le_bytes (take n (drop at_byte bytes))) else Inl IndexOutOfRange)"

record packed_longs =
  pl_bytes :: "u8 list"
  pl_bits :: nat
  pl_mask :: u64
  pl_fast_limit :: u64

definition pl_new :: "u8 list \<Rightarrow> nat \<Rightarrow> packed_longs option" where
  "pl_new bytes bits =
     (if bits = 0 \<or> 64 < bits \<or> (bits mod 8 \<noteq> 0 \<and> 56 < bits) then None
      else
        let msk = if bits = 64 then - 1 else push_bit bits 1 - 1;
            limit = if 8 \<le> length bytes then (of_nat (length bytes - 8) * 8 + 7) div of_nat bits + 1 else 0
        in Some \<lparr>pl_bytes = bytes, pl_bits = bits, pl_mask = msk, pl_fast_limit = limit\<rparr>)"

definition limited_to :: "u64 \<Rightarrow> packed_longs \<Rightarrow> packed_longs" where
  "limited_to n p = p\<lparr>pl_fast_limit := min (pl_fast_limit p) n\<rparr>"

definition pl_get :: "packed_longs \<Rightarrow> u64 \<Rightarrow> u64 option panics" where
  "pl_get p index =
     (if pl_fast_limit p \<le> index then Inr None
      else
        let pos = index * of_nat (pl_bits p); at_byte = unat (drop_bit 3 pos) in
        and_then (load 8 (pl_bytes p) at_byte) (\<lambda>word.
          Inr (Some (drop_bit (unat (pos AND 7)) word AND pl_mask p))))"

text \<open>The values of a loop over the slots of a slice.\<close>

fun collect :: "('a \<Rightarrow> 'b panics) \<Rightarrow> 'a list \<Rightarrow> 'b list panics" where
  "collect f [] = Inr []"
| "collect f (x # xs) = and_then (f x) (\<lambda>y. and_then (collect f xs) (\<lambda>ys. Inr (y # ys)))"

text \<open>The loop of \<open>decode_run::<BITS>\<close> over \<open>n\<close> slots.\<close>

definition decode_run :: "packed_longs \<Rightarrow> nat \<Rightarrow> u64 \<Rightarrow> nat \<Rightarrow> i64 list panics" where
  "decode_run p BITS start n =
     (let bits = if BITS = 0 then pl_bits p else BITS in
      collect (\<lambda>i.
        let pos = (start + of_nat i) * of_nat bits in
        and_then (load 8 (pl_bytes p) (unat (drop_bit 3 pos))) (\<lambda>word.
          Inr (drop_bit (unat (pos AND 7)) word AND pl_mask p))) [0..<n])"

text \<open>\<open>decode_words::<B>\<close> over \<open>n\<close> slots: a head up to a word boundary, whole words, a tail.\<close>

definition decode_words :: "packed_longs \<Rightarrow> nat \<Rightarrow> u64 \<Rightarrow> nat \<Rightarrow> i64 list panics" where
  "decode_words p B start n =
     (let per_word = 64 div B;
          head = min ((per_word - unat start mod per_word) mod per_word) n;
          rest = n - head;
          word_start = start + of_nat head;
          finished = head + rest div per_word * per_word in
      and_then (decode_run p B start head) (\<lambda>head_out.
      and_then (collect (\<lambda>w.
          and_then (load 8 (pl_bytes p) (unat ((word_start + of_nat (w * per_word)) * of_nat B div 8))) (\<lambda>word.
            Inr (map (\<lambda>k. drop_bit (k * B) word AND pl_mask p) [0..<per_word]))) [0..<rest div per_word]) (\<lambda>chunks.
      and_then (decode_run p B (start + of_nat finished) (rest mod per_word)) (\<lambda>tail_out.
        Inr (head_out @ concat chunks @ tail_out)))))"

text \<open>Returns how many slots were written, and the slots.\<close>

definition decode_range :: "packed_longs \<Rightarrow> u64 \<Rightarrow> i64 list \<Rightarrow> (nat \<times> i64 list) panics" where
  "decode_range p start out =
     (if pl_fast_limit p < start then Inr (0, out)
      else
        let n = min (length out) (unat (pl_fast_limit p - start)) in
        and_then
          (if pl_bits p \<in> {1, 2, 4} then decode_words p (pl_bits p) start n
           else if pl_bits p \<in> {8, 12, 16, 20, 24, 28, 32, 40, 48, 56, 64} then decode_run p (pl_bits p) start n
           else decode_run p 0 start n) (\<lambda>vs.
        Inr (n, vs @ drop n out)))"

section \<open>The reader at a constant width\<close>

record fixed_packed_longs =
  fp_bytes :: "u8 list"
  fp_width :: nat
  fp_fast_limit :: u64

definition fp_new :: "nat \<Rightarrow> u8 list \<Rightarrow> fixed_packed_longs" where
  "fp_new B bytes =
     \<lparr>fp_bytes = bytes, fp_width = B, fp_fast_limit = (case pl_new bytes B of None \<Rightarrow> 0 | Some p \<Rightarrow> pl_fast_limit p)\<rparr>"

definition load_width :: "nat \<Rightarrow> nat" where
  "load_width B = (if B \<in> {1, 2, 4, 8} then 1 else if B \<in> {12, 16} then 2 else if B \<in> {20, 24, 28, 32} then 4 else 8)"

definition fp_get :: "fixed_packed_longs \<Rightarrow> u64 \<Rightarrow> u64 option panics" where
  "fp_get p index =
     (if fp_fast_limit p \<le> index then Inr None
      else
        let B = fp_width p;
            pos = index * of_nat B;
            at_byte = if B mod 8 = 0 then unat (index * of_nat (B div 8)) else unat (drop_bit 3 pos) in
        and_then (load (load_width B) (fp_bytes p) at_byte) (\<lambda>word.
          Inr (Some (drop_bit (unat (pos AND 7)) word AND (if 64 - B < 64 then drop_bit (64 - B) (- 1) else 0)))))"

section \<open>What a load sees\<close>

lemma bit_stream_bits: "bit (stream_bits bs p n) k \<longleftrightarrow> k < n \<and> k < 64 \<and> stream_bit bs (p + k)"
  by (auto simp: stream_bits_def bit_horner_sum_bit_word_iff)

lemma bit_load: "bit (from_le_bytes (take n (drop j bs)) :: u64) k \<longleftrightarrow> k < 64 \<and> k < 8 * n \<and> stream_bit bs (8 * j + k)"
proof -
  have "(8 * j + k) div 8 = j + k div 8" "(8 * j + k) mod 8 = k mod 8" by simp_all
  moreover have "k div 8 < n \<longleftrightarrow> k < 8 * n" by (simp add: less_mult_imp_div_less mult.commute div_less_iff_less_mult)
  ultimately show ?thesis
    by (cases "k div 8 < min n (length bs - j)") (auto simp: bit_from_le_bytes stream_bit_def)
qed

lemma window_value:
  assumes "p mod 8 + b \<le> 8 * n" and "p mod 8 + b \<le> 64"
  shows "drop_bit (p mod 8) (from_le_bytes (take n (drop (p div 8) bs)) :: u64) AND mask b = stream_bits bs p b"
proof (rule bit_word_eqI)
  fix k assume "k < LENGTH(64)"
  moreover have "8 * (p div 8) + (p mod 8 + k) = p + k" by simp
  ultimately show "bit (drop_bit (p mod 8) (from_le_bytes (take n (drop (p div 8) bs)) :: u64) AND mask b) k = bit (stream_bits bs p b) k"
    using assms by (auto simp: bit_simps bit_load bit_stream_bits)
qed

lemma mask_word: "b \<le> 64 \<Longrightarrow> (if b = 64 then - 1 else push_bit b 1 - 1) = (mask b :: u64)"
  by (auto simp: mask_eq_exp_minus_1 push_bit_eq_mult)

lemma mask_shifted: "b \<le> 64 \<Longrightarrow> (if 64 - b < 64 then drop_bit (64 - b) (- 1) else 0) = (mask b :: u64)"
  by (rule bit_word_eqI) (auto simp: bit_simps)

lemma supported_window:
  fixes b i :: nat
  assumes "b mod 8 = 0 \<or> b \<le> 56" and "b \<le> 64"
  shows "i * b mod 8 + b \<le> 64"
proof (cases "b mod 8 = 0")
  case True
  then have "i * b mod 8 = 0" by (metis mod_mult_right_eq mult_0_right mod_0)
  then show ?thesis using assms(2) by simp
next
  case False
  have "i * b mod 8 < 8" by simp
  then show ?thesis using False assms(1) by linarith
qed

section \<open>Reading agrees with the stream\<close>

definition pl_ok :: "packed_longs \<Rightarrow> bool" where
  "pl_ok p \<longleftrightarrow>
     0 < pl_bits p \<and> pl_bits p \<le> 64 \<and> (pl_bits p mod 8 = 0 \<or> pl_bits p \<le> 56) \<and> pl_mask p = mask (pl_bits p) \<and>
     8 * length (pl_bytes p) < 2 ^ 64 \<and> (\<forall>i < unat (pl_fast_limit p). i * pl_bits p div 8 + 8 \<le> length (pl_bytes p))"

lemma unat_plus_1: "unat x + 1 < 2 ^ 64 \<Longrightarrow> unat (x + 1 :: u64) = unat x + 1"
  by (simp add: unat_word_ariths)

lemma unat_limit:
  assumes "8 \<le> len" and "8 * len < 2 ^ 64" and "0 < bits" and "bits \<le> 64"
  shows "unat ((of_nat (len - 8) * 8 + 7) div of_nat bits + 1 :: u64) = ((len - 8) * 8 + 7) div bits + 1"
proof -
  have r: "(len - 8) * 8 + 7 < 2 ^ 64 - 1" using assms(1,2) by simp
  have "unat (of_nat x :: u64) = x" if "x < 2 ^ 64 - 1" for x using that by (simp add: unsigned_of_nat take_bit_nat_eq_self)
  from this [of "(len - 8) * 8 + 7"] this [of bits] r assms(4)
  have "unat (of_nat ((len - 8) * 8 + 7) :: u64) = (len - 8) * 8 + 7" "unat (of_nat bits :: u64) = bits" by simp_all
  moreover have "of_nat (len - 8) * 8 + 7 = (of_nat ((len - 8) * 8 + 7) :: u64)" by simp
  ultimately have d: "unat ((of_nat (len - 8) * 8 + 7) div of_nat bits :: u64) = ((len - 8) * 8 + 7) div bits"
    by (simp only: unat_div)
  have "((len - 8) * 8 + 7) div bits < 2 ^ 64 - 1" by (rule le_less_trans [OF div_le_dividend r])
  then have "unat ((of_nat (len - 8) * 8 + 7) div of_nat bits :: u64) + 1 < 2 ^ 64" by (simp only: d less_diff_conv)
  then show ?thesis by (simp only: unat_plus_1 d)
qed

lemma pl_new_limit:
  assumes "pl_new bytes bits = Some p" and "8 * length bytes < 2 ^ 64"
  shows "pl_ok p" "pl_bytes p = bytes" "pl_bits p = bits" "i < unat (pl_fast_limit p) \<longleftrightarrow> i * bits div 8 + 8 \<le> length bytes"
proof -
  have b: "0 < bits" "bits \<le> 64" "bits mod 8 = 0 \<or> bits \<le> 56" using assms(1) by (auto simp: pl_new_def split: if_splits)
  then have p: "p = \<lparr>pl_bytes = bytes, pl_bits = bits, pl_mask = mask bits,
      pl_fast_limit = if 8 \<le> length bytes then (of_nat (length bytes - 8) * 8 + 7) div of_nat bits + 1 else 0\<rparr>"
    using assms(1) mask_word [of bits] by (simp add: pl_new_def Let_def split: if_splits)
  have lim: "i < unat (pl_fast_limit p) \<longleftrightarrow> i * bits div 8 + 8 \<le> length bytes" for i
  proof (cases "8 \<le> length bytes")
    case True
    have "i < unat (pl_fast_limit p) \<longleftrightarrow> i \<le> ((length bytes - 8) * 8 + 7) div bits"
      using True unat_limit [OF True assms(2) b(1,2)] by (simp add: p less_Suc_eq_le)
    also have "\<dots> \<longleftrightarrow> i * bits \<le> (length bytes - 8) * 8 + 7" using b(1) by (rule less_eq_div_iff_mult_less_eq)
    also have "\<dots> \<longleftrightarrow> i * bits div 8 + 8 \<le> length bytes" using True by linarith
    finally show ?thesis .
  qed (simp add: p)
  then show "i < unat (pl_fast_limit p) \<longleftrightarrow> i * bits div 8 + 8 \<le> length bytes" .
  show "pl_bytes p = bytes" "pl_bits p = bits" by (simp_all add: p)
  then show "pl_ok p" using lim b assms(2) by (auto simp: pl_ok_def p)
qed

lemma pl_new_some: "pl_new bytes bits = None \<longleftrightarrow> bits = 0 \<or> 64 < bits \<or> (bits mod 8 \<noteq> 0 \<and> 56 < bits)"
  by (simp add: pl_new_def Let_def)

lemma limited_ok: "pl_ok p \<Longrightarrow> pl_ok (limited_to n p)"
  by (auto simp: pl_ok_def limited_to_def min_def word_le_nat_alt)

text \<open>The position of a value below the limit does not wrap.\<close>

lemma limit_small: "unat (a :: u64) < 2 ^ 64"
  using unsigned_less [of a] by simp

lemma byte_of_position: "unat (drop_bit 3 x) = unat x div 8" for x :: u64
  using limit_small [of x] by (simp only: unsigned_drop_bit_eq) (simp add: drop_bit_eq_div take_bit_nat_eq_self)

lemma shift_of_position: "unat (x AND 7) = unat x mod 8" for x :: u64
proof -
  have "x AND 7 = take_bit 3 x" by (simp add: take_bit_eq_mask mask_eq_exp_minus_1)
  then show ?thesis by (simp add: take_bit_eq_mod unat_mod)
qed

lemma position:
  fixes index :: u64
  assumes "unat index * b < 2 ^ 64" and "b \<le> 64"
  shows "unat (index * of_nat b) = unat index * b"
    and "unat (drop_bit 3 (index * of_nat b)) = unat index * b div 8" and "unat (index * of_nat b AND 7) = unat index * b mod 8"
proof -
  show m: "unat (index * of_nat b) = unat index * b"
    using assms by (simp add: unat_word_ariths unsigned_of_nat take_bit_nat_eq_self)
  then show "unat (drop_bit 3 (index * of_nat b)) = unat index * b div 8" "unat (index * of_nat b AND 7) = unat index * b mod 8"
    by (simp_all only: byte_of_position shift_of_position)
qed

lemma in_window:
  assumes "pl_ok p" and "i < unat (pl_fast_limit p)"
  shows "i * pl_bits p div 8 + 8 \<le> length (pl_bytes p)" "i * pl_bits p < 2 ^ 64"
    "drop_bit (i * pl_bits p mod 8) (from_le_bytes (take 8 (drop (i * pl_bits p div 8) (pl_bytes p))) :: u64) AND pl_mask p =
       value_at (pl_bytes p) (pl_bits p) i"
proof -
  show w: "i * pl_bits p div 8 + 8 \<le> length (pl_bytes p)" using assms by (simp add: pl_ok_def)
  then show "i * pl_bits p < 2 ^ 64" using assms(1) unfolding pl_ok_def by linarith
  have "i * pl_bits p mod 8 + pl_bits p \<le> 64" using supported_window [of "pl_bits p" i] assms(1) by (simp add: pl_ok_def)
  then show "drop_bit (i * pl_bits p mod 8) (from_le_bytes (take 8 (drop (i * pl_bits p div 8) (pl_bytes p))) :: u64) AND pl_mask p =
       value_at (pl_bytes p) (pl_bits p) i"
    using assms(1) window_value [of "i * pl_bits p" "pl_bits p" 8 "pl_bytes p"] by (simp add: pl_ok_def value_at_def)
qed

lemma pl_get_law:
  assumes "pl_ok p"
  shows "pl_get p index = Inr (if index < pl_fast_limit p then Some (value_at (pl_bytes p) (pl_bits p) (unat index)) else None)"
proof (cases "index < pl_fast_limit p")
  case True
  then have i: "unat index < unat (pl_fast_limit p)" by (simp add: word_less_nat_alt)
  have "pl_bits p \<le> 64" using assms by (simp add: pl_ok_def)
  then show ?thesis
    using True in_window [OF assms i] position [OF in_window(2) [OF assms i]]
    by (simp add: pl_get_def Let_def load_def not_less [symmetric])
qed (simp add: pl_get_def not_less [symmetric])

section \<open>Decoding a run agrees with reading\<close>

lemma collect_law: "(\<And>x. x \<in> set xs \<Longrightarrow> f x = Inr (g x)) \<Longrightarrow> collect f xs = Inr (map g xs)"
  by (induction xs) simp_all

lemma unat_plus_of_nat: "unat a + n < 2 ^ 64 \<Longrightarrow> unat (a + of_nat n :: u64) = unat a + n"
  by (simp add: unat_word_ariths unsigned_of_nat take_bit_nat_eq_self)

lemma decode_run_law:
  assumes p: "pl_ok p" and BITS: "BITS = 0 \<or> BITS = pl_bits p" and n: "unat start + n \<le> unat (pl_fast_limit p)"
  shows "decode_run p BITS start n = Inr (map (\<lambda>i. value_at (pl_bytes p) (pl_bits p) (unat start + i)) [0..<n])"
proof -
  have b: "pl_bits p \<le> 64" "(if BITS = 0 then pl_bits p else BITS) = pl_bits p" using p BITS by (auto simp: pl_ok_def)
  show ?thesis unfolding decode_run_def Let_def b(2)
  proof (rule collect_law)
    fix i assume "i \<in> set [0..<n]"
    then have i: "unat start + i < unat (pl_fast_limit p)" using n by simp
    then have u: "unat (start + of_nat i) = unat start + i" using limit_small [of "pl_fast_limit p"] by (intro unat_plus_of_nat) linarith
    note w = in_window [OF p i]
    show "and_then (load 8 (pl_bytes p) (unat (drop_bit 3 ((start + of_nat i) * of_nat (pl_bits p))))) (\<lambda>word.
        Inr (drop_bit (unat ((start + of_nat i) * of_nat (pl_bits p) AND 7)) word AND pl_mask p)) =
        Inr (value_at (pl_bytes p) (pl_bits p) (unat start + i))"
      using w position [of "start + of_nat i" "pl_bits p"] b(1) by (simp only: u load_def) simp
  qed
qed

lemma map_upt_split: "map f [0..<a + b] = map f [0..<a] @ map (\<lambda>i. f (a + i)) [0..<b]"
  by (rule nth_equalityI) (auto simp: nth_append)

lemma concat_chunks: "concat (map (\<lambda>w. map (\<lambda>k. h (w * m + k)) [0..<m]) [0..<c]) = map h [0..<c * m]"
proof (induction c)
  case (Suc c)
  have "[0..<Suc c * m] = [0..<c * m] @ [c * m..<c * m + m]" using upt_add_eq_append [of 0 "c * m" m] by (simp add: add.commute)
  moreover have "map (\<lambda>k. h (c * m + k)) [0..<m] = map h [c * m..<c * m + m]" by (rule nth_equalityI) simp_all
  ultimately show ?case using Suc by simp
qed simp

text \<open>The values of an aligned word.\<close>

lemma word_values:
  assumes "j * B mod 8 = 0" and "k * B + B \<le> 64"
  shows "drop_bit (k * B) (from_le_bytes (take 8 (drop (j * B div 8) bs)) :: u64) AND mask B = value_at bs B (j + k)"
proof (rule bit_word_eqI)
  fix m assume "m < LENGTH(64)"
  moreover have "8 * (j * B div 8) = j * B" using assms(1) by (metis div_mult_mod_eq mult.commute add.right_neutral)
  then have "8 * (j * B div 8) + (k * B + m) = (j + k) * B + m" by (simp add: add_mult_distrib)
  ultimately show "bit (drop_bit (k * B) (from_le_bytes (take 8 (drop (j * B div 8) bs)) :: u64) AND mask B) m = bit (value_at bs B (j + k)) m"
    using assms(2) by (auto simp: bit_simps bit_load bit_stream_bits value_at_def simp flip: add.assoc)
qed

lemma decode_words_law:
  assumes p: "pl_ok p" and B: "B = pl_bits p" "B \<in> {1, 2, 4}" and n: "unat start + n \<le> unat (pl_fast_limit p)"
  shows "decode_words p B start n = Inr (map (\<lambda>i. value_at (pl_bytes p) B (unat start + i)) [0..<n])"
proof -
  define m where "m = 64 div B"
  define head where "head = min ((m - unat start mod m) mod m) n"
  define c where "c = (n - head) div m"
  let ?v = "\<lambda>i. value_at (pl_bytes p) B (unat start + i)"
  have m: "0 < m" "m * B = 64" "0 < B" "B \<le> 64" using B(2) by (auto simp: m_def)
  have total: "n = head + c * m + (n - head) mod m" by (simp add: c_def head_def)
  have lim: "unat (pl_fast_limit p) < 2 ^ 64" by (rule limit_small)
  have start_plus: "unat (start + of_nat x) = unat start + x" if "x \<le> n" for x
    using that n lim by (intro unat_plus_of_nat) linarith
  have h: "decode_run p B start head = Inr (map ?v [0..<head])"
    using decode_run_law [OF p, of B start head] B(1) n total by simp
  have chunk: "and_then (load 8 (pl_bytes p) (unat ((start + of_nat head + of_nat (w * m)) * of_nat B div 8))) (\<lambda>word.
      Inr (map (\<lambda>k. drop_bit (k * B) word AND pl_mask p) [0..<m])) = Inr (map (\<lambda>k. ?v (head + (w * m + k))) [0..<m])" if "w < c" for w
  proof -
    define j where "j = unat start + (head + w * m)"
    have wm: "w * m + m \<le> c * m" using that by (metis Suc_leI mult_Suc add.commute mult_le_mono1)
    then have j: "j < unat (pl_fast_limit p)" "head + w * m \<le> n" using total n m(1) by (simp_all add: j_def)
    have "0 < n - head" using wm total m(1) by linarith
    then have "head = (m - unat start mod m) mod m" by (simp add: head_def min_def split: if_splits)
    then have "(unat start + head) mod m = 0" using m(1)
      by (metis add.commute le_add_diff_inverse mod_add_right_eq mod_less_divisor mod_self less_imp_le mod_add_left_eq)
    then have "j mod m = 0" by (simp add: j_def add.assoc [symmetric])
    then obtain q where "j = q * m" by (metis dvdE mod_0_imp_dvd mult.commute)
    then have "j * B = q * 64" using m(2) by simp
    then have al: "j * B mod 8 = 0" by simp
    have u: "unat (start + of_nat head + of_nat (w * m)) = j"
      using start_plus [OF j(2)] by (simp add: j_def add.assoc)
    note win = in_window [OF p j(1), folded B(1)]
    have "unat ((start + of_nat head + of_nat (w * m)) * of_nat B) = j * B"
      using position(1) [of "start + of_nat head + of_nat (w * m)" B] win(2) m(4) by (simp only: u)
    then have "unat ((start + of_nat head + of_nat (w * m)) * of_nat B div 8) = j * B div 8" by (simp only: unat_div) simp
    moreover have "drop_bit (k * B) (from_le_bytes (take 8 (drop (j * B div 8) (pl_bytes p))) :: u64) AND pl_mask p = ?v (head + (w * m + k))"
      if "k < m" for k
    proof -
      have "k * B + B \<le> 64" using that m(2) by (metis Suc_leI mult_Suc add.commute mult_le_mono1)
      then show ?thesis using word_values [OF al, of k "pl_bytes p"] p B(1) by (simp add: pl_ok_def j_def add.assoc)
    qed
    ultimately show ?thesis using win(1) by (simp add: load_def)
  qed
  have "collect (\<lambda>w. and_then (load 8 (pl_bytes p) (unat ((start + of_nat head + of_nat (w * m)) * of_nat B div 8))) (\<lambda>word.
      Inr (map (\<lambda>k. drop_bit (k * B) word AND pl_mask p) [0..<m]))) [0..<c] = Inr (map (\<lambda>w. map (\<lambda>k. ?v (head + (w * m + k))) [0..<m]) [0..<c])"
    by (rule collect_law) (use chunk in simp)
  moreover have "decode_run p B (start + of_nat (head + c * m)) ((n - head) mod m) = Inr (map (\<lambda>i. ?v (head + c * m + i)) [0..<(n - head) mod m])"
    using decode_run_law [OF p, of B "start + of_nat (head + c * m)" "(n - head) mod m"] B(1) n total start_plus [of "head + c * m"]
    by (simp add: add.assoc)
  moreover have "map ?v [0..<head] @ map (\<lambda>i. ?v (head + i)) [0..<c * m] @ map (\<lambda>i. ?v (head + c * m + i)) [0..<(n - head) mod m] = map ?v [0..<n]"
    using map_upt_split [of ?v head "c * m"] map_upt_split [of ?v "head + c * m" "(n - head) mod m"] by (simp only: total [symmetric] append_assoc [symmetric])
  ultimately show ?thesis
    using h concat_chunks [of "\<lambda>i. ?v (head + i)" m c] by (simp add: decode_words_def Let_def m_def [symmetric] head_def [symmetric] c_def [symmetric])
qed

lemma decode_range_law:
  assumes p: "pl_ok p"
  shows "\<exists>n. decode_range p start out = Inr (n, map (\<lambda>i. value_at (pl_bytes p) (pl_bits p) (unat start + i)) [0..<n] @ drop n out) \<and>
    n = min (length out) (unat (pl_fast_limit p) - unat start)"
proof (cases "pl_fast_limit p < start")
  case True
  then show ?thesis by (auto simp: decode_range_def word_less_nat_alt)
next
  case False
  then have le: "unat start \<le> unat (pl_fast_limit p)" by (simp add: word_less_nat_alt)
  then have d: "unat (pl_fast_limit p - start) = unat (pl_fast_limit p) - unat start" by (simp add: unat_sub word_le_nat_alt)
  define n where "n = min (length out) (unat (pl_fast_limit p) - unat start)"
  have n: "unat start + n \<le> unat (pl_fast_limit p)" using le by (simp add: n_def)
  have "(if pl_bits p \<in> {1, 2, 4} then decode_words p (pl_bits p) start n
     else if pl_bits p \<in> {8, 12, 16, 20, 24, 28, 32, 40, 48, 56, 64} then decode_run p (pl_bits p) start n else decode_run p 0 start n) =
     Inr (map (\<lambda>i. value_at (pl_bytes p) (pl_bits p) (unat start + i)) [0..<n])"
    using decode_words_law [OF p refl _ n] decode_run_law [OF p _ n] by presburger
  then show ?thesis using False by (simp only: decode_range_def d Let_def n_def [symmetric]) simp
qed

section \<open>The constant width agrees\<close>

lemma load_fits:
  assumes "i * B mod 8 + B \<le> 64"
  shows "i * B mod 8 + B \<le> 8 * load_width B"
proof -
  have "i * 1 mod 8 + 1 \<le> 8" "i * 2 mod 8 + 2 \<le> 8" "i * 4 mod 8 + 4 \<le> 8" "i * 8 mod 8 + 8 \<le> 8" "i * 12 mod 8 + 12 \<le> 16"
    "i * 16 mod 8 + 16 \<le> 16" "i * 20 mod 8 + 20 \<le> 32" "i * 24 mod 8 + 24 \<le> 32" "i * 28 mod 8 + 28 \<le> 32" "i * 32 mod 8 + 32 \<le> 32" for i :: nat
    by presburger+
  then show ?thesis using assms by (auto simp: load_width_def)
qed

lemma fp_get_law:
  assumes "8 * length bytes < 2 ^ 64"
  shows "fp_get (fp_new B bytes) index = (case pl_new bytes B of None \<Rightarrow> Inr None | Some p \<Rightarrow> pl_get p index)"
proof (cases "pl_new bytes B")
  case (Some p)
  note p = pl_new_limit [OF Some assms]
  have B: "B \<le> 64" "B mod 8 = 0 \<or> B \<le> 56" "0 < B" using p(1,3) by (auto simp: pl_ok_def)
  show ?thesis
  proof (cases "index < pl_fast_limit p")
    case True
    have i: "unat index < unat (pl_fast_limit p)" using True by (simp add: word_less_nat_alt)
    note w = in_window [OF p(1) i, unfolded p(2,3)] and pos = position [OF in_window(2) [OF p(1) i], unfolded p(3), OF B(1)]
    have at_byte: "(if B mod 8 = 0 then unat (index * of_nat (B div 8)) else unat (drop_bit 3 (index * of_nat B))) = unat index * B div 8"
    proof (cases "B mod 8 = 0")
      case True
      then obtain q where q: "B = 8 * q" by (metis mod_0_imp_dvd dvdE)
      then have "unat (index * of_nat q) = unat index * q" using position(1) [of index q] w(2) B(1) by (simp add: mult.commute)
      then show ?thesis using True q by simp
    qed (use pos(2) in simp)
    have fits: "unat index * B mod 8 + B \<le> 8 * load_width B"
      using load_fits [OF supported_window [OF B(2,1), of "unat index"]] .
    have "drop_bit (unat index * B mod 8) (from_le_bytes (take (load_width B) (drop (unat index * B div 8) bytes)) :: u64) AND mask B = value_at bytes B (unat index)"
      using window_value [OF fits, of bytes] supported_window [OF B(2,1), of "unat index"] by (simp only: value_at_def)
    moreover have "unat index * B div 8 + load_width B \<le> length bytes" using w(1) by (simp add: load_width_def)
    ultimately have "fp_get (fp_new B bytes) index = Inr (Some (value_at bytes B (unat index)))"
      using True [unfolded not_le [symmetric]] Some
      by (simp only: fp_get_def fp_new_def fixed_packed_longs.simps Let_def option.case at_byte pos(3) load_def mask_shifted [OF B(1)]) auto
    then show ?thesis using Some True pl_get_law [OF p(1), of index] p(2,3) by simp
  qed (use Some in \<open>simp add: fp_get_def fp_new_def pl_get_def not_less\<close>)
qed (simp add: fp_get_def fp_new_def)

end
