(* ===== verification/Direct_Reader.thy ===== *)
theory Direct_Reader
  imports Packed_Longs
begin

text \<open>
  \<open>lucene-codecs/src/direct_reader.rs\<close>: the packed arrays of doc values and monotonic sequences. One writer (\<open>direct_encode\<close>), the
  generic checked reader (\<open>get\<close>), and two faster readers that defer to it; the widths are the fourteen of \<open>SUPPORTED_BITS\<close>.
\<close>

section \<open>Widths\<close>

definition SUPPORTED_BITS :: "nat list" where
  "SUPPORTED_BITS = [1, 2, 4, 8, 12, 16, 20, 24, 28, 32, 40, 48, 56, 64]"

definition SUPPORTED_BITS_MASK :: u64 where
  "SUPPORTED_BITS_MASK = fold (\<lambda>w msk. if w < 64 then msk OR push_bit w 1 else msk) SUPPORTED_BITS 0"

definition is_supported_bits :: "u8 \<Rightarrow> bool" where
  "is_supported_bits bits_per_value \<longleftrightarrow>
     bits_per_value = 64 \<or> (bits_per_value < 64 \<and> drop_bit (unat bits_per_value) SUPPORTED_BITS_MASK AND 1 \<noteq> 0)"

definition unsigned_bits_required :: "i64 \<Rightarrow> u8" where
  "unsigned_bits_required max_value =
     (let bits = if max_value = 0 then 1 else 64 - leading_zeros max_value in
      of_nat (case find (\<lambda>w. bits \<le> w) SUPPORTED_BITS of Some w \<Rightarrow> w | None \<Rightarrow> 64))"

definition padding_bytes_needed :: "u8 \<Rightarrow> nat" where
  "padding_bytes_needed bits_per_value =
     (let bits = unat bits_per_value;
          padding_bits = if 32 < bits then 64 - bits else if 16 < bits then 32 - bits else if 8 < bits then 16 - bits else 0
      in (padding_bits + 7) div 8)"

section \<open>Readers\<close>

text \<open>The bytes of a value near the end of the bytes.\<close>

definition bytes_acc :: "u8 list \<Rightarrow> u64" where
  "bytes_acc bytes = fold (\<lambda>(i, b) acc. acc OR push_bit (8 * i) (ucast b)) (List.enumerate 0 bytes) 0"

definition direct_get :: "u8 list \<Rightarrow> u8 \<Rightarrow> i64 \<Rightarrow> error + i64" where
  "direct_get bytes bits_per_value index =
     (if \<not> is_supported_bits bits_per_value then Inl (Corrupted (UnsupportedBits (unat bits_per_value)))
      else
        let bit_pos = index * ucast bits_per_value;
            byte_pos = unat (drop_bit 3 bit_pos);
            shift = unat (bit_pos AND 7);
            bytes_needed = (shift + unat bits_per_value + 7) div 8 in
        if length bytes < byte_pos then Inl (Eof byte_pos)
        else
          case (case slice_get bytes byte_pos (byte_pos + 8) of
                  Some window \<Rightarrow> Some (from_le_bytes window)
                | None \<Rightarrow> map_option bytes_acc (slice_get bytes byte_pos (byte_pos + bytes_needed))) of
            None \<Rightarrow> Inl (Eof byte_pos)
          | Some acc \<Rightarrow>
              Inr (drop_bit shift acc AND (if bits_per_value = 64 then - 1 else push_bit (unat bits_per_value) 1 - 1)))"

text \<open>\<open>slice.first_chunk::<n>()\<close> as a number.\<close>

definition first_chunk :: "nat \<Rightarrow> u8 list \<Rightarrow> u64 option" where
  "first_chunk n tail = (if n \<le> length tail then Some (from_le_bytes (take n tail)) else None)"

definition read_at_width :: "nat \<Rightarrow> u8 list \<Rightarrow> i64 \<Rightarrow> i64 option" where
  "read_at_width B bytes index =
     (if sint index < 0 \<or> 2 ^ 64 \<le> unat index * B then None
      else
        let bit_pos = unat index * B; byte_pos = bit_pos div 8 in
        if length bytes < byte_pos then None
        else
          let tail = drop byte_pos bytes;
              value =
                (if B = 8 then first_chunk 1 tail
                 else if B = 16 then first_chunk 2 tail
                 else if B = 32 then first_chunk 4 tail
                 else if B = 64 then first_chunk 8 tail
                 else if B \<in> {1, 2, 4} then map_option (drop_bit (bit_pos mod 8)) (first_chunk 1 tail)
                 else map_option (drop_bit (bit_pos mod 8)) (first_chunk 8 tail))
          in map_option (\<lambda>v. v AND (if 64 - B < 64 then drop_bit (64 - B) (- 1) else 0)) value)"

record direct_reader =
  dr_slice :: "u8 list"
  dr_bits_per_value :: u8

definition dr_new :: "u8 list \<Rightarrow> u8 \<Rightarrow> error + direct_reader" where
  "dr_new bytes bits_per_value =
     (if \<not> is_supported_bits bits_per_value then Inl (Corrupted (UnsupportedBits (unat bits_per_value)))
      else Inr \<lparr>dr_slice = bytes, dr_bits_per_value = bits_per_value\<rparr>)"

definition dr_get :: "direct_reader \<Rightarrow> i64 \<Rightarrow> error + i64" where
  "dr_get r index =
     (let B = unat (dr_bits_per_value r) in
      case (if B \<in> set SUPPORTED_BITS then read_at_width B (dr_slice r) index else None) of
        Some v \<Rightarrow> Inr v
      | None \<Rightarrow> direct_get (dr_slice r) (dr_bits_per_value r) index)"

record fixed_width_reader =
  fw_slice :: "u8 list"
  fw_width :: nat
  fw_fast :: fixed_packed_longs

definition fw_new :: "nat \<Rightarrow> u8 list \<Rightarrow> fixed_width_reader" where
  "fw_new B bytes = \<lparr>fw_slice = bytes, fw_width = B, fw_fast = fp_new B bytes\<rparr>"

definition fw_get :: "fixed_width_reader \<Rightarrow> i64 \<Rightarrow> (error + i64) panics" where
  "fw_get r index =
     and_then (fp_get (fw_fast r) index) (\<lambda>fast.
       case fast of Some v \<Rightarrow> Inr (Inr v) | None \<Rightarrow> Inr (direct_get (fw_slice r) (of_nat (fw_width r)) index))"

definition with_width :: "direct_reader \<Rightarrow> (fixed_width_reader \<Rightarrow> 'a) \<Rightarrow> 'a" where
  "with_width r visit =
     (let B = unat (dr_bits_per_value r) in
      visit (fw_new (if B \<in> {1, 2, 4, 8, 12, 16, 20, 24, 28, 32, 40, 48, 56} then B else 64) (dr_slice r)))"

section \<open>The writer\<close>

fun direct_encode_loop :: "nat \<Rightarrow> u64 \<Rightarrow> i64 list \<Rightarrow> u8 list \<Rightarrow> u128 \<Rightarrow> nat \<Rightarrow> u8 list \<times> u128 \<times> nat" where
  "direct_encode_loop bpv msk [] out acc nbits = (out, acc, nbits)"
| "direct_encode_loop bpv msk (v # vs) out acc nbits =
     (let acc = acc OR push_bit nbits (ucast (v AND msk)); nbits = nbits + bpv in
      if 64 \<le> nbits then direct_encode_loop bpv msk vs (out @ to_le_bytes 8 (ucast acc :: u64)) (drop_bit 64 acc) (nbits - 64)
      else direct_encode_loop bpv msk vs out acc nbits)"

definition direct_encode :: "i64 list \<Rightarrow> u8 \<Rightarrow> u8 list" where
  "direct_encode values bits_per_value =
     (let bpv = min (unat bits_per_value) 64;
          msk = if bpv = 64 then - 1 else push_bit bpv 1 - 1;
          (out, acc, nbits) = direct_encode_loop bpv msk values [] 0 0
      in out @ take ((nbits + 7) div 8) (to_le_bytes 8 (ucast acc :: u64)))"

section \<open>The widths\<close>

lemma supported_mask: "SUPPORTED_BITS_MASK = 0x101010111111116"
  by (simp add: SUPPORTED_BITS_MASK_def SUPPORTED_BITS_def)

lemma bit_fold_or:
  "n < 64 \<Longrightarrow> bit (fold (\<lambda>w msk. if w < 64 then msk OR push_bit w 1 else msk) ws m :: u64) n \<longleftrightarrow> bit m n \<or> n \<in> set ws"
  by (induction ws arbitrary: m) (auto simp: bit_simps)

lemma supported_iff: "is_supported_bits w \<longleftrightarrow> unat w \<in> set SUPPORTED_BITS"
proof -
  have "bit (0 :: u64) n = False" for n by simp
  then have "bit SUPPORTED_BITS_MASK n \<longleftrightarrow> n \<in> set SUPPORTED_BITS" if "n < 64" for n
    using bit_fold_or [OF that, of SUPPORTED_BITS 0] by (simp add: SUPPORTED_BITS_MASK_def)
  moreover have "drop_bit n x AND 1 \<noteq> 0 \<longleftrightarrow> bit x n" for n and x :: u64 by (simp add: bit_iff_odd_drop_bit and_one_eq odd_iff_mod_2_eq_one)
  moreover have "w < 64 \<longleftrightarrow> unat w < 64" by (simp add: word_less_nat_alt)
  moreover have "w = 64 \<longleftrightarrow> unat w = 64" by (simp add: word_unat_eq_iff)
  moreover have "\<forall>n \<in> set SUPPORTED_BITS. n \<le> 64" "64 \<in> set SUPPORTED_BITS" by (simp_all add: SUPPORTED_BITS_def)
  ultimately show ?thesis unfolding is_supported_bits_def by (metis le_neq_implies_less)
qed

lemma supported_bounds:
  assumes "b \<in> set SUPPORTED_BITS"
  shows "0 < b" "b \<le> 64" "b mod 8 = 0 \<or> b \<le> 56"
  using assms by (auto simp: SUPPORTED_BITS_def)

lemma supported_fits: "b \<in> set SUPPORTED_BITS \<Longrightarrow> i * b mod 8 + b \<le> 64"
  using supported_bounds supported_window by blast

text \<open>The width chosen for a value holds it.\<close>

lemma bits_required_supported: "is_supported_bits (unsigned_bits_required v)"
  and bits_required_holds: "v = take_bit (unat (unsigned_bits_required v)) v"
  and bits_required_least: "b \<in> set SUPPORTED_BITS \<Longrightarrow> v = take_bit b v \<Longrightarrow> unat (unsigned_bits_required v) \<le> b"
proof -
  define n where "n = (if v = 0 then 1 else 64 - leading_zeros v)"
  have n: "n \<le> 64" by (simp add: n_def)
  obtain w where w: "find (\<lambda>w. n \<le> w) SUPPORTED_BITS = Some w" "w \<in> set SUPPORTED_BITS" "n \<le> w" "\<forall>b \<in> set SUPPORTED_BITS. n \<le> b \<longrightarrow> w \<le> b"
  proof -
    have "find (\<lambda>w. n \<le> w) SUPPORTED_BITS \<noteq> None" using n by (auto simp: find_None_iff SUPPORTED_BITS_def)
    then obtain w where w: "find (\<lambda>w. n \<le> w) SUPPORTED_BITS = Some w" by auto
    then obtain i where i: "i < length SUPPORTED_BITS" "n \<le> w" "w = SUPPORTED_BITS ! i" "\<forall>j<i. \<not> n \<le> SUPPORTED_BITS ! j"
      by (auto simp: find_Some_iff)
    have "sorted SUPPORTED_BITS" by (simp add: SUPPORTED_BITS_def)
    then have "\<forall>b \<in> set SUPPORTED_BITS. n \<le> b \<longrightarrow> w \<le> b" using i by (metis in_set_conv_nth not_less sorted_nth_mono)
    then show thesis using that [OF w _ i(2)] i(1,3) by auto
  qed
  then have "w \<le> 64" using supported_bounds by blast
  then have u: "unat (unsigned_bits_required v) = w"
    using w(1) by (simp add: unsigned_bits_required_def n_def [symmetric] Let_def unsigned_of_nat take_bit_nat_eq_self)
  then show "is_supported_bits (unsigned_bits_required v)" using w(2) by (simp add: supported_iff)
  have "take_bit n v = v" using le_leading_zeros [of v] by (intro bit_word_eqI) (fastforce simp: n_def bit_simps)
  then show "v = take_bit (unat (unsigned_bits_required v)) v" using w(3) unfolding u by (metis take_bit_take_bit min.absorb_iff2)
  show "unat (unsigned_bits_required v) \<le> b" if b: "b \<in> set SUPPORTED_BITS" "v = take_bit b v"
  proof -
    have "n \<le> b"
    proof (cases "v = 0")
      case False
      have "bit (take_bit b v) (63 - leading_zeros v)" using bit_leading_zeros [OF False] b(2) by simp
      then show ?thesis using False by (simp add: n_def bit_take_bit_iff) linarith
    qed (use supported_bounds(1) [OF b(1)] in \<open>simp add: n_def\<close>)
    then show ?thesis using w(4) b(1) u by blast
  qed
qed

section \<open>The readers agree with the stream\<close>

lemma bytes_acc_eq: "bytes_acc bytes = from_le_bytes bytes"
proof -
  have "fold (\<lambda>(i, b) acc. acc OR push_bit (8 * i) (ucast b)) (List.enumerate n bytes) acc = acc OR push_bit (8 * n) (from_le_bytes bytes :: u64)" for n acc
    by (induction bytes arbitrary: n acc) (simp_all add: push_bit_or or.assoc add.commute)
  from this [of 0 0] show ?thesis by (simp add: bytes_acc_def)
qed

lemma direct_get_law:
  assumes w: "is_supported_bits w" and b: "b = unat w" and len: "8 * length bytes < 2 ^ 64"
    and pos: "pos = unat index * b mod 2 ^ 64"
  shows "direct_get bytes w index = (if pos + b \<le> 8 * length bytes then Inr (stream_bits bytes pos b) else Inl (Eof (pos div 8)))"
proof -
  have sup: "b \<in> set SUPPORTED_BITS" using w b by (simp add: supported_iff)
  have "unat (ucast w :: u64) = b" using unat_less_256 [of w] b by (simp add: unsigned_ucast_eq take_bit_nat_eq_self)
  then have p: "unat (index * ucast w) = pos" using pos by (simp add: unat_word_ariths)
  have byte: "unat (drop_bit 3 (index * ucast w)) = pos div 8" and shift: "unat (index * ucast w AND 7) = pos mod 8"
    by (simp_all only: byte_of_position shift_of_position p)
  have "pos mod 8 = unat index * b mod 8" by (simp add: pos mod_mod_cancel)
  then have fits: "pos mod 8 + b \<le> 64" using supported_fits [OF sup, of "unat index"] by simp
  define need where "need = (pos mod 8 + b + 7) div 8"
  have "8 * need \<le> pos mod 8 + b + 7" "pos mod 8 + b + 7 < 8 * need + 8" unfolding need_def by linarith+
  moreover have "pos = 8 * (pos div 8) + pos mod 8" by simp
  ultimately have need: "pos mod 8 + b \<le> 8 * need" "need \<le> 8" and need_len: "pos div 8 + need \<le> length bytes \<longleftrightarrow> pos + b \<le> 8 * length bytes"
    using fits by linarith+
  have msk: "(if w = 64 then - 1 else push_bit b 1 - 1 :: u64) = mask b"
    using mask_word [OF supported_bounds(2) [OF sup]] b by (simp add: word_unat_eq_iff)
  let ?acc = "case slice_get bytes (pos div 8) (pos div 8 + 8) of Some window \<Rightarrow> Some (from_le_bytes window)
      | None \<Rightarrow> map_option bytes_acc (slice_get bytes (pos div 8) (pos div 8 + need))"
  have get: "direct_get bytes w index = (if length bytes < pos div 8 then Inl (Eof (pos div 8))
      else case ?acc of None \<Rightarrow> Inl (Eof (pos div 8)) | Some acc \<Rightarrow> Inr (drop_bit (pos mod 8) acc AND mask b))"
    using w by (simp only: direct_get_def Let_def byte shift b [symmetric] need_def [symmetric] msk not_True_eq_False if_False)
  show ?thesis
  proof (cases "pos + b \<le> 8 * length bytes")
    case True
    define m where "m = (if pos div 8 + 8 \<le> length bytes then 8 else need)"
    have "\<not> length bytes < pos div 8" using True need_len by linarith
    moreover have "?acc = Some (from_le_bytes (take m (drop (pos div 8) bytes)))"
      using True need_len by (simp add: m_def slice_get_def bytes_acc_eq)
    moreover have "drop_bit (pos mod 8) (from_le_bytes (take m (drop (pos div 8) bytes)) :: u64) AND mask b = stream_bits bytes pos b"
      using window_value [of pos b m bytes] fits need(1) by (simp add: m_def)
    ultimately show ?thesis using True by (simp only: get if_False option.case if_True)
  next
    case False
    then have "?acc = None" using need need_len by (auto simp: slice_get_def split: option.split)
    then show ?thesis using False by (simp only: get option.case if_cancel if_False)
  qed
qed

text \<open>Below the wrap-around of the position, reading is reading the stream.\<close>

lemma direct_get_in_range:
  assumes "is_supported_bits w" and "8 * length bytes < 2 ^ 64" and "unat index * unat w < 2 ^ 64"
  shows "direct_get bytes w index =
    (if unat index * unat w + unat w \<le> 8 * length bytes then Inr (value_at bytes (unat w) (unat index)) else Inl (Eof (unat index * unat w div 8)))"
  using direct_get_law [OF assms(1) refl assms(2) refl, of index] assms(3) by (simp add: value_at_def)

lemma read_at_width_law:
  assumes B: "B \<in> set SUPPORTED_BITS" and r: "read_at_width B bytes index = Some v"
  shows "unat index * B < 2 ^ 64" "unat index * B + B \<le> 8 * length bytes" "v = value_at bytes B (unat index)"
proof -
  define pos where "pos = unat index * B"
  define n where "n = (if B \<in> {1, 2, 4, 8} then 1 else if B = 16 then 2 else if B = 32 then 4 else 8 :: nat)"
  have al: "pos mod 8 = 0" if "B \<in> {8, 16, 32, 64}" using that by (auto simp: pos_def)
  have fits: "pos mod 8 + B \<le> 64" using supported_fits [OF B] by (simp add: pos_def)
  have narrow: "pos mod 8 + B \<le> 8" if "B \<in> {1, 2, 4}"
  proof -
    have "i * 1 mod 8 + 1 \<le> 8" "i * 2 mod 8 + 2 \<le> 8" "i * 4 mod 8 + 4 \<le> 8" for i :: nat by presburger+
    then show ?thesis using that by (auto simp: pos_def)
  qed
  have fit: "pos mod 8 + B \<le> 8 * n" using fits narrow al by (auto simp: n_def)
  show p: "unat index * B < 2 ^ 64" using r by (auto simp: read_at_width_def split: if_splits)
  have val: "(if B = 8 then first_chunk 1 tail else if B = 16 then first_chunk 2 tail else if B = 32 then first_chunk 4 tail else if B = 64 then first_chunk 8 tail
      else if B \<in> {1, 2, 4} then map_option (drop_bit (pos mod 8)) (first_chunk 1 tail) else map_option (drop_bit (pos mod 8)) (first_chunk 8 tail)) =
      map_option (drop_bit (pos mod 8)) (first_chunk n tail)" for tail
    using al by (auto simp: n_def option.map_id)
  have "length bytes \<ge> pos div 8" using r by (auto simp: read_at_width_def pos_def Let_def split: if_splits)
  moreover have v: "map_option (\<lambda>v. v AND mask B) (map_option (drop_bit (pos mod 8)) (first_chunk n (drop (pos div 8) bytes))) = Some v"
    using r mask_shifted [OF supported_bounds(2) [OF B]] by (simp only: read_at_width_def pos_def [symmetric] Let_def val split: if_splits) simp_all
  ultimately have "pos div 8 + n \<le> length bytes" by (auto simp: first_chunk_def split: if_splits)
  then show "unat index * B + B \<le> 8 * length bytes" using fit div_mult_mod_eq [of pos 8] unfolding pos_def [symmetric] by linarith
  show "v = value_at bytes B (unat index)"
    using v window_value [OF fit fits, of bytes] by (auto simp: first_chunk_def value_at_def pos_def split: if_splits)
qed

lemma dr_get_law:
  assumes "is_supported_bits w" and "8 * length bytes < 2 ^ 64"
  shows "dr_get \<lparr>dr_slice = bytes, dr_bits_per_value = w\<rparr> index = direct_get bytes w index"
proof (cases "read_at_width (unat w) bytes index")
  case (Some v)
  then show ?thesis
    using assms read_at_width_law [OF _ Some] direct_get_in_range [OF assms] by (simp add: dr_get_def Let_def supported_iff)
qed (simp add: dr_get_def Let_def)

text \<open>Where a whole window is left, the checked reader succeeds.\<close>

lemma direct_get_fast:
  assumes "is_supported_bits w" and "8 * length bytes < 2 ^ 64" and "pl_new bytes (unat w) = Some p" and "j < pl_fast_limit p"
  shows "direct_get bytes w j = Inr (value_at bytes (unat w) (unat j))"
proof -
  have "unat j * unat w div 8 + 8 \<le> length bytes" using assms(4) pl_new_limit(4) [OF assms(3,2)] by (simp add: word_less_nat_alt)
  moreover have "unat j * unat w mod 8 + unat w \<le> 64" using supported_fits assms(1) by (simp add: supported_iff)
  moreover have "unat j * unat w = 8 * (unat j * unat w div 8) + unat j * unat w mod 8" by simp
  ultimately have "unat j * unat w + unat w \<le> 8 * length bytes" by linarith
  then show ?thesis using direct_get_in_range [OF assms(1,2), of j] assms(2) by simp
qed

lemma supported_packed: "is_supported_bits w \<Longrightarrow> \<exists>p. pl_new bytes (unat w) = Some p"
  using pl_new_some [of bytes "unat w"] supported_bounds [of "unat w"] by (fastforce simp: supported_iff)

lemma fw_get_law:
  assumes w: "is_supported_bits w" and len: "8 * length bytes < 2 ^ 64"
  shows "fw_get (fw_new (unat w) bytes) index = Inr (direct_get bytes w index)"
proof -
  obtain p where p: "pl_new bytes (unat w) = Some p" using supported_packed [OF w] by blast
  note pl = pl_new_limit [OF p len]
  have "fp_get (fp_new (unat w) bytes) index = Inr (if index < pl_fast_limit p then Some (value_at bytes (unat w) (unat index)) else None)"
    using fp_get_law [OF len] pl_get_law [OF pl(1)] p pl(2,3) by simp
  moreover note direct_get_fast [OF w len p, of index]
  ultimately show ?thesis by (simp add: fw_get_def fw_new_def)
qed

section \<open>What the writer wrote\<close>

text \<open>The stream written so far: the bytes out, then the bits still in the accumulator.\<close>

definition held :: "u8 list \<Rightarrow> u128 \<Rightarrow> nat \<Rightarrow> bool" where
  "held out acc k \<longleftrightarrow> (if k < 8 * length out then stream_bit out k else bit acc (k - 8 * length out))"

lemma stream_append: "stream_bit (xs @ ys) k \<longleftrightarrow> (if k < 8 * length xs then stream_bit xs k else stream_bit ys (k - 8 * length xs))"
proof (cases "k < 8 * length xs")
  case True
  then have "k div 8 < length xs" by (simp add: div_less_iff_less_mult)
  then show ?thesis using True by (simp add: stream_bit_def nth_append)
next
  case False
  then obtain j where "k = 8 * length xs + j" by (metis le_add_diff_inverse not_less)
  moreover have "(8 * length xs + j) div 8 = length xs + j div 8" "(8 * length xs + j) mod 8 = j mod 8" by simp_all
  ultimately show ?thesis by (simp add: stream_bit_def nth_append)
qed

lemma stream_le_bytes: "n \<le> 8 \<Longrightarrow> stream_bit (take n (to_le_bytes 8 (w :: u64))) k \<longleftrightarrow> k < 8 * n \<and> bit w k"
proof -
  assume n: "n \<le> 8"
  have "k div 8 < n \<longleftrightarrow> k < 8 * n" by (simp add: div_less_iff_less_mult mult.commute)
  moreover have "8 * (k div 8) + k mod 8 = k" by simp
  ultimately show ?thesis using n by (auto simp: stream_bit_def nth_to_le_bytes bit_simps min_def simp del: mult_div_mod_eq)
qed

lemma held_flush: "held (out @ to_le_bytes 8 (ucast acc :: u64)) (drop_bit 64 acc) k \<longleftrightarrow> held out acc k"
proof -
  define L where "L = 8 * length out"
  have str: "stream_bit (to_le_bytes 8 (ucast acc :: u64)) j \<longleftrightarrow> j < 64 \<and> bit acc j" for j
    using stream_le_bytes [of 8 "ucast acc" j] by (simp add: bit_unsigned_iff)
  consider "k < L" | "L \<le> k" "k < L + 64" | "L + 64 \<le> k" by linarith
  then show ?thesis
  proof cases
    case 1
    then show ?thesis by (simp add: held_def stream_append L_def)
  next
    case 2
    then have "k - L < 64" by linarith
    then show ?thesis using 2 str [of "k - L"] by (simp add: held_def stream_append L_def)
  next
    case 3
    then have "64 + (k - (L + 64)) = k - L" by linarith
    then show ?thesis using 3 by (simp add: held_def L_def bit_drop_bit_eq)
  qed
qed

lemma held_push:
  assumes "nbits < 64" and "b \<le> 64" and "take_bit nbits acc = acc"
  shows "held out (acc OR push_bit nbits (ucast (v AND mask b :: u64))) k \<longleftrightarrow>
    (if k < 8 * length out + nbits then held out acc k else k < 8 * length out + nbits + b \<and> bit v (k - (8 * length out + nbits)))"
proof -
  define L where "L = 8 * length out"
  have acc: "\<not> bit acc j" if "nbits \<le> j" for j using assms(3) that by (metis bit_take_bit_iff not_less)
  have "bit (push_bit nbits (ucast (v AND mask b) :: u128)) j \<longleftrightarrow> nbits \<le> j \<and> j - nbits < b \<and> bit v (j - nbits)" for j
    using assms(1,2) by (auto simp: bit_push_bit_iff bit_unsigned_iff bit_and_iff bit_mask_iff)
  then have "bit (acc OR push_bit nbits (ucast (v AND mask b))) (k - L) \<longleftrightarrow> (if k - L < nbits then bit acc (k - L) else k - L - nbits < b \<and> bit v (k - L - nbits))"
    using acc [of "k - L"] by (simp add: bit_or_iff not_less)
  moreover have "k - L < nbits \<longleftrightarrow> k < L + nbits" if "L \<le> k" using that by linarith
  moreover have "k - L - nbits < b \<longleftrightarrow> k < L + nbits + b" "k - L - nbits = k - (L + nbits)" if "L + nbits \<le> k" using that by linarith+
  ultimately show ?thesis by (simp add: held_def L_def [symmetric])
qed

lemma direct_encode_loop_law:
  assumes "0 < b" and "b \<le> 64" and "nbits < 64" and "take_bit nbits acc = acc" and "direct_encode_loop b (mask b) vs out acc nbits = (out', acc', nbits')"
  shows "nbits' < 64 \<and> take_bit nbits' acc' = acc' \<and> 8 * length out' + nbits' = 8 * length out + nbits + b * length vs \<and>
    (\<forall>k. held out' acc' k \<longleftrightarrow> (if k < 8 * length out + nbits then held out acc k
       else k - (8 * length out + nbits) < b * length vs \<and> bit (vs ! ((k - (8 * length out + nbits)) div b)) ((k - (8 * length out + nbits)) mod b)))"
  using assms(3-5)
proof (induction vs arbitrary: out acc nbits)
  case Nil
  have "\<not> bit acc j" if "nbits \<le> j" for j using Nil(2) that by (metis bit_take_bit_iff not_less)
  then show ?case using Nil by (auto simp: held_def)
next
  case (Cons v vs)
  define T where "T = 8 * length out + nbits"
  define acc1 where "acc1 = acc OR push_bit nbits (ucast (v AND mask b :: u64) :: u128)"
  define out2 where "out2 = (if 64 \<le> nbits + b then out @ to_le_bytes 8 (ucast acc1 :: u64) else out)"
  define acc2 where "acc2 = (if 64 \<le> nbits + b then drop_bit 64 acc1 else acc1)"
  define nbits2 where "nbits2 = (if 64 \<le> nbits + b then nbits + b - 64 else nbits + b)"
  have "direct_encode_loop b (mask b) (v # vs) out acc nbits = direct_encode_loop b (mask b) vs out2 acc2 nbits2"
    by (simp add: acc1_def out2_def acc2_def nbits2_def Let_def)
  then have run: "direct_encode_loop b (mask b) vs out2 acc2 nbits2 = (out', acc', nbits')" using Cons.prems(3) by simp
  have T2: "8 * length out2 + nbits2 = T + b" by (simp add: out2_def nbits2_def T_def)
  have n2: "nbits2 < 64" using Cons.prems(1) assms(2) unfolding nbits2_def by simp linarith
  have "j < nbits" if "bit acc j" for j using Cons.prems(2) that by (metis bit_take_bit_iff)
  then have "j < nbits + b" if "bit acc1 j" for j using that by (force simp: acc1_def bit_simps)
  then have a2: "take_bit nbits2 acc2 = acc2" by (intro bit_word_eqI) (force simp: acc2_def nbits2_def bit_simps)
  have held2: "held out2 acc2 k \<longleftrightarrow> (if k < T then held out acc k else k < T + b \<and> bit v (k - T))" for k
    using held_push [OF Cons.prems(1) assms(2) Cons.prems(2), of out v k] held_flush [of out acc1 k]
    by (simp add: out2_def acc2_def acc1_def T_def)
  have nth: "(v # vs) ! (j div b) = (if j < b then v else vs ! ((j - b) div b))" "j mod b = (if j < b then j else (j - b) mod b)" for j
    using assms(1) by (simp_all add: div_if [of j b] mod_if [of j b])
  have "8 * length out' + nbits' = T + b * length (v # vs)" using Cons.IH [OF n2 a2 run] T2 by simp
  moreover have "held out' acc' k \<longleftrightarrow> (if k < T then held out acc k else k - T < b * length (v # vs) \<and> bit ((v # vs) ! ((k - T) div b)) ((k - T) mod b))" for k
  proof -
    have "held out' acc' k \<longleftrightarrow> (if k < T + b then held out2 acc2 k else k - (T + b) < b * length vs \<and> bit (vs ! ((k - (T + b)) div b)) ((k - (T + b)) mod b))"
      using Cons.IH [OF n2 a2 run] T2 by simp
    then show ?thesis using held2 [of k] nth [of "k - T"] assms(1) by (auto simp: diff_diff_left)
  qed
  ultimately show ?case using Cons.IH [OF n2 a2 run] by (simp add: T_def)
qed

lemma direct_encode_law:
  assumes w: "0 < unat w" "unat w \<le> 64"
  shows "length (direct_encode vs w) = (unat w * length vs + 7) div 8"
    and "stream_bit (direct_encode vs w) k \<longleftrightarrow> k < unat w * length vs \<and> bit (vs ! (k div unat w)) (k mod unat w)"
proof -
  define b where "b = unat w"
  obtain out acc nbits where run: "direct_encode_loop b (mask b) vs [] 0 0 = (out, acc, nbits)" by (metis prod_cases3)
  have r: "nbits < 64" "take_bit nbits acc = acc" "8 * length out + nbits = b * length vs"
    "held out acc k \<longleftrightarrow> k < b * length vs \<and> bit (vs ! (k div b)) (k mod b)" for k
    using direct_encode_loop_law [OF w [folded b_def] _ _ run] by simp_all
  define n where "n = (nbits + 7) div 8"
  have n: "n \<le> 8" "nbits \<le> 8 * n" using r(1) by (simp_all add: n_def)
  have enc: "direct_encode vs w = out @ take n (to_le_bytes 8 (ucast acc :: u64))"
    using mask_word [OF w(2)] by (simp only: direct_encode_def Let_def min_absorb1 [OF w(2)] n_def) (simp only: b_def [symmetric] run prod.case)
  have "b * length vs + 7 = 8 * length out + (nbits + 7)" using r(3) by simp
  then have "(b * length vs + 7) div 8 = length out + n" by (simp add: n_def)
  then show "length (direct_encode vs w) = (unat w * length vs + 7) div 8" using n(1) by (simp add: enc b_def)
  have "stream_bit (take n (to_le_bytes 8 (ucast acc :: u64))) j \<longleftrightarrow> bit acc j" for j
  proof -
    have "bit acc j \<Longrightarrow> j < nbits" using r(2) by (metis bit_take_bit_iff)
    then show ?thesis using stream_le_bytes [OF n(1), of "ucast acc" j] n r(1) by (auto simp: bit_unsigned_iff)
  qed
  then show "stream_bit (direct_encode vs w) k \<longleftrightarrow> k < unat w * length vs \<and> bit (vs ! (k div unat w)) (k mod unat w)"
    using r(4) [of k] by (cases "k < 8 * length out") (simp_all add: enc stream_append held_def b_def)
qed

lemma direct_encode_value:
  assumes w: "0 < unat w" "unat w \<le> 64" and i: "i < length vs"
  shows "value_at (direct_encode vs w @ rest) (unat w) i = take_bit (unat w) (vs ! i)"
proof (rule bit_word_eqI)
  fix m assume m: "m < LENGTH(64)"
  define b where "b = unat w"
  have "i * b + b \<le> b * length vs" using i by (metis Suc_leI mult.commute mult_Suc add.commute mult_le_mono1)
  moreover have "b * length vs \<le> 8 * length (direct_encode vs w)" using direct_encode_law(1) [OF w, of vs] by (simp add: b_def)
  moreover have "(i * b + m) div b = i" "(i * b + m) mod b = m" if "m < b" using that by simp_all
  ultimately show "bit (value_at (direct_encode vs w @ rest) (unat w) i) m = bit (take_bit (unat w) (vs ! i)) m"
    using m direct_encode_law(2) [OF w, of vs "i * b + m"]
    by (auto simp: value_at_def bit_stream_bits stream_append bit_take_bit_iff b_def [symmetric])
qed

lemma direct_get_encoded:
  assumes w: "is_supported_bits w" and len: "8 * length (direct_encode vs w @ rest) < 2 ^ 64" and i: "i < length vs"
  shows "direct_get (direct_encode vs w @ rest) w (of_nat i) = Inr (take_bit (unat w) (vs ! i))"
proof -
  have sup: "unat w \<in> set SUPPORTED_BITS" using w by (simp add: supported_iff)
  note b = supported_bounds(1,2) [OF sup]
  have "unat w * i + unat w \<le> unat w * length vs" using i by (metis Suc_leI mult_Suc_right add.commute mult_le_mono2)
  then have room: "i * unat w + unat w \<le> 8 * length (direct_encode vs w)" using direct_encode_law(1) [OF b, of vs] by (simp add: mult.commute)
  then have "i * unat w < 2 ^ 64" using len b(1) by simp
  moreover have "i \<le> i * unat w" using b(1) by simp
  ultimately have "i < 2 ^ 64" by (rule le_less_trans [rotated])
  then have u: "unat (of_nat i :: u64) = i" by (simp add: unsigned_of_nat take_bit_nat_eq_self)
  show ?thesis
    using direct_get_in_range [OF w len, of "of_nat i"] room \<open>i * unat w < 2 ^ 64\<close> direct_encode_value [OF b i, of rest] by (simp add: u)
qed

section \<open>Properties\<close>

text \<open>
  C26: What \<open>direct_encode\<close> packs, \<open>get\<close> returns. For each supported width, an array of values that fit the width, followed by any
  bytes at all (the padding, the next block), is read back value by value, and the array takes the bytes it needs and no
  more. For every other index too the result is exact: the bit position is the product of index and width modulo
  \<open>2 ^ 64\<close>, and \<open>get\<close> of an unpadded array returns the bits there, or the end of the file exactly when they are not all
  inside the array. So an index outside the array whose product does not wrap is the end of the file, but one whose product wraps to the
  position of value \<open>k\<close> reads that value (index \<open>2 ^ 61\<close> at eight bits reads the first).
\<close>
theorem direct_round_trip:
  assumes "is_supported_bits w" and "\<forall>v \<in> set values. take_bit (unat w) v = v" and "8 * length (direct_encode values w @ rest) < 2 ^ 64"
  shows "(\<forall>i < length values. direct_get (direct_encode values w @ rest) w (of_nat i) = Inr (values ! i)) \<and>
    length (direct_encode values w) = (unat w * length values + 7) div 8 \<and>
    (\<forall>j. direct_get (direct_encode values w) w j =
       (let pos = unat j * unat w mod 2 ^ 64 in
        if pos + unat w \<le> 8 * length (direct_encode values w) then Inr (stream_bits (direct_encode values w) pos (unat w))
        else Inl (Eof (pos div 8)))) \<and>
    (\<forall>j. \<forall>k < length values. unat j * unat w mod 2 ^ 64 = k * unat w \<longrightarrow>
       direct_get (direct_encode values w @ rest) w j = Inr (values ! k))"
proof -
  have sup: "unat w \<in> set SUPPORTED_BITS" using assms(1) by (simp add: supported_iff)
  have "length (direct_encode values w) = (unat w * length values + 7) div 8"
    by (rule direct_encode_law(1) [OF supported_bounds(1,2) [OF sup]])
  moreover have get: "direct_get (direct_encode values w @ rest) w (of_nat i) = Inr (values ! i)" if "i < length values" for i
    using direct_get_encoded [OF assms(1,3) that] assms(2) that by simp
  moreover have "direct_get (direct_encode values w) w j =
      (let pos = unat j * unat w mod 2 ^ 64 in
       if pos + unat w \<le> 8 * length (direct_encode values w) then Inr (stream_bits (direct_encode values w) pos (unat w))
       else Inl (Eof (pos div 8)))" for j
    using direct_get_law [OF assms(1) refl _ refl, of "direct_encode values w" j] assms(3) by (simp add: Let_def)
  moreover have "direct_get (direct_encode values w @ rest) w j = Inr (values ! k)"
    if k: "k < length values" and wraps: "unat j * unat w mod 2 ^ 64 = k * unat w" for j k
  proof -
    have "unat (of_nat k :: u64) * unat w mod 2 ^ 64 = k * unat w mod 2 ^ 64" by (simp add: unsigned_of_nat take_bit_eq_mod mod_mult_left_eq)
    also have "\<dots> = unat j * unat w mod 2 ^ 64" using wraps by (metis mod_mod_trivial)
    finally show ?thesis using get [OF k] by (simp only: direct_get_law [OF assms(1) refl assms(3) refl])
  qed
  ultimately show ?thesis by blast
qed

theorem direct_round_trip_witness:
  "is_supported_bits 12 \<and> direct_encode [5, 4095, 7] 12 = [5, 0xF0, 0xFF, 7, 0] \<and>
    direct_get (direct_encode [5, 4095, 7] 12 @ [1]) 12 1 = Inr 4095 \<and> direct_get (direct_encode [5, 4095, 7] 12) 12 3 = Inl (Eof 4) \<and>
    direct_get (direct_encode [5, 4095, 7] 12 @ [1]) 12 0x4000000000000002 = Inr 7"
proof -
  have w: "is_supported_bits 12" by (simp add: supported_iff SUPPORTED_BITS_def)
  have fit: "\<forall>v \<in> set [5, 4095, 7 :: i64]. take_bit (unat (12 :: u8)) v = v" by (simp add: take_bit_eq_mod)
  have enc: "direct_encode [5, 4095, 7] 12 = [5, 0xF0, 0xFF, 7, 0]" by code_simp
  have len: "8 * length (direct_encode [5, 4095, 7] 12 @ [1]) < 2 ^ 64" by (simp add: enc)
  note r = direct_round_trip [OF w fit len]
  have "direct_get (direct_encode [5, 4095, 7] 12 @ [1]) 12 1 = Inr 4095" using r [THEN conjunct1, rule_format, of 1] by simp
  moreover have "direct_get (direct_encode [5, 4095, 7] 12) 12 3 = Inl (Eof 4)"
    using r [THEN conjunct2, THEN conjunct2, THEN conjunct1, rule_format, of 3] by (simp add: enc)
  moreover have "direct_get (direct_encode [5, 4095, 7] 12 @ [1]) 12 0x4000000000000002 = Inr 7"
    using r [THEN conjunct2, THEN conjunct2, THEN conjunct2, rule_format, of 2 "0x4000000000000002"] by simp
  ultimately show ?thesis using w enc by simp
qed

text \<open>
  C27: The fast readers answer what \<open>get\<close> answers, for every slice, every width and every index, also a negative or a
  wildly large one: \<open>DirectReader::get\<close>, with its loads by width, and the constant-width reader that \<open>with_width\<close> hands to its
  visitor return the same value or the same error, and no unchecked load of theirs leaves the slice. \<open>PackedLongs\<close>
  returns the same value exactly where a whole eight-byte window is left, and decoding a run fills the slots with
  the same values and stops exactly where reading them one by one would.
\<close>
theorem direct_readers_agree:
  assumes "8 * length bytes < 2 ^ 64"
  shows "(\<not> is_supported_bits w \<longrightarrow> dr_new bytes w = Inl (Corrupted (UnsupportedBits (unat w))) \<and> direct_get bytes w index = Inl (Corrupted (UnsupportedBits (unat w)))) \<and>
    (is_supported_bits w \<longrightarrow>
      (\<exists>r. dr_new bytes w = Inr r \<and> dr_get r index = direct_get bytes w index \<and> with_width r (\<lambda>f. fw_get f index) = Inr (direct_get bytes w index)) \<and>
      (\<exists>p. pl_new bytes (unat w) = Some p \<and>
        pl_get p index = Inr (if unat index * unat w div 8 + 8 \<le> length bytes then Some (projr (direct_get bytes w index)) else None) \<and>
        (\<exists>n \<le> length out. decode_range p index out = Inr (n, map (\<lambda>i. projr (direct_get bytes w (index + of_nat i))) [0..<n] @ drop n out) \<and>
           (n < length out \<longrightarrow> pl_get p (index + of_nat n) = Inr None))))"
proof (cases "is_supported_bits w")
  case True
  define b where "b = unat w"
  have sup: "b \<in> set SUPPORTED_BITS" using True by (simp add: supported_iff b_def)
  obtain p where p: "pl_new bytes b = Some p" using supported_packed [OF True] by (auto simp: b_def)
  note pl = pl_new_limit [OF p assms] and val = direct_get_fast [OF True assms p [unfolded b_def], folded b_def]
  have get: "pl_get p j = Inr (if unat j * b div 8 + 8 \<le> length bytes then Some (projr (direct_get bytes w j)) else None)" for j
    using pl_get_law [OF pl(1), of j] val [of j] pl(2-4) by (simp add: word_less_nat_alt)
  obtain n where n: "decode_range p index out = Inr (n, map (\<lambda>i. value_at bytes b (unat index + i)) [0..<n] @ drop n out)"
    "n = min (length out) (unat (pl_fast_limit p) - unat index)" using decode_range_law [OF pl(1), of index out] pl(2,3) by auto
  have plus: "unat (index + of_nat i) = unat index + i" if "unat index + i \<le> unat (pl_fast_limit p)" for i
    using that limit_small [of "pl_fast_limit p"] by (intro unat_plus_of_nat) linarith
  have maps: "map (\<lambda>i. value_at bytes b (unat index + i)) [0..<n] = map (\<lambda>i. projr (direct_get bytes w (index + of_nat i))) [0..<n]"
  proof (rule map_cong [OF refl])
    fix i assume "i \<in> set [0..<n]"
    then have "unat index + i < unat (pl_fast_limit p)" using n(2) by auto
    then show "value_at bytes b (unat index + i) = projr (direct_get bytes w (index + of_nat i))"
      using val [of "index + of_nat i"] plus [of i] by (simp add: word_less_nat_alt)
  qed
  have stop: "pl_get p (index + of_nat n) = Inr None" if "n < length out"
  proof -
    have "unat (index + of_nat n) = max (unat index) (unat (pl_fast_limit p))"
      using plus [of n] that n(2) by (cases "unat index \<le> unat (pl_fast_limit p)") (simp_all add: max_def min_def split: if_splits)
    then show ?thesis using pl_get_law [OF pl(1), of "index + of_nat n"] by (simp add: word_less_nat_alt)
  qed
  have "n \<le> length out" using n(2) by simp
  with n(1) maps stop have run: "\<exists>n \<le> length out. decode_range p index out = Inr (n, map (\<lambda>i. projr (direct_get bytes w (index + of_nat i))) [0..<n] @ drop n out) \<and>
      (n < length out \<longrightarrow> pl_get p (index + of_nat n) = Inr None)" by (intro exI [of _ n]) simp
  moreover have "\<exists>r. dr_new bytes w = Inr r \<and> dr_get r index = direct_get bytes w index \<and> with_width r (\<lambda>f. fw_get f index) = Inr (direct_get bytes w index)"
  proof -
    have "(if unat w \<in> {1, 2, 4, 8, 12, 16, 20, 24, 28, 32, 40, 48, 56} then unat w else 64) = unat w" using sup by (auto simp: SUPPORTED_BITS_def b_def)
    then have "with_width \<lparr>dr_slice = bytes, dr_bits_per_value = w\<rparr> (\<lambda>f. fw_get f index) = Inr (direct_get bytes w index)"
      using fw_get_law [OF True assms, of index] by (simp only: with_width_def Let_def direct_reader.simps)
    then show ?thesis using True dr_get_law [OF True assms, of index] by (simp add: dr_new_def)
  qed
  ultimately show ?thesis using True run p [unfolded b_def] get [of index, unfolded b_def] by simp
qed (simp add: dr_new_def direct_get_def)

theorem direct_readers_agree_witness:
  "\<exists>r p. dr_new [5, 0xF0, 0xFF, 7, 0, 0, 0, 0, 9] 12 = Inr r \<and> dr_get r 1 = Inr 4095 \<and> with_width r (\<lambda>f. fw_get f 1) = Inr (Inr 4095) \<and>
    dr_get r (- 1) = Inl (Eof 2305843009213693950) \<and>
    pl_new [5, 0xF0, 0xFF, 7, 0, 0, 0, 0, 9] 12 = Some p \<and> pl_get p 1 = Inr (Some 4095) \<and> decode_range p 0 [3, 3, 3] = Inr (2, [5, 4095, 3])"
proof -
  let ?B = "[5, 0xF0, 0xFF, 7, 0, 0, 0, 0, 9] :: u8 list"
  have w: "is_supported_bits 12" by (simp add: supported_iff SUPPORTED_BITS_def)
  have len: "8 * length ?B < 2 ^ 64" by simp
  have "direct_get ?B 12 1 = Inr 4095" by code_simp
  moreover have "direct_get ?B 12 (- 1) = Inl (Eof 2305843009213693950)"
    using direct_get_law [OF w refl len refl, of "- 1"] by (simp add: unsigned_minus_1_eq_mask mask_eq_exp_minus_1)
  ultimately have get: "direct_get ?B 12 1 = Inr 4095" "direct_get ?B 12 (- 1) = Inl (Eof 2305843009213693950)" .
  have run: "map_option (\<lambda>p. decode_range p 0 [3, 3, 3]) (pl_new ?B 12) = Some (Inr (2, [5, 4095, 3]))" by code_simp
  obtain r p where "dr_new ?B 12 = Inr r" "dr_get r 1 = Inr 4095" "with_width r (\<lambda>f. fw_get f 1) = Inr (Inr 4095)"
    "pl_new ?B 12 = Some p" "pl_get p 1 = Inr (Some 4095)"
    using direct_readers_agree [OF len, of 12 1 "[]"] w get(1) by auto
  moreover obtain r' where "dr_new ?B 12 = Inr r'" "dr_get r' (- 1) = Inl (Eof 2305843009213693950)"
    using direct_readers_agree [OF len, of 12 "- 1" "[]"] w get(2) by auto
  ultimately show ?thesis using run by auto
qed

end
