(* ===== verification/Float_Bits.thy ===== *)
theory Float_Bits
  imports Lucene_Prelude Complex_Main
begin

text \<open>
  The floating-point operations the monotonic sequences use. An \<open>f32\<close> or \<open>f64\<close> is its IEEE bit pattern, so that
  \<open>to_bits\<close> and \<open>from_bits\<close> are the identity; its value is a rational, an infinity or no number, and an operation
  rounds the exact result to the nearest representable one, ties to even. Casts to integers truncate and saturate.
\<close>

type_synonym f32 = "32 word"
type_synonym f64 = "64 word"

datatype fp = NotANumber | Infinite bool | Finite rat

definition pow2 :: "int \<Rightarrow> rat" where
  "pow2 e = (if 0 \<le> e then 2 ^ nat e else 1 / 2 ^ nat (- e))"

text \<open>A format has \<open>p\<close> significand bits, the hidden one included, and \<open>w\<close> exponent bits. \<open>ulp_min\<close> is the exponent of its
  smallest positive number.\<close>

definition ulp_min :: "nat \<Rightarrow> nat \<Rightarrow> int" where
  "ulp_min p w = 3 - 2 ^ (w - 1) - int p"

definition fp_value :: "nat \<Rightarrow> nat \<Rightarrow> int \<Rightarrow> fp" where
  "fp_value p w bits =
     (let frac = bits mod 2 ^ (p - 1);
          ex = bits div 2 ^ (p - 1) mod 2 ^ w;
          neg = odd (bits div 2 ^ (p - 1 + w)) in
      if ex = 2 ^ w - 1 then (if frac = 0 then Infinite neg else NotANumber)
      else
        let m = (if ex = 0 then of_int frac * pow2 (ulp_min p w) else of_int (2 ^ (p - 1) + frac) * pow2 (ulp_min p w + ex - 1))
        in Finite (if neg then - m else m))"

function bit_length :: "int \<Rightarrow> int" where
  "bit_length n = (if n \<le> 0 then 0 else 1 + bit_length (n div 2))"
  by pat_completeness auto
termination by (relation "measure nat") auto

declare bit_length.simps [simp del]

text \<open>The exponent of a positive rational: \<open>pow2 e \<le> q < pow2 (e + 1)\<close>.\<close>

definition exponent_of :: "rat \<Rightarrow> int" where
  "exponent_of q =
     (let (a, b) = quotient_of q; e = bit_length a - bit_length b in if pow2 e \<le> q then e else e - 1)"

definition round_half_even :: "rat \<Rightarrow> int" where
  "round_half_even q =
     (let f = \<lfloor>q\<rfloor>; r = q - of_int f in if r < 1 / 2 \<or> (r = 1 / 2 \<and> even f) then f else f + 1)"

text \<open>The bit pattern of the representable number nearest to \<open>q\<close>; \<open>neg\<close> is the sign of a zero. A significand that
  rounds up to the next power of two carries into the exponent field, and past the largest exponent to infinity.\<close>

definition fp_round :: "nat \<Rightarrow> nat \<Rightarrow> bool \<Rightarrow> rat \<Rightarrow> int" where
  "fp_round p w neg q =
     (if q = 0 then (if neg then 2 ^ (p - 1 + w) else 0)
      else
        let e = max (exponent_of \<bar>q\<bar> - (int p - 1)) (ulp_min p w);
            m = round_half_even (\<bar>q\<bar> / pow2 e);
            bits = if m < 2 ^ (p - 1) then m else (e - ulp_min p w + 1) * 2 ^ (p - 1) + (m - 2 ^ (p - 1))
        in (if q < 0 then 2 ^ (p - 1 + w) else 0) + min bits ((2 ^ w - 1) * 2 ^ (p - 1)))"

definition fp_nan :: "nat \<Rightarrow> nat \<Rightarrow> int" where
  "fp_nan p w = (2 ^ w - 1) * 2 ^ (p - 1) + 2 ^ (p - 2)"

definition fp_inf :: "nat \<Rightarrow> nat \<Rightarrow> bool \<Rightarrow> int" where
  "fp_inf p w neg = (if neg then 2 ^ (p - 1 + w) else 0) + (2 ^ w - 1) * 2 ^ (p - 1)"

text \<open>\<open>i as f32\<close>, \<open>i as f64\<close>.\<close>

definition f32_of_int :: "int \<Rightarrow> f32" where
  "f32_of_int i = of_int (fp_round 24 8 False (of_int i))"

definition f64_of_int :: "int \<Rightarrow> f64" where
  "f64_of_int i = of_int (fp_round 53 11 False (of_int i))"

definition f32_mul :: "f32 \<Rightarrow> f32 \<Rightarrow> f32" where
  "f32_mul a b =
     (let neg = (bit a 31 \<noteq> bit b 31) in
      of_int (case (fp_value 24 8 (uint a), fp_value 24 8 (uint b)) of
          (Finite x, Finite y) \<Rightarrow> fp_round 24 8 neg (x * y)
        | (Infinite _, Finite y) \<Rightarrow> if y = 0 then fp_nan 24 8 else fp_inf 24 8 neg
        | (Finite x, Infinite _) \<Rightarrow> if x = 0 then fp_nan 24 8 else fp_inf 24 8 neg
        | (Infinite _, Infinite _) \<Rightarrow> fp_inf 24 8 neg
        | _ \<Rightarrow> fp_nan 24 8))"

definition f64_div :: "f64 \<Rightarrow> f64 \<Rightarrow> f64" where
  "f64_div a b =
     (let neg = (bit a 63 \<noteq> bit b 63) in
      of_int (case (fp_value 53 11 (uint a), fp_value 53 11 (uint b)) of
          (Finite x, Finite y) \<Rightarrow>
            if y = 0 then (if x = 0 then fp_nan 53 11 else fp_inf 53 11 neg) else fp_round 53 11 neg (x / y)
        | (Infinite _, Finite y) \<Rightarrow> fp_inf 53 11 neg
        | (Finite x, Infinite _) \<Rightarrow> fp_round 53 11 neg 0
        | _ \<Rightarrow> fp_nan 53 11))"

text \<open>\<open>x as f32\<close> of an \<open>f64\<close>, and \<open>x as i64\<close> of an \<open>f32\<close>.\<close>

definition f32_of_f64 :: "f64 \<Rightarrow> f32" where
  "f32_of_f64 a =
     of_int (case fp_value 53 11 (uint a) of
         Finite x \<Rightarrow> fp_round 24 8 (bit a 63) x | Infinite neg \<Rightarrow> fp_inf 24 8 neg | NotANumber \<Rightarrow> fp_nan 24 8)"

definition i64_of_f32 :: "f32 \<Rightarrow> i64" where
  "i64_of_f32 a =
     of_int (case fp_value 24 8 (uint a) of
         Finite x \<Rightarrow> max (- (2 ^ 63)) (min (2 ^ 63 - 1) (if x < 0 then \<lceil>x\<rceil> else \<lfloor>x\<rfloor>))
       | Infinite neg \<Rightarrow> if neg then - (2 ^ 63) else 2 ^ 63 - 1
       | NotANumber \<Rightarrow> 0)"

text \<open>Some values: a product, a tie that rounds down and one that rounds up to even, a quotient, a truncation, an overflow.\<close>

lemma float_examples: "f32_mul 0x3FC00000 0x40000000 = 0x40400000" "f32_of_int 16777217 = 0x4B800000" "f32_of_int 16777219 = 0x4B800002"
  "f64_div (f64_of_int 1) (f64_of_int 3) = 0x3FD5555555555555" "i64_of_f32 0xC2F6E979 = - 123" "f32_mul 0x7F7FFFFF 0x40000000 = 0x7F800000"
  by code_simp+

end
