(* ===== verification/Direct_Monotonic.thy ===== *)
theory Direct_Monotonic
  imports Direct_Reader Float_Bits Framed_Files
begin

text \<open>
  \<open>lucene-codecs/src/direct_monotonic.rs\<close>: sequences of \<open>i64\<close> (in the index, non-decreasing offsets and document
  numbers) stored in blocks. A block keeps a minimum and an average slope, and packs the distance of each value from
  the line they describe. The slope is an \<open>f32\<close>; writer and reader compute the same estimate from it, and all sums wrap.
  The two assertions of the writer, on the block size and on the order of each block, are panics of the model.
\<close>

section \<open>Metadata\<close>

record block =
  bl_min :: i64
  bl_offset :: i64
  bl_avg :: f32
  bl_bpv :: u8

definition MIN_BLOCK_SHIFT :: nat where "MIN_BLOCK_SHIFT = 2"

definition MAX_BLOCK_SHIFT :: nat where "MAX_BLOCK_SHIFT = 22"

record monotonic_meta =
  block_shift :: nat
  meta_blocks :: "block list"

definition read_block :: "(slice_input, block) stateful" where
  "read_block =
     bnd slice_read_i64 (\<lambda>mn.
     bnd slice_read_i32 (\<lambda>avg.
     bnd slice_read_i64 (\<lambda>offset.
     bnd slice_read_byte (\<lambda>bpv.
       if bpv \<noteq> 0 \<and> \<not> is_supported_bits bpv then fail (Corrupted (MonotonicBlockBits (unat bpv)))
       else ret \<lparr>bl_min = mn, bl_offset = offset, bl_avg = avg, bl_bpv = bpv\<rparr>))))"

definition num_blocks :: "int \<Rightarrow> nat \<Rightarrow> nat" where
  "num_blocks num_values shift =
     (let n = num_values div 2 ^ shift in nat (if n * 2 ^ shift < num_values then n + 1 else n))"

definition load_meta :: "i64 \<Rightarrow> nat \<Rightarrow> (slice_input, monotonic_meta) stateful" where
  "load_meta num_values shift =
     (if MAX_BLOCK_SHIFT < shift then fail (Corrupted (MonotonicBlockShift shift))
      else if sint num_values < 0 then fail (Corrupted (MonotonicNumValues (sint num_values)))
      else bnd (read_many read_block (num_blocks (sint num_values) shift)) (\<lambda>bs. ret \<lparr>block_shift = shift, meta_blocks = bs\<rparr>))"

section \<open>Reading\<close>

text \<open>\<open>slice.get(i)\<close> and \<open>slice.get(i..)\<close>.\<close>

definition nth_get :: "'a list \<Rightarrow> nat \<Rightarrow> 'a option" where
  "nth_get xs i = (if i < length xs then Some (xs ! i) else None)"

definition tail_get :: "'a list \<Rightarrow> nat \<Rightarrow> 'a list option" where
  "tail_get xs i = (if i \<le> length xs then Some (drop i xs) else None)"

text \<open>\<open>usize::try_from(i)\<close> of an \<open>i64\<close>.\<close>

definition try_usize :: "i64 \<Rightarrow> nat option" where
  "try_usize i = (if sint i < 0 then None else Some (unat i))"

text \<open>\<open>min + ((avg * i as f32) as i64) + delta\<close>.\<close>

definition block_value :: "block \<Rightarrow> i64 \<Rightarrow> i64 \<Rightarrow> i64" where
  "block_value b i delta = bl_min b + i64_of_f32 (f32_mul (bl_avg b) (f32_of_int (sint i))) + delta"

definition fast_packed_get :: "u8 list \<Rightarrow> i64 \<Rightarrow> u8 \<Rightarrow> i64 \<Rightarrow> i64 option" where
  "fast_packed_get data offset bpv index =
     (if \<not> is_supported_bits bpv then None
      else
        case (try_usize offset, try_usize index) of
          (Some off, Some i) \<Rightarrow>
            let pos = i * unat bpv; at_byte = off + pos div 8 in
            if 2 ^ 64 \<le> pos \<or> usize_max < at_byte + 8 then None
            else
              map_option (\<lambda>window. drop_bit (pos mod 8) (from_le_bytes window) AND drop_bit (64 - unat bpv) (- 1))
                (slice_get data at_byte (at_byte + 8))
        | _ \<Rightarrow> None)"

definition mono_get :: "u8 list \<Rightarrow> monotonic_meta \<Rightarrow> i64 \<Rightarrow> error + i64" where
  "mono_get data meta index =
     (let block_index = index AND (push_bit (block_shift meta) 1 - 1) in
      case nth_get (meta_blocks meta) (unat (signed_drop_bit (block_shift meta) index)) of
        None \<Rightarrow> Inl (Eof 0)
      | Some b \<Rightarrow>
          map_sum id (block_value b block_index)
            (if bl_bpv b = 0 then Inr 0
             else
               case fast_packed_get data (bl_offset b) (bl_bpv b) block_index of
                 Some v \<Rightarrow> Inr v
               | None \<Rightarrow>
                   (case tail_get data (unat (bl_offset b)) of
                      None \<Rightarrow> Inl (Eof 0)
                    | Some tail \<Rightarrow> direct_get tail (bl_bpv b) block_index)))"

section \<open>The resolved reader\<close>

record resolved_block =
  rb_block :: block
  rb_zero :: bool
  rb_packed :: "packed_longs option"

record mono_reader =
  mr_data :: "u8 list"
  mr_meta :: monotonic_meta
  mr_blocks :: "resolved_block list"

definition packed_tail :: "u8 list \<Rightarrow> block \<Rightarrow> packed_longs option" where
  "packed_tail data b =
     (case try_usize (bl_offset b) of
        None \<Rightarrow> None
      | Some off \<Rightarrow> (case tail_get data off of None \<Rightarrow> None | Some tail \<Rightarrow> pl_new tail (unat (bl_bpv b))))"

definition mr_new :: "u8 list \<Rightarrow> monotonic_meta \<Rightarrow> mono_reader" where
  "mr_new data meta =
     \<lparr>mr_data = data, mr_meta = meta,
      mr_blocks = map (\<lambda>b. \<lparr>rb_block = b, rb_zero = (bl_bpv b = 0), rb_packed = packed_tail data b\<rparr>) (meta_blocks meta)\<rparr>"

definition mr_get :: "mono_reader \<Rightarrow> i64 \<Rightarrow> (error + i64) panics" where
  "mr_get r index =
     (let shift = block_shift (mr_meta r) in
      case (case try_usize (signed_drop_bit shift index) of None \<Rightarrow> None | Some k \<Rightarrow> nth_get (mr_blocks r) k) of
        None \<Rightarrow> Inr (mono_get (mr_data r) (mr_meta r) index)
      | Some b \<Rightarrow>
          let block_index = index AND (push_bit shift 1 - 1) in
          if rb_zero b then Inr (Inr (block_value (rb_block b) block_index 0))
          else
            and_then (case rb_packed b of None \<Rightarrow> Inr None | Some p \<Rightarrow> pl_get p block_index) (\<lambda>v.
              case v of
                Some v \<Rightarrow> Inr (Inr (block_value (rb_block b) block_index v))
              | None \<Rightarrow> Inr (mono_get (mr_data r) (mr_meta r) index)))"

section \<open>Reading a run\<close>

text \<open>The slots that the packed reader did not reach, one by one; the first error leaves the later slots alone.\<close>

fun fill_rest :: "(nat \<Rightarrow> error + i64) \<Rightarrow> nat list \<Rightarrow> i64 list \<Rightarrow> (error + unit) \<times> i64 list" where
  "fill_rest f [] run = (Inr (), run)"
| "fill_rest f (k # ks) run =
     (case f k of Inl e \<Rightarrow> (Inl e, run) | Inr v \<Rightarrow> fill_rest f ks (run[k := v]))"

definition fill_run :: "u8 list \<Rightarrow> block \<Rightarrow> i64 \<Rightarrow> i64 list \<Rightarrow> ((error + unit) \<times> i64 list) panics" where
  "fill_run data b block_index run =
     and_then
       (if bl_bpv b = 0 then Inr (length run, replicate (length run) 0)
        else if is_supported_bits (bl_bpv b) then
          (case packed_tail data b of None \<Rightarrow> Inr (0, run) | Some p \<Rightarrow> decode_range p block_index run)
        else Inr (0, run)) (\<lambda>(decoded, run).
     case fill_rest (\<lambda>k.
            case (case try_usize (bl_offset b) of None \<Rightarrow> None | Some off \<Rightarrow> tail_get data off) of
              None \<Rightarrow> Inl (Eof 0)
            | Some tail \<Rightarrow> direct_get tail (bl_bpv b) (block_index + of_nat k)) [decoded..<length run] run of
       (Inl e, run) \<Rightarrow> Inr (Inl e, run)
     | (Inr _, run) \<Rightarrow>
         Inr (Inr (), map (\<lambda>(k, v). block_value b (block_index + of_nat k) v) (List.enumerate 0 run)))"

text \<open>The loop over the blocks: \<open>i\<close> slots are done, \<open>out\<close> are the slots still to fill.\<close>

function fill_loop :: "u8 list \<Rightarrow> monotonic_meta \<Rightarrow> i64 \<Rightarrow> nat \<Rightarrow> i64 list \<Rightarrow> ((error + unit) \<times> i64 list) panics" where
  "fill_loop data meta from i out =
     (if out = [] then Inr (Inr (), [])
      else if 2 ^ 63 \<le> sint from + int i \<or> sint from + int i < 0 then Inr (Inl (Eof 0), out)
      else
        let index = of_int (sint from + int i) in
        case nth_get (meta_blocks meta) (unat (signed_drop_bit (block_shift meta) index)) of
          None \<Rightarrow> Inr (Inl (Eof 0), out)
        | Some b \<Rightarrow>
            let msk = push_bit (block_shift meta) 1 - 1;
                block_index = index AND msk;
                in_block = unat msk - unat block_index + 1;
                n = min (length out) in_block in
            and_then (fill_run data b block_index (take n out)) (\<lambda>(r, run).
              case r of
                Inl e \<Rightarrow> Inr (Inl e, run @ drop n out)
              | Inr _ \<Rightarrow> and_then (fill_loop data meta from (i + n) (drop n out)) (\<lambda>(r, rest). Inr (r, run @ rest))))"
  by pat_completeness auto
termination by (relation "measure (\<lambda>(data, meta, from, i, out). length out)") auto

declare fill_loop.simps [simp del]

definition mono_fill :: "u8 list \<Rightarrow> monotonic_meta \<Rightarrow> i64 \<Rightarrow> i64 list \<Rightarrow> ((error + unit) \<times> i64 list) panics" where
  "mono_fill data meta from out = fill_loop data meta from 0 out"

section \<open>Searching\<close>

text \<open>All numbers stay between \<open>- 1\<close> and \<open>i64::MAX\<close>.\<close>

function floor_loop :: "u8 list \<Rightarrow> monotonic_meta \<Rightarrow> i64 \<Rightarrow> int \<Rightarrow> int \<Rightarrow> int \<Rightarrow> error + int" where
  "floor_loop data meta key lo hi best =
     (if hi < lo then Inr best
      else
        let mid = lo + (hi - lo) div 2 in
        case mono_get data meta (of_int mid) of
          Inl e \<Rightarrow> Inl e
        | Inr v \<Rightarrow> if sint v \<le> sint key then floor_loop data meta key (mid + 1) hi mid else floor_loop data meta key lo (mid - 1) best)"
  by pat_completeness auto
termination by (relation "measure (\<lambda>(data, meta, key, lo, hi, best). nat (hi + 1 - lo))") auto

declare floor_loop.simps [simp del]

definition floor_index :: "u8 list \<Rightarrow> monotonic_meta \<Rightarrow> i64 \<Rightarrow> i64 \<Rightarrow> i64 \<Rightarrow> error + i64" where
  "floor_index data meta from to key =
     (if sint from < 0 then Inl (Corrupted (MonotonicLowerBound (sint from)))
      else if sint to \<le> sint from then Inr from
      else map_sum id of_int (floor_loop data meta key (sint from) (sint to - 1) (sint from)))"

section \<open>Writing\<close>

text \<open>\<open>chunks(n)\<close>.\<close>

function value_chunks :: "nat \<Rightarrow> 'a list \<Rightarrow> 'a list list" where
  "value_chunks n xs = (if xs = [] \<or> n = 0 then [] else take n xs # value_chunks n (drop n xs))"
  by pat_completeness auto
termination by (relation "measure (\<lambda>(n, xs). length xs)") auto

declare value_chunks.simps [simp del]

definition avg_inc :: "i64 list \<Rightarrow> f32" where
  "avg_inc chunk =
     f32_of_f64 (if length chunk \<le> 1 then 0
       else f64_div (f64_of_int (sint (chunk ! (length chunk - 1) - chunk ! 0))) (f64_of_int (int (length chunk - 1))))"

text \<open>\<open>deltas.iter().min()\<close> of signed numbers.\<close>

definition signed_min :: "i64 list \<Rightarrow> i64" where
  "signed_min ds = fold (\<lambda>d m. if sint d < sint m then d else m) (tl ds) (hd ds)"

definition from_line :: "f32 \<Rightarrow> i64 list \<Rightarrow> i64 list" where
  "from_line avg chunk = map (\<lambda>(i, v). v - i64_of_f32 (f32_mul avg (f32_of_int (int i)))) (List.enumerate 0 chunk)"

text \<open>\<open>chunk.windows(2).all(|w| w[0] <= w[1])\<close>, the assertion of the writer on every block.\<close>

definition non_decreasing :: "i64 list \<Rightarrow> bool" where
  "non_decreasing chunk \<longleftrightarrow> list_all (\<lambda>(x, y). sint x \<le> sint y) (zip chunk (tl chunk))"

text \<open>One block: its metadata goes to the first buffer, its packed deltas to the second.\<close>

definition write_block :: "i64 list \<Rightarrow> u8 list \<times> u8 list \<Rightarrow> (u8 list \<times> u8 list) panics" where
  "write_block chunk = (\<lambda>(meta, data). assert_that (non_decreasing chunk) (Inr (
     let avg = avg_inc chunk;
         deltas = from_line avg chunk;
         mn = signed_min deltas;
         deltas = map (\<lambda>d. d - mn) deltas;
         max_delta = fold (\<lambda>d acc. acc OR d) deltas 0;
         meta = write_i64 bytes_impl meta mn;
         meta = write_i32 bytes_impl meta avg;
         meta = write_i64 bytes_impl meta (of_nat (length data)) in
     if max_delta = 0 then (meta @ [0], data)
     else
       let bits_per_value = unsigned_bits_required max_delta
       in (meta @ [bits_per_value], data @ direct_encode deltas bits_per_value @ replicate (padding_bytes_needed bits_per_value) 0))))"

definition mono_write :: "i64 list \<Rightarrow> nat \<Rightarrow> (u8 list \<times> u8 list) panics" where
  "mono_write values shift =
     assert_that (MIN_BLOCK_SHIFT \<le> shift \<and> shift \<le> MAX_BLOCK_SHIFT)
       (each write_block (value_chunks (2 ^ shift) values) ([], []))"

section \<open>What a block holds\<close>

text \<open>The packed value of a block, read the checked way.\<close>

definition delta_at :: "u8 list \<Rightarrow> block \<Rightarrow> i64 \<Rightarrow> error + i64" where
  "delta_at data b j =
     (if bl_bpv b = 0 then Inr 0
      else case tail_get data (unat (bl_offset b)) of None \<Rightarrow> Inl (Eof 0) | Some tail \<Rightarrow> direct_get tail (bl_bpv b) j)"

definition block_ok :: "block \<Rightarrow> bool" where
  "block_ok b \<longleftrightarrow> bl_bpv b = 0 \<or> is_supported_bits (bl_bpv b)"

lemma fast_packed_law:
  assumes len: "8 * length data < 2 ^ 64" and f: "fast_packed_get data offset bpv index = Some v"
  shows "\<exists>tail. tail_get data (unat offset) = Some tail \<and> direct_get tail bpv index = Inr v"
proof -
  define b where "b = unat bpv"
  define pos where "pos = unat index * b"
  define tail where "tail = drop (unat offset) data"
  have w: "is_supported_bits bpv" using f by (auto simp: fast_packed_get_def split: if_splits)
  then have sup: "b \<in> set SUPPORTED_BITS" by (simp add: supported_iff b_def)
  note bb = supported_bounds [OF sup]
  have p: "pos < 2 ^ 64" and win: "slice_get data (unat offset + pos div 8) (unat offset + pos div 8 + 8) \<noteq> None"
    and v: "v = drop_bit (pos mod 8) (from_le_bytes (take 8 (drop (unat offset + pos div 8) data))) AND drop_bit (64 - b) (- 1)"
    using f w by (auto simp: fast_packed_get_def try_usize_def Let_def pos_def b_def slice_get_def split: if_splits)
  have at_end: "unat offset + pos div 8 + 8 \<le> length data" using win by (simp add: slice_get_def split: if_splits)
  then have fits: "pos mod 8 + b \<le> 64" and room: "pos div 8 + 8 \<le> length tail" using supported_fits [OF sup, of "unat index"] by (simp_all add: pos_def tail_def)
  have "v = value_at tail b (unat index)"
    using v window_value [of pos b 8 tail] fits mask_shifted [OF bb(2)] bb(1) by (simp add: value_at_def pos_def tail_def add.commute)
  moreover have "pos + b \<le> 8 * length tail" using fits room div_mult_mod_eq [of pos 8] by linarith
  ultimately have "direct_get tail bpv index = Inr v"
    using direct_get_in_range [OF w, of tail index] len p by (simp add: b_def [symmetric] pos_def [symmetric] tail_def)
  then show ?thesis using at_end by (simp add: tail_get_def tail_def)
qed

lemma mono_get_law:
  assumes "8 * length data < 2 ^ 64"
  shows "mono_get data meta index =
    (case nth_get (meta_blocks meta) (unat (signed_drop_bit (block_shift meta) index)) of
       None \<Rightarrow> Inl (Eof 0)
     | Some b \<Rightarrow> let i = index AND (push_bit (block_shift meta) 1 - 1) in map_sum id (block_value b i) (delta_at data b i))"
proof -
  have "(if bl_bpv b = 0 then Inr 0 else case fast_packed_get data (bl_offset b) (bl_bpv b) i of Some v \<Rightarrow> Inr v
      | None \<Rightarrow> (case tail_get data (unat (bl_offset b)) of None \<Rightarrow> Inl (Eof 0) | Some tail \<Rightarrow> direct_get tail (bl_bpv b) i)) = delta_at data b i" for b i
    using fast_packed_law [OF assms, of "bl_offset b" "bl_bpv b" i] by (auto simp: delta_at_def split: option.split)
  then show ?thesis by (simp add: mono_get_def Let_def split: option.split)
qed

text \<open>The packed reader of a block agrees as far as it reaches.\<close>

lemma packed_tail_law:
  assumes len: "8 * length data < 2 ^ 64" and b: "is_supported_bits (bl_bpv b)" "bl_bpv b \<noteq> 0" and p: "packed_tail data b = Some p"
  shows "pl_ok p" "j < pl_fast_limit p \<Longrightarrow> delta_at data b j = Inr (value_at (pl_bytes p) (pl_bits p) (unat j))"
proof -
  obtain tail where t: "tail_get data (unat (bl_offset b)) = Some tail" "pl_new tail (unat (bl_bpv b)) = Some p"
    using p by (auto simp: packed_tail_def try_usize_def split: option.splits if_splits)
  then have l: "8 * length tail < 2 ^ 64" using len by (auto simp: tail_get_def split: if_splits)
  note pl = pl_new_limit [OF t(2) l]
  show "pl_ok p" by (rule pl(1))
  show "delta_at data b j = Inr (value_at (pl_bytes p) (pl_bits p) (unat j))" if "j < pl_fast_limit p"
    using direct_get_fast [OF b(1) l t(2) that] t(1) b(2) pl(2,3) by (simp add: delta_at_def)
qed

lemma tail_of_offset:
  assumes "8 * length data < 2 ^ 64"
  shows "(case try_usize offset of None \<Rightarrow> None | Some off \<Rightarrow> tail_get data off) = tail_get data (unat offset)"
proof (cases "sint offset < 0")
  case True
  have "\<not> unat offset < 2 ^ 63"
  proof
    assume "unat offset < 2 ^ 63"
    then have "sint offset = int (unat offset)" using sint_eq_unat [of offset] by simp
    then show False using True by simp
  qed
  then have "length data < unat offset" using assms by simp
  then show ?thesis using True by (simp add: try_usize_def tail_get_def)
qed (simp add: try_usize_def)

lemma mr_get_law:
  assumes len: "8 * length data < 2 ^ 64" and ok: "list_all block_ok (meta_blocks meta)"
  shows "mr_get (mr_new data meta) index = Inr (mono_get data meta index)"
proof (cases "try_usize (signed_drop_bit (block_shift meta) index)")
  case None
  then show ?thesis by (simp add: mr_get_def mr_new_def Let_def)
next
  case (Some k)
  then have k: "k = unat (signed_drop_bit (block_shift meta) index)" by (simp add: try_usize_def split: if_splits)
  show ?thesis
  proof (cases "k < length (meta_blocks meta)")
    case False
    then show ?thesis using Some by (simp add: mr_get_def mr_new_def Let_def nth_get_def)
  next
    case True
    define b where "b = meta_blocks meta ! k"
    define i where "i = index AND (push_bit (block_shift meta) 1 - 1)"
    have bok: "block_ok b" using ok True by (simp add: b_def list_all_length)
    have mono: "mono_get data meta index = map_sum id (block_value b i) (delta_at data b i)"
      using mono_get_law [OF len, of meta index] True k by (simp add: nth_get_def b_def i_def Let_def)
    have step: "mr_get (mr_new data meta) index = (if bl_bpv b = 0 then Inr (Inr (block_value b i 0))
        else and_then (case packed_tail data b of None \<Rightarrow> Inr None | Some p \<Rightarrow> pl_get p i) (\<lambda>v.
          case v of Some v \<Rightarrow> Inr (Inr (block_value b i v)) | None \<Rightarrow> Inr (mono_get data meta index)))"
      using Some True unfolding b_def i_def by (simp add: mr_get_def mr_new_def Let_def nth_get_def del: push_bit_of_1)
    show ?thesis
    proof (cases "packed_tail data b")
      case None
      then show ?thesis using step mono by (simp add: delta_at_def)
    next
      case (Some p)
      show ?thesis
      proof (cases "bl_bpv b = 0")
        case True
        then show ?thesis using step mono by (simp add: delta_at_def)
      next
        case False
        then have "is_supported_bits (bl_bpv b)" using bok by (simp add: block_ok_def)
        from packed_tail_law [OF len this False Some] pl_get_law [of p i] show ?thesis using step mono False Some by simp
      qed
    qed
  qed
qed

section \<open>Filling a run is reading each index\<close>

text \<open>What filling \<open>n\<close> slots from \<open>f\<close> owes its caller: every slot, or the first error.\<close>

definition outcome :: "(nat \<Rightarrow> error + i64) \<Rightarrow> nat \<Rightarrow> (error + unit) \<times> i64 list \<Rightarrow> bool" where
  "outcome f n = (\<lambda>(r, out). length out = n \<and>
     (case r of Inr _ \<Rightarrow> \<forall>k<n. f k = Inr (out ! k) | Inl e \<Rightarrow> \<exists>k<n. f k = Inl e \<and> (\<forall>j<k. \<exists>v. f j = Inr v)))"

lemma fill_rest_outcome:
  assumes "\<forall>j<d. f j = Inr (run ! j)" and "d \<le> length run"
  shows "outcome f (length run) (fill_rest f [d..<length run] run)"
  using assms
proof (induction "length run - d" arbitrary: d run)
  case 0
  then show ?case by (simp add: outcome_def)
next
  case (Suc m)
  then have d: "d < length run" "[d..<length run] = d # [Suc d..<length run]" by (simp_all add: upt_conv_Cons)
  show ?case
  proof (cases "f d")
    case (Inl e)
    then show ?thesis using d Suc.prems by (auto simp: outcome_def)
  next
    case (Inr v)
    have "\<forall>j<Suc d. f j = Inr (run[d := v] ! j)" using Suc.prems(1) Inr d(1) by (auto simp: nth_list_update less_Suc_eq)
    then show ?thesis using Suc(1) [of "run[d := v]" "Suc d"] Suc(2) d Inr by simp
  qed
qed

lemma outcome_map_error: "outcome f n (Inl e, out) \<Longrightarrow> outcome (\<lambda>k. map_sum id (g k) (f k)) n (Inl e, out)"
  unfolding outcome_def by simp (metis map_sum.simps id_apply)

lemma fill_run_outcome:
  assumes len: "8 * length data < 2 ^ 64" and ok: "block_ok b"
  shows "\<exists>res. fill_run data b i run = Inr res \<and>
    outcome (\<lambda>k. map_sum id (block_value b (i + of_nat k)) (delta_at data b (i + of_nat k))) (length run) res"
proof -
  let ?d = "\<lambda>k. delta_at data b (i + of_nat k)"
  let ?f = "\<lambda>k. case (case try_usize (bl_offset b) of None \<Rightarrow> None | Some off \<Rightarrow> tail_get data off) of None \<Rightarrow> Inl (Eof 0)
      | Some tail \<Rightarrow> direct_get tail (bl_bpv b) (i + of_nat k)"
  have f: "?f = ?d" if "bl_bpv b \<noteq> 0" unfolding tail_of_offset [OF len] using that by (simp add: delta_at_def)
  have "\<exists>decoded run1. (if bl_bpv b = 0 then Inr (length run, replicate (length run) 0)
      else if is_supported_bits (bl_bpv b) then (case packed_tail data b of None \<Rightarrow> Inr (0, run) | Some p \<Rightarrow> decode_range p i run)
      else Inr (0, run)) = Inr (decoded, run1) \<and> length run1 = length run \<and> decoded \<le> length run \<and> (\<forall>j<decoded. ?d j = Inr (run1 ! j)) \<and>
      (bl_bpv b = 0 \<longrightarrow> decoded = length run)"
  proof (cases "bl_bpv b = 0 \<or> packed_tail data b = None")
    case True
    then show ?thesis using ok by (auto simp: delta_at_def block_ok_def)
  next
    case False
    then obtain p where p: "packed_tail data b = Some p" and b: "bl_bpv b \<noteq> 0" "is_supported_bits (bl_bpv b)" using ok by (auto simp: block_ok_def)
    note pl = packed_tail_law [OF len b(2,1) p]
    obtain n where n: "decode_range p i run = Inr (n, map (\<lambda>j. value_at (pl_bytes p) (pl_bits p) (unat i + j)) [0..<n] @ drop n run)"
      "n = min (length run) (unat (pl_fast_limit p) - unat i)" using decode_range_law [OF pl(1), of i run] by blast
    have "?d j = Inr (value_at (pl_bytes p) (pl_bits p) (unat i + j))" if "j < n" for j
    proof -
      have lt: "unat i + j < unat (pl_fast_limit p)" using that unfolding n(2) by linarith
      then have u: "unat (i + of_nat j) = unat i + j" using limit_small [of "pl_fast_limit p"] by (intro unat_plus_of_nat) linarith
      show ?thesis using pl(2) [of "i + of_nat j"] lt by (simp add: word_less_nat_alt u)
    qed
    moreover have "n \<le> length run" using n(2) by simp
    ultimately show ?thesis using b p n(1) by (simp add: nth_append)
  qed
  then obtain decoded run1 where dec: "(if bl_bpv b = 0 then Inr (length run, replicate (length run) 0)
      else if is_supported_bits (bl_bpv b) then (case packed_tail data b of None \<Rightarrow> Inr (0, run) | Some p \<Rightarrow> decode_range p i run)
      else Inr (0, run)) = Inr (decoded, run1)" and l: "length run1 = length run" "decoded \<le> length run1" and v: "\<forall>j<decoded. ?d j = Inr (run1 ! j)"
      and z: "bl_bpv b = 0 \<longrightarrow> decoded = length run1" by auto
  obtain r run2 where rest: "fill_rest ?f [decoded..<length run1] run1 = (r, run2)" by fastforce
  then have "fill_rest ?d [decoded..<length run1] run1 = (r, run2)" using f z by (cases "bl_bpv b = 0") simp_all
  with fill_rest_outcome [OF v l(2)] have out: "outcome ?d (length run) (r, run2)" using l(1) by simp
  have "fill_run data b i run = Inr (case r of Inl e \<Rightarrow> (Inl e, run2)
      | Inr _ \<Rightarrow> (Inr (), map (\<lambda>(k, v). block_value b (i + of_nat k) v) (List.enumerate 0 run2)))"
    unfolding fill_run_def dec by (simp add: rest split: sum.split)
  then show ?thesis
    using out outcome_map_error [of ?d "length run" _ run2 "\<lambda>k. block_value b (i + of_nat k)"]
    by (cases r) (auto simp: outcome_def nth_enumerate_eq)
qed

lemma negative_unat: "sint x < 0 \<Longrightarrow> 2 ^ 63 \<le> unat x" for x :: i64
proof (rule ccontr)
  assume neg: "sint x < 0" and "\<not> 2 ^ 63 \<le> unat x"
  then have "sint x = int (unat x)" using sint_eq_unat [of x] by simp
  then show False using neg by simp
qed

lemma nonneg_unat: "0 \<le> sint x \<Longrightarrow> unat x < 2 ^ 63 \<and> sint x = int (unat x)" for x :: i64
proof -
  assume "0 \<le> sint x"
  moreover have "sint x < 2 ^ 64" using sint_lt [of x] by simp
  ultimately have "uint x = sint x" by (simp add: uint_sint take_bit_int_eq_self)
  then have "unat x = nat (sint x)" by (simp add: unat_eq_nat_uint)
  moreover have "sint x < 2 ^ 63" using sint_lt [of x] by simp
  ultimately show ?thesis using \<open>0 \<le> sint x\<close> by simp
qed

text \<open>The block and the position in it of a non-negative index.\<close>

lemma block_of_index:
  fixes x :: i64
  assumes "unat x < 2 ^ 63" and "s \<le> 22"
  shows "unat (signed_drop_bit s x) = unat x div 2 ^ s" "unat (x AND (push_bit s 1 - 1)) = unat x mod 2 ^ s"
    "unat (push_bit s 1 - 1 :: i64) = 2 ^ s - 1"
proof -
  have "signed_drop_bit s x = drop_bit s x" using signed_drop_bit_nonneg [of x s] assms by simp
  then show "unat (signed_drop_bit s x) = unat x div 2 ^ s" using limit_small [of x]
    by (simp only: unsigned_drop_bit_eq) (simp add: drop_bit_eq_div take_bit_nat_eq_self)
  have m: "push_bit s 1 - 1 = (mask s :: i64)" by (simp add: mask_eq_exp_minus_1)
  show "unat (x AND (push_bit s 1 - 1)) = unat x mod 2 ^ s"
    unfolding m by (simp only: unsigned_take_bit_eq flip: take_bit_eq_mask) (simp add: take_bit_eq_mod)
  show "unat (push_bit s 1 - 1 :: i64) = 2 ^ s - 1"
    unfolding m using assms(2)
    by (simp only: take_bit_minus_one_eq_mask [symmetric] unsigned_take_bit_eq unsigned_minus_1_eq_mask take_bit_of_mask) (simp add: mask_eq_exp_minus_1 min_def)
qed

lemma mono_get_negative:
  assumes "sint x < 0" and "length (meta_blocks meta) < 2 ^ 63"
  shows "mono_get data meta x = Inl (Eof 0)"
proof -
  have "sint (signed_drop_bit (block_shift meta) x) < 0"
    using assms(1) by (simp only: sint_signed_drop_bit_eq) (simp add: drop_bit_eq_div div_neg_pos_less0)
  from negative_unat [OF this] show ?thesis using assms(2) by (simp add: mono_get_def nth_get_def Let_def)
qed

text \<open>A step inside a block.\<close>

lemma step_in_block:
  fixes x :: i64
  assumes x: "unat x < 2 ^ 63" and s: "s \<le> 22" and k: "unat x mod 2 ^ s + k < 2 ^ s"
  shows "unat (x + of_nat k) = unat x + k" "unat x + k < 2 ^ 63" "(unat x + k) div 2 ^ s = unat x div 2 ^ s"
    "(x + of_nat k) AND (push_bit s 1 - 1) = (x AND (push_bit s 1 - 1)) + of_nat k"
proof -
  define q where "q = unat x div 2 ^ s"
  have split: "unat x = q * 2 ^ s + unat x mod 2 ^ s" unfolding q_def by (rule div_mult_mod_eq [symmetric])
  have p: "(2 :: nat) ^ 63 = 2 ^ (63 - s) * 2 ^ s" using s by (simp flip: power_add)
  have "q < 2 ^ (63 - s)" using x unfolding q_def p by (simp add: div_less_iff_less_mult)
  then have "q * 2 ^ s + 2 ^ s \<le> (2 :: nat) ^ 63" unfolding p by (metis Suc_leI mult_Suc add.commute mult_le_mono1)
  then show lt: "unat x + k < 2 ^ 63" using split k by linarith
  then show u: "unat (x + of_nat k) = unat x + k" by (intro unat_plus_of_nat) simp
  have "unat x + k = q * 2 ^ s + (unat x mod 2 ^ s + k)" using split by linarith
  then have dm: "(unat x + k) div 2 ^ s = q" "(unat x + k) mod 2 ^ s = unat x mod 2 ^ s + k" using k by (simp_all only:) simp_all
  then show "(unat x + k) div 2 ^ s = unat x div 2 ^ s" by (simp only: q_def)
  have "unat ((x AND (push_bit s 1 - 1)) + of_nat k) = unat x mod 2 ^ s + k"
  proof -
    have "unat x mod 2 ^ s + k \<le> unat x + k" by (rule add_right_mono) (rule mod_less_eq_dividend)
    also have "\<dots> < 2 ^ 64" using lt by simp
    finally show ?thesis using unat_plus_of_nat [of "x AND (push_bit s 1 - 1)" k] by (simp only: block_of_index(2) [OF x s])
  qed
  moreover have "unat ((x + of_nat k) AND (push_bit s 1 - 1)) = unat x mod 2 ^ s + k"
    using block_of_index(2) [of "x + of_nat k" s] lt s by (simp only: u dm)
  ultimately show "(x + of_nat k) AND (push_bit s 1 - 1) = (x AND (push_bit s 1 - 1)) + of_nat k" by (simp only: word_unat_eq_iff)
qed

lemma sint_outside:
  fixes start :: i64
  assumes z: "sint start + int i < 0 \<or> 2 ^ 63 \<le> sint start + int i" and i: "i < 2 ^ 63"
  shows "sint (start + of_nat i) < 0"
proof (cases "sint start + int i < 0")
  case True
  have "start + of_nat i = of_int (sint start + int i)" by simp
  moreover have "- (2 ^ 63) \<le> sint start + int i" using sint_ge [of start] by simp
  ultimately have "sint (start + of_nat i) = sint start + int i" using True by (simp only: signed_of_int) (simp add: signed_take_bit_int_eq_self)
  then show ?thesis using True by simp
next
  case False
  then have "2 ^ 63 \<le> sint start + int i" using z by simp
  moreover have "sint start + int i < 2 ^ 64" using sint_lt [of start] i by simp
  moreover have "start + of_nat i = of_int (sint start + int i)" by simp
  ultimately have "2 ^ 63 \<le> unat (start + of_nat i)"
    by (simp only: unat_eq_nat_uint uint_word_of_int) (simp add: take_bit_int_eq_self le_nat_iff)
  then show ?thesis using nonneg_unat [of "start + of_nat i"] by (meson not_le)
qed

lemma outcome_append:
  assumes "outcome f n (Inr u, xs)" and "outcome (\<lambda>k. f (n + k)) m (r, ys)"
  shows "outcome f (n + m) (r, xs @ ys)"
proof (cases r)
  case (Inl e)
  then obtain k where k: "k < m" "f (n + k) = Inl e" "\<forall>j<k. \<exists>v. f (n + j) = Inr v" using assms(2) by (auto simp: outcome_def)
  have "\<exists>v. f j = Inr v" if "j < n + k" for j
  proof (cases "j < n")
    case False
    then obtain i where "j = n + i" by (metis le_add_diff_inverse not_less)
    then show ?thesis using k(3) that by simp
  qed (use assms(1) in \<open>auto simp: outcome_def\<close>)
  then show ?thesis using Inl k assms by (auto simp: outcome_def intro!: exI [of _ "n + k"])
next
  case (Inr v)
  have "f k = Inr ((xs @ ys) ! k)" if "k < n + m" for k
  proof (cases "k < n")
    case False
    then obtain i where "k = n + i" by (metis le_add_diff_inverse not_less)
    then show ?thesis using Inr that assms by (simp add: outcome_def nth_append)
  qed (use assms(1) in \<open>simp add: outcome_def nth_append\<close>)
  then show ?thesis using Inr assms by (simp add: outcome_def)
qed

lemma outcome_error: "outcome f n (Inl e, xs) \<Longrightarrow> outcome f (n + length ys) (Inl e, xs @ ys)"
  by (auto simp: outcome_def intro: less_imp_le_nat trans_less_add1)

lemma outcome_cong: "(\<And>k. k < n \<Longrightarrow> f k = g k) \<Longrightarrow> outcome f n res \<longleftrightarrow> outcome g n res"
  unfolding outcome_def by (auto split: sum.split) (metis less_trans)+

definition meta_ok :: "monotonic_meta \<Rightarrow> bool" where
  "meta_ok meta \<longleftrightarrow> block_shift meta \<le> MAX_BLOCK_SHIFT \<and> list_all block_ok (meta_blocks meta) \<and> length (meta_blocks meta) < 2 ^ 63"

lemma fill_loop_outcome:
  assumes len: "8 * length data < 2 ^ 64" and ok: "meta_ok meta" and small: "i + length out < 2 ^ 63"
  shows "\<exists>res. fill_loop data meta from i out = Inr res \<and> outcome (\<lambda>k. mono_get data meta (from + of_nat (i + k))) (length out) res"
  using small
proof (induction "length out" arbitrary: i out rule: less_induct)
  case less
  define s where "s = block_shift meta"
  have s: "s \<le> 22" and blocks: "length (meta_blocks meta) < 2 ^ 63" "list_all block_ok (meta_blocks meta)"
    using ok by (simp_all add: meta_ok_def s_def MAX_BLOCK_SHIFT_def)
  define z where "z = sint from + int i"
  define x where "x = from + of_nat i"
  have x: "of_int z = x" by (simp add: z_def x_def)
  consider "out = []" | "out \<noteq> []" "2 ^ 63 \<le> z \<or> z < 0" | "out \<noteq> []" "0 \<le> z" "z < 2 ^ 63" by linarith
  then show ?case
  proof cases
    case 1
    then show ?thesis by (simp add: fill_loop.simps outcome_def)
  next
    case 2
    have "sint x < 0" unfolding x_def using sint_outside [of "from" i] 2(2) less.prems by (auto simp: z_def)
    then have "mono_get data meta x = Inl (Eof 0)" using mono_get_negative blocks(1) by blast
    then show ?thesis using 2 by (auto simp: fill_loop.simps z_def [symmetric] x_def outcome_def intro!: exI [of _ 0])
  next
    case 3
    have "unat x = nat z" using 3 x by (simp only: x [symmetric] unat_eq_nat_uint uint_word_of_int) (simp add: take_bit_int_eq_self)
    then have ux: "unat x < 2 ^ 63" using 3 by simp
    note blk = block_of_index [OF ux s]
    show ?thesis
    proof (cases "nth_get (meta_blocks meta) (unat x div 2 ^ s)")
      case None
      then have "mono_get data meta x = Inl (Eof 0)" using mono_get_law [OF len, of meta x] by (simp only: s_def [symmetric] blk(1)) simp
      moreover have "fill_loop data meta from i out = Inr (Inl (Eof 0), out)"
        using 3 None by (subst fill_loop.simps) (simp only: z_def [symmetric] x s_def [symmetric] blk(1) Let_def, simp)
      ultimately show ?thesis using 3(1) by (auto simp: outcome_def x_def intro!: exI [of _ 0])
    next
      case (Some b)
      define bi where "bi = x AND (push_bit s 1 - 1)"
      define n where "n = min (length out) (2 ^ s - 1 - unat x mod 2 ^ s + 1)"
      have n: "0 < n" "n \<le> length out" using 3(1) by (simp_all add: n_def)
      have inb: "unat x mod 2 ^ s + k < 2 ^ s" if "k < n" for k
      proof -
        have "unat x mod 2 ^ s < 2 ^ s" by simp
        then show ?thesis using that unfolding n_def by linarith
      qed
      have unf: "fill_loop data meta from i out = and_then (fill_run data b bi (take n out)) (\<lambda>(r, run). case r of
          Inl e \<Rightarrow> Inr (Inl e, run @ drop n out)
        | Inr _ \<Rightarrow> and_then (fill_loop data meta from (i + n) (drop n out)) (\<lambda>(r, rest). Inr (r, run @ rest)))"
        using 3 Some by (subst fill_loop.simps) (simp only: z_def [symmetric] x s_def [symmetric] blk Let_def bi_def n_def, simp)
      have bok: "block_ok b" using Some blocks(2) by (auto simp: nth_get_def list_all_length split: if_splits)
      obtain r run where run: "fill_run data b bi (take n out) = Inr (r, run)"
        "outcome (\<lambda>k. map_sum id (block_value b (bi + of_nat k)) (delta_at data b (bi + of_nat k))) n (r, run)"
        using fill_run_outcome [OF len bok, of bi "take n out"] n(2) by (auto simp: min_absorb2)
      have eq: "mono_get data meta (x + of_nat k) = map_sum id (block_value b (bi + of_nat k)) (delta_at data b (bi + of_nat k))" if "k < n" for k
      proof -
        note st = step_in_block [OF ux s inb [OF that]]
        have "unat (signed_drop_bit s (x + of_nat k)) = unat x div 2 ^ s" using block_of_index(1) [of "x + of_nat k" s] st s by (simp only: st)
        then show ?thesis using mono_get_law [OF len, of meta "x + of_nat k"] Some st(4) by (simp only: s_def [symmetric] bi_def Let_def option.case)
      qed
      have o1: "outcome (\<lambda>k. mono_get data meta (x + of_nat k)) n (r, run)" using run(2) by (subst outcome_cong [OF eq])
      have fx: "(\<lambda>k. mono_get data meta (x + of_nat k)) = (\<lambda>k. mono_get data meta (from + of_nat (i + k)))" by (simp add: x_def add.assoc)
      show ?thesis
      proof (cases r)
        case (Inl e)
        then show ?thesis using outcome_error [of _ n e run "drop n out"] o1 n(2) unf run(1) by (auto simp: fx)
      next
        case (Inr u)
        have "length (drop n out) < length out" "i + n + length (drop n out) < 2 ^ 63" using n less.prems by simp_all
        then obtain r' rest where rec: "fill_loop data meta from (i + n) (drop n out) = Inr (r', rest)"
          "outcome (\<lambda>k. mono_get data meta (from + of_nat (i + n + k))) (length out - n) (r', rest)"
          using less.hyps [of "drop n out" "i + n"] by auto
        have "outcome (\<lambda>k. mono_get data meta (from + of_nat (i + k))) (n + (length out - n)) (r', run @ rest)"
          using o1 rec(2) Inr by (intro outcome_append [of _ n u]) (simp_all add: fx add.assoc)
        then show ?thesis using unf run(1) rec(1) Inr n(2) by simp
      qed
    qed
  qed
qed

section \<open>What was written is read\<close>

definition line_min :: "i64 list \<Rightarrow> i64" where
  "line_min c = signed_min (from_line (avg_inc c) c)"

definition block_deltas :: "i64 list \<Rightarrow> i64 list" where
  "block_deltas c = map (\<lambda>d. d - line_min c) (from_line (avg_inc c) c)"

definition block_width :: "i64 list \<Rightarrow> u8" where
  "block_width c = (let m = fold (\<lambda>d acc. acc OR d) (block_deltas c) 0 in if m = 0 then 0 else unsigned_bits_required m)"

definition block_data :: "i64 list \<Rightarrow> u8 list" where
  "block_data c = (if block_width c = 0 then []
     else direct_encode (block_deltas c) (block_width c) @ replicate (padding_bytes_needed (block_width c)) 0)"

definition block_at :: "i64 list \<Rightarrow> nat \<Rightarrow> block" where
  "block_at c off = \<lparr>bl_min = line_min c, bl_offset = of_nat off, bl_avg = avg_inc c, bl_bpv = block_width c\<rparr>"

definition block_bytes :: "block \<Rightarrow> u8 list" where
  "block_bytes b = to_le_bytes 8 (bl_min b) @ to_le_bytes 4 (bl_avg b) @ to_le_bytes 8 (bl_offset b) @ [bl_bpv b]"

lemma zero_not_supported: "is_supported_bits w \<Longrightarrow> w \<noteq> 0"
  using supported_bounds(1) by (fastforce simp: supported_iff)

lemma block_at_ok: "block_ok (block_at c off)"
  using bits_required_supported by (simp add: block_ok_def block_at_def block_width_def Let_def)

lemma non_decreasing_iff: "non_decreasing c \<longleftrightarrow> sorted (map sint c)"
proof (induction c)
  case (Cons x c)
  then show ?case by (cases c) (auto simp: non_decreasing_def intro: order_trans)
qed (simp add: non_decreasing_def)

lemma write_block_eq:
  assumes "sorted (map sint c)"
  shows "write_block c (meta, data) = Inr (meta @ block_bytes (block_at c (length data)), data @ block_data c)"
proof -
  have "unsigned_bits_required m \<noteq> 0" for m using zero_not_supported [OF bits_required_supported] .
  then show ?thesis
    using assms
    by (simp add: write_block_def assert_that_def non_decreasing_iff Let_def block_bytes_def block_at_def block_data_def block_width_def line_min_def [symmetric]
        block_deltas_def [symmetric] bytes.written_fixed)
qed

lemma bit_fold_deltas: "bit (fold (\<lambda>d acc. acc OR d) ds a :: i64) k \<longleftrightarrow> bit a k \<or> (\<exists>d \<in> set ds. bit d k)"
  by (induction ds arbitrary: a) (auto simp: bit_simps)

lemma delta_fits:
  assumes "d \<in> set (block_deltas c)"
  shows "take_bit (unat (block_width c)) d = d"
proof -
  define m where "m = fold (\<lambda>d acc. acc OR d) (block_deltas c) 0"
  have sub: "bit m k" if "bit d k" for k using assms that by (auto simp: m_def bit_fold_deltas)
  have "m = take_bit (unat (block_width c)) m" using bits_required_holds [of m] by (simp add: block_width_def m_def [symmetric] Let_def)
  then have "k < unat (block_width c)" if "bit d k" for k using sub [OF that] by (metis bit_take_bit_iff)
  then show ?thesis by (intro bit_word_eqI) (auto simp: bit_take_bit_iff)
qed

lemma block_value_written:
  assumes "j < length c" and "j < 2 ^ 22"
  shows "block_value (block_at c off) (of_nat j) (block_deltas c ! j) = c ! j"
proof -
  have "unat (of_nat j :: i64) = j" using assms(2) by (simp add: unsigned_of_nat take_bit_nat_eq_self)
  then have "sint (of_nat j :: i64) = int j" using sint_eq_unat [of "of_nat j :: i64"] assms(2) by simp
  then show ?thesis using assms(1) by (simp add: block_value_def block_at_def block_deltas_def from_line_def nth_enumerate_eq)
qed

lemma delta_written:
  assumes len: "8 * length (pre @ block_data c @ post) < 2 ^ 64" and j: "j < length c"
  shows "delta_at (pre @ block_data c @ post) (block_at c (length pre)) (of_nat j) = Inr (block_deltas c ! j)"
proof (cases "block_width c = 0")
  case True
  have "j < length (block_deltas c)" using j by (simp add: block_deltas_def from_line_def)
  then have "take_bit 0 (block_deltas c ! j) = block_deltas c ! j" using delta_fits [of "block_deltas c ! j" c] True by simp
  then show ?thesis using True by (simp add: delta_at_def block_at_def)
next
  case False
  then have w: "is_supported_bits (block_width c)" using block_at_ok [of c 0] by (simp add: block_ok_def block_at_def)
  have "unat (of_nat (length pre) :: i64) = length pre" using len by (simp add: unsigned_of_nat take_bit_nat_eq_self)
  moreover have jd: "j < length (block_deltas c)" using j by (simp add: block_deltas_def from_line_def)
  moreover have "8 * length (direct_encode (block_deltas c) (block_width c) @ replicate (padding_bytes_needed (block_width c)) 0 @ post) < 2 ^ 64"
    using len False by (simp add: block_data_def)
  from direct_get_encoded [OF w this jd]
  have "direct_get (block_data c @ post) (block_width c) (of_nat j) = Inr (block_deltas c ! j)"
    using delta_fits [of "block_deltas c ! j" c] jd False by (simp add: block_data_def)
  ultimately show ?thesis using False by (simp add: delta_at_def block_at_def tail_get_def)
qed

fun blocks_of :: "nat \<Rightarrow> i64 list list \<Rightarrow> block list" where
  "blocks_of off [] = []"
| "blocks_of off (c # cs) = block_at c off # blocks_of (off + length (block_data c)) cs"

lemma each_write_block:
  "\<forall>c \<in> set cs. sorted (map sint c) \<Longrightarrow>
    each write_block cs (m, d) = Inr (m @ concat (map block_bytes (blocks_of (length d) cs)), d @ concat (map block_data cs))"
  by (induction cs arbitrary: m d) (simp_all add: write_block_eq and_then_def)

lemma value_chunks_sorted: "sorted (map sint xs) \<Longrightarrow> c \<in> set (value_chunks n xs) \<Longrightarrow> sorted (map sint c)"
proof (induction n xs rule: value_chunks.induct)
  case (1 n xs)
  have "sorted (map sint (take n xs))" "sorted (map sint (drop n xs))"
    using "1.prems"(1) by (simp_all add: take_map [symmetric] drop_map [symmetric] sorted_wrt_take sorted_wrt_drop)
  then show ?case using 1 by (subst (asm) value_chunks.simps) (auto split: if_splits)
qed

lemma length_blocks_of [simp]: "length (blocks_of off cs) = length cs"
  by (induction cs arbitrary: off) simp_all

lemma nth_blocks_of: "k < length cs \<Longrightarrow> blocks_of off cs ! k = block_at (cs ! k) (off + length (concat (map block_data (take k cs))))"
proof (induction cs arbitrary: off k)
  case (Cons c cs)
  then show ?case by (cases k) (simp_all add: add.assoc)
qed simp

lemma blocks_of_ok: "list_all block_ok (blocks_of off cs)"
  by (induction cs arbitrary: off) (simp_all add: block_at_ok)

lemma length_value_chunks: "0 < n \<Longrightarrow> length (value_chunks n xs) = (if xs = [] then 0 else (length xs - 1) div n + 1)"
proof (induction n xs rule: value_chunks.induct)
  case (1 n xs)
  show ?case
  proof (cases "n < length xs")
    case True
    then have "length (value_chunks n xs) = Suc ((length xs - n - 1) div n + 1)" using 1 by (subst value_chunks.simps) auto
    moreover have "(length xs - 1) div n = Suc ((length xs - 1 - n) div n)" using True 1(2) by (intro le_div_geq) simp_all
    moreover have "length xs - n - 1 = length xs - 1 - n" by simp
    ultimately show ?thesis using True by auto
  next
    case False
    then have "length (value_chunks n xs) = (if xs = [] then 0 else 1)" using 1 by (subst value_chunks.simps) auto
    moreover have "(length xs - 1) div n = 0" using False 1(2) by simp
    ultimately show ?thesis by simp
  qed
qed

lemma nth_value_chunks: "k < length (value_chunks n xs) \<Longrightarrow> value_chunks n xs ! k = take n (drop (k * n) xs)"
proof (induction n xs arbitrary: k rule: value_chunks.induct)
  case (1 n xs)
  have ne: "\<not> (xs = [] \<or> n = 0)" using 1(2) by (subst (asm) value_chunks.simps) (auto split: if_splits)
  then have c: "value_chunks n xs = take n xs # value_chunks n (drop n xs)" by (subst value_chunks.simps) auto
  show ?case
  proof (cases k)
    case (Suc j)
    then show ?thesis using 1 ne c by (simp add: add.commute)
  qed (simp add: c)
qed

lemma chunk_of_index:
  assumes n: "0 < n" and i: "i < length xs"
  shows "i div n < length (value_chunks n xs)" "i mod n < length (value_chunks n xs ! (i div n))"
    "value_chunks n xs ! (i div n) ! (i mod n) = xs ! i"
proof -
  have "i div n \<le> (length xs - 1) div n" using i by (intro div_le_mono) simp
  then show k: "i div n < length (value_chunks n xs)" using length_value_chunks [OF n, of xs] i by auto
  have e: "i div n * n + i mod n = i" by simp
  then have "i div n * n \<le> length xs" using i by linarith
  with e show "i mod n < length (value_chunks n xs ! (i div n))" "value_chunks n xs ! (i div n) ! (i mod n) = xs ! i"
    using i n by (simp_all add: nth_value_chunks [OF k] less_diff_conv add.commute nth_drop)
qed

lemma num_blocks_value_chunks: "num_blocks (int (length xs)) s = length (value_chunks (2 ^ s) xs)"
proof -
  define n where "n = (2 :: nat) ^ s"
  define q where "q = length xs div n"
  have n: "0 < n" by (simp add: n_def)
  have split: "length xs = q * n + length xs mod n" by (simp add: q_def)
  have "int (length xs) div 2 ^ s = int q" by (simp add: q_def n_def zdiv_int)
  moreover have "int q * 2 ^ s < int (length xs) \<longleftrightarrow> q * n < length xs"
    by (metis n_def of_nat_less_iff of_nat_mult of_nat_numeral of_nat_power)
  ultimately have nb: "num_blocks (int (length xs)) s = (if q * n < length xs then q + 1 else q)"
    by (simp add: num_blocks_def Let_def nat_add_distrib)
  show ?thesis
  proof (cases "length xs mod n = 0")
    case True
    then have l: "length xs = q * n" using split by simp
    show ?thesis
    proof (cases q)
      case (Suc p)
      have "(length xs - 1) div n = p" by (rule div_nat_eqI) (use Suc l n in \<open>simp_all add: mult.commute\<close>)
      then show ?thesis using Suc l n nb length_value_chunks [OF n, of xs] by (auto simp: n_def)
    qed (use l nb in \<open>simp add: value_chunks.simps\<close>)
  next
    case False
    then have "length xs - 1 = q * n + (length xs mod n - 1)" using split by simp
    then have "(length xs - 1) div n = q" using n by (simp add: less_imp_diff_less)
    moreover have "q * n < length xs" using False split by linarith
    ultimately show ?thesis using nb length_value_chunks [OF n, of xs] by (auto simp: n_def)
  qed
qed

lemma decodes_at: "decodes ok rest P bs v \<Longrightarrow> ok s \<Longrightarrow> rest s = bs \<Longrightarrow> \<exists>s'. P s = (Inr v, s')"
  unfolding decodes_def by (metis append_Nil2)

lemma decodes_block:
  "bl_bpv b = v \<Longrightarrow> decodes ok rest (ret \<lparr>bl_min = bl_min b, bl_offset = bl_offset b, bl_avg = bl_avg b, bl_bpv = v\<rparr>) [] b"
  by (cases b) (auto intro: decodes_ret)

lemma read_block_decodes: "block_ok b \<Longrightarrow> decodes slice_ok as_slice read_block (block_bytes b) b"
proof -
  assume ok: "block_ok b"
  have byte: "decodes slice_ok as_slice slice_read_byte [v] v" for v using slice.bytes.rb_law [of v] by (simp add: slice_impl_def)
  show ?thesis unfolding read_block_def block_bytes_def
    by (intro decodes_bnd [OF slice_decoders(6)] decodes_bnd [OF slice_decoders(5)] decodes_last [OF byte]) (use ok in \<open>auto simp: block_ok_def intro: decodes_block\<close>)
qed

lemma small_sint: "n < 2 ^ 63 \<Longrightarrow> unat (of_nat n :: i64) = n \<and> sint (of_nat n :: i64) = int n"
proof -
  assume n: "n < 2 ^ 63"
  then have "unat (of_nat n :: i64) = n" by (simp add: unsigned_of_nat take_bit_nat_eq_self)
  then show ?thesis using sint_eq_unat [of "of_nat n :: i64"] n by simp
qed

definition written_data :: "i64 list \<Rightarrow> nat \<Rightarrow> u8 list" where
  "written_data values s = concat (map block_data (value_chunks (2 ^ s) values))"

definition written_meta :: "i64 list \<Rightarrow> nat \<Rightarrow> monotonic_meta" where
  "written_meta values s = \<lparr>block_shift = s, meta_blocks = blocks_of 0 (value_chunks (2 ^ s) values)\<rparr>"

definition meta_bytes :: "i64 list \<Rightarrow> nat \<Rightarrow> u8 list" where
  "meta_bytes values s = concat (map block_bytes (blocks_of 0 (value_chunks (2 ^ s) values)))"

lemma mono_write_eq:
  "MIN_BLOCK_SHIFT \<le> s \<Longrightarrow> s \<le> MAX_BLOCK_SHIFT \<Longrightarrow> sorted (map sint values) \<Longrightarrow>
    mono_write values s = Inr (meta_bytes values s, written_data values s)"
  using value_chunks_sorted [of "values" _ "2 ^ s"]
  by (simp add: mono_write_def assert_that_def each_write_block written_data_def meta_bytes_def)

lemma load_written:
  assumes "s \<le> MAX_BLOCK_SHIFT" and "length values < 2 ^ 63"
  shows "decodes slice_ok as_slice (load_meta (of_nat (length values)) s) (meta_bytes values s) (written_meta values s)"
proof -
  have "decodes slice_ok as_slice read_block (block_bytes b) b" if "b \<in> set (meta_blocks (written_meta values s))" for b
    using that blocks_of_ok read_block_decodes by (auto simp: written_meta_def list_all_iff)
  from decodes_map [OF decodes_many [of "meta_blocks (written_meta values s)", OF this], of "\<lambda>bs. \<lparr>block_shift = s, meta_blocks = bs\<rparr>"]
  have "decodes slice_ok as_slice (bnd (read_many read_block (length (value_chunks (2 ^ s) values))) (\<lambda>bs. ret \<lparr>block_shift = s, meta_blocks = bs\<rparr>))
      (meta_bytes values s) (written_meta values s)"
    by (simp add: written_meta_def meta_bytes_def)
  then show ?thesis
    using assms small_sint [OF assms(2)] by (simp add: load_meta_def num_blocks_value_chunks)
qed

lemma written_meta_ok:
  assumes "s \<le> MAX_BLOCK_SHIFT" and "length values < 2 ^ 63"
  shows "meta_ok (written_meta values s)"
proof -
  have "(length values - 1) div 2 ^ s \<le> length values - 1" by (rule div_le_dividend)
  then have "length (value_chunks (2 ^ s) values) \<le> length values"
    using length_value_chunks [of "2 ^ s" "values"] by (cases "values") auto
  then show ?thesis using assms blocks_of_ok by (simp add: meta_ok_def written_meta_def)
qed

lemma length_block_data: "c \<noteq> [] \<Longrightarrow> length (block_data c) \<le> 12 * length c"
proof -
  assume c: "c \<noteq> []"
  have "padding_bytes_needed w \<le> (31 + 7) div 8" for w
    unfolding padding_bytes_needed_def Let_def by (intro div_le_mono add_right_mono) auto
  then have "padding_bytes_needed w \<le> 4" for w by simp
  moreover have "length (direct_encode (block_deltas c) (block_width c)) \<le> 8 * length c" if "block_width c \<noteq> 0"
  proof -
    have "is_supported_bits (block_width c)" using that block_at_ok [of c 0] by (simp add: block_ok_def block_at_def)
    then have b: "0 < unat (block_width c)" "unat (block_width c) \<le> 64" using supported_bounds by (auto simp: supported_iff)
    have "length (block_deltas c) = length c" by (simp add: block_deltas_def from_line_def)
    then have "length (direct_encode (block_deltas c) (block_width c)) = (unat (block_width c) * length c + 7) div 8"
      using direct_encode_law(1) [OF b, of "block_deltas c"] by simp
    also have "\<dots> \<le> (64 * length c + 7) div 8" using b(2) by (intro div_le_mono) simp
    finally show ?thesis by simp
  qed
  ultimately have "length (block_data c) \<le> 8 * length c + 4" by (simp add: block_data_def add_mono)
  moreover have "1 \<le> length c" using c by (cases c) simp_all
  ultimately show ?thesis by linarith
qed

lemma length_written_data: "length (written_data values s) \<le> 12 * length values"
proof -
  have "length (concat (map block_data (value_chunks n xs))) \<le> 12 * length xs" for n xs
  proof (induction n xs rule: value_chunks.induct)
    case (1 n xs)
    show ?case
    proof (cases "xs = [] \<or> n = 0")
      case False
      then have "length (concat (map block_data (value_chunks n xs))) = length (block_data (take n xs)) + length (concat (map block_data (value_chunks n (drop n xs))))"
        by (subst value_chunks.simps) simp
      moreover have "length (block_data (take n xs)) \<le> 12 * length (take n xs)" using False by (intro length_block_data) auto
      moreover have "length (take n xs) + length (drop n xs) = length xs" by (simp add: min_def)
      ultimately show ?thesis using 1 [OF False] by linarith
    qed (auto simp: value_chunks.simps)
  qed
  then show ?thesis by (simp add: written_data_def)
qed

lemma mono_get_written:
  assumes s: "s \<le> MAX_BLOCK_SHIFT" and n: "length values < 2 ^ 56" and i: "i < length values"
  shows "mono_get (written_data values s) (written_meta values s) (of_nat i) = Inr (values ! i)"
proof -
  define cs where "cs = value_chunks (2 ^ s) values"
  define k where "k = i div 2 ^ s"
  define j where "j = i mod 2 ^ s"
  define c where "c = cs ! k"
  note ch = chunk_of_index [of "2 ^ s" i "values", OF _ i, folded cs_def k_def j_def c_def, simplified]
  define pre where "pre = concat (map block_data (take k cs))"
  define post where "post = concat (map block_data (drop (Suc k) cs))"
  have data: "written_data values s = pre @ block_data c @ post"
    using id_take_nth_drop [OF ch(1)] unfolding written_data_def cs_def [symmetric] pre_def post_def c_def by (metis append_Cons concat.simps(2) concat_append list.simps(9) map_append)
  have len: "8 * length (pre @ block_data c @ post) < 2 ^ 64"
    using length_written_data [of "values" s] n unfolding data by simp
  have i63: "i < 2 ^ 63" using i n by simp
  then have u: "unat (of_nat i :: i64) = i" using small_sint by blast
  have s22: "s \<le> 22" using s by (simp add: MAX_BLOCK_SHIFT_def)
  have "unat (of_nat i :: i64) < 2 ^ 63" using u i63 by simp
  note blk = block_of_index [OF this s22, unfolded u, folded k_def j_def]
  have "j < 2 ^ s" by (simp add: j_def)
  moreover have "(2 :: nat) ^ s \<le> 2 ^ 22" using s22 by (rule power_increasing) simp
  ultimately have j22: "j < 2 ^ 22" by (rule less_le_trans)
  then have "of_nat i AND (push_bit s 1 - 1) = (of_nat j :: i64)" using blk(2) small_sint [of j] by (simp add: word_unat_eq_iff)
  moreover have "nth_get (meta_blocks (written_meta values s)) k = Some (block_at c (length pre))"
    using ch(1) nth_blocks_of [of k cs 0] by (simp add: nth_get_def written_meta_def cs_def c_def pre_def)
  ultimately show ?thesis
    using mono_get_law [of "written_data values s" "written_meta values s" "of_nat i"] len blk(1) delta_written [OF len ch(2)] block_value_written [OF ch(2) j22] ch(3)
    unfolding data by (simp add: written_meta_def Let_def)
qed

section \<open>Searching finds the floor\<close>

text \<open>Between \<open>lo\<close> and \<open>hi\<close> the search is open; everything before is at most the key and everything after exceeds it.\<close>

lemma floor_loop_law:
  assumes get: "\<And>i. a \<le> i \<Longrightarrow> i < b \<Longrightarrow> mono_get data meta (of_int i) = Inr (v i)"
    and mono: "\<And>i j. a \<le> i \<Longrightarrow> i \<le> j \<Longrightarrow> j < b \<Longrightarrow> sint (v i) \<le> sint (v j)"
    and "a \<le> lo" and "lo \<le> hi + 1" and "hi < b"
    and "\<And>i. a \<le> i \<Longrightarrow> i < lo \<Longrightarrow> sint (v i) \<le> sint key" and "\<And>i. hi < i \<Longrightarrow> i < b \<Longrightarrow> sint key < sint (v i)"
    and "best = (if lo = a then a else lo - 1)" and "a < b"
  shows "\<exists>r. floor_loop data meta key lo hi best = Inr r \<and> a \<le> r \<and> r < b \<and> (\<forall>i. r < i \<and> i < b \<longrightarrow> sint key < sint (v i)) \<and>
    (sint (v a) \<le> sint key \<longrightarrow> sint (v r) \<le> sint key)"
  using assms(3-9)
proof (induction "nat (hi + 1 - lo)" arbitrary: lo hi best rule: less_induct)
  case less
  show ?case
  proof (cases "hi < lo")
    case True
    then have "floor_loop data meta key lo hi best = Inr best" by (simp add: floor_loop.simps)
    moreover have "lo = hi + 1" using True less.prems(2) by simp
    then have "a \<le> best" "best < b" "\<forall>i. best < i \<and> i < b \<longrightarrow> sint key < sint (v i) \<or> i = a" "lo \<noteq> a \<longrightarrow> sint (v best) \<le> sint key"
      using less.prems(1,3,4,5,7) by (auto simp: less.prems(6))
    moreover have "sint key < sint (v a)" if "lo = a" using less.prems(5) [of a] less.prems(7) that True by simp
    ultimately show ?thesis using less.prems(6) by (cases "lo = a") auto
  next
    case False
    define mid where "mid = lo + (hi - lo) div 2"
    have mid: "lo \<le> mid" "mid \<le> hi" using False by (simp_all add: mid_def)
    have g: "mono_get data meta (of_int mid) = Inr (v mid)" using get [of mid] mid less.prems(1,3) by simp
    show ?thesis
    proof (cases "sint (v mid) \<le> sint key")
      case True
      have "floor_loop data meta key lo hi best = floor_loop data meta key (mid + 1) hi mid"
        using False True g by (subst floor_loop.simps) (simp add: mid_def [symmetric] Let_def)
      moreover have below: "sint (v i) \<le> sint key" if "a \<le> i" "i < mid + 1" for i
        using mono [of i mid] that True mid(2) less.prems(3) by simp
      have "nat (hi + 1 - (mid + 1)) < nat (hi + 1 - lo)" using mid by simp
      from less.hyps [OF this _ _ less.prems(3) below less.prems(5) _ less.prems(7), of mid]
      have "\<exists>r. floor_loop data meta key (mid + 1) hi mid = Inr r \<and> a \<le> r \<and> r < b \<and> (\<forall>i. r < i \<and> i < b \<longrightarrow> sint key < sint (v i)) \<and>
        (sint (v a) \<le> sint key \<longrightarrow> sint (v r) \<le> sint key)" using mid less.prems(1) by simp
      ultimately show ?thesis by simp
    next
      case above: False
      have "floor_loop data meta key lo hi best = floor_loop data meta key lo (mid - 1) best"
        using False above g by (subst floor_loop.simps) (simp add: mid_def [symmetric] Let_def)
      moreover have after: "sint key < sint (v i)" if "mid - 1 < i" "i < b" for i
        using mono [of mid i] that above mid(1) less.prems(1) by simp
      have "nat (mid - 1 + 1 - lo) < nat (hi + 1 - lo)" using mid by simp
      from less.hyps [OF this less.prems(1) _ _ less.prems(4) after less.prems(6,7)]
      have "\<exists>r. floor_loop data meta key lo (mid - 1) best = Inr r \<and> a \<le> r \<and> r < b \<and> (\<forall>i. r < i \<and> i < b \<longrightarrow> sint key < sint (v i)) \<and>
        (sint (v a) \<le> sint key \<longrightarrow> sint (v r) \<le> sint key)" using mid less.prems(3) by simp
      ultimately show ?thesis by simp
    qed
  qed
qed

section \<open>Properties\<close>

text \<open>
  C16: A non-decreasing sequence of \<open>i64\<close> written in blocks is read back. The writer requires the order and asserts it on every
  block, and this is the only requirement on the values: wherever they lie in the 64-bit range (differences may wrap) the
  writer does not panic, \<open>load_meta\<close> reads the metadata that \<open>write\<close> produced and stops behind it, and every value is then
  returned by \<open>get\<close>, by the resolved \<open>Reader\<close> without leaving the data, and by \<open>fill\<close> for every run of indices.
\<close>
theorem monotonic_round_trip:
  assumes "MIN_BLOCK_SHIFT \<le> shift" and "shift \<le> MAX_BLOCK_SHIFT" and "length values < 2 ^ 56" and "sorted (map sint values)"
  shows "\<exists>meta_buf data meta. mono_write values shift = Inr (meta_buf, data) \<and>
    (\<forall>s rest. slice_ok s \<and> as_slice s = meta_buf @ rest \<longrightarrow>
       (\<exists>s'. load_meta (of_nat (length values)) shift s = (Inr meta, s') \<and> slice_ok s' \<and> as_slice s' = rest)) \<and>
    (\<forall>i < length values. mono_get data meta (of_nat i) = Inr (values ! i) \<and> mr_get (mr_new data meta) (of_nat i) = Inr (Inr (values ! i))) \<and>
    (\<forall>i out. i + length out \<le> length values \<longrightarrow> mono_fill data meta (of_nat i) out = Inr (Inr (), take (length out) (drop i values)))"
proof -
  let ?data = "written_data values shift" and ?meta = "written_meta values shift"
  have n63: "length values < 2 ^ 63" using assms(3) by simp
  have len: "8 * length ?data < 2 ^ 64" using length_written_data [of "values" shift] assms(3) by simp
  note ok = written_meta_ok [OF assms(2) n63]
  have w: "mono_write values shift = Inr (meta_bytes values shift, ?data)" by (rule mono_write_eq [OF assms(1,2,4)])
  have l: "\<exists>s'. load_meta (of_nat (length values)) shift s = (Inr ?meta, s') \<and> slice_ok s' \<and> as_slice s' = rest"
    if "slice_ok s \<and> as_slice s = meta_bytes values shift @ rest" for s rest
    using load_written [OF assms(2) n63] that by (simp add: decodes_def)
  have get: "mono_get ?data ?meta (of_nat i) = Inr (values ! i)" if "i < length values" for i by (rule mono_get_written [OF assms(2,3) that])
  have mr: "mr_get (mr_new ?data ?meta) (of_nat i) = Inr (Inr (values ! i))" if "i < length values" for i
    using mr_get_law [OF len] ok get [OF that] by (simp add: meta_ok_def)
  have fill: "mono_fill ?data ?meta (of_nat i) out = Inr (Inr (), take (length out) (drop i values))" if io: "i + length out \<le> length values" for i out
  proof -
    obtain r out' where res: "mono_fill ?data ?meta (of_nat i) out = Inr (r, out')"
      "outcome (\<lambda>k. mono_get ?data ?meta (of_nat i + of_nat (0 + k))) (length out) (r, out')"
      using fill_loop_outcome [OF len ok, of 0 out "of_nat i"] io n63 unfolding mono_fill_def by auto
    have "mono_get ?data ?meta (of_nat i + of_nat (0 + k)) = Inr (values ! (i + k))" if "k < length out" for k
      using get [of "i + k"] that io by simp
    then have "r = Inr () \<and> length out' = length out \<and> (\<forall>k<length out. out' ! k = values ! (i + k))"
      using res(2) by (cases r) (auto simp: outcome_def)
    then show ?thesis
      using res(1) io by (simp add: list_eq_iff_nth_eq)
  qed
  show ?thesis using w l get mr fill by blast
qed

theorem monotonic_round_trip_witness:
  "\<exists>meta_buf data meta. mono_write [10, 20, 31, 40, 52] 2 = Inr (meta_buf, data) \<and>
    fst (load_meta 5 2 (slice_new meta_buf)) = Inr meta \<and> mono_get data meta 4 = Inr 52 \<and>
    mr_get (mr_new data meta) 2 = Inr (Inr 31) \<and> mono_fill data meta 1 [0, 0, 0] = Inr (Inr (), [20, 31, 40])"
proof -
  have "MIN_BLOCK_SHIFT \<le> 2" "2 \<le> MAX_BLOCK_SHIFT" "length [10, 20, 31, 40, 52 :: i64] < 2 ^ 56"
    "sorted (map sint [10, 20, 31, 40, 52 :: i64])" by (simp_all add: MIN_BLOCK_SHIFT_def MAX_BLOCK_SHIFT_def)
  from monotonic_round_trip [OF this] obtain meta_buf data meta where w: "mono_write [10, 20, 31, 40, 52] 2 = Inr (meta_buf, data)"
    and l: "\<forall>s rest. slice_ok s \<and> as_slice s = meta_buf @ rest \<longrightarrow>
       (\<exists>s'. load_meta (of_nat (length [10, 20, 31, 40, 52 :: i64])) 2 s = (Inr meta, s') \<and> slice_ok s' \<and> as_slice s' = rest)"
    and g: "\<forall>i < length [10, 20, 31, 40, 52 :: i64]. mono_get data meta (of_nat i) = Inr ([10, 20, 31, 40, 52] ! i) \<and> mr_get (mr_new data meta) (of_nat i) = Inr (Inr ([10, 20, 31, 40, 52] ! i))"
    and f: "\<forall>i out. i + length out \<le> length [10, 20, 31, 40, 52 :: i64] \<longrightarrow> mono_fill data meta (of_nat i) out = Inr (Inr (), take (length out) (drop i [10, 20, 31, 40, 52]))"
    by blast
  have "meta_buf = meta_bytes [10, 20, 31, 40, 52] 2" using w mono_write_eq [of 2] by (simp add: MIN_BLOCK_SHIFT_def MAX_BLOCK_SHIFT_def)
  then have "length meta_buf = 42" by (simp add: meta_bytes_def length_concat comp_def block_bytes_def sum_list_triv length_value_chunks)
  then have "slice_ok (slice_new meta_buf)" "as_slice (slice_new meta_buf) = meta_buf @ []" by (simp_all add: usize_max_def slice_new_def slice_ok_def as_slice_def)
  then have "fst (load_meta 5 2 (slice_new meta_buf)) = Inr meta" using l [rule_format, of "slice_new meta_buf" "[]"] by auto
  moreover have "mono_get data meta 4 = Inr 52" "mr_get (mr_new data meta) 2 = Inr (Inr 31)" using g [rule_format, of 4] g [rule_format, of 2] by simp_all
  moreover have "mono_fill data meta 1 [0, 0, 0] = Inr (Inr (), [20, 31, 40])" using f [rule_format, of 1 "[0, 0, 0]"] by simp
  ultimately show ?thesis using w by blast
qed

lemma read_blocks_ok: "read_many read_block n s = (Inr bs, s') \<Longrightarrow> length bs = n \<and> list_all block_ok bs"
proof (induction n arbitrary: s bs s')
  case (Suc n)
  then obtain b bs' s1 s2 where "read_block s = (Inr b, s1)" "read_many read_block n s1 = (Inr bs', s2)" "bs = b # bs'"
    by (auto simp: bnd_eq_Inr_iff)
  moreover from this(1) have "block_ok b"
    by (auto simp: read_block_def bnd_eq_Inr_iff block_ok_def split: if_splits)
  ultimately show ?case using Suc.IH by auto
qed simp

lemma load_meta_ok:
  assumes "load_meta num_values shift s = (Inr meta, s')"
  shows "meta_ok meta"
proof -
  define nv where "nv = sint num_values"
  obtain bs where bs: "shift \<le> MAX_BLOCK_SHIFT" "0 \<le> nv" "meta = \<lparr>block_shift = shift, meta_blocks = bs\<rparr>"
    "read_many read_block (num_blocks nv shift) s = (Inr bs, s')"
    using assms by (auto simp: load_meta_def bnd_eq_Inr_iff nv_def split: if_splits)
  define q where "q = nv div 2 ^ shift"
  have "0 \<le> q" using bs(2) by (simp add: q_def pos_imp_zdiv_nonneg_iff)
  moreover from this have "q \<le> q * 2 ^ shift" by (simp add: mult_le_cancel_left1)
  moreover have "q * 2 ^ shift \<le> nv" unfolding q_def minus_mod_eq_div_mult [symmetric] by simp
  ultimately have "0 \<le> q" "q \<le> q * 2 ^ shift" "q * 2 ^ shift \<le> nv" .
  then have "num_blocks nv shift \<le> nat nv" by (simp add: num_blocks_def Let_def q_def [symmetric] nat_le_iff)
  also have "nat nv < 2 ^ 63" using sint_lt [of num_values] by (simp add: nv_def)
  finally have "num_blocks nv shift < 2 ^ 63" .
  then show ?thesis using bs read_blocks_ok [OF bs(4)] by (simp add: meta_ok_def)
qed

text \<open>
  C18: On any metadata \<open>load_meta\<close> accepts and any data, the fast readers are \<open>get\<close>. The resolved \<open>Reader\<close> returns for every
  index the value or the error of \<open>get\<close>; \<open>fill\<close> fills every slot with the value of \<open>get\<close>, or ends with the error of the first
  index at which \<open>get\<close> fails, also when the indices run past the blocks, past the data or past \<open>i64::MAX\<close>. Neither
  panics nor reads outside the data.
\<close>
theorem monotonic_readers_agree:
  assumes "load_meta num_values shift s = (Inr meta, s')" and "8 * length data < 2 ^ 64" and "length out < 2 ^ 63"
  shows "mr_get (mr_new data meta) index = Inr (mono_get data meta index) \<and>
    (\<exists>r out'. mono_fill data meta index out = Inr (r, out') \<and> length out' = length out \<and>
      (case r of
         Inr _ \<Rightarrow> \<forall>k < length out. mono_get data meta (index + of_nat k) = Inr (out' ! k)
       | Inl e \<Rightarrow> \<exists>k < length out. mono_get data meta (index + of_nat k) = Inl e \<and> (\<forall>j<k. \<exists>v. mono_get data meta (index + of_nat j) = Inr v)))"
proof
  note ok = load_meta_ok [OF assms(1)]
  show "mr_get (mr_new data meta) index = Inr (mono_get data meta index)" using mr_get_law [OF assms(2)] ok by (simp add: meta_ok_def)
  obtain r out' where "mono_fill data meta index out = Inr (r, out')" "outcome (\<lambda>k. mono_get data meta (index + of_nat (0 + k))) (length out) (r, out')"
    using fill_loop_outcome [OF assms(2) ok, of 0 out index] assms(3) unfolding mono_fill_def by auto
  then show "\<exists>r out'. mono_fill data meta index out = Inr (r, out') \<and> length out' = length out \<and>
      (case r of
         Inr _ \<Rightarrow> \<forall>k < length out. mono_get data meta (index + of_nat k) = Inr (out' ! k)
       | Inl e \<Rightarrow> \<exists>k < length out. mono_get data meta (index + of_nat k) = Inl e \<and> (\<forall>j<k. \<exists>v. mono_get data meta (index + of_nat j) = Inr v))"
    by (auto simp: outcome_def)
qed

theorem monotonic_readers_agree_witness:
  "\<exists>meta s'. load_meta 3 2 (slice_new [100, 0, 0, 0, 0, 0, 0, 0, 0, 0, 0, 0, 0, 0, 0, 0, 0, 0, 0, 0, 8]) = (Inr meta, s') \<and>
    mr_get (mr_new [1, 2, 3] meta) 2 = Inr (Inr 103) \<and> (\<exists>out'. mono_fill [1, 2, 3] meta 1 [0, 0, 0] = Inr (Inl (Eof 3), out'))"
proof -
  let ?b = "\<lparr>bl_min = 100, bl_offset = 0, bl_avg = 0, bl_bpv = 8\<rparr>"
  let ?meta = "\<lparr>block_shift = 2, meta_blocks = [?b]\<rparr>"
  let ?s = "slice_new [100, 0, 0, 0, 0, 0, 0, 0, 0, 0, 0, 0, 0, 0, 0, 0, 0, 0, 0, 0, 8]"
  have "block_ok ?b" by (simp add: block_ok_def supported_iff SUPPORTED_BITS_def)
  then have "decodes slice_ok as_slice (read_many read_block (length [?b])) (concat (map block_bytes [?b])) [?b]"
    by (intro decodes_many) (simp add: read_block_decodes)
  moreover have "concat (map block_bytes [?b]) = [100, 0, 0, 0, 0, 0, 0, 0, 0, 0, 0, 0, 0, 0, 0, 0, 0, 0, 0, 0, 8]" by code_simp
  moreover have "slice_ok ?s" by (simp add: slice_new_def slice_ok_def usize_max_def)
  moreover have "as_slice ?s = [100, 0, 0, 0, 0, 0, 0, 0, 0, 0, 0, 0, 0, 0, 0, 0, 0, 0, 0, 0, 8]" by (simp add: slice_new_def as_slice_def)
  ultimately obtain s' where "read_many read_block 1 ?s = (Inr [?b], s')" using decodes_at [of slice_ok as_slice _ _ "[?b]" ?s] by fastforce
  then have l: "load_meta 3 2 ?s = (Inr ?meta, s')" by (simp add: load_meta_def MAX_BLOCK_SHIFT_def num_blocks_def)
  have len: "8 * length [1, 2, 3 :: u8] < 2 ^ 64" by simp
  have est: "i64_of_f32 (f32_mul 0 (f32_of_int 1)) = 0" "i64_of_f32 (f32_mul 0 (f32_of_int 2)) = 0" by code_simp+
  have d: "direct_get [1, 2, 3] 8 1 = Inr 2" "direct_get [1, 2, 3] 8 2 = Inr 3" "direct_get [1, 2, 3] 8 3 = Inl (Eof 3)" by code_simp+
  have g: "mono_get [1, 2, 3] ?meta 1 = Inr 102" "mono_get [1, 2, 3] ?meta 2 = Inr 103" "mono_get [1, 2, 3] ?meta 3 = Inl (Eof 3)"
    using mono_get_law [OF len, of ?meta 1] mono_get_law [OF len, of ?meta 2] mono_get_law [OF len, of ?meta 3]
    by (simp_all add: nth_get_def delta_at_def tail_get_def d block_value_def est)
  have out: "length [0, 0, 0 :: i64] < 2 ^ 63" by simp
  have "mr_get (mr_new [1, 2, 3] ?meta) 2 = Inr (Inr 103)" using monotonic_readers_agree [OF l len out, of 2] g(2) by simp
  moreover obtain r out' where r: "mono_fill [1, 2, 3] ?meta 1 [0, 0, 0] = Inr (r, out')"
    "case r of Inr _ \<Rightarrow> \<forall>k < length [0, 0, 0 :: i64]. mono_get [1, 2, 3] ?meta (1 + of_nat k) = Inr (out' ! k)
     | Inl e \<Rightarrow> \<exists>k < length [0, 0, 0 :: i64]. mono_get [1, 2, 3] ?meta (1 + of_nat k) = Inl e \<and> (\<forall>j<k. \<exists>v. mono_get [1, 2, 3] ?meta (1 + of_nat j) = Inr v)"
    using monotonic_readers_agree [OF l len out, of 1] by blast
  have "r = Inl (Eof 3)"
  proof (cases r)
    case (Inl e)
    then obtain k where "k < length [0, 0, 0 :: i64]" "mono_get [1, 2, 3] ?meta (1 + of_nat k) = Inl e" using r(2) by auto
    moreover from this(1) have "k = 0 \<or> k = 1 \<or> k = 2" by auto
    ultimately show ?thesis using Inl g by auto
  next
    case (Inr u)
    then have all: "\<forall>k < length [0, 0, 0 :: i64]. mono_get [1, 2, 3] ?meta (1 + of_nat k) = Inr (out' ! k)" using r(2) by simp
    show ?thesis using all [rule_format, of 2] g(3) by simp
  qed
  with r(1) have "\<exists>out'. mono_fill [1, 2, 3] ?meta 1 [0, 0, 0] = Inr (Inl (Eof 3), out')" by blast
  ultimately show ?thesis using l by blast
qed

text \<open>
  C17: \<open>floor_index\<close> is a floor, as the readers of stored fields and term vectors use it to find the chunk of a document:
  on a non-decreasing sequence that was written and loaded, for every non-empty range of indices, the search ends
  with an index of the range, everything after it in the range exceeds the key, and when the first value of the range is at
  most the key, so is the value found. An empty range returns its start and a negative start is refused.
\<close>
theorem floor_index_is_floor:
  assumes "MIN_BLOCK_SHIFT \<le> shift" and "shift \<le> MAX_BLOCK_SHIFT" and "length values < 2 ^ 56" and "sorted (map sint values)"
    and "a < b" and "b \<le> length values"
  shows "\<exists>meta_buf data meta r. mono_write values shift = Inr (meta_buf, data) \<and>
    (\<forall>s rest. slice_ok s \<and> as_slice s = meta_buf @ rest \<longrightarrow> (\<exists>s'. load_meta (of_nat (length values)) shift s = (Inr meta, s'))) \<and>
    floor_index data meta (of_nat a) (of_nat b) key = Inr (of_nat r) \<and> a \<le> r \<and> r < b \<and>
    (\<forall>i. r < i \<and> i < b \<longrightarrow> sint key < sint (values ! i)) \<and> (sint (values ! a) \<le> sint key \<longrightarrow> sint (values ! r) \<le> sint key) \<and>
    floor_index data meta (of_nat b) (of_nat a) key = Inr (of_nat b) \<and> floor_index data meta (- 1) (of_nat b) key = Inl (Corrupted (MonotonicLowerBound (- 1)))"
proof -
  let ?data = "written_data values shift" and ?meta = "written_meta values shift" and ?v = "\<lambda>i. values ! nat i"
  have n63: "length values < 2 ^ 63" using assms(3) by simp
  have load: "\<exists>s'. load_meta (of_nat (length values)) shift s = (Inr ?meta, s')" if "slice_ok s \<and> as_slice s = meta_bytes values shift @ rest" for s rest
    using load_written [OF assms(2) n63] that by (auto simp: decodes_def)
  have sa: "sint (of_nat a :: i64) = int a" "sint (of_nat b :: i64) = int b" using small_sint [of a] small_sint [of b] assms(5,6) n63 by simp_all
  have get: "mono_get ?data ?meta (of_int i) = Inr (?v i)" if "int a \<le> i" "i < int b" for i
  proof -
    have "mono_get ?data ?meta (of_nat (nat i)) = Inr (?v i)" using that assms(6) by (intro mono_get_written [OF assms(2,3)]) simp
    then show ?thesis using that by simp
  qed
  have mono: "sint (?v i) \<le> sint (?v j)" if "int a \<le> i" "i \<le> j" "j < int b" for i j
    using sorted_nth_mono [OF assms(4), of "nat i" "nat j"] that assms(6) by simp
  obtain r where r: "floor_loop ?data ?meta key (int a) (int b - 1) (int a) = Inr r" "int a \<le> r" "r < int b"
    "\<forall>i. r < i \<and> i < int b \<longrightarrow> sint key < sint (?v i)" "sint (?v (int a)) \<le> sint key \<longrightarrow> sint (?v r) \<le> sint key"
    using floor_loop_law [of "int a" "int b" ?data ?meta ?v "int a" "int b - 1" key "int a", OF get mono] assms(5) by auto
  have fl: "floor_index ?data ?meta (of_nat a) (of_nat b) key = Inr (of_nat (nat r))"
    using r(1,2) sa assms(5) by (simp add: floor_index_def)
  have rest: "\<forall>i. nat r < i \<and> i < b \<longrightarrow> sint key < sint (values ! i)"
  proof (intro allI impI)
    fix i assume i: "nat r < i \<and> i < b"
    then have "r < int i" by linarith
    then show "sint key < sint (values ! i)" using r(4) [rule_format, of "int i"] i by simp
  qed
  have "floor_index ?data ?meta (of_nat b) (of_nat a) key = Inr (of_nat b)" using sa assms(5) by (simp add: floor_index_def)
  moreover have "floor_index ?data ?meta (- 1) (of_nat b) key = Inl (Corrupted (MonotonicLowerBound (- 1)))" by (simp add: floor_index_def)
  moreover have "a \<le> nat r" "nat r < b" "sint (values ! a) \<le> sint key \<longrightarrow> sint (values ! nat r) \<le> sint key" using r(2,3,5) by simp_all
  ultimately show ?thesis using mono_write_eq [OF assms(1,2,4)] load fl rest by blast
qed

theorem floor_index_is_floor_witness:
  "\<exists>meta_buf data meta. mono_write [0, 10, 10, 31, 40, 52] 2 = Inr (meta_buf, data) \<and> floor_index data meta 0 6 39 = Inr 3"
proof -
  have "MIN_BLOCK_SHIFT \<le> 2" "2 \<le> MAX_BLOCK_SHIFT" "length [0, 10, 10, 31, 40, 52 :: i64] < 2 ^ 56" "sorted (map sint [0, 10, 10, 31, 40, 52 :: i64])"
    "0 < (6 :: nat)" "6 \<le> length [0, 10, 10, 31, 40, 52 :: i64]" by (simp_all add: MIN_BLOCK_SHIFT_def MAX_BLOCK_SHIFT_def)
  from floor_index_is_floor [OF this, of 39] obtain meta_buf data meta r where w: "mono_write [0, 10, 10, 31, 40, 52] 2 = Inr (meta_buf, data)"
    "floor_index data meta 0 6 39 = Inr (of_nat r)" "r < 6"
    and after: "\<forall>i. r < i \<and> i < 6 \<longrightarrow> sint (39 :: i64) < sint ([0, 10, 10, 31, 40, 52] ! i :: i64)"
    and at_r: "sint ([0, 10, 10, 31, 40, 52] ! 0 :: i64) \<le> sint (39 :: i64) \<longrightarrow> sint ([0, 10, 10, 31, 40, 52] ! r :: i64) \<le> sint (39 :: i64)"
    by auto
  have "\<not> r < 3" using after [rule_format, of 3] by auto
  moreover have "r \<noteq> 4" "r \<noteq> 5" using at_r by auto
  ultimately have "r = 3" using w(3) by linarith
  then show ?thesis using w by auto
qed

end
