(* ===== verification/Store_Directory.thy ===== *)
theory Store_Directory
  imports Base36 "HOL-Library.AList" "HOL-Library.List_Lexorder"
begin

text \<open>
  The \<open>Directory\<close> trait of \<open>directory.rs\<close> as a record of its methods over the state of the directory, the
  in-memory implementation \<open>ByteBuffersDirectory\<close>, and \<open>directory_laws\<close>: what the components above rely on
  (an operation on one name leaves every other file alone, a listing is the set of the files). The locale is
  interpreted on \<open>ByteBuffersDirectory\<close>.

  An output handed out by \<open>create_output\<close> is identified by \<open>'o\<close>; \<open>close_output\<close> is \<open>FsIndexOutput::close\<close>
  with everything written to it. In \<open>ByteBuffersDirectory\<close> a name maps to a shared \<open>FileEntry\<close>, so the
  state keeps the entries in a list and the names map to positions: an output that is closed after its file
  was renamed publishes under the new name. The publish hook of the caching directory, locks and the
  file-system implementations are not modelled.
\<close>

type_synonym name = "u8 list"

record ('d, 'o) directory =
  dir_list_all :: "('d, name list) stateful"
  dir_open :: "name \<Rightarrow> ('d, u8 list) stateful"
  create_output :: "name \<Rightarrow> ('d, 'o) stateful"
  close_output :: "'o \<Rightarrow> u8 list \<Rightarrow> ('d, unit) stateful"
  sync :: "name list \<Rightarrow> ('d, unit) stateful"
  rename :: "name \<Rightarrow> name \<Rightarrow> ('d, unit) stateful"
  delete_file :: "name \<Rightarrow> ('d, unit) stateful"
  sync_meta_data :: "('d, unit) stateful"

definition is_no_such_file :: "error \<Rightarrow> bool" where
  "is_no_such_file e = (case e of Io k _ \<Rightarrow> k = NotFound | _ \<Rightarrow> False)"

definition no_such_file :: "u8 list \<Rightarrow> error" where
  "no_such_file message = Io NotFound message"

definition file_already_exists :: "u8 list \<Rightarrow> error" where
  "file_already_exists message = Io AlreadyExists message"

definition file_length :: "('d, 'o, 'z) directory_scheme \<Rightarrow> name \<Rightarrow> ('d, nat) stateful" where
  "file_length D n = bnd (dir_open D n) (\<lambda>b. ret (length b))"

definition open_commit_file :: "('d, 'o, 'z) directory_scheme \<Rightarrow> i64 \<Rightarrow> ('d, u8 list) stateful" where
  "open_commit_file D generation =
     (case segments_file_name generation of
        None \<Rightarrow> fail (Corrupted NoCommitFile)
      | Some n \<Rightarrow> dir_open D n)"

definition read_latest_commit :: "('d, 'o, 'z) directory_scheme \<Rightarrow> ('d, i64 \<times> u8 list) stateful" where
  "read_latest_commit D =
     bnd (dir_list_all D) (\<lambda>files.
       case last_commit_generation files of
         Inl e \<Rightarrow> fail e
       | Inr generation \<Rightarrow> bnd (open_commit_file D generation) (\<lambda>b. ret (generation, b)))"

definition temp_file_name :: "u8 list \<Rightarrow> u8 list \<Rightarrow> u64 \<Rightarrow> name" where
  "temp_file_name prefix suffix counter =
     prefix @ ascii ''_'' @ suffix @ ascii ''_'' @
     to_base36 (if unat counter < 2 ^ 63 then counter else of_nat (2 ^ 63 - 1)) @ ascii ''.tmp''"

section \<open>The in-memory directory\<close>

record byte_buffers_directory =
  bb_files :: "(name \<times> nat) list"
  bb_entries :: "u8 list option list"
  temp_counter :: u64

definition bb_new :: byte_buffers_directory where
  "bb_new = \<lparr>bb_files = [], bb_entries = [], temp_counter = 0\<rparr>"

definition file_exists :: "byte_buffers_directory \<Rightarrow> name \<Rightarrow> bool" where
  "file_exists d n = (map_of (bb_files d) n \<noteq> None)"

definition entry_length :: "u8 list option \<Rightarrow> nat" where
  "entry_length content = (case content of None \<Rightarrow> 0 | Some c \<Rightarrow> length c)"

definition bb_list_all :: "(byte_buffers_directory, name list) stateful" where
  "bb_list_all d = (Inr (sort (map fst (bb_files d))), d)"

definition bb_open :: "name \<Rightarrow> (byte_buffers_directory, u8 list) stateful" where
  "bb_open n d =
     (case map_of (bb_files d) n of
        None \<Rightarrow> (Inl (no_such_file n), d)
      | Some entry \<Rightarrow>
          (case bb_entries d ! entry of
             Some bytes \<Rightarrow> (Inr bytes, d)
           | None \<Rightarrow> (Inl (Io PermissionDenied (ascii ''Can't open a file still open for writing: '' @ n)), d)))"

definition bb_file_length :: "name \<Rightarrow> (byte_buffers_directory, nat) stateful" where
  "bb_file_length n d =
     (case map_of (bb_files d) n of
        None \<Rightarrow> (Inl (no_such_file n), d)
      | Some entry \<Rightarrow> (Inr (entry_length (bb_entries d ! entry)), d))"

definition bb_insert :: "name \<Rightarrow> byte_buffers_directory \<Rightarrow> byte_buffers_directory" where
  "bb_insert n d = d\<lparr>bb_files := AList.update n (length (bb_entries d)) (bb_files d), bb_entries := bb_entries d @ [None]\<rparr>"

definition bb_create_output :: "name \<Rightarrow> (byte_buffers_directory, nat) stateful" where
  "bb_create_output n d =
     (if file_exists d n then (Inl (file_already_exists (ascii ''File already exists: '' @ n)), d)
      else (Inr (length (bb_entries d)), bb_insert n d))"

definition bb_close_output :: "nat \<Rightarrow> u8 list \<Rightarrow> (byte_buffers_directory, unit) stateful" where
  "bb_close_output entry bytes d = (Inr (), d\<lparr>bb_entries := (bb_entries d)[entry := Some bytes]\<rparr>)"

text \<open>The loop over the counter ends at the first free name; \<open>None\<close> is a loop still running after \<open>fuel\<close> rounds.\<close>

fun bb_create_temp_output ::
    "nat \<Rightarrow> u8 list \<Rightarrow> u8 list \<Rightarrow> byte_buffers_directory \<Rightarrow> ((name \<times> nat) \<times> byte_buffers_directory) option" where
  "bb_create_temp_output 0 prefix suffix d = None"
| "bb_create_temp_output (Suc fuel) prefix suffix d =
     (let counter = temp_counter d; d = d\<lparr>temp_counter := counter + 1\<rparr>; n = temp_file_name prefix suffix counter
      in if file_exists d n then bb_create_temp_output fuel prefix suffix d
         else Some ((n, length (bb_entries d)), bb_insert n d))"

definition bb_sync :: "name list \<Rightarrow> (byte_buffers_directory, unit) stateful" where
  "bb_sync ns d = (Inr (), d)"

definition bb_rename :: "name \<Rightarrow> name \<Rightarrow> (byte_buffers_directory, unit) stateful" where
  "bb_rename source dest d =
     (case map_of (bb_files d) source of
        None \<Rightarrow> (Inl (no_such_file source), d)
      | Some entry \<Rightarrow>
          if file_exists d dest then (Inl (file_already_exists dest), d)
          else (Inr (), d\<lparr>bb_files := AList.update dest entry (AList.delete source (bb_files d))\<rparr>))"

definition bb_delete_file :: "name \<Rightarrow> (byte_buffers_directory, unit) stateful" where
  "bb_delete_file n d =
     (case map_of (bb_files d) n of
        None \<Rightarrow> (Inl (no_such_file n), d)
      | Some _ \<Rightarrow> (Inr (), d\<lparr>bb_files := AList.delete n (bb_files d)\<rparr>))"

definition bb_remove_entry :: "name \<Rightarrow> byte_buffers_directory \<Rightarrow> nat option \<times> byte_buffers_directory" where
  "bb_remove_entry n d =
     (map_option (\<lambda>entry. entry_length (bb_entries d ! entry)) (map_of (bb_files d) n),
      d\<lparr>bb_files := AList.delete n (bb_files d)\<rparr>)"

definition bb_sync_meta_data :: "(byte_buffers_directory, unit) stateful" where
  "bb_sync_meta_data d = (Inr (), d)"

definition bb_impl :: "(byte_buffers_directory, nat) directory" where
  "bb_impl = \<lparr>dir_list_all = bb_list_all, dir_open = bb_open, create_output = bb_create_output,
     close_output = bb_close_output, sync = bb_sync, rename = bb_rename, delete_file = bb_delete_file,
     sync_meta_data = bb_sync_meta_data\<rparr>"

section \<open>What a directory promises\<close>

text \<open>\<open>view d n\<close> is the file of that name: a file that keeps its identity is neither deleted nor replaced.\<close>

locale directory_laws =
  fixes D :: "('d, 'o, 'z) directory_scheme" and view :: "'d \<Rightarrow> name \<Rightarrow> 'f option" and good :: "'d \<Rightarrow> bool"
  assumes list_law: "good d \<Longrightarrow> dir_list_all D d = (r, d') \<Longrightarrow> good d' \<and> view d' = view d \<and>
      (\<forall>ns. r = Inr ns \<longrightarrow> distinct ns \<and> set ns = {n. view d n \<noteq> None})"
    and open_law: "good d \<Longrightarrow> dir_open D n d = (ro, d') \<Longrightarrow> good d' \<and> view d' = view d"
    and sync_law: "good d \<Longrightarrow> sync D ns d = (rs, d') \<Longrightarrow> good d' \<and> view d' = view d"
    and delete_law: "good d \<Longrightarrow> delete_file D m d = (rd, d') \<Longrightarrow> good d' \<and>
      (\<forall>n. n \<noteq> m \<longrightarrow> view d' n = view d n) \<and> (rd = Inr () \<longrightarrow> view d' m = None)"

definition bb_file :: "byte_buffers_directory \<Rightarrow> name \<Rightarrow> nat option" where
  "bb_file d = map_of (bb_files d)"

definition bb_good :: "byte_buffers_directory \<Rightarrow> bool" where
  "bb_good d = (distinct (map fst (bb_files d)) \<and> (\<forall>n entry. map_of (bb_files d) n = Some entry \<longrightarrow> entry < length (bb_entries d)))"

interpretation bb: directory_laws bb_impl bb_file bb_good
proof
  fix d :: byte_buffers_directory and r d'
  assume "bb_good d" "dir_list_all bb_impl d = (r, d')"
  then show "bb_good d' \<and> bb_file d' = bb_file d \<and> (\<forall>ns. r = Inr ns \<longrightarrow> distinct ns \<and> set ns = {n. bb_file d n \<noteq> None})"
    by (auto simp: bb_impl_def bb_list_all_def bb_good_def bb_file_def map_of_eq_None_iff; force)
next
  fix d d' :: byte_buffers_directory and n ro
  assume "bb_good d" "dir_open bb_impl n d = (ro, d')"
  then show "bb_good d' \<and> bb_file d' = bb_file d"
    by (auto simp: bb_impl_def bb_open_def split: option.splits)
next
  fix d d' :: byte_buffers_directory and ns rs
  assume "bb_good d" "sync bb_impl ns d = (rs, d')"
  then show "bb_good d' \<and> bb_file d' = bb_file d"
    by (auto simp: bb_impl_def bb_sync_def)
next
  fix d d' :: byte_buffers_directory and m rd
  assume "bb_good d" "delete_file bb_impl m d = (rd, d')"
  moreover from \<open>bb_good d\<close> have "bb_good (d\<lparr>bb_files := AList.delete m (bb_files d)\<rparr>)"
    by (auto simp: bb_good_def distinct_delete delete_conv' split: if_splits)
  ultimately show "bb_good d' \<and> (\<forall>n. n \<noteq> m \<longrightarrow> bb_file d' n = bb_file d n) \<and> (rd = Inr () \<longrightarrow> bb_file d' m = None)"
    by (auto simp: bb_impl_def bb_delete_file_def bb_file_def delete_conv' split: option.splits)
qed

section \<open>Writing and reading back\<close>

lemma bb_insert_good: "bb_good d \<Longrightarrow> bb_good (bb_insert n d)"
  by (auto simp: bb_good_def bb_insert_def distinct_update update_conv' less_Suc_eq split: if_splits)

lemma bb_operations_good:
  assumes "bb_good d"
  shows "bb_good (snd (bb_create_output n d))" "bb_good (snd (bb_close_output entry bytes d))"
    "bb_good (snd (bb_rename source dest d))"
proof -
  show "bb_good (snd (bb_create_output n d))" using assms by (simp add: bb_create_output_def bb_insert_good)
  show "bb_good (snd (bb_close_output entry bytes d))" using assms by (auto simp: bb_close_output_def bb_good_def)
  show "bb_good (snd (bb_rename source dest d))"
    using assms unfolding bb_good_def bb_rename_def
    by (auto simp: distinct_update distinct_delete update_conv' delete_conv' split: option.splits if_splits simp del: map_of_eq_Some_iff)
qed

text \<open>Temporary names: counters give distinct names, so a loop over more counters than files finds a free one.\<close>

lemma temp_file_name_inj:
  assumes "temp_file_name p q a = temp_file_name p q b" and "unat a < 2 ^ 63" and "unat b < 2 ^ 63"
  shows "a = b"
proof -
  have "to_base36 a = to_base36 b" using assms by (simp add: temp_file_name_def)
  then show ?thesis by (metis from_to_base36 option.inject)
qed

lemma temp_loop_None:
  assumes "bb_create_temp_output fuel p q d = None" and "i < fuel"
  shows "file_exists d (temp_file_name p q (temp_counter d + of_nat i))"
  using assms
proof (induction fuel arbitrary: d i)
  case (Suc fuel)
  let ?d = "d\<lparr>temp_counter := temp_counter d + 1\<rparr>"
  have "file_exists ?d (temp_file_name p q (temp_counter d))" and rec: "bb_create_temp_output fuel p q ?d = None"
    using Suc.prems(1) by (simp_all add: Let_def split: if_splits)
  then show ?case
    using Suc.prems(2) Suc.IH [OF rec, of "i - 1"]
    by (cases i) (simp_all add: file_exists_def add.assoc)
qed simp

lemma temp_loop_returns:
  assumes "length (bb_files d) < fuel" and "unat (temp_counter d) + fuel \<le> 2 ^ 63"
  shows "\<exists>n entry d'. bb_create_temp_output fuel p q d = Some ((n, entry), d')"
proof (rule ccontr)
  let ?f = "\<lambda>i. temp_file_name p q (temp_counter d + of_nat i)"
  assume "\<not> ?thesis"
  then have none: "bb_create_temp_output fuel p q d = None" by (metis not_None_eq surj_pair)
  have small: "unat (temp_counter d + of_nat i) = unat (temp_counter d) + i" if "i < fuel" for i
  proof -
    have "i < 2 ^ 64" "unat (temp_counter d) + i < 2 ^ 64" using that assms(2) by simp_all
    then show ?thesis by (simp add: unat_word_ariths unsigned_of_nat take_bit_nat_eq_self)
  qed
  have inj: "inj_on ?f {..<fuel}"
  proof (rule inj_onI)
    fix i j assume ij: "i \<in> {..<fuel}" "j \<in> {..<fuel}" "?f i = ?f j"
    then have "temp_counter d + of_nat i = temp_counter d + of_nat j"
      using small assms(2) by (intro temp_file_name_inj [of p q]) simp_all
    then show "i = j" using small ij by (metis add_left_cancel lessThan_iff)
  qed
  have "?f ` {..<fuel} \<subseteq> fst ` set (bb_files d)"
    using temp_loop_None [OF none] by (auto simp: file_exists_def map_of_eq_None_iff)
  then have "card (?f ` {..<fuel}) \<le> card (fst ` set (bb_files d))" by (intro card_mono) auto
  also have "\<dots> \<le> length (bb_files d)" by (metis card_length length_map set_map)
  finally show False using card_image [OF inj] assms(1) by simp
qed

section \<open>Properties\<close>

text \<open>
  \<open>ByteBuffersDirectory\<close> writes a file once and reads it back. In a well-formed directory, creating an
  existing name fails and changes nothing. A new file is listed at once, cannot be opened before its output is
  closed and then holds exactly the bytes written, also when it was renamed in between (under the new name);
  every other file is untouched.
\<close>
theorem byte_buffers_write_once:
  assumes "bb_good d" and "\<not> file_exists d n" and "\<not> file_exists d m" and "n \<noteq> m"
  shows "\<exists>h d1 d2 d3. bb_create_output n d = (Inr h, d1) \<and> bb_good d1 \<and>
    bb_create_output n d1 = (Inl (file_already_exists (ascii ''File already exists: '' @ n)), d1) \<and>
    bb_open n d1 = (Inl (Io PermissionDenied (ascii ''Can't open a file still open for writing: '' @ n)), d1) \<and>
    bb_rename n m d1 = (Inr (), d2) \<and> bb_close_output h bytes d2 = (Inr (), d3) \<and> bb_good d3 \<and>
    bb_open m d3 = (Inr bytes, d3) \<and> \<not> file_exists d3 n \<and>
    set (case fst (bb_list_all d3) of Inr ns \<Rightarrow> ns | Inl _ \<Rightarrow> []) = insert m (fst ` set (bb_files d)) \<and>
    (\<forall>k. k \<noteq> m \<longrightarrow> fst (bb_open k d3) = fst (bb_open k d))"
proof -
  define h where "h = length (bb_entries d)"
  define d1 where "d1 = bb_insert n d"
  define d2 where "d2 = snd (bb_rename n m d1)"
  define d3 where "d3 = snd (bb_close_output h bytes d2)"
  have c: "bb_create_output n d = (Inr h, d1)" using assms(2) by (simp add: bb_create_output_def h_def d1_def)
  have f1: "map_of (bb_files d1) = (map_of (bb_files d))(n \<mapsto> h)" "bb_entries d1 = bb_entries d @ [None]"
    by (simp_all add: d1_def bb_insert_def update_conv' h_def)
  have r: "bb_rename n m d1 = (Inr (), d2)" using assms(3,4) f1 by (simp add: d2_def bb_rename_def file_exists_def)
  have files: "map_of (bb_files d3) = ((map_of (bb_files d))(m \<mapsto> h))(n := None)"
    using assms(2-4) f1 unfolding d3_def d2_def
    by (auto simp: bb_rename_def bb_close_output_def file_exists_def update_conv' delete_conv' fun_eq_iff)
  have entries: "bb_entries d3 = bb_entries d @ [Some bytes]"
    using assms(3,4) f1 by (simp add: d3_def d2_def bb_rename_def bb_close_output_def file_exists_def h_def list_update_append)
  have "bb_good d1" "bb_good d3"
    using assms(1) bb_operations_good(2,3) bb_insert_good by (simp_all add: d1_def d2_def d3_def)
  moreover have "fst ` set (bb_files d3) = insert m (fst ` set (bb_files d))"
    using files assms(2,4) unfolding dom_map_of_conv_image_fst [symmetric] by (auto simp: file_exists_def dom_def)
  moreover have "fst (bb_open k d3) = fst (bb_open k d)" if "k \<noteq> m" for k
    using that files entries assms(1,2)
    by (auto simp: bb_open_def bb_good_def file_exists_def nth_append split: option.splits)
  moreover have "bb_create_output n d1 = (Inl (file_already_exists (ascii ''File already exists: '' @ n)), d1)"
    "bb_open n d1 = (Inl (Io PermissionDenied (ascii ''Can't open a file still open for writing: '' @ n)), d1)"
    using f1 by (simp_all add: bb_create_output_def bb_open_def file_exists_def h_def)
  moreover have "bb_close_output h bytes d2 = (Inr (), d3)" by (simp add: d3_def bb_close_output_def)
  moreover have "bb_open m d3 = (Inr bytes, d3)" "\<not> file_exists d3 n"
    using files entries assms(4) by (simp_all add: bb_open_def file_exists_def h_def)
  ultimately show ?thesis
    using c r by (intro exI [of _ h] exI [of _ d1] exI [of _ d2] exI [of _ d3]) (simp add: bb_list_all_def)
qed

theorem byte_buffers_write_once_witness:
  "\<exists>h d1 d2 d3. bb_create_output (ascii ''a'') bb_new = (Inr h, d1) \<and> bb_rename (ascii ''a'') (ascii ''b'') d1 = (Inr (), d2) \<and>
     bb_close_output h [1, 2] d2 = (Inr (), d3) \<and> bb_open (ascii ''b'') d3 = (Inr [1, 2], d3)"
  using byte_buffers_write_once [of bb_new "ascii ''a''" "ascii ''b''" "[1, 2]"]
  by (auto simp: bb_new_def bb_good_def file_exists_def ascii_def)

text \<open>
  C40: The loop of \<open>create_temp_output\<close> ends. With a counter far from wrapping it finds a free name after at most
  one round more than there are files, never an existing one, and the new file is the only change.
\<close>
theorem create_temp_output_terminates:
  assumes "bb_good d" and "length (bb_files d) < fuel" and "unat (temp_counter d) + fuel \<le> 2 ^ 63"
  shows "\<exists>n entry d'. bb_create_temp_output fuel p q d = Some ((n, entry), d') \<and> \<not> file_exists d n \<and> bb_good d' \<and>
    (\<forall>k. bb_file d' k = (if k = n then Some entry else bb_file d k))"
proof -
  have "bb_create_temp_output k p q e = Some ((n, entry), d') \<Longrightarrow> bb_good e \<Longrightarrow> bb_files e = bb_files d \<Longrightarrow>
      \<not> file_exists d n \<and> bb_good d' \<and> (\<forall>k. bb_file d' k = (if k = n then Some entry else bb_file d k))" for k e n entry d'
  proof (induction k arbitrary: e)
    case (Suc k)
    let ?e = "e\<lparr>temp_counter := temp_counter e + 1\<rparr>"
    have e: "bb_good ?e" "bb_files ?e = bb_files d" using Suc.prems by (simp_all add: bb_good_def)
    show ?case
    proof (cases "file_exists ?e (temp_file_name p q (temp_counter e))")
      case True
      then show ?thesis using Suc.IH [of ?e] Suc.prems(1) e by (simp add: Let_def)
    next
      case False
      then show ?thesis
        using Suc.prems(1) e bb_insert_good [OF e(1)]
        by (auto simp: Let_def file_exists_def bb_file_def bb_insert_def update_conv')
    qed
  qed simp
  then show ?thesis using temp_loop_returns [OF assms(2,3), of p q] assms(1) by blast
qed

theorem create_temp_output_terminates_witness:
  "\<exists>n entry d'. bb_create_temp_output 1 (ascii ''_0'') (ascii ''sort'') bb_new = Some ((n, entry), d') \<and> bb_good d'"
  using create_temp_output_terminates [of bb_new 1 "ascii ''_0''" "ascii ''sort''"]
  by (auto simp: bb_new_def bb_good_def)

end
