(* ===== verification/Compound_Format.thy ===== *)
theory Compound_Format
  imports Framed_Files Store_Directory
begin

text \<open>
  \<open>lucene-codecs/src/compound_format.rs\<close>: the files of a segment packed into one \<open>.cfs\<close>, with a table of names,
  offsets and lengths in a \<open>.cfe\<close>. Sub-files are checked before they are packed, smallest first, each at a 64-byte
  boundary (paged stored fields at a page). Byte counts are natural numbers; an offset or a length on disk is an \<open>i64\<close>.
\<close>

section \<open>Entries\<close>

definition ALIGNMENT_BYTES :: nat where
  "ALIGNMENT_BYTES = 64"

definition DATA_CODEC :: "u8 list" where
  "DATA_CODEC = ascii ''Lucene90CompoundData''"

definition ENTRY_CODEC :: "u8 list" where
  "ENTRY_CODEC = ascii ''Lucene90CompoundEntries''"

definition CF_VERSION_START :: i32 where
  "CF_VERSION_START = 0"

definition CF_VERSION_CURRENT :: i32 where
  "CF_VERSION_CURRENT = CF_VERSION_START"

definition DATA_CODEC_ZSTD_PAGED :: "u8 list" where
  "DATA_CODEC_ZSTD_PAGED = ascii ''RustZstdPagedStoredFieldsData''"

definition ZSTD_PAGED_PAGE_SIZE :: nat where
  "ZSTD_PAGED_PAGE_SIZE = 16384"

datatype cf_error =
    CfStore error
  | DuplicateEntry name
  | WrongLength nat nat
  | FileNotFound name "name list"
  | BadSubFileMagic name

type_synonym 'a cf_parser = "(slice_input, cf_error, 'a) fallible"

abbreviation cf_store :: "(slice_input, 'a) stateful \<Rightarrow> 'a cf_parser" where
  "cf_store \<equiv> map_err CfStore"

record file_entry =
  fe_offset :: i64
  fe_length :: i64

record compound_entries =
  ce_version :: i32
  ce_entries :: "(name \<times> file_entry) list"

definition ce_get :: "compound_entries \<Rightarrow> name \<Rightarrow> file_entry option" where
  "ce_get ce i = map_option snd (find (\<lambda>(n, _). n = i) (ce_entries ce))"

definition ce_names :: "compound_entries \<Rightarrow> name list" where
  "ce_names ce = map fst (ce_entries ce)"

section \<open>Reading\<close>

fun read_entries :: "nat \<Rightarrow> (name \<times> file_entry) list \<Rightarrow> (name \<times> file_entry) list cf_parser" where
  "read_entries 0 entries = ret entries"
| "read_entries (Suc n) entries =
     bnd (cf_store slice_read_string) (\<lambda>i.
       if list_ex (\<lambda>(n, _). n = i) entries then fail (DuplicateEntry i)
       else
         bnd (cf_store slice_read_i64) (\<lambda>offset.
         bnd (cf_store slice_read_i64) (\<lambda>len.
           read_entries n (entries @ [(i, \<lparr>fe_offset = offset, fe_length = len\<rparr>)]))))"

definition entries_payload :: "u8 list \<Rightarrow> compound_entries cf_parser" where
  "entries_payload segid =
     bnd (cf_store (check_index_header ENTRY_CODEC CF_VERSION_START CF_VERSION_CURRENT segid [])) (\<lambda>header.
     bnd (cf_store slice_read_vint) (\<lambda>num_entries.
     bnd (read_entries (nat (sint num_entries)) []) (\<lambda>entries.
       ret \<lparr>ce_version = ih_version header, ce_entries = entries\<rparr>)))"

definition parse_entries :: "('h, 'z) crc32fast_scheme \<Rightarrow> nat \<Rightarrow> u8 list \<Rightarrow> u8 list \<Rightarrow> cf_error + compound_entries" where
  "parse_entries K threads b segid =
     fst (bnd (entries_payload segid) (\<lambda>ce.
          bnd (cf_store (check_footer K threads (length b))) (\<lambda>_. ret ce)) (slice_new b))"

text \<open>The end of an entry: a saturating sum of two \<open>i64\<close>, \<open>usize::MAX\<close> when it is negative.\<close>

definition extent :: "file_entry \<Rightarrow> nat" where
  "extent e =
     (let s = max (- (2 ^ 63)) (min (2 ^ 63 - 1) (sint (fe_offset e) + sint (fe_length e)))
      in if s < 0 then usize_max else nat s)"

definition max_extent :: "compound_entries \<Rightarrow> nat" where
  "max_extent ce =
     (if ce_entries ce = [] then index_header_length DATA_CODEC []
      else Max (set (map (\<lambda>(_, e). extent e) (ce_entries ce))))"

definition check_data_header_footer :: "u8 list \<Rightarrow> u8 list \<Rightarrow> compound_entries \<Rightarrow> cf_error + unit" where
  "check_data_header_footer b segid ce =
     (case fst (check_index_header DATA_CODEC (ce_version ce) (ce_version ce) segid [] (slice_new b)) of
        Inl e \<Rightarrow> Inl (CfStore e)
      | Inr _ \<Rightarrow>
          (case retrieve_checksum b of
             Inl e \<Rightarrow> Inl (CfStore e)
           | Inr _ \<Rightarrow>
               (let expected_length = saturating_add (max_extent ce) FOOTER_LENGTH
                in if length b \<noteq> expected_length then Inl (WrongLength expected_length (length b)) else Inr ())))"

definition open_input :: "u8 list \<Rightarrow> compound_entries \<Rightarrow> name \<Rightarrow> cf_error + slice_input" where
  "open_input data ce i =
     (case ce_get ce i of
        None \<Rightarrow> Inl (FileNotFound i (ce_names ce))
      | Some e \<Rightarrow> map_sum CfStore id (sub_input (slice_new data) (unat (fe_offset e)) (unat (fe_length e))))"

section \<open>Writing\<close>

definition next_multiple_of :: "nat \<Rightarrow> nat \<Rightarrow> nat" where
  "next_multiple_of n m = (n + m - 1) div m * m"

definition is_paged :: "u8 list \<Rightarrow> bool" where
  "is_paged bytes =
     (case read_be_u32 slice_impl (slice_new bytes) of
        (Inl _, _) \<Rightarrow> False
      | (Inr _, s) \<Rightarrow> (case slice_read_string s of (Inl _, _) \<Rightarrow> False | (Inr codec, _) \<Rightarrow> codec = DATA_CODEC_ZSTD_PAGED))"

definition entry_start :: "nat \<Rightarrow> u8 list \<Rightarrow> nat" where
  "entry_start p bytes =
     (let start = next_multiple_of p ALIGNMENT_BYTES in
      if \<not> is_paged bytes then start
      else
        let page = ZSTD_PAGED_PAGE_SIZE;
            room = page - start mod page
        in if length bytes \<le> room then start else next_multiple_of p page)"

definition verify_sub_file :: "('h, 'z) crc32fast_scheme \<Rightarrow> nat \<Rightarrow> name \<Rightarrow> u8 list \<Rightarrow> u8 list \<Rightarrow> cf_error + unit" where
  "verify_sub_file K threads n bytes segid =
     fst (bnd (cf_store (read_be_u32 slice_impl)) (\<lambda>magic.
          if magic \<noteq> CODEC_MAGIC then fail (BadSubFileMagic n)
          else
            bnd (cf_store slice_read_string) (\<lambda>_.
            bnd (cf_store (read_be_u32 slice_impl)) (\<lambda>_.
            bnd (cf_store (check_index_header_id segid)) (\<lambda>_.
            bnd (cf_store slice_read_byte) (\<lambda>suffix_len.
            bnd (cf_store (slice_skip (unat suffix_len))) (\<lambda>_.
              if length bytes < FOOTER_LENGTH then fail (CfStore (Eof (length bytes)))
              else
                bnd (cf_store (slice_seek (length bytes - FOOTER_LENGTH))) (\<lambda>_.
                bnd (cf_store (check_footer K threads (length bytes))) (\<lambda>_. ret ()))))))))
        (slice_new bytes))"

fun write_sub_files ::
    "('h, 'z) crc32fast_scheme \<Rightarrow> nat \<Rightarrow> u8 list \<Rightarrow> (name \<times> u8 list) list \<Rightarrow> u8 list \<Rightarrow> u8 list \<Rightarrow>
     cf_error + u8 list \<times> u8 list" where
  "write_sub_files K threads segid [] cfs cfe = Inr (cfs, cfe)"
| "write_sub_files K threads segid ((n, bytes) # ordered) cfs cfe =
     (case verify_sub_file K threads n bytes segid of
        Inl e \<Rightarrow> Inl e
      | Inr _ \<Rightarrow>
          (let start = entry_start (length cfs) bytes;
               cfs = take start cfs @ replicate (start - length cfs) 0;
               start_offset = of_nat (length cfs) :: i64;
               cfs = cfs @ bytes;
               len = of_nat (length cfs) - start_offset;
               cfe = write_string bytes_impl cfe n;
               cfe = write_i64 bytes_impl cfe start_offset;
               cfe = write_i64 bytes_impl cfe len
           in write_sub_files K threads segid ordered cfs cfe))"

text \<open>\<open>None\<close> is a panic of \<open>write_index_header\<close>.\<close>

definition compound_write ::
    "('h, 'z) crc32fast_scheme \<Rightarrow> nat \<Rightarrow> u8 list \<Rightarrow> (name \<times> u8 list) list \<Rightarrow> (cf_error + u8 list \<times> u8 list) option" where
  "compound_write K threads segid sub_files =
     (let ordered = sort_key (\<lambda>(_, bytes). length bytes) sub_files in
      case (write_index_header bytes_impl [] DATA_CODEC CF_VERSION_CURRENT segid [],
            write_index_header bytes_impl [] ENTRY_CODEC CF_VERSION_CURRENT segid []) of
        (Some cfs, Some cfe) \<Rightarrow>
          (let cfe = write_vint bytes_impl cfe (of_nat (length ordered)) in
           Some (case write_sub_files K threads segid ordered cfs cfe of
                   Inl e \<Rightarrow> Inl e
                 | Inr (cfs, cfe) \<Rightarrow> Inr (write_footer K threads cfs, write_footer K threads cfe)))
      | _ \<Rightarrow> None)"

section \<open>Where the sub-files go\<close>

lemma next_multiple_of: "0 < m \<Longrightarrow> n \<le> next_multiple_of n m" "m dvd next_multiple_of n m"
proof -
  assume m: "0 < m"
  have "n + m - 1 < (n + m - 1) div m * m + m" using div_mult_mod_eq [of "n + m - 1" m] mod_less_divisor [OF m, of "n + m - 1"] by linarith
  then show "n \<le> next_multiple_of n m" using m by (simp add: next_multiple_of_def)
qed (simp add: next_multiple_of_def)

lemma entry_start: "p \<le> entry_start p bytes" "64 dvd entry_start p bytes"
proof -
  have "(64 :: nat) dvd next_multiple_of p ZSTD_PAGED_PAGE_SIZE"
    by (rule dvd_trans [OF _ next_multiple_of(2)]) (simp add: ZSTD_PAGED_PAGE_SIZE_def)
  then show "p \<le> entry_start p bytes" "64 dvd entry_start p bytes"
    using next_multiple_of(1) [of ALIGNMENT_BYTES p] next_multiple_of(1) [of ZSTD_PAGED_PAGE_SIZE p] next_multiple_of(2) [of 64 p]
    by (auto simp: entry_start_def Let_def ALIGNMENT_BYTES_def ZSTD_PAGED_PAGE_SIZE_def)
qed

fun layout :: "nat \<Rightarrow> (name \<times> u8 list) list \<Rightarrow> (name \<times> nat \<times> u8 list) list" where
  "layout p [] = []"
| "layout p ((n, bytes) # fs) = (let start = entry_start p bytes in (n, start, bytes) # layout (start + length bytes) fs)"

fun layout_end :: "nat \<Rightarrow> (name \<times> u8 list) list \<Rightarrow> nat" where
  "layout_end p [] = p"
| "layout_end p ((n, bytes) # fs) = layout_end (entry_start p bytes + length bytes) fs"

definition placed_entry :: "name \<times> nat \<times> u8 list \<Rightarrow> name \<times> file_entry" where
  "placed_entry = (\<lambda>(n, start, bytes). (n, \<lparr>fe_offset = of_nat start, fe_length = of_nat (length bytes)\<rparr>))"

definition entry_bytes :: "name \<times> file_entry \<Rightarrow> u8 list" where
  "entry_bytes = (\<lambda>(n, e). string_bytes n @ to_le_bytes 8 (fe_offset e) @ to_le_bytes 8 (fe_length e))"

lemma layout_names: "map fst (layout p fs) = map fst fs"
  by (induction p fs rule: layout.induct) (simp_all add: Let_def)

lemma layout_end_ge: "p \<le> layout_end p fs"
proof (induction p fs rule: layout_end.induct)
  case (2 p n bytes fs)
  then show ?case using entry_start(1) [of p bytes] by simp
qed simp

lemma layout_bounds: "(n, start, bytes) \<in> set (layout p fs) \<Longrightarrow> p \<le> start \<and> 64 dvd start \<and> start + length bytes \<le> layout_end p fs \<and> (n, bytes) \<in> set fs"
proof (induction p fs rule: layout.induct)
  case (2 p m bs fs)
  show ?case
  proof (cases "(n, start, bytes) = (m, entry_start p bs, bs)")
    case True
    then show ?thesis using entry_start [of p bs] layout_end_ge [of "entry_start p bs + length bs" fs] by simp
  next
    case False
    then have "(n, start, bytes) \<in> set (layout (entry_start p bs + length bs) fs)" using "2.prems" by (auto simp: Let_def)
    with "2.IH" [OF refl] show ?thesis using entry_start(1) [of p bs] by auto
  qed
qed simp

lemma layout_last: "fs \<noteq> [] \<Longrightarrow> \<exists>(n, start, bytes) \<in> set (layout p fs). start + length bytes = layout_end p fs"
proof (induction p fs rule: layout.induct)
  case (2 p m bs fs)
  then show ?case by (cases fs) (auto simp: Let_def)
qed simp

lemma layout_covers: "(n, bytes) \<in> set fs \<Longrightarrow> \<exists>start. (n, start, bytes) \<in> set (layout p fs)"
  by (induction p fs rule: layout.induct) (auto simp: Let_def)

lemma write_sub_files_layout:
  assumes "\<forall>(n, bytes) \<in> set fs. verify_sub_file K threads n bytes segid = Inr ()"
  shows "\<exists>tail. write_sub_files K threads segid fs cfs cfe =
      Inr (cfs @ tail, cfe @ concat (map entry_bytes (map placed_entry (layout (length cfs) fs)))) \<and>
    length (cfs @ tail) = layout_end (length cfs) fs \<and>
    (\<forall>(n, start, bytes) \<in> set (layout (length cfs) fs). take (length bytes) (drop start (cfs @ tail)) = bytes)"
  using assms
proof (induction fs arbitrary: cfs cfe)
  case (Cons f fs)
  obtain n bytes where f: "f = (n, bytes)" by fastforce
  define start where "start = entry_start (length cfs) bytes"
  define cfs1 where "cfs1 = (cfs @ replicate (start - length cfs) 0) @ bytes"
  define cfe1 where "cfe1 = cfe @ entry_bytes (placed_entry (n, start, bytes))"
  have start: "length cfs \<le> start" using entry_start(1) by (simp add: start_def)
  then have len: "length cfs1 = start + length bytes" by (simp add: cfs1_def)
  have lengths: "of_nat (start + length bytes) - of_nat start = (of_nat (length bytes) :: i64)" by simp
  have step: "write_sub_files K threads segid (f # fs) cfs cfe = write_sub_files K threads segid fs cfs1 cfe1"
    using Cons.prems start
    by (simp add: f start_def [symmetric] cfs1_def cfe1_def entry_bytes_def placed_entry_def bytes.written_string bytes.written_fixed
        lengths Let_def)
  obtain tail where tail: "write_sub_files K threads segid fs cfs1 cfe1 =
      Inr (cfs1 @ tail, cfe1 @ concat (map entry_bytes (map placed_entry (layout (length cfs1) fs))))"
      "length (cfs1 @ tail) = layout_end (length cfs1) fs"
      "\<forall>(n, start, bytes) \<in> set (layout (length cfs1) fs). take (length bytes) (drop start (cfs1 @ tail)) = bytes"
    using Cons.IH [of cfs1 cfe1] Cons.prems by auto
  have lay: "layout (length cfs) (f # fs) = (n, start, bytes) # layout (length cfs1) fs"
    by (simp add: f start_def [symmetric] len)
  have "take (length bytes) (drop start (cfs1 @ tail)) = bytes" using start by (simp add: cfs1_def)
  moreover have "cfs1 @ tail = cfs @ (replicate (start - length cfs) 0 @ bytes @ tail)" by (simp add: cfs1_def)
  moreover have "layout_end (length cfs) (f # fs) = layout_end (length cfs1) fs" by (simp add: f start_def [symmetric] len)
  ultimately show ?case
    using step tail lay
    by (intro exI [of _ "replicate (start - length cfs) 0 @ bytes @ tail"]) (simp add: cfe1_def)
qed simp

text \<open>Padding and table entries are small: 20000 bytes and the name per sub-file are enough.\<close>

definition room_needed :: "(name \<times> u8 list) list \<Rightarrow> nat" where
  "room_needed fs = sum_list (map (\<lambda>(n, bytes). length n + length bytes + 20000) fs)"

lemma entry_start_le: "entry_start p bytes \<le> p + 16384"
proof -
  have "next_multiple_of p m \<le> p + m" for m
    unfolding next_multiple_of_def using div_times_less_eq_dividend [of "p + m - 1" m] by linarith
  from this [of ALIGNMENT_BYTES] this [of ZSTD_PAGED_PAGE_SIZE] show ?thesis
    by (auto simp: entry_start_def Let_def ALIGNMENT_BYTES_def ZSTD_PAGED_PAGE_SIZE_def)
qed

lemma layout_end_le: "layout_end p fs \<le> p + room_needed fs"
proof (induction p fs rule: layout_end.induct)
  case (2 p n bytes fs)
  then show ?case using entry_start_le [of p bytes] by (simp add: room_needed_def)
qed (simp add: room_needed_def)

lemma length_entries_le: "length (concat (map entry_bytes (map placed_entry (layout p fs)))) \<le> room_needed fs"
proof (induction p fs rule: layout.induct)
  case (2 p n bytes fs)
  then show ?case
    using length_string_bytes_le [of n] by (simp add: room_needed_def entry_bytes_def placed_entry_def Let_def)
qed (simp add: room_needed_def)

lemma room_needed_sort: "room_needed (sort_key f fs) = room_needed fs"
proof -
  have "room_needed (insort_key f x xs) = room_needed (x # xs)" for x xs
    by (induction xs) (simp_all add: room_needed_def)
  then show ?thesis by (induction fs) (simp_all, simp add: room_needed_def)
qed

section \<open>Reading the table back\<close>

lemma read_entries_decode:
  assumes "distinct (map fst (done @ es))" and "\<forall>e \<in> set es. good_string (fst e)"
  shows "decodes slice_ok as_slice (read_entries (length es) done) (concat (map entry_bytes es)) (done @ es)"
  using assms
proof (induction es arbitrary: "done")
  case (Cons e es)
  obtain n offset len where e: "e = (n, \<lparr>fe_offset = offset, fe_length = len\<rparr>)" by (metis file_entry.cases surj_pair)
  have "decodes slice_ok as_slice (read_entries (length es) (done @ [e])) (concat (map entry_bytes es)) ((done @ [e]) @ es)"
    using Cons.prems by (intro Cons.IH) auto
  then have rest: "decodes slice_ok as_slice (bnd (cf_store slice_read_i64) (\<lambda>offset. bnd (cf_store slice_read_i64) (\<lambda>len.
      read_entries (length es) (done @ [(n, \<lparr>fe_offset = offset, fe_length = len\<rparr>)]))))
      (to_le_bytes 8 offset @ to_le_bytes 8 len @ concat (map entry_bytes es)) (done @ e # es)"
    by (intro decodes_bnd [OF decodes_map_err [OF slice_decoders(6)]]) (simp add: e)
  have fresh: "\<not> list_ex (\<lambda>(m, _). m = n) done" using Cons.prems(1) by (auto simp: e list_ex_iff image_iff)
  have "decodes slice_ok as_slice (read_entries (Suc (length es)) done)
      (string_bytes n @ to_le_bytes 8 offset @ to_le_bytes 8 len @ concat (map entry_bytes es)) (done @ e # es)"
    unfolding read_entries.simps
  proof (rule decodes_bnd [OF decodes_map_err [OF slice_string]])
    show "good_string n" using Cons.prems(2) by (simp add: e)
  qed (use rest fresh in \<open>simp only: if_False\<close>)
  then show ?case by (simp add: e entry_bytes_def)
qed simp

lemma entries_decode:
  assumes "length segid = ID_LENGTH" and "distinct (map fst es)" and "\<forall>e \<in> set es. good_string (fst e)" and "length es < 2 ^ 31"
  shows "decodes slice_ok as_slice (entries_payload segid)
    (index_header_bytes ENTRY_CODEC CF_VERSION_CURRENT segid [] @ encode_varint (ucast (of_nat (length es) :: i32)) @
     concat (map entry_bytes es)) \<lparr>ce_version = CF_VERSION_CURRENT, ce_entries = es\<rparr>"
  unfolding entries_payload_def
proof (rule decodes_bnd [OF decodes_map_err [OF index_header_decodes]], goal_cases)
  case 6
  have "decodes slice_ok as_slice (read_entries (nat (sint (of_nat (length es) :: i32))) []) (concat (map entry_bytes es)) es"
    using read_entries_decode [of "[]" es] assms(2-4) by (simp add: small_count)
  then show ?case
    by (intro decodes_bnd [OF decodes_map_err [OF slice_decoders(1)]] decodes_last) (assumption, simp only: decodes_ret index_header.simps)
qed (use assms(1) in \<open>simp_all add: ENTRY_CODEC_def ascii_def CF_VERSION_START_def CF_VERSION_CURRENT_def\<close>)

lemma keeps_entries_payload: "keeps (reading b) (entries_payload segid)"
proof -
  have i64: "keeps (reading b) slice_read_i64"
    by (auto simp: keeps_def slice_read_i64_def slice_read_fixed_def slice_ok_def slice_get_def split: option.splits if_splits)
  have "keeps (reading b) (read_entries n es)" for n es
    by (induction n arbitrary: es) (auto intro!: keeps_bnd keeps_if keeps_reading i64)
  then show ?thesis
    unfolding entries_payload_def by (intro keeps_bnd keeps_reading keeps_reading_index_header)
qed

section \<open>Checking the archive\<close>

lemma footer_of_payload:
  "write_footer K threads payload = payload @ to_be_bytes 4 FOOTER_MAGIC @ to_be_bytes 4 (0 :: u32) @
     to_be_bytes 8 (ucast (crc32 K threads (payload @ to_be_bytes 4 FOOTER_MAGIC @ to_be_bytes 4 (0 :: u32))) :: u64)"
  by (simp add: write_footer_eq footer_bytes_def)

lemma footers_accepted:
  assumes "b = write_footer K threads payload" and "length b \<le> usize_max"
  shows "\<exists>c. retrieve_checksum b = Inr c" "\<exists>c s. check_footer K threads (length b) \<lparr>sbuf = b, pos = length payload\<rparr> = (Inr c, s)"
proof -
  note e = check_footer_eval [OF assms(2) assms(1) [unfolded footer_of_payload]]
  show "\<exists>c. retrieve_checksum b = Inr c" unfolding e(2) by (simp add: footer_verdict_def crc_fits)
  have "\<exists>c. fst (check_footer K threads (length b) \<lparr>sbuf = b, pos = length payload\<rparr>) = Inr c"
    unfolding e(1) by (simp add: footer_verdict_def crc_fits)
  then show "\<exists>c s. check_footer K threads (length b) \<lparr>sbuf = b, pos = length payload\<rparr> = (Inr c, s)" by (metis prod.collapse)
qed

lemma extent_placed:
  assumes "start + length bytes < 2 ^ 63"
  shows "extent (snd (placed_entry (n, start, bytes))) = start + length bytes"
proof -
  have "sint (of_nat k :: i64) = int k" if "k < 2 ^ 63" for k
    using that sint_eq_unat [of "of_nat k :: i64"] by (simp add: unsigned_of_nat take_bit_nat_eq_self)
  then have "sint (of_nat start :: i64) = int start" "sint (of_nat (length bytes) :: i64) = int (length bytes)"
    using assms by auto
  then show ?thesis using assms by (simp add: extent_def placed_entry_def Let_def)
qed

lemma max_extent_layout:
  assumes "layout_end p fs < 2 ^ 63" and "p = index_header_length DATA_CODEC []"
  shows "max_extent \<lparr>ce_version = v, ce_entries = map placed_entry (layout p fs)\<rparr> = layout_end p fs"
proof (cases "fs = []")
  case True
  then show ?thesis by (simp add: max_extent_def assms(2))
next
  case False
  let ?exts = "(\<lambda>(n, start, bytes). start + length bytes) ` set (layout p fs)"
  have "(\<lambda>(_, e). extent e) (placed_entry f) = (\<lambda>(n, start, bytes). start + length bytes) f" if "f \<in> set (layout p fs)" for f
  proof -
    obtain n start bytes where f: "f = (n, start, bytes)" by (metis surj_pair)
    then have "start + length bytes < 2 ^ 63" using layout_bounds [of n start bytes p fs] that assms(1) by simp
    from extent_placed [OF this, of n] show ?thesis by (simp add: f case_prod_beta)
  qed
  then have "set (map (\<lambda>(_, e). extent e) (map placed_entry (layout p fs))) = ?exts" by (force simp: image_iff)
  moreover have "Max ?exts = layout_end p fs"
  proof (rule Max_eqI)
    show "layout_end p fs \<in> ?exts" using layout_last [OF False, of p] by (force simp: image_iff)
    show "y \<le> layout_end p fs" if "y \<in> ?exts" for y using that layout_bounds [of _ _ _ p fs] by auto
  qed simp
  moreover have "layout p fs \<noteq> []" using False layout_names [of p fs] by (metis map_is_Nil_conv)
  ultimately show ?thesis by (simp add: max_extent_def)
qed

lemma find_entry: "distinct (map fst es) \<Longrightarrow> (i, e) \<in> set es \<Longrightarrow> find (\<lambda>(n, _). n = i) es = Some (i, e)"
  by (induction es) (auto simp: image_iff rev_image_eqI)

lemma no_entry: "i \<notin> fst ` set es \<Longrightarrow> find (\<lambda>(n, _). n = i) es = None"
  by (auto simp: find_None_iff image_iff)

lemma data_header: "length segid = ID_LENGTH \<Longrightarrow>
  length (index_header_bytes DATA_CODEC CF_VERSION_CURRENT segid []) = index_header_length DATA_CODEC []"
  by (rule length_index_header_bytes) (simp_all add: DATA_CODEC_def ascii_def)

lemma compound_write_eq:
  assumes "length segid = ID_LENGTH"
  shows "compound_write K threads segid sub_files =
    (let fs = sort_key (\<lambda>(_, bytes). length bytes) sub_files in
     Some (case write_sub_files K threads segid fs (index_header_bytes DATA_CODEC CF_VERSION_CURRENT segid [])
              (index_header_bytes ENTRY_CODEC CF_VERSION_CURRENT segid [] @ encode_varint (ucast (of_nat (length fs) :: i32))) of
             Inl e \<Rightarrow> Inl e
           | Inr (cfs, cfe) \<Rightarrow> Inr (write_footer K threads cfs, write_footer K threads cfe)))"
proof -
  have "write_index_header bytes_impl [] codec CF_VERSION_CURRENT segid [] = Some (index_header_bytes codec CF_VERSION_CURRENT segid [])"
    if "length codec \<le> 30" for codec
    using assms that by (subst write_index_header_eq) (simp_all add: usize_max_def bytes.write_bytes_law)
  then show ?thesis
    by (simp add: compound_write_def DATA_CODEC_def ENTRY_CODEC_def ascii_def bytes.write_vint_law Let_def)
qed

text \<open>A file with an index header of the segment and a footer passes the check on sub-files.\<close>

lemma verify_framed:
  assumes "length i = ID_LENGTH" and "length suffix < 256" and "good_string codec"
    and "b = write_footer K threads (index_header_bytes codec v i suffix @ body)" and "length b \<le> usize_max"
  shows "verify_sub_file K threads n b segid = (if i = segid then Inr () else Inl (CfStore (Corrupted IdMismatch)))"
proof -
  let ?p = "index_header_bytes codec v i suffix @ body"
  have b: "b = to_be_bytes 4 CODEC_MAGIC @ string_bytes codec @ to_be_bytes 4 v @ i @ of_nat (length suffix) # suffix @ drop (length ?p - length body) b"
    unfolding assms(4) footer_of_payload by (simp add: index_header_bytes_def header_bytes_def)
  let ?r = "drop (length ?p - length body) b"
  have "slice_ok (slice_new b)" "as_slice (slice_new b) = b" using assms(5) by (simp_all add: slice_ok_def slice_new_def as_slice_def)
  then obtain s1 where s1: "read_be_u32 slice_impl (slice_new b) = (Inr CODEC_MAGIC, s1)" "slice_ok s1"
      "as_slice s1 = string_bytes codec @ to_be_bytes 4 v @ i @ of_nat (length suffix) # suffix @ ?r"
    using slice.fixed_ok(2) [of CODEC_MAGIC] b unfolding decodes_def by metis
  obtain s2 where s2: "slice_read_string s1 = (Inr codec, s2)" "slice_ok s2" "as_slice s2 = to_be_bytes 4 v @ i @ of_nat (length suffix) # suffix @ ?r"
    using slice_string [OF assms(3)] s1(2,3) unfolding decodes_def by metis
  obtain s3 where s3: "read_be_u32 slice_impl s2 = (Inr v, s3)" "slice_ok s3" "as_slice s3 = i @ of_nat (length suffix) # suffix @ ?r"
    using slice.fixed_ok(2) [of v] s2(2,3) unfolding decodes_def by metis
  obtain s4 where s4: "check_index_header_id segid s3 = (if i = segid then Inr i else Inl (Corrupted IdMismatch), s4)" "slice_ok s4"
      "as_slice s4 = of_nat (length suffix) # suffix @ ?r"
    using id_read [OF s3(2,3) assms(1)] by blast
  show ?thesis
  proof (cases "i = segid")
    case False
    then show ?thesis using s1 s2 s3 s4 by (simp add: verify_sub_file_def)
  next
    case True
    obtain s5 where s5: "slice_read_byte s4 = (Inr (of_nat (length suffix)), s5)" "slice_ok s5" "as_slice s5 = suffix @ ?r"
      using slice.read_byte_law [of "of_nat (length suffix)"] s4(2,3) unfolding decodes_def slice_impl_def by auto
    have un: "unat (of_nat (length suffix) :: u8) = length suffix"
      using assms(2) by (simp add: unsigned_of_nat take_bit_nat_eq_self)
    have "length (as_slice s5) = length suffix + length ?r" using s5(3) by simp
    then have "\<not> slice_remaining s5 < length suffix" by (simp add: as_slice_def slice_remaining_def)
    then have s6: "slice_skip (length suffix) s5 = (Inr (), s5\<lparr>pos := pos s5 + length suffix\<rparr>)" by (simp add: slice_skip_def)
    have "keeps (reading b) (check_index_header_id segid)"
      unfolding check_index_header_id_def by (intro keeps_bnd keeps_if keeps_reading)
    note keep = keepsD [OF keeps_reading_fixed(1)] keepsD [OF keeps_reading_string] keepsD [OF this] keepsD [OF keeps_reading_core(1)]
    have "reading b (slice_new b)" using assms(5) by (simp add: slice_ok_def slice_new_def)
    from keep(1) [OF this s1(1)] have "reading b s2" by (rule keep(2) [OF _ s2(1)])
    from keep(1) [OF this s3(1)] have "reading b s4" by (rule keep(3) [OF _ s4(1)])
    from keep(4) [OF this s5(1)] have buf: "sbuf s5 = b" by blast
    have len: "length b = length ?p + 16" unfolding assms(4) by (simp add: length_write_footer)
    then have seek: "slice_seek (length b - FOOTER_LENGTH) (s5\<lparr>pos := pos s5 + length suffix\<rparr>) = (Inr (), \<lparr>sbuf = b, pos = length ?p\<rparr>)"
      using buf by (cases s5) (simp add: slice_seek_def FOOTER_LENGTH_def)
    obtain c s where "check_footer K threads (length b) \<lparr>sbuf = b, pos = length ?p\<rparr> = (Inr c, s)"
      using footers_accepted(2) [OF assms(4,5)] by blast
    then show ?thesis
      using True s1 s2 s3 s4 s5 s6 un seek len by (simp add: verify_sub_file_def FOOTER_LENGTH_def)
  qed
qed

text \<open>
  If the sub-files pass the checks (and fit in memory), \<open>write\<close> succeeds; the table it wrote is parsed, the archive passes
  the length and footer checks against it, and each name opens to exactly the bytes that were packed under it.
\<close>

lemma compound_written:
  assumes "length segid = ID_LENGTH" and "distinct (map fst sub_files)" and "length sub_files < 2 ^ 31"
    and "\<forall>(n, bytes) \<in> set sub_files. good_string n \<and> verify_sub_file K threads n bytes segid = Inr ()"
    and "room_needed sub_files < 2 ^ 62"
  shows "\<exists>cfs cfe ce. compound_write K threads segid sub_files = Some (Inr (cfs, cfe)) \<and>
    parse_entries K threads cfe segid = Inr ce \<and> check_data_header_footer cfs segid ce = Inr () \<and>
    set (ce_names ce) = fst ` set sub_files \<and>
    (\<exists>payload. cfs = write_footer K threads payload \<and> length cfs \<le> usize_max) \<and>
    (\<forall>(n, bytes) \<in> set sub_files. open_input cfs ce n = Inr (slice_new bytes)) \<and>
    (\<forall>(n, e) \<in> set (ce_entries ce). 64 dvd unat (fe_offset e)) \<and>
    (\<forall>n. n \<notin> fst ` set sub_files \<longrightarrow> open_input cfs ce n = Inl (FileNotFound n (ce_names ce)))"
proof -
  define fs where "fs = sort_key (\<lambda>(_, bytes). length bytes) sub_files"
  define h where "h = index_header_bytes DATA_CODEC CF_VERSION_CURRENT segid []"
  define es where "es = map placed_entry (layout (length h) fs)"
  define cfe0 where "cfe0 = index_header_bytes ENTRY_CODEC CF_VERSION_CURRENT segid [] @ encode_varint (ucast (of_nat (length es) :: i32)) @
     concat (map entry_bytes es)"
  have set: "set fs = set sub_files" and len: "length fs = length sub_files" by (simp_all add: fs_def)
  have "\<forall>(n, bytes) \<in> set fs. verify_sub_file K threads n bytes segid = Inr ()" using assms(4) unfolding set by auto
  from write_sub_files_layout [OF this, of h "index_header_bytes ENTRY_CODEC CF_VERSION_CURRENT segid [] @ encode_varint (ucast (of_nat (length fs) :: i32))"]
  obtain tail where w: "write_sub_files K threads segid fs h
        (index_header_bytes ENTRY_CODEC CF_VERSION_CURRENT segid [] @ encode_varint (ucast (of_nat (length fs) :: i32))) =
      Inr (h @ tail, (index_header_bytes ENTRY_CODEC CF_VERSION_CURRENT segid [] @ encode_varint (ucast (of_nat (length fs) :: i32))) @
        concat (map entry_bytes es))"
    and fin: "length (h @ tail) = layout_end (length h) fs"
    and slot: "\<forall>(n, start, bytes) \<in> set (layout (length h) fs). take (length bytes) (drop start (h @ tail)) = bytes"
    unfolding es_def by blast
  have les: "length es = length fs" using arg_cong [OF layout_names [of "length h" fs], of length] by (simp add: es_def)
  let ?cfs = "write_footer K threads (h @ tail)" and ?cfe = "write_footer K threads cfe0"
  have out: "compound_write K threads segid sub_files = Some (Inr (?cfs, ?cfe))"
    using w by (simp add: compound_write_eq [OF assms(1)] fs_def [symmetric] h_def [symmetric] cfe0_def les Let_def)
  let ?ce = "\<lparr>ce_version = CF_VERSION_CURRENT, ce_entries = es\<rparr>"
  have names: "map fst es = map fst fs"
    using layout_names [of "length h" fs] by (simp add: es_def placed_entry_def case_prod_beta comp_def)
  have dist: "distinct (map fst es)" unfolding names using assms(2) by (simp add: distinct_map fs_def)
  have good: "\<forall>e \<in> set es. good_string (fst e)"
  proof
    fix e assume "e \<in> set es"
    then have "fst e \<in> fst ` set fs" using names by (metis image_eqI list.set_map)
    then show "good_string (fst e)" using assms(4) unfolding set by auto
  qed
  have parse: "parse_entries K threads ?cfe segid = Inr ?ce" if "length ?cfe < 2 ^ 63"
    unfolding parse_entries_def
    using that assms(3) les len dist good
    by (intro parse_framed [OF entries_decode [OF assms(1)] keeps_entries_payload]) (simp_all add: cfe0_def usize_max_def)
  have lcfs: "length ?cfs = layout_end (length h) fs + 16" using fin by (simp add: length_write_footer)
  have check: "check_data_header_footer ?cfs segid ?ce = Inr ()" if "length ?cfs < 2 ^ 63"
  proof -
    have ok: "length ?cfs \<le> usize_max" using that by (simp add: usize_max_def)
    have "decodes slice_ok as_slice (check_index_header DATA_CODEC CF_VERSION_CURRENT CF_VERSION_CURRENT segid []) h
        \<lparr>ih_version = CF_VERSION_CURRENT, ih_id = segid, ih_suffix = []\<rparr>"
      unfolding h_def using assms(1) by (intro index_header_decodes) (simp_all add: DATA_CODEC_def ascii_def)
    moreover have "slice_ok (slice_new ?cfs)" "as_slice (slice_new ?cfs) = h @ drop (length h) ?cfs"
      using ok by (simp_all add: slice_ok_def slice_new_def as_slice_def write_footer_eq)
    ultimately obtain s where "check_index_header DATA_CODEC CF_VERSION_CURRENT CF_VERSION_CURRENT segid [] (slice_new ?cfs) =
        (Inr \<lparr>ih_version = CF_VERSION_CURRENT, ih_id = segid, ih_suffix = []\<rparr>, s)" unfolding decodes_def by blast
    moreover obtain c where "retrieve_checksum ?cfs = Inr c" using footers_accepted(1) [OF refl ok] by blast
    moreover have "max_extent ?ce = layout_end (length h) fs"
      unfolding es_def using that lcfs data_header [OF assms(1)] by (intro max_extent_layout) (simp_all add: h_def)
    ultimately show ?thesis
      using lcfs ok by (simp add: check_data_header_footer_def saturating_add_def FOOTER_LENGTH_def)
  qed
  have opened: "open_input ?cfs ?ce n = Inr (slice_new bytes)" if lt: "length ?cfs < 2 ^ 63" and mem: "(n, bytes) \<in> set sub_files" for n bytes
  proof -
    obtain start where st: "(n, start, bytes) \<in> set (layout (length h) fs)"
      using layout_covers [of n bytes fs "length h"] mem unfolding set by blast
    note B = layout_bounds [OF st]
    have small: "start + length bytes < 2 ^ 63" using B lcfs lt by linarith
    have "(n, \<lparr>fe_offset = of_nat start, fe_length = of_nat (length bytes)\<rparr>) \<in> set es"
      using st by (force simp: es_def placed_entry_def)
    from find_entry [OF dist this]
    have e: "ce_get ?ce n = Some \<lparr>fe_offset = of_nat start, fe_length = of_nat (length bytes)\<rparr>" by (simp add: ce_get_def)
    have un: "unat (of_nat start :: i64) = start" "unat (of_nat (length bytes) :: i64) = length bytes"
      using small by (simp_all add: unsigned_of_nat take_bit_nat_eq_self)
    have "take (length bytes) (drop start ?cfs) = take (length bytes) (drop start (h @ tail))"
      using B fin by (simp add: write_footer_eq)
    also have "\<dots> = bytes" using slot st by fastforce
    finally have "take (length bytes) (drop start ?cfs) = bytes" .
    then show ?thesis
      using e un small B lcfs by (simp add: open_input_def sub_input_def checked_add_def slice_get_def slice_new_def usize_max_def)
  qed
  have aligned: "64 dvd unat (fe_offset e)" if lt: "length ?cfs < 2 ^ 63" and mem: "(n, e) \<in> set es" for n e
  proof -
    obtain start bytes where st: "(n, start, bytes) \<in> set (layout (length h) fs)" "fe_offset e = of_nat start"
      using mem by (auto simp: es_def placed_entry_def)
    then show ?thesis
      using layout_bounds [OF st(1)] lcfs lt by (simp add: unsigned_of_nat take_bit_nat_eq_self)
  qed
  have missing: "open_input ?cfs ?ce n = Inl (FileNotFound n (ce_names ?ce))" if "n \<notin> fst ` set sub_files" for n
  proof -
    have "n \<notin> fst ` set es" using that names unfolding set [symmetric] by (metis list.set_map)
    then show ?thesis by (simp add: open_input_def ce_get_def no_entry)
  qed
  have room: "room_needed fs < 2 ^ 62" using assms(5) by (simp add: fs_def room_needed_sort)
  have "length h < 100" unfolding h_def data_header [OF assms(1)]
    by (simp add: index_header_length_def header_length_def DATA_CODEC_def ascii_def ID_LENGTH_def)
  then have small: "length ?cfs < 2 ^ 63" using lcfs room layout_end_le [of "length h" fs] by simp
  have "length (index_header_bytes ENTRY_CODEC CF_VERSION_CURRENT segid []) < 100"
    using assms(1) by (subst length_index_header_bytes)
      (simp_all add: index_header_length_def header_length_def ENTRY_CODEC_def ascii_def ID_LENGTH_def)
  then have "length cfe0 < 200 + 2 ^ 62"
    using length_vint [of "of_nat (length es)"] length_entries_le [of "length h" fs] room by (simp add: cfe0_def es_def)
  then have "length ?cfe < 2 ^ 63" by (simp add: length_write_footer)
  moreover have "length ?cfs \<le> usize_max" using small by (simp add: usize_max_def)
  moreover have "set (ce_names ?ce) = fst ` set sub_files"
    using arg_cong [OF names, of List.set] by (simp add: ce_names_def set)
  ultimately show ?thesis
    using out parse check [OF small] opened [OF small] aligned [OF small] missing
    by (intro exI [of _ ?cfs] exI [of _ ?cfe] exI [of _ ?ce]) auto
qed

end
