(* ===== verification/Segment_Infos.thy ===== *)
theory Segment_Infos
  imports Framed_Files Store_Directory
begin

text \<open>
  \<open>segment_infos.rs\<close>: a commit in memory (\<open>SegmentInfos\<close>, one \<open>SegmentCommitInfo\<close> per segment), its
  generation counters and file list, the \<open>segments_N\<close> format (\<open>to_bytes\<close> and \<open>parse\<close>) and the two-phase
  publication through \<open>pending_segments_N\<close>; and \<open>liv_file_name\<close> of \<open>deletes.rs\<close>.

  Generations are 64-bit words read with \<open>sint\<close>, so the \<open>+ 1\<close> of the counters wraps as it would in a release
  build; the properties show the caps that rule the wrap out. \<open>DefaultHasher\<close> is a parameter of
  \<open>generation_advanced\<close>, the checksum crate a parameter of \<open>parse\<close> and \<open>to_bytes\<close>. The \<open>debug_assert!\<close>s of
  the setters are not modelled. \<open>Panicked\<close> is not an error of the source: it marks a panic inside
  \<open>write_index_header\<close> (which a 16-byte id rules out).
\<close>

unbundle bit_operations_syntax

section \<open>Errors and data\<close>

datatype si_error =
    Store error
  | InvalidSegmentCount int
  | InvalidDeletionCount int name
  | InvalidSciIdMarker u8
  | InvalidDocValuesFieldCount int name
  | CreatedVersionAheadOfWriter int int int int
  | IllegalVersion string int
  | InvalidGeneration string int name
  | Panicked

definition CODEC_NAME :: "u8 list" where
  "CODEC_NAME = ascii ''segments''"

definition VERSION_74 :: i32 where
  "VERSION_74 = 9"

definition VERSION_86 :: i32 where
  "VERSION_86 = 10"

definition VERSION_CURRENT :: i32 where
  "VERSION_CURRENT = VERSION_86"

definition MAX_GENERATION :: int where
  "MAX_GENERATION = (2 ^ 63 - 1) div 2"

definition check_generation :: "string \<Rightarrow> i64 \<Rightarrow> name \<Rightarrow> si_error + i64" where
  "check_generation which v segment =
     (if \<not> (- 1 \<le> sint v \<and> sint v \<le> MAX_GENERATION) then Inl (InvalidGeneration which (sint v) segment) else Inr v)"

record lucene_version =
  major :: i32
  minor :: i32
  bugfix :: i32

record segment_commit_info =
  segment_name :: name
  segment_id :: "u8 list"
  codec_name :: "u8 list"
  del_gen :: i64
  del_count :: i32
  field_infos_gen :: i64
  doc_values_gen :: i64
  soft_del_count :: i32
  sci_id :: "u8 list option"
  field_infos_files :: "name list"
  dv_update_files :: "(i32 \<times> name list) list"
  nw_del_gen :: i64
  nw_field_infos_gen :: i64
  nw_doc_values_gen :: i64
  buffered_deletes_gen :: i64

record segment_infos =
  si_id :: "u8 list"
  generation :: i64
  format_version :: i32
  si_lucene_version :: lucene_version
  index_created_version_major :: i32
  si_version :: i64
  counter :: i64
  min_segment_lucene_version :: "lucene_version option"
  segments :: "segment_commit_info list"
  user_data :: "(u8 list \<times> u8 list) list"

definition sci_default :: segment_commit_info where
  "sci_default =
     \<lparr>segment_name = [], segment_id = replicate ID_LENGTH 0, codec_name = [], del_gen = - 1, del_count = 0,
      field_infos_gen = - 1, doc_values_gen = - 1, soft_del_count = 0, sci_id = None, field_infos_files = [],
      dv_update_files = [], nw_del_gen = 0, nw_field_infos_gen = 0, nw_doc_values_gen = 0, buffered_deletes_gen = - 1\<rparr>"

section \<open>Generations of a segment\<close>

definition derive_next_gen :: "i64 \<Rightarrow> i64 \<Rightarrow> i64" where
  "derive_next_gen explicit current_gen =
     (if explicit \<noteq> 0 then explicit else if current_gen = - 1 then 1 else current_gen + 1)"

definition next_write_del_gen :: "segment_commit_info \<Rightarrow> i64" where
  "next_write_del_gen sci = derive_next_gen (nw_del_gen sci) (del_gen sci)"

definition next_write_field_infos_gen :: "segment_commit_info \<Rightarrow> i64" where
  "next_write_field_infos_gen sci = derive_next_gen (nw_field_infos_gen sci) (field_infos_gen sci)"

definition next_write_doc_values_gen :: "segment_commit_info \<Rightarrow> i64" where
  "next_write_doc_values_gen sci = derive_next_gen (nw_doc_values_gen sci) (doc_values_gen sci)"

definition set_next_write_del_gen :: "i64 \<Rightarrow> segment_commit_info \<Rightarrow> segment_commit_info" where
  "set_next_write_del_gen v sci = sci\<lparr>nw_del_gen := v\<rparr>"

definition set_next_write_field_infos_gen :: "i64 \<Rightarrow> segment_commit_info \<Rightarrow> segment_commit_info" where
  "set_next_write_field_infos_gen v sci = sci\<lparr>nw_field_infos_gen := v\<rparr>"

definition set_next_write_doc_values_gen :: "i64 \<Rightarrow> segment_commit_info \<Rightarrow> segment_commit_info" where
  "set_next_write_doc_values_gen v sci = sci\<lparr>nw_doc_values_gen := v\<rparr>"

type_synonym hasher = "u8 list \<times> i64 \<times> i64 \<times> i64 \<times> i64 \<times> u8 \<Rightarrow> u64"

definition generation_advanced :: "hasher \<Rightarrow> segment_commit_info \<Rightarrow> segment_commit_info" where
  "generation_advanced H sci =
     (let digest = (\<lambda>half. H (segment_id sci, del_gen sci, field_infos_gen sci, doc_values_gen sci,
                               buffered_deletes_gen sci, half))
      in sci\<lparr>sci_id := Some (to_le_bytes 8 (digest 0) @ to_le_bytes 8 (digest 1))\<rparr>)"

definition advance_del_gen :: "hasher \<Rightarrow> segment_commit_info \<Rightarrow> segment_commit_info" where
  "advance_del_gen H sci =
     (let g = next_write_del_gen sci in generation_advanced H (sci\<lparr>del_gen := g, nw_del_gen := g + 1\<rparr>))"

definition advance_doc_values_gen :: "hasher \<Rightarrow> segment_commit_info \<Rightarrow> segment_commit_info" where
  "advance_doc_values_gen H sci =
     (let g = next_write_doc_values_gen sci
      in generation_advanced H (sci\<lparr>doc_values_gen := g, nw_doc_values_gen := g + 1\<rparr>))"

definition advance_field_infos_gen :: "hasher \<Rightarrow> segment_commit_info \<Rightarrow> segment_commit_info" where
  "advance_field_infos_gen H sci =
     (let g = next_write_field_infos_gen sci
      in generation_advanced H (sci\<lparr>field_infos_gen := g, nw_field_infos_gen := g + 1\<rparr>))"

definition advance_next_write_field_infos_gen :: "segment_commit_info \<Rightarrow> segment_commit_info" where
  "advance_next_write_field_infos_gen sci = sci\<lparr>nw_field_infos_gen := next_write_field_infos_gen sci + 1\<rparr>"

definition advance_next_write_doc_values_gen :: "segment_commit_info \<Rightarrow> segment_commit_info" where
  "advance_next_write_doc_values_gen sci = sci\<lparr>nw_doc_values_gen := next_write_doc_values_gen sci + 1\<rparr>"

fun set_slot :: "i32 \<Rightarrow> name list \<Rightarrow> (i32 \<times> name list) list \<Rightarrow> (i32 \<times> name list) list" where
  "set_slot n fs [] = [(n, fs)]"
| "set_slot n fs ((k, old) # rest) = (if k = n then (k, fs) # rest else (k, old) # set_slot n fs rest)"

definition set_doc_values_updates_files :: "i32 \<Rightarrow> name list \<Rightarrow> segment_commit_info \<Rightarrow> segment_commit_info" where
  "set_doc_values_updates_files field_number fs sci =
     sci\<lparr>dv_update_files := set_slot field_number fs (dv_update_files sci)\<rparr>"

definition set_buffered_deletes_gen :: "hasher \<Rightarrow> i64 \<Rightarrow> segment_commit_info \<Rightarrow> segment_commit_info" where
  "set_buffered_deletes_gen H v sci =
     (if buffered_deletes_gen sci = - 1 then generation_advanced H (sci\<lparr>buffered_deletes_gen := v\<rparr>) else sci)"

section \<open>The files of a segment\<close>

definition liv_file_name :: "name \<Rightarrow> i64 \<Rightarrow> name" where
  "liv_file_name segment g =
     (if g = 0 then segment @ ascii ''.liv''
      else segment @ ascii ''_'' @ to_base36 g @ ascii ''.liv'')"

definition push_new :: "'a list \<Rightarrow> 'a \<Rightarrow> 'a list" where
  "push_new out x = (if x \<in> set out then out else out @ [x])"

definition sci_files :: "segment_commit_info \<Rightarrow> name list \<Rightarrow> name list" where
  "sci_files sci si_files =
     (let files = foldl push_new [] si_files;
          files = (if del_gen sci \<noteq> - 1 then push_new files (liv_file_name (segment_name sci) (del_gen sci)) else files);
          files = foldl push_new files (field_infos_files sci)
      in foldl (\<lambda>files (_, dv_files). foldl push_new files dv_files) files (dv_update_files sci))"

section \<open>Reading a commit\<close>

type_synonym 'a parser = "(slice_input, si_error, 'a) fallible"

abbreviation store :: "(slice_input, 'a) stateful \<Rightarrow> 'a parser" where
  "store \<equiv> map_err Store"

definition check_version_component :: "string \<Rightarrow> i32 \<Rightarrow> si_error + i32" where
  "check_version_component which v = (if \<not> (0 \<le> sint v \<and> sint v \<le> 255) then Inl (IllegalVersion which (sint v)) else Inr v)"

definition read_vint_version :: "lucene_version parser" where
  "read_vint_version =
     bnd (store slice_read_vint) (\<lambda>a. bnd (lift_res (check_version_component ''major'' a)) (\<lambda>a.
     bnd (store slice_read_vint) (\<lambda>b. bnd (lift_res (check_version_component ''minor'' b)) (\<lambda>b.
     bnd (store slice_read_vint) (\<lambda>c. bnd (lift_res (check_version_component ''bugfix'' c)) (\<lambda>c.
     ret \<lparr>major = a, minor = b, bugfix = c\<rparr>))))))"

definition remaining_now :: "nat parser" where
  "remaining_now s = (Inr (slice_remaining s), s)"

definition read_generation :: "string \<Rightarrow> name \<Rightarrow> i64 parser" where
  "read_generation which segment =
     bnd (store (read_be_u64 slice_impl)) (\<lambda>v. lift_res (check_generation which v segment))"

definition read_count :: "name \<Rightarrow> i32 parser" where
  "read_count segment =
     bnd (store (read_be_i32 slice_impl)) (\<lambda>c.
       if sint c < 0 then fail (InvalidDeletionCount (sint c) segment) else ret c)"

definition read_sci_id :: "i32 \<Rightarrow> u8 list option parser" where
  "read_sci_id format =
     (if sint format > sint VERSION_74 then
        bnd (store slice_read_byte) (\<lambda>marker.
          if marker = 0 then ret None
          else if marker = 1 then bnd (store (slice_read_bytes ID_LENGTH)) (\<lambda>sci. ret (Some sci))
          else fail (InvalidSciIdMarker marker))
      else ret None)"

definition read_strings :: "name list parser" where
  "read_strings = store (read_set_of_strings slice_impl slice_read_string)"

definition read_dv_entry :: "(i32 \<times> name list) parser" where
  "read_dv_entry =
     bnd (store (read_be_i32 slice_impl)) (\<lambda>field_number. bnd read_strings (\<lambda>files. ret (field_number, files)))"

definition read_dv_updates :: "name \<Rightarrow> (i32 \<times> name list) list parser" where
  "read_dv_updates segment =
     bnd (store (read_be_i32 slice_impl)) (\<lambda>num_dv_fields.
       bnd remaining_now (\<lambda>left.
         if sint num_dv_fields < 0 \<or> left < nat (sint num_dv_fields)
         then fail (InvalidDocValuesFieldCount (sint num_dv_fields) segment)
         else read_many read_dv_entry (nat (sint num_dv_fields))))"

definition read_segment :: "i32 \<Rightarrow> segment_commit_info parser" where
  "read_segment format =
     bnd (store slice_read_string) (\<lambda>segment.
     bnd (store (slice_read_bytes ID_LENGTH)) (\<lambda>sid.
     bnd (store slice_read_string) (\<lambda>codec.
     bnd (read_generation ''delGen'' segment) (\<lambda>dg.
     bnd (read_count segment) (\<lambda>dc.
     bnd (read_generation ''fieldInfosGen'' segment) (\<lambda>fg.
     bnd (read_generation ''docValuesGen'' segment) (\<lambda>vg.
     bnd (read_count segment) (\<lambda>sc.
     bnd (read_sci_id format) (\<lambda>sci.
     bnd read_strings (\<lambda>ff.
     bnd (read_dv_updates segment) (\<lambda>dv.
     ret (sci_default\<lparr>segment_name := segment, segment_id := sid, codec_name := codec, del_gen := dg, del_count := dc,
       field_infos_gen := fg, doc_values_gen := vg, soft_del_count := sc, sci_id := sci,
       field_infos_files := ff, dv_update_files := dv\<rparr>))))))))))))"

definition parse_payload :: "i64 \<Rightarrow> segment_infos parser" where
  "parse_payload g =
     bnd (lift_res (check_generation ''generation'' g [])) (\<lambda>g.
     bnd (store (check_header CODEC_NAME VERSION_74 VERSION_CURRENT)) (\<lambda>header.
     bnd (store (slice_read_bytes ID_LENGTH)) (\<lambda>i.
     bnd (store (check_index_header_suffix (to_base36 g))) (\<lambda>_.
     bnd read_vint_version (\<lambda>written_by.
     bnd (store slice_read_vint) (\<lambda>created.
     if sint (major written_by) < sint created
     then fail (CreatedVersionAheadOfWriter (sint created) (sint (major written_by)) (sint (minor written_by)) (sint (bugfix written_by)))
     else
     bnd (read_generation ''version'' []) (\<lambda>v.
     bnd (bnd (store slice_read_vlong) (\<lambda>c. lift_res (check_generation ''counter'' c []))) (\<lambda>c.
     bnd (store (read_be_i32 slice_impl)) (\<lambda>num_segments.
     if sint num_segments < 0 then fail (InvalidSegmentCount (sint num_segments))
     else bnd remaining_now (\<lambda>left.
     if left < nat (sint num_segments) then fail (InvalidSegmentCount (sint num_segments))
     else
     bnd (if 0 < sint num_segments then bnd read_vint_version (\<lambda>m. ret (Some m)) else ret None) (\<lambda>min_version.
     bnd (read_many (read_segment (version header)) (nat (sint num_segments))) (\<lambda>segs.
     bnd (store (read_map_of_strings slice_impl slice_read_string)) (\<lambda>udata.
     ret \<lparr>si_id = i, generation = g, format_version = version header, si_lucene_version = written_by,
       index_created_version_major = created, si_version = v, counter = c,
       min_segment_lucene_version = min_version, segments = segs, user_data = udata\<rparr>)))))))))))))"

definition parse :: "('h, 'z) crc32fast_scheme \<Rightarrow> nat \<Rightarrow> u8 list \<Rightarrow> i64 \<Rightarrow> si_error + segment_infos" where
  "parse K threads b g =
     fst (bnd (parse_payload g) (\<lambda>sis. bnd (store (check_footer K threads (length b))) (\<lambda>_. ret sis)) (slice_new b))"

section \<open>Writing a commit\<close>

definition write_vint_version :: "u8 list \<Rightarrow> lucene_version \<Rightarrow> u8 list" where
  "write_vint_version out v =
     (let out = write_vint bytes_impl out (major v);
          out = write_vint bytes_impl out (minor v)
      in write_vint bytes_impl out (bugfix v))"

definition write_dv_entry :: "u8 list \<Rightarrow> i32 \<times> name list \<Rightarrow> u8 list" where
  "write_dv_entry out = (\<lambda>(field_number, files).
     let out = write_be_u32 bytes_impl out field_number;
         out = write_vint bytes_impl out (of_nat (length files))
     in foldl (write_string bytes_impl) out files)"

definition write_segment :: "u8 list \<Rightarrow> segment_commit_info \<Rightarrow> u8 list" where
  "write_segment out seg =
     (let out = write_string bytes_impl out (segment_name seg);
          out = write_bytes bytes_impl out (segment_id seg);
          out = write_string bytes_impl out (codec_name seg);
          out = write_be_u64 bytes_impl out (del_gen seg);
          out = write_be_u32 bytes_impl out (del_count seg);
          out = write_be_u64 bytes_impl out (field_infos_gen seg);
          out = write_be_u64 bytes_impl out (doc_values_gen seg);
          out = write_be_u32 bytes_impl out (soft_del_count seg);
          out = (case sci_id seg of
                   Some sci \<Rightarrow> write_bytes bytes_impl (write_byte bytes_impl out 1) sci
                 | None \<Rightarrow> write_byte bytes_impl out 0);
          out = write_set_of_strings bytes_impl out (field_infos_files seg);
          out = write_be_u32 bytes_impl out (of_nat (length (dv_update_files seg)))
      in foldl write_dv_entry out (dv_update_files seg))"

definition to_bytes :: "('h, 'z) crc32fast_scheme \<Rightarrow> nat \<Rightarrow> segment_infos \<Rightarrow> u8 list option" where
  "to_bytes K threads sis =
     (case write_index_header bytes_impl [] CODEC_NAME VERSION_CURRENT (si_id sis) (to_base36 (generation sis)) of
        None \<Rightarrow> None
      | Some out \<Rightarrow>
          (let out = write_vint_version out (si_lucene_version sis);
               out = write_vint bytes_impl out (index_created_version_major sis);
               out = write_be_u64 bytes_impl out (si_version sis);
               out = write_vlong bytes_impl out (counter sis);
               out = write_be_u32 bytes_impl out (of_nat (length (segments sis)));
               out = (if segments sis \<noteq> [] then
                        write_vint_version out
                          (case min_segment_lucene_version sis of Some v \<Rightarrow> v | None \<Rightarrow> si_lucene_version sis)
                      else out);
               out = foldl write_segment out (segments sis);
               out = write_map_of_strings bytes_impl out (user_data sis)
           in Some (write_footer K threads out)))"

section \<open>Publishing a commit\<close>

type_synonym ('d, 'a) si_stateful = "('d, si_error, 'a) fallible"

fun check_segments_writable :: "segment_commit_info list \<Rightarrow> si_error + unit" where
  "check_segments_writable [] = Inr ()"
| "check_segments_writable (sci # rest) =
     (case check_generation ''delGen'' (del_gen sci) (segment_name sci) of Inl e \<Rightarrow> Inl e | Inr _ \<Rightarrow>
      (case check_generation ''fieldInfosGen'' (field_infos_gen sci) (segment_name sci) of Inl e \<Rightarrow> Inl e | Inr _ \<Rightarrow>
       (case check_generation ''docValuesGen'' (doc_values_gen sci) (segment_name sci) of Inl e \<Rightarrow> Inl e | Inr _ \<Rightarrow>
        check_segments_writable rest)))"

definition check_writable_generations :: "segment_infos \<Rightarrow> si_error + unit" where
  "check_writable_generations sis =
     (case check_generation ''generation'' (generation sis) [] of Inl e \<Rightarrow> Inl e | Inr _ \<Rightarrow>
      (case check_generation ''version'' (si_version sis) [] of Inl e \<Rightarrow> Inl e | Inr _ \<Rightarrow>
       (case check_generation ''counter'' (counter sis) [] of Inl e \<Rightarrow> Inl e | Inr _ \<Rightarrow>
        check_segments_writable (segments sis))))"

definition pending_segments_name :: "segment_infos \<Rightarrow> si_error + name" where
  "pending_segments_name sis =
     (case pending_segments_file_name (generation sis) of
        Some n \<Rightarrow> Inr n
      | None \<Rightarrow> Inl (Store (Corrupted (InvalidSegmentsGeneration (sint (generation sis))))))"

definition segments_name :: "segment_infos \<Rightarrow> si_error + name" where
  "segments_name sis =
     (case segments_file_name (generation sis) of
        Some n \<Rightarrow> Inr n
      | None \<Rightarrow> Inl (Store (Corrupted (InvalidSegmentsGeneration (sint (generation sis))))))"

text \<open>\<open>if let Err(e) = op { cleanup; return Err(e) }\<close>, whatever the cleanup answers.\<close>

definition or_undo :: "('d, 'e, unit) fallible \<Rightarrow> ('d \<Rightarrow> 'd) \<Rightarrow> ('d, 'e, unit) fallible" where
  "or_undo m cleanup d = (case m d of (Inl e, d') \<Rightarrow> (Inl e, cleanup d') | (Inr u, d') \<Rightarrow> (Inr u, d'))"

definition write_pending ::
    "('h, 'y) crc32fast_scheme \<Rightarrow> nat \<Rightarrow> ('d, 'o, 'z) directory_scheme \<Rightarrow> segment_infos \<Rightarrow> ('d, name) si_stateful" where
  "write_pending K threads D sis =
     bnd (lift_res (check_writable_generations sis)) (\<lambda>_.
     bnd (lift_res (pending_segments_name sis)) (\<lambda>pending_name.
     bnd (map_err Store (sync_meta_data D)) (\<lambda>_.
     case to_bytes K threads sis of
       None \<Rightarrow> fail Panicked
     | Some bytes \<Rightarrow>
         bnd (map_err Store (create_output D pending_name)) (\<lambda>output.
         bnd (or_undo (map_err Store (close_output D output bytes)) (\<lambda>d. snd (delete_file D pending_name d))) (\<lambda>_.
         bnd (or_undo (map_err Store (sync D [pending_name])) (\<lambda>d. snd (delete_file D pending_name d))) (\<lambda>_.
         ret pending_name))))))"

definition finish_pending :: "('d, 'o, 'z) directory_scheme \<Rightarrow> segment_infos \<Rightarrow> ('d, name) si_stateful" where
  "finish_pending D sis =
     bnd (lift_res (pending_segments_name sis)) (\<lambda>pending_name.
     bnd (lift_res (segments_name sis)) (\<lambda>file_name.
     bnd (map_err Store (rename D pending_name file_name)) (\<lambda>_.
     bnd (or_undo (map_err Store (sync_meta_data D)) (\<lambda>d.
            case rename D file_name pending_name d of
              (Inr _, d') \<Rightarrow> d'
            | (Inl _, d') \<Rightarrow> snd (delete_file D file_name d'))) (\<lambda>_.
     ret file_name))))"

definition rollback_pending :: "('d, 'o, 'z) directory_scheme \<Rightarrow> segment_infos \<Rightarrow> 'd \<Rightarrow> 'd" where
  "rollback_pending D sis d =
     (case pending_segments_file_name (generation sis) of
        Some pending_name \<Rightarrow> snd (delete_file D pending_name d)
      | None \<Rightarrow> d)"

definition write_commit ::
    "('h, 'y) crc32fast_scheme \<Rightarrow> nat \<Rightarrow> ('d, 'o, 'z) directory_scheme \<Rightarrow> segment_infos \<Rightarrow> ('d, name) si_stateful" where
  "write_commit K threads D sis = bnd (write_pending K threads D sis) (\<lambda>_. finish_pending D sis)"

definition read_latest ::
    "('h, 'y) crc32fast_scheme \<Rightarrow> nat \<Rightarrow> ('d, 'o, 'z) directory_scheme \<Rightarrow> ('d, segment_infos) si_stateful" where
  "read_latest K threads D =
     bnd (map_err Store (read_latest_commit D)) (\<lambda>(g, bytes). lift_res (parse K threads bytes g))"

section \<open>The bytes of a commit\<close>

definition version_bytes :: "lucene_version \<Rightarrow> u8 list" where
  "version_bytes v = encode_varint (ucast (major v)) @ encode_varint (ucast (minor v)) @ encode_varint (ucast (bugfix v))"

definition dv_bytes :: "i32 \<times> name list \<Rightarrow> u8 list" where
  "dv_bytes dv = to_be_bytes 4 (fst dv) @ set_bytes (snd dv)"

definition sci_id_bytes :: "u8 list option \<Rightarrow> u8 list" where
  "sci_id_bytes i = (case i of None \<Rightarrow> [0] | Some sci \<Rightarrow> 1 # sci)"

definition dv_updates_bytes :: "(i32 \<times> name list) list \<Rightarrow> u8 list" where
  "dv_updates_bytes dvs = to_be_bytes 4 (of_nat (length dvs) :: u32) @ concat (map dv_bytes dvs)"

definition segment_bytes :: "segment_commit_info \<Rightarrow> u8 list" where
  "segment_bytes seg =
     string_bytes (segment_name seg) @ segment_id seg @ string_bytes (codec_name seg) @ to_be_bytes 8 (del_gen seg) @
     to_be_bytes 4 (del_count seg) @ to_be_bytes 8 (field_infos_gen seg) @ to_be_bytes 8 (doc_values_gen seg) @
     to_be_bytes 4 (soft_del_count seg) @ sci_id_bytes (sci_id seg) @ set_bytes (field_infos_files seg) @
     dv_updates_bytes (dv_update_files seg)"

definition min_version_bytes :: "segment_infos \<Rightarrow> u8 list" where
  "min_version_bytes sis =
     (if segments sis = [] then []
      else version_bytes (case min_segment_lucene_version sis of Some v \<Rightarrow> v | None \<Rightarrow> si_lucene_version sis))"

definition commit_bytes :: "segment_infos \<Rightarrow> u8 list" where
  "commit_bytes sis =
     version_bytes (si_lucene_version sis) @ encode_varint (ucast (index_created_version_major sis)) @
     to_be_bytes 8 (si_version sis) @ encode_varint (counter sis) @ to_be_bytes 4 (of_nat (length (segments sis)) :: u32) @
     min_version_bytes sis @ concat (map segment_bytes (segments sis)) @ map_bytes (user_data sis)"

lemmas bytes_written = bytes.write_byte_law bytes.write_bytes_law bytes.write_vint_law bytes.written_vlong bytes.written_fixed
  bytes.written_string bytes.written_set bytes.written_map

lemma write_version_bytes: "write_vint_version out v = out @ version_bytes v"
  by (simp add: write_vint_version_def version_bytes_def bytes_written)

lemma write_dv_bytes: "write_dv_entry out dv = out @ dv_bytes dv"
  by (cases dv) (simp add: write_dv_entry_def dv_bytes_def set_bytes_def bytes_written bytes.written_foldl [OF bytes.written_string])

lemma write_segment_bytes: "write_segment out seg = out @ segment_bytes seg"
  by (simp add: write_segment_def segment_bytes_def bytes_written sci_id_bytes_def dv_updates_bytes_def
      bytes.written_foldl [OF write_dv_bytes] split: option.splits)

lemma to_bytes_eq:
  assumes "length (si_id sis) = ID_LENGTH" and "length (to_base36 (generation sis)) < 256"
  shows "to_bytes K threads sis = Some (write_footer K threads
    (index_header_bytes CODEC_NAME VERSION_CURRENT (si_id sis) (to_base36 (generation sis)) @ commit_bytes sis))"
proof -
  have "write_index_header bytes_impl [] CODEC_NAME VERSION_CURRENT (si_id sis) (to_base36 (generation sis)) =
      Some (index_header_bytes CODEC_NAME VERSION_CURRENT (si_id sis) (to_base36 (generation sis)))"
    using assms by (subst write_index_header_eq) (simp_all add: CODEC_NAME_def ascii_def usize_max_def bytes_written)
  then show ?thesis
    by (simp add: to_bytes_def commit_bytes_def min_version_bytes_def bytes_written write_version_bytes
        bytes.written_foldl [OF write_segment_bytes])
qed

section \<open>Reading the bytes back\<close>

abbreviation reads :: "'a parser \<Rightarrow> u8 list \<Rightarrow> 'a \<Rightarrow> bool" where
  "reads \<equiv> decodes slice_ok as_slice"

lemma reads_store: "decodes slice_ok as_slice P bs v \<Longrightarrow> reads (store P) bs v"
  unfolding decodes_def by (metis map_err_Inr)

lemma reads_pure: "decodes ok rest (f v) bs w \<Longrightarrow> decodes ok rest (bnd (lift_res (Inr v)) f) bs w"
  by (auto simp: decodes_def)

lemma reads_lift: "decodes ok rest (lift_res (Inr v)) [] v"
  by (simp add: decodes_def)

lemma reads_remaining:
  assumes "\<And>n. length bs \<le> n \<Longrightarrow> reads (f n) bs v"
  shows "reads (bnd remaining_now f) bs v"
  unfolding decodes_def
proof (intro allI impI)
  fix s r assume s: "slice_ok s" "as_slice s = bs @ r"
  then have "length bs \<le> slice_remaining s" by (metis as_slice_def le_add1 length_append length_drop slice_remaining_def)
  from assms [OF this] s show "\<exists>s'. bnd remaining_now f s = (Inr v, s') \<and> slice_ok s' \<and> as_slice s' = r"
    by (simp add: decodes_def remaining_now_def)
qed

lemma reads_Cons_byte: "reads (f b) bs v \<Longrightarrow> reads (bnd (store slice_read_byte) f) (b # bs) v"
  using decodes_bnd [OF reads_store [OF slice.read_byte_law, of b], of f bs v] by (simp add: slice_impl_def)

definition good_gen :: "i64 \<Rightarrow> bool" where
  "good_gen v = (- 1 \<le> sint v \<and> sint v \<le> MAX_GENERATION)"

definition good_version :: "lucene_version \<Rightarrow> bool" where
  "good_version v = (sint (major v) \<in> {0..255} \<and> sint (minor v) \<in> {0..255} \<and> sint (bugfix v) \<in> {0..255})"

definition good_strings :: "name list \<Rightarrow> bool" where
  "good_strings xs = (list_all good_string xs \<and> length xs < 2 ^ 31)"

text \<open>
  What the types and the write path guarantee of a segment and a commit: 16-byte ids, UTF-8 strings, counts and
  lengths that fit their 32-bit prefixes, generations within the cap; fields that are not serialised at their defaults.
\<close>

definition good_segment :: "segment_commit_info \<Rightarrow> bool" where
  "good_segment seg =
     (good_string (segment_name seg) \<and> length (segment_id seg) = ID_LENGTH \<and> good_string (codec_name seg) \<and>
      good_gen (del_gen seg) \<and> good_gen (field_infos_gen seg) \<and> good_gen (doc_values_gen seg) \<and>
      0 \<le> sint (del_count seg) \<and> 0 \<le> sint (soft_del_count seg) \<and>
      (case sci_id seg of None \<Rightarrow> True | Some sci \<Rightarrow> length sci = ID_LENGTH) \<and>
      good_strings (field_infos_files seg) \<and> list_all (\<lambda>dv. good_strings (snd dv)) (dv_update_files seg) \<and>
      length (dv_update_files seg) < 2 ^ 31 \<and>
      nw_del_gen seg = 0 \<and> nw_field_infos_gen seg = 0 \<and> nw_doc_values_gen seg = 0 \<and> buffered_deletes_gen seg = - 1)"

definition good_commit :: "segment_infos \<Rightarrow> bool" where
  "good_commit sis =
     (length (si_id sis) = ID_LENGTH \<and> good_gen (generation sis) \<and> format_version sis = VERSION_CURRENT \<and>
      good_version (si_lucene_version sis) \<and> sint (index_created_version_major sis) \<le> sint (major (si_lucene_version sis)) \<and>
      good_gen (si_version sis) \<and> good_gen (counter sis) \<and>
      (case min_segment_lucene_version sis of None \<Rightarrow> segments sis = [] | Some v \<Rightarrow> segments sis \<noteq> [] \<and> good_version v) \<and>
      list_all good_segment (segments sis) \<and> length (segments sis) < 2 ^ 31 \<and>
      list_all (\<lambda>(k, v). good_string k \<and> good_string v) (user_data sis) \<and> length (user_data sis) < 2 ^ 31)"

lemma component_reads:
  assumes "sint a \<in> {0..255}" and "reads (f a) cs w"
  shows "reads (bnd (store slice_read_vint) (\<lambda>a. bnd (lift_res (check_version_component which a)) f)) (encode_varint (ucast a) @ cs) w"
  using assms by (intro decodes_bnd [OF reads_store [OF slice_decoders(1)]]) (simp add: check_version_component_def reads_pure)

lemma version_reads: "good_version v \<Longrightarrow> reads read_vint_version (version_bytes v) v"
  unfolding read_vint_version_def version_bytes_def good_version_def
  using component_reads [of "bugfix v" "\<lambda>c. ret \<lparr>major = major v, minor = minor v, bugfix = c\<rparr>" "[]" v "''bugfix''"]
  by (cases v) (auto intro!: component_reads)

lemma generation_reads: "good_gen v \<Longrightarrow> reads (read_generation which seg) (to_be_bytes 8 v) v"
  unfolding read_generation_def
  using decodes_bnd [OF reads_store [OF slice.be_u64_ok [of v]], of _ "[]" v]
  by (simp add: check_generation_def good_gen_def reads_lift)

lemma count_reads: "0 \<le> sint c \<Longrightarrow> reads (read_count seg) (to_be_bytes 4 c) c"
  unfolding read_count_def
  using decodes_bnd [OF reads_store [OF slice.fixed_ok(3) [of c]], of _ "[]" c] by simp

lemma bytes_reads: "length bs = n \<Longrightarrow> reads (store (slice_read_bytes n)) bs bs"
  using reads_store [OF slice.read_bytes_law, of bs] by (simp add: slice_impl_def)

lemma string_reads: "good_string str \<Longrightarrow> reads (store slice_read_string) (string_bytes str) str"
  by (intro reads_store slice_string)

lemma strings_reads: "good_strings xs \<Longrightarrow> reads read_strings (set_bytes xs) xs"
  unfolding read_strings_def by (intro reads_store slice.set_ok slice_string) (auto simp: good_strings_def list_all_iff)

lemma sci_id_reads:
  "(case i of None \<Rightarrow> True | Some sci \<Rightarrow> length sci = ID_LENGTH) \<Longrightarrow> reads (read_sci_id VERSION_CURRENT) (sci_id_bytes i) i"
proof (cases i)
  case None
  then show ?thesis by (auto simp: read_sci_id_def sci_id_bytes_def VERSION_CURRENT_def VERSION_86_def VERSION_74_def intro: reads_Cons_byte)
next
  case (Some sci)
  assume "case i of None \<Rightarrow> True | Some sci \<Rightarrow> length sci = ID_LENGTH"
  then have "reads (bnd (store (slice_read_bytes ID_LENGTH)) (\<lambda>sci. ret (Some sci))) sci (Some sci)"
    using Some decodes_map [OF bytes_reads, of sci ID_LENGTH Some] by simp
  then show ?thesis
    using Some by (auto simp: read_sci_id_def sci_id_bytes_def VERSION_CURRENT_def VERSION_86_def VERSION_74_def intro: reads_Cons_byte)
qed

lemma dv_entry_reads: "good_strings (snd dv) \<Longrightarrow> reads read_dv_entry (dv_bytes dv) dv"
  unfolding read_dv_entry_def dv_bytes_def
  using decodes_map [OF strings_reads, of "snd dv" "Pair (fst dv)"]
  by (auto intro!: decodes_bnd [OF reads_store [OF slice.fixed_ok(3)]])

lemma dv_updates_reads:
  assumes "list_all (\<lambda>dv. good_strings (snd dv)) dvs" and "length dvs < 2 ^ 31"
  shows "reads (read_dv_updates seg) (dv_updates_bytes dvs) dvs"
  unfolding read_dv_updates_def dv_updates_bytes_def
proof (rule decodes_bnd [OF reads_store [OF slice.fixed_ok(3)]], rule reads_remaining)
  fix n assume n: "length (concat (map dv_bytes dvs)) \<le> n"
  moreover have "length dvs \<le> length (concat (map dv_bytes dvs))"
    by (rule length_concat_ge) (simp add: dv_bytes_def)
  ultimately have "\<not> n < length dvs" by linarith
  then show "reads (if sint (of_nat (length dvs) :: i32) < 0 \<or> n < nat (sint (of_nat (length dvs) :: i32))
      then fail (InvalidDocValuesFieldCount (sint (of_nat (length dvs) :: i32)) seg)
      else read_many read_dv_entry (nat (sint (of_nat (length dvs) :: i32)))) (concat (map dv_bytes dvs)) dvs"
    using decodes_many [of dvs slice_ok as_slice read_dv_entry dv_bytes] dv_entry_reads assms
    by (simp add: small_count list_all_iff)
qed

lemmas reads_bnds = decodes_bnd [OF string_reads] decodes_bnd [OF bytes_reads] decodes_bnd [OF generation_reads]
  decodes_bnd [OF count_reads] decodes_bnd [OF sci_id_reads] decodes_bnd [OF strings_reads] decodes_bnd [OF version_reads]

lemma segment_reads:
  assumes "good_segment seg"
  shows "reads (read_segment VERSION_CURRENT) (segment_bytes seg) seg"
proof -
  have fields: "seg = sci_default\<lparr>segment_name := segment_name seg, segment_id := segment_id seg, codec_name := codec_name seg,
      del_gen := del_gen seg, del_count := del_count seg, field_infos_gen := field_infos_gen seg,
      doc_values_gen := doc_values_gen seg, soft_del_count := soft_del_count seg, sci_id := sci_id seg,
      field_infos_files := field_infos_files seg, dv_update_files := dv_update_files seg\<rparr>"
    using assms by (simp add: sci_default_def good_segment_def)
  note g = assms [unfolded good_segment_def]
  show ?thesis
    unfolding read_segment_def segment_bytes_def
    using g fields
    by (intro reads_bnds decodes_last [OF dv_updates_reads]) simp_all
qed


lemma length_segment_bytes: "1 \<le> length (segment_bytes seg)"
  using length_string_bytes [of "segment_name seg"] by (simp add: segment_bytes_def)

lemma header_reads:
  assumes "length codec < 2 ^ 31" and "sint mn \<le> sint v" and "sint v \<le> sint mx"
  shows "reads (store (check_header codec mn mx)) (header_bytes codec v) \<lparr>version = v\<rparr>"
  using assms header_read [of _ codec v _ codec mn mx] by (intro reads_store) (fastforce simp: decodes_def)

lemma suffix_bnd:
  assumes "length suffix < 256" and "reads (f suffix) cs w"
  shows "reads (bnd (store (check_index_header_suffix suffix)) f) ([of_nat (length suffix)] @ suffix @ cs) w"
proof -
  have "reads (store (check_index_header_suffix suffix)) ([of_nat (length suffix)] @ suffix) suffix"
    using suffix_read [OF _ _ assms(1), of _ _ suffix] by (intro reads_store) (simp add: decodes_def)
  then show ?thesis using assms(2) decodes_bnd [of slice_ok as_slice _ _ suffix f cs w] by (metis append_assoc)
qed

lemma reads_if: "\<not> c \<Longrightarrow> reads Q bs v \<Longrightarrow> reads (if c then P else Q) bs v"
  by simp

lemma counter_reads:
  "good_gen c \<Longrightarrow> reads (bnd (store slice_read_vlong) (\<lambda>c. lift_res (check_generation which c seg))) (encode_varint c) c"
  by (intro decodes_last [OF reads_store [OF slice_decoders(2)]]) (simp add: check_generation_def good_gen_def reads_lift)

lemma user_data_reads:
  "list_all (\<lambda>(k, v). good_string k \<and> good_string v) m \<Longrightarrow> length m < 2 ^ 31 \<Longrightarrow>
   reads (store (read_map_of_strings slice_impl slice_read_string)) (map_bytes m) m"
  by (intro reads_store slice.map_ok slice_string) (auto simp: list_all_iff)

lemma min_version_reads:
  assumes "case min_segment_lucene_version sis of None \<Rightarrow> segments sis = [] | Some v \<Rightarrow> segments sis \<noteq> [] \<and> good_version v"
  shows "reads (if 0 < int (length (segments sis)) then bnd read_vint_version (\<lambda>m. ret (Some m)) else ret None)
    (min_version_bytes sis) (min_segment_lucene_version sis)"
  using assms decodes_map [OF version_reads, of _ Some]
  by (cases "min_segment_lucene_version sis") (auto simp: min_version_bytes_def)

lemma segments_reads:
  assumes "list_all good_segment segs"
  shows "reads (read_many (read_segment VERSION_CURRENT) (length segs)) (concat (map segment_bytes segs)) segs"
  using assms by (intro decodes_many segment_reads) (simp add: list_all_iff)

lemmas reads_header_bnds = decodes_bnd [OF header_reads] suffix_bnd decodes_bnd [OF counter_reads]
  decodes_bnd [OF reads_store [OF slice_decoders(1)]] decodes_bnd [OF reads_store [OF slice.fixed_ok(3)]]
  decodes_bnd [OF min_version_reads] decodes_bnd [OF segments_reads] decodes_last [OF user_data_reads]

lemma payload_reads:
  assumes "good_commit sis"
  shows "reads (parse_payload (generation sis))
    (index_header_bytes CODEC_NAME VERSION_CURRENT (si_id sis) (to_base36 (generation sis)) @ commit_bytes sis) sis"
proof -
  note g = assms [unfolded good_commit_def]
  have gen: "check_generation ''generation'' (generation sis) [] = Inr (generation sis)"
    using g by (simp add: check_generation_def good_gen_def)
  have versions: "sint VERSION_74 \<le> sint VERSION_CURRENT" "length CODEC_NAME < 2 ^ 31"
    by (simp_all add: VERSION_74_def VERSION_CURRENT_def VERSION_86_def CODEC_NAME_def ascii_def)
  have suffix: "length (to_base36 (generation sis)) < 256"
    using length_to_base36 [of "generation sis"] by simp
  have count: "sint (of_nat (length (segments sis)) :: i32) = int (length (segments sis))"
    using g by (simp add: small_count)
  have many: "length (segments sis) \<le> length (concat (map segment_bytes (segments sis)))"
    using length_segment_bytes by (rule length_concat_ge)
  have tail: "reads
     (bnd (if 0 < int (length (segments sis)) then bnd read_vint_version (\<lambda>m. ret (Some m)) else ret None) (\<lambda>min_version.
      bnd (read_many (read_segment VERSION_CURRENT) (length (segments sis))) (\<lambda>segs.
      bnd (store (read_map_of_strings slice_impl slice_read_string)) (\<lambda>udata.
      ret \<lparr>si_id = si_id sis, generation = generation sis, format_version = VERSION_CURRENT,
        si_lucene_version = si_lucene_version sis, index_created_version_major = index_created_version_major sis,
        si_version = si_version sis, counter = counter sis, min_segment_lucene_version = min_version,
        segments = segs, user_data = udata\<rparr>))))
     (min_version_bytes sis @ concat (map segment_bytes (segments sis)) @ map_bytes (user_data sis)) sis"
    using g by (intro reads_header_bnds) (cases sis; simp)+
  show ?thesis
    unfolding parse_payload_def gen index_header_bytes_def commit_bytes_def append_assoc
    using g many tail
    by (intro reads_pure reads_header_bnds reads_bnds reads_if reads_remaining versions suffix)
       (simp_all add: count split del: if_split)
qed

section \<open>Parsing what was written\<close>

lemma keeps_parse_payload: "keeps (reading b) (parse_payload g)"
proof -
  have rem: "keeps (reading b) remaining_now" by (auto simp: keeps_def remaining_now_def)
  have ver: "keeps (reading b) read_vint_version"
    unfolding read_vint_version_def by (intro keeps_bnd keeps_reading)
  have gen: "keeps (reading b) (read_generation which seg)" "keeps (reading b) (read_count seg)" for which seg
    unfolding read_generation_def read_count_def by (intro keeps_bnd keeps_if keeps_reading)+
  have sci: "keeps (reading b) (read_sci_id format)" for format
    unfolding read_sci_id_def by (intro keeps_bnd keeps_if keeps_reading)
  have dv: "keeps (reading b) (read_dv_updates seg)" "keeps (reading b) read_strings" for seg
    unfolding read_dv_updates_def read_dv_entry_def read_strings_def by (intro keeps_bnd keeps_if rem keeps_reading)+
  have "keeps (reading b) (read_segment format)" for format
    unfolding read_segment_def by (intro keeps_bnd keeps_reading gen sci dv)
  then show ?thesis
    unfolding parse_payload_def by (intro keeps_bnd keeps_if keeps_reading rem ver gen)
qed

lemma parse_to_bytes:
  assumes "good_commit sis" and "to_bytes K threads sis = Some b" and "length b \<le> usize_max"
  shows "parse K threads b (generation sis) = Inr sis"
  unfolding parse_def
proof (rule parse_framed [OF payload_reads [OF assms(1)] keeps_parse_payload _ assms(3)])
  show "b = write_footer K threads
      (index_header_bytes CODEC_NAME VERSION_CURRENT (si_id sis) (to_base36 (generation sis)) @ commit_bytes sis)"
    using assms(1,2) length_to_base36 [of "generation sis"] by (simp add: to_bytes_eq good_commit_def)
qed

section \<open>A commit under the wrong generation\<close>

lemma digits_ascii: "list_all (\<lambda>b. b < 0x80) DIGITS" "length DIGITS = 36"
  by code_simp+

lemma ascii_digits_of: "b \<in> set (digits_of n) \<Longrightarrow> b < 0x80"
proof (induction n rule: digits_of.induct)
  case (1 n)
  have "DIGITS ! (n mod 36) < 0x80" using digits_ascii by (simp add: list_all_length)
  then show ?case using 1 by (subst (asm) (2) digits_of.simps) (auto split: if_splits)
qed

lemma valid_to_base36: "valid_utf8 (to_base36 n)"
proof (rule valid_utf8_ascii)
  fix b assume "b \<in> set (to_base36 n)"
  then have "b \<in> {48, 45} \<or> b \<in> set (digits_of (nat \<bar>sint n\<bar>))"
    by (auto simp: to_base36_def ascii_def rev_base36_digits Let_def
        simp flip: set_rev [of "base36_digits _ _"] split: if_splits)
  then show "b < 0x80" using ascii_digits_of by auto
qed

lemma to_base36_inj: "to_base36 a = to_base36 b \<Longrightarrow> a = b"
  by (metis from_to_base36 option.inject)

lemma parse_wrong_generation:
  assumes "good_commit sis" and "to_bytes K threads sis = Some b" and "length b \<le> usize_max"
    and "g \<noteq> generation sis" and "good_gen g"
  shows "parse K threads b g = Inl (Store (Corrupted (SuffixMismatch (to_base36 (generation sis)) (to_base36 g))))"
proof -
  let ?suffix = "to_base36 (generation sis)"
  have i: "length (si_id sis) = ID_LENGTH" using assms(1) by (simp add: good_commit_def)
  have b: "b = write_footer K threads (index_header_bytes CODEC_NAME VERSION_CURRENT (si_id sis) ?suffix @ commit_bytes sis)"
    using assms(2) i length_to_base36 [of "generation sis"] by (simp add: to_bytes_eq)
  then obtain r where r: "b = header_bytes CODEC_NAME VERSION_CURRENT @ si_id sis @ [of_nat (length ?suffix)] @ ?suffix @ r"
    by (simp add: write_footer_eq index_header_bytes_def)
  have start: "slice_ok (slice_new b)" "as_slice (slice_new b) = header_bytes CODEC_NAME VERSION_CURRENT @ si_id sis @ [of_nat (length ?suffix)] @ ?suffix @ r"
    using assms(3) by (simp add: slice_ok_def slice_new_def, subst r [symmetric], simp add: as_slice_def slice_new_def)
  have "reads (store (check_header CODEC_NAME VERSION_74 VERSION_CURRENT)) (header_bytes CODEC_NAME VERSION_CURRENT) \<lparr>version = VERSION_CURRENT\<rparr>"
    by (rule header_reads) (simp_all add: VERSION_74_def VERSION_CURRENT_def VERSION_86_def CODEC_NAME_def ascii_def)
  then obtain s1 where s1: "store (check_header CODEC_NAME VERSION_74 VERSION_CURRENT) (slice_new b) = (Inr \<lparr>version = VERSION_CURRENT\<rparr>, s1)"
      "slice_ok s1" "as_slice s1 = si_id sis @ [of_nat (length ?suffix)] @ ?suffix @ r"
    using start unfolding decodes_def by blast
  obtain s2 where s2: "store (slice_read_bytes ID_LENGTH) s1 = (Inr (si_id sis), s2)" "slice_ok s2"
      "as_slice s2 = [of_nat (length ?suffix)] @ ?suffix @ r"
    using bytes_reads [OF i] s1 unfolding decodes_def by blast
  have "?suffix \<noteq> to_base36 g" "length ?suffix < 256"
    using to_base36_inj assms(4) length_to_base36 [of "generation sis"] by fastforce+
  then obtain s3 where "check_index_header_suffix (to_base36 g) s2 =
      (Inl (Corrupted (SuffixMismatch ?suffix (to_base36 g))), s3)"
    using suffix_read [OF s2(2,3), of "to_base36 g"] by (auto simp: valid_to_base36)
  moreover have "check_generation ''generation'' g [] = Inr g" using assms(5) by (simp add: check_generation_def good_gen_def)
  ultimately show ?thesis
    using s1 s2 by (simp add: parse_def parse_payload_def bnd_Inr [of "lift_res (Inr g)"])
qed

section \<open>Counters and file names\<close>

lemma liv_file_name_inj: "liv_file_name seg a = liv_file_name seg b \<Longrightarrow> a = b"
  by (auto simp: liv_file_name_def ascii_def split: if_splits dest: to_base36_inj)

lemma set_foldl_push_new: "set (foldl push_new out xs) = set out \<union> set xs"
  by (induction xs arbitrary: out) (auto simp: push_new_def)

lemma distinct_foldl_push_new: "distinct out \<Longrightarrow> distinct (foldl push_new out xs)"
  by (induction xs arbitrary: out) (auto simp: push_new_def)

lemma sci_files_set:
  "set (sci_files sci si_files) = set si_files \<union>
     (if del_gen sci \<noteq> - 1 then {liv_file_name (segment_name sci) (del_gen sci)} else {}) \<union>
     set (field_infos_files sci) \<union> (\<Union>dv \<in> set (dv_update_files sci). set (snd dv))"
  and distinct_sci_files: "distinct (sci_files sci si_files)"
proof -
  have dvs: "set (foldl (\<lambda>files (_, dv_files). foldl push_new files dv_files) out dvs) = set out \<union> (\<Union>dv \<in> set dvs. set (snd dv))"
    "distinct out \<Longrightarrow> distinct (foldl (\<lambda>files (_, dv_files). foldl push_new files dv_files) out dvs)"
    for out and dvs :: "(i32 \<times> name list) list"
    by (induction dvs arbitrary: out) (auto simp: set_foldl_push_new distinct_foldl_push_new)
  show "set (sci_files sci si_files) = set si_files \<union>
     (if del_gen sci \<noteq> - 1 then {liv_file_name (segment_name sci) (del_gen sci)} else {}) \<union>
     set (field_infos_files sci) \<union> (\<Union>dv \<in> set (dv_update_files sci). set (snd dv))"
    by (auto simp: sci_files_def dvs set_foldl_push_new push_new_def Let_def)
  show "distinct (sci_files sci si_files)"
    by (auto simp: sci_files_def push_new_def Let_def intro!: dvs distinct_foldl_push_new)
qed

lemma sint_Suc: "sint g < 2 ^ 63 - 1 \<Longrightarrow> sint (g + 1) = sint g + 1" for g :: i64
  using sint_range_size [of g] by (simp add: sint_word_ariths word_size signed_take_bit_int_eq_self)

lemma advance_del_gen_simps:
  "del_gen (advance_del_gen H sci) = next_write_del_gen sci" "segment_name (advance_del_gen H sci) = segment_name sci"
  "nw_del_gen (advance_del_gen H sci) = next_write_del_gen sci + 1"
  by (simp_all add: advance_del_gen_def generation_advanced_def Let_def)

lemma advance_del_gen_steps:
  assumes "0 \<le> sint (next_write_del_gen sci)" and "sint (next_write_del_gen sci) + int i < 2 ^ 63"
  shows "sint (next_write_del_gen ((advance_del_gen H ^^ i) sci)) = sint (next_write_del_gen sci) + int i"
    and "segment_name ((advance_del_gen H ^^ i) sci) = segment_name sci"
proof -
  have "sint (next_write_del_gen ((advance_del_gen H ^^ i) sci)) = sint (next_write_del_gen sci) + int i \<and>
    segment_name ((advance_del_gen H ^^ i) sci) = segment_name sci"
    using assms(2)
  proof (induction i)
    case (Suc i)
    let ?s = "(advance_del_gen H ^^ i) sci"
    have IH: "sint (next_write_del_gen ?s) = sint (next_write_del_gen sci) + int i" "segment_name ?s = segment_name sci"
      using Suc by auto
    then have "sint (next_write_del_gen ?s + 1) = sint (next_write_del_gen sci) + int (Suc i)"
      using Suc.prems by (simp add: sint_Suc)
    moreover from this have "next_write_del_gen ?s + 1 \<noteq> 0" using assms(1) by fastforce
    ultimately show ?case
      using IH(2) by (simp add: advance_del_gen_simps next_write_del_gen_def [of "advance_del_gen H ?s"] derive_next_gen_def)
  qed simp
  then show "sint (next_write_del_gen ((advance_del_gen H ^^ i) sci)) = sint (next_write_del_gen sci) + int i"
    "segment_name ((advance_del_gen H ^^ i) sci) = segment_name sci" by auto
qed

lemma check_segments_ok: "list_all good_segment segs \<Longrightarrow> check_segments_writable segs = Inr ()"
  by (induction segs) (simp_all add: check_generation_def good_segment_def good_gen_def)

section \<open>Publishing in the in-memory directory\<close>

lemma names_of_generation:
  assumes "0 \<le> sint (generation sis)"
  obtains p n where "pending_segments_file_name (generation sis) = Some p" "segments_file_name (generation sis) = Some n"
    "pending_segments_name sis = Inr p" "segments_name sis = Inr n" "p \<noteq> n" "\<not> is_segments_candidate p"
proof -
  have "generation sis \<noteq> - 1" using assms by fastforce
  then have "\<exists>n. segments_file_name (generation sis) = Some n" by (simp add: segments_file_name_def)
  then obtain n where n: "segments_file_name (generation sis) = Some n" by blast
  have "\<exists>x. pending_segments_file_name (generation sis) = Some (PENDING_SEGMENTS_PREFIX @ x)"
    using assms by (auto simp: pending_segments_file_name_def)
  then obtain p x where p: "pending_segments_file_name (generation sis) = Some p" "p = PENDING_SEGMENTS_PREFIX @ x" by blast
  then show thesis
    using that [of p n] n segments_name_parses(2) [OF n] pending_not_candidate [of x]
    by (auto simp: pending_segments_name_def segments_name_def)
qed

text \<open>A new file of the in-memory directory, written and closed.\<close>

lemma bb_write_new:
  assumes "bb_good d" and "\<not> file_exists d p"
  shows "\<exists>d1 d2. bb_create_output p d = (Inr (length (bb_entries d)), d1) \<and>
    bb_close_output (length (bb_entries d)) b d1 = (Inr (), d2) \<and> bb_good d2 \<and> bb_open p d2 = (Inr b, d2) \<and>
    (\<forall>k. k \<noteq> p \<longrightarrow> fst (bb_open k d2) = fst (bb_open k d))"
proof -
  define h where "h = length (bb_entries d)"
  define d2 where "d2 = snd (bb_close_output h b (bb_insert p d))"
  have d2: "map_of (bb_files d2) = (map_of (bb_files d))(p \<mapsto> h)" "bb_entries d2 = bb_entries d @ [Some b]"
    by (simp_all add: d2_def bb_insert_def bb_close_output_def update_conv' h_def)
  have "bb_good d2" using assms(1) bb_insert_good bb_operations_good by (simp add: d2_def)
  moreover have "fst (bb_open k d2) = fst (bb_open k d)" if "k \<noteq> p" for k
    using that d2 assms(1) by (auto simp: bb_open_def bb_good_def nth_append split: option.splits)
  moreover have "bb_open p d2 = (Inr b, d2)" using d2 by (simp add: bb_open_def h_def)
  ultimately show ?thesis
    using assms(2) by (intro exI [of _ "bb_insert p d"] exI [of _ d2])
      (auto simp: bb_create_output_def d2_def h_def bb_close_output_def)
qed

text \<open>Create, write, close and rename: afterwards the new name holds the bytes and nothing else has changed.\<close>

lemma bb_publish:
  assumes "bb_good d" and "\<not> file_exists d p" and "\<not> file_exists d n" and "p \<noteq> n"
  obtains d1 d2 d3 where "bb_create_output p d = (Inr (length (bb_entries d)), d1)"
    "bb_close_output (length (bb_entries d)) b d1 = (Inr (), d2)" "bb_rename p n d2 = (Inr (), d3)"
    "bb_good d3" "bb_file d3 = (bb_file d)(n \<mapsto> length (bb_entries d))" "bb_open n d3 = (Inr b, d3)"
    "\<And>k. k \<noteq> n \<Longrightarrow> fst (bb_open k d3) = fst (bb_open k d)"
proof -
  define h where "h = length (bb_entries d)"
  define d1 where "d1 = bb_insert p d"
  define d2 where "d2 = snd (bb_close_output h b d1)"
  define d3 where "d3 = snd (bb_rename p n d2)"
  have d2: "map_of (bb_files d2) = (map_of (bb_files d))(p \<mapsto> h)" "bb_entries d2 = bb_entries d @ [Some b]"
    by (simp_all add: d2_def d1_def bb_insert_def bb_close_output_def update_conv' h_def)
  have d3: "map_of (bb_files d3) = (map_of (bb_files d))(n \<mapsto> h)" "bb_entries d3 = bb_entries d @ [Some b]"
    using assms(2-4) d2 by (auto simp: d3_def bb_rename_def file_exists_def update_conv' delete_conv' fun_eq_iff)
  have "bb_good d3" using assms(1) bb_insert_good bb_operations_good by (simp add: d1_def d2_def d3_def)
  moreover have "fst (bb_open k d3) = fst (bb_open k d)" if "k \<noteq> n" for k
    using that d3 assms(1) by (auto simp: bb_open_def bb_good_def nth_append split: option.splits)
  ultimately show thesis
    using that [of d1 d2 d3] assms(2-4) d2 d3
    by (auto simp: d1_def [symmetric] bb_create_output_def bb_open_def bb_file_def bb_close_output_def d2_def d3_def h_def
        file_exists_def bb_rename_def)
qed

section \<open>Properties\<close>

text \<open>
  C4: A commit survives its file. Every commit the writer can hold (16-byte ids, UTF-8 names, generations within the
  cap, serialised fields only) is encoded without a panic, and \<open>parse\<close> under the generation it was written for
  returns exactly that commit; under any other legal generation it is refused for its suffix.
\<close>
theorem segments_file_round_trip:
  assumes "good_commit sis" and "g \<noteq> generation sis" and "good_gen g"
  shows "\<exists>b. to_bytes K threads sis = Some b \<and> (length b \<le> usize_max \<longrightarrow>
    parse K threads b (generation sis) = Inr sis \<and>
    parse K threads b g = Inl (Store (Corrupted (SuffixMismatch (to_base36 (generation sis)) (to_base36 g)))))"
proof -
  obtain b where b: "to_bytes K threads sis = Some b"
    using assms(1) length_to_base36 [of "generation sis"] by (simp add: to_bytes_eq good_commit_def)
  then show ?thesis
    using parse_to_bytes [OF assms(1) b] parse_wrong_generation [OF assms(1) b _ assms(2,3)] by blast
qed

definition sample_commit :: segment_infos where
  "sample_commit =
     \<lparr>si_id = replicate 16 7, generation = 3, format_version = VERSION_CURRENT,
      si_lucene_version = \<lparr>major = 10, minor = 4, bugfix = 0\<rparr>, index_created_version_major = 10, si_version = 5,
      counter = 2, min_segment_lucene_version = Some \<lparr>major = 10, minor = 4, bugfix = 0\<rparr>,
      segments = [sci_default\<lparr>segment_name := ascii ''_0'', del_gen := 1\<rparr>], user_data = [(ascii ''k'', ascii ''v'')]\<rparr>"

lemma sample_commit_good: "good_commit sample_commit"
proof -
  have "good_string []" "good_string (ascii ''_0'')" "good_string (ascii ''k'')" "good_string (ascii ''v'')"
    by (auto simp: good_string_def ascii_def intro!: valid_utf8_ascii)
  then show ?thesis
    by (simp add: good_commit_def good_gen_def good_version_def good_segment_def good_strings_def sample_commit_def
        sci_default_def ID_LENGTH_def MAX_GENERATION_def)
qed

lemma sample_commit_bytes:
  obtains b where "to_bytes xor_hasher 4 sample_commit = Some b" "length b \<le> usize_max"
proof -
  let ?h = "index_header_bytes CODEC_NAME VERSION_CURRENT (si_id sample_commit) (to_base36 (generation sample_commit))"
  have "length (commit_bytes sample_commit) \<le> 1000"
    using length_string_bytes_le [of "ascii ''_0''"] length_string_bytes_le [of "ascii ''k''"] length_string_bytes_le [of "ascii ''v''"] 
      length_string_bytes_le [of "[]"]
    by (simp add: commit_bytes_def sample_commit_def sci_default_def version_bytes_def min_version_bytes_def segment_bytes_def
        sci_id_bytes_def set_bytes_def dv_updates_bytes_def map_bytes_def encode_varint_single ascii_def ID_LENGTH_def)
  moreover have "length ?h \<le> 1000"
    using length_to_base36 [of "generation sample_commit"] length_vint [of "of_nat (length CODEC_NAME)"]
    by (simp add: index_header_bytes_def header_bytes_def string_bytes_def CODEC_NAME_def ascii_def sample_commit_def)
  moreover have "to_bytes xor_hasher 4 sample_commit = Some (write_footer xor_hasher 4 (?h @ commit_bytes sample_commit))"
    using sample_commit_good le_less_trans [OF length_to_base36] by (intro to_bytes_eq) (simp_all add: good_commit_def)
  ultimately show ?thesis by (intro that) (auto simp: length_write_footer usize_max_def)
qed

theorem segments_file_round_trip_witness:
  "\<exists>b. to_bytes xor_hasher 4 sample_commit = Some b \<and> parse xor_hasher 4 b 3 = Inr sample_commit"
proof -
  have gen: "generation sample_commit = 3" "good_gen 4" by (simp_all add: sample_commit_def good_gen_def MAX_GENERATION_def)
  obtain b where b: "to_bytes xor_hasher 4 sample_commit = Some b" "length b \<le> usize_max" by (rule sample_commit_bytes)
  then have "parse xor_hasher 4 b (generation sample_commit) = Inr sample_commit"
    using segments_file_round_trip [OF sample_commit_good, of 4 xor_hasher 4] gen by auto
  then show ?thesis using b(1) unfolding gen(1) by blast
qed

text \<open>The counters a commit serialises, in the order of the check, with the names and the segment an error gives them.\<close>

definition serialised_counters :: "segment_infos \<Rightarrow> (string \<times> i64 \<times> name) list" where
  "serialised_counters sis =
     [(''generation'', generation sis, []), (''version'', si_version sis, []), (''counter'', counter sis, [])] @
     concat (map (\<lambda>sci. [(''delGen'', del_gen sci, segment_name sci), (''fieldInfosGen'', field_infos_gen sci, segment_name sci),
       (''docValuesGen'', doc_values_gen sci, segment_name sci)]) (segments sis))"

definition first_bad_counter :: "(string \<times> i64 \<times> name) list \<Rightarrow> (string \<times> i64 \<times> name) option" where
  "first_bad_counter = find (\<lambda>(which, v, segment). sint v < - 1 \<or> MAX_GENERATION < sint v)"

lemma check_writable_eq:
  "check_writable_generations sis =
     (case first_bad_counter (serialised_counters sis) of
        None \<Rightarrow> Inr () | Some (which, v, segment) \<Rightarrow> Inl (InvalidGeneration which (sint v) segment))"
proof -
  have "check_segments_writable scis =
      (case first_bad_counter (concat (map (\<lambda>sci. [(''delGen'', del_gen sci, segment_name sci),
          (''fieldInfosGen'', field_infos_gen sci, segment_name sci), (''docValuesGen'', doc_values_gen sci, segment_name sci)]) scis)) of
        None \<Rightarrow> Inr () | Some (which, v, segment) \<Rightarrow> Inl (InvalidGeneration which (sint v) segment))" for scis
    by (induction scis) (auto simp: first_bad_counter_def check_generation_def)
  then show ?thesis
    by (auto simp: check_writable_generations_def serialised_counters_def first_bad_counter_def check_generation_def)
qed

text \<open>
  C13: Which commits \<open>write_pending\<close> refuses, and what it does with the others. When a counter the commit serialises is outside
  the range that \<open>parse\<close> accepts (\<open>-1\<close> to the cap), the error carries the name, the value and the segment of the first such counter, in the
  order generation, version, counter, then the three generations of each segment, and the directory is not touched. When none is,
  a commit at generation \<open>-1\<close> (which has no file name) is refused for its generation, again without touching the directory; every
  other commit with a non-negative counter (a negative one violates an assertion of \<open>write_vlong\<close>) is written to an in-memory
  directory that has no file of its pending name: that name is returned, the file holds exactly the bytes of the commit, and every other file is as it was.
\<close>
theorem write_pending_refuses:
  "case first_bad_counter (serialised_counters sis) of
     Some (which, v, segment) \<Rightarrow> write_pending K threads D sis d = (Inl (InvalidGeneration which (sint v) segment), d)
   | None \<Rightarrow>
       (generation sis = - 1 \<longrightarrow> write_pending K threads D sis d = (Inl (Store (Corrupted (InvalidSegmentsGeneration (- 1)))), d)) \<and>
       (generation sis \<noteq> - 1 \<and> length (si_id sis) = ID_LENGTH \<and> 0 \<le> sint (counter sis) \<longrightarrow>
         (\<exists>p bytes. pending_segments_file_name (generation sis) = Some p \<and> to_bytes K threads sis = Some bytes \<and>
           (\<forall>m. bb_good m \<and> \<not> file_exists m p \<longrightarrow>
             (\<exists>m'. write_pending K threads bb_impl sis m = (Inr p, m') \<and> bb_good m' \<and> bb_open p m' = (Inr bytes, m') \<and>
               (\<forall>k. k \<noteq> p \<longrightarrow> fst (bb_open k m') = fst (bb_open k m))))))"
proof (cases "first_bad_counter (serialised_counters sis)")
  case None
  then have ok: "check_writable_generations sis = Inr ()" and g: "- 1 \<le> sint (generation sis)"
    by (auto simp: check_writable_eq first_bad_counter_def serialised_counters_def split: if_splits)
  have "\<exists>p bytes. pending_segments_file_name (generation sis) = Some p \<and> to_bytes K threads sis = Some bytes \<and>
      (\<forall>m. bb_good m \<and> \<not> file_exists m p \<longrightarrow>
        (\<exists>m'. write_pending K threads bb_impl sis m = (Inr p, m') \<and> bb_good m' \<and> bb_open p m' = (Inr bytes, m') \<and>
          (\<forall>k. k \<noteq> p \<longrightarrow> fst (bb_open k m') = fst (bb_open k m))))"
    if sis: "generation sis \<noteq> - 1" "length (si_id sis) = ID_LENGTH"
  proof -
    have "sint (generation sis) \<noteq> - 1" using sis(1) signed_word_eqI [of "generation sis" "- 1"] by auto
    then obtain p where p: "pending_segments_file_name (generation sis) = Some p" "pending_segments_name sis = Inr p"
      using g names_of_generation [of sis] by force
    obtain bytes where bytes: "to_bytes K threads sis = Some bytes"
      using sis(2) length_to_base36 [of "generation sis"] by (simp add: to_bytes_eq)
    have "\<exists>m'. write_pending K threads bb_impl sis m = (Inr p, m') \<and> bb_good m' \<and> bb_open p m' = (Inr bytes, m') \<and>
        (\<forall>k. k \<noteq> p \<longrightarrow> fst (bb_open k m') = fst (bb_open k m))" if m: "bb_good m" "\<not> file_exists m p" for m
    proof -
      obtain d1 d2 where "bb_create_output p m = (Inr (length (bb_entries m)), d1)"
        "bb_close_output (length (bb_entries m)) bytes d1 = (Inr (), d2)" "bb_good d2" "bb_open p d2 = (Inr bytes, d2)"
        "\<forall>k. k \<noteq> p \<longrightarrow> fst (bb_open k d2) = fst (bb_open k m)" using bb_write_new [OF m, of bytes] by blast
      then show ?thesis
        using ok p(2) bytes by (auto simp: write_pending_def or_undo_def bb_impl_def bb_sync_def bb_sync_meta_data_def map_err_def bnd_def)
    qed
    then show ?thesis using p(1) bytes by blast
  qed
  moreover have "write_pending K threads D sis d = (Inl (Store (Corrupted (InvalidSegmentsGeneration (- 1)))), d)" if "generation sis = - 1"
    using ok that by (simp add: write_pending_def pending_segments_name_def pending_segments_file_name_def)
  ultimately show ?thesis using None by simp
qed (auto simp: write_pending_def check_writable_eq)

theorem write_pending_refuses_witness:
  "write_pending xor_hasher 4 bb_impl (sample_commit\<lparr>counter := - 2, si_version := - 7\<rparr>) bb_new =
     (Inl (InvalidGeneration ''version'' (- 7) []), bb_new) \<and>
   (\<exists>m' bytes. write_pending xor_hasher 4 bb_impl sample_commit bb_new = (Inr (ascii ''pending_segments_3''), m') \<and>
     to_bytes xor_hasher 4 sample_commit = Some bytes \<and> bb_open (ascii ''pending_segments_3'') m' = (Inr bytes, m'))"
proof
  have "first_bad_counter (serialised_counters (sample_commit\<lparr>counter := - 2, si_version := - 7\<rparr>)) = Some (''version'', - 7, [])"
    by (simp add: first_bad_counter_def serialised_counters_def sample_commit_def MAX_GENERATION_def)
  then show "write_pending xor_hasher 4 bb_impl (sample_commit\<lparr>counter := - 2, si_version := - 7\<rparr>) bb_new =
      (Inl (InvalidGeneration ''version'' (- 7) []), bb_new)"
    using write_pending_refuses [of "sample_commit\<lparr>counter := - 2, si_version := - 7\<rparr>" xor_hasher 4 bb_impl bb_new] by simp
  have "first_bad_counter (serialised_counters sample_commit) = None" by code_simp
  moreover have "generation sample_commit = 3" "length (si_id sample_commit) = ID_LENGTH" "0 \<le> sint (counter sample_commit)"
    by (simp_all add: sample_commit_def ID_LENGTH_def)
  moreover have "pending_segments_file_name 3 = Some (ascii ''pending_segments_3'')" by code_simp
  moreover have "bb_good bb_new" "\<not> file_exists bb_new k" for k by (simp_all add: bb_new_def bb_good_def file_exists_def)
  ultimately show "\<exists>m' bytes. write_pending xor_hasher 4 bb_impl sample_commit bb_new = (Inr (ascii ''pending_segments_3''), m') \<and>
      to_bytes xor_hasher 4 sample_commit = Some bytes \<and> bb_open (ascii ''pending_segments_3'') m' = (Inr bytes, m')"
    using write_pending_refuses [of sample_commit xor_hasher 4 bb_impl bb_new] by auto
qed

text \<open>
  Deletions never reuse a live-docs file. However often \<open>advance_del_gen\<close> runs (while the generation stays
  below \<open>2 ^ 63\<close>), the generations it hands out are consecutive and the \<open>.liv\<close> file names are pairwise distinct.
\<close>
theorem advanced_live_docs_names_are_fresh:
  assumes "0 \<le> sint (next_write_del_gen sci)" and "sint (next_write_del_gen sci) + int j < 2 ^ 63" and "i < j"
  shows "sint (del_gen ((advance_del_gen H ^^ Suc i) sci)) = sint (next_write_del_gen sci) + int i \<and>
    liv_file_name (segment_name sci) (del_gen ((advance_del_gen H ^^ Suc i) sci)) \<noteq>
    liv_file_name (segment_name sci) (del_gen ((advance_del_gen H ^^ Suc j) sci))"
proof -
  have gen: "sint (del_gen ((advance_del_gen H ^^ Suc k) sci)) = sint (next_write_del_gen sci) + int k" if "k \<le> j" for k
    using advance_del_gen_steps(1) [OF assms(1), of k H] assms(2) that by (simp add: advance_del_gen_simps)
  then have "del_gen ((advance_del_gen H ^^ Suc i) sci) \<noteq> del_gen ((advance_del_gen H ^^ Suc j) sci)"
    using assms(3) by (metis add_left_cancel less_imp_le_nat less_irrefl_nat of_nat_eq_iff order_refl)
  then show ?thesis using gen [of i] assms(3) liv_file_name_inj by fastforce
qed

theorem advanced_live_docs_names_are_fresh_witness:
  "liv_file_name (ascii ''_0'') (del_gen ((advance_del_gen (\<lambda>_. 0) ^^ Suc 0) (sci_default\<lparr>segment_name := ascii ''_0''\<rparr>))) \<noteq>
   liv_file_name (ascii ''_0'') (del_gen ((advance_del_gen (\<lambda>_. 0) ^^ Suc 2) (sci_default\<lparr>segment_name := ascii ''_0''\<rparr>)))"
  using advanced_live_docs_names_are_fresh [of "sci_default\<lparr>segment_name := ascii ''_0''\<rparr>" 2 0 "\<lambda>_. 0"]
  by (simp add: sci_default_def next_write_del_gen_def derive_next_gen_def)


text \<open>
  C3: Publishing a commit makes it the latest one. In a well-formed in-memory directory whose last commit is older,
  \<open>write\<close> runs both phases, leaves the commit under its \<open>segments_N\<close> name and no pending file, keeps every other
  file, and the next reader of the directory gets exactly the commit that was written.
\<close>
theorem published_commit_is_latest:
  assumes "good_commit sis" and "0 \<le> sint (generation sis)" and "bb_good d"
    and "pending_segments_file_name (generation sis) = Some p" and "segments_file_name (generation sis) = Some n"
    and "\<not> file_exists d p" and "\<not> file_exists d n"
    and "last_commit_generation (map fst (bb_files d)) = Inr g0" and "sint g0 < sint (generation sis)"
    and "to_bytes K threads sis = Some b" and "length b \<le> usize_max"
  shows "\<exists>d'. write_commit K threads bb_impl sis d = (Inr n, d') \<and> bb_good d' \<and>
    read_latest K threads bb_impl d' = (Inr sis, d') \<and> \<not> file_exists d' p \<and>
    (\<forall>k. k \<noteq> n \<longrightarrow> fst (bb_open k d') = fst (bb_open k d))"
proof -
  have names: "pending_segments_name sis = Inr p" "segments_name sis = Inr n" "p \<noteq> n" "\<not> is_segments_candidate p"
    using names_of_generation [OF assms(2)] assms(4,5) by (metis option.inject)+
  have ok: "check_writable_generations sis = Inr ()"
    using assms(1) by (auto simp: check_writable_generations_def check_generation_def good_commit_def good_gen_def list_all_iff
        good_segment_def intro: check_segments_ok)
  obtain d1 d2 d3 where d3: "bb_create_output p d = (Inr (length (bb_entries d)), d1)"
    "bb_close_output (length (bb_entries d)) b d1 = (Inr (), d2)" "bb_rename p n d2 = (Inr (), d3)"
    "bb_good d3" "bb_file d3 = (bb_file d)(n \<mapsto> length (bb_entries d))" "bb_open n d3 = (Inr b, d3)"
    "\<And>k. k \<noteq> n \<Longrightarrow> fst (bb_open k d3) = fst (bb_open k d)"
    using bb_publish [OF assms(3,6,7) names(3)] by blast
  have "write_commit K threads bb_impl sis d = (Inr n, d3)"
    using d3(1-3) names(1,2) ok assms(10)
    by (simp add: write_commit_def write_pending_def finish_pending_def or_undo_def bb_impl_def bb_sync_def bb_sync_meta_data_def
        map_err_def bnd_def)
  moreover have "\<not> file_exists d3 p"
    using fun_cong [OF d3(5), of p] assms(6) names(3) by (simp add: file_exists_def bb_file_def)
  moreover have "read_latest K threads bb_impl d3 = (Inr sis, d3)"
  proof -
    have listed: "set (sort (map fst (bb_files d3))) = insert n (set (map fst (bb_files d)))"
      using arg_cong [OF d3(5), of dom] by (simp add: bb_file_def dom_map_of_conv_image_fst)
    have "last_commit_generation (sort (map fst (bb_files d3))) = Inr (generation sis)"
      by (rule last_commit_generation_insert [OF assms(8) listed segments_name_parses(2,1) [OF assms(5)] assms(9)])
    then have "read_latest_commit bb_impl d3 = (Inr (generation sis, b), d3)"
      using d3(6) assms(5) by (simp add: read_latest_commit_def open_commit_file_def bb_impl_def bb_list_all_def bnd_def)
    then show ?thesis using parse_to_bytes [OF assms(1,10,11)] by (simp add: read_latest_def bnd_def map_err_def)
  qed
  ultimately show ?thesis using d3(4,7) by blast
qed

theorem published_commit_is_latest_witness:
  "\<exists>d'. write_commit xor_hasher 4 bb_impl sample_commit bb_new = (Inr (ascii ''segments_3''), d') \<and>
     read_latest xor_hasher 4 bb_impl d' = (Inr sample_commit, d')"
proof -
  have gen: "generation sample_commit = 3" by (simp add: sample_commit_def)
  have "pending_segments_file_name 3 = Some (ascii ''pending_segments_3'')" "segments_file_name 3 = Some (ascii ''segments_3'')"
    by code_simp+
  moreover obtain b where "to_bytes xor_hasher 4 sample_commit = Some b" "length b \<le> usize_max" by (rule sample_commit_bytes)
  moreover have "last_commit_generation (map fst (bb_files bb_new)) = Inr (- 1)" "bb_good bb_new" "\<not> file_exists bb_new k" for k
    by (simp_all add: bb_new_def bb_good_def file_exists_def last_commit_generation_def)
  ultimately show ?thesis
    using published_commit_is_latest [OF sample_commit_good, of bb_new] gen by fastforce
qed

end
