(* ===== verification/Index_File_Names.thy ===== *)
theory Index_File_Names
  imports Segment_Infos
begin

text \<open>
  The file-name functions of \<open>index_file_deleter.rs\<close>: which names are index files, which segment and generation a
  name carries, and \<open>inflate_gens\<close>, which pushes every counter of a commit past whatever the directory holds.
  Names are UTF-8 bytes; \<open>str::get\<close>, \<open>find\<close>, \<open>rfind\<close>, \<open>split\<close> and \<open>contains\<close> of the standard library are written
  out on them.
\<close>

section \<open>String operations\<close>

text \<open>\<open>s.get(1..)\<close>: absent on an empty string and when byte 1 is inside a character.\<close>

definition get_from_1 :: "u8 list \<Rightarrow> u8 list option" where
  "get_from_1 s = (case s of [] \<Rightarrow> None | _ # rest \<Rightarrow>
     (case rest of [] \<Rightarrow> Some [] | b # _ \<Rightarrow> if continuation b then None else Some rest))"

fun find_byte :: "(u8 \<Rightarrow> bool) \<Rightarrow> u8 list \<Rightarrow> nat option" where
  "find_byte p [] = None"
| "find_byte p (b # bs) = (if p b then Some 0 else map_option Suc (find_byte p bs))"

definition rfind_byte :: "u8 \<Rightarrow> u8 list \<Rightarrow> nat option" where
  "rfind_byte b s = map_option (\<lambda>i. length s - 1 - i) (find_byte ((=) b) (rev s))"

fun split_byte :: "u8 \<Rightarrow> u8 list \<Rightarrow> u8 list list" where
  "split_byte sep [] = [[]]"
| "split_byte sep (b # bs) =
     (if b = sep then [] # split_byte sep bs
      else case split_byte sep bs of [] \<Rightarrow> [[b]] | part # parts \<Rightarrow> (b # part) # parts)"

definition contains_str :: "u8 list \<Rightarrow> u8 list \<Rightarrow> bool" where
  "contains_str s p = list_ex (\<lambda>i. starts_with (drop i s) p) [0..<Suc (length s)]"

definition to_ascii_lowercase :: "u8 list \<Rightarrow> u8 list" where
  "to_ascii_lowercase s = map (\<lambda>b. if 65 \<le> b \<and> b \<le> 90 then b + 32 else b) s"

section \<open>Classifying a name\<close>

definition is_index_file_name :: "name \<Rightarrow> bool" where
  "is_index_file_name n =
     (if ends_with n (ascii ''write.lock'') then False
      else if starts_with n (ascii ''segments'') \<or> starts_with n (ascii ''pending_segments'') then True
      else if list_ex (contains_str n) [[0x0A], [0x0D], [0xC2, 0x85], [0xE2, 0x80, 0xA8], [0xE2, 0x80, 0xA9]] then False
      else case strip_prefix n (ascii ''_'') of
             None \<Rightarrow> False
           | Some rest \<Rightarrow>
               (let base_len = length (takeWhile (\<lambda>b. 97 \<le> b \<and> b \<le> 122 \<or> 48 \<le> b \<and> b \<le> 57) rest) in
                if base_len = 0 then False
                else case drop base_len rest of
                       [] \<Rightarrow> False
                     | b # bs \<Rightarrow> if b = 46 then True else if b = 95 then 46 \<in> set (b # bs) else False))"

definition is_segments_file_name :: "name \<Rightarrow> bool" where
  "is_segments_file_name n = (starts_with n (ascii ''segments'') \<and> n \<noteq> ascii ''segments.gen'')"

definition usable_generation :: "i64 option \<Rightarrow> i64 option" where
  "usable_generation parsed =
     (case parsed of None \<Rightarrow> None | Some g \<Rightarrow> if 0 \<le> sint g \<and> sint g < MAX_GENERATION then Some g else None)"

definition parse_generation :: "name \<Rightarrow> i64" where
  "parse_generation file_name =
     (let stem = (case rfind_byte 46 file_name of Some dot \<Rightarrow> take dot file_name | None \<Rightarrow> file_name) in
      case strip_prefix stem (ascii ''_'') of
        None \<Rightarrow> 0
      | Some rest \<Rightarrow>
          (let parts = split_byte 95 rest in
           if length parts = 2 \<or> length parts = 4
           then (case usable_generation (from_base36 (parts ! 1)) of Some g \<Rightarrow> g | None \<Rightarrow> 0)
           else 0))"

definition parse_segment_name :: "name \<Rightarrow> name" where
  "parse_segment_name file_name =
     (case get_from_1 file_name of
        None \<Rightarrow> file_name
      | Some rest \<Rightarrow> (case find_byte (\<lambda>b. b = 95 \<or> b = 46) rest of None \<Rightarrow> file_name | Some i \<Rightarrow> take (i + 1) file_name))"

section \<open>Pushing the counters past the directory\<close>

definition i64_min :: i64 where
  "i64_min = of_int (- (2 ^ 63))"

record gens =
  max_segment_gen :: i64
  max_segment_name :: i64
  max_per_segment_gen :: "(name \<times> i64) list"

definition raise_opt :: "i64 \<Rightarrow> i64 option \<Rightarrow> i64" where
  "raise_opt a g = (case g of None \<Rightarrow> a | Some g \<Rightarrow> max_i64 a g)"

definition to_opt :: "'e + 'a \<Rightarrow> 'a option" where
  "to_opt r = (case r of Inl _ \<Rightarrow> None | Inr a \<Rightarrow> Some a)"

definition inflate_file :: "gens \<Rightarrow> name \<Rightarrow> gens" where
  "inflate_file acc file_name =
     (if is_segments_file_name file_name then
        acc\<lparr>max_segment_gen := raise_opt (max_segment_gen acc)
              (usable_generation (to_opt (generation_from_segments_file_name file_name)))\<rparr>
      else case strip_prefix file_name (ascii ''pending_segments'') of
        Some rest \<Rightarrow>
          acc\<lparr>max_segment_gen := raise_opt (max_segment_gen acc)
                (usable_generation (to_opt (generation_from_segments_file_name (ascii ''segments'' @ rest))))\<rparr>
      | None \<Rightarrow>
          if is_index_file_name file_name then
            if ends_with (to_ascii_lowercase file_name) (ascii ''.tmp'') then acc
            else
              let segment = parse_segment_name file_name;
                  n = usable_generation (case strip_prefix segment (ascii ''_'') of None \<Rightarrow> None | Some r \<Rightarrow> from_base36 r);
                  entry = (case map_of (max_per_segment_gen acc) segment of None \<Rightarrow> 0 | Some g \<Rightarrow> g)
              in acc\<lparr>max_segment_name := raise_opt (max_segment_name acc) n,
                     max_per_segment_gen := AList.update segment (max_i64 entry (parse_generation file_name)) (max_per_segment_gen acc)\<rparr>
          else acc)"

definition inflate_segment :: "(name \<times> i64) list \<Rightarrow> segment_commit_info \<Rightarrow> segment_commit_info" where
  "inflate_segment per_segment sci =
     (let g = (case map_of per_segment (segment_name sci) of None \<Rightarrow> 0 | Some g \<Rightarrow> g);
          next_gen = g + 1;
          sci = (if sint (next_write_del_gen sci) < sint next_gen then set_next_write_del_gen next_gen sci else sci);
          sci = (if sint (next_write_field_infos_gen sci) < sint next_gen then set_next_write_field_infos_gen next_gen sci else sci)
      in if sint (next_write_doc_values_gen sci) < sint next_gen then set_next_write_doc_values_gen next_gen sci else sci)"

definition inflate_gens :: "name list \<Rightarrow> segment_infos \<Rightarrow> segment_infos" where
  "inflate_gens files infos =
     (let acc = foldl inflate_file \<lparr>max_segment_gen = i64_min, max_segment_name = i64_min, max_per_segment_gen = []\<rparr> files
      in infos\<lparr>generation := max_i64 (generation infos) (max_segment_gen acc),
              counter := max_i64 (counter infos) (max_segment_name acc + 1),
              segments := map (inflate_segment (max_per_segment_gen acc)) (segments infos)\<rparr>)"

section \<open>What the scan collects\<close>

definition per_segment :: "gens \<Rightarrow> name \<Rightarrow> i64" where
  "per_segment acc seg = (case map_of (max_per_segment_gen acc) seg of None \<Rightarrow> 0 | Some g \<Rightarrow> g)"

lemma raise_opt_ge: "sint a \<le> sint (raise_opt a g)" "g = Some h \<Longrightarrow> sint h \<le> sint (raise_opt a g)"
  by (auto simp: raise_opt_def split: option.splits)

lemma inflate_file_mono:
  "sint (max_segment_gen acc) \<le> sint (max_segment_gen (inflate_file acc f))"
  "sint (max_segment_name acc) \<le> sint (max_segment_name (inflate_file acc f))"
  "sint (per_segment acc seg) \<le> sint (per_segment (inflate_file acc f) seg)"
  by (auto simp: inflate_file_def per_segment_def Let_def raise_opt_ge update_conv' split: option.splits)

lemma inflate_files_mono:
  "sint (max_segment_gen acc) \<le> sint (max_segment_gen (foldl inflate_file acc fs))"
  "sint (max_segment_name acc) \<le> sint (max_segment_name (foldl inflate_file acc fs))"
  "sint (per_segment acc seg) \<le> sint (per_segment (foldl inflate_file acc fs) seg)"
  by (induction fs arbitrary: acc) (auto intro: order_trans [OF inflate_file_mono(1)] order_trans [OF inflate_file_mono(2)]
      order_trans [OF inflate_file_mono(3)])

text \<open>An ordinary segment file: neither a commit nor a pending commit nor a temporary file.\<close>

definition segment_file :: "name \<Rightarrow> bool" where
  "segment_file f =
     (is_index_file_name f \<and> \<not> is_segments_file_name f \<and> \<not> starts_with f (ascii ''pending_segments'') \<and>
      \<not> ends_with (to_ascii_lowercase f) (ascii ''.tmp''))"

definition segment_number :: "name \<Rightarrow> i64 option" where
  "segment_number f =
     usable_generation (case strip_prefix (parse_segment_name f) (ascii ''_'') of None \<Rightarrow> None | Some r \<Rightarrow> from_base36 r)"

definition commit_number :: "name \<Rightarrow> i64 option" where
  "commit_number f =
     (if is_segments_file_name f then usable_generation (to_opt (generation_from_segments_file_name f))
      else case strip_prefix f (ascii ''pending_segments'') of
             Some rest \<Rightarrow> usable_generation (to_opt (generation_from_segments_file_name (ascii ''segments'' @ rest)))
           | None \<Rightarrow> None)"

lemma inflate_file_takes:
  "commit_number f = Some g \<Longrightarrow> sint g \<le> sint (max_segment_gen (inflate_file acc f))"
  "segment_file f \<Longrightarrow> segment_number f = Some g \<Longrightarrow> sint g \<le> sint (max_segment_name (inflate_file acc f))"
  "segment_file f \<Longrightarrow> sint (parse_generation f) \<le> sint (per_segment (inflate_file acc f) (parse_segment_name f))"
proof -
  have plain: "strip_prefix f (ascii ''pending_segments'') = None" if "segment_file f"
    using that by (simp add: segment_file_def strip_prefix_def)
  show "commit_number f = Some g \<Longrightarrow> sint g \<le> sint (max_segment_gen (inflate_file acc f))"
    by (auto simp: commit_number_def inflate_file_def raise_opt_ge split: if_splits option.splits)
  show "sint g \<le> sint (max_segment_name (inflate_file acc f))" if "segment_file f" "segment_number f = Some g"
    using that plain [OF that(1)] by (auto simp: segment_number_def segment_file_def inflate_file_def Let_def raise_opt_ge)
  show "sint (parse_generation f) \<le> sint (per_segment (inflate_file acc f) (parse_segment_name f))" if "segment_file f"
    using that plain [OF that] by (auto simp: segment_file_def inflate_file_def per_segment_def Let_def update_conv')
qed

lemma inflate_files_take:
  assumes "f \<in> set fs"
  shows "commit_number f = Some g \<Longrightarrow> sint g \<le> sint (max_segment_gen (foldl inflate_file acc fs))"
    and "segment_file f \<Longrightarrow> segment_number f = Some g \<Longrightarrow> sint g \<le> sint (max_segment_name (foldl inflate_file acc fs))"
    and "segment_file f \<Longrightarrow> sint (parse_generation f) \<le> sint (per_segment (foldl inflate_file acc fs) (parse_segment_name f))"
proof -
  obtain ys zs where fs: "fs = ys @ f # zs" using assms by (meson split_list)
  show "commit_number f = Some g \<Longrightarrow> sint g \<le> sint (max_segment_gen (foldl inflate_file acc fs))"
    using inflate_file_takes(1) [of f g "foldl inflate_file acc ys"] inflate_files_mono(1)
    unfolding fs foldl_append foldl_Cons by (meson order_trans)
  show "segment_file f \<Longrightarrow> segment_number f = Some g \<Longrightarrow> sint g \<le> sint (max_segment_name (foldl inflate_file acc fs))"
    using inflate_file_takes(2) [of f g "foldl inflate_file acc ys"] inflate_files_mono(2)
    unfolding fs foldl_append foldl_Cons by (meson order_trans)
  show "segment_file f \<Longrightarrow> sint (parse_generation f) \<le> sint (per_segment (foldl inflate_file acc fs) (parse_segment_name f))"
    using inflate_file_takes(3) [of f "foldl inflate_file acc ys"] inflate_files_mono(3)
    unfolding fs foldl_append foldl_Cons by (meson order_trans)
qed

text \<open>Whatever the names carry, the collected values stay below the cap, so the steps to the next value cannot wrap.\<close>

lemma usable_bounds: "usable_generation x = Some g \<Longrightarrow> 0 \<le> sint g \<and> sint g < MAX_GENERATION"
  by (auto simp: usable_generation_def split: option.splits if_splits)

lemma parse_generation_bounds: "0 \<le> sint (parse_generation f)" "sint (parse_generation f) < MAX_GENERATION"
proof -
  have "0 < MAX_GENERATION" by (simp add: MAX_GENERATION_def)
  then show "0 \<le> sint (parse_generation f)" "sint (parse_generation f) < MAX_GENERATION"
    by (auto simp: parse_generation_def Let_def dest: usable_bounds split: option.splits)
qed

lemma per_segment_inflate:
  "per_segment (inflate_file acc f) seg =
     (if segment_file f \<and> seg = parse_segment_name f then max_i64 (per_segment acc seg) (parse_generation f)
      else per_segment acc seg)"
  by (auto simp: inflate_file_def per_segment_def segment_file_def strip_prefix_def Let_def update_conv' split: option.splits)

lemma inflate_file_bounds:
  assumes "sint (max_segment_gen acc) < MAX_GENERATION" and "sint (max_segment_name acc) < MAX_GENERATION"
    and "\<And>seg. sint (per_segment acc seg) < MAX_GENERATION"
  shows "sint (max_segment_gen (inflate_file acc f)) < MAX_GENERATION" "sint (max_segment_name (inflate_file acc f)) < MAX_GENERATION"
    "sint (per_segment (inflate_file acc f) seg) < MAX_GENERATION"
proof -
  show "sint (max_segment_gen (inflate_file acc f)) < MAX_GENERATION" "sint (max_segment_name (inflate_file acc f)) < MAX_GENERATION"
    using assms(1,2)
    by (auto simp: inflate_file_def raise_opt_def Let_def dest: usable_bounds split: option.splits if_splits)
  show "sint (per_segment (inflate_file acc f) seg) < MAX_GENERATION"
    using assms(3) [of seg] parse_generation_bounds(2) [of f] by (auto simp: per_segment_inflate)
qed

lemma inflate_files_bounds:
  fixes fs
  defines "acc \<equiv> foldl inflate_file \<lparr>max_segment_gen = i64_min, max_segment_name = i64_min, max_per_segment_gen = []\<rparr> fs"
  shows "sint (max_segment_gen acc) < MAX_GENERATION \<and> sint (max_segment_name acc) < MAX_GENERATION \<and>
    (\<forall>seg. 0 \<le> sint (per_segment acc seg) \<and> sint (per_segment acc seg) < MAX_GENERATION)"
proof -
  have "sint (max_segment_gen a) < MAX_GENERATION \<and> sint (max_segment_name a) < MAX_GENERATION \<and> (\<forall>seg. sint (per_segment a seg) < MAX_GENERATION) \<Longrightarrow>
    sint (max_segment_gen (foldl inflate_file a fs)) < MAX_GENERATION \<and> sint (max_segment_name (foldl inflate_file a fs)) < MAX_GENERATION \<and>
    (\<forall>seg. sint (per_segment (foldl inflate_file a fs) seg) < MAX_GENERATION)" for a
    by (induction fs arbitrary: a) (simp_all add: inflate_file_bounds)
  moreover have "sint i64_min = - (2 ^ 63)" by code_simp
  moreover have "per_segment \<lparr>max_segment_gen = i64_min, max_segment_name = i64_min, max_per_segment_gen = []\<rparr> seg = 0" for seg
    by (simp add: per_segment_def)
  ultimately show ?thesis
    unfolding acc_def using inflate_files_mono(3) [of "\<lparr>max_segment_gen = i64_min, max_segment_name = i64_min, max_per_segment_gen = []\<rparr>"]
    by (simp add: MAX_GENERATION_def)
qed

section \<open>Names of a segment's files\<close>

definition alnum :: "u8 \<Rightarrow> bool" where
  "alnum b = (97 \<le> b \<and> b \<le> 122 \<or> 48 \<le> b \<and> b \<le> 57)"

lemma alnum_bytes: "alnum b \<Longrightarrow> b \<noteq> 95 \<and> b \<noteq> 46 \<and> b \<noteq> 10 \<and> b \<noteq> 13 \<and> b \<noteq> 0xC2 \<and> b \<noteq> 0xE2 \<and> \<not> continuation b"
  by (auto simp: alnum_def continuation_def word_le_nat_alt)

lemma alnum_DIGITS: "d < 36 \<Longrightarrow> alnum (DIGITS ! d)"
proof -
  have "list_all (\<lambda>d. alnum (DIGITS ! d)) [0..<36]" by code_simp
  then show "d < 36 \<Longrightarrow> alnum (DIGITS ! d)" by (simp add: list_all_iff)
qed

lemma alnum_digits_of: "b \<in> set (digits_of n) \<Longrightarrow> alnum b"
proof (induction n rule: digits_of.induct)
  case (1 n)
  then show ?case using alnum_DIGITS [of "n mod 36"] by (subst (asm) (2) digits_of.simps) (auto split: if_splits)
qed

lemma to_base36_pos: "0 < sint g \<Longrightarrow> to_base36 g = digits_of (nat (sint g))"
proof -
  assume "0 < sint g"
  then have "g \<noteq> 0" by auto
  with \<open>0 < sint g\<close> show ?thesis by (simp add: to_base36_def rev_base36_digits)
qed

lemma starts_with_Cons [simp]: "starts_with (x # xs) (y # ys) = (x = y \<and> starts_with xs ys)" "starts_with xs []"
  by (auto simp: starts_with_def)

lemma ends_with_last: "ends_with s (p @ [c]) \<Longrightarrow> last s = c"
  unfolding ends_with_def by (metis append_take_drop_id last_appendR last_snoc snoc_eq_iff_butlast)

lemma contains_str_hd: "b \<notin> set s \<Longrightarrow> \<not> contains_str s (b # p)"
proof
  assume b: "b \<notin> set s" and "contains_str s (b # p)"
  then obtain i where "starts_with (drop i s) (b # p)" unfolding contains_str_def list_ex_iff by blast
  then obtain t where "drop i s = b # t" by (cases "drop i s") (auto simp: starts_with_def)
  then show False using b by (metis in_set_dropD list.set_intros(1))
qed

lemma find_byte_append: "(\<And>b. b \<in> set xs \<Longrightarrow> \<not> p b) \<Longrightarrow> p c \<Longrightarrow> find_byte p (xs @ c # ys) = Some (length xs)"
  by (induction xs) auto

lemma rfind_byte_append:
  assumes "b \<notin> set ys"
  shows "rfind_byte b (xs @ b # ys) = Some (length xs)"
proof -
  have "find_byte ((=) b) (rev ys @ b # rev xs) = Some (length (rev ys))" by (rule find_byte_append) (use assms in auto)
  then show ?thesis by (simp add: rfind_byte_def)
qed

lemma split_byte_append: "sep \<notin> set xs \<Longrightarrow> split_byte sep (xs @ sep # ys) = xs # split_byte sep ys"
  by (induction xs) auto

lemma split_byte_none: "sep \<notin> set xs \<Longrightarrow> split_byte sep xs = [xs]"
  by (induction xs) auto

text \<open>A name of the shape \<open>_segment_generation.ext\<close> is recognised and taken apart as it was put together.\<close>

lemma generational_name:
  assumes base: "base \<noteq> []" "\<And>b. b \<in> set base \<Longrightarrow> alnum b" and gen: "0 < sint g" "sint g < MAX_GENERATION"
  defines "f \<equiv> 95 # base @ 95 # to_base36 g @ ascii ''.liv''"
  shows "segment_file f" "parse_segment_name f = 95 # base" "parse_generation f = g"
proof -
  have dig: "\<And>b. b \<in> set (to_base36 g) \<Longrightarrow> alnum b" using alnum_digits_of gen(1) by (simp add: to_base36_pos)
  have liv: "ascii ''.liv'' = [46, 108, 105, 118]" by (simp add: ascii_def)
  have bytes: "b = 95 \<or> b = 46 \<or> alnum b" if "b \<in> set f" for b
    using that base(2) dig by (auto simp: f_def liv alnum_def)
  have nonl: "\<not> list_ex (contains_str f) [[0x0A], [0x0D], [0xC2, 0x85], [0xE2, 0x80, 0xA8], [0xE2, 0x80, 0xA9]]"
  proof -
    have "b \<notin> set f" if "b \<in> {0x0A, 0x0D, 0xC2, 0xE2}" for b using that bytes [of b] alnum_bytes [of b] by auto
    then show ?thesis by (simp add: contains_str_hd)
  qed
  have last: "last f = 118" "last (to_ascii_lowercase f) = 118"
    by (simp_all add: f_def liv to_ascii_lowercase_def)
  have noend: "\<not> ends_with f (ascii ''write.lock'')" "\<not> ends_with (to_ascii_lowercase f) (ascii ''.tmp'')"
    using last ends_with_last [of f "ascii ''write.loc''" 107] ends_with_last [of "to_ascii_lowercase f" "ascii ''.tm''" 112]
    by (auto simp: ascii_def)
  have nopre: "\<not> starts_with f (ascii ''segments'')" "\<not> starts_with f (ascii ''pending_segments'')"
    by (simp_all add: f_def ascii_def)
  have rest: "strip_prefix f (ascii ''_'') = Some (base @ 95 # to_base36 g @ ascii ''.liv'')"
    by (simp add: f_def strip_prefix_def ascii_def)
  have "takeWhile alnum (base @ 95 # to_base36 g @ ascii ''.liv'') = base"
    using base(2) by (simp add: takeWhile_append2 alnum_def)
  then have "is_index_file_name f"
    unfolding is_index_file_name_def using noend(1) nopre nonl rest base(1)
    by (simp add: alnum_def [abs_def] Let_def liv)
  then show "segment_file f" using nopre noend(2) by (simp add: segment_file_def is_segments_file_name_def)
  have "get_from_1 f = Some (base @ 95 # to_base36 g @ ascii ''.liv'')"
    using base alnum_bytes by (cases base) (auto simp: get_from_1_def f_def)
  moreover have "find_byte (\<lambda>b. b = 95 \<or> b = 46) (base @ 95 # to_base36 g @ ascii ''.liv'') = Some (length base)"
    using base(2) alnum_bytes by (intro find_byte_append) auto
  ultimately show "parse_segment_name f = 95 # base" by (simp add: parse_segment_name_def f_def)
  have "f = (95 # base @ 95 # to_base36 g) @ 46 # [108, 105, 118]" by (simp add: f_def liv)
  then have "rfind_byte 46 f = Some (length (95 # base @ 95 # to_base36 g))" by (simp only:) (rule rfind_byte_append, simp)
  then have stem: "(case rfind_byte 46 f of Some dot \<Rightarrow> take dot f | None \<Rightarrow> f) = 95 # base @ 95 # to_base36 g"
    by (simp add: f_def)
  have "split_byte 95 (base @ 95 # to_base36 g) = [base, to_base36 g]"
    using base(2) dig alnum_bytes split_byte_none [of 95 "to_base36 g"] by (subst split_byte_append) blast+
  then show "parse_generation f = g"
    unfolding parse_generation_def stem using gen
    by (simp add: strip_prefix_def ascii_def from_to_base36 usable_generation_def Let_def)
qed

section \<open>Properties\<close>

lemma inflate_segment_next:
  assumes "sint (case map_of m (segment_name sci) of None \<Rightarrow> 0 | Some g \<Rightarrow> g) < MAX_GENERATION"
  defines "g \<equiv> sint (case map_of m (segment_name sci) of None \<Rightarrow> 0 | Some g \<Rightarrow> g)"
  shows "segment_name (inflate_segment m sci) = segment_name sci"
    "0 \<le> g \<Longrightarrow> sint (next_write_del_gen (inflate_segment m sci)) = max (sint (next_write_del_gen sci)) (g + 1)"
    "0 \<le> g \<Longrightarrow> sint (next_write_field_infos_gen (inflate_segment m sci)) = max (sint (next_write_field_infos_gen sci)) (g + 1)"
    "0 \<le> g \<Longrightarrow> sint (next_write_doc_values_gen (inflate_segment m sci)) = max (sint (next_write_doc_values_gen sci)) (g + 1)"
proof -
  define w where "w = (case map_of m (segment_name sci) of None \<Rightarrow> 0 | Some g \<Rightarrow> g)"
  have "sint w < 2 ^ 63 - 1" using assms(1) by (simp add: w_def MAX_GENERATION_def)
  then have next_gen: "sint (w + 1) = g + 1" by (simp add: sint_Suc g_def w_def)
  have nz: "0 \<le> g \<Longrightarrow> w + 1 \<noteq> 0" using next_gen by fastforce
  show "segment_name (inflate_segment m sci) = segment_name sci"
    by (simp add: inflate_segment_def Let_def set_next_write_del_gen_def set_next_write_field_infos_gen_def set_next_write_doc_values_gen_def)
  show "0 \<le> g \<Longrightarrow> sint (next_write_del_gen (inflate_segment m sci)) = max (sint (next_write_del_gen sci)) (g + 1)"
    "0 \<le> g \<Longrightarrow> sint (next_write_field_infos_gen (inflate_segment m sci)) = max (sint (next_write_field_infos_gen sci)) (g + 1)"
    "0 \<le> g \<Longrightarrow> sint (next_write_doc_values_gen (inflate_segment m sci)) = max (sint (next_write_doc_values_gen sci)) (g + 1)"
    using nz next_gen
    by (auto simp: inflate_segment_def w_def [symmetric] Let_def set_next_write_del_gen_def set_next_write_field_infos_gen_def
        set_next_write_doc_values_gen_def next_write_del_gen_def next_write_field_infos_gen_def next_write_doc_values_gen_def derive_next_gen_def)
qed

lemma inflate_gens_counters:
  fixes files infos
  defines "infos' \<equiv> inflate_gens files infos"
  assumes "f \<in> set files"
  shows "commit_number f = Some g \<Longrightarrow> sint g \<le> sint (generation infos')"
    and "segment_file f \<Longrightarrow> segment_number f = Some g \<Longrightarrow> sint g < sint (counter infos')"
    and "segment_file f \<Longrightarrow> i < length (segments infos) \<Longrightarrow> parse_segment_name f = segment_name (segments infos ! i) \<Longrightarrow>
      sint (parse_generation f) < sint (next_write_del_gen (segments infos' ! i)) \<and>
      sint (parse_generation f) < sint (next_write_field_infos_gen (segments infos' ! i)) \<and>
      sint (parse_generation f) < sint (next_write_doc_values_gen (segments infos' ! i))"
proof -
  define acc where "acc = foldl inflate_file \<lparr>max_segment_gen = i64_min, max_segment_name = i64_min, max_per_segment_gen = []\<rparr> files"
  have bounds: "sint (max_segment_name acc) < MAX_GENERATION" "0 \<le> sint (per_segment acc seg)" "sint (per_segment acc seg) < MAX_GENERATION" for seg
    using inflate_files_bounds [of files] by (auto simp: acc_def)
  have infos': "generation infos' = max_i64 (generation infos) (max_segment_gen acc)"
    "counter infos' = max_i64 (counter infos) (max_segment_name acc + 1)"
    "segments infos' = map (inflate_segment (max_per_segment_gen acc)) (segments infos)"
    by (simp_all add: infos'_def inflate_gens_def acc_def Let_def)
  have step: "sint (max_segment_name acc + 1) = sint (max_segment_name acc) + 1"
    using bounds(1) by (intro sint_Suc) (simp add: MAX_GENERATION_def)
  show "commit_number f = Some g \<Longrightarrow> sint g \<le> sint (generation infos')"
    using inflate_files_take(1) [OF assms(2)] by (simp add: infos' acc_def max.coboundedI2)
  show "segment_file f \<Longrightarrow> segment_number f = Some g \<Longrightarrow> sint g < sint (counter infos')"
    using inflate_files_take(2) [OF assms(2), of g "\<lparr>max_segment_gen = i64_min, max_segment_name = i64_min, max_per_segment_gen = []\<rparr>"]
      step unfolding infos' acc_def [symmetric] by simp
  show "sint (parse_generation f) < sint (next_write_del_gen (segments infos' ! i)) \<and>
      sint (parse_generation f) < sint (next_write_field_infos_gen (segments infos' ! i)) \<and>
      sint (parse_generation f) < sint (next_write_doc_values_gen (segments infos' ! i))"
    if "segment_file f" "i < length (segments infos)" "parse_segment_name f = segment_name (segments infos ! i)"
  proof -
    define y where "y = per_segment acc (segment_name (segments infos ! i))"
    have y: "sint (parse_generation f) \<le> sint y" "0 \<le> sint y" "sint y < MAX_GENERATION"
      using inflate_files_take(3) [OF assms(2) that(1), of "\<lparr>max_segment_gen = i64_min, max_segment_name = i64_min, max_per_segment_gen = []\<rparr>"]
        bounds(2,3) that(3) unfolding y_def acc_def [symmetric] by simp_all
    have "segments infos' ! i = inflate_segment (max_per_segment_gen acc) (segments infos ! i)" using that(2) by (simp add: infos')
    then show ?thesis
      using inflate_segment_next(2-4) [of "max_per_segment_gen acc" "segments infos ! i", folded per_segment_def, folded y_def] y
      by (simp add: less_max_iff_disj)
  qed
qed


text \<open>Every collected value is the start value or a number that some name carries.\<close>

abbreviation no_gens :: gens where
  "no_gens \<equiv> \<lparr>max_segment_gen = i64_min, max_segment_name = i64_min, max_per_segment_gen = []\<rparr>"

lemma inflate_file_eq:
  "max_segment_gen (inflate_file acc f) = raise_opt (max_segment_gen acc) (commit_number f)"
  "max_segment_name (inflate_file acc f) = raise_opt (max_segment_name acc) (if segment_file f then segment_number f else None)"
  by (auto simp: inflate_file_def commit_number_def segment_number_def segment_file_def strip_prefix_def raise_opt_def Let_def split: option.splits)

lemma raise_opt_cases: "raise_opt a g = a \<or> g = Some (raise_opt a g)"
  by (cases g) (auto simp: raise_opt_def max_i64_def)

lemma inflate_files_attained:
  "max_segment_gen (foldl inflate_file no_gens fs) = i64_min \<or>
    (\<exists>f \<in> set fs. commit_number f = Some (max_segment_gen (foldl inflate_file no_gens fs)))"
  "max_segment_name (foldl inflate_file no_gens fs) = i64_min \<or>
    (\<exists>f \<in> set fs. segment_file f \<and> segment_number f = Some (max_segment_name (foldl inflate_file no_gens fs)))"
  "per_segment (foldl inflate_file no_gens fs) seg = 0 \<or>
    (\<exists>f \<in> set fs. segment_file f \<and> parse_segment_name f = seg \<and> parse_generation f = per_segment (foldl inflate_file no_gens fs) seg)"
proof (induction fs rule: rev_induct)
  case (snoc f fs)
  let ?a = "foldl inflate_file no_gens fs"
  { case 1
    show ?case using snoc(1) raise_opt_cases [of "max_segment_gen ?a" "commit_number f"] by (auto simp: inflate_file_eq(1)) }
  { case 2
    show ?case
      using snoc(2) raise_opt_cases [of "max_segment_name ?a" "if segment_file f then segment_number f else None"]
      by (auto simp: inflate_file_eq(2) split: if_splits) }
  { case 3
    show ?case using snoc(3) by (auto simp: per_segment_inflate max_i64_def) }
qed (simp_all add: per_segment_def)

lemma Max_attained: "finite A \<Longrightarrow> (\<And>x. x \<in> A \<Longrightarrow> x \<le> m) \<Longrightarrow> m = a \<or> m \<in> A \<Longrightarrow> (a :: int) \<le> m \<Longrightarrow> m = Max (insert a A)"
  by (rule Max_eqI [symmetric]) auto

text \<open>The numbers the names of a listing carry: commits, segments, and the generations of one segment's files.\<close>

definition commit_numbers :: "name list \<Rightarrow> int set" where
  "commit_numbers files = {sint g |f g. f \<in> set files \<and> commit_number f = Some g}"

definition segment_numbers :: "name list \<Rightarrow> int set" where
  "segment_numbers files = {sint g |f g. f \<in> set files \<and> segment_file f \<and> segment_number f = Some g}"

definition file_generations :: "name list \<Rightarrow> name \<Rightarrow> int set" where
  "file_generations files segment =
     (\<lambda>f. sint (parse_generation f)) ` {f \<in> set files. segment_file f \<and> parse_segment_name f = segment}"

lemma finite_numbers: "finite (commit_numbers files)" "finite (segment_numbers files)" "finite (file_generations files segment)"
proof -
  have "commit_numbers files \<subseteq> (\<lambda>f. sint (the (commit_number f))) ` set files"
    "segment_numbers files \<subseteq> (\<lambda>f. sint (the (segment_number f))) ` set files"
    by (force simp: commit_numbers_def segment_numbers_def)+
  then show "finite (commit_numbers files)" "finite (segment_numbers files)" by (auto dest: finite_subset)
qed (simp add: file_generations_def)

lemma commit_numbers_simps [simp]:
  "commit_numbers [] = {}"
  "commit_numbers (f # files) = (case commit_number f of None \<Rightarrow> {} | Some g \<Rightarrow> {sint g}) \<union> commit_numbers files"
  by (auto simp: commit_numbers_def split: option.splits)

lemma collected_gen_eq:
  fixes a :: i64
  shows "max (sint a) (sint (max_segment_gen (foldl inflate_file no_gens files))) = Max (insert (sint a) (commit_numbers files))"
proof (rule Max_attained)
  let ?m = "max_segment_gen (foldl inflate_file no_gens files)"
  show "x \<le> max (sint a) (sint ?m)" if "x \<in> commit_numbers files" for x
    using that inflate_files_take(1) [of _ files _ no_gens] by (force simp: commit_numbers_def)
  have "sint i64_min \<le> sint a" using sint_greater_eq [of a] by (simp add: i64_min_def)
  then show "max (sint a) (sint ?m) = sint a \<or> max (sint a) (sint ?m) \<in> commit_numbers files"
    using inflate_files_attained(1) [of files] by (auto simp: commit_numbers_def max_def)
qed (simp_all add: finite_numbers)

lemma collected_name_eq:
  "max (sint a) (sint (max_segment_name (foldl inflate_file no_gens files)) + 1) =
    Max (insert (max (sint a) (- (2 ^ 63) + 1)) ((\<lambda>n. n + 1) ` segment_numbers files))"
proof (rule Max_attained)
  let ?m = "max_segment_name (foldl inflate_file no_gens files)"
  show "x \<le> max (sint a) (sint ?m + 1)" if "x \<in> (\<lambda>n. n + 1) ` segment_numbers files" for x
    using that inflate_files_take(2) [of _ files _ no_gens] by (force simp: segment_numbers_def)
  have low: "sint i64_min = - (2 ^ 63)" by code_simp
  then show "max (sint a) (sint ?m + 1) = max (sint a) (- (2 ^ 63) + 1) \<or> max (sint a) (sint ?m + 1) \<in> (\<lambda>n. n + 1) ` segment_numbers files"
    using inflate_files_attained(2) [of files] sint_greater_eq [of ?m] by (auto simp: segment_numbers_def max_def)
  show "max (sint a) (- (2 ^ 63) + 1) \<le> max (sint a) (sint ?m + 1)" using sint_greater_eq [of ?m] by auto
qed (simp add: finite_numbers)

lemma collected_segment_eq:
  "max a (sint (per_segment (foldl inflate_file no_gens files) seg) + 1) = Max (insert a (insert 1 ((\<lambda>n. n + 1) ` file_generations files seg)))"
proof (rule Max_attained)
  let ?m = "per_segment (foldl inflate_file no_gens files) seg"
  have "0 \<le> sint ?m" using inflate_files_bounds [of files] by simp
  then show "x \<le> max a (sint ?m + 1)" if "x \<in> insert 1 ((\<lambda>n. n + 1) ` file_generations files seg)" for x
    using that inflate_files_take(3) [of _ files no_gens] by (force simp: file_generations_def)
  have "sint ?m = 0 \<or> sint ?m \<in> file_generations files seg"
    using inflate_files_attained(3) [of files seg] unfolding file_generations_def by force
  then show "max a (sint ?m + 1) = a \<or> max a (sint ?m + 1) \<in> insert 1 ((\<lambda>n. n + 1) ` file_generations files seg)"
    by (auto simp: max_def)
qed (simp_all add: finite_numbers)

lemma inflate_segment_keeps:
  "segment_name (inflate_segment m sci) = segment_name sci" "del_gen (inflate_segment m sci) = del_gen sci"
  "field_infos_gen (inflate_segment m sci) = field_infos_gen sci" "doc_values_gen (inflate_segment m sci) = doc_values_gen sci"
  by (simp_all add: inflate_segment_def Let_def set_next_write_del_gen_def set_next_write_field_infos_gen_def set_next_write_doc_values_gen_def)

text \<open>
  C29: \<open>inflate_gens\<close> raises every counter of a commit just as far as the listing requires, and lowers none. The commit generation becomes the
  largest of itself and the generations of the commits and pending commits listed (so the next commit, one further, is new); the segment
  counter becomes the largest of itself and one past every segment number (a counter that is the least 64-bit number counts as the number after it);
  and each of the three next generations of a segment becomes the largest of itself, one, and one past every generation in the names of that segment's
  files. Names that carry no usable number (unparsable, negative, or at or beyond the cap) do not count. Nothing else of the segments
  that the commit serialises changes, and a generation or counter within the cap stays within it.
\<close>
theorem inflate_gens_passes_directory:
  assumes "infos' = inflate_gens files infos"
  shows "sint (generation infos') = Max (insert (sint (generation infos)) (commit_numbers files)) \<and>
    sint (counter infos') = Max (insert (max (sint (counter infos)) (- (2 ^ 63) + 1)) ((\<lambda>n. n + 1) ` segment_numbers files)) \<and>
    length (segments infos') = length (segments infos) \<and>
    (\<forall>i < length (segments infos).
      let sci = segments infos ! i; sci' = segments infos' ! i;
          seen = insert 1 ((\<lambda>n. n + 1) ` file_generations files (segment_name sci)) in
      sint (next_write_del_gen sci') = Max (insert (sint (next_write_del_gen sci)) seen) \<and>
      sint (next_write_field_infos_gen sci') = Max (insert (sint (next_write_field_infos_gen sci)) seen) \<and>
      sint (next_write_doc_values_gen sci') = Max (insert (sint (next_write_doc_values_gen sci)) seen) \<and>
      segment_name sci' = segment_name sci \<and> del_gen sci' = del_gen sci \<and>
      field_infos_gen sci' = field_infos_gen sci \<and> doc_values_gen sci' = doc_values_gen sci) \<and>
    (sint (generation infos) \<le> MAX_GENERATION \<longrightarrow> sint (generation infos') \<le> MAX_GENERATION) \<and>
    (sint (counter infos) \<le> MAX_GENERATION \<longrightarrow> sint (counter infos') \<le> MAX_GENERATION)"
proof -
  define acc where "acc = foldl inflate_file no_gens files"
  have b: "sint (max_segment_gen acc) < MAX_GENERATION" "sint (max_segment_name acc) < MAX_GENERATION"
    "0 \<le> sint (per_segment acc seg)" "sint (per_segment acc seg) < MAX_GENERATION" for seg
    using inflate_files_bounds [of files] by (auto simp: acc_def)
  have c: "sint (max_segment_name acc + 1) = sint (max_segment_name acc) + 1"
    using b(2) by (intro sint_Suc) (simp add: MAX_GENERATION_def)
  have infos': "generation infos' = max_i64 (generation infos) (max_segment_gen acc)"
    "counter infos' = max_i64 (counter infos) (max_segment_name acc + 1)"
    "segments infos' = map (inflate_segment (max_per_segment_gen acc)) (segments infos)"
    by (simp_all add: assms inflate_gens_def acc_def Let_def)
  have "sint (generation infos') = Max (insert (sint (generation infos)) (commit_numbers files))"
    using collected_gen_eq [of "generation infos" files] by (simp add: infos' acc_def)
  moreover have "sint (counter infos') = Max (insert (max (sint (counter infos)) (- (2 ^ 63) + 1)) ((\<lambda>n. n + 1) ` segment_numbers files))"
    using collected_name_eq [of "counter infos" files] c by (simp add: infos' acc_def)
  moreover have "segments infos' ! i = inflate_segment (max_per_segment_gen acc) (segments infos ! i)" if "i < length (segments infos)" for i
    using that by (simp add: infos')
  moreover have "sint (generation infos) \<le> MAX_GENERATION \<longrightarrow> sint (generation infos') \<le> MAX_GENERATION"
    "sint (counter infos) \<le> MAX_GENERATION \<longrightarrow> sint (counter infos') \<le> MAX_GENERATION"
    using b(1,2) c by (simp_all add: infos')
  moreover have "length (segments infos') = length (segments infos)" by (simp add: infos')
  ultimately show ?thesis
    using inflate_segment_next(2-4) [of "max_per_segment_gen acc", folded per_segment_def]
      collected_segment_eq [of _ files, folded acc_def] b(3,4) by (simp add: Let_def inflate_segment_keeps)
qed

theorem inflate_gens_passes_directory_witness:
  "let infos' = inflate_gens [ascii ''segments_2'', ascii ''pending_segments_5'', ascii ''_0_7.liv''] sample_commit in
    sint (generation infos') = 5 \<and> sint (next_write_del_gen (segments infos' ! 0)) = 8"
proof -
  let ?files = "[ascii ''segments_2'', ascii ''pending_segments_5'', ascii ''_0_7.liv'']"
  have "commit_number (ascii ''segments_2'') = Some 2" "commit_number (ascii ''pending_segments_5'') = Some 5"
    "commit_number (ascii ''_0_7.liv'') = None" by code_simp+
  then have commits: "commit_numbers ?files = {2, 5}" by auto
  have "\<not> segment_file (ascii ''segments_2'')" "\<not> segment_file (ascii ''pending_segments_5'')" "segment_file (ascii ''_0_7.liv'')"
    "parse_segment_name (ascii ''_0_7.liv'') = ascii ''_0''" "parse_generation (ascii ''_0_7.liv'') = 7" by code_simp+
  moreover from this have "{f \<in> set ?files. segment_file f \<and> parse_segment_name f = ascii ''_0''} = {ascii ''_0_7.liv''}" by auto
  ultimately have gens: "file_generations ?files (ascii ''_0'') = {7}" by (simp add: file_generations_def)
  have "generation sample_commit = 3" "0 < length (segments sample_commit)" "segment_name (segments sample_commit ! 0) = ascii ''_0''"
    "sint (next_write_del_gen (segments sample_commit ! 0)) = 2" by code_simp+
  then show ?thesis
    using inflate_gens_passes_directory [OF refl, of ?files sample_commit] commits gens by (simp add: Let_def)
qed

text \<open>
  C30: Generation numbers and file names fit together: after \<open>inflate_gens\<close> over a listing of the directory, the live-docs
  file that the next deletion of a segment writes is not in the listing. (A segment is named by an underscore and a
  base-36 number.)
\<close>
theorem next_live_docs_file_is_new:
  assumes "infos' = inflate_gens files infos" and "i < length (segments infos)"
    and "segment_name (segments infos ! i) = 95 # base" and "base \<noteq> []" and "list_all alnum base"
    and "sint (next_write_del_gen (segments infos' ! i)) < MAX_GENERATION"
  shows "liv_file_name (segment_name (segments infos' ! i)) (next_write_del_gen (segments infos' ! i)) \<notin> set files"
proof
  define g where "g = next_write_del_gen (segments infos' ! i)"
  define acc where "acc = foldl inflate_file \<lparr>max_segment_gen = i64_min, max_segment_name = i64_min, max_per_segment_gen = []\<rparr> files"
  have b: "0 \<le> sint (per_segment acc seg)" "sint (per_segment acc seg) < MAX_GENERATION" for seg
    using inflate_files_bounds [of files] by (auto simp: acc_def)
  have sci: "segments infos' ! i = inflate_segment (max_per_segment_gen acc) (segments infos ! i)"
    using assms(1,2) by (simp add: inflate_gens_def acc_def Let_def)
  then have seg: "segment_name (segments infos' ! i) = 95 # base" "0 < sint g"
    using inflate_segment_next(1,2) [of "max_per_segment_gen acc" "segments infos ! i", folded per_segment_def] b assms(3)
    by (simp_all add: g_def less_max_iff_disj)
  moreover have "g \<noteq> 0" using seg(2) by auto
  ultimately have name: "liv_file_name (segment_name (segments infos' ! i)) g = 95 # base @ 95 # to_base36 g @ ascii ''.liv''"
    by (simp add: liv_file_name_def ascii_def)
  assume "liv_file_name (segment_name (segments infos' ! i)) (next_write_del_gen (segments infos' ! i)) \<in> set files"
  then have f: "95 # base @ 95 # to_base36 g @ ascii ''.liv'' \<in> set files" using name by (simp add: g_def)
  have "\<And>b. b \<in> set base \<Longrightarrow> alnum b" using assms(5) by (simp add: list_all_iff)
  note gn = generational_name [OF assms(4) this seg(2), folded ascii_def]
  show False
    using inflate_gens_counters(3) [OF f, of i infos] gn assms by (simp add: g_def)
qed

theorem next_live_docs_file_is_new_witness:
  "liv_file_name (ascii ''_0'') (next_write_del_gen (segments (inflate_gens [ascii ''_0_5.liv'', ascii ''_0.si''] sample_commit) ! 0))
    \<notin> set [ascii ''_0_5.liv'', ascii ''_0.si'']"
proof -
  let ?infos' = "inflate_gens [ascii ''_0_5.liv'', ascii ''_0.si''] sample_commit"
  have "segment_name (segments sample_commit ! 0) = 95 # [48]" "segment_name (segments ?infos' ! 0) = ascii ''_0''"
    "sint (next_write_del_gen (segments ?infos' ! 0)) < MAX_GENERATION" "list_all alnum [48]" "0 < length (segments sample_commit)"
    by code_simp+
  then show ?thesis
    using next_live_docs_file_is_new [OF refl, of 0 sample_commit "[48]" "[ascii ''_0_5.liv'', ascii ''_0.si'']"] by simp
qed

end
