(* ===== verification/Compound_Reader.thy ===== *)
theory Compound_Reader
  imports Compound_Format Index_File_Names
begin

text \<open>
  \<open>lucene-index/src/compound_reader.rs\<close>: a compound segment seen as a read-only directory. A member is a window onto
  the \<open>.cfs\<close>; the three archive files and the files of later generations are read from the directory underneath; every
  other name is not found, and every write is refused. The locale \<open>compound_over\<close> is a reader over any directory
  that keeps the directory laws, and shows that the result keeps them too.

  The message of an error inside the archive is reduced to the segment or member it names. The lock of the
  directory is not modelled, as in \<open>Store_Directory\<close>.
\<close>

section \<open>The reader\<close>

record compound_reader =
  cr_segment_name :: name
  cr_data :: "u8 list"
  cr_entries :: compound_entries

definition corrupt :: "name \<Rightarrow> cf_error + 'a \<Rightarrow> error + 'a" where
  "corrupt segment r = map_sum (\<lambda>_. Corrupted (CompoundSegment segment)) id r"

definition cr_open ::
    "('h, 'y) crc32fast_scheme \<Rightarrow> nat \<Rightarrow> ('d, 'o, 'z) directory_scheme \<Rightarrow> name \<Rightarrow> u8 list \<Rightarrow> ('d, compound_reader) stateful" where
  "cr_open K threads base segment segid =
     bnd (dir_open base (segment @ ascii ''.cfe'')) (\<lambda>cfe.
     bnd (lift_res (corrupt segment (parse_entries K threads cfe segid))) (\<lambda>entries.
     bnd (dir_open base (segment @ ascii ''.cfs'')) (\<lambda>data.
     bnd (lift_res (corrupt segment (check_data_header_footer data segid entries))) (\<lambda>_.
       ret \<lparr>cr_segment_name = segment, cr_data = data, cr_entries = entries\<rparr>))))"

definition member_files :: "compound_reader \<Rightarrow> name list" where
  "member_files cr = map (\<lambda>i. cr_segment_name cr @ i) (ce_names (cr_entries cr))"

definition check_integrity :: "('h, 'y) crc32fast_scheme \<Rightarrow> nat \<Rightarrow> compound_reader \<Rightarrow> error + unit" where
  "check_integrity K threads cr =
     map_sum id (\<lambda>_. ()) (check_whole_file_footer K threads (cr_data cr) (length (cr_data cr) - FOOTER_LENGTH))"

definition member_id :: "compound_reader \<Rightarrow> name \<Rightarrow> name option" where
  "member_id cr n =
     (case strip_prefix n (cr_segment_name cr) of
        None \<Rightarrow> None
      | Some i \<Rightarrow> map_option (\<lambda>_. i) (ce_get (cr_entries cr) i))"

definition cr_parse_generation :: "name \<Rightarrow> i64" where
  "cr_parse_generation n =
     (let stem = takeWhile (\<lambda>b. b \<noteq> 46) n in
      case strip_prefix stem (ascii ''_'') of
        None \<Rightarrow> 0
      | Some rest \<Rightarrow>
          (let parts = split_byte 95 rest in
           if length parts = 2 \<or> length parts = 4
           then (case from_str_radix (parts ! 1) of Some g \<Rightarrow> g | None \<Rightarrow> 0)
           else 0))"

definition lives_beside_archive :: "name \<Rightarrow> bool" where
  "lives_beside_archive n =
     (0 < sint (cr_parse_generation n) \<or> list_ex (ends_with n) [ascii ''.si'', ascii ''.cfs'', ascii ''.cfe''])"

definition read_only :: "string \<Rightarrow> error" where
  "read_only what = Io Unsupported (ascii what @ ascii '' on a compound-file directory, which is read-only'')"

text \<open>\<open>Input::slice_of\<close>: a window onto an open file.\<close>

definition slice_of :: "u8 list \<Rightarrow> nat \<Rightarrow> nat \<Rightarrow> error + u8 list" where
  "slice_of base start len =
     (case checked_add start len of
        Some end \<Rightarrow>
          if end \<le> length base then Inr (take len (drop start base))
          else Inl (Corrupted (SliceOutOfBounds start len (length base)))
      | None \<Rightarrow> Inl (Corrupted (SliceOutOfBounds start len (length base))))"

text \<open>\<open>expect("open_input found it")\<close>: the last case of the table lookup is the panic that cannot happen.\<close>

definition open_member :: "compound_reader \<Rightarrow> name \<Rightarrow> name \<Rightarrow> error + u8 list" where
  "open_member cr n i =
     (case open_input (cr_data cr) (cr_entries cr) i of
        Inl _ \<Rightarrow> Inl (Corrupted (CompoundMember n))
      | Inr member \<Rightarrow>
          (case ce_get (cr_entries cr) i of
             Some e \<Rightarrow> slice_of (cr_data cr) (unat (fe_offset e)) (length (sbuf member))
           | None \<Rightarrow> Inl (Corrupted (CompoundMember n))))"

definition cr_dir_open :: "('d, 'o, 'z) directory_scheme \<Rightarrow> compound_reader \<Rightarrow> name \<Rightarrow> ('d, u8 list) stateful" where
  "cr_dir_open base cr n =
     (case member_id cr n of
        Some i \<Rightarrow> lift_res (open_member cr n i)
      | None \<Rightarrow>
          if lives_beside_archive n then dir_open base n
          else fail (Io NotFound (n @ ascii '' is not in compound segment '' @ cr_segment_name cr)))"

definition cr_list_all :: "('d, 'o, 'z) directory_scheme \<Rightarrow> compound_reader \<Rightarrow> ('d, name list) stateful" where
  "cr_list_all base cr = bnd (dir_list_all base) (\<lambda>names. ret (remdups_adj (sort (names @ member_files cr))))"

definition compound_directory :: "('d, 'o, 'z) directory_scheme \<Rightarrow> compound_reader \<Rightarrow> ('d, 'o) directory" where
  "compound_directory base cr =
     \<lparr>dir_list_all = cr_list_all base cr, dir_open = cr_dir_open base cr,
      create_output = (\<lambda>_. fail (read_only ''createOutput'')), close_output = close_output base,
      sync = (\<lambda>_. fail (read_only ''sync'')), rename = (\<lambda>_ _. fail (read_only ''rename'')),
      delete_file = (\<lambda>_. fail (read_only ''deleteFile'')), sync_meta_data = fail (read_only ''syncMetaData'')\<rparr>"

section \<open>A reader is a directory\<close>

text \<open>What the reader shows: its members, and whatever the directory underneath shows.\<close>

definition compound_view :: "('d \<Rightarrow> name \<Rightarrow> 'f option) \<Rightarrow> compound_reader \<Rightarrow> 'd \<Rightarrow> name \<Rightarrow> (name + 'f) option" where
  "compound_view view cr d n = (if n \<in> set (member_files cr) then Some (Inl n) else map_option Inr (view d n))"

locale compound_over = directory_laws base view good
  for base :: "('d, 'o) directory" and view :: "'d \<Rightarrow> name \<Rightarrow> 'f option" and good :: "'d \<Rightarrow> bool" +
  fixes cr :: compound_reader
begin

lemma view_cong: "view d' = view d \<Longrightarrow> compound_view view cr d' = compound_view view cr d"
  by (simp add: fun_eq_iff compound_view_def)

end

lemma distinct_remdups_adj_sorted: "sorted xs \<Longrightarrow> distinct (remdups_adj xs)"
  by (induction xs rule: remdups_adj.induct) fastforce+

sublocale compound_over \<subseteq> compound: directory_laws "compound_directory base cr" "compound_view view cr" good
proof
  fix d r d' assume g: "good d" and l: "dir_list_all (compound_directory base cr) d = (r, d')"
  obtain rb d1 where b: "dir_list_all base d = (rb, d1)" by (metis surj_pair)
  note law = list_law [OF g b]
  have "cr_list_all base cr d = (map_sum id (\<lambda>names. remdups_adj (sort (names @ member_files cr))) rb, d1)"
    using b by (cases rb) (simp_all add: cr_list_all_def)
  then have r: "d' = d1" "r = map_sum id (\<lambda>names. remdups_adj (sort (names @ member_files cr))) rb"
    using l by (simp_all add: compound_directory_def)
  have "distinct ns \<and> set ns = {n. compound_view view cr d n \<noteq> None}" if rn: "r = Inr ns" for ns
  proof -
    obtain names where names: "rb = Inr names" "ns = remdups_adj (sort (names @ member_files cr))"
      using rn r(2) by (cases rb) auto
    moreover have "distinct ns" unfolding names(2) by (rule distinct_remdups_adj_sorted) (rule sorted_sort)
    moreover have "set ns = set names \<union> set (member_files cr)" unfolding names(2) by simp
    ultimately show ?thesis using law by (auto simp: compound_view_def)
  qed
  then show "good d' \<and> compound_view view cr d' = compound_view view cr d \<and>
      (\<forall>ns. r = Inr ns \<longrightarrow> distinct ns \<and> set ns = {n. compound_view view cr d n \<noteq> None})"
    using law r(1) view_cong by blast
next
  fix d n ro d' assume g: "good d" and "dir_open (compound_directory base cr) n d = (ro, d')"
  then have o: "cr_dir_open base cr n d = (ro, d')" by (simp add: compound_directory_def)
  show "good d' \<and> compound_view view cr d' = compound_view view cr d"
  proof (cases "member_id cr n = None \<and> lives_beside_archive n")
    case True
    then have "dir_open base n d = (ro, d')" using o by (simp add: cr_dir_open_def)
    from open_law [OF g this] show ?thesis using view_cong by blast
  next
    case False
    then have "d' = d" using o by (cases "member_id cr n") (simp_all add: cr_dir_open_def)
    then show ?thesis using g by simp
  qed
next
  fix d ns rs d' assume "good d" "sync (compound_directory base cr) ns d = (rs, d')"
  then show "good d' \<and> compound_view view cr d' = compound_view view cr d"
    by (simp add: compound_directory_def)
next
  fix d m rd d' assume "good d" "delete_file (compound_directory base cr) m d = (rd, d')"
  then show "good d' \<and> (\<forall>n. n \<noteq> m \<longrightarrow> compound_view view cr d' n = compound_view view cr d n) \<and>
      (rd = Inr () \<longrightarrow> compound_view view cr d' m = None)"
    by (auto simp: compound_directory_def)
qed

interpretation bb_compound: compound_over bb_impl bb_file bb_good cr for cr
  by unfold_locales

section \<open>Properties\<close>

lemma member_of: "member_id cr (cr_segment_name cr @ i) = map_option (\<lambda>_. i) (ce_get (cr_entries cr) i)"
  by (simp add: member_id_def strip_prefix_def starts_with_def)

lemma not_a_member:
  assumes "n \<notin> set (member_files cr)"
  shows "member_id cr n = None"
proof (cases "strip_prefix n (cr_segment_name cr)")
  case (Some i)
  then have "n = cr_segment_name cr @ i"
    by (metis append_take_drop_id option.distinct(1) option.sel starts_with_def strip_prefix_def)
  then have "i \<notin> fst ` set (ce_entries (cr_entries cr))" using assms by (auto simp: member_files_def ce_names_def)
  then show ?thesis using Some by (simp add: member_id_def ce_get_def no_entry)
qed (simp add: member_id_def)

lemma open_member_written:
  assumes "open_input (cr_data cr) (cr_entries cr) i = Inr (slice_new bytes)"
  shows "open_member cr n i = Inr bytes" "ce_get (cr_entries cr) i \<noteq> None"
proof -
  obtain e where e: "ce_get (cr_entries cr) i = Some e" using assms by (auto simp: open_input_def split: option.splits)
  let ?o = "unat (fe_offset e)" and ?l = "unat (fe_length e)"
  have "sub_input (slice_new (cr_data cr)) ?o ?l = Inr (slice_new bytes)"
    using assms e by (cases "sub_input (slice_new (cr_data cr)) ?o ?l") (simp_all add: open_input_def)
  then have "?o + ?l \<le> usize_max" "?o + ?l \<le> length (cr_data cr)" "bytes = take ?l (drop ?o (cr_data cr))"
    by (auto simp: sub_input_def checked_add_def slice_get_def slice_new_def split: if_splits)
  then show "open_member cr n i = Inr bytes" "ce_get (cr_entries cr) i \<noteq> None"
    using assms e by (simp_all add: open_member_def slice_of_def checked_add_def slice_new_def)
qed

text \<open>
  C15: A segment packed into a compound file is read through the reader as if its files were loose. If the sub-files
  pass the checks of the packer and the \<open>.cfs\<close> and \<open>.cfe\<close> it produced are what the directory opens, then the reader
  opens, its archive passes the full checksum, its members are exactly the packed files and each opens to the bytes
  that were packed; a name that is no member goes to the directory underneath if it lives beside the archive and is not
  found otherwise; and every write is refused with the directory left as it was.
\<close>
theorem compound_segment_round_trip:
  assumes "length segid = ID_LENGTH" and "distinct (map fst sub_files)" and "length sub_files < 2 ^ 31"
    and "\<forall>(n, bytes) \<in> set sub_files. good_string n \<and> verify_sub_file K threads n bytes segid = Inr ()"
    and "room_needed sub_files < 2 ^ 62"
    and "compound_write K threads segid sub_files = Some (Inr (cfs, cfe))"
    and "dir_open base (segment @ ascii ''.cfe'') d = (Inr cfe, d1)"
    and "dir_open base (segment @ ascii ''.cfs'') d1 = (Inr cfs, d2)"
  shows "\<exists>cr. cr_open K threads base segment segid d = (Inr cr, d2) \<and> check_integrity K threads cr = Inr () \<and>
    set (member_files cr) = (\<lambda>(n, _). segment @ n) ` set sub_files \<and>
    (\<forall>(n, bytes) \<in> set sub_files. dir_open (compound_directory base cr) (segment @ n) s = (Inr bytes, s)) \<and>
    (\<forall>n. n \<notin> set (member_files cr) \<longrightarrow> dir_open (compound_directory base cr) n s =
       (if lives_beside_archive n then dir_open base n s
        else (Inl (Io NotFound (n @ ascii '' is not in compound segment '' @ segment)), s))) \<and>
    (\<forall>n. delete_file (compound_directory base cr) n s = (Inl (read_only ''deleteFile''), s))"
proof -
  obtain ce payload where ce: "parse_entries K threads cfe segid = Inr ce" "check_data_header_footer cfs segid ce = Inr ()"
      "set (ce_names ce) = fst ` set sub_files" "\<forall>(n, bytes) \<in> set sub_files. open_input cfs ce n = Inr (slice_new bytes)"
      "cfs = write_footer K threads payload" "length cfs \<le> usize_max"
    using compound_written [OF assms(1-5)] assms(6) by auto
  define cr where "cr = \<lparr>cr_segment_name = segment, cr_data = cfs, cr_entries = ce\<rparr>"
  have cr: "cr_data cr = cfs" "cr_entries cr = ce" "cr_segment_name cr = segment" by (simp_all add: cr_def)
  have opened: "cr_open K threads base segment segid d = (Inr cr, d2)"
    using assms(7,8) ce(1,2) by (simp add: cr_open_def corrupt_def cr_def)
  have integrity: "check_integrity K threads cr = Inr ()"
  proof -
    have "length cfs = length payload + 16" using ce(5) by (simp add: length_write_footer)
    moreover obtain c s' where "check_footer K threads (length cfs) \<lparr>sbuf = cfs, pos = length payload\<rparr> = (Inr c, s')"
      using footers_accepted(2) [OF ce(5,6)] by blast
    ultimately show ?thesis
      by (simp add: check_integrity_def check_whole_file_footer_def cr slice_seek_def slice_new_def FOOTER_LENGTH_def)
  qed
  have members: "set (member_files cr) = (\<lambda>(n, _). segment @ n) ` set sub_files"
    by (simp add: member_files_def cr ce(3) image_image case_prod_beta)
  have "dir_open (compound_directory base cr) (segment @ n) s = (Inr bytes, s)" if "(n, bytes) \<in> set sub_files" for n bytes
  proof -
    have "open_input (cr_data cr) (cr_entries cr) n = Inr (slice_new bytes)" using ce(4) that by (auto simp: cr)
    note w = open_member_written [OF this]
    obtain e where "ce_get (cr_entries cr) n = Some e" using w(2) by blast
    then have m: "member_id cr (segment @ n) = Some n" using member_of [of cr n] by (simp add: cr(3))
    show ?thesis by (simp add: compound_directory_def cr_dir_open_def m w(1))
  qed
  then have opens: "\<forall>(n, bytes) \<in> set sub_files. dir_open (compound_directory base cr) (segment @ n) s = (Inr bytes, s)"
    by blast
  have "dir_open (compound_directory base cr) n s = (if lives_beside_archive n then dir_open base n s
      else (Inl (Io NotFound (n @ ascii '' is not in compound segment '' @ segment)), s))" if "n \<notin> set (member_files cr)" for n
    using not_a_member [OF that] by (simp add: compound_directory_def cr_dir_open_def cr)
  moreover have "delete_file (compound_directory base cr) n s = (Inl (read_only ''deleteFile''), s)" for n
    by (simp add: compound_directory_def)
  ultimately show ?thesis using opened integrity members opens by blast
qed

definition sample_sub_file :: "u8 list \<Rightarrow> u8 list" where
  "sample_sub_file body = write_footer xor_hasher 4 (index_header_bytes (ascii ''C'') 0 (replicate 16 7) [] @ body)"

definition sample_directory :: "u8 list \<Rightarrow> u8 list \<Rightarrow> byte_buffers_directory" where
  "sample_directory cfs cfe =
     \<lparr>bb_files = [(ascii ''_0.cfs'', 0), (ascii ''_0.cfe'', 1)], bb_entries = [Some cfs, Some cfe], temp_counter = 0\<rparr>"

theorem compound_segment_round_trip_witness:
  "\<exists>cfs cfe cr. compound_write xor_hasher 4 (replicate 16 7) [(ascii ''.fnm'', sample_sub_file [1, 2]), (ascii ''.fdt'', sample_sub_file [3])]
      = Some (Inr (cfs, cfe)) \<and>
    cr_open xor_hasher 4 bb_impl (ascii ''_0'') (replicate 16 7) (sample_directory cfs cfe) = (Inr cr, sample_directory cfs cfe) \<and>
    dir_open (compound_directory bb_impl cr) (ascii ''_0'' @ ascii ''.fdt'') (sample_directory cfs cfe) =
      (Inr (sample_sub_file [3]), sample_directory cfs cfe)"
proof -
  let ?id = "replicate 16 7 :: u8 list" and ?fs = "[(ascii ''.fnm'', sample_sub_file [1, 2]), (ascii ''.fdt'', sample_sub_file [3])]"
  have i: "length ?id = ID_LENGTH" by (simp add: ID_LENGTH_def)
  have C: "good_string (ascii ''C'')" "good_string (ascii ''.fnm'')" "good_string (ascii ''.fdt'')"
    by (simp_all add: good_ascii ascii_def)
  have short: "length (sample_sub_file body) \<le> 100" if "length body \<le> 10" for body
    using that by (simp add: sample_sub_file_def length_write_footer length_index_header_bytes [OF _ i] ascii_def
        index_header_length_def header_length_def ID_LENGTH_def)
  have short': "length (sample_sub_file body) \<le> usize_max" if "length body \<le> 10" for body
    using short [OF that] by (simp add: usize_max_def)
  have ok: "verify_sub_file xor_hasher 4 n (sample_sub_file body) ?id = Inr ()" if "length body \<le> 10" for n body
    using verify_framed [OF i _ C(1) _ short' [OF that], of "[]" xor_hasher 4 0 body n ?id] by (simp add: sample_sub_file_def)
  have distinct: "distinct (map fst ?fs)" by (simp add: ascii_def)
  have few: "length ?fs < 2 ^ 31" by simp
  have checked: "\<forall>(n, bytes) \<in> set ?fs. good_string n \<and> verify_sub_file xor_hasher 4 n bytes ?id = Inr ()"
    using C(2,3) ok by simp
  have room: "room_needed ?fs < 2 ^ 62" using short [of "[1, 2]"] short [of "[3]"] by (simp add: room_needed_def ascii_def)
  obtain cfs cfe where w: "compound_write xor_hasher 4 ?id ?fs = Some (Inr (cfs, cfe))"
    using compound_written [OF i distinct few checked room] by blast
  let ?d = "sample_directory cfs cfe"
  have cfe: "dir_open bb_impl (ascii ''_0'' @ ascii ''.cfe'') ?d = (Inr cfe, ?d)"
    and cfs: "dir_open bb_impl (ascii ''_0'' @ ascii ''.cfs'') ?d = (Inr cfs, ?d)"
    by (simp_all add: ascii_def bb_impl_def bb_open_def sample_directory_def)
  obtain cr where "cr_open xor_hasher 4 bb_impl (ascii ''_0'') ?id ?d = (Inr cr, ?d)"
      "\<forall>(n, bytes) \<in> set ?fs. dir_open (compound_directory bb_impl cr) (ascii ''_0'' @ n) ?d = (Inr bytes, ?d)"
    using compound_segment_round_trip [OF i distinct few checked room w cfe cfs, of ?d] by blast
  moreover have "(ascii ''.fdt'', sample_sub_file [3]) \<in> set ?fs" by simp
  ultimately show ?thesis using w by blast
qed

end
