(* ===== verification/Lz4_Decompress.thy ===== *)
theory Lz4_Decompress
  imports Data_Input
begin

text \<open>
  The decoder half of \<open>lz4.rs\<close>: \<open>decompress\<close> over any \<open>DataInput\<close>, the block-copying
  \<open>decompress_slice\<close>, and their shared \<open>copy_match\<close>. The state of a decoder is the input cursor and the
  destination buffer, so what an error leaves in either is part of the model. One iteration of a decoding
  loop is a definition of its own (\<open>lz4_sequence\<close>, \<open>slice_sequence\<close>); its boolean result says that a
  \<open>break\<close> was taken.

  \<open>lz_extend\<close> is the specification of a match copy, one byte at a time; a block is specified by the
  literals, distance and length of its sequences (\<open>lz4_seq\<close>) and its last literals, with \<open>enc_seq\<close> and
  \<open>enc_last\<close> the bytes of each.
\<close>

unbundle bit_operations_syntax

section \<open>The decoder\<close>

definition MIN_MATCH :: nat where
  "MIN_MATCH = 4"

definition copy_within :: "'a list \<Rightarrow> nat \<Rightarrow> nat \<Rightarrow> nat \<Rightarrow> 'a list" where
  "copy_within dest a b to = copy_at to (take (b - a) (drop a dest)) dest"

text \<open>
  The doubling loop of \<open>copy_match\<close>. Its callers pass \<open>from < to\<close>, so \<open>period\<close> is positive and \<open>n\<close> is never 0.
\<close>

function copy_periods :: "'a list \<Rightarrow> nat \<Rightarrow> nat \<Rightarrow> nat \<Rightarrow> nat \<Rightarrow> nat \<Rightarrow> 'a list" where
  "copy_periods dest from to len period written =
     (if written < len then
        let n = min (period + written) (len - written) in
        if n = 0 then dest
        else copy_periods (copy_within dest from (from + n) (to + written)) from to len period (written + n)
      else dest)"
  by pat_completeness auto
termination by (relation "measure (\<lambda>(dest, from, to, len, period, written). len - written)") auto

declare copy_periods.simps [simp del]

definition copy_match :: "'a list \<Rightarrow> nat \<Rightarrow> nat \<Rightarrow> nat \<Rightarrow> 'a list" where
  "copy_match dest from to len =
     (let period = to - from in
      if len \<le> period then copy_within dest from (from + len) to
      else if period = 1 then copy_at to (replicate len (dest ! from)) dest
      else copy_periods dest from to len period 0)"

function read_length_extension :: "('s, 'z) data_input_scheme \<Rightarrow> nat \<Rightarrow> ('s, nat) stateful" where
  "read_length_extension D len =
     bnd (read_byte D) (\<lambda>b.
       case checked_add len (unat b) of
         None \<Rightarrow> fail (Corrupted Lz4LengthExtensionOverflow)
       | Some next \<Rightarrow> if b \<noteq> 0xFF then ret next else read_length_extension D next)"
  by pat_completeness auto
termination by (relation "measure (\<lambda>(D, len). usize_max - len)") (auto simp: checked_add_def split: if_splits)

declare read_length_extension.simps [simp del]

text \<open>An input operation, with the destination buffer carried along.\<close>

definition lift_in :: "('s, 'a) stateful \<Rightarrow> ('s \<times> u8 list, 'a) stateful" where
  "lift_in P st = (case P (fst st) of (r, s) \<Rightarrow> (r, (s, snd st)))"

definition lz4_length :: "('s, 'z) data_input_scheme \<Rightarrow> nat \<Rightarrow> ('s \<times> u8 list, nat) stateful" where
  "lz4_length D n = (if n = 0x0F then lift_in (read_length_extension D n) else ret n)"

definition lz4_literals :: "('s, 'z) data_input_scheme \<Rightarrow> nat \<Rightarrow> nat \<Rightarrow> ('s \<times> u8 list, nat) stateful" where
  "lz4_literals D d_off literal_len =
     (if literal_len \<noteq> 0 then
        (case checked_add d_off literal_len of
           None \<Rightarrow> fail (Eof d_off)
         | Some end \<Rightarrow> (\<lambda>(s, dest).
             if length dest < end then fail (Eof end) (s, dest)
             else bnd (lift_in (read_bytes D literal_len)) (\<lambda>run (s, dest). (Inr end, (s, copy_at d_off run dest))) (s, dest)))
      else ret d_off)"

definition lz4_match :: "nat \<Rightarrow> nat \<Rightarrow> nat \<Rightarrow> nat \<Rightarrow> ('s \<times> u8 list, nat \<times> bool) stateful" where
  "lz4_match dest_end d_off match_dec match_len = (\<lambda>(s, dest).
     case checked_add match_len MIN_MATCH of
       None \<Rightarrow> fail (Corrupted Lz4MatchLengthOverflow) (s, dest)
     | Some match_len \<Rightarrow>
         if d_off < match_dec then fail (Corrupted Lz4BeforeStart) (s, dest)
         else
           (case checked_add d_off match_len of
              None \<Rightarrow> fail (Eof d_off) (s, dest)
            | Some end \<Rightarrow>
                if length dest < end then fail (Eof end) (s, dest)
                else (Inr (end, dest_end \<le> end), (s, copy_match dest (d_off - match_dec) d_off match_len))))"

definition lz4_sequence :: "('s, 'z) data_input_scheme \<Rightarrow> nat \<Rightarrow> nat \<Rightarrow> ('s \<times> u8 list, nat \<times> bool) stateful" where
  "lz4_sequence D dest_end d_off =
     bnd (lift_in (read_byte D)) (\<lambda>token.
     bnd (lz4_length D (unat (drop_bit 4 token))) (\<lambda>literal_len.
     bnd (lz4_literals D d_off literal_len) (\<lambda>d_off.
       if dest_end \<le> d_off then ret (d_off, True)
       else
         bnd (lift_in (read_u16 D)) (\<lambda>match_dec.
           if match_dec = 0 then fail (Corrupted Lz4OffsetZero)
           else bnd (lz4_length D (unat (token AND 0x0F))) (\<lambda>match_len.
             lz4_match dest_end d_off (unat match_dec) match_len)))))"

lemma lz4_literals_advances: "lz4_literals D d n st = (Inr d', st') \<Longrightarrow> d' = d + n"
  by (auto simp: lz4_literals_def checked_add_def bnd_def split: if_splits option.splits prod.splits sum.splits)

lemma lz4_match_advances: "lz4_match e d dec m st = (Inr (d', dn), st') \<Longrightarrow> d' = d + m + MIN_MATCH \<and> (dn \<longleftrightarrow> e \<le> d')"
  by (auto simp: lz4_match_def checked_add_def split: if_splits option.splits prod.splits)

lemma lz4_sequence_advances: "lz4_sequence D e d st = (Inr (d', False), st') \<Longrightarrow> d < d' \<and> d' < e"
  unfolding lz4_sequence_def bnd_eq_Inr_iff
  by (auto simp: bnd_eq_Inr_iff MIN_MATCH_def dest!: lz4_literals_advances lz4_match_advances split: if_splits)

function decompress_loop :: "('s, 'z) data_input_scheme \<Rightarrow> nat \<Rightarrow> nat \<Rightarrow> ('s \<times> u8 list, nat) stateful" where
  "decompress_loop D dest_end d_off st =
     bnd (lz4_sequence D dest_end d_off) (\<lambda>(d_off, dn).
       if dn then ret d_off else decompress_loop D dest_end d_off) st"
  by pat_completeness auto
termination
  by (relation "measure (\<lambda>(D, dest_end, d_off, st). dest_end - d_off)") (auto dest: lz4_sequence_advances)

declare decompress_loop.simps [simp del]

definition decompress :: "('s, 'z) data_input_scheme \<Rightarrow> nat \<Rightarrow> nat \<Rightarrow> ('s \<times> u8 list, nat) stateful" where
  "decompress D decompressed_len d_off st =
     (case checked_add d_off decompressed_len of
        None \<Rightarrow> fail (Eof d_off) st
      | Some dest_end \<Rightarrow>
          if length (snd st) < dest_end then fail (Eof dest_end) st
          else decompress_loop D dest_end d_off st)"

section \<open>The decoder over a slice\<close>

function slice_length_extension :: "u8 list \<Rightarrow> nat \<Rightarrow> nat \<Rightarrow> error + nat \<times> nat" where
  "slice_length_extension src s len =
     (if s < length src then
        let b = src ! s; s = s + 1 in
        (case checked_add len (unat b) of
           None \<Rightarrow> Inl (Corrupted Lz4LengthExtensionOverflow)
         | Some len \<Rightarrow> if b \<noteq> 0xFF then Inr (len, s) else slice_length_extension src s len)
      else Inl (Eof s))"
  by pat_completeness auto
termination by (relation "measure (\<lambda>(src, s, len). length src - s)") auto

declare slice_length_extension.simps [simp del]

text \<open>
  The literal run of one iteration: the new \<open>s\<close> and \<open>d\<close>. \<open>p\<close> is the cursor's position, from which the
  closure \<open>eof\<close> computes offsets. The destination buffer is the state.
\<close>

definition slice_eof :: "nat \<Rightarrow> nat \<Rightarrow> error" where
  "slice_eof p s = Eof (saturating_add p s)"

definition slice_literals :: "u8 list \<Rightarrow> nat \<Rightarrow> nat \<Rightarrow> nat \<Rightarrow> nat \<Rightarrow> nat \<Rightarrow> (u8 list, nat \<times> nat) stateful" where
  "slice_literals src p dest_end s d lit dest =
     (if lit \<noteq> 0 then
        if lit < 0x0F \<and> s + 16 \<le> length src \<and> d + 16 \<le> dest_end
        then (Inr (s + lit, d + lit), copy_at d (take 16 (drop s src)) dest)
        else
          (case (if lit = 0x0F then slice_length_extension src s lit else Inr (lit, s)) of
             Inl e \<Rightarrow> fail e dest
           | Inr (lit, s) \<Rightarrow>
               (case checked_add d lit of
                  None \<Rightarrow> fail (Eof d) dest
                | Some end \<Rightarrow>
                    if length dest < end then fail (Eof end) dest
                    else
                      (case checked_add s lit of
                         None \<Rightarrow> fail (slice_eof p s) dest
                       | Some s_end \<Rightarrow>
                           (case slice_get src s s_end of
                              None \<Rightarrow> fail (slice_eof p s) dest
                            | Some run \<Rightarrow> (Inr (s + lit, d + lit), copy_at d run dest)))))
      else ret (s, d) dest)"

definition slice_copy_match :: "nat \<Rightarrow> nat \<Rightarrow> nat \<Rightarrow> nat \<Rightarrow> bool \<Rightarrow> nat \<Rightarrow> (u8 list, nat \<times> nat) stateful" where
  "slice_copy_match dest_end s d dec short match_len dest =
     (case checked_add match_len MIN_MATCH of
        None \<Rightarrow> fail (Corrupted Lz4MatchLengthOverflow) dest
      | Some match_len \<Rightarrow>
          (let from = d - dec in
           if short \<and> 8 \<le> dec \<and> d + 24 \<le> dest_end then
             (let dest = copy_within dest from (from + 8) d;
                  dest = copy_within dest (from + 8) (from + 16) (d + 8);
                  dest = (if 16 < match_len then copy_within dest (from + 16) (from + 24) (d + 16) else dest)
              in (Inr (s, d + match_len), dest))
           else
             (case checked_add d match_len of
                None \<Rightarrow> fail (Eof d) dest
              | Some end \<Rightarrow>
                  if length dest < end then fail (Eof end) dest
                  else (Inr (s, end), copy_match dest from d match_len))))"

definition slice_match :: "u8 list \<Rightarrow> nat \<Rightarrow> nat \<Rightarrow> nat \<Rightarrow> nat \<Rightarrow> nat \<Rightarrow> (u8 list, nat \<times> nat) stateful" where
  "slice_match src dest_end s d dec match_len =
     (let short = (match_len \<noteq> 0x0F) in
      case (if \<not> short then slice_length_extension src s match_len else Inr (match_len, s)) of
        Inl e \<Rightarrow> fail e
      | Inr (match_len, s) \<Rightarrow> slice_copy_match dest_end s d dec short match_len)"

definition slice_sequence :: "u8 list \<Rightarrow> nat \<Rightarrow> nat \<Rightarrow> nat \<Rightarrow> nat \<Rightarrow> (u8 list, nat \<times> nat \<times> bool) stateful" where
  "slice_sequence src p dest_end s d =
     (if length src \<le> s then fail (slice_eof p s)
      else
        let token = src ! s; s = s + 1 in
        bnd (slice_literals src p dest_end s d (unat (drop_bit 4 token))) (\<lambda>(s, d).
          if dest_end \<le> d then ret (s, d, True)
          else
            (case slice_get src s (s + 2) of
               None \<Rightarrow> fail (slice_eof p s)
             | Some dec_bytes \<Rightarrow>
                 (let dec = unat (from_le_bytes dec_bytes :: u16); s = s + 2 in
                  if dec = 0 then fail (Corrupted Lz4OffsetZero)
                  else if d < dec then fail (Corrupted Lz4BeforeStart)
                  else bnd (slice_match src dest_end s d dec (unat (token AND 0x0F))) (\<lambda>(s, d).
                    ret (s, d, dest_end \<le> d))))))"

lemma slice_literals_advances: "slice_literals src p e s d lit dest = (Inr (s', d'), dest') \<Longrightarrow> d \<le> d'"
  by (auto simp: slice_literals_def checked_add_def Let_def split: if_splits option.splits prod.splits sum.splits)

lemma slice_match_advances: "slice_match src e s d dec m dest = (Inr (s', d'), dest') \<Longrightarrow> d < d'"
  by (auto simp: slice_match_def slice_copy_match_def checked_add_def Let_def MIN_MATCH_def split: if_splits option.splits prod.splits sum.splits)

lemma slice_sequence_advances: "slice_sequence src p e s d dest = (Inr (s', d', False), dest') \<Longrightarrow> d < d' \<and> d' < e"
  by (auto simp: slice_sequence_def Let_def bnd_eq_Inr_iff split: if_splits option.splits
      dest!: slice_literals_advances slice_match_advances)

function slice_loop :: "u8 list \<Rightarrow> nat \<Rightarrow> nat \<Rightarrow> nat \<Rightarrow> nat \<Rightarrow> (u8 list, nat \<times> nat) stateful" where
  "slice_loop src p dest_end s d dest =
     bnd (slice_sequence src p dest_end s d) (\<lambda>(s, d, dn).
       if dn then ret (s, d) else slice_loop src p dest_end s d) dest"
  by pat_completeness auto
termination
  by (relation "measure (\<lambda>(src, p, dest_end, s, d, dest). dest_end - d)") (auto dest: slice_sequence_advances)

declare slice_loop.simps [simp del]

definition decompress_slice :: "nat \<Rightarrow> nat \<Rightarrow> (slice_input \<times> u8 list, nat) stateful" where
  "decompress_slice decompressed_len d_off = (\<lambda>(input, dest).
     case checked_add d_off decompressed_len of
       None \<Rightarrow> fail (Eof d_off) (input, dest)
     | Some dest_end \<Rightarrow>
         if length dest < dest_end then fail (Eof dest_end) (input, dest)
         else
           (case slice_loop (as_slice input) (pos input) dest_end 0 d_off dest of
              (Inl e, dest) \<Rightarrow> (Inl e, (input, dest))
            | (Inr (s, d), dest) \<Rightarrow> bnd (lift_in (slice_skip s)) (\<lambda>_. ret d) (input, dest)))"
section \<open>Match copies\<close>

text \<open>A match of \<open>n\<close> bytes at distance \<open>dec\<close>, appended to the window one byte at a time.\<close>

fun lz_extend :: "'a list \<Rightarrow> nat \<Rightarrow> nat \<Rightarrow> 'a list" where
  "lz_extend v dec 0 = v"
| "lz_extend v dec (Suc n) = lz_extend (v @ [v ! (length v - dec)]) dec n"

lemma length_lz_extend [simp]: "length (lz_extend v dec n) = length v + n"
  by (induction v dec n rule: lz_extend.induct) simp_all

text \<open>A list is the extension of its prefix exactly when each later element repeats the one \<open>dec\<close> before it.\<close>

lemma lz_extend_unique:
  assumes "0 < dec" and "dec \<le> t" and "t + n \<le> length w"
    and "\<And>i. t \<le> i \<Longrightarrow> i < t + n \<Longrightarrow> w ! i = w ! (i - dec)"
  shows "lz_extend (take t w) dec n = take (t + n) w"
  using assms(2-4)
proof (induction n arbitrary: t)
  case (Suc n)
  have "take t w ! (t - dec) = w ! (t - dec)" using \<open>0 < dec\<close> Suc.prems(1) by simp
  also have "\<dots> = w ! t" using Suc.prems(3) [of t] by simp
  finally have "take t w @ [take t w ! (length (take t w) - dec)] = take (Suc t) w"
    using Suc.prems(2) by (simp add: take_Suc_conv_app_nth min_absorb2)
  then show ?case using Suc.IH [of "Suc t"] Suc.prems by simp
qed simp

lemma lz_extend_prefix: "dec \<le> length v \<Longrightarrow> lz_extend (p @ v) dec n = p @ lz_extend v dec n"
  by (induction v dec n rule: lz_extend.induct) (auto simp: nth_append)

lemma lz_extend_take: "k \<le> length v \<Longrightarrow> take k (lz_extend v dec n) = take k v"
  by (induction v dec n rule: lz_extend.induct) auto

lemma copy_match_unique:
  assumes "from < to" and "to + len \<le> length dest" and "length w = length dest"
    and "take to w = take to dest" and "drop (to + len) w = drop (to + len) dest"
    and "\<And>k. k < len \<Longrightarrow> w ! (to + k) = w ! (from + k)"
  shows "w = lz_extend (take to dest) (to - from) len @ drop (to + len) dest"
proof -
  have "w ! i = w ! (i - (to - from))" if "to \<le> i" "i < to + len" for i
    using assms(6) [of "i - to"] that assms(1) by (simp add: add.commute)
  then have "lz_extend (take to w) (to - from) len = take (to + len) w"
    using assms(1-3) by (intro lz_extend_unique) auto
  then show ?thesis using assms(4,5) by (metis append_take_drop_id)
qed

lemma periodic:
  assumes "\<And>i. period \<le> i \<Longrightarrow> i < period + m \<Longrightarrow> f i = f (i - period)"
    and "j + q * period < period + (m :: nat)"
  shows "f (j + q * period) = f j"
  using assms(2)
proof (induction q)
  case (Suc q)
  have "f (j + Suc q * period) = f (j + Suc q * period - period)" using Suc.prems by (intro assms(1)) auto
  then show ?case using Suc by simp
qed simp

lemma copy_at_take_drop:
  assumes "a + length bs \<le> length dest"
  shows "length (copy_at a bs dest) = length dest" "k \<le> a \<Longrightarrow> take k (copy_at a bs dest) = take k dest"
    "a + length bs \<le> k \<Longrightarrow> drop k (copy_at a bs dest) = drop k dest"
    "i < length bs \<Longrightarrow> copy_at a bs dest ! (a + i) = bs ! i"
    "j < a \<Longrightarrow> copy_at a bs dest ! j = dest ! j"
    "take (a + length bs) (copy_at a bs dest) = take a dest @ bs"
  using assms by (auto simp: copy_at_def nth_append)

lemma copy_periods_eq:
  assumes "from < to" and "to + len \<le> length orig" and "period = to - from"
    and "length w = length orig" and "take to w = take to orig" and "drop (to + written) w = drop (to + written) orig"
    and "\<And>k. k < written \<Longrightarrow> w ! (to + k) = w ! (from + k)"
    and "written = len \<or> written < len \<and> period dvd written"
  shows "copy_periods w from to len period written = lz_extend (take to orig) period len @ drop (to + len) orig"
  using assms(4-8)
proof (induction "len - written" arbitrary: w written rule: less_induct)
  case less
  show ?case
  proof (cases "written < len")
    case False
    then have "written = len" using less.prems(5) by simp
    then have "w = lz_extend (take to orig) (to - from) len @ drop (to + len) orig"
      using less.prems assms(1,2) by (intro copy_match_unique) auto
    then show ?thesis using False assms(3) by (subst copy_periods.simps) simp
  next
    case True
    define n where "n = min (period + written) (len - written)"
    define run where "run = take n (drop from w)"
    define w' where "w' = copy_at (to + written) run w"
    have n: "0 < n" "n \<le> period + written" "written + n \<le> len" using True assms(1,3) by (auto simp: n_def)
    have to: "to = from + period" using assms(1,3) by simp
    have "length run = n" using n less.prems(1) assms(2) to by (simp add: run_def)
    have fit: "to + written + length run \<le> length w" using n less.prems(1) assms(2) \<open>length run = n\<close> by simp
    note w' = copy_at_take_drop [OF fit, folded w'_def, unfolded \<open>length run = n\<close>]
    have old: "w' ! (from + i) = w ! (from + i)" if "i < period + written" for i
      using w'(5) [of "from + i"] that to by simp
    have new: "w' ! (to + written + j) = w ! (from + j)" if "j < n" for j
      using w'(4) [OF that] that n fit to \<open>length run = n\<close> by (simp add: run_def)
    have per: "w ! (from + i) = w ! (from + (i - period))" if "period \<le> i" "i < period + written" for i
      using less.prems(4) [of "i - period"] that to by (simp add: add.assoc)
    obtain q where q: "written = q * period" using less.prems(5) True by (metis dvd_def mult.commute less_irrefl)
    have step: "w' ! (to + k) = w' ! (from + k)" if k: "k < written + n" for k
    proof (cases "k < written")
      case True
      then show ?thesis
        using less.prems(4) [OF True] old [of "period + k"] old [of k] to by (simp add: add.assoc)
    next
      case False
      define j where "j = k - written"
      have k_eq: "k = written + j" "j < n" using False k by (auto simp: j_def)
      have lhs: "w' ! (to + k) = w ! (from + j)" using new [OF k_eq(2)] by (simp add: k_eq add.assoc)
      show ?thesis
      proof (cases "j < period")
        case True
        have "w' ! (from + k) = w ! (from + (j + q * period))"
          using old [of k] True by (simp add: k_eq q add.commute)
        also have "\<dots> = w ! (from + j)"
          using True q per by (intro periodic [where f = "\<lambda>i. w ! (from + i)" and m = written]) auto
        finally show ?thesis using lhs by simp
      next
        case False
        have "w' ! (from + k) = w' ! (to + written + (j - period))" using False to by (simp add: k_eq)
        also have "\<dots> = w ! (from + (j - period))" using new [of "j - period"] k_eq(2) by simp
        also have "\<dots> = w ! (from + j)" using per [of j] False k_eq(2) n(2) by simp
        finally show ?thesis using lhs by simp
      qed
    qed
    have "copy_periods w from to len period written = copy_periods w' from to len period (written + n)"
      using True n(1) by (subst copy_periods.simps) (simp add: copy_within_def w'_def run_def Let_def flip: n_def)
    also have "\<dots> = lz_extend (take to orig) period len @ drop (to + len) orig"
    proof (rule less.hyps)
      show "len - (written + n) < len - written" using n by simp
      show "length w' = length orig" "take to w' = take to orig" using w'(1,2) less.prems(1,2) by auto
      have "drop (to + written + n) w = drop (to + written + n) orig"
        using less.prems(3) by (metis add.commute drop_drop)
      then show "drop (to + (written + n)) w' = drop (to + (written + n)) orig" using w'(3) by (simp add: add.assoc)
      show "w' ! (to + k) = w' ! (from + k)" if "k < written + n" for k using step [OF that] .
      show "written + n = len \<or> written + n < len \<and> period dvd written + n"
        using less.prems(5) True n by (auto simp: n_def min_def)
    qed
    finally show ?thesis .
  qed
qed

lemma copy_match_eq:
  assumes "from < to" and "to + len \<le> length dest"
  shows "copy_match dest from to len = lz_extend (take to dest) (to - from) len @ drop (to + len) dest"
proof -
  consider (far) "len \<le> to - from" | (one) "\<not> len \<le> to - from" "to - from = 1"
    | (near) "\<not> len \<le> to - from" "to - from \<noteq> 1" by blast
  then show ?thesis
  proof cases
    case far
    let ?w = "copy_at to (take len (drop from dest)) dest"
    have len: "length (take len (drop from dest)) = len" using assms by simp
    note w = copy_at_take_drop [of to "take len (drop from dest)" dest, unfolded len, OF assms(2)]
    have "?w = lz_extend (take to dest) (to - from) len @ drop (to + len) dest"
    proof (rule copy_match_unique [OF assms w(1)])
      fix k assume "k < len"
      then show "?w ! (to + k) = ?w ! (from + k)"
        using w(4) [of k] w(5) [of "from + k"] far assms by simp
    qed (use w in auto)
    then show ?thesis using far by (simp add: copy_match_def copy_within_def)
  next
    case one
    let ?w = "copy_at to (replicate len (dest ! from)) dest"
    note w = copy_at_take_drop [of to "replicate len (dest ! from)" dest, unfolded length_replicate, OF assms(2)]
    have "?w = lz_extend (take to dest) (to - from) len @ drop (to + len) dest"
    proof (rule copy_match_unique [OF assms w(1)])
      fix k assume k: "k < len"
      have "to = Suc from" using one(2) by simp
      then show "?w ! (to + k) = ?w ! (from + k)"
        using w(4) [of k] w(4) [of "k - 1"] w(5) [of "from"] k by (cases k) auto
    qed (use w in auto)
    then show ?thesis using one by (simp add: copy_match_def)
  next
    case near
    have "copy_periods dest from to len (to - from) 0 = lz_extend (take to dest) (to - from) len @ drop (to + len) dest"
      using near assms by (intro copy_periods_eq) auto
    then show ?thesis using near by (simp add: copy_match_def Let_def)
  qed
qed

section \<open>Blocks\<close>

text \<open>A sequence: its literals, the distance and the length of its match.\<close>

type_synonym lz4_seq = "u8 list \<times> nat \<times> nat"

function enc_len :: "nat \<Rightarrow> u8 list" where
  "enc_len l = (if 0xFF \<le> l then 0xFF # enc_len (l - 0xFF) else [of_nat l])"
  by pat_completeness auto
termination by (relation "measure id") auto

declare enc_len.simps [simp del]

definition enc_ext :: "nat \<Rightarrow> u8 list" where
  "enc_ext n = (if 0x0F \<le> n then enc_len (n - 0x0F) else [])"

definition enc_token :: "nat \<Rightarrow> nat \<Rightarrow> u8" where
  "enc_token lit m = push_bit 4 (of_nat (min lit 0x0F)) OR of_nat (min m 0x0F)"

definition enc_seq :: "lz4_seq \<Rightarrow> u8 list" where
  "enc_seq = (\<lambda>(lits, dec, len).
     enc_token (length lits) (len - MIN_MATCH) # enc_ext (length lits) @ lits @
     to_le_bytes 2 (of_nat dec :: u16) @ enc_ext (len - MIN_MATCH))"

definition enc_last :: "u8 list \<Rightarrow> u8 list" where
  "enc_last lits = enc_token (length lits) 0 # enc_ext (length lits) @ lits"

text \<open>The window after a block, and what makes a sequence legal in a window of \<open>n\<close> bytes.\<close>

fun expand :: "u8 list \<Rightarrow> lz4_seq list \<Rightarrow> u8 list" where
  "expand w [] = w"
| "expand w ((lits, dec, len) # sqs) = expand (lz_extend (w @ lits) dec len) sqs"

fun legal :: "nat \<Rightarrow> lz4_seq list \<Rightarrow> bool" where
  "legal n [] = True"
| "legal n ((lits, dec, len) # sqs) =
     (0 < dec \<and> dec \<le> n + length lits \<and> dec < 2 ^ 16 \<and> MIN_MATCH \<le> len \<and> legal (n + length lits + len) sqs)"

fun seqs_len :: "lz4_seq list \<Rightarrow> nat" where
  "seqs_len [] = 0"
| "seqs_len ((lits, dec, len) # sqs) = length lits + len + seqs_len sqs"

lemma length_expand [simp]: "length (expand w sqs) = length w + seqs_len sqs"
  by (induction w sqs rule: expand.induct) simp_all

lemma nibble:
  assumes "n < 16"
  shows "unat (of_nat n :: u8) = n" "bit (of_nat n :: u8) k \<Longrightarrow> k < 4"
proof -
  show n: "unat (of_nat n :: u8) = n" using assms by (simp add: unsigned_of_nat take_bit_nat_eq_self)
  have "take_bit 4 (of_nat n :: u8) = of_nat n"
    using assms n by (intro word_unat_eq_iff [THEN iffD2]) (simp add: unsigned_take_bit_eq take_bit_nat_eq_self)
  then show "bit (of_nat n :: u8) k \<Longrightarrow> k < 4" by (metis bit_take_bit_iff)
qed

lemma bit_0f: "bit (x AND 0x0F) k \<longleftrightarrow> bit x k \<and> k < 4" for x :: u8
proof -
  have "(0x0F :: u8) = mask 4" by (simp add: mask_eq_exp_minus_1)
  then show ?thesis by (simp only: bit_and_iff bit_mask_iff) (auto dest: bit_imp_le_length)
qed

lemma enc_token_fields:
  "unat (drop_bit 4 (enc_token lit m)) = min lit 0x0F" "unat (enc_token lit m AND 0x0F) = min m 0x0F"
proof -
  have l: "min lit 0x0F < 16" and m: "min m 0x0F < 16" by auto
  have "drop_bit 4 (enc_token lit m) = of_nat (min lit 0x0F)"
  proof (rule bit_word_eqI)
    fix k :: nat assume "k < LENGTH(8)"
    then show "bit (drop_bit 4 (enc_token lit m)) k = bit (of_nat (min lit 0x0F) :: u8) k"
      using nibble(2) [OF m, of "4 + k"] nibble(2) [OF l, of k]
      by (auto simp: enc_token_def bit_drop_bit_eq bit_or_iff bit_push_bit_iff)
  qed
  then show "unat (drop_bit 4 (enc_token lit m)) = min lit 0x0F" using nibble(1) [OF l] by simp
  have "enc_token lit m AND 0x0F = of_nat (min m 0x0F)"
    using nibble(2) [OF m] by (intro bit_word_eqI) (auto simp: enc_token_def bit_0f bit_or_iff bit_push_bit_iff)
  then show "unat (enc_token lit m AND 0x0F) = min m 0x0F" using nibble(1) [OF m] by simp
qed

section \<open>Decoding a block\<close>

lemma lift_in_Inr: "P s = (Inr v, s') \<Longrightarrow> lift_in P (s, dest) = (Inr v, (s', dest))"
  by (simp add: lift_in_def)

lemma decodesE:
  assumes "decodes ok rest P bs v" and "ok s" and "rest s = bs @ r"
  obtains s' where "P s = (Inr v, s')" "ok s'" "rest s' = r"
  using assms unfolding decodes_def by blast

context data_input_source
begin

lemma length_extension_ok:
  "base + l \<le> usize_max \<Longrightarrow> decodes ok rest (read_length_extension D base) (enc_len l) (base + l)"
proof (induction l arbitrary: base rule: less_induct)
  case (less l)
  show ?case
  proof (cases "0xFF \<le> l")
    case True
    have "decodes ok rest (read_length_extension D (base + 0xFF)) (enc_len (l - 0xFF)) (base + 0xFF + (l - 0xFF))"
      using True less.prems by (intro less.IH) auto
    moreover have "base + 0xFF + (l - 0xFF) = base + l" using True by simp
    moreover have "checked_add base (unat (0xFF :: u8)) = Some (base + 0xFF)"
      using True less.prems by (simp add: checked_add_def)
    ultimately show ?thesis
      using True by (subst read_length_extension.simps, subst enc_len.simps) (simp add: bytes.decodes_byte del: unsigned_numeral)
  next
    case False
    then have "unat (of_nat l :: u8) = l" by (simp add: unsigned_of_nat take_bit_nat_eq_self)
    moreover from this False have "(of_nat l :: u8) \<noteq> 0xFF" by auto
    ultimately show ?thesis
      using False less.prems
      by (subst read_length_extension.simps, subst enc_len.simps) (auto simp: checked_add_def intro!: bytes.decodes_byte)
  qed
qed

lemma lz4_length_ok:
  assumes "ok s" and "rest s = enc_ext n @ r" and "n \<le> usize_max"
  obtains s' where "lz4_length D (min n 0x0F) (s, dest) = (Inr n, (s', dest))" "ok s'" "rest s' = r"
proof (cases "0x0F \<le> n")
  case True
  then have "decodes ok rest (read_length_extension D 0x0F) (enc_len (n - 0x0F)) n"
    using length_extension_ok [where base = "0x0F" and l = "n - 0x0F"] assms(3) by simp
  from decodesE [OF this assms(1)] obtain s' where "read_length_extension D 0x0F s = (Inr n, s')" "ok s'" "rest s' = r"
    using assms(2) True by (auto simp: enc_ext_def)
  then show thesis using that [of s'] True by (simp add: lz4_length_def lift_in_Inr)
next
  case False
  then show thesis using that [of s] assms by (simp add: lz4_length_def enc_ext_def)
qed

lemma lz4_literals_ok:
  assumes "ok s" and "rest s = lits @ r" and "d + length lits \<le> length dest" and "length dest \<le> usize_max"
  obtains s' where "lz4_literals D d (length lits) (s, dest) = (Inr (d + length lits), (s', copy_at d lits dest))"
    "ok s'" "rest s' = r"
proof (cases "lits = []")
  case True
  then show thesis using that [of s] assms by (simp add: lz4_literals_def copy_at_def)
next
  case False
  obtain s' where "read_bytes D (length lits) s = (Inr lits, s')" "ok s'" "rest s' = r"
    using decodesE [OF read_bytes_law assms(1,2)] .
  then show thesis
    using that [of s'] False assms by (simp add: lz4_literals_def checked_add_def lift_in_Inr)
qed

lemma lz4_sequence_ok:
  assumes "ok s" and "rest s = enc_seq (lits, dec, len) @ r" and "legal d [(lits, dec, len)]"
    and "d + length lits + len < dest_end" and "dest_end \<le> length dest" and "length dest \<le> usize_max"
  obtains s' dest' where
    "lz4_sequence D dest_end d (s, dest) = (Inr (d + length lits + len, False), (s', dest'))" "ok s'" "rest s' = r"
    "take (d + length lits + len) dest' = lz_extend (take d dest @ lits) dec len"
    "drop (d + length lits + len) dest' = drop (d + length lits + len) dest" "length dest' = length dest"
proof -
  let ?token = "enc_token (length lits) (len - MIN_MATCH)"
  have lg: "0 < dec" "dec \<le> d + length lits" "dec < 2 ^ 16" "MIN_MATCH \<le> len" using assms(3) by auto
  obtain s1 where s1: "read_byte D s = (Inr ?token, s1)" "ok s1"
      "rest s1 = enc_ext (length lits) @ lits @ to_le_bytes 2 (of_nat dec :: u16) @ enc_ext (len - MIN_MATCH) @ r"
    using decodesE [OF read_byte_law assms(1), of ?token] assms(2) by (auto simp: enc_seq_def)
  obtain s2 where s2: "lz4_length D (min (length lits) 0x0F) (s1, dest) = (Inr (length lits), (s2, dest))" "ok s2"
      "rest s2 = lits @ to_le_bytes 2 (of_nat dec :: u16) @ enc_ext (len - MIN_MATCH) @ r"
    by (rule lz4_length_ok [OF s1(2,3), where dest = dest]) (use assms(4-6) in auto)
  obtain s3 where s3: "lz4_literals D d (length lits) (s2, dest) = (Inr (d + length lits), (s3, copy_at d lits dest))" "ok s3"
      "rest s3 = to_le_bytes 2 (of_nat dec :: u16) @ enc_ext (len - MIN_MATCH) @ r"
    using lz4_literals_ok [OF s2(2,3), of d dest] assms(4-6) by auto
  obtain s4 where s4: "read_u16 D s3 = (Inr (of_nat dec), s4)" "ok s4" "rest s4 = enc_ext (len - MIN_MATCH) @ r"
    using decodesE [OF fixed_ok(4) s3(2,3)] .
  let ?dest = "copy_at d lits dest"
  obtain s5 where s5: "lz4_length D (min (len - MIN_MATCH) 0x0F) (s4, ?dest) = (Inr (len - MIN_MATCH), (s5, ?dest))" "ok s5" "rest s5 = r"
    by (rule lz4_length_ok [OF s4(2,3), where dest = ?dest]) (use assms(4-6) in auto)
  have dec: "unat (of_nat dec :: u16) = dec" using lg(3) by (simp add: unsigned_of_nat take_bit_nat_eq_self)
  with lg(1) have dec0: "(of_nat dec :: u16) \<noteq> 0" by auto
  have fit: "d + length lits \<le> length dest" using assms(4,5) by simp
  note cp = copy_at_take_drop [OF fit]
  let ?dest' = "copy_match ?dest (d + length lits - dec) (d + length lits) len"
  have m: "?dest' = lz_extend (take d dest @ lits) dec len @ drop (d + length lits + len) dest"
    using copy_match_eq [of "d + length lits - dec" "d + length lits" len ?dest] lg cp assms(4,5) by simp
  have "lz4_match dest_end (d + length lits) dec (len - MIN_MATCH) (s5, ?dest) = (Inr (d + length lits + len, False), (s5, ?dest'))"
    using lg assms(4-6) cp(1) by (simp add: lz4_match_def checked_add_def)
  then have "lz4_sequence D dest_end d (s, dest) = (Inr (d + length lits + len, False), (s5, ?dest'))"
    using s1(1) s2(1) s3(1) s4(1) s5(1) dec dec0 assms(4)
    by (simp add: lz4_sequence_def lift_in_Inr enc_token_fields)
  then show thesis using s5 m assms(4,5) by (intro that [of s5 ?dest']) simp_all
qed

lemma lz4_last_ok:
  assumes "ok s" and "rest s = enc_last lits @ r" and "dest_end = d + length lits"
    and "dest_end \<le> length dest" and "length dest \<le> usize_max"
  obtains s' where "lz4_sequence D dest_end d (s, dest) = (Inr (dest_end, True), (s', copy_at d lits dest))" "ok s'" "rest s' = r"
proof -
  let ?token = "enc_token (length lits) 0"
  obtain s1 where s1: "read_byte D s = (Inr ?token, s1)" "ok s1" "rest s1 = enc_ext (length lits) @ lits @ r"
    using decodesE [OF read_byte_law assms(1), of ?token] assms(2) by (auto simp: enc_last_def)
  obtain s2 where s2: "lz4_length D (min (length lits) 0x0F) (s1, dest) = (Inr (length lits), (s2, dest))" "ok s2" "rest s2 = lits @ r"
    by (rule lz4_length_ok [OF s1(2,3), where dest = dest]) (use assms(3-5) in auto)
  obtain s3 where "lz4_literals D d (length lits) (s2, dest) = (Inr (d + length lits), (s3, copy_at d lits dest))" "ok s3" "rest s3 = r"
    using lz4_literals_ok [OF s2(2,3), of d dest] assms(3-5) by auto
  then show thesis using s1(1) s2(1) assms(3) by (intro that) (simp_all add: lz4_sequence_def lift_in_Inr enc_token_fields)
qed

lemma decompress_loop_ok:
  assumes "ok s" and "rest s = concat (map enc_seq sqs) @ enc_last lits @ r" and "legal d sqs"
    and "dest_end = d + seqs_len sqs + length lits" and "sqs = [] \<or> lits \<noteq> []"
    and "dest_end \<le> length dest" and "length dest \<le> usize_max"
  shows "\<exists>s'. decompress_loop D dest_end d (s, dest) =
      (Inr dest_end, (s', expand (take d dest) sqs @ lits @ drop dest_end dest)) \<and> ok s' \<and> rest s' = r"
  using assms
proof (induction sqs arbitrary: s d dest)
  case Nil
  obtain s' where "lz4_sequence D dest_end d (s, dest) = (Inr (dest_end, True), (s', copy_at d lits dest))" "ok s'" "rest s' = r"
    using lz4_last_ok [OF Nil.prems(1), of lits r dest_end d dest] Nil.prems by auto
  then show ?case
    using Nil.prems(4) by (subst decompress_loop.simps) (simp add: copy_at_def)
next
  case (Cons sq sqs)
  obtain ls dec len where sq: "sq = (ls, dec, len)" by (metis prod_cases3)
  let ?d = "d + length ls + len"
  have lt: "?d < dest_end" using Cons.prems(4,5) sq by simp
  have first: "rest s = enc_seq (ls, dec, len) @ concat (map enc_seq sqs) @ enc_last lits @ r" "legal d [(ls, dec, len)]"
    using Cons.prems(2,3) sq by auto
  from lz4_sequence_ok [OF Cons.prems(1) first lt Cons.prems(6,7)]
  obtain s1 dest1 where s1: "lz4_sequence D dest_end d (s, dest) = (Inr (?d, False), (s1, dest1))" "ok s1"
      "rest s1 = concat (map enc_seq sqs) @ enc_last lits @ r"
      "take ?d dest1 = lz_extend (take d dest @ ls) dec len" "drop ?d dest1 = drop ?d dest" "length dest1 = length dest"
    by blast
  have "drop (dest_end - ?d) (drop ?d dest1) = drop (dest_end - ?d) (drop ?d dest)" using s1(5) by (simp only:)
  then have "drop dest_end dest1 = drop dest_end dest" using lt by simp
  moreover have "\<exists>s'. decompress_loop D dest_end ?d (s1, dest1) =
      (Inr dest_end, (s', expand (take ?d dest1) sqs @ lits @ drop dest_end dest1)) \<and> ok s' \<and> rest s' = r"
    using Cons.prems s1 sq by (intro Cons.IH) auto
  moreover have "decompress_loop D dest_end d (s, dest) = decompress_loop D dest_end ?d (s1, dest1)"
    using s1(1) by (subst decompress_loop.simps) simp
  moreover have "expand (take d dest) (sq # sqs) = expand (take ?d dest1) sqs" using s1(4) by (simp add: sq)
  ultimately show ?case by simp
qed

lemma decompress_ok:
  assumes "ok s" and "rest s = concat (map enc_seq sqs) @ enc_last lits @ r" and "legal d sqs"
    and "n = seqs_len sqs + length lits" and "sqs = [] \<or> lits \<noteq> []"
    and "d + n \<le> length dest" and "length dest \<le> usize_max"
  shows "\<exists>s'. decompress D n d (s, dest) = (Inr (d + n), (s', expand (take d dest) sqs @ lits @ drop (d + n) dest)) \<and>
    ok s' \<and> rest s' = r"
  using decompress_loop_ok [OF assms(1-3) _ assms(5), of "d + n" dest] assms(4,6,7)
  by (simp add: decompress_def checked_add_def)

end

section \<open>The block-copying decoder decodes the same\<close>

text \<open>Two computations that fail together or succeed with related results.\<close>

fun matches :: "('a \<Rightarrow> 's \<Rightarrow> 'b \<Rightarrow> 't \<Rightarrow> bool) \<Rightarrow> (error + 'a) \<times> 's \<Rightarrow> (error + 'b) \<times> 't \<Rightarrow> bool" where
  "matches R (Inr a, s) (Inr b, t) = R a s b t"
| "matches R (Inl _, s) (Inl _, t) = True"
| "matches R _ _ = False"

lemma matches_bnd:
  assumes "matches R (m s) (m' t)" and "\<And>a s b t. R a s b t \<Longrightarrow> matches Q (f a s) (g b t)"
  shows "matches Q (bnd m f s) (bnd m' g t)"
proof -
  obtain r1 s1 r2 t1 where "m s = (r1, s1)" "m' t = (r2, t1)" by fastforce
  with assms show ?thesis by (cases r1; cases r2) auto
qed

lemma matches_conj:
  assumes "matches R m m'" and "\<And>a s. m = (Inr a, s) \<Longrightarrow> P a s"
  shows "matches (\<lambda>a s b t. R a s b t \<and> P a s) m m'"
  using assms by (induction R m m' rule: matches.induct) auto

text \<open>
  The two destination buffers: equal below \<open>d\<close> and from \<open>e\<close> on; in between the block-copying decoder may
  have written bytes of its wide copies.
\<close>

definition agree :: "nat \<Rightarrow> nat \<Rightarrow> u8 list \<Rightarrow> u8 list \<Rightarrow> bool" where
  "agree e d x y \<longleftrightarrow> length x = length y \<and> take d x = take d y \<and> drop e x = drop e y"

lemma agree_done: "agree e d x y \<Longrightarrow> e \<le> d \<Longrightarrow> x = y"
proof -
  assume a: "agree e d x y" "e \<le> d"
  then have "drop (d - e) (drop e x) = drop (d - e) (drop e y)" by (simp add: agree_def)
  then have "take d x @ drop d x = take d y @ drop d y" using a by (simp add: agree_def)
  then show ?thesis by simp
qed

lemma agree_copy:
  assumes "agree e d x y" and "d + length run \<le> length y"
  shows "agree e (d + length run) (copy_at d run x) (copy_at d run y)"
proof -
  have len: "length x = length y" and fx: "d + length run \<le> length x" using assms by (auto simp: agree_def)
  note cx = copy_at_take_drop [OF fx] and cy = copy_at_take_drop [OF assms(2)]
  have "drop e (copy_at d run x) = drop e (copy_at d run y)"
  proof (cases "d + length run \<le> e")
    case True
    then show ?thesis using cx(3) cy(3) assms(1) by (simp add: agree_def)
  next
    case False
    then have "drop (d + length run - e) (drop e x) = drop (d + length run - e) (drop e y)"
      using assms(1) by (simp add: agree_def)
    then have "drop (d + length run) x = drop (d + length run) y" using False by simp
    then show ?thesis using assms(1) by (simp add: copy_at_def agree_def)
  qed
  then show ?thesis using cx cy len assms(1) by (simp add: agree_def)
qed

lemma agree_extend:
  assumes "agree e d x y" and "0 < dec" and "dec \<le> d" and "d + n \<le> length y"
  shows "agree e (d + n) (copy_match x (d - dec) d n) (copy_match y (d - dec) d n)"
proof -
  have len: "length x = length y" "take d x = take d y" "drop e x = drop e y" using assms by (auto simp: agree_def)
  define run where "run = drop d (lz_extend (take d y) dec n)"
  have "length run = n" using assms(3,4) by (simp add: run_def)
  have "take d (lz_extend (take d y) dec n) = take d y"
    using lz_extend_take [of d "take d y"] assms(4) by simp
  then have ext: "lz_extend (take d y) dec n = take d y @ run"
    by (metis append_take_drop_id run_def)
  have "copy_match x (d - dec) d n = copy_at d run x" "copy_match y (d - dec) d n = copy_at d run y"
    using copy_match_eq [of "d - dec" d n x] copy_match_eq [of "d - dec" d n y] assms(2-4) len ext \<open>length run = n\<close>
    by (simp_all add: copy_at_def)
  then show ?thesis using agree_copy [OF assms(1), of run] assms(4) \<open>length run = n\<close> by simp
qed

text \<open>An 8-byte step of a match at distance 8 or more.\<close>

lemma copy8:
  assumes "from + 8 \<le> d" and "d + j + 8 \<le> length x" and "\<And>k. k < j \<Longrightarrow> x ! (d + k) = x ! (from + k)"
  defines "x' \<equiv> copy_within x (from + j) (from + j + 8) (d + j)"
  shows "length x' = length x" "take (d + j) x' = take (d + j) x" "d + j + 8 \<le> e \<Longrightarrow> drop e x' = drop e x"
    "\<And>k. k < j + 8 \<Longrightarrow> x' ! (d + k) = x' ! (from + k)"
proof -
  define run where "run = take 8 (drop (from + j) x)"
  have run: "length run = 8" using assms(1,2) by (simp add: run_def)
  have x': "x' = copy_at (d + j) run x" by (simp add: x'_def copy_within_def run_def)
  have "d + j + length run \<le> length x" using assms(2) run by simp
  note c = copy_at_take_drop [OF this, folded x', unfolded run]
  show "length x' = length x" "take (d + j) x' = take (d + j) x" "d + j + 8 \<le> e \<Longrightarrow> drop e x' = drop e x"
    using c(1-3) by auto
  fix k assume k: "k < j + 8"
  show "x' ! (d + k) = x' ! (from + k)"
  proof (cases "k < j")
    case True
    then show ?thesis using c(5) [of "d + k"] c(5) [of "from + k"] assms(1,3) by simp
  next
    case False
    define i where "i = k - j"
    have i: "k = j + i" "i < 8" using False k by (auto simp: i_def)
    have "x' ! (d + k) = run ! i" using c(4) [OF i(2)] by (simp add: i(1) add.assoc)
    also have "\<dots> = x ! (from + k)" using i assms(1,2) by (simp add: run_def add.assoc)
    also have "\<dots> = x' ! (from + k)" using c(5) [of "from + k"] i assms(1) by simp
    finally show ?thesis .
  qed
qed

lemma extend_of_copies:
  assumes "8 \<le> dec" and "dec \<le> d" and "d + n \<le> length x'" and "take d x' = take d x"
    and "\<And>k. k < j \<Longrightarrow> x' ! (d + k) = x' ! (d - dec + k)" and "n \<le> j"
  shows "take (d + n) x' = lz_extend (take d x) dec n"
proof -
  have "lz_extend (take d x') dec n = take (d + n) x'"
  proof (rule lz_extend_unique)
    fix i assume i: "d \<le> i" "i < d + n"
    then have "x' ! (d + (i - d)) = x' ! (d - dec + (i - d))" using assms(6) by (intro assms(5)) auto
    moreover have "d - dec + (i - d) = i - dec" using i assms(2) by linarith
    ultimately show "x' ! i = x' ! (i - dec)" using i by simp
  qed (use assms in auto)
  then show ?thesis using assms(4) by simp
qed

lemma wide_match:
  assumes "agree e d x y" and "8 \<le> dec" and "dec \<le> d" and "d + 24 \<le> e" and "e \<le> length y" and "n \<le> 18"
  shows "agree e (d + n)
    (let x = copy_within x (d - dec) (d - dec + 8) d; x = copy_within x (d - dec + 8) (d - dec + 16) (d + 8)
     in if 16 < n then copy_within x (d - dec + 16) (d - dec + 24) (d + 16) else x)
    (copy_match y (d - dec) d n)"
proof -
  let ?f = "d - dec"
  define x1 where "x1 = copy_within x ?f (?f + 8) d"
  define x2 where "x2 = copy_within x1 (?f + 8) (?f + 16) (d + 8)"
  define x3 where "x3 = copy_within x2 (?f + 16) (?f + 24) (d + 16)"
  have len: "length x = length y" "take d x = take d y" "drop e x = drop e y" using assms(1) by (auto simp: agree_def)
  have f: "?f + 8 \<le> d" using assms(2,3) by simp
  have fit: "d + 24 \<le> length x" using len(1) assms(4,5) by simp
  have c1: "length x1 = length x" "take d x1 = take d x" "drop e x1 = drop e x" "\<And>k. k < 8 \<Longrightarrow> x1 ! (d + k) = x1 ! (?f + k)"
    using copy8 [OF f, of 0 x] fit assms(4) by (simp_all add: x1_def)
  have c2: "length x2 = length x1" "take (d + 8) x2 = take (d + 8) x1" "drop e x2 = drop e x1"
      "\<And>k. k < 16 \<Longrightarrow> x2 ! (d + k) = x2 ! (?f + k)"
    using copy8 [OF f, of 8 x1] fit assms(4) c1(1,4) by (simp_all add: x2_def add.commute [of 16])
  have c3: "length x3 = length x2" "take (d + 16) x3 = take (d + 16) x2" "drop e x3 = drop e x2"
      "\<And>k. k < 24 \<Longrightarrow> x3 ! (d + k) = x3 ! (?f + k)"
    using copy8 [OF f, of 16 x2] fit assms(4) c1(1) c2(1,4) by (simp_all add: x3_def add.commute [of 24])
  have t2: "take d x2 = take d x" using c2(2) c1(2) by (metis le_add1 min_absorb1 take_take)
  have t3: "take d x3 = take d x" using c3(2) t2 by (metis le_add1 min_absorb1 take_take)
  have y: "copy_match y ?f d n = lz_extend (take d y) dec n @ drop (d + n) y"
    using copy_match_eq [of ?f d n y] assms(2-6) by simp
  have dy: "drop e (copy_match y ?f d n) = drop e y" using y assms(4-6) by simp
  define x' where "x' = (if 16 < n then x3 else x2)"
  have "take (d + n) x' = lz_extend (take d x) dec n"
    using extend_of_copies [of dec d n x2 x 16] extend_of_copies [of dec d n x3 x 24] t2 t3 c1(1) c2(1,4) c3(1,4) assms(2,3,6) fit
    by (simp add: x'_def)
  then have "agree e (d + n) x' (copy_match y ?f d n)"
    using c1 c2 c3 len y dy assms(4,5,6) by (simp add: agree_def x'_def)
  then show ?thesis by (simp only: Let_def x'_def x1_def x2_def x3_def)
qed

subsection \<open>Step by step\<close>

text \<open>The reference decoder's cursor when the slice decoder has consumed \<open>s\<close> bytes.\<close>

abbreviation cursor_at_offset :: "slice_input \<Rightarrow> nat \<Rightarrow> slice_input" where
  "cursor_at_offset i s \<equiv> i\<lparr>pos := pos i + s\<rparr>"

lemma length_extension_sim:
  assumes "slice_ok i"
  shows "matches (\<lambda>v t (v', s') _. v = v' \<and> t = cursor_at_offset i s' \<and> s' \<le> length (as_slice i))
    (read_length_extension slice_impl len (cursor_at_offset i s)) (slice_length_extension (as_slice i) s len, u)"
proof (induction "as_slice i" s len rule: slice_length_extension.induct)
  case (1 s len)
  have pos: "pos i + s < length (sbuf i) \<longleftrightarrow> s < length (as_slice i)"
    using assms by (auto simp: as_slice_def slice_ok_def)
  show ?case
  proof (cases "s < length (as_slice i)")
    case True
    let ?b = "as_slice i ! s"
    have rb: "read_byte slice_impl (cursor_at_offset i s) = (Inr ?b, cursor_at_offset i (s + 1))"
      using True pos by (simp add: slice_impl_def slice_read_byte_def as_slice_def)
    show ?thesis
    proof (cases "checked_add len (unat ?b)")
      case None
      then show ?thesis using True rb by (subst read_length_extension.simps, subst slice_length_extension.simps) simp
    next
      case (Some nx)
      show ?thesis
      proof (cases "?b = 0xFF")
        case False
        then show ?thesis
          using True rb Some by (subst read_length_extension.simps, subst slice_length_extension.simps) simp
      next
        case eq: True
        have "matches (\<lambda>v t (v', s') _. v = v' \<and> t = cursor_at_offset i s' \<and> s' \<le> length (as_slice i))
            (read_length_extension slice_impl nx (cursor_at_offset i (s + 1)))
            (slice_length_extension (as_slice i) (s + 1) nx, u)"
          using "1.hyps" [OF True refl refl Some] eq by simp
        then show ?thesis
          using True rb Some eq by (subst read_length_extension.simps, subst slice_length_extension.simps) simp
      qed
    qed
  next
    case False
    then have "read_byte slice_impl (cursor_at_offset i s) = (Inl (eof (cursor_at_offset i s)), cursor_at_offset i s)"
      using pos by (simp add: slice_impl_def slice_read_byte_def)
    then show ?thesis
      using False by (subst read_length_extension.simps, subst slice_length_extension.simps) simp
  qed
qed

lemma slice_bytes_at:
  assumes "slice_ok i" and "s \<le> length (as_slice i)"
  shows "read_bytes slice_impl n (cursor_at_offset i s) =
    (if s + n \<le> length (as_slice i) then (Inr (take n (drop s (as_slice i))), cursor_at_offset i (s + n))
     else (Inl (eof (cursor_at_offset i s)), cursor_at_offset i s))"
proof -
  have "pos i + s + n \<le> length (sbuf i) \<longleftrightarrow> s + n \<le> length (as_slice i)"
    using assms by (auto simp: as_slice_def slice_ok_def)
  moreover have "length (sbuf i) \<le> usize_max" using assms(1) by (simp add: slice_ok_def)
  ultimately show ?thesis
    by (auto simp: slice_impl_def slice_read_bytes_def checked_add_def slice_get_def as_slice_def add.assoc add.commute [of s "pos i"])
qed

text \<open>The relation between the results of the two decoders.\<close>

definition in_step :: "slice_input \<Rightarrow> nat \<Rightarrow> nat \<Rightarrow> slice_input \<times> u8 list \<Rightarrow> nat \<times> nat \<Rightarrow> u8 list \<Rightarrow> bool" where
  "in_step i e d st sd x \<longleftrightarrow>
     snd sd = d \<and> fst st = cursor_at_offset i (fst sd) \<and> fst sd \<le> length (as_slice i) \<and> agree e d x (snd st)"

lemma run_sim:
  assumes "slice_ok i" and "agree e d x y" and "s \<le> length (as_slice i)" and "lit \<noteq> 0"
  shows "matches (in_step i e) (lz4_literals slice_impl d lit (cursor_at_offset i s, y))
    (case checked_add d lit of
       None \<Rightarrow> fail (Eof d) x
     | Some end \<Rightarrow>
         if length x < end then fail (Eof end) x
         else (case checked_add s lit of
                 None \<Rightarrow> fail (slice_eof p s) x
               | Some s_end \<Rightarrow>
                   (case slice_get (as_slice i) s s_end of
                      None \<Rightarrow> fail (slice_eof p s) x
                    | Some run \<Rightarrow> (Inr (s + lit, d + lit), copy_at d run x))))"
proof (cases "d + lit \<le> usize_max \<and> d + lit \<le> length y")
  case False
  then show ?thesis using assms(2,4) by (auto simp: lz4_literals_def checked_add_def agree_def)
next
  case True
  have max: "length (as_slice i) \<le> usize_max" using assms(1) by (auto simp: slice_ok_def as_slice_def)
  have len: "length x = length y" using assms(2) by (simp add: agree_def)
  show ?thesis
  proof (cases "s + lit \<le> length (as_slice i)")
    case fits: True
    let ?run = "take lit (drop s (as_slice i))"
    have run: "length ?run = lit" using fits by simp
    have "agree e (d + lit) (copy_at d ?run x) (copy_at d ?run y)"
      using agree_copy [OF assms(2), of ?run] True unfolding run by simp
    then show ?thesis
      using fits True assms(4) max len slice_bytes_at [OF assms(1,3), of lit]
      by (simp add: lz4_literals_def checked_add_def lift_in_def slice_get_def in_step_def)
  next
    case False
    then show ?thesis
      using True assms(4) max len slice_bytes_at [OF assms(1,3), of lit]
      by (auto simp: lz4_literals_def checked_add_def lift_in_def slice_get_def bnd_def)
  qed
qed

lemma slice_length_extension_ge: "slice_length_extension src s len = Inr (v, s') \<Longrightarrow> len \<le> v"
proof (induction src s len rule: slice_length_extension.induct)
  case (1 src s len)
  have *: "s < length src" using "1.prems" by (simp add: slice_length_extension.simps [of src s len] split: if_splits)
  obtain nx where nx: "checked_add len (unat (src ! s)) = Some nx" "len \<le> nx"
    using "1.prems" * by (auto simp: slice_length_extension.simps [of src s len] Let_def checked_add_def split: if_splits)
  show ?case
  proof (cases "src ! s = 0xFF")
    case True
    have "slice_length_extension src (s + 1) nx = Inr (v, s')"
      using "1.prems" * nx True by (simp add: slice_length_extension.simps [of src s len])
    then have "nx \<le> v" using "1.IH" [OF * refl refl nx(1)] True by simp
    then show ?thesis using nx(2) by simp
  next
    case False
    then show ?thesis using "1.prems" * nx by (simp add: slice_length_extension.simps [of src s len])
  qed
qed

lemma literals_sim:
  assumes "slice_ok i" and "agree e d x y" and "s \<le> length (as_slice i)" and "nib \<le> 0x0F"
    and "e \<le> length y" and "length y \<le> usize_max"
  shows "matches (in_step i e)
    (bnd (lz4_length slice_impl nib) (lz4_literals slice_impl d) (cursor_at_offset i s, y))
    (slice_literals (as_slice i) p e s d nib x)"
proof -
  consider (none) "nib = 0" | (wide) "nib \<noteq> 0" "nib < 0x0F" "s + 16 \<le> length (as_slice i)" "d + 16 \<le> e"
    | (ext) "nib = 0x0F" | (short) "nib \<noteq> 0" "nib < 0x0F" "\<not> (s + 16 \<le> length (as_slice i) \<and> d + 16 \<le> e)"
    using assms(4) by linarith
  then show ?thesis
  proof cases
    case none
    then show ?thesis
      using assms(2,3) by (simp add: lz4_length_def lz4_literals_def slice_literals_def in_step_def)
  next
    case short
    then show ?thesis
      using run_sim [OF assms(1-3) short(1), of p] by (auto simp: lz4_length_def slice_literals_def)
  next
    case ext
    let ?R = "\<lambda>v t (v', s') _. v = v' \<and> t = cursor_at_offset i s' \<and> s' \<le> length (as_slice i)"
    have m: "matches ?R (read_length_extension slice_impl 0x0F (cursor_at_offset i s)) (slice_length_extension (as_slice i) s 0x0F, ())"
      by (rule length_extension_sim [OF assms(1)])
    obtain r t where r: "read_length_extension slice_impl 0x0F (cursor_at_offset i s) = (r, t)" by fastforce
    show ?thesis
    proof (cases r)
      case (Inl err)
      with m r obtain err' where "slice_length_extension (as_slice i) s 0x0F = Inl err'"
        by (cases "slice_length_extension (as_slice i) s 0x0F") auto
      then show ?thesis using ext r Inl by (simp add: lz4_length_def slice_literals_def lift_in_def)
    next
      case (Inr v)
      with m r obtain s' where s': "slice_length_extension (as_slice i) s 0x0F = Inr (v, s')" "t = cursor_at_offset i s'"
          "s' \<le> length (as_slice i)"
        by (cases "slice_length_extension (as_slice i) s 0x0F") auto
      have "0x0F \<le> v" using slice_length_extension_ge [OF s'(1)] .
      then show ?thesis
        using run_sim [OF assms(1,2) s'(3), of v p] ext r Inr s'
        by (simp add: lz4_length_def slice_literals_def lift_in_def)
    qed
  next
    case wide
    let ?run = "take nib (drop s (as_slice i))" and ?block = "take 16 (drop s (as_slice i))"
    have run: "length ?run = nib" "length ?block = 16" using wide by auto
    have fx: "d + length ?block \<le> length x" and fy: "d + length ?run \<le> length y"
      using assms(2,5) wide run by (auto simp: agree_def)
    note cx = copy_at_take_drop [OF fx, unfolded run] and cy = copy_at_take_drop [OF fy, unfolded run]
    have "take (d + nib) (copy_at d ?block x) = take d x @ ?run"
      using wide fx run by (simp add: copy_at_def min_def)
    then have "agree e (d + nib) (copy_at d ?block x) (copy_at d ?run y)"
      using cx cy assms(2) wide by (simp add: agree_def)
    then show ?thesis
      using wide assms(1,3,5,6) slice_bytes_at [OF assms(1,3), of nib]
      by (simp add: lz4_length_def lz4_literals_def slice_literals_def in_step_def checked_add_def lift_in_def)
  qed
qed

definition in_step_flag ::
  "slice_input \<Rightarrow> nat \<Rightarrow> nat \<times> bool \<Rightarrow> slice_input \<times> u8 list \<Rightarrow> nat \<times> nat \<times> bool \<Rightarrow> u8 list \<Rightarrow> bool" where
  "in_step_flag i e = (\<lambda>(d, dn) st (s, d', dn') x. dn = dn' \<and> dn = (e \<le> d) \<and> in_step i e d st (s, d') x)"

lemma match_core:
  assumes "agree e d x y" and "s \<le> length (as_slice i)" and "0 < dec" and "dec \<le> d"
    and "e \<le> length y" and "length y \<le> usize_max" and "short \<Longrightarrow> v < 0x0F"
  shows "matches (in_step_flag i e) (lz4_match e d dec v (cursor_at_offset i s, y))
    (bnd (slice_copy_match e s d dec short v) (\<lambda>(s, d). ret (s, d, e \<le> d)) x)"
proof (cases "v + MIN_MATCH \<le> usize_max")
  case False
  then show ?thesis by (simp add: lz4_match_def slice_copy_match_def checked_add_def bnd_def)
next
  case True
  let ?n = "v + MIN_MATCH"
  have len: "length x = length y" using assms(1) by (simp add: agree_def)
  show ?thesis
  proof (cases "short \<and> 8 \<le> dec \<and> d + 24 \<le> e")
    case wide: True
    have n: "?n \<le> 18" using assms(7) wide by (simp add: MIN_MATCH_def)
    define f where "f = d - dec"
    note ag = wide_match [OF assms(1) _ assms(4) _ assms(5) n, folded f_def]
    have "d + ?n \<le> usize_max" "d + ?n \<le> length y" using n wide assms(5,6) by linarith+
    then show ?thesis
      using True wide ag assms(2,4) unfolding f_def [symmetric]
      by (auto simp: lz4_match_def slice_copy_match_def checked_add_def bnd_def in_step_flag_def in_step_def Let_def f_def [symmetric] split: if_splits)
  next
    case False
    then show ?thesis
      using True assms len agree_extend [OF assms(1,3,4), of ?n]
      by (auto simp: lz4_match_def slice_copy_match_def checked_add_def bnd_def in_step_flag_def in_step_def Let_def)
  qed
qed

lemma match_sim:
  assumes "slice_ok i" and "agree e d x y" and "s \<le> length (as_slice i)" and "nib \<le> 0x0F" and "0 < dec"
    and "e \<le> length y" and "length y \<le> usize_max"
  shows "matches (in_step_flag i e)
    (bnd (lz4_length slice_impl nib) (lz4_match e d dec) (cursor_at_offset i s, y))
    (if d < dec then fail (Corrupted Lz4BeforeStart) x
     else bnd (slice_match (as_slice i) e s d dec nib) (\<lambda>(s, d). ret (s, d, e \<le> d)) x)"
proof (cases "d < dec")
  case True
  have "\<exists>err. fst (lz4_match e d dec v st) = Inl err" for v and st :: "slice_input \<times> u8 list"
    using True by (auto simp: lz4_match_def checked_add_def split: prod.splits)
  then have "\<exists>err st. bnd (lz4_length slice_impl nib) (lz4_match e d dec) (cursor_at_offset i s, y) = (Inl err, st)"
    by (auto simp: bnd_def split: prod.splits sum.splits) (metis eq_fst_iff)
  then show ?thesis using True by auto
next
  case False
  then have dec: "dec \<le> d" by simp
  show ?thesis
  proof (cases "nib = 0x0F")
    case short: False
    then have "nib < 0x0F" using assms(4) by simp
    then show ?thesis
      using match_core [OF assms(2,3,5) dec assms(6,7), where short = True and v = nib] False short
      by (simp add: lz4_length_def slice_match_def)
  next
    case ext: True
    have m: "matches (\<lambda>v t (v', s') _. v = v' \<and> t = cursor_at_offset i s' \<and> s' \<le> length (as_slice i))
        (read_length_extension slice_impl 0x0F (cursor_at_offset i s)) (slice_length_extension (as_slice i) s 0x0F, ())"
      by (rule length_extension_sim [OF assms(1)])
    obtain r t where r: "read_length_extension slice_impl 0x0F (cursor_at_offset i s) = (r, t)" by fastforce
    show ?thesis
    proof (cases r)
      case (Inl err)
      with m r obtain err' where "slice_length_extension (as_slice i) s 0x0F = Inl err'"
        by (cases "slice_length_extension (as_slice i) s 0x0F") auto
      then show ?thesis using ext r Inl False by (simp add: lz4_length_def slice_match_def lift_in_def bnd_def)
    next
      case (Inr v)
      with m r obtain s' where s': "slice_length_extension (as_slice i) s 0x0F = Inr (v, s')" "t = cursor_at_offset i s'"
          "s' \<le> length (as_slice i)"
        by (cases "slice_length_extension (as_slice i) s 0x0F") auto
      then show ?thesis
        using match_core [OF assms(2) s'(3) assms(5) dec assms(6,7), where short = False and v = v] ext r Inr False
        by (simp add: lz4_length_def slice_match_def lift_in_def)
    qed
  qed
qed

lemma nibbles_small: "unat (drop_bit 4 (t :: u8)) \<le> 0x0F" "unat (t AND 0x0F) \<le> 0x0F"
proof -
  have "unat (drop_bit 4 t) = drop_bit 4 (unat t)" by (rule unat_drop_bit_eq)
  then have "unat (drop_bit 4 t) = unat t div 16" by (simp add: drop_bit_eq_div)
  then show "unat (drop_bit 4 t) \<le> 0x0F" using unat_less_256 [of t] by simp
  have "t AND 0x0F = take_bit 4 t" by (intro bit_word_eqI) (auto simp: bit_0f bit_take_bit_iff)
  then have "unat (t AND 0x0F) < 2 ^ 4" by (metis unsigned_take_bit_eq take_bit_nat_less_exp)
  then show "unat (t AND 0x0F) \<le> 0x0F" by simp
qed

lemma literals_length:
  assumes "bnd (lz4_length slice_impl nib) (lz4_literals slice_impl d) (t, y) = (Inr d', st)"
  shows "length (snd st) = length y"
proof -
  have *: "length (snd st) = length y'" if "lz4_literals slice_impl d n (t, y') = (Inr d', st)" for n t y'
    using that by (auto simp: lz4_literals_def bnd_def lift_in_def copy_at_def checked_add_def slice_impl_def
        slice_read_bytes_def slice_get_def split: if_splits option.splits prod.splits sum.splits)
  obtain n t' where "lz4_length slice_impl nib (t, y) = (Inr n, (t', y))" "lz4_literals slice_impl d n (t', y) = (Inr d', st)"
    using assms by (auto simp: bnd_eq_Inr_iff lz4_length_def lift_in_def split: if_splits prod.splits)
  then show ?thesis using * by blast
qed

lemma sequence_length:
  assumes "lz4_sequence slice_impl e d (t, y) = (Inr r, st)"
  shows "length (snd st) = length y"
proof -
  have m: "length (snd st') = length y'" if "lz4_match e d dec n (t, y') = (Inr r', st')" "0 < dec" for d dec n t y' r' st'
    using that copy_match_eq [of "d - dec" d "n + MIN_MATCH" y']
    by (auto simp: lz4_match_def checked_add_def split: if_splits)
  have l: "\<exists>t. st' = (t, y')" if "lz4_length slice_impl n (t, y') = (Inr r', st')" for n t y' r' st'
    using that by (auto simp: lz4_length_def lift_in_def split: if_splits prod.splits)
  obtain t1 tok where "lift_in (read_byte slice_impl) (t, y) = (Inr tok, (t1, y))"
    and rest: "bnd (bnd (lz4_length slice_impl (unat (drop_bit 4 tok))) (lz4_literals slice_impl d)) (\<lambda>d_off.
        if e \<le> d_off then ret (d_off, True)
        else bnd (lift_in (read_u16 slice_impl)) (\<lambda>match_dec.
          if match_dec = 0 then fail (Corrupted Lz4OffsetZero)
          else bnd (lz4_length slice_impl (unat (tok AND 0x0F))) (\<lambda>match_len.
            lz4_match e d_off (unat match_dec) match_len))) (t1, y) = (Inr r, st)"
    using assms unfolding lz4_sequence_def bnd_eq_Inr_iff [of "lift_in _"] bnd_assoc
    by (auto simp: lift_in_def split: prod.splits)
  obtain d1 t2 y2 where d1: "bnd (lz4_length slice_impl (unat (drop_bit 4 tok))) (lz4_literals slice_impl d) (t1, y) = (Inr d1, (t2, y2))"
    and more: "(if e \<le> d1 then ret (d1, True)
        else bnd (lift_in (read_u16 slice_impl)) (\<lambda>match_dec.
          if match_dec = 0 then fail (Corrupted Lz4OffsetZero)
          else bnd (lz4_length slice_impl (unat (tok AND 0x0F))) (\<lambda>match_len.
            lz4_match e d1 (unat match_dec) match_len))) (t2, y2) = (Inr r, st)"
    using rest unfolding bnd_eq_Inr_iff [of "bnd _ _"] by auto
  have "length y2 = length y" using literals_length [OF d1] by simp
  moreover have "length (snd st) = length y2"
  proof (cases "e \<le> d1")
    case False
    obtain dec t3 where dec: "lift_in (read_u16 slice_impl) (t2, y2) = (Inr dec, (t3, y2))" "dec \<noteq> 0"
      and *: "bnd (lz4_length slice_impl (unat (tok AND 0x0F))) (\<lambda>match_len. lz4_match e d1 (unat dec) match_len) (t3, y2) = (Inr r, st)"
      using more False by (auto simp: bnd_eq_Inr_iff [of "lift_in _"] lift_in_def split: prod.splits if_splits)
    obtain n st4 where "lz4_length slice_impl (unat (tok AND 0x0F)) (t3, y2) = (Inr n, st4)" "lz4_match e d1 (unat dec) n st4 = (Inr r, st)"
      using * unfolding bnd_eq_Inr_iff by blast
    then show ?thesis using l m [of d1 "unat dec" n] dec(2) by (metis unat_gt_0)
  qed (use more in auto)
  ultimately show ?thesis by simp
qed

lemma sequence_sim:
  assumes "slice_ok i" and "agree e d x y" and "s \<le> length (as_slice i)" and "e \<le> length y" and "length y \<le> usize_max"
  shows "matches (in_step_flag i e) (lz4_sequence slice_impl e d (cursor_at_offset i s, y))
    (slice_sequence (as_slice i) (pos i) e s d x)"
proof (cases "s < length (as_slice i)")
  case False
  then have "read_byte slice_impl (cursor_at_offset i s) = (Inl (eof (cursor_at_offset i s)), cursor_at_offset i s)"
    using assms(1) by (auto simp: slice_impl_def slice_read_byte_def as_slice_def slice_ok_def)
  then show ?thesis using False by (simp add: lz4_sequence_def slice_sequence_def lift_in_def)
next
  case True
  let ?src = "as_slice i"
  let ?t = "?src ! s"
  have pos: "pos i + s < length (sbuf i)" using True by (simp add: as_slice_def)
  have rb: "read_byte slice_impl (cursor_at_offset i s) = (Inr ?t, cursor_at_offset i (s + 1))"
    using True pos by (simp add: slice_impl_def slice_read_byte_def as_slice_def)
  have rest: "matches (in_step_flag i e)
      ((if e \<le> d' then ret (d', True)
        else bnd (lift_in (read_u16 slice_impl)) (\<lambda>match_dec.
          if match_dec = 0 then fail (Corrupted Lz4OffsetZero)
          else bnd (lz4_length slice_impl (unat (?t AND 0x0F))) (\<lambda>match_len.
            lz4_match e d' (unat match_dec) match_len))) (t, y'))
      ((if e \<le> d'' then ret (s', d'', True)
        else case slice_get ?src s' (s' + 2) of
               None \<Rightarrow> fail (slice_eof (pos i) s')
             | Some dec_bytes \<Rightarrow>
                 (let dec = unat (from_le_bytes dec_bytes :: u16); s = s' + 2 in
                  if dec = 0 then fail (Corrupted Lz4OffsetZero)
                  else if d'' < dec then fail (Corrupted Lz4BeforeStart)
                  else bnd (slice_match ?src e s d'' dec (unat (?t AND 0x0F))) (\<lambda>(s, d). ret (s, d, e \<le> d)))) x')"
    if st: "in_step i e d' (t, y') (s', d'') x'" and ly: "length y' = length y" for d' t y' s' d'' x'
  proof -
    have d: "d'' = d'" "t = cursor_at_offset i s'" "s' \<le> length ?src" "agree e d' x' y'"
      using st by (auto simp: in_step_def)
    show ?thesis
    proof (cases "e \<le> d'")
      case True
      then show ?thesis using st d(1) by (simp add: in_step_flag_def)
    next
      case False
      show ?thesis
      proof (cases "s' + 2 \<le> length ?src")
        case fits: True
        let ?dec = "from_le_bytes (take 2 (drop s' ?src)) :: u16"
        have u16: "lift_in (read_u16 slice_impl) (t, y') = (Inr ?dec, (cursor_at_offset i (s' + 2), y'))"
          using slice_bytes_at [OF assms(1) d(3), of 2] fits d(2) by (simp add: lift_in_def read_u16_def del: add_2_eq_Suc')
        show ?thesis
        proof (cases "?dec = 0")
          case True
          then show ?thesis using False fits u16 d(1) by (simp add: slice_get_def)
        next
          case nz: False
          then have "0 < unat ?dec" by (simp add: unat_gt_0)
          from match_sim [OF assms(1) d(4) fits nibbles_small(2) [of ?t] this] show ?thesis
            using False fits u16 nz d(1) assms(4,5) ly by (auto simp: slice_get_def Let_def unat_eq_zero simp del: add_2_eq_Suc' split: if_splits)
        qed
      next
        case short: False
        then have "\<exists>e st. lift_in (read_u16 slice_impl) (t, y') = (Inl e, st)"
          using slice_bytes_at [OF assms(1) d(3), of 2] d(2) by (auto simp: lift_in_def read_u16_def)
        then show ?thesis using False short d(1) by (auto simp: slice_get_def)
      qed
    qed
  qed
  have lits: "matches (\<lambda>d st sd x. in_step i e d st sd x \<and> length (snd st) = length y)
      (bnd (lz4_length slice_impl (unat (drop_bit 4 ?t))) (lz4_literals slice_impl d) (cursor_at_offset i (s + 1), y))
      (slice_literals ?src (pos i) e (s + 1) d (unat (drop_bit 4 ?t)) x)"
  proof -
    have "matches (in_step i e)
        (bnd (lz4_length slice_impl (unat (drop_bit 4 ?t))) (lz4_literals slice_impl d) (cursor_at_offset i (s + 1), y))
        (slice_literals ?src (pos i) e (s + 1) d (unat (drop_bit 4 ?t)) x)"
      using True by (intro literals_sim assms nibbles_small) simp
    then show ?thesis by (rule matches_conj) (rule literals_length)
  qed
  have "matches (in_step_flag i e)
      (bnd (bnd (lz4_length slice_impl (unat (drop_bit 4 ?t))) (lz4_literals slice_impl d)) (\<lambda>d_off.
        if e \<le> d_off then ret (d_off, True)
        else bnd (lift_in (read_u16 slice_impl)) (\<lambda>match_dec.
          if match_dec = 0 then fail (Corrupted Lz4OffsetZero)
          else bnd (lz4_length slice_impl (unat (?t AND 0x0F))) (\<lambda>match_len.
            lz4_match e d_off (unat match_dec) match_len))) (cursor_at_offset i (s + 1), y))
      (slice_sequence ?src (pos i) e s d x)"
  proof -
    let ?g = "\<lambda>(s', d''). if e \<le> d'' then ret (s', d'', True)
        else case slice_get ?src s' (s' + 2) of
               None \<Rightarrow> fail (slice_eof (pos i) s')
             | Some dec_bytes \<Rightarrow>
                 (let dec = unat (from_le_bytes dec_bytes :: u16); s = s' + 2 in
                  if dec = 0 then fail (Corrupted Lz4OffsetZero)
                  else if d'' < dec then fail (Corrupted Lz4BeforeStart)
                  else bnd (slice_match ?src e s d'' dec (unat (?t AND 0x0F))) (\<lambda>(s, d). ret (s, d, e \<le> d)))"
    have sl: "slice_sequence ?src (pos i) e s d x = bnd (slice_literals ?src (pos i) e (s + 1) d (unat (drop_bit 4 ?t))) ?g x"
      using True unfolding slice_sequence_def by (simp add: Let_def)
    show ?thesis
      unfolding sl
    proof (rule matches_bnd, rule lits)
      fix a st b x' assume st: "in_step i e a st b x' \<and> length (snd st) = length y"
      obtain t y' s' d'' where "st = (t, y')" "b = (s', d'')" by (metis surj_pair)
      with st rest [of a t y' s' d'' x'] show "matches (in_step_flag i e)
          ((if e \<le> a then ret (a, True)
            else bnd (lift_in (read_u16 slice_impl)) (\<lambda>match_dec.
              if match_dec = 0 then fail (Corrupted Lz4OffsetZero)
              else bnd (lz4_length slice_impl (unat (?t AND 0x0F))) (\<lambda>match_len.
                lz4_match e a (unat match_dec) match_len))) st) (?g b x')"
        by (simp only: prod.case snd_conv)
    qed
  qed
  then show ?thesis
    using rb unfolding bnd_assoc by (simp add: lz4_sequence_def lift_in_def)
qed

lemma loop_sim:
  assumes "slice_ok i" and "agree e d x y" and "s \<le> length (as_slice i)" and "e \<le> length y" and "length y \<le> usize_max"
  shows "matches (\<lambda>d st sd x. in_step i e d st sd x \<and> e \<le> d) (decompress_loop slice_impl e d (cursor_at_offset i s, y))
    (slice_loop (as_slice i) (pos i) e s d x)"
  using assms(2-5)
proof (induction "e - d" arbitrary: d x y s rule: less_induct)
  case less
  show ?case
    unfolding decompress_loop.simps [of _ _ _ "(cursor_at_offset i s, y)"] slice_loop.simps [of _ _ _ _ _ x]
  proof (rule matches_bnd [where R = "\<lambda>a st b x'. in_step_flag i e a st b x' \<and> (\<not> snd a \<longrightarrow> d < fst a) \<and> length (snd st) = length y"])
    show "matches (\<lambda>a st b x'. in_step_flag i e a st b x' \<and> (\<not> snd a \<longrightarrow> d < fst a) \<and> length (snd st) = length y)
       (lz4_sequence slice_impl e d (cursor_at_offset i s, y)) (slice_sequence (as_slice i) (pos i) e s d x)"
      using less.prems lz4_sequence_advances [of slice_impl e d "(cursor_at_offset i s, y)"] sequence_length [of e d "cursor_at_offset i s" y]
      by (intro matches_conj sequence_sim assms(1)) auto
  next
    fix a st b x'
    assume r: "in_step_flag i e a st b x' \<and> (\<not> snd a \<longrightarrow> d < fst a) \<and> length (snd st) = length y"
    obtain d' dn s' d'' dn' t y' where ab: "a = (d', dn)" "b = (s', d'', dn')" "st = (t, y')" by (metis prod_cases3 surj_pair)
    then have eqs: "dn' = dn" "dn = (e \<le> d')" "d'' = d'" "t = cursor_at_offset i s'" "s' \<le> length (as_slice i)" "agree e d' x' y'"
      using r by (auto simp: in_step_flag_def in_step_def)
    show "matches (\<lambda>d st sd x. in_step i e d st sd x \<and> e \<le> d)
        ((case a of (d_off, dn) \<Rightarrow> if dn then ret d_off else decompress_loop slice_impl e d_off) st)
        ((case b of (s, d, dn) \<Rightarrow> if dn then ret (s, d) else slice_loop (as_slice i) (pos i) e s d) x')"
    proof (cases dn)
      case True
      then show ?thesis using ab eqs by (simp add: in_step_def)
    next
      case False
      then have "matches (\<lambda>d st sd x. in_step i e d st sd x \<and> e \<le> d)
          (decompress_loop slice_impl e d' (cursor_at_offset i s', y')) (slice_loop (as_slice i) (pos i) e s' d' x')"
        using r ab eqs less.prems by (intro less.hyps) auto
      then show ?thesis using False ab eqs by simp
    qed
  qed
qed

section \<open>No block writes outside its destination\<close>

definition triple :: "('s \<Rightarrow> bool) \<Rightarrow> ('s, 'a) stateful \<Rightarrow> ('a \<Rightarrow> 's \<Rightarrow> bool) \<Rightarrow> ('s \<Rightarrow> bool) \<Rightarrow> bool" where
  "triple P m Q E \<longleftrightarrow> (\<forall>s. P s \<longrightarrow> (case m s of (Inl _, s') \<Rightarrow> E s' | (Inr a, s') \<Rightarrow> Q a s'))"

lemma triple_bnd:
  assumes "triple P m R E" and "\<And>a. triple (R a) (f a) Q E"
  shows "triple P (bnd m f) Q E"
  unfolding triple_def
proof (intro allI impI)
  fix s assume "P s"
  obtain r s1 where m: "m s = (r, s1)" by fastforce
  show "case bnd m f s of (Inl _, s') \<Rightarrow> E s' | (Inr a, s') \<Rightarrow> Q a s'"
  proof (cases r)
    case (Inl e)
    then show ?thesis using assms(1) \<open>P s\<close> m by (auto simp: triple_def)
  next
    case (Inr a)
    then have "R a s1" using assms(1) \<open>P s\<close> m by (auto simp: triple_def)
    then show ?thesis using assms(2) [of a] Inr m by (auto simp: triple_def)
  qed
qed

lemma triple_mono: "triple P m Q E \<Longrightarrow> (\<And>a s. Q a s \<Longrightarrow> Q' a s) \<Longrightarrow> triple P m Q' E"
  by (fastforce simp: triple_def split: prod.splits sum.splits)

lemma triple_ret: "(\<And>s. P s \<Longrightarrow> Q a s) \<Longrightarrow> triple P (ret a) Q E" and triple_fail: "(\<And>s. P s \<Longrightarrow> E s) \<Longrightarrow> triple P (fail e) Q E"
  by (auto simp: triple_def)

text \<open>The buffer differs from the original at most between \<open>d0\<close> and the write position \<open>d\<close>.\<close>

definition written_to :: "nat \<Rightarrow> u8 list \<Rightarrow> nat \<Rightarrow> 's \<times> u8 list \<Rightarrow> bool" where
  "written_to d0 y d st \<longleftrightarrow> length (snd st) = length y \<and> take d0 (snd st) = take d0 y \<and> d0 \<le> d \<and> d \<le> length y \<and>
     drop d (snd st) = drop d y"

definition inside :: "nat \<Rightarrow> u8 list \<Rightarrow> 's \<times> u8 list \<Rightarrow> bool" where
  "inside d0 y st \<longleftrightarrow> length (snd st) = length y \<and> take d0 (snd st) = take d0 y"

lemma written_inside: "written_to d0 y d st \<Longrightarrow> inside d0 y st"
  by (simp add: written_to_def inside_def)

lemma written_copy:
  assumes "written_to d0 y d (s, x)" and "d + length run \<le> length y"
  shows "written_to d0 y (d + length run) (s', copy_at d run x)"
proof -
  have fit: "d + length run \<le> length x" using assms by (simp add: written_to_def)
  have "drop (length run) (drop d x) = drop (length run) (drop d y)" using assms(1) by (simp add: written_to_def)
  then show ?thesis
    using assms copy_at_take_drop [OF fit] by (auto simp: written_to_def add.commute)
qed

lemma triple_lift: "triple (written_to d0 y d) (lift_in P) (\<lambda>_. written_to d0 y d) (inside d0 y)"
  by (auto simp: triple_def lift_in_def written_to_def inside_def split: prod.splits sum.splits)

lemma triple_length: "triple (written_to d0 y d) (lz4_length D n) (\<lambda>_. written_to d0 y d) (inside d0 y)"
  unfolding lz4_length_def by (cases "n = 0x0F") (simp_all add: triple_lift triple_ret)

lemma triple_literals: "triple (written_to d0 y d) (lz4_literals slice_impl d n) (written_to d0 y) (inside d0 y)"
  unfolding triple_def
proof (intro allI impI)
  fix st :: "slice_input \<times> u8 list" assume st: "written_to d0 y d st"
  obtain t x where x: "st = (t, x)" by fastforce
  note wr = written_copy [OF st [unfolded x]]
  have "length run = n" if "slice_read_bytes n t = (Inr run, t')" for run t'
    using that by (auto simp: slice_read_bytes_def checked_add_def dest: length_slice_get split: option.splits if_splits)
  then show "case lz4_literals slice_impl d n st of (Inl _, s') \<Rightarrow> inside d0 y s' | (Inr a, s') \<Rightarrow> written_to d0 y a s'"
    using st wr written_inside [OF st]
    by (auto simp: x lz4_literals_def checked_add_def lift_in_def slice_impl_def bnd_def written_to_def inside_def
        split: option.splits prod.splits sum.splits if_splits)
qed

lemma triple_match:
  assumes "0 < dec"
  shows "triple (written_to d0 y d) (lz4_match e d dec n) (\<lambda>(d', dn) st. written_to d0 y d' st \<and> (dn \<longleftrightarrow> e \<le> d')) (inside d0 y)"
  unfolding triple_def
proof (intro allI impI)
  fix st :: "'a \<times> u8 list" assume st: "written_to d0 y d st"
  obtain t x where x: "st = (t, x)" by fastforce
  have "written_to d0 y (d + (n + MIN_MATCH)) (t, copy_match x (d - dec) d (n + MIN_MATCH))"
    if "dec \<le> d" "d + (n + MIN_MATCH) \<le> length x"
  proof -
    let ?run = "drop d (lz_extend (take d x) dec (n + MIN_MATCH))"
    have len: "length x = length y" "length ?run = n + MIN_MATCH" using st that by (auto simp: x written_to_def)
    have "take d (lz_extend (take d x) dec (n + MIN_MATCH)) = take d x"
      using that lz_extend_take [of d "take d x"] by simp
    then have "lz_extend (take d x) dec (n + MIN_MATCH) = take d x @ ?run" by (metis append_take_drop_id)
    then have "copy_match x (d - dec) d (n + MIN_MATCH) = copy_at d ?run x"
      using copy_match_eq [of "d - dec" d "n + MIN_MATCH" x] that assms len(2) by (simp add: copy_at_def)
    then show ?thesis using written_copy [OF st [unfolded x], of ?run] len that by simp
  qed
  then show "case lz4_match e d dec n st of (Inl _, s') \<Rightarrow> inside d0 y s'
      | (Inr a, s') \<Rightarrow> (case a of (d', dn) \<Rightarrow> \<lambda>st. written_to d0 y d' st \<and> (dn \<longleftrightarrow> e \<le> d')) s'"
    using written_inside [OF st] by (auto simp: x lz4_match_def checked_add_def add.assoc split: option.splits if_splits)
qed

lemma triple_sequence:
  "triple (written_to d0 y d) (lz4_sequence slice_impl e d) (\<lambda>(d', dn) st. written_to d0 y d' st \<and> (dn \<longrightarrow> e \<le> d')) (inside d0 y)"
proof -
  have rest: "triple (written_to d0 y d')
      (if e \<le> d' then ret (d', True)
       else bnd (lift_in (read_u16 slice_impl)) (\<lambda>match_dec.
         if match_dec = 0 then fail (Corrupted Lz4OffsetZero)
         else bnd (lz4_length slice_impl m) (\<lambda>match_len. lz4_match e d' (unat match_dec) match_len)))
      (\<lambda>(d', dn) st. written_to d0 y d' st \<and> (dn \<longrightarrow> e \<le> d')) (inside d0 y)" for d' m
  proof (cases "e \<le> d'")
    case False
    have "triple (written_to d0 y d')
       (if dec = 0 then fail (Corrupted Lz4OffsetZero)
        else bnd (lz4_length slice_impl m) (\<lambda>match_len. lz4_match e d' (unat dec) match_len))
       (\<lambda>(d', dn) st. written_to d0 y d' st \<and> (dn \<longrightarrow> e \<le> d')) (inside d0 y)" for dec :: u16
    proof (cases "dec = 0")
      case False
      then have "triple (written_to d0 y d') (lz4_match e d' (unat dec) n)
          (\<lambda>(d', dn) st. written_to d0 y d' st \<and> (dn \<longrightarrow> e \<le> d')) (inside d0 y)" for n
        by (intro triple_mono [OF triple_match]) (auto simp: unat_gt_0)
      with False show ?thesis by (auto intro!: triple_bnd [OF triple_length])
    qed (simp add: triple_fail written_inside)
    with False show ?thesis by (simp add: triple_bnd [OF triple_lift])
  qed (simp add: triple_ret)
  show ?thesis
    unfolding lz4_sequence_def
    by (intro triple_bnd [OF triple_lift] triple_bnd [OF triple_length] triple_bnd [OF triple_literals] rest)
qed

lemma loop_safe:
  "written_to d0 y d st \<Longrightarrow>
   (case decompress_loop slice_impl e d st of
      (Inl _, st') \<Rightarrow> inside d0 y st' | (Inr d', st') \<Rightarrow> written_to d0 y d' st' \<and> e \<le> d')"
proof (induction "e - d" arbitrary: d st rule: less_induct)
  case less
  obtain r st1 where r: "lz4_sequence slice_impl e d st = (r, st1)" by (metis surj_pair)
  have sq: "case (r, st1) of (Inl _, s') \<Rightarrow> inside d0 y s'
      | (Inr a, s') \<Rightarrow> (case a of (d', dn) \<Rightarrow> \<lambda>st. written_to d0 y d' st \<and> (dn \<longrightarrow> e \<le> d')) s'"
    using triple_sequence [of d0 y d e, unfolded triple_def, rule_format, OF less.prems] unfolding r .
  show ?case
  proof (cases r)
    case (Inl err)
    then show ?thesis using r sq by (subst decompress_loop.simps) simp
  next
    case (Inr a)
    obtain d' dn where a: "a = (d', dn)" by fastforce
    show ?thesis
    proof (cases dn)
      case True
      then show ?thesis using r sq Inr a by (subst decompress_loop.simps) simp
    next
      case False
      then have "d < d' \<and> d' < e" using r Inr a by (intro lz4_sequence_advances [of slice_impl e d st d' st1]) simp
      then have "case decompress_loop slice_impl e d' st1 of
          (Inl _, st') \<Rightarrow> inside d0 y st' | (Inr d', st') \<Rightarrow> written_to d0 y d' st' \<and> e \<le> d'"
        using sq Inr a False by (intro less.hyps) auto
      then show ?thesis using r Inr a False by (subst decompress_loop.simps) simp
    qed
  qed
qed

section \<open>Properties\<close>

text \<open>
  C5: The block-copying decoder is the reference decoder. Whatever bytes the cursor holds,
  \<open>decompress_slice\<close> succeeds exactly when \<open>decompress\<close> does, with the same write position, the same
  destination buffer byte for byte (its 16- and 8-byte copies leave no trace) and the same cursor.
\<close>
theorem decompress_slice_is_decompress:
  assumes "slice_ok input" and "length dest \<le> usize_max"
  shows "decompress_slice n d_off (input, dest) = (Inr d, st) \<longleftrightarrow> decompress slice_impl n d_off (input, dest) = (Inr d, st)"
proof (cases "d_off + n \<le> usize_max \<and> d_off + n \<le> length dest")
  case False
  then show ?thesis using assms(2) by (auto simp: decompress_slice_def decompress_def checked_add_def)
next
  case True
  have m: "matches (\<lambda>d st sd x. in_step input (d_off + n) d st sd x \<and> d_off + n \<le> d)
      (decompress_loop slice_impl (d_off + n) d_off (input, dest)) (slice_loop (as_slice input) (pos input) (d_off + n) 0 d_off dest)"
    using loop_sim [OF assms(1), of "d_off + n" d_off dest dest 0] True assms(2) by (simp add: agree_def)
  obtain r1 st1 r2 x where r: "decompress_loop slice_impl (d_off + n) d_off (input, dest) = (r1, st1)"
      "slice_loop (as_slice input) (pos input) (d_off + n) 0 d_off dest = (r2, x)" by (metis surj_pair)
  show ?thesis
  proof (cases r1)
    case (Inl e)
    with m r obtain e' where "r2 = Inl e'" by (cases r2) auto
    then show ?thesis using True r Inl by (auto simp: decompress_slice_def decompress_def checked_add_def)
  next
    case (Inr d')
    with m r obtain s where s: "r2 = Inr (s, d')" "in_step input (d_off + n) d' st1 (s, d') x" "d_off + n \<le> d'"
      by (cases r2) (auto simp: in_step_def)
    obtain t y where t: "st1 = (t, y)" by fastforce
    with s have "t = cursor_at_offset input s" "s \<le> length (as_slice input)" "x = y"
      using agree_done by (auto simp: in_step_def)
    then show ?thesis
      using True r Inr s t
      by (auto simp: decompress_slice_def decompress_def checked_add_def lift_in_def slice_skip_def slice_remaining_def as_slice_def bnd_def)
  qed
qed

theorem decompress_slice_is_decompress_witness:
  "decompress slice_impl 2 0 (slice_new [0x20, 65, 66], [0, 0]) = (Inr 2, (slice_new [0x20, 65, 66])\<lparr>pos := 3\<rparr>, [65, 66])
   \<longleftrightarrow> decompress_slice 2 0 (slice_new [0x20, 65, 66], [0, 0]) = (Inr 2, (slice_new [0x20, 65, 66])\<lparr>pos := 3\<rparr>, [65, 66])"
  using decompress_slice_is_decompress [of "slice_new [0x20, 65, 66]" "[0, 0]" 2 0]
  by (simp add: slice_ok_def slice_new_def usize_max_def)

text \<open>
  C10: No input, however corrupt, makes the decoder write outside its destination. The buffer keeps its
  length and everything before \<open>d_off\<close> (the preset dictionary), also when decoding fails; when it succeeds
  the write position lies between \<open>d_off + decompressed_len\<close> and the end of the buffer and nothing past it
  was touched.
\<close>
theorem decompress_stays_inside:
  assumes "decompress slice_impl n d_off (input, dest) = (r, (input', dest'))" and "d_off \<le> length dest"
  shows "length dest' = length dest \<and> take d_off dest' = take d_off dest \<and>
    (\<forall>d. r = Inr d \<longrightarrow> d_off + n \<le> d \<and> d \<le> length dest \<and> drop d dest' = drop d dest)"
proof (cases "d_off + n \<le> usize_max \<and> d_off + n \<le> length dest")
  case False
  then show ?thesis using assms by (auto simp: decompress_def checked_add_def split: if_splits)
next
  case True
  have "written_to d_off dest d_off (input, dest)" using assms(2) by (simp add: written_to_def)
  from loop_safe [OF this, of "d_off + n"] show ?thesis
    using True assms(1) by (cases r) (auto simp: decompress_def checked_add_def written_to_def inside_def)
qed

theorem decompress_stays_inside_witness:
  "length (snd (snd (decompress slice_impl 8 1 (slice_new [0x11, 65, 9, 0, 3], replicate 10 7)))) = 10"
  using decompress_stays_inside [of 8 1 "slice_new [0x11, 65, 9, 0, 3]" "replicate 10 7"
      "fst (decompress slice_impl 8 1 (slice_new [0x11, 65, 9, 0, 3], replicate 10 7))"
      "fst (snd (decompress slice_impl 8 1 (slice_new [0x11, 65, 9, 0, 3], replicate 10 7)))"
      "snd (snd (decompress slice_impl 8 1 (slice_new [0x11, 65, 9, 0, 3], replicate 10 7)))"]
  by simp

end
