(* ===== verification/Lz4_Compress.thy ===== *)
theory Lz4_Compress
  imports Lz4_Decompress "HOL-Library.Monad_Syntax"
begin

text \<open>
  The encoder half of \<open>lz4.rs\<close>. The trait \<open>HashTable\<close> is the record \<open>hash_table\<close> of its four methods;
  \<open>fast_impl\<close> and \<open>hc_impl\<close> are its two implementations, over the records \<open>fast_table\<close> and
  \<open>hc_table\<close> with the tables as lists of words. A result \<open>None\<close> is a panic (an index or a range outside a
  slice, a subtraction below zero, or a failed \<open>debug_assert!\<close>, all of which are written out as tests) or a search for a
  better match that has not ended within its fuel, so a \<open>Some\<close> says that none of these happens. The fuel is the offset of the first candidate plus one: candidates strictly decrease.

  Words are read with \<open>from_ne_bytes\<close> for hashing and comparing only; the model reads them little-endian.
  The locale \<open>match_finder\<close> states what the compressor needs from a table (\<open>get\<close> and \<open>previous\<close> return
  earlier positions of the same four bytes, inside the window, and never panic); it is interpreted on
  both tables.
\<close>

unbundle bit_operations_syntax

section \<open>Constants and helpers\<close>

definition LAST_LITERALS :: nat where
  "LAST_LITERALS = 5"

definition MAX_DISTANCE :: nat where
  "MAX_DISTANCE = 65536"

definition MEMORY_USAGE :: nat where
  "MEMORY_USAGE = 14"

definition HASH_LOG_HC :: nat where
  "HASH_LOG_HC = 15"

definition HASH_TABLE_SIZE_HC :: nat where
  "HASH_TABLE_SIZE_HC = 32768"

definition MAX_ATTEMPTS :: nat where
  "MAX_ATTEMPTS = 256"

text \<open>\<open>x & HC_MASK\<close> for the mask \<open>MAX_DISTANCE - 1\<close>, a run of ones.\<close>

definition hc_slot :: "nat \<Rightarrow> nat" where
  "hc_slot x = x mod MAX_DISTANCE"

definition read4 :: "u8 list \<Rightarrow> nat \<Rightarrow> u32 option" where
  "read4 b i = map_option from_le_bytes (slice_get b i (i + 4))"

definition lz4_hash :: "u32 \<Rightarrow> nat \<Rightarrow> nat" where
  "lz4_hash v hash_bits = unat (drop_bit (32 - hash_bits) (v * 0x9E3779B1))"

text \<open>Checked element access and update.\<close>

definition list_get :: "'a list \<Rightarrow> nat \<Rightarrow> 'a option" where
  "list_get xs i = (if i < length xs then Some (xs ! i) else None)"

definition list_set :: "'a list \<Rightarrow> nat \<Rightarrow> 'a \<Rightarrow> 'a list option" where
  "list_set xs i v = (if i < length xs then Some (xs[i := v]) else None)"

function common_words :: "u8 list \<Rightarrow> nat \<Rightarrow> nat \<Rightarrow> nat \<Rightarrow> nat \<Rightarrow> (nat \<times> bool) option" where
  "common_words b o1 o2 most n =
     (if n + 8 \<le> most then do {
        x \<leftarrow> slice_get b (o1 + n) (o1 + n + 8);
        y \<leftarrow> slice_get b (o2 + n) (o2 + n + 8);
        let x = (from_le_bytes x :: u64);
        let y = from_le_bytes y;
        if x \<noteq> y then Some (n + trailing_zeros (x XOR y) div 8, True)
        else common_words b o1 o2 most (n + 8)
      }
      else Some (n, False))"
  by pat_completeness auto
termination by (relation "measure (\<lambda>(b, o1, o2, most, n). most - n)") auto

declare common_words.simps [simp del]

function common_tail :: "u8 list \<Rightarrow> nat \<Rightarrow> nat \<Rightarrow> nat \<Rightarrow> nat \<Rightarrow> nat option" where
  "common_tail b o1 o2 most n =
     (if n < most then do {
        x \<leftarrow> list_get b (o1 + n);
        y \<leftarrow> list_get b (o2 + n);
        if x = y then common_tail b o1 o2 most (n + 1) else Some n
      }
      else Some n)"
  by pat_completeness auto
termination by (relation "measure (\<lambda>(b, o1, o2, most, n). most - n)") auto

declare common_tail.simps [simp del]

definition common_bytes :: "u8 list \<Rightarrow> nat \<Rightarrow> nat \<Rightarrow> nat \<Rightarrow> nat option" where
  "common_bytes b o1 o2 limit =
     (if limit < o1 \<or> limit < o2 then None
      else do {
        let most = min (limit - o1) (limit - o2);
        (n, stop) \<leftarrow> common_words b o1 o2 most 0;
        if stop then Some n else common_tail b o1 o2 most n
      })"

section \<open>Encoding\<close>

function encode_len :: "nat \<Rightarrow> u8 list \<Rightarrow> u8 list" where
  "encode_len l out = (if 0xFF \<le> l then encode_len (l - 0xFF) (out @ [0xFF]) else out @ [of_nat l])"
  by pat_completeness auto
termination by (relation "measure fst") auto

declare encode_len.simps [simp del]

definition encode_literals :: "u8 list \<Rightarrow> u8 \<Rightarrow> nat \<Rightarrow> nat \<Rightarrow> u8 list \<Rightarrow> u8 list option" where
  "encode_literals b token anchor literal_len out =
     (let out = out @ [token];
          out = (if 0x0F \<le> literal_len then encode_len (literal_len - 0x0F) out else out)
      in map_option (\<lambda>lits. out @ lits) (slice_get b anchor (anchor + literal_len)))"

definition encode_last_literals :: "u8 list \<Rightarrow> nat \<Rightarrow> nat \<Rightarrow> u8 list \<Rightarrow> u8 list option" where
  "encode_last_literals b anchor literal_len out =
     encode_literals b (push_bit 4 (of_nat (min literal_len 0x0F))) anchor literal_len out"

definition encode_sequence :: "u8 list \<Rightarrow> nat \<Rightarrow> nat \<Rightarrow> nat \<Rightarrow> nat \<Rightarrow> u8 list \<Rightarrow> u8 list option" where
  "encode_sequence b anchor match_ref match_off match_len out =
     (if match_off < anchor \<or> match_len < MIN_MATCH then None
      else do {
        let literal_len = match_off - anchor;
        let token = push_bit 4 (of_nat (min literal_len 0x0F)) OR of_nat (min (match_len - MIN_MATCH) 0x0F);
        out \<leftarrow> encode_literals b token anchor literal_len out;
        if match_off < match_ref then None
        else do {
          let match_dec = match_off - match_ref;
          if 0 < match_dec \<and> match_dec < 65536 then do {
            let out = out @ to_le_bytes 2 (of_nat match_dec :: u16);
            Some (if MIN_MATCH + 0x0F \<le> match_len then encode_len (match_len - 0x0F - MIN_MATCH) out else out)
          }
          else None
        }
      })"

section \<open>Hash tables\<close>

record 't hash_table =
  ht_reset :: "'t \<Rightarrow> u8 list \<Rightarrow> nat \<Rightarrow> nat \<Rightarrow> 't"
  ht_init_dictionary :: "'t \<Rightarrow> u8 list \<Rightarrow> nat \<Rightarrow> 't option"
  ht_get :: "'t \<Rightarrow> u8 list \<Rightarrow> nat \<Rightarrow> (nat option \<times> 't) option"
  ht_previous :: "'t \<Rightarrow> u8 list \<Rightarrow> nat \<Rightarrow> (nat option \<times> 't) option"

subsection \<open>One last occurrence per hash\<close>

record fast_table =
  table :: "u32 list"
  hash_log :: nat
  bits_per_offset :: nat
  fbase :: nat

definition fast_new :: fast_table where
  "fast_new = \<lparr>table = [], hash_log = 0, bits_per_offset = 0, fbase = 0\<rparr>"

definition fast_reset :: "fast_table \<Rightarrow> u8 list \<Rightarrow> nat \<Rightarrow> nat \<Rightarrow> fast_table" where
  "fast_reset t b off len =
     (let (bits, bits_log) = (if len - LAST_LITERALS < 65536 then (16, 4) else (32, 5));
          t = t\<lparr>hash_log := MEMORY_USAGE + 3 - bits_log\<rparr>;
          t = (if length (table t) < 2 ^ hash_log t \<or> bits_per_offset t < bits
               then t\<lparr>table := replicate (2 ^ hash_log t) 0, bits_per_offset := bits\<rparr> else t)
      in t\<lparr>fbase := off\<rparr>)"

fun fast_init :: "fast_table \<Rightarrow> u8 list \<Rightarrow> nat list \<Rightarrow> fast_table option" where
  "fast_init t b [] = Some t"
| "fast_init t b (i # is) = do {
     v \<leftarrow> read4 b (fbase t + i);
     tab \<leftarrow> list_set (table t) (lz4_hash v (hash_log t)) (of_nat i);
     fast_init (t\<lparr>table := tab\<rparr>) b is
   }"

definition fast_init_dictionary :: "fast_table \<Rightarrow> u8 list \<Rightarrow> nat \<Rightarrow> fast_table option" where
  "fast_init_dictionary t b dict_len = fast_init t b [0..<dict_len]"

definition fast_get :: "fast_table \<Rightarrow> u8 list \<Rightarrow> nat \<Rightarrow> (nat option \<times> fast_table) option" where
  "fast_get t b off = do {
     v \<leftarrow> read4 b off;
     let h = lz4_hash v (hash_log t);
     prev \<leftarrow> list_get (table t) h;
     tab \<leftarrow> list_set (table t) h (of_nat (off - fbase t));
     let t = t\<lparr>table := tab\<rparr>;
     let candidate = fbase t + unat prev;
     if candidate < off \<and> off - candidate < MAX_DISTANCE then do {
       w \<leftarrow> read4 b candidate;
       Some (if w = v then Some candidate else None, t)
     }
     else Some (None, t)
   }"

definition fast_previous :: "fast_table \<Rightarrow> u8 list \<Rightarrow> nat \<Rightarrow> (nat option \<times> fast_table) option" where
  "fast_previous t b off = Some (None, t)"

definition fast_impl :: "fast_table hash_table" where
  "fast_impl = \<lparr>ht_reset = fast_reset, ht_init_dictionary = fast_init_dictionary, ht_get = fast_get, ht_previous = fast_previous\<rparr>"

subsection \<open>Hash chains over the last 64 kB\<close>

record hc_table =
  hash_slots :: "i32 list"
  chain_table :: "u16 list"
  cbase :: nat
  cnext :: nat
  cend :: nat
  attempts :: nat

definition hc_new :: hc_table where
  "hc_new = \<lparr>hash_slots = replicate HASH_TABLE_SIZE_HC (- 1), chain_table = replicate MAX_DISTANCE 0xFFFF,
     cbase = 0, cnext = 0, cend = 0, attempts = 0\<rparr>"

definition add_hash :: "hc_table \<Rightarrow> u8 list \<Rightarrow> nat \<Rightarrow> hc_table option" where
  "add_hash t b off = do {
     v \<leftarrow> read4 b off;
     let h = lz4_hash v HASH_LOG_HC;
     prev \<leftarrow> list_get (hash_slots t) h;
     let delta = int off - sint prev;
     let delta = (if delta \<le> 0 \<or> int MAX_DISTANCE \<le> delta then int MAX_DISTANCE - 1 else delta);
     chain \<leftarrow> list_set (chain_table t) (hc_slot off) (of_int delta);
     slots \<leftarrow> list_set (hash_slots t) h (of_nat off);
     Some (t\<lparr>chain_table := chain, hash_slots := slots\<rparr>)
   }"

definition fill :: "nat \<Rightarrow> nat \<Rightarrow> 'a \<Rightarrow> 'a list \<Rightarrow> 'a list" where
  "fill i j v xs = take i xs @ replicate (j - i) v @ drop j xs"

definition hc_reset :: "hc_table \<Rightarrow> u8 list \<Rightarrow> nat \<Rightarrow> nat \<Rightarrow> hc_table" where
  "hc_reset t b off len =
     (let t = (if cend t - cbase t < length (chain_table t) then
                 let start_offset = hc_slot (cbase t);
                     end_offset = (if cend t = 0 then 0 else hc_slot (cend t - 1) + 1)
                 in if start_offset < end_offset
                    then t\<lparr>chain_table := fill start_offset end_offset 0xFFFF (chain_table t)\<rparr>
                    else t\<lparr>chain_table := fill start_offset (length (chain_table t)) 0xFFFF
                                           (fill 0 end_offset 0xFFFF (chain_table t))\<rparr>
               else t\<lparr>hash_slots := replicate (length (hash_slots t)) (- 1),
                      chain_table := replicate (length (chain_table t)) 0xFFFF\<rparr>)
      in t\<lparr>cbase := off, cnext := off, cend := off + len\<rparr>)"

fun add_hashes :: "hc_table \<Rightarrow> u8 list \<Rightarrow> nat list \<Rightarrow> hc_table option" where
  "add_hashes t b [] = Some t"
| "add_hashes t b (i # is) = do { t \<leftarrow> add_hash t b i; add_hashes t b is }"

definition hc_init_dictionary :: "hc_table \<Rightarrow> u8 list \<Rightarrow> nat \<Rightarrow> hc_table option" where
  "hc_init_dictionary t b dict_len =
     (if cnext t \<noteq> cbase t then None
      else do {
        t \<leftarrow> add_hashes t b (map (\<lambda>i. cbase t + i) [0..<dict_len]);
        Some (t\<lparr>cnext := cnext t + dict_len\<rparr>)
      })"

function hc_catch_up :: "hc_table \<Rightarrow> u8 list \<Rightarrow> nat \<Rightarrow> hc_table option" where
  "hc_catch_up t b off =
     (if cnext t < off then do {
        t' \<leftarrow> add_hash t b (cnext t);
        hc_catch_up (t'\<lparr>cnext := cnext t + 1\<rparr>) b off
      }
      else Some t)"
  by pat_completeness auto
termination by (relation "measure (\<lambda>(t, b, off). off - cnext t)") auto

declare hc_catch_up.simps [simp del]

text \<open>The walk down a chain; \<open>low\<close> is the least offset it may return.\<close>

function hc_walk :: "hc_table \<Rightarrow> u8 list \<Rightarrow> u32 \<Rightarrow> int \<Rightarrow> int \<Rightarrow> (nat option \<times> hc_table) option" where
  "hc_walk t b v low candidate =
     (if low \<le> candidate \<and> attempts t < MAX_ATTEMPTS then do {
        let r = nat candidate;
        w \<leftarrow> read4 b r;
        if w = v then Some (Some r, t)
        else do {
          c \<leftarrow> list_get (chain_table t) (hc_slot r);
          hc_walk (t\<lparr>attempts := attempts t + 1\<rparr>) b v low (candidate - uint c)
        }
      }
      else Some (None, t))"
  by pat_completeness auto
termination by (relation "measure (\<lambda>(t, b, v, low, candidate). MAX_ATTEMPTS - attempts t)") auto

declare hc_walk.simps [simp del]

definition hc_get :: "hc_table \<Rightarrow> u8 list \<Rightarrow> nat \<Rightarrow> (nat option \<times> hc_table) option" where
  "hc_get t b off = do {
     t \<leftarrow> hc_catch_up t b off;
     v \<leftarrow> read4 b off;
     let t = t\<lparr>attempts := 0\<rparr>;
     candidate \<leftarrow> list_get (hash_slots t) (lz4_hash v HASH_LOG_HC);
     if sint (of_nat off :: i32) \<le> sint candidate then Some (None, t)
     else hc_walk t b v (sint (of_nat (max (cbase t) (off + 1 - min MAX_DISTANCE (off + 1))) :: i32)) (sint candidate)
   }"

definition hc_previous :: "hc_table \<Rightarrow> u8 list \<Rightarrow> nat \<Rightarrow> (nat option \<times> hc_table) option" where
  "hc_previous t b off = do {
     v \<leftarrow> read4 b off;
     c \<leftarrow> list_get (chain_table t) (hc_slot off);
     hc_walk t b v (int (cbase t)) (int off - uint c)
   }"

definition hc_impl :: "hc_table hash_table" where
  "hc_impl = \<lparr>ht_reset = hc_reset, ht_init_dictionary = hc_init_dictionary, ht_get = hc_get, ht_previous = hc_previous\<rparr>"

section \<open>The compressor\<close>

text \<open>The inner \<open>loop\<close>: \<open>None\<close> in the result is \<open>break 'main\<close>, otherwise the match and its offset.\<close>

function find_match ::
  "('t, 'z) hash_table_scheme \<Rightarrow> u8 list \<Rightarrow> nat \<Rightarrow> nat \<Rightarrow> nat \<Rightarrow> 't \<Rightarrow> ((nat \<times> nat) option \<times> 't) option" where
  "find_match H b dict_off match_limit off t =
     (if match_limit \<le> off then Some (None, t)
      else do {
        (r, t) \<leftarrow> ht_get H t b off;
        case r of
          Some r \<Rightarrow> if dict_off \<le> r \<and> r < off then Some (Some (r, off), t) else None
        | None \<Rightarrow> find_match H b dict_off match_limit (off + 1) t
      })"
  by pat_completeness auto
termination by (relation "measure (\<lambda>(H, b, dict_off, match_limit, off, t). match_limit - off)") auto

declare find_match.simps [simp del]

fun better_match ::
  "nat \<Rightarrow> ('t, 'z) hash_table_scheme \<Rightarrow> u8 list \<Rightarrow> nat \<Rightarrow> nat \<Rightarrow> nat \<Rightarrow> nat option \<Rightarrow> nat \<Rightarrow> nat \<Rightarrow> 't \<Rightarrow> (nat \<times> nat \<times> 't) option" where
  "better_match 0 H b low off limit r match_ref match_len t = None"
| "better_match (Suc fuel) H b low off limit r match_ref match_len t =
     (case r of
        None \<Rightarrow> Some (match_ref, match_len, t)
      | Some candidate \<Rightarrow>
          if candidate < low then Some (match_ref, match_len, t)
          else do {
            n \<leftarrow> common_bytes b (candidate + MIN_MATCH) (off + MIN_MATCH) limit;
            let candidate_len = MIN_MATCH + n;
            let (match_ref, match_len) =
              (if match_len < candidate_len then (candidate, candidate_len) else (match_ref, match_len));
            (r, t) \<leftarrow> ht_previous H t b candidate;
            better_match fuel H b low off limit r match_ref match_len t
          })"

text \<open>One iteration of the \<open>'main\<close> loop: the new offset, output and table, or \<open>None\<close> for a break.\<close>

definition compress_step ::
  "('t, 'z) hash_table_scheme \<Rightarrow> u8 list \<Rightarrow> nat \<Rightarrow> nat \<Rightarrow> nat \<Rightarrow> nat \<Rightarrow> u8 list \<Rightarrow> 't \<Rightarrow> ((nat \<times> u8 list) option \<times> 't) option" where
  "compress_step H b dict_off limit off anchor out t = do {
     (m, t) \<leftarrow> find_match H b dict_off (limit - MIN_MATCH) off t;
     case m of
       None \<Rightarrow> Some (None, t)
     | Some (match_ref, off) \<Rightarrow> do {
         n \<leftarrow> common_bytes b (match_ref + MIN_MATCH) (off + MIN_MATCH) limit;
         let low = max dict_off (off + 1 - min MAX_DISTANCE (off + 1));
         (r, t) \<leftarrow> ht_previous H t b match_ref;
         (match_ref, match_len, t) \<leftarrow>
           better_match (match_ref + 1) H b low off limit r match_ref (MIN_MATCH + n) t;
         out \<leftarrow> encode_sequence b anchor match_ref off match_len out;
         Some (Some (off + match_len, out), t)
       }
   }"

lemma bind_Some_iff: "Option.bind m f = Some y \<longleftrightarrow> (\<exists>x. m = Some x \<and> f x = Some y)"
  by (cases m) auto

lemma find_match_advances: "find_match H b dict_off ml off t = Some (Some (r, off'), t') \<Longrightarrow> off \<le> off'"
proof (induction H b dict_off ml off t rule: find_match.induct)
  case (1 H b dict_off ml off t)
  show ?case
  proof (cases "ml \<le> off")
    case False
    obtain r1 t1 where g: "ht_get H t b off = Some (r1, t1)"
      using "1.prems" False by (subst (asm) find_match.simps) (auto simp: bind_Some_iff)
    show ?thesis
    proof (cases r1)
      case None
      have "find_match H b dict_off ml (off + 1) t1 = Some (Some (r, off'), t')"
        using "1.prems" False g None by (subst (asm) find_match.simps) simp
      then show ?thesis using "1.IH" [OF False g refl None] by simp
    next
      case (Some x)
      then show ?thesis using "1.prems" False g by (subst (asm) find_match.simps) (simp split: if_splits)
    qed
  qed (use "1.prems" in \<open>simp add: find_match.simps\<close>)
qed

lemma better_match_longer:
  "better_match fuel H b low off limit r match_ref match_len t = Some (ref', len', t') \<Longrightarrow> match_len \<le> len'"
  by (induction fuel H b low off limit r match_ref match_len t rule: better_match.induct)
     (fastforce simp: bind_Some_iff Let_def split: option.splits if_splits prod.splits)+

lemma compress_step_advances:
  "compress_step H b dict_off limit off anchor out t = Some (Some (off', out'), t') \<Longrightarrow> off < off'"
  by (auto simp: compress_step_def bind_Some_iff Let_def MIN_MATCH_def simp del: better_match.simps
      dest!: find_match_advances better_match_longer split: option.splits prod.splits)

function compress_main ::
  "('t, 'z) hash_table_scheme \<Rightarrow> u8 list \<Rightarrow> nat \<Rightarrow> nat \<Rightarrow> nat \<Rightarrow> nat \<Rightarrow> u8 list \<Rightarrow> 't \<Rightarrow> (nat \<times> u8 list \<times> 't) option" where
  "compress_main H b dict_off limit off anchor out t =
     (if off \<le> limit then
        (case compress_step H b dict_off limit off anchor out t of
           None \<Rightarrow> None
         | Some (None, t) \<Rightarrow> Some (anchor, out, t)
         | Some (Some (off, out), t) \<Rightarrow> compress_main H b dict_off limit off off out t)
      else Some (anchor, out, t))"
  by pat_completeness auto
termination
  by (relation "measure (\<lambda>(H, b, dict_off, limit, off, anchor, out, t). Suc limit - off)")
     (auto dest!: compress_step_advances)

declare compress_main.simps [simp del]

definition compress_with_dictionary ::
  "('t, 'z) hash_table_scheme \<Rightarrow> u8 list \<Rightarrow> nat \<Rightarrow> nat \<Rightarrow> nat \<Rightarrow> u8 list \<Rightarrow> 't \<Rightarrow> (u8 list \<times> 't) option" where
  "compress_with_dictionary H b dict_off dict_len len out t =
     (if MAX_DISTANCE < dict_len then None
      else let end = dict_off + dict_len + len;
               off = dict_off + dict_len
      in do {
        (anchor, out, t) \<leftarrow>
          (if LAST_LITERALS + MIN_MATCH < len then do {
             let limit = end - LAST_LITERALS;
             let t = ht_reset H t b dict_off (dict_len + len);
             t \<leftarrow> ht_init_dictionary H t b dict_len;
             compress_main H b dict_off limit off off out t
           }
           else Some (off, out, t));
        out \<leftarrow> encode_last_literals b anchor (end - anchor) out;
        Some (out, t)
      })"

definition compress_into :: "('t, 'z) hash_table_scheme \<Rightarrow> u8 list \<Rightarrow> u8 list \<Rightarrow> 't \<Rightarrow> (u8 list \<times> 't) option" where
  "compress_into H b out t = compress_with_dictionary H b 0 0 (length b) out t"

definition compress :: "u8 list \<Rightarrow> u8 list option" where
  "compress b = map_option fst (compress_into fast_impl b [] fast_new)"

section \<open>What the encoder writes\<close>

lemma encode_len_eq: "encode_len l out = out @ enc_len l"
proof (induction l out rule: encode_len.induct)
  case (1 l out)
  then show ?case by (simp add: encode_len.simps [of l out] enc_len.simps [of l])
qed

lemma encode_literals_eq:
  assumes "anchor + n \<le> length b"
  shows "encode_literals b token anchor n out = Some (out @ token # enc_ext n @ take n (drop anchor b))"
  using assms by (simp add: encode_literals_def slice_get_def enc_ext_def encode_len_eq Let_def)

lemma encode_last_eq:
  assumes "anchor + n \<le> length b"
  shows "encode_last_literals b anchor n out = Some (out @ enc_last (take n (drop anchor b)))"
  using assms by (simp add: encode_last_literals_def encode_literals_eq enc_last_def enc_token_def)

lemma encode_sequence_eq:
  assumes "anchor \<le> off" and "off \<le> length b" and "MIN_MATCH \<le> len" and "ref < off" and "off - ref < MAX_DISTANCE"
  shows "encode_sequence b anchor ref off len out =
    Some (out @ enc_seq (take (off - anchor) (drop anchor b), off - ref, len))"
proof -
  have "len - 0x0F - MIN_MATCH = len - MIN_MATCH - 0x0F" by simp
  moreover have "MIN_MATCH + 0x0F \<le> len \<longleftrightarrow> 0x0F \<le> len - MIN_MATCH" using assms(3) by auto
  ultimately show ?thesis
    using assms by (simp add: encode_sequence_def MAX_DISTANCE_def encode_literals_eq enc_seq_def enc_token_def enc_ext_def encode_len_eq Let_def)
qed

section \<open>Common prefixes\<close>

definition common :: "u8 list \<Rightarrow> nat \<Rightarrow> nat \<Rightarrow> nat \<Rightarrow> bool" where
  "common b o1 o2 n \<longleftrightarrow> (\<forall>k<n. b ! (o1 + k) = b ! (o2 + k))"

lemma common_append: "common b o1 o2 n \<Longrightarrow> common b (o1 + n) (o2 + n) m \<Longrightarrow> common b o1 o2 (n + m)"
  unfolding common_def
proof (intro allI impI)
  fix k assume a: "\<forall>k<n. b ! (o1 + k) = b ! (o2 + k)" "\<forall>k<m. b ! (o1 + n + k) = b ! (o2 + n + k)" "k < n + m"
  show "b ! (o1 + k) = b ! (o2 + k)"
  proof (cases "k < n")
    case False
    then have "b ! (o1 + n + (k - n)) = b ! (o2 + n + (k - n))" using a(3) by (intro a(2) [rule_format]) linarith
    then show ?thesis using False by simp
  qed (use a in simp)
qed

lemma first_difference:
  fixes xs ys :: "u8 list"
  assumes "length xs = 8" and "length ys = 8" and "(from_le_bytes xs :: u64) \<noteq> from_le_bytes ys"
  defines "j \<equiv> trailing_zeros ((from_le_bytes xs :: u64) XOR from_le_bytes ys) div 8"
  shows "j < 8" "xs ! j \<noteq> ys ! j" "\<And>k. k < j \<Longrightarrow> xs ! k = ys ! k"
proof -
  define z where "z = (from_le_bytes xs :: u64) XOR from_le_bytes ys"
  have nz: "z \<noteq> 0" using assms(3) by (auto simp: z_def bit_eq_iff bit_xor_iff)
  have bits: "bit z i \<longleftrightarrow> bit (xs ! (i div 8)) (i mod 8) \<noteq> bit (ys ! (i div 8)) (i mod 8)" if "i < 64" for i
  proof -
    have "i div 8 < 8" using that by simp
    then show ?thesis using that assms(1,2) by (simp add: z_def bit_xor_iff bit_from_le_bytes)
  qed
  have tz: "trailing_zeros z < 64" "bit z (trailing_zeros z)"
    using trailing_zeros_less [OF nz] bit_trailing_zeros [OF nz] by simp_all
  then show "j < 8" by (simp add: j_def z_def [symmetric])
  show "xs ! j \<noteq> ys ! j" using bits [OF tz(1)] tz(2) by (auto simp: j_def z_def [symmetric])
  fix k assume k: "k < j"
  show "xs ! k = ys ! k"
  proof (rule bit_word_eqI)
    fix i :: nat assume "i < LENGTH(8)"
    then have i: "i < 8" by simp
    have "8 * j \<le> trailing_zeros z" by (simp add: j_def z_def [symmetric])
    moreover have "8 * k + 8 \<le> 8 * j" using k by simp
    ultimately have lt: "8 * k + i < trailing_zeros z" using i by linarith
    then have "\<not> bit z (8 * k + i)" by (rule not_bit_below_trailing_zeros)
    moreover have "(8 * k + i) div 8 = k" "(8 * k + i) mod 8 = i" using i by auto
    ultimately show "bit (xs ! k) i = bit (ys ! k) i" using bits [of "8 * k + i"] lt tz(1) by simp
  qed
qed

lemma nth_word: "k < 8 \<Longrightarrow> i + 8 \<le> length b \<Longrightarrow> take 8 (drop i b) ! k = b ! (i + k)" for b :: "'a list"
  by simp

lemma common_words_ok:
  assumes "o1 + most \<le> length b" and "o2 + most \<le> length b" and "common b o1 o2 n" and "n \<le> most"
  shows "\<exists>m stop. common_words b o1 o2 most n = Some (m, stop) \<and> m \<le> most \<and> common b o1 o2 m \<and>
    (stop \<longrightarrow> m < most \<and> b ! (o1 + m) \<noteq> b ! (o2 + m))"
  using assms
proof (induction b o1 o2 most n rule: common_words.induct)
  case (1 b o1 o2 most n)
  show ?case
  proof (cases "n + 8 \<le> most")
    case False
    then show ?thesis using "1.prems" by (subst common_words.simps) auto
  next
    case True
    let ?x = "take 8 (drop (o1 + n) b)" and ?y = "take 8 (drop (o2 + n) b)"
    have len: "o1 + n + 8 \<le> length b" "o2 + n + 8 \<le> length b" using "1.prems" True by auto
    have get: "slice_get b (o1 + n) (o1 + n + 8) = Some ?x" "slice_get b (o2 + n) (o2 + n + 8) = Some ?y"
      using len by (simp_all add: slice_get_def)
    show ?thesis
    proof (cases "(from_le_bytes ?x :: u64) = from_le_bytes ?y")
      case eq: True
      have "to_le_bytes 8 (from_le_bytes ?x :: u64) = ?x" "to_le_bytes 8 (from_le_bytes ?y :: u64) = ?y"
        using len by (auto intro!: to_le_from_le_bytes)
      then have "?x = ?y" using eq by metis
      then have "?x ! k = ?y ! k" for k by metis
      then have "common b (o1 + n) (o2 + n) 8"
        unfolding common_def using nth_word [OF _ len(1)] nth_word [OF _ len(2)] by simp
      then have "common b o1 o2 (n + 8)" using "1.prems"(3) common_append by blast
      then show ?thesis
        using "1.IH" [OF True get refl refl] eq "1.prems" True get by (subst common_words.simps) (simp add: Let_def)
    next
      case False
      define j where "j = trailing_zeros ((from_le_bytes ?x :: u64) XOR from_le_bytes ?y) div 8"
      have xy: "length ?x = 8" "length ?y = 8" using len by auto
      note fd = first_difference [OF xy False, folded j_def]
      have "common b (o1 + n) (o2 + n) j"
        unfolding common_def
      proof (intro allI impI)
        fix k assume "k < j"
        then have "k < 8" using fd(1) by simp
        then show "b ! (o1 + n + k) = b ! (o2 + n + k)"
          using fd(3) [OF \<open>k < j\<close>] nth_word [OF \<open>k < 8\<close> len(1)] nth_word [OF \<open>k < 8\<close> len(2)] by simp
      qed
      then have "common b o1 o2 (n + j)" using "1.prems"(3) common_append by blast
      moreover have "b ! (o1 + (n + j)) \<noteq> b ! (o2 + (n + j))"
        using fd(2) nth_word [OF fd(1) len(1)] nth_word [OF fd(1) len(2)] by (simp add: add.assoc)
      moreover have "common_words b o1 o2 most n = Some (n + j, True)"
        using True get False by (subst common_words.simps) (simp add: Let_def j_def)
      ultimately show ?thesis using fd(1) True by (intro exI [of _ "n + j"] exI [of _ True]) simp
    qed
  qed
qed

lemma common_tail_ok:
  assumes "o1 + most \<le> length b" and "o2 + most \<le> length b" and "common b o1 o2 n" and "n \<le> most"
  shows "\<exists>m. common_tail b o1 o2 most n = Some m \<and> m \<le> most \<and> common b o1 o2 m \<and>
    (m = most \<or> b ! (o1 + m) \<noteq> b ! (o2 + m))"
  using assms
proof (induction b o1 o2 most n rule: common_tail.induct)
  case (1 b o1 o2 most n)
  show ?case
  proof (cases "n < most")
    case False
    then show ?thesis using "1.prems" by (subst common_tail.simps) simp
  next
    case True
    have get: "list_get b (o1 + n) = Some (b ! (o1 + n))" "list_get b (o2 + n) = Some (b ! (o2 + n))"
      using True "1.prems" by (simp_all add: list_get_def)
    show ?thesis
    proof (cases "b ! (o1 + n) = b ! (o2 + n)")
      case eq: True
      then have "common b o1 o2 (n + 1)" using "1.prems"(3) by (auto simp: common_def less_Suc_eq)
      then show ?thesis
        using "1.IH" [OF True get] eq "1.prems" True get by (subst common_tail.simps) simp
    next
      case False
      then show ?thesis using "1.prems" True get by (subst common_tail.simps) simp
    qed
  qed
qed

text \<open>The word-at-a-time comparison returns the length of the longest common prefix.\<close>

lemma common_bytes_ok:
  assumes "o1 \<le> limit" and "o2 \<le> limit" and "limit \<le> length b"
  shows "\<exists>n. common_bytes b o1 o2 limit = Some n \<and> n \<le> min (limit - o1) (limit - o2) \<and> common b o1 o2 n \<and>
    (n = min (limit - o1) (limit - o2) \<or> b ! (o1 + n) \<noteq> b ! (o2 + n))"
proof -
  let ?m = "min (limit - o1) (limit - o2)"
  have fit: "o1 + ?m \<le> length b" "o2 + ?m \<le> length b" using assms by auto
  obtain m stop where m: "common_words b o1 o2 ?m 0 = Some (m, stop)" "m \<le> ?m" "common b o1 o2 m"
      "stop \<longrightarrow> m < ?m \<and> b ! (o1 + m) \<noteq> b ! (o2 + m)"
    using common_words_ok [OF fit, of 0] by (auto simp: common_def)
  show ?thesis
  proof (cases stop)
    case True
    then show ?thesis using m assms by (simp add: common_bytes_def Let_def)
  next
    case False
    then show ?thesis using m assms common_tail_ok [OF fit m(3,2)] by (simp add: common_bytes_def Let_def)
  qed
qed

section \<open>What the compressor needs from a table\<close>

lemma common_trans: "common b i j n \<Longrightarrow> common b j k n \<Longrightarrow> common b i k n"
  by (simp add: common_def)

lemma legal_mono: "legal m sqs \<Longrightarrow> m \<le> n \<Longrightarrow> legal n sqs"
  by (induction m sqs arbitrary: n rule: legal.induct) auto

lemma expand_prefix: "legal (length w) sqs \<Longrightarrow> expand (p @ w) sqs = p @ expand w sqs"
proof (induction w sqs rule: expand.induct)
  case (2 w lits dec len sqs)
  then show ?case using lz_extend_prefix [of dec "w @ lits" p len] by simp
qed simp

locale match_finder =
  fixes H :: "('t, 'z) hash_table_scheme" and fits :: "u8 list \<Rightarrow> bool" and wf :: "'t \<Rightarrow> bool"
    and ok :: "u8 list \<Rightarrow> nat \<Rightarrow> 't \<Rightarrow> bool"
  assumes ok_wf: "ok b base t \<Longrightarrow> wf t"
    and init_law: "wf t \<Longrightarrow> fits b \<Longrightarrow> base + len \<le> length b \<Longrightarrow> base + n + MIN_MATCH \<le> length b \<Longrightarrow>
      \<exists>t'. ht_init_dictionary H (ht_reset H t b base len) b n = Some t' \<and> ok b base t'"
    and get_law: "ok b base t \<Longrightarrow> base \<le> off \<Longrightarrow> off + MIN_MATCH \<le> length b \<Longrightarrow>
      \<exists>r t'. ht_get H t b off = Some (r, t') \<and> ok b base t' \<and>
        (\<forall>c. r = Some c \<longrightarrow> base \<le> c \<and> c < off \<and> off - c < MAX_DISTANCE \<and> common b c off MIN_MATCH)"
    and previous_law: "ok b base t \<Longrightarrow> base \<le> off \<Longrightarrow> off + MIN_MATCH \<le> length b \<Longrightarrow>
      \<exists>r t'. ht_previous H t b off = Some (r, t') \<and> ok b base t' \<and>
        (\<forall>c. r = Some c \<longrightarrow> base \<le> c \<and> c < off \<and> common b c off MIN_MATCH)"
begin

lemma find_match_ok:
  assumes "ok b base t" and "base \<le> off" and "match_limit + MIN_MATCH \<le> length b"
  shows "\<exists>m t'. find_match H b base match_limit off t = Some (m, t') \<and> ok b base t' \<and>
    (\<forall>c off'. m = Some (c, off') \<longrightarrow> off \<le> off' \<and> off' < match_limit \<and> base \<le> c \<and> c < off' \<and>
       off' - c < MAX_DISTANCE \<and> common b c off' MIN_MATCH)"
  using assms(1,2)
proof (induction "match_limit - off" arbitrary: off t rule: less_induct)
  case less
  show ?case
  proof (cases "match_limit \<le> off")
    case True
    then show ?thesis using less.prems by (subst find_match.simps) simp
  next
    case False
    then obtain r t1 where g: "ht_get H t b off = Some (r, t1)" "ok b base t1"
        "\<forall>c. r = Some c \<longrightarrow> base \<le> c \<and> c < off \<and> off - c < MAX_DISTANCE \<and> common b c off MIN_MATCH"
      using get_law [OF less.prems] assms(3) by force
    show ?thesis
    proof (cases r)
      case None
      have "find_match H b base match_limit off t = find_match H b base match_limit (off + 1) t1"
        using False g(1) None by (subst find_match.simps) simp
      then show ?thesis using less.hyps [of "off + 1" t1] False g(2) less.prems(2) by fastforce
    next
      case (Some c)
      then show ?thesis using False g by (subst find_match.simps) simp
    qed
  qed
qed

text \<open>A match at \<open>ref\<close> for the bytes at \<open>off\<close>, of the given length.\<close>

definition good_match :: "u8 list \<Rightarrow> nat \<Rightarrow> nat \<Rightarrow> nat \<Rightarrow> nat \<Rightarrow> nat \<Rightarrow> bool" where
  "good_match b base limit off ref len \<longleftrightarrow>
     base \<le> ref \<and> ref < off \<and> off - ref < MAX_DISTANCE \<and> MIN_MATCH \<le> len \<and> off + len \<le> limit \<and> common b ref off len"

lemma match_length:
  assumes "c < off" and "off + MIN_MATCH \<le> limit" and "limit \<le> length b" and "common b c off MIN_MATCH"
  shows "\<exists>n. common_bytes b (c + MIN_MATCH) (off + MIN_MATCH) limit = Some n \<and> off + (MIN_MATCH + n) \<le> limit \<and>
    common b c off (MIN_MATCH + n)"
proof -
  have "c + MIN_MATCH \<le> limit" using assms(1,2) by simp
  from common_bytes_ok [OF this assms(2,3)] obtain n where
    n: "common_bytes b (c + MIN_MATCH) (off + MIN_MATCH) limit = Some n"
      "n \<le> min (limit - (c + MIN_MATCH)) (limit - (off + MIN_MATCH))" "common b (c + MIN_MATCH) (off + MIN_MATCH) n"
    by blast
  then show ?thesis using common_append [OF assms(4) n(3)] assms(2) by auto
qed

lemma better_match_ok:
  assumes "limit \<le> length b" and "off + MIN_MATCH \<le> limit" and "base \<le> low"
    and "off < low + MAX_DISTANCE" and "ok b base t" and "good_match b base limit off ref len" and "0 < fuel"
    and "\<And>c. r = Some c \<Longrightarrow> base \<le> c \<and> c < off \<and> c + 1 < fuel \<and> common b c off MIN_MATCH"
  shows "\<exists>ref' len' t'. better_match fuel H b low off limit r ref len t = Some (ref', len', t') \<and>
    good_match b base limit off ref' len' \<and> ok b base t'"
  using assms(5-8)
proof (induction fuel arbitrary: r ref len t)
  case (Suc fuel)
  show ?case
  proof (cases r)
    case None
    then show ?thesis using Suc.prems by simp
  next
    case (Some c)
    note c = Suc.prems(4) [OF Some]
    show ?thesis
    proof (cases "c < low")
      case True
      then show ?thesis using Some Suc.prems by simp
    next
      case False
      obtain n where n: "common_bytes b (c + MIN_MATCH) (off + MIN_MATCH) limit = Some n" "off + (MIN_MATCH + n) \<le> limit"
          "common b c off (MIN_MATCH + n)"
        using match_length [of c off limit b] c assms(1,2) by blast
      have gc: "good_match b base limit off c (MIN_MATCH + n)"
        using n c False assms(4) by (auto simp: good_match_def)
      have "c + MIN_MATCH \<le> length b" using c assms(1,2) by simp
      then obtain r' t1 where p: "ht_previous H t b c = Some (r', t1)" "ok b base t1"
          "\<forall>c'. r' = Some c' \<longrightarrow> base \<le> c' \<and> c' < c \<and> common b c' c MIN_MATCH"
        using previous_law [OF Suc.prems(1)] c by meson
      define ref1 where "ref1 = (if len < MIN_MATCH + n then c else ref)"
      define len1 where "len1 = (if len < MIN_MATCH + n then MIN_MATCH + n else len)"
      have step: "better_match (Suc fuel) H b low off limit r ref len t = better_match fuel H b low off limit r' ref1 len1 t1"
        using Some False n(1) p(1) by (simp add: ref1_def len1_def Let_def)
      have g1: "good_match b base limit off ref1 len1" using gc Suc.prems(2) by (simp add: ref1_def len1_def)
      have f: "0 < fuel" using c by simp
      have "base \<le> c' \<and> c' < off \<and> c' + 1 < fuel \<and> common b c' off MIN_MATCH" if "r' = Some c'" for c'
        using p(3) that c common_trans [of b c' c MIN_MATCH off] by force
      from Suc.IH [OF p(2) g1 f this] show ?thesis unfolding step by blast
    qed
  qed
qed simp

lemma compress_step_ok:
  assumes "ok b base t" and "base \<le> anchor" and "anchor \<le> off" and "limit \<le> length b" and "MIN_MATCH \<le> limit"
  shows "\<exists>m t'. compress_step H b base limit off anchor out t = Some (m, t') \<and> ok b base t' \<and>
    (\<forall>off' out'. m = Some (off', out') \<longrightarrow> (\<exists>o2 ref len. off \<le> o2 \<and> off' = o2 + len \<and> good_match b base limit o2 ref len \<and>
       out' = out @ enc_seq (take (o2 - anchor) (drop anchor b), o2 - ref, len)))"
proof -
  have "limit - MIN_MATCH + MIN_MATCH \<le> length b" using assms(4,5) by simp
  moreover have "base \<le> off" using assms(2,3) by simp
  ultimately obtain m t1 where m: "find_match H b base (limit - MIN_MATCH) off t = Some (m, t1)" "ok b base t1"
      "\<forall>c off'. m = Some (c, off') \<longrightarrow> off \<le> off' \<and> off' < limit - MIN_MATCH \<and> base \<le> c \<and> c < off' \<and>
       off' - c < MAX_DISTANCE \<and> common b c off' MIN_MATCH"
    using find_match_ok [OF assms(1)] by blast
  show ?thesis
  proof (cases m)
    case None
    then show ?thesis using m by (simp add: compress_step_def)
  next
    case (Some p)
    then obtain c o2 where c: "m = Some (c, o2)" "off \<le> o2" "o2 + MIN_MATCH \<le> limit" "base \<le> c" "c < o2"
        "o2 - c < MAX_DISTANCE" "common b c o2 MIN_MATCH"
      using m(3) by (cases p) force
    obtain n where n: "common_bytes b (c + MIN_MATCH) (o2 + MIN_MATCH) limit = Some n" "o2 + (MIN_MATCH + n) \<le> limit"
        "common b c o2 (MIN_MATCH + n)"
      using match_length [OF c(5,3) assms(4) c(7)] by blast
    have "c + MIN_MATCH \<le> length b" using c(3,5) assms(4) by simp
    then obtain r t2 where p: "ht_previous H t1 b c = Some (r, t2)" "ok b base t2"
        "\<forall>c'. r = Some c' \<longrightarrow> base \<le> c' \<and> c' < c \<and> common b c' c MIN_MATCH"
      using previous_law [OF m(2) c(4)] by meson
    define low where "low = max base (o2 + 1 - min MAX_DISTANCE (o2 + 1))"
    have low: "base \<le> low" "o2 < low + MAX_DISTANCE" by (auto simp: low_def MAX_DISTANCE_def min_def)
    have g: "good_match b base limit o2 c (MIN_MATCH + n)" using c n by (simp add: good_match_def)
    have cs: "base \<le> c' \<and> c' < o2 \<and> c' + 1 < c + 1 \<and> common b c' o2 MIN_MATCH" if "r = Some c'" for c'
      using p(3) that c common_trans [of b c' c MIN_MATCH o2] by force
    obtain ref len t3 where
      bm: "better_match (c + 1) H b low o2 limit r c (MIN_MATCH + n) t2 = Some (ref, len, t3)"
        "good_match b base limit o2 ref len" "ok b base t3"
      using better_match_ok [OF assms(4) c(3) low p(2) g _ cs] by (metis add_gr_0 zero_less_one)
    have "encode_sequence b anchor ref o2 len out = Some (out @ enc_seq (take (o2 - anchor) (drop anchor b), o2 - ref, len))"
      using bm(2) c(2,3) assms(3,4) by (intro encode_sequence_eq) (auto simp: good_match_def)
    then show ?thesis
      using m(1) c n(1) p(1) bm unfolding compress_step_def low_def
      by (simp add: Let_def del: better_match.simps) blast
  qed
qed

text \<open>\<open>window k\<close>: the bytes from the base of the dictionary, \<open>k\<close> of them.\<close>

lemma window_step:
  assumes "good_match b base limit o2 ref len" and "base \<le> anchor" and "anchor \<le> o2" and "limit \<le> length b"
  shows "lz_extend (take (anchor - base) (drop base b) @ take (o2 - anchor) (drop anchor b)) (o2 - ref) len =
    take (o2 + len - base) (drop base b)"
proof -
  let ?w = "drop base b"
  have "take (o2 - base) ?w = take (anchor - base + (o2 - anchor)) ?w" using assms(2,3) by simp
  also have "\<dots> = take (anchor - base) ?w @ take (o2 - anchor) (drop anchor b)"
    unfolding take_add drop_drop using assms(2) by simp
  finally have lits: "take (anchor - base) ?w @ take (o2 - anchor) (drop anchor b) = take (o2 - base) ?w" ..
  have m: "base \<le> ref" "ref < o2" "o2 + len \<le> limit" "common b ref o2 len" using assms(1) by (auto simp: good_match_def)
  have "lz_extend (take (o2 - base) ?w) (o2 - ref) len = take (o2 - base + len) ?w"
  proof (rule lz_extend_unique)
    fix i assume i: "o2 - base \<le> i" "i < o2 - base + len"
    define k where "k = i - (o2 - base)"
    have k: "i = o2 - base + k" "k < len" using i by (auto simp: k_def)
    have "b ! (ref + k) = b ! (o2 + k)" using m(4) k(2) by (simp add: common_def)
    moreover have "base + i = o2 + k" "base + (i - (o2 - ref)) = ref + k" using k m by auto
    moreover have "i < length ?w" using k m assms(4) by simp
    moreover have "?w ! i = b ! (base + i)" "?w ! (i - (o2 - ref)) = b ! (base + (i - (o2 - ref)))"
      using assms(1,4) m(3) k(2) by (simp_all add: good_match_def)
    ultimately show "?w ! i = ?w ! (i - (o2 - ref))" by metis
  qed (use m assms(4) in auto)
  moreover have "o2 - base + len = o2 + len - base" using m by simp
  ultimately show ?thesis using lits by simp
qed

lemma compress_main_ok:
  assumes "ok b base t" and "base \<le> anchor" and "limit \<le> length b" and "MIN_MATCH \<le> limit"
  shows "\<exists>anchor' sqs t'. compress_main H b base limit anchor anchor out t =
      Some (anchor', out @ concat (map enc_seq sqs), t') \<and> ok b base t' \<and> legal (anchor - base) sqs \<and>
      anchor' = anchor + seqs_len sqs \<and> (sqs = [] \<or> anchor' \<le> limit) \<and>
      expand (take (anchor - base) (drop base b)) sqs = take (anchor' - base) (drop base b)"
  using assms(1,2)
proof (induction "Suc limit - anchor" arbitrary: anchor out t rule: less_induct)
  case less
  have stop: ?case if "compress_main H b base limit anchor anchor out t = Some (anchor, out, t')" "ok b base t'" for t'
    using that by (intro exI [of _ anchor] exI [of _ "[]"] exI [of _ t']) simp
  show ?case
  proof (cases "anchor \<le> limit")
    case False
    then show ?thesis using less.prems(1) by (intro stop [of t]) (subst compress_main.simps, simp)
  next
    case True
    obtain m t1 where m: "compress_step H b base limit anchor anchor out t = Some (m, t1)" "ok b base t1"
       "\<forall>off' out'. m = Some (off', out') \<longrightarrow> (\<exists>o2 ref len. anchor \<le> o2 \<and> off' = o2 + len \<and> good_match b base limit o2 ref len \<and>
       out' = out @ enc_seq (take (o2 - anchor) (drop anchor b), o2 - ref, len))"
      using compress_step_ok [OF less.prems order_refl assms(3,4)] by blast
    show ?thesis
    proof (cases m)
      case None
      then show ?thesis using m True by (intro stop [of t1]) (subst compress_main.simps, simp)
    next
      case (Some p)
      obtain off' out' where p: "p = (off', out')" by fastforce
      then obtain o2 ref len where g: "anchor \<le> o2" "off' = o2 + len" "good_match b base limit o2 ref len"
          "out' = out @ enc_seq (take (o2 - anchor) (drop anchor b), o2 - ref, len)"
        using m(3) Some by blast
      let ?sq = "(take (o2 - anchor) (drop anchor b), o2 - ref, len)"
      have o: "base \<le> ref" "ref < o2" "o2 - ref < MAX_DISTANCE" "MIN_MATCH \<le> len" "o2 + len \<le> limit"
        using g(3) by (auto simp: good_match_def)
      have ll: "length (take (o2 - anchor) (drop anchor b)) = o2 - anchor" using o assms(3) by simp
      have "anchor < off'" "base \<le> off'" using g o less.prems(2) by (auto simp: MIN_MATCH_def)
      then have "Suc limit - off' < Suc limit - anchor" using True by linarith
      then obtain anchor' sqs t' where rec: "compress_main H b base limit off' off' out' t1 =
          Some (anchor', out' @ concat (map enc_seq sqs), t')" "ok b base t'" "legal (off' - base) sqs"
          "anchor' = off' + seqs_len sqs" "sqs = [] \<or> anchor' \<le> limit"
          "expand (take (off' - base) (drop base b)) sqs = take (anchor' - base) (drop base b)"
        using less.hyps [of off' t1 out'] m(2) \<open>base \<le> off'\<close> by blast
      have main: "compress_main H b base limit anchor anchor out t = compress_main H b base limit off' off' out' t1"
        using True m(1) Some p by (subst compress_main.simps) simp
      have n: "off' - base = anchor - base + (o2 - anchor) + len" using g less.prems(2) by simp
      have "legal (anchor - base) (?sq # sqs)"
        using o ll rec(3) less.prems(2) g(1) unfolding n by (simp add: MAX_DISTANCE_def)
      moreover have "expand (take (anchor - base) (drop base b)) (?sq # sqs) = take (anchor' - base) (drop base b)"
        using window_step [OF g(3) less.prems(2) g(1) assms(3)] rec(6) g(2) by simp
      moreover have "anchor' = anchor + seqs_len (?sq # sqs)" using rec(4) g(1,2) ll by simp
      moreover have "anchor' \<le> limit" using rec(4,5) g(2) o(5) by auto
      ultimately show ?thesis
        using main rec(1,2) g(4) by (intro exI [of _ anchor'] exI [of _ "?sq # sqs"] exI [of _ t']) simp
    qed
  qed
qed

lemma compress_ok:
  assumes "wf t" and "fits b" and "dict_off + dict_len + len \<le> length b" and "dict_len \<le> MAX_DISTANCE"
  shows "\<exists>sqs lits t'. compress_with_dictionary H b dict_off dict_len len out t =
      Some (out @ concat (map enc_seq sqs) @ enc_last lits, t') \<and> wf t' \<and> legal dict_len sqs \<and>
      len = seqs_len sqs + length lits \<and> (sqs = [] \<or> lits \<noteq> []) \<and>
      expand (take dict_len (drop dict_off b)) sqs @ lits = take (dict_len + len) (drop dict_off b)"
proof (cases "LAST_LITERALS + MIN_MATCH < len")
  case False
  let ?lits = "take len (drop (dict_off + dict_len) b)"
  have "encode_last_literals b (dict_off + dict_len) len out = Some (out @ enc_last ?lits)"
    using assms(3) by (rule encode_last_eq)
  then show ?thesis
    using False assms by (intro exI [of _ "[]"] exI [of _ ?lits] exI [of _ t])
      (simp add: compress_with_dictionary_def Let_def take_add add.commute)
next
  case True
  define limit where "limit = dict_off + dict_len + len - LAST_LITERALS"
  have lim: "limit \<le> length b" "MIN_MATCH \<le> limit" "limit + LAST_LITERALS = dict_off + dict_len + len"
    using True assms(3) by (auto simp: limit_def LAST_LITERALS_def MIN_MATCH_def)
  have "dict_off + (dict_len + len) \<le> length b" using assms(3) by simp
  then obtain t1 where t1: "ht_init_dictionary H (ht_reset H t b dict_off (dict_len + len)) b dict_len = Some t1" "ok b dict_off t1"
    using init_law [OF assms(1,2), of dict_off "dict_len + len" dict_len] assms(3) True by (auto simp: LAST_LITERALS_def)
  obtain anchor sqs t2 where m: "compress_main H b dict_off limit (dict_off + dict_len) (dict_off + dict_len) out t1 =
      Some (anchor, out @ concat (map enc_seq sqs), t2)" "ok b dict_off t2" "legal dict_len sqs"
      "anchor = dict_off + dict_len + seqs_len sqs" "sqs = [] \<or> anchor \<le> limit"
      "expand (take dict_len (drop dict_off b)) sqs = take (anchor - dict_off) (drop dict_off b)"
    using compress_main_ok [OF t1(2) _ lim(1,2), of "dict_off + dict_len" out] by auto
  define rest where "rest = dict_off + dict_len + len - anchor"
  have anchor: "anchor + rest = dict_off + dict_len + len" "sqs \<noteq> [] \<longrightarrow> 0 < rest"
    using m(4,5) lim(3) by (auto simp: rest_def LAST_LITERALS_def)
  let ?lits = "take rest (drop anchor b)"
  have ll: "length ?lits = rest" using anchor assms(3) by simp
  have "encode_last_literals b anchor rest (out @ concat (map enc_seq sqs)) =
      Some (out @ concat (map enc_seq sqs) @ enc_last ?lits)"
    using encode_last_eq [of anchor rest b] anchor assms(3) by simp
  then have "compress_with_dictionary H b dict_off dict_len len out t =
      Some (out @ concat (map enc_seq sqs) @ enc_last ?lits, t2)"
    using True t1(1) m(1) assms(4) by (simp add: compress_with_dictionary_def Let_def limit_def [symmetric] rest_def)
  moreover have "dict_len + len = anchor - dict_off + rest" using anchor(1) m(4) by simp
  then have "expand (take dict_len (drop dict_off b)) sqs @ ?lits = take (dict_len + len) (drop dict_off b)"
    using m(4,6) by (simp only: take_add drop_drop) (simp add: ac_simps)
  moreover have "sqs = [] \<or> ?lits \<noteq> []" using anchor(2) ll by (metis length_0_conv less_irrefl)
  moreover have "len = seqs_len sqs + length ?lits" using ll anchor(1) m(4) by simp
  ultimately show ?thesis using m(2,3) ok_wf by blast
qed

lemma round_trip:
  assumes "wf t" and "fits b" and "dict_off + dict_len + len \<le> length b" and "dict_len \<le> MAX_DISTANCE"
  shows "\<exists>block t'. compress_with_dictionary H b dict_off dict_len len out t = Some (out @ block, t') \<and> wf t' \<and>
    (\<forall>s r d_off dest.
       slice_ok s \<longrightarrow> as_slice s = block @ r \<longrightarrow> dict_len \<le> d_off \<longrightarrow> d_off + len \<le> length dest \<longrightarrow> length dest \<le> usize_max \<longrightarrow>
       drop (d_off - dict_len) (take d_off dest) = take dict_len (drop dict_off b) \<longrightarrow>
       (\<exists>s'. decompress slice_impl len d_off (s, dest) =
          (Inr (d_off + len),
           (s', take d_off dest @ take len (drop (dict_off + dict_len) b) @ drop (d_off + len) dest)) \<and>
          slice_ok s' \<and> as_slice s' = r))"
proof -
  obtain sqs lits t' where c: "compress_with_dictionary H b dict_off dict_len len out t =
      Some (out @ concat (map enc_seq sqs) @ enc_last lits, t')" "wf t'" "legal dict_len sqs"
      "len = seqs_len sqs + length lits" "sqs = [] \<or> lits \<noteq> []"
      "expand (take dict_len (drop dict_off b)) sqs @ lits = take (dict_len + len) (drop dict_off b)"
    using compress_ok [OF assms] by blast
  have dec: "\<exists>s'. decompress slice_impl len d_off (s, dest) =
      (Inr (d_off + len), (s', take d_off dest @ take len (drop (dict_off + dict_len) b) @ drop (d_off + len) dest)) \<and>
      slice_ok s' \<and> as_slice s' = r"
    if s: "slice_ok s" "as_slice s = (concat (map enc_seq sqs) @ enc_last lits) @ r" "dict_len \<le> d_off" "d_off + len \<le> length dest"
      "length dest \<le> usize_max" "drop (d_off - dict_len) (take d_off dest) = take dict_len (drop dict_off b)"
    for s r d_off dest
  proof -
    obtain p where w: "take d_off dest = p @ take dict_len (drop dict_off b)" using s(6) by (metis append_take_drop_id)
    have "length (take dict_len (drop dict_off b)) = dict_len" using assms(3) by simp
    then have "expand (take d_off dest) sqs = p @ expand (take dict_len (drop dict_off b)) sqs"
      using expand_prefix [of "take dict_len (drop dict_off b)" sqs p] c(3) w by simp
    then have "expand (take d_off dest) sqs @ lits = p @ take (dict_len + len) (drop dict_off b)"
      using c(6) by simp
    also have "\<dots> = take d_off dest @ take len (drop (dict_off + dict_len) b)"
      using w by (simp add: take_add add.commute)
    finally have e: "expand (take d_off dest) sqs @ lits = take d_off dest @ take len (drop (dict_off + dict_len) b)" .
    have rest: "as_slice s = concat (map enc_seq sqs) @ enc_last lits @ r" using s(2) by simp
    from slice.decompress_ok [OF s(1) rest legal_mono [OF c(3) s(3)] c(4,5) s(4,5)] e show ?thesis
      by (metis append_assoc)
  qed
  with c(1,2) show ?thesis by blast
qed

end

section \<open>Both tables deliver\<close>

lemma read4_eq: "off + MIN_MATCH \<le> length b \<Longrightarrow> read4 b off = Some (from_le_bytes (take 4 (drop off b)))"
  by (simp add: read4_def slice_get_def MIN_MATCH_def)

lemma read4_common:
  assumes "read4 b c = Some v" and "read4 b off = Some v"
  shows "common b c off MIN_MATCH"
proof -
  have len: "c + 4 \<le> length b" "off + 4 \<le> length b"
    using assms by (auto simp: read4_def slice_get_def split: if_splits)
  then have "from_le_bytes (take 4 (drop c b)) = (from_le_bytes (take 4 (drop off b)) :: u32)"
    using assms by (simp add: read4_def slice_get_def)
  moreover have "to_le_bytes 4 (from_le_bytes (take 4 (drop i b)) :: u32) = take 4 (drop i b)" if "i + 4 \<le> length b" for i
    using that by (intro to_le_from_le_bytes) auto
  ultimately have eq: "take 4 (drop c b) = take 4 (drop off b)" using len by metis
  have "b ! (c + k) = b ! (off + k)" if "k < 4" for k
  proof -
    have "take 4 (drop c b) ! k = b ! (c + k)" "take 4 (drop off b) ! k = b ! (off + k)" using that len by auto
    with eq show ?thesis by metis
  qed
  then show ?thesis by (simp add: common_def MIN_MATCH_def)
qed

lemma lz4_hash_less: "hash_bits \<le> 32 \<Longrightarrow> lz4_hash v hash_bits < 2 ^ hash_bits"
proof -
  assume h: "hash_bits \<le> 32"
  let ?w = "v * 0x9E3779B1"
  have "unat (drop_bit (32 - hash_bits) ?w) = drop_bit (32 - hash_bits) (unat ?w)" by (rule unat_drop_bit_eq)
  also have "\<dots> = unat ?w div 2 ^ (32 - hash_bits)" by (rule drop_bit_eq_div)
  also have "\<dots> < 2 ^ hash_bits"
  proof -
    have "unat ?w < 2 ^ 32" using unsigned_less [of ?w] by simp
    also have "(2 :: nat) ^ 32 = 2 ^ hash_bits * 2 ^ (32 - hash_bits)" using h by (simp flip: power_add)
    finally show ?thesis by (simp add: div_less_iff_less_mult)
  qed
  finally show ?thesis by (simp add: lz4_hash_def)
qed

subsection \<open>The fast table\<close>

definition fast_ok :: "u8 list \<Rightarrow> nat \<Rightarrow> fast_table \<Rightarrow> bool" where
  "fast_ok b base t \<longleftrightarrow> fbase t = base \<and> hash_log t \<le> 32 \<and> 2 ^ hash_log t \<le> length (table t)"

lemma fast_slot: "fast_ok b base t \<Longrightarrow> lz4_hash v (hash_log t) < length (table t)"
  using lz4_hash_less [of "hash_log t" v] by (simp add: fast_ok_def)

lemma fast_init_ok:
  "fast_ok b base t \<Longrightarrow> \<forall>i \<in> set is. base + i + MIN_MATCH \<le> length b \<Longrightarrow> \<exists>t'. fast_init t b is = Some t' \<and> fast_ok b base t'"
proof (induction "is" arbitrary: t)
  case (Cons i "is")
  let ?v = "from_le_bytes (take 4 (drop (base + i) b)) :: u32"
  let ?t = "t\<lparr>table := (table t)[lz4_hash ?v (hash_log t) := of_nat i]\<rparr>"
  have "fast_ok b base ?t" using Cons.prems(1) by (simp add: fast_ok_def)
  moreover have "read4 b (fbase t + i) = Some ?v" using Cons.prems by (simp add: fast_ok_def read4_eq)
  ultimately show ?case using Cons fast_slot [OF Cons.prems(1)] by (simp add: list_set_def)
qed simp

lemma fast_get_ok:
  assumes "fast_ok b base t" and "base \<le> off" and "off + MIN_MATCH \<le> length b"
  shows "\<exists>r t'. fast_get t b off = Some (r, t') \<and> fast_ok b base t' \<and>
    (\<forall>c. r = Some c \<longrightarrow> base \<le> c \<and> c < off \<and> off - c < MAX_DISTANCE \<and> common b c off MIN_MATCH)"
proof -
  let ?v = "from_le_bytes (take 4 (drop off b)) :: u32"
  let ?h = "lz4_hash ?v (hash_log t)"
  let ?t = "t\<lparr>table := (table t)[?h := of_nat (off - fbase t)]\<rparr>" and ?c = "base + unat (table t ! ?h)"
  have v: "read4 b off = Some ?v" using assms(3) by (rule read4_eq)
  have ok: "fast_ok b base ?t" using assms(1) by (simp add: fast_ok_def)
  have base: "fbase t = base" using assms(1) by (simp add: fast_ok_def)
  have c: "\<exists>w. read4 b ?c = Some w" if "?c < off" using that assms(3) by (auto simp: read4_eq)
  show ?thesis
    using v ok base c read4_common [OF _ v] fast_slot [OF assms(1), of ?v]
    by (auto simp: fast_get_def list_get_def list_set_def Let_def)
qed

interpretation fast: match_finder fast_impl "\<lambda>b. True" "\<lambda>t. True" fast_ok
proof unfold_locales
  fix t and b :: "u8 list" and base len n :: nat assume "base + n + MIN_MATCH \<le> length b"
  moreover have "fast_ok b base (fast_reset t b base len)"
    by (auto simp: fast_reset_def fast_ok_def Let_def MEMORY_USAGE_def split: prod.splits)
  ultimately show "\<exists>t'. ht_init_dictionary fast_impl (ht_reset fast_impl t b base len) b n = Some t' \<and> fast_ok b base t'"
    using fast_init_ok [of b base _ "[0..<n]"] by (auto simp: fast_impl_def fast_init_dictionary_def)
next
  fix b base t off assume "fast_ok b base t" "base \<le> off" "off + MIN_MATCH \<le> length b"
  then show "\<exists>r t'. ht_get fast_impl t b off = Some (r, t') \<and> fast_ok b base t' \<and>
      (\<forall>c. r = Some c \<longrightarrow> base \<le> c \<and> c < off \<and> off - c < MAX_DISTANCE \<and> common b c off MIN_MATCH)"
    using fast_get_ok by (simp add: fast_impl_def)
  show "\<exists>r t'. ht_previous fast_impl t b off = Some (r, t') \<and> fast_ok b base t' \<and>
      (\<forall>c. r = Some c \<longrightarrow> base \<le> c \<and> c < off \<and> common b c off MIN_MATCH)"
    using \<open>fast_ok b base t\<close> by (simp add: fast_impl_def fast_previous_def)
qed simp

subsection \<open>The chained table\<close>

definition hc_wf :: "hc_table \<Rightarrow> bool" where
  "hc_wf t \<longleftrightarrow> length (hash_slots t) = HASH_TABLE_SIZE_HC \<and> length (chain_table t) = MAX_DISTANCE \<and>
     0 \<notin> set (chain_table t) \<and> cbase t \<le> cend t"

definition hc_ok :: "u8 list \<Rightarrow> nat \<Rightarrow> hc_table \<Rightarrow> bool" where
  "hc_ok b base t \<longleftrightarrow> hc_wf t \<and> cbase t = base \<and> length b < 2 ^ 31"

lemma hc_slot_less: "hc_wf t \<Longrightarrow> hc_slot i < length (chain_table t)"
  by (simp add: hc_wf_def hc_slot_def MAX_DISTANCE_def)

lemma hc_hash_less: "hc_wf t \<Longrightarrow> lz4_hash v HASH_LOG_HC < length (hash_slots t)"
  using lz4_hash_less [of HASH_LOG_HC v] by (simp add: hc_wf_def HASH_LOG_HC_def HASH_TABLE_SIZE_HC_def)

lemma chain_nonzero: "hc_wf t \<Longrightarrow> 0 < uint (chain_table t ! hc_slot i)"
proof -
  assume t: "hc_wf t"
  then have "chain_table t ! hc_slot i \<noteq> 0" using nth_mem [OF hc_slot_less [OF t, of i]] by (auto simp: hc_wf_def)
  then show ?thesis by (metis uint_0_iff unsigned_greater_eq order_less_le)
qed

lemma set_update_nonzero: "0 \<notin> set xs \<Longrightarrow> v \<noteq> 0 \<Longrightarrow> 0 \<notin> set (xs[i := v])"
  using set_update_subset_insert [of xs i v] by auto

lemma add_hash_ok:
  assumes "hc_ok b base t" and "off + MIN_MATCH \<le> length b"
  shows "\<exists>t'. add_hash t b off = Some t' \<and> hc_ok b base t' \<and> cnext t' = cnext t"
proof -
  have wf: "hc_wf t" using assms(1) by (simp add: hc_ok_def)
  have nz: "(of_int d :: u16) \<noteq> 0" if "0 < d" "d < 65536" for d
  proof -
    have "uint (of_int d :: u16) = d" using that by (simp add: unsigned_of_int take_bit_int_eq_self)
    then show ?thesis using that by auto
  qed
  let ?v = "from_le_bytes (take 4 (drop off b)) :: u32"
  let ?h = "lz4_hash ?v HASH_LOG_HC"
  define p where "p = int off - sint (hash_slots t ! ?h)"
  define d where "d = (if p \<le> 0 \<or> int MAX_DISTANCE \<le> p then int MAX_DISTANCE - 1 else p)"
  let ?t = "t\<lparr>chain_table := (chain_table t)[hc_slot off := of_int d], hash_slots := (hash_slots t)[?h := of_nat off]\<rparr>"
  have "0 < d \<and> d < 65536" by (auto simp: d_def MAX_DISTANCE_def)
  then have "(of_int d :: u16) \<noteq> 0" using nz by blast
  then have "hc_ok b base ?t"
    using wf assms(1) set_update_nonzero [of "chain_table t" "of_int d"] by (simp add: hc_ok_def hc_wf_def)
  moreover have "add_hash t b off = Some ?t"
    using hc_slot_less [OF wf, of off] hc_hash_less [OF wf, of ?v] assms(2)
    by (simp add: add_hash_def read4_eq list_get_def list_set_def Let_def p_def d_def)
  ultimately show ?thesis by simp
qed

lemma add_hashes_ok:
  "hc_ok b base t \<Longrightarrow> \<forall>i \<in> set is. i + MIN_MATCH \<le> length b \<Longrightarrow> \<exists>t'. add_hashes t b is = Some t' \<and> hc_ok b base t'"
proof (induction "is" arbitrary: t)
  case (Cons i "is")
  then obtain t1 where "add_hash t b i = Some t1" "hc_ok b base t1" using add_hash_ok by (metis list.set_intros(1))
  then show ?case using Cons by simp
qed simp

lemma hc_catch_up_ok:
  "hc_ok b base t \<Longrightarrow> off + MIN_MATCH \<le> length b \<Longrightarrow> \<exists>t'. hc_catch_up t b off = Some t' \<and> hc_ok b base t'"
proof (induction t b off rule: hc_catch_up.induct)
  case (1 t b off)
  show ?case
  proof (cases "cnext t < off")
    case True
    obtain t1 where t1: "add_hash t b (cnext t) = Some t1" "hc_ok b base t1"
      using add_hash_ok [OF "1.prems"(1), of "cnext t"] True "1.prems"(2) by auto
    then have "hc_ok b base (t1\<lparr>cnext := cnext t + 1\<rparr>)" by (simp add: hc_ok_def hc_wf_def)
    then show ?thesis using "1.IH" [OF True t1(1)] "1.prems"(2) True t1(1) by (subst hc_catch_up.simps) simp
  qed (use "1.prems" in \<open>simp add: hc_catch_up.simps [of t]\<close>)
qed

lemma hc_walk_ok:
  assumes "hc_ok b base t" and "0 \<le> low" and "candidate < int off" and "off + MIN_MATCH \<le> length b"
  shows "\<exists>r t'. hc_walk t b v low candidate = Some (r, t') \<and> hc_ok b base t' \<and>
    (\<forall>c. r = Some c \<longrightarrow> low \<le> int c \<and> c < off \<and> read4 b c = Some v)"
  using assms(1,3)
proof (induction "MAX_ATTEMPTS - attempts t" arbitrary: t candidate rule: less_induct)
  case less
  show ?case
  proof (cases "low \<le> candidate \<and> attempts t < MAX_ATTEMPTS")
    case False
    then show ?thesis using less.prems(1) by (subst hc_walk.simps) auto
  next
    case True
    have wf: "hc_wf t" using less.prems(1) by (simp add: hc_ok_def)
    have c: "nat candidate < off" "low \<le> int (nat candidate)" using True less.prems(2) assms(2) by auto
    then obtain w where w: "read4 b (nat candidate) = Some w" using assms(4) by (auto simp: read4_eq)
    let ?t = "t\<lparr>attempts := attempts t + 1\<rparr>" and ?d = "uint (chain_table t ! hc_slot (nat candidate))"
    show ?thesis
    proof (cases "w = v")
      case eq: True
      then show ?thesis using True w c less.prems(1) by (subst hc_walk.simps) simp
    next
      case False
      have "hc_walk t b v low candidate = hc_walk ?t b v low (candidate - ?d)"
        using True w False hc_slot_less [OF wf] by (subst hc_walk.simps) (simp add: list_get_def)
      moreover have "hc_ok b base ?t" using less.prems(1) by (simp add: hc_ok_def hc_wf_def)
      moreover have "candidate - ?d < int off" using chain_nonzero [OF wf, of "nat candidate"] less.prems(2) by linarith
      moreover have "MAX_ATTEMPTS - attempts ?t < MAX_ATTEMPTS - attempts t" using True by (simp, linarith)
      ultimately show ?thesis using less.hyps [of ?t "candidate - ?d"] by simp
    qed
  qed
qed

lemma sint_small: "n < 2 ^ 31 \<Longrightarrow> sint (of_nat n :: i32) = int n"
proof -
  assume n: "n < 2 ^ 31"
  then have "unat (of_nat n :: i32) = n" by (simp add: unsigned_of_nat take_bit_nat_eq_self)
  with n show ?thesis using sint_eq_unat [of "of_nat n :: i32"] by simp
qed

lemma hc_get_ok:
  assumes "hc_ok b base t" and "base \<le> off" and "off + MIN_MATCH \<le> length b"
  shows "\<exists>r t'. hc_get t b off = Some (r, t') \<and> hc_ok b base t' \<and>
    (\<forall>c. r = Some c \<longrightarrow> base \<le> c \<and> c < off \<and> off - c < MAX_DISTANCE \<and> common b c off MIN_MATCH)"
proof -
  obtain t1 where t1: "hc_catch_up t b off = Some t1" "hc_ok b base t1" using hc_catch_up_ok [OF assms(1,3)] by blast
  let ?t = "t1\<lparr>attempts := 0\<rparr>" and ?v = "from_le_bytes (take 4 (drop off b)) :: u32"
  let ?low = "max base (off + 1 - min MAX_DISTANCE (off + 1))"
  have t: "hc_ok b base ?t" "cbase ?t = base" using t1(2) by (auto simp: hc_ok_def hc_wf_def)
  have wf: "hc_wf ?t" using t by (simp add: hc_ok_def)
  have v: "read4 b off = Some ?v" using assms(3) by (rule read4_eq)
  have "length b < 2 ^ 31" using t(1) by (simp add: hc_ok_def)
  then have small: "sint (of_nat off :: i32) = int off" "sint (of_nat ?low :: i32) = int ?low"
    using assms(2,3) by (auto simp: MIN_MATCH_def intro!: sint_small)
  let ?cand = "hash_slots ?t ! lz4_hash ?v HASH_LOG_HC"
  have get: "list_get (hash_slots ?t) (lz4_hash ?v HASH_LOG_HC) = Some ?cand"
    using hc_hash_less [OF wf] by (simp add: list_get_def)
  show ?thesis
  proof (cases "int off \<le> sint ?cand")
    case True
    then show ?thesis using t1(1) t v get small by (simp add: hc_get_def)
  next
    case False
    then obtain r t2 where w: "hc_walk ?t b ?v (int ?low) (sint ?cand) = Some (r, t2)" "hc_ok b base t2"
        "\<forall>c. r = Some c \<longrightarrow> int ?low \<le> int c \<and> c < off \<and> read4 b c = Some ?v"
      using hc_walk_ok [OF t(1), of "int ?low" "sint ?cand" off ?v] assms(3) by auto
    have "base \<le> c \<and> c < off \<and> off - c < MAX_DISTANCE \<and> common b c off MIN_MATCH" if "r = Some c" for c
    proof -
      have "?low \<le> c" "c < off" "read4 b c = Some ?v" using w(3) that by auto
      then show ?thesis using read4_common [OF _ v] by (auto simp: MAX_DISTANCE_def min_def max_def split: if_splits)
    qed
    moreover have "hc_get t b off = Some (r, t2)"
      using t1(1) v get small False w(1) t(2) by (simp add: hc_get_def)
    ultimately show ?thesis using w(2) by blast
  qed
qed

lemma hc_previous_ok:
  assumes "hc_ok b base t" and "base \<le> off" and "off + MIN_MATCH \<le> length b"
  shows "\<exists>r t'. hc_previous t b off = Some (r, t') \<and> hc_ok b base t' \<and>
    (\<forall>c. r = Some c \<longrightarrow> base \<le> c \<and> c < off \<and> common b c off MIN_MATCH)"
proof -
  let ?v = "from_le_bytes (take 4 (drop off b)) :: u32" and ?d = "uint (chain_table t ! hc_slot off)"
  have wf: "hc_wf t" "cbase t = base" using assms(1) by (auto simp: hc_ok_def)
  have v: "read4 b off = Some ?v" using assms(3) by (rule read4_eq)
  have "int off - ?d < int off" using chain_nonzero [OF wf(1), of off] by simp
  then obtain r t' where "hc_walk t b ?v (int base) (int off - ?d) = Some (r, t')" "hc_ok b base t'"
      "\<forall>c. r = Some c \<longrightarrow> int base \<le> int c \<and> c < off \<and> read4 b c = Some ?v"
    using hc_walk_ok [OF assms(1) _ _ assms(3), of "int base" "int off - ?d" ?v] by auto
  then show ?thesis
    using v hc_slot_less [OF wf(1), of off] read4_common [OF _ v] wf(2) by (auto simp: hc_previous_def list_get_def)
qed

lemma fill_facts:
  "i \<le> j \<Longrightarrow> j \<le> length xs \<Longrightarrow> length (fill i j v xs) = length xs" "0 \<notin> set xs \<Longrightarrow> v \<noteq> 0 \<Longrightarrow> 0 \<notin> set (fill i j v xs)"
  by (auto simp: fill_def dest: in_set_takeD in_set_dropD)

lemma hc_reset_ok: "hc_wf t \<Longrightarrow> length b < 2 ^ 31 \<Longrightarrow> hc_ok b off (hc_reset t b off len)"
proof -
  assume t: "hc_wf t" "length b < 2 ^ 31"
  have s: "hc_slot x < MAX_DISTANCE" "hc_slot x + 1 \<le> MAX_DISTANCE" for x
    by (auto simp: hc_slot_def MAX_DISTANCE_def Suc_le_eq)
  show ?thesis
    using t s fill_facts [where v = "0xFFFF :: u16"]
    by (auto simp: hc_reset_def hc_ok_def hc_wf_def Let_def less_imp_le)
qed

interpretation hc: match_finder hc_impl "\<lambda>b. length b < 2 ^ 31" hc_wf hc_ok
proof unfold_locales
  fix b base t assume "hc_ok b base t"
  then show "hc_wf t" by (simp add: hc_ok_def)
next
  fix t and b :: "u8 list" and base len n :: nat
  assume t: "hc_wf t" "length b < 2 ^ 31" "base + n + MIN_MATCH \<le> length b"
  let ?t = "hc_reset t b base len"
  have r: "cnext ?t = base" "cbase ?t = base" by (simp_all add: hc_reset_def Let_def)
  have "\<exists>t'. add_hashes ?t b (map (\<lambda>i. cbase ?t + i) [0..<n]) = Some t' \<and> hc_ok b base t'"
    using t r by (intro add_hashes_ok hc_reset_ok) auto
  then show "\<exists>t'. ht_init_dictionary hc_impl (ht_reset hc_impl t b base len) b n = Some t' \<and> hc_ok b base t'"
    using r by (auto simp: hc_impl_def hc_init_dictionary_def hc_ok_def hc_wf_def)
next
  fix b base t off assume "hc_ok b base t" "base \<le> off" "off + MIN_MATCH \<le> length b"
  then show "\<exists>r t'. ht_get hc_impl t b off = Some (r, t') \<and> hc_ok b base t' \<and>
      (\<forall>c. r = Some c \<longrightarrow> base \<le> c \<and> c < off \<and> off - c < MAX_DISTANCE \<and> common b c off MIN_MATCH)"
    "\<exists>r t'. ht_previous hc_impl t b off = Some (r, t') \<and> hc_ok b base t' \<and>
      (\<forall>c. r = Some c \<longrightarrow> base \<le> c \<and> c < off \<and> common b c off MIN_MATCH)"
    using hc_get_ok hc_previous_ok by (simp_all add: hc_impl_def)
qed

section \<open>Properties\<close>

text \<open>
  C1: LZ4 round trip with a preset dictionary and the fast table. For every buffer, every window
  \<open>dict_off\<close>, \<open>dict_len\<close>, \<open>len\<close> inside it whose dictionary has at most \<open>MAX_DISTANCE\<close> bytes (the bound the
  function documents and asserts; a longer one is the panic of a debug build) and every table left behind by earlier calls (the table is never
  cleared), \<open>compress_with_dictionary\<close> terminates without a panic and appends one block to \<open>out\<close>; from a cursor
  at that block, with any bytes after it, \<open>decompress\<close> into a buffer that holds the dictionary just before
  \<open>d_off\<close> restores exactly the compressed bytes, leaves the rest of the buffer alone and stops at the end of the block.
\<close>
theorem lz4_round_trip:
  assumes "dict_off + dict_len + len \<le> length b" and "dict_len \<le> MAX_DISTANCE"
  shows "\<exists>block t'. compress_with_dictionary fast_impl b dict_off dict_len len out t = Some (out @ block, t') \<and>
    (\<forall>s r d_off dest.
       slice_ok s \<longrightarrow> as_slice s = block @ r \<longrightarrow> dict_len \<le> d_off \<longrightarrow> d_off + len \<le> length dest \<longrightarrow> length dest \<le> usize_max \<longrightarrow>
       drop (d_off - dict_len) (take d_off dest) = take dict_len (drop dict_off b) \<longrightarrow>
       (\<exists>s'. decompress slice_impl len d_off (s, dest) =
          (Inr (d_off + len),
           (s', take d_off dest @ take len (drop (dict_off + dict_len) b) @ drop (d_off + len) dest)) \<and>
          slice_ok s' \<and> as_slice s' = r))"
  using fast.round_trip [OF TrueI TrueI assms, of out t] by simp

theorem lz4_round_trip_witness:
  "\<exists>block t'. compress_with_dictionary fast_impl (replicate 30 7) 2 4 20 [9] fast_new = Some ([9] @ block, t')"
  using lz4_round_trip [of 2 4 20 "replicate 30 7" "[9]" fast_new] by (auto simp: MAX_DISTANCE_def)

text \<open>
  C8: The same with the chained table, as the terms dictionary uses it: from any well-formed table (a new
  one, or one left by earlier calls), any buffer below 2 GiB and any window of it whose dictionary has at
  most \<open>MAX_DISTANCE\<close> bytes. The table that comes back is well formed
  again. Here the search for a longer match follows the chains; it ends because candidates strictly decrease.
\<close>
theorem lz4_high_compression_round_trip:
  assumes "hc_wf t" and "length b < 2 ^ 31" and "dict_off + dict_len + len \<le> length b"
    and "dict_len \<le> MAX_DISTANCE"
  shows "\<exists>block t'. compress_with_dictionary hc_impl b dict_off dict_len len out t = Some (out @ block, t') \<and> hc_wf t' \<and>
    (\<forall>s r d_off dest.
       slice_ok s \<longrightarrow> as_slice s = block @ r \<longrightarrow> dict_len \<le> d_off \<longrightarrow> d_off + len \<le> length dest \<longrightarrow> length dest \<le> usize_max \<longrightarrow>
       drop (d_off - dict_len) (take d_off dest) = take dict_len (drop dict_off b) \<longrightarrow>
       (\<exists>s'. decompress slice_impl len d_off (s, dest) =
          (Inr (d_off + len),
           (s', take d_off dest @ take len (drop (dict_off + dict_len) b) @ drop (d_off + len) dest)) \<and>
          slice_ok s' \<and> as_slice s' = r))"
  using hc.round_trip [OF assms, of out] .

lemma hc_wf_new: "hc_wf hc_new"
  by (auto simp: hc_wf_def hc_new_def)

theorem lz4_high_compression_round_trip_witness:
  "\<exists>block t'. compress_with_dictionary hc_impl (replicate 30 7) 2 4 20 [] hc_new = Some ([] @ block, t') \<and> hc_wf t'"
  using lz4_high_compression_round_trip [OF hc_wf_new, of "replicate 30 7" 2 4 20 "[]"] by (auto simp: MAX_DISTANCE_def)

text \<open>
  The one-shot \<open>compress\<close> always returns a block, and decompressing the block into any buffer of the
  original length gives the original bytes and consumes the whole block.
\<close>
theorem compress_decompress:
  "\<exists>block. compress b = Some block \<and>
     (length block \<le> usize_max \<longrightarrow> length b \<le> usize_max \<longrightarrow> (\<forall>dest. length dest = length b \<longrightarrow>
       (\<exists>s'. decompress slice_impl (length b) 0 (slice_new block, dest) = (Inr (length b), (s', b)) \<and> as_slice s' = [])))"
proof -
  have "(0 :: nat) + 0 + length b \<le> length b" "0 \<le> MAX_DISTANCE" by simp_all
  from fast.round_trip [OF TrueI TrueI this, of "[]" fast_new] obtain block t' where
    c: "compress_with_dictionary fast_impl b 0 0 (length b) [] fast_new = Some (block, t')"
    and d: "\<And>s r d_off dest. slice_ok s \<Longrightarrow> as_slice s = block @ r \<Longrightarrow> d_off + length b \<le> length dest \<Longrightarrow> length dest \<le> usize_max \<Longrightarrow>
       (\<exists>s'. decompress slice_impl (length b) d_off (s, dest) = (Inr (d_off + length b), (s', take d_off dest @ b @ drop (d_off + length b) dest)) \<and>
          slice_ok s' \<and> as_slice s' = r)"
    by auto
  have "compress b = Some block" by (simp add: compress_def compress_into_def c)
  moreover have "\<exists>s'. decompress slice_impl (length b) 0 (slice_new block, dest) = (Inr (length b), (s', b)) \<and> as_slice s' = []"
    if "length block \<le> usize_max" "length b \<le> usize_max" "length dest = length b" for dest
    using d [of "slice_new block" "[]" 0 dest] that by (auto simp: slice_new_def slice_ok_def as_slice_def)
  ultimately show ?thesis by blast
qed

theorem compress_decompress_witness:
  "\<exists>block. compress (replicate 12 3 @ [4]) = Some block"
  using compress_decompress [of "replicate 12 3 @ [4]"] by blast

end
