(* ===== verification/Segment_Info.thy ===== *)
theory Segment_Info
  imports Segment_Infos
begin

text \<open>
  The \<open>.si\<close> file of a segment (\<open>segment_info.rs\<close>), its index sort with the comparator that orders documents, and
  the table of readable codecs (\<open>codecs.rs\<close>) that decides which generation of the format a segment uses.

  A float is its IEEE bit pattern, and \<open><\<close> on floats is the order of sign and magnitude of the patterns, with NaN
  unordered and the two zeros equal. The text of an unsupported sort field is its type name. The codecs registered at
  run time are a list handed to \<open>for_name\<close>. The text of a SimpleText error is opaque. The SimpleText form, the diagnostics of a writer and the text rendering
  of a sort are not modelled.
\<close>

section \<open>Codecs\<close>

datatype segment_info_format = SegmentInfoLucene90 | SegmentInfoLucene99

datatype field_infos_format = FieldInfosLucene90 | FieldInfosLucene94

record codec_formats =
  codec_formats_name :: "u8 list"
  codec_segment_info :: segment_info_format
  codec_field_infos :: field_infos_format
  default_postings :: "u8 list"
  default_knn_vectors :: "u8 list"
  extra_files :: "u8 list list"

definition CODECS :: "codec_formats list" where
  "CODECS =
    [\<lparr>codec_formats_name = ascii ''Lucene90'', codec_segment_info = SegmentInfoLucene90, codec_field_infos = FieldInfosLucene90,
      default_postings = ascii ''Lucene90'', default_knn_vectors = ascii ''Lucene90HnswVectorsFormat'', extra_files = []\<rparr>,
     \<lparr>codec_formats_name = ascii ''Lucene91'', codec_segment_info = SegmentInfoLucene90, codec_field_infos = FieldInfosLucene90,
      default_postings = ascii ''Lucene90'', default_knn_vectors = ascii ''Lucene91HnswVectorsFormat'', extra_files = []\<rparr>,
     \<lparr>codec_formats_name = ascii ''Lucene92'', codec_segment_info = SegmentInfoLucene90, codec_field_infos = FieldInfosLucene90,
      default_postings = ascii ''Lucene90'', default_knn_vectors = ascii ''lucene92HnswVectorsFormat'', extra_files = []\<rparr>,
     \<lparr>codec_formats_name = ascii ''Lucene94'', codec_segment_info = SegmentInfoLucene90, codec_field_infos = FieldInfosLucene94,
      default_postings = ascii ''Lucene90'', default_knn_vectors = ascii ''Lucene94HnswVectorsFormat'', extra_files = []\<rparr>,
     \<lparr>codec_formats_name = ascii ''Lucene95'', codec_segment_info = SegmentInfoLucene90, codec_field_infos = FieldInfosLucene94,
      default_postings = ascii ''Lucene90'', default_knn_vectors = ascii ''Lucene95HnswVectorsFormat'', extra_files = []\<rparr>,
     \<lparr>codec_formats_name = ascii ''Lucene99'', codec_segment_info = SegmentInfoLucene99, codec_field_infos = FieldInfosLucene94,
      default_postings = ascii ''Lucene99'', default_knn_vectors = ascii ''Lucene99HnswVectorsFormat'', extra_files = []\<rparr>,
     \<lparr>codec_formats_name = ascii ''Lucene912'', codec_segment_info = SegmentInfoLucene99, codec_field_infos = FieldInfosLucene94,
      default_postings = ascii ''Lucene912'', default_knn_vectors = ascii ''Lucene99HnswVectorsFormat'', extra_files = []\<rparr>,
     \<lparr>codec_formats_name = ascii ''Lucene100'', codec_segment_info = SegmentInfoLucene99, codec_field_infos = FieldInfosLucene94,
      default_postings = ascii ''Lucene912'', default_knn_vectors = ascii ''Lucene99HnswVectorsFormat'', extra_files = []\<rparr>,
     \<lparr>codec_formats_name = ascii ''Lucene101'', codec_segment_info = SegmentInfoLucene99, codec_field_infos = FieldInfosLucene94,
      default_postings = ascii ''Lucene101'', default_knn_vectors = ascii ''Lucene99HnswVectorsFormat'', extra_files = []\<rparr>,
     \<lparr>codec_formats_name = ascii ''Lucene103'', codec_segment_info = SegmentInfoLucene99, codec_field_infos = FieldInfosLucene94,
      default_postings = ascii ''Lucene103'', default_knn_vectors = ascii ''Lucene99HnswVectorsFormat'', extra_files = []\<rparr>,
     \<lparr>codec_formats_name = ascii ''Lucene104'', codec_segment_info = SegmentInfoLucene99, codec_field_infos = FieldInfosLucene94,
      default_postings = ascii ''Lucene104'', default_knn_vectors = ascii ''Lucene99HnswVectorsFormat'', extra_files = []\<rparr>]"

definition ZSTD_CODEC :: "u8 list" where
  "ZSTD_CODEC = ascii ''ZSTD104''"

definition ZSTD_NO_DICT_CODEC :: "u8 list" where
  "ZSTD_NO_DICT_CODEC = ascii ''ZSTDNODICT104''"

definition ZSTD_PAGED_CODEC :: "u8 list" where
  "ZSTD_PAGED_CODEC = ascii ''LuceneRustZstdPaged104''"

definition OPENSEARCH_ZSTD_CODECS :: "(u8 list \<times> u8 list) list" where
  "OPENSEARCH_ZSTD_CODECS =
    [(ascii ''Lucene95CustomCodec'', ascii ''Lucene95''), (ascii ''ZSTD'', ascii ''Lucene95''),
     (ascii ''ZSTDNODICT'', ascii ''Lucene95''), (ascii ''ZSTD99'', ascii ''Lucene99''),
     (ascii ''ZSTDNODICT99'', ascii ''Lucene99''), (ascii ''ZSTD912'', ascii ''Lucene912''),
     (ascii ''ZSTDNODICT912'', ascii ''Lucene912''), (ascii ''ZSTD101'', ascii ''Lucene101''),
     (ascii ''ZSTDNODICT101'', ascii ''Lucene101''), (ascii ''ZSTD103'', ascii ''Lucene103''),
     (ascii ''ZSTDNODICT103'', ascii ''Lucene103''), (ZSTD_CODEC, ascii ''Lucene104''),
     (ZSTD_NO_DICT_CODEC, ascii ''Lucene104'')]"

definition OPENSEARCH_KNN_CODECS :: "(u8 list \<times> u8 list) list" where
  "OPENSEARCH_KNN_CODECS =
    [(ascii ''KNN910Codec'', ascii ''Lucene91''), (ascii ''KNN920Codec'', ascii ''Lucene92''),
     (ascii ''KNN940Codec'', ascii ''Lucene94''), (ascii ''KNN950Codec'', ascii ''Lucene95''),
     (ascii ''KNN990Codec'', ascii ''Lucene99''), (ascii ''KNN9120Codec'', ascii ''Lucene912''),
     (ascii ''KNN10010Codec'', ascii ''Lucene101''), (ascii ''KNN1030Codec'', ascii ''Lucene103''),
     (ascii ''KNN1040Codec'', ascii ''Lucene104'')]"

definition RUST_CODECS :: "(u8 list \<times> u8 list) list" where
  "RUST_CODECS = [(ZSTD_PAGED_CODEC, ascii ''Lucene104'')]"

definition renamed :: "codec_formats \<Rightarrow> u8 list \<Rightarrow> codec_formats" where
  "renamed formats n = formats\<lparr>codec_formats_name := n\<rparr>"

definition OPENSEARCH :: "codec_formats list" where
  "OPENSEARCH =
     List.map_filter (\<lambda>(n, delegate). map_option (\<lambda>c. renamed c n) (find (\<lambda>c. codec_formats_name c = delegate) CODECS))
       (OPENSEARCH_ZSTD_CODECS @ OPENSEARCH_KNN_CODECS @ RUST_CODECS)"

definition register :: "codec_formats \<Rightarrow> codec_formats list \<Rightarrow> codec_formats list" where
  "register formats registered =
     (if list_ex (\<lambda>c. codec_formats_name c = codec_formats_name formats) (CODECS @ OPENSEARCH) then registered
      else if list_ex (\<lambda>c. c = formats) registered then registered
      else filter (\<lambda>c. codec_formats_name c \<noteq> codec_formats_name formats) registered @ [formats])"

definition for_name :: "codec_formats list \<Rightarrow> u8 list \<Rightarrow> codec_formats option" where
  "for_name registered n =
     (case find (\<lambda>c. codec_formats_name c = n) (CODECS @ OPENSEARCH) of
        Some c \<Rightarrow> Some c
      | None \<Rightarrow> find (\<lambda>c. codec_formats_name c = n) registered)"

section \<open>Floats as bit patterns\<close>

text \<open>\<open>f32::is_nan\<close>, \<open>f64::is_nan\<close> and \<open><\<close>, for a format whose infinity has the pattern \<open>infty_bits\<close>.\<close>

definition float_magnitude :: "'a::len word \<Rightarrow> nat" where
  "float_magnitude x = unat (take_bit (LENGTH('a) - 1) x)"

definition float_nan :: "'a::len word \<Rightarrow> 'a word \<Rightarrow> bool" where
  "float_nan infty_bits x = (unat infty_bits < float_magnitude x)"

definition float_key :: "'a::len word \<Rightarrow> int" where
  "float_key x = (if bit x (LENGTH('a) - 1) then - int (float_magnitude x) else int (float_magnitude x))"

definition float_less :: "'a::len word \<Rightarrow> 'a word \<Rightarrow> 'a word \<Rightarrow> bool" where
  "float_less infty_bits a b = (\<not> float_nan infty_bits a \<and> \<not> float_nan infty_bits b \<and> float_key a < float_key b)"

definition f32_infinity :: u32 where
  "f32_infinity = 0x7f800000"

definition f64_infinity :: u64 where
  "f64_infinity = 0x7ff0000000000000"

datatype ordering = Less | Equal | Greater

definition cmp :: "int \<Rightarrow> int \<Rightarrow> ordering" where
  "cmp a b = (if a < b then Less else if a = b then Equal else Greater)"

fun reverse_ordering :: "ordering \<Rightarrow> ordering" where
  "reverse_ordering Less = Greater"
| "reverse_ordering Equal = Equal"
| "reverse_ordering Greater = Less"

definition canonical_float_bits :: "u32 \<Rightarrow> i32" where
  "canonical_float_bits v = (if float_nan f32_infinity v then 0x7fc00000 else v)"

definition canonical_double_bits :: "u64 \<Rightarrow> i64" where
  "canonical_double_bits v = (if float_nan f64_infinity v then 0x7ff8000000000000 else v)"

definition java_float_compare :: "u32 \<Rightarrow> u32 \<Rightarrow> ordering" where
  "java_float_compare a b =
     (if float_less f32_infinity a b then Less
      else if float_less f32_infinity b a then Greater
      else cmp (sint (canonical_float_bits a)) (sint (canonical_float_bits b)))"

definition java_double_compare :: "u64 \<Rightarrow> u64 \<Rightarrow> ordering" where
  "java_double_compare a b =
     (if float_less f64_infinity a b then Less
      else if float_less f64_infinity b a then Greater
      else cmp (sint (canonical_double_bits a)) (sint (canonical_double_bits b)))"

definition sortable_float_bits :: "i32 \<Rightarrow> i32" where
  "sortable_float_bits b = b XOR (signed_drop_bit 31 b AND 0x7fffffff)"

definition float_to_sortable_int :: "u32 \<Rightarrow> i32" where
  "float_to_sortable_int v =
     (let bits = (if float_nan f32_infinity v then 0x7fc00000 else v) in sortable_float_bits bits)"

definition sortable_int_to_float :: "i32 \<Rightarrow> u32" where
  "sortable_int_to_float encoded = sortable_float_bits encoded"

definition sortable_double_bits :: "i64 \<Rightarrow> i64" where
  "sortable_double_bits b = b XOR (signed_drop_bit 63 b AND 0x7fffffffffffffff)"

definition double_to_sortable_long :: "u64 \<Rightarrow> i64" where
  "double_to_sortable_long v =
     (let bits = (if float_nan f64_infinity v then 0x7ff8000000000000 else v) in sortable_double_bits bits)"

definition sortable_long_to_double :: "i64 \<Rightarrow> u64" where
  "sortable_long_to_double encoded = sortable_double_bits encoded"

section \<open>Sort fields\<close>

datatype numeric_sort_key =
    IntKey "i32 option"
  | LongKey "i64 option"
  | FloatKey "u32 option"
  | DoubleKey "u64 option"

datatype string_missing_value = MissingNone | MissingFirst | MissingLast

datatype sorted_numeric_selector = NumericMin | NumericMax

datatype sorted_set_selector = SetMin | SetMax | SetMiddleMin | SetMiddleMax

datatype index_sort_kind =
    NumericSort numeric_sort_key
  | StringSort string_missing_value
  | SortedNumericSort numeric_sort_key sorted_numeric_selector
  | SortedSetSort sorted_set_selector string_missing_value
  | BinarySort string_missing_value

datatype sort_key_kind =
    KindInt
  | KindLong
  | KindFloat
  | KindDouble
  | KindSortableFloat
  | KindSortableDouble
  | KindOrdinal

record index_sort_field =
  sort_field :: "u8 list"
  sort_reverse :: bool
  sort_kind :: index_sort_kind

definition isf_long :: "u8 list \<Rightarrow> bool \<Rightarrow> i64 option \<Rightarrow> index_sort_field" where
  "isf_long field reverse missing = \<lparr>sort_field = field, sort_reverse = reverse, sort_kind = NumericSort (LongKey missing)\<rparr>"

definition TYPE_INT :: "u8 list" where
  "TYPE_INT = ascii ''INT''"

definition TYPE_LONG :: "u8 list" where
  "TYPE_LONG = ascii ''LONG''"

definition TYPE_FLOAT :: "u8 list" where
  "TYPE_FLOAT = ascii ''FLOAT''"

definition TYPE_DOUBLE :: "u8 list" where
  "TYPE_DOUBLE = ascii ''DOUBLE''"

definition TYPE_STRING :: "u8 list" where
  "TYPE_STRING = ascii ''STRING''"

definition TYPES_NOT_SORTABLE_ON_DISK :: "u8 list list" where
  "TYPES_NOT_SORTABLE_ON_DISK =
     [ascii ''SCORE'', ascii ''DOC'', ascii ''CUSTOM'', ascii ''STRING_VAL'', ascii ''REWRITEABLE'']"

definition PROVIDER_SORT_FIELD :: "u8 list" where
  "PROVIDER_SORT_FIELD = ascii ''SortField''"

definition PROVIDER_SORTED_NUMERIC :: "u8 list" where
  "PROVIDER_SORTED_NUMERIC = ascii ''SortedNumericSortField''"

definition PROVIDER_SORTED_SET :: "u8 list" where
  "PROVIDER_SORTED_SET = ascii ''SortedSetSortField''"

definition PROVIDER_BINARY :: "u8 list" where
  "PROVIDER_BINARY = ascii ''BinarySortField''"

fun key_type_name :: "numeric_sort_key \<Rightarrow> u8 list" where
  "key_type_name (IntKey _) = TYPE_INT"
| "key_type_name (LongKey _) = TYPE_LONG"
| "key_type_name (FloatKey _) = TYPE_FLOAT"
| "key_type_name (DoubleKey _) = TYPE_DOUBLE"

definition unwrap_or :: "'a \<Rightarrow> 'a option \<Rightarrow> 'a" where
  "unwrap_or d m = (case m of None \<Rightarrow> d | Some v \<Rightarrow> v)"

fun numeric_key_comparison :: "numeric_sort_key \<Rightarrow> sort_key_kind \<times> i64" where
  "numeric_key_comparison (IntKey m) = (KindInt, scast (unwrap_or 0 m))"
| "numeric_key_comparison (LongKey m) = (KindLong, unwrap_or 0 m)"
| "numeric_key_comparison (FloatKey m) = (KindFloat, scast (unwrap_or 0 m))"
| "numeric_key_comparison (DoubleKey m) = (KindDouble, unwrap_or 0 m)"

fun missing_ord :: "string_missing_value \<Rightarrow> i64" where
  "missing_ord MissingLast = 0x7fffffff"
| "missing_ord MissingNone = - 0x80000000"
| "missing_ord MissingFirst = - 0x80000000"

fun kind_comparison :: "index_sort_kind \<Rightarrow> sort_key_kind \<times> i64" where
  "kind_comparison (NumericSort key) = numeric_key_comparison key"
| "kind_comparison (SortedNumericSort key _) =
     (case key of
        FloatKey m \<Rightarrow> (KindSortableFloat, scast (float_to_sortable_int (unwrap_or 0 m)))
      | DoubleKey m \<Rightarrow> (KindSortableDouble, double_to_sortable_long (unwrap_or 0 m))
      | key \<Rightarrow> numeric_key_comparison key)"
| "kind_comparison (StringSort missing) = (KindOrdinal, missing_ord missing)"
| "kind_comparison (SortedSetSort _ missing) = (KindOrdinal, missing_ord missing)"
| "kind_comparison (BinarySort missing) = (KindOrdinal, missing_ord missing)"

definition key_comparison :: "index_sort_field \<Rightarrow> sort_key_kind \<times> i64" where
  "key_comparison sf = kind_comparison (sort_kind sf)"

record sort_key_comparator =
  cmp_kind :: sort_key_kind
  sentinel :: i64
  cmp_reverse :: bool

definition comparator_new :: "index_sort_field \<Rightarrow> sort_key_comparator" where
  "comparator_new sf =
     (let (kind, s) = key_comparison sf in \<lparr>cmp_kind = kind, sentinel = s, cmp_reverse = sort_reverse sf\<rparr>)"

definition compare_keys :: "sort_key_kind \<Rightarrow> i64 \<Rightarrow> i64 \<Rightarrow> ordering" where
  "compare_keys kind a b =
     (case kind of
        KindInt \<Rightarrow> cmp (sint (ucast a :: i32)) (sint (ucast b :: i32))
      | KindOrdinal \<Rightarrow> cmp (sint (ucast a :: i32)) (sint (ucast b :: i32))
      | KindLong \<Rightarrow> cmp (sint a) (sint b)
      | KindFloat \<Rightarrow> java_float_compare (ucast a) (ucast b)
      | KindDouble \<Rightarrow> java_double_compare a b
      | KindSortableFloat \<Rightarrow> java_float_compare (sortable_int_to_float (ucast a)) (sortable_int_to_float (ucast b))
      | KindSortableDouble \<Rightarrow> java_double_compare (sortable_long_to_double a) (sortable_long_to_double b))"

definition compare :: "sort_key_comparator \<Rightarrow> i64 option \<Rightarrow> i64 option \<Rightarrow> ordering" where
  "compare c a b =
     (let a = unwrap_or (sentinel c) a; b = unwrap_or (sentinel c) b; ord = compare_keys (cmp_kind c) a b
      in if cmp_reverse c then reverse_ordering ord else ord)"

section \<open>Reading\<close>

datatype info_error =
    InfoStore error
  | SimpleText "u8 list"
  | InvalidDocCount int
  | IllegalHasMinVersion u8
  | InvalidSortFieldCount int
  | UnknownSortFieldProvider "u8 list"
  | UnknownSortFieldType "u8 list"
  | UnknownSortSelector "u8 list" int
  | UnsupportedSortField "u8 list" "u8 list"
  | InfoIllegalVersion string int
  | UnknownCodec "u8 list"

record segment_info =
  info_id :: "u8 list"
  info_version :: lucene_version
  info_min_version :: "lucene_version option"
  doc_count :: i32
  is_compound_file :: bool
  has_blocks :: bool
  diagnostics :: "(u8 list \<times> u8 list) list"
  info_files :: "name list"
  attributes :: "(u8 list \<times> u8 list) list"
  index_sort :: "index_sort_field list option"

type_synonym 'a info_parser = "(slice_input, info_error, 'a) fallible"

abbreviation info_store :: "(slice_input, 'a) stateful \<Rightarrow> 'a info_parser" where
  "info_store \<equiv> map_err InfoStore"

definition info_check_version_component :: "string \<Rightarrow> i32 \<Rightarrow> info_error + i32" where
  "info_check_version_component which v =
     (if \<not> (0 \<le> sint v \<and> sint v \<le> 255) then Inl (InfoIllegalVersion which (sint v)) else Inr v)"

definition read_component :: "string \<Rightarrow> i32 info_parser" where
  "read_component which = bnd (info_store slice_read_i32) (\<lambda>v. lift_res (info_check_version_component which v))"

definition read_version :: "lucene_version info_parser" where
  "read_version =
     bnd (read_component ''major'') (\<lambda>a. bnd (read_component ''minor'') (\<lambda>b. bnd (read_component ''bugfix'') (\<lambda>c.
       ret \<lparr>major = a, minor = b, bugfix = c\<rparr>)))"

definition read_reverse :: "bool info_parser" where
  "read_reverse = bnd (info_store slice_read_i32) (\<lambda>v. ret (v = 1))"

definition read_type :: "u8 list info_parser" where
  "read_type =
     bnd (info_store slice_read_string) (\<lambda>n.
       if n = TYPE_INT \<or> n = TYPE_LONG \<or> n = TYPE_FLOAT \<or> n = TYPE_DOUBLE \<or> n = TYPE_STRING \<or>
          n \<in> set TYPES_NOT_SORTABLE_ON_DISK then ret n
       else fail (UnknownSortFieldType n))"

definition read_missing :: "bool \<Rightarrow> (slice_input, 'a) stateful \<Rightarrow> 'a option info_parser" where
  "read_missing has_missing r = (if has_missing then bnd (info_store r) (\<lambda>v. ret (Some v)) else ret None)"

definition read_numeric_key :: "u8 list \<Rightarrow> u8 list \<Rightarrow> numeric_sort_key info_parser" where
  "read_numeric_key field type_name =
     bnd (info_store slice_read_i32) (\<lambda>m. let has_missing = (m = 1) in
       if type_name = TYPE_INT then bnd (read_missing has_missing slice_read_i32) (\<lambda>m. ret (IntKey m))
       else if type_name = TYPE_LONG then bnd (read_missing has_missing slice_read_i64) (\<lambda>m. ret (LongKey m))
       else if type_name = TYPE_FLOAT then
         bnd (read_missing has_missing slice_read_i32) (\<lambda>m. ret (FloatKey (map_option sortable_int_to_float m)))
       else if type_name = TYPE_DOUBLE then
         bnd (read_missing has_missing slice_read_i64) (\<lambda>m. ret (DoubleKey (map_option sortable_long_to_double m)))
       else fail (UnsupportedSortField field type_name))"

definition read_string_missing :: "string_missing_value info_parser" where
  "read_string_missing =
     bnd (info_store slice_read_i32) (\<lambda>m.
       if m = 1 then bnd (info_store slice_read_i32) (\<lambda>f. ret (if f = 1 then MissingFirst else MissingLast))
       else ret MissingNone)"

definition read_plain_sort_field :: "index_sort_field info_parser" where
  "read_plain_sort_field =
     bnd (info_store slice_read_string) (\<lambda>field. bnd read_type (\<lambda>type_name. bnd read_reverse (\<lambda>reverse.
     bnd (if type_name = TYPE_STRING then bnd read_string_missing (\<lambda>m. ret (StringSort m))
          else bnd (read_numeric_key field type_name) (\<lambda>k. ret (NumericSort k))) (\<lambda>kind.
       ret \<lparr>sort_field = field, sort_reverse = reverse, sort_kind = kind\<rparr>))))"

definition read_sorted_numeric_selector :: "sorted_numeric_selector info_parser" where
  "read_sorted_numeric_selector =
     bnd (info_store slice_read_i32) (\<lambda>v.
       if v = 0 then ret NumericMin else if v = 1 then ret NumericMax
       else fail (UnknownSortSelector PROVIDER_SORTED_NUMERIC (sint v)))"

definition read_sorted_set_selector :: "sorted_set_selector info_parser" where
  "read_sorted_set_selector =
     bnd (info_store slice_read_i32) (\<lambda>v.
       if v = 0 then ret SetMin else if v = 1 then ret SetMax else if v = 2 then ret SetMiddleMin
       else if v = 3 then ret SetMiddleMax
       else fail (UnknownSortSelector PROVIDER_SORTED_SET (sint v)))"

definition read_sorted_numeric_sort_field :: "index_sort_field info_parser" where
  "read_sorted_numeric_sort_field =
     bnd (info_store slice_read_string) (\<lambda>field. bnd read_type (\<lambda>type_name. bnd read_reverse (\<lambda>reverse.
     bnd read_sorted_numeric_selector (\<lambda>selector. bnd (read_numeric_key field type_name) (\<lambda>key.
       ret \<lparr>sort_field = field, sort_reverse = reverse, sort_kind = SortedNumericSort key selector\<rparr>)))))"

definition read_string_missing_marker :: "string_missing_value info_parser" where
  "read_string_missing_marker =
     bnd (info_store slice_read_i32) (\<lambda>v.
       ret (if v = 1 then MissingFirst else if v = 2 then MissingLast else MissingNone))"

definition read_sorted_set_sort_field :: "index_sort_field info_parser" where
  "read_sorted_set_sort_field =
     bnd (info_store slice_read_string) (\<lambda>field. bnd read_reverse (\<lambda>reverse.
     bnd read_sorted_set_selector (\<lambda>selector. bnd read_string_missing_marker (\<lambda>missing.
       ret \<lparr>sort_field = field, sort_reverse = reverse, sort_kind = SortedSetSort selector missing\<rparr>))))"

definition read_binary_sort_field :: "index_sort_field info_parser" where
  "read_binary_sort_field =
     bnd (info_store slice_read_string) (\<lambda>field. bnd read_reverse (\<lambda>reverse. bnd read_string_missing_marker (\<lambda>missing.
       ret \<lparr>sort_field = field, sort_reverse = reverse, sort_kind = BinarySort missing\<rparr>)))"

definition read_sort_field_provider :: "u8 list \<Rightarrow> index_sort_field info_parser" where
  "read_sort_field_provider provider =
     (if provider = PROVIDER_SORT_FIELD then read_plain_sort_field
      else if provider = PROVIDER_SORTED_NUMERIC then read_sorted_numeric_sort_field
      else if provider = PROVIDER_SORTED_SET then read_sorted_set_sort_field
      else if provider = PROVIDER_BINARY then read_binary_sort_field
      else fail (UnknownSortFieldProvider provider))"

definition read_sort_field :: "index_sort_field info_parser" where
  "read_sort_field = bnd (info_store slice_read_string) read_sort_field_provider"

definition read_index_sort :: "index_sort_field list option info_parser" where
  "read_index_sort =
     bnd (info_store slice_read_vint) (\<lambda>n s.
       if sint n < 0 then fail (InvalidSortFieldCount (sint n)) s
       else if slice_remaining s < nat (sint n) then fail (InvalidSortFieldCount (sint n)) s
       else if n = 0 then ret None s
       else bnd (read_many read_sort_field (nat (sint n))) (\<lambda>sfs. ret (Some sfs)) s)"

definition parse_index_sort :: "u8 list \<Rightarrow> info_error + index_sort_field list option" where
  "parse_index_sort b = fst (read_index_sort (slice_new b))"

definition INFO_CODEC_NAME :: "u8 list" where
  "INFO_CODEC_NAME = ascii ''Lucene90SegmentInfo''"

definition INFO_VERSION_START :: i32 where
  "INFO_VERSION_START = 0"

definition INFO_VERSION_CURRENT :: i32 where
  "INFO_VERSION_CURRENT = 0"

definition info_payload :: "u8 list \<Rightarrow> segment_info_format \<Rightarrow> segment_info info_parser" where
  "info_payload segid format =
     bnd (info_store (check_index_header INFO_CODEC_NAME INFO_VERSION_START INFO_VERSION_CURRENT segid [])) (\<lambda>_.
     bnd read_version (\<lambda>v.
     bnd (info_store slice_read_byte) (\<lambda>has_min_version.
     bnd (if has_min_version = 0 then ret None
          else if has_min_version = 1 then bnd read_version (\<lambda>v. ret (Some v))
          else fail (IllegalHasMinVersion has_min_version)) (\<lambda>min_version.
     bnd (info_store slice_read_i32) (\<lambda>docs.
     if sint docs < 0 then fail (InvalidDocCount (sint docs))
     else
       bnd (info_store slice_read_byte) (\<lambda>compound.
       bnd (case format of SegmentInfoLucene90 \<Rightarrow> ret False
            | SegmentInfoLucene99 \<Rightarrow> bnd (info_store slice_read_byte) (\<lambda>b. ret (b = 1))) (\<lambda>blocks.
       bnd (info_store (read_map_of_strings slice_impl slice_read_string)) (\<lambda>diags.
       bnd (info_store (read_set_of_strings slice_impl slice_read_string)) (\<lambda>files.
       bnd (info_store (read_map_of_strings slice_impl slice_read_string)) (\<lambda>attrs.
       bnd read_index_sort (\<lambda>isort.
         ret \<lparr>info_id = segid, info_version = v, info_min_version = min_version, doc_count = docs,
              is_compound_file = (compound = 1), has_blocks = blocks, diagnostics = diags, info_files = files,
              attributes = attrs, index_sort = isort\<rparr>)))))))))))"

definition parse_with_format ::
    "('h, 'z) crc32fast_scheme \<Rightarrow> nat \<Rightarrow> u8 list \<Rightarrow> u8 list \<Rightarrow> segment_info_format \<Rightarrow> info_error + segment_info" where
  "parse_with_format K threads b segid format =
     fst (bnd (info_payload segid format) (\<lambda>si. bnd (info_store (check_footer K threads (length b))) (\<lambda>_. ret si)) (slice_new b))"

definition info_parse :: "('h, 'z) crc32fast_scheme \<Rightarrow> nat \<Rightarrow> u8 list \<Rightarrow> u8 list \<Rightarrow> info_error + segment_info" where
  "info_parse K threads b segid = parse_with_format K threads b segid SegmentInfoLucene99"

definition parse_for_codec ::
    "('h, 'z) crc32fast_scheme \<Rightarrow> nat \<Rightarrow> codec_formats list \<Rightarrow> u8 list \<Rightarrow> u8 list \<Rightarrow> u8 list \<Rightarrow> info_error + segment_info" where
  "parse_for_codec K threads registered b segid codec =
     (case for_name registered codec of
        None \<Rightarrow> Inl (UnknownCodec codec)
      | Some c \<Rightarrow> parse_with_format K threads b segid (codec_segment_info c))"

section \<open>Writing\<close>

definition write_optional :: "u8 list \<Rightarrow> (u8 list \<Rightarrow> 'a \<Rightarrow> u8 list) \<Rightarrow> 'a option \<Rightarrow> u8 list" where
  "write_optional out w m =
     (case m of Some v \<Rightarrow> w (write_i32 bytes_impl out 1) v | None \<Rightarrow> write_i32 bytes_impl out 0)"

fun write_numeric_missing :: "u8 list \<Rightarrow> numeric_sort_key \<Rightarrow> u8 list" where
  "write_numeric_missing out (IntKey m) = write_optional out (write_i32 bytes_impl) m"
| "write_numeric_missing out (LongKey m) = write_optional out (write_i64 bytes_impl) m"
| "write_numeric_missing out (FloatKey m) = write_optional out (\<lambda>out v. write_i32 bytes_impl out (float_to_sortable_int v)) m"
| "write_numeric_missing out (DoubleKey m) = write_optional out (\<lambda>out v. write_i64 bytes_impl out (double_to_sortable_long v)) m"

definition write_string_missing_marker :: "u8 list \<Rightarrow> string_missing_value \<Rightarrow> u8 list" where
  "write_string_missing_marker out missing =
     write_i32 bytes_impl out (case missing of MissingFirst \<Rightarrow> 1 | MissingLast \<Rightarrow> 2 | MissingNone \<Rightarrow> 0)"

definition sort_field_provider :: "index_sort_field \<Rightarrow> u8 list" where
  "sort_field_provider sf =
     (case sort_kind sf of
        NumericSort _ \<Rightarrow> PROVIDER_SORT_FIELD
      | StringSort _ \<Rightarrow> PROVIDER_SORT_FIELD
      | SortedNumericSort _ _ \<Rightarrow> PROVIDER_SORTED_NUMERIC
      | SortedSetSort _ _ \<Rightarrow> PROVIDER_SORTED_SET
      | BinarySort _ \<Rightarrow> PROVIDER_BINARY)"

definition write_sort_field_value :: "u8 list \<Rightarrow> index_sort_field \<Rightarrow> u8 list" where
  "write_sort_field_value out sf =
     (let reverse = (if sort_reverse sf then 1 else 0) in
      case sort_kind sf of
        NumericSort key \<Rightarrow>
          let out = write_string bytes_impl out (sort_field sf);
              out = write_string bytes_impl out (key_type_name key);
              out = write_i32 bytes_impl out reverse
          in write_numeric_missing out key
      | StringSort missing \<Rightarrow>
          let out = write_string bytes_impl out (sort_field sf);
              out = write_string bytes_impl out TYPE_STRING;
              out = write_i32 bytes_impl out reverse
          in (case missing of
                MissingNone \<Rightarrow> write_i32 bytes_impl out 0
              | MissingFirst \<Rightarrow> write_i32 bytes_impl (write_i32 bytes_impl out 1) 1
              | MissingLast \<Rightarrow> write_i32 bytes_impl (write_i32 bytes_impl out 1) 0)
      | SortedNumericSort key selector \<Rightarrow>
          let out = write_string bytes_impl out (sort_field sf);
              out = write_string bytes_impl out (key_type_name key);
              out = write_i32 bytes_impl out reverse;
              out = write_i32 bytes_impl out (case selector of NumericMin \<Rightarrow> 0 | NumericMax \<Rightarrow> 1)
          in write_numeric_missing out key
      | SortedSetSort selector missing \<Rightarrow>
          let out = write_string bytes_impl out (sort_field sf);
              out = write_i32 bytes_impl out reverse;
              out = write_i32 bytes_impl out
                (case selector of SetMin \<Rightarrow> 0 | SetMax \<Rightarrow> 1 | SetMiddleMin \<Rightarrow> 2 | SetMiddleMax \<Rightarrow> 3)
          in write_string_missing_marker out missing
      | BinarySort missing \<Rightarrow>
          let out = write_string bytes_impl out (sort_field sf);
              out = write_i32 bytes_impl out reverse
          in write_string_missing_marker out missing)"

definition write_sort_field :: "u8 list \<Rightarrow> index_sort_field \<Rightarrow> u8 list" where
  "write_sort_field out sf = write_sort_field_value (write_string bytes_impl out (sort_field_provider sf)) sf"

definition yes_no :: "bool \<Rightarrow> u8" where
  "yes_no flag = (if flag then 1 else 0xff)"

definition write_version :: "u8 list \<Rightarrow> lucene_version \<Rightarrow> u8 list" where
  "write_version out v =
     write_i32 bytes_impl (write_i32 bytes_impl (write_i32 bytes_impl out (major v)) (minor v)) (bugfix v)"

definition info_write :: "('h, 'z) crc32fast_scheme \<Rightarrow> nat \<Rightarrow> segment_info \<Rightarrow> u8 list \<Rightarrow> u8 list option" where
  "info_write K threads si segment_suffix =
     (case write_index_header bytes_impl [] INFO_CODEC_NAME INFO_VERSION_CURRENT (info_id si) segment_suffix of
        None \<Rightarrow> None
      | Some out \<Rightarrow>
          let out = write_version out (info_version si);
              out = (case info_min_version si of
                       Some mv \<Rightarrow> write_version (write_byte bytes_impl out 1) mv
                     | None \<Rightarrow> write_byte bytes_impl out 0);
              out = write_i32 bytes_impl out (doc_count si);
              out = write_byte bytes_impl out (yes_no (is_compound_file si));
              out = write_byte bytes_impl out (yes_no (has_blocks si));
              out = write_map_of_strings bytes_impl out (diagnostics si);
              out = write_set_of_strings bytes_impl out (info_files si);
              out = write_map_of_strings bytes_impl out (attributes si);
              out = (case index_sort si of
                       Some sfs \<Rightarrow> foldl write_sort_field (write_vint bytes_impl out (of_nat (length sfs))) sfs
                     | None \<Rightarrow> write_vint bytes_impl out 0)
          in Some (write_footer K threads out))"

section \<open>The order of floats\<close>

lemma magnitude_bound: "float_magnitude (x :: 'a::len word) < 2 ^ (LENGTH('a) - 1)"
  by (simp add: float_magnitude_def unsigned_take_bit_eq)

lemma unat_magnitude:
  fixes x :: "'a::len word"
  shows "unat x = float_magnitude x + (if bit x (LENGTH('a) - 1) then 2 ^ (LENGTH('a) - 1) else 0)"
proof -
  have "unat x = take_bit (Suc (LENGTH('a) - 1)) (unat x)" by (simp add: take_bit_nat_eq_self)
  also have "\<dots> = 2 ^ (LENGTH('a) - 1) * of_bool (bit (unat x) (LENGTH('a) - 1)) + take_bit (LENGTH('a) - 1) (unat x)"
    by (rule take_bit_Suc_from_most)
  finally show ?thesis
    by (cases "bit x (LENGTH('a) - 1)") (simp_all add: float_magnitude_def bit_unsigned_iff unsigned_take_bit_eq)
qed

lemma sint_magnitude:
  fixes x :: "'a::len word"
  shows "sint x = (if bit x (LENGTH('a) - 1) then int (float_magnitude x) - 2 ^ (LENGTH('a) - 1) else int (float_magnitude x))"
proof -
  have "take_bit (Suc (LENGTH('a) - 1)) (uint x) = uint x" by (simp add: take_bit_int_eq_self)
  then have "sint x = uint x - 2 ^ Suc (LENGTH('a) - 1) * of_bool (bit (uint x) (LENGTH('a) - 1))"
    unfolding sint_uint signed_take_bit_eq_take_bit_minus by simp
  moreover have "bit (uint x) (LENGTH('a) - 1) = bit x (LENGTH('a) - 1)" by (simp add: bit_unsigned_iff)
  moreover have "uint x = int (float_magnitude x) + (if bit x (LENGTH('a) - 1) then 2 ^ (LENGTH('a) - 1) else 0)"
    unfolding uint_nat by (subst unat_magnitude) simp
  moreover have "(2 :: int) ^ Suc (LENGTH('a) - 1) = 2 * 2 ^ (LENGTH('a) - 1)" by (rule power_Suc)
  ultimately show ?thesis by (simp only: if_distrib of_bool_def split: if_split) simp
qed

text \<open>Where a float stands in the total order: NaN is replaced by \<open>quiet\<close>, the negative half runs downwards.\<close>

definition float_rank :: "'a::len word \<Rightarrow> int" where
  "float_rank x = (if bit x (LENGTH('a) - 1) then - 1 - int (float_magnitude x) else int (float_magnitude x))"

lemma cmp_ranks:
  fixes a b infty_bits quiet :: "'a::len word"
  assumes "\<not> bit quiet (LENGTH('a) - 1)" and "unat infty_bits < float_magnitude quiet"
  defines "canon \<equiv> \<lambda>x. if float_nan infty_bits x then quiet else x"
  shows "(if float_less infty_bits a b then Less else if float_less infty_bits b a then Greater
      else cmp (sint (canon a)) (sint (canon b))) = cmp (float_rank (canon a)) (float_rank (canon b))"
proof -
  define N where "N = (2 :: int) ^ (LENGTH('a) - 1)"
  define neg where "neg x \<longleftrightarrow> bit x (LENGTH('a) - 1)" for x :: "'a word"
  define m where "m x = int (float_magnitude x)" for x :: "'a word"
  have m: "0 \<le> m x" "m x < N" for x
    using magnitude_bound [of x] unfolding m_def N_def by (simp_all add: of_nat_less_numeral_power_cancel_iff)
  have nan: "float_nan infty_bits x \<longleftrightarrow> uint infty_bits < m x" for x unfolding float_nan_def m_def uint_nat by (simp only: of_nat_less_iff)
  have key: "float_key x = (if neg x then - m x else m x)" "sint x = (if neg x then m x - N else m x)"
    "float_rank x = (if neg x then - 1 - m x else m x)" for x
    by (simp_all add: float_key_def float_rank_def sint_magnitude neg_def m_def N_def)
  have q: "\<not> neg quiet" "uint infty_bits < m quiet" using assms(1,2) by (simp_all add: neg_def flip: nan, simp add: float_nan_def)
  show ?thesis
    using q m [of a] m [of b] m [of quiet]
    unfolding canon_def float_less_def nan key cmp_def
    by (cases "uint infty_bits < m a"; cases "uint infty_bits < m b"; cases "neg a"; cases "neg b"; simp; linarith)
qed

lemma bit_sortable:
  "bit (sortable_float_bits b) k \<longleftrightarrow> (if k < 31 then bit b k \<noteq> bit b 31 else bit b k)"
  "bit (sortable_double_bits d) k \<longleftrightarrow> (if k < 63 then bit d k \<noteq> bit d 63 else bit d k)"
proof -
  have m: "(0x7fffffff :: i32) = mask 31" "(0x7fffffffffffffff :: i64) = mask 63" by (simp_all add: mask_eq_exp_minus_1)
  show "bit (sortable_float_bits b) k \<longleftrightarrow> (if k < 31 then bit b k \<noteq> bit b 31 else bit b k)"
    "bit (sortable_double_bits d) k \<longleftrightarrow> (if k < 63 then bit d k \<noteq> bit d 63 else bit d k)"
    unfolding sortable_float_bits_def sortable_double_bits_def m
    by (cases k; auto simp: bit_xor_iff bit_and_iff bit_signed_drop_bit_iff bit_mask_iff)+
qed

lemma sortable_involution [simp]:
  "sortable_float_bits (sortable_float_bits b) = b" "sortable_double_bits (sortable_double_bits d) = d"
  by (rule bit_word_eqI; simp add: bit_sortable; blast)+

text \<open>The sortable encoding is the rank: signed integers in the order of \<open>Float.compare\<close>.\<close>

lemma sint_flipped:
  fixes x y :: "'a::len word"
  assumes low: "\<And>k. k < LENGTH('a) - 1 \<Longrightarrow> bit y k \<longleftrightarrow> bit x k \<noteq> bit x (LENGTH('a) - 1)"
    and top: "bit y (LENGTH('a) - 1) \<longleftrightarrow> bit x (LENGTH('a) - 1)"
  shows "sint y = float_rank x"
proof (cases "bit x (LENGTH('a) - 1)")
  case True
  define z where "z = take_bit (LENGTH('a) - 1) x"
  have "sint z = int (float_magnitude x)"
    by (simp add: sint_magnitude z_def bit_take_bit_iff float_magnitude_def)
  moreover have "y = NOT z"
  proof (rule bit_word_eqI)
    fix k assume "k < LENGTH('a)"
    then consider "k < LENGTH('a) - 1" | "k = LENGTH('a) - 1" by linarith
    then show "bit y k = bit (NOT z) k"
      using True low top \<open>k < LENGTH('a)\<close> by cases (simp_all add: z_def bit_not_iff bit_take_bit_iff)
  qed
  moreover have "sint (NOT z) = - 1 - sint z"
  proof -
    have "sint (NOT z) = NOT (sint z)"
      by (rule bit_eqI) (auto simp: bit_sint_iff bit_not_iff bit_not_int_iff dest: bit_imp_le_length)
    then show ?thesis by (simp add: not_int_def)
  qed
  ultimately show ?thesis using True by (simp add: float_rank_def)
next
  case False
  then have "y = x"
    using low top by (metis bit_word_eqI Suc_pred' len_gt_0 less_Suc_eq)
  then show ?thesis using False by (simp add: float_rank_def sint_magnitude)
qed

lemma sint_sortable: "sint (sortable_float_bits b) = float_rank b" "sint (sortable_double_bits d) = float_rank d"
  by (rule sint_flipped; simp add: bit_sortable)+

lemma java_compare_rank:
  "java_float_compare a b = cmp (float_rank (canonical_float_bits a)) (float_rank (canonical_float_bits b))"
  "java_double_compare c d = cmp (float_rank (canonical_double_bits c)) (float_rank (canonical_double_bits d))"
proof -
  have "\<not> bit (0x7fc00000 :: u32) (LENGTH(32) - 1)" "unat f32_infinity < float_magnitude (0x7fc00000 :: u32)"
    "\<not> bit (0x7ff8000000000000 :: u64) (LENGTH(64) - 1)" "unat f64_infinity < float_magnitude (0x7ff8000000000000 :: u64)"
    by (simp_all add: float_magnitude_def f32_infinity_def f64_infinity_def)
  note q = this
  show "java_float_compare a b = cmp (float_rank (canonical_float_bits a)) (float_rank (canonical_float_bits b))"
    "java_double_compare c d = cmp (float_rank (canonical_double_bits c)) (float_rank (canonical_double_bits d))"
    unfolding java_float_compare_def java_double_compare_def canonical_float_bits_def canonical_double_bits_def
    by (rule cmp_ranks [OF q(1,2)], rule cmp_ranks [OF q(3,4)])
qed

lemma canonical_idem [simp]:
  "canonical_float_bits (canonical_float_bits v) = canonical_float_bits v"
  "canonical_double_bits (canonical_double_bits w) = canonical_double_bits w"
  by (simp_all add: canonical_float_bits_def canonical_double_bits_def)

lemma sortable_canonical:
  "float_to_sortable_int v = sortable_float_bits (canonical_float_bits v)"
  "double_to_sortable_long w = sortable_double_bits (canonical_double_bits w)"
  by (simp_all add: float_to_sortable_int_def double_to_sortable_long_def canonical_float_bits_def canonical_double_bits_def)

section \<open>The comparator\<close>

text \<open>The number a key is compared by.\<close>

definition key_rank :: "sort_key_kind \<Rightarrow> i64 \<Rightarrow> int" where
  "key_rank kind a =
     (case kind of
        KindInt \<Rightarrow> sint (ucast a :: i32)
      | KindOrdinal \<Rightarrow> sint (ucast a :: i32)
      | KindLong \<Rightarrow> sint a
      | KindFloat \<Rightarrow> float_rank (canonical_float_bits (ucast a))
      | KindDouble \<Rightarrow> float_rank (canonical_double_bits a)
      | KindSortableFloat \<Rightarrow> float_rank (canonical_float_bits (sortable_float_bits (ucast a)))
      | KindSortableDouble \<Rightarrow> float_rank (canonical_double_bits (sortable_double_bits a)))"

lemma compare_keys_rank: "compare_keys kind a b = cmp (key_rank kind a) (key_rank kind b)"
  by (cases kind) (simp_all add: compare_keys_def key_rank_def java_compare_rank sortable_int_to_float_def sortable_long_to_double_def)

definition doc_rank :: "sort_key_comparator \<Rightarrow> i64 option \<Rightarrow> int" where
  "doc_rank c a = (if cmp_reverse c then - 1 else 1) * key_rank (cmp_kind c) (unwrap_or (sentinel c) a)"

lemma compare_rank: "compare c a b = cmp (doc_rank c a) (doc_rank c b)"
  by (auto simp: compare_def compare_keys_rank doc_rank_def cmp_def)

text \<open>What a field becomes when it is written and read: a NaN missing value turns into the canonical one.\<close>

fun canonical_key :: "numeric_sort_key \<Rightarrow> numeric_sort_key" where
  "canonical_key (FloatKey m) = FloatKey (map_option canonical_float_bits m)"
| "canonical_key (DoubleKey m) = DoubleKey (map_option canonical_double_bits m)"
| "canonical_key key = key"

fun canonical_kind :: "index_sort_kind \<Rightarrow> index_sort_kind" where
  "canonical_kind (NumericSort key) = NumericSort (canonical_key key)"
| "canonical_kind (SortedNumericSort key selector) = SortedNumericSort (canonical_key key) selector"
| "canonical_kind kind = kind"

definition canonical_field :: "index_sort_field \<Rightarrow> index_sort_field" where
  "canonical_field sf = sf\<lparr>sort_kind := canonical_kind (sort_kind sf)\<rparr>"

lemma ucast_scast [simp]: "ucast (scast v :: i64) = (v :: i32)"
  by (rule bit_word_eqI) (auto simp: bit_ucast_iff bit_signed_iff)

text \<open>A missing value that is a NaN; a field without one is kept.\<close>

fun nan_missing :: "index_sort_kind \<Rightarrow> bool" where
  "nan_missing (NumericSort (FloatKey (Some v))) = float_nan f32_infinity v"
| "nan_missing (NumericSort (DoubleKey (Some w))) = float_nan f64_infinity w"
| "nan_missing (SortedNumericSort (FloatKey (Some v)) selector) = float_nan f32_infinity v"
| "nan_missing (SortedNumericSort (DoubleKey (Some w)) selector) = float_nan f64_infinity w"
| "nan_missing kind = False"

lemma canonical_field_id: "\<not> nan_missing (sort_kind sf) \<Longrightarrow> canonical_field sf = sf"
  by (cases sf; cases "sort_kind sf" rule: nan_missing.cases)
     (auto simp: canonical_field_def canonical_float_bits_def canonical_double_bits_def)

lemma canonical_comparison:
  obtains "fst (kind_comparison (canonical_kind kind)) = fst (kind_comparison kind)"
    "key_rank (fst (kind_comparison kind)) (snd (kind_comparison (canonical_kind kind))) =
       key_rank (fst (kind_comparison kind)) (snd (kind_comparison kind))"
proof
  have zero: "canonical_float_bits 0 = 0" "canonical_double_bits 0 = 0"
    by (simp_all add: canonical_float_bits_def canonical_double_bits_def float_nan_def float_magnitude_def)
  let ?s = "kind_comparison (canonical_kind kind)" and ?t = "kind_comparison kind"
  have key: "fst (numeric_key_comparison (canonical_key key)) = fst (numeric_key_comparison key) \<and>
      key_rank (fst (numeric_key_comparison key)) (snd (numeric_key_comparison (canonical_key key))) =
        key_rank (fst (numeric_key_comparison key)) (snd (numeric_key_comparison key))" for key
    by (cases key) (auto simp: key_rank_def unwrap_or_def split: option.splits)
  show "fst ?s = fst ?t"
    using key by (cases kind) (auto split: numeric_sort_key.splits)
  show "key_rank (fst ?t) (snd ?s) = key_rank (fst ?t) (snd ?t)"
  proof (cases kind)
    case (SortedNumericSort k sel)
    then show ?thesis
      using key [of k] by (cases k) (auto simp: key_rank_def unwrap_or_def sortable_canonical zero split: option.splits)
  qed (use key in auto)
qed

lemma compare_canonical: "compare (comparator_new (canonical_field sf)) a b = compare (comparator_new sf) a b"
proof -
  have "doc_rank (comparator_new (canonical_field sf)) a = doc_rank (comparator_new sf) a" for a
    by (rule canonical_comparison [of "sort_kind sf"])
       (simp add: doc_rank_def comparator_new_def key_comparison_def canonical_field_def unwrap_or_def case_prod_beta split: option.split)
  then show ?thesis by (simp add: compare_rank)
qed

section \<open>Reading what was written\<close>

abbreviation info_reads :: "'a info_parser \<Rightarrow> u8 list \<Rightarrow> 'a \<Rightarrow> bool" where
  "info_reads \<equiv> decodes slice_ok as_slice"

lemmas info_slice = slice_decoders [THEN decodes_map_err [where g = InfoStore]]

lemma info_string: "good_string str \<Longrightarrow> info_reads (info_store slice_read_string) (string_bytes str) str"
  by (rule decodes_map_err [OF slice_string])

lemma info_i32_bnd: "info_reads (f v) bs w \<Longrightarrow> info_reads (bnd (info_store slice_read_i32) f) (to_le_bytes 4 v @ bs) w"
  by (rule decodes_bnd [OF info_slice(5)])

lemma info_i32_last: "info_reads (f v) [] w \<Longrightarrow> info_reads (bnd (info_store slice_read_i32) f) (to_le_bytes 4 v) w"
  by (rule decodes_last [OF info_slice(5)])

lemma info_string_bnd:
  "good_string str \<Longrightarrow> info_reads (f str) bs w \<Longrightarrow> info_reads (bnd (info_store slice_read_string) f) (string_bytes str @ bs) w"
  by (rule decodes_bnd [OF info_string])

lemmas sort_constants = TYPE_INT_def TYPE_LONG_def TYPE_FLOAT_def TYPE_DOUBLE_def TYPE_STRING_def
  PROVIDER_SORT_FIELD_def PROVIDER_SORTED_NUMERIC_def PROVIDER_SORTED_SET_def PROVIDER_BINARY_def

lemma good_constants [simp]:
  "good_string TYPE_INT" "good_string TYPE_LONG" "good_string TYPE_FLOAT" "good_string TYPE_DOUBLE" "good_string TYPE_STRING"
  "good_string PROVIDER_SORT_FIELD" "good_string PROVIDER_SORTED_NUMERIC" "good_string PROVIDER_SORTED_SET" "good_string PROVIDER_BINARY"
  by (rule good_ascii; simp add: sort_constants ascii_def)+

lemma distinct_types [simp]:
  "TYPE_LONG \<noteq> TYPE_INT" "TYPE_FLOAT \<noteq> TYPE_INT" "TYPE_FLOAT \<noteq> TYPE_LONG" "TYPE_DOUBLE \<noteq> TYPE_INT" "TYPE_DOUBLE \<noteq> TYPE_LONG"
  "TYPE_DOUBLE \<noteq> TYPE_FLOAT" "TYPE_INT \<noteq> TYPE_STRING" "TYPE_LONG \<noteq> TYPE_STRING" "TYPE_FLOAT \<noteq> TYPE_STRING" "TYPE_DOUBLE \<noteq> TYPE_STRING"
  "PROVIDER_SORTED_NUMERIC \<noteq> PROVIDER_SORT_FIELD" "PROVIDER_SORTED_SET \<noteq> PROVIDER_SORT_FIELD"
  "PROVIDER_SORTED_SET \<noteq> PROVIDER_SORTED_NUMERIC" "PROVIDER_BINARY \<noteq> PROVIDER_SORT_FIELD"
  "PROVIDER_BINARY \<noteq> PROVIDER_SORTED_NUMERIC" "PROVIDER_BINARY \<noteq> PROVIDER_SORTED_SET"
  by code_simp+

lemma type_reads:
  assumes "n \<in> {TYPE_INT, TYPE_LONG, TYPE_FLOAT, TYPE_DOUBLE, TYPE_STRING}" and "info_reads (f n) bs w"
  shows "info_reads (bnd read_type f) (string_bytes n @ bs) w"
proof (rule decodes_bnd [where v = n])
  have "good_string n" using assms(1) by auto
  then show "info_reads read_type (string_bytes n) n"
    unfolding read_type_def by (rule decodes_last [OF info_string]) (use assms(1) in auto)
qed (rule assms(2))

lemma reverse_reads:
  "info_reads (f r) bs w \<Longrightarrow> info_reads (bnd read_reverse f) (to_le_bytes 4 (if r then 1 else (0 :: i32)) @ bs) w"
  by (rule decodes_bnd [where v = r]) (simp_all add: read_reverse_def info_i32_last)

text \<open>The missing value of a numeric key, as bytes.\<close>

lemma write_optional_bytes:
  assumes "\<And>out v. w out v = out @ enc v"
  shows "write_optional out w m = out @ (case m of None \<Rightarrow> to_le_bytes 4 (0 :: i32) | Some v \<Rightarrow> to_le_bytes 4 (1 :: i32) @ enc v)"
  by (cases m) (simp_all add: write_optional_def assms bytes_written)

definition missing_bytes :: "numeric_sort_key \<Rightarrow> u8 list" where
  "missing_bytes key = write_numeric_missing [] key"

lemma write_missing_bytes: "write_numeric_missing out key = out @ missing_bytes key"
  unfolding missing_bytes_def by (cases key) (simp_all add: write_optional_def bytes_written split: option.split)

lemma missing_reads:
  assumes "\<And>v. decodes slice_ok as_slice r (enc v) v"
  shows "info_reads (bnd (read_missing (m \<noteq> None) r) (\<lambda>m. ret (g m))) (case m of None \<Rightarrow> [] | Some v \<Rightarrow> enc v) (g m)"
  using decodes_map_err [OF assms]
  by (cases m) (auto simp: read_missing_def intro!: decodes_map [where f = g] decodes_map [where f = Some])

lemma numeric_key_reads: "info_reads (read_numeric_key field (key_type_name key)) (missing_bytes key) (canonical_key key)"
proof (cases key)
  case (IntKey m)
  then show ?thesis
    using missing_reads [OF slice_decoders(5), of m IntKey]
    by (cases m) (auto simp: read_numeric_key_def missing_bytes_def write_optional_def bytes_written intro!: info_i32_bnd info_i32_last)
next
  case (LongKey m)
  then show ?thesis
    using missing_reads [OF slice_decoders(6), of m LongKey]
    by (cases m) (auto simp: read_numeric_key_def missing_bytes_def write_optional_def bytes_written intro!: info_i32_bnd info_i32_last)
next
  case (FloatKey m)
  then show ?thesis
    using missing_reads [OF slice_decoders(5), of "map_option float_to_sortable_int m" "\<lambda>m. FloatKey (map_option sortable_int_to_float m)"]
    by (cases m) (auto simp: read_numeric_key_def missing_bytes_def write_optional_def bytes_written
        sortable_int_to_float_def sortable_canonical intro!: info_i32_bnd info_i32_last)
next
  case (DoubleKey m)
  then show ?thesis
    using missing_reads [OF slice_decoders(6), of "map_option double_to_sortable_long m" "\<lambda>m. DoubleKey (map_option sortable_long_to_double m)"]
    by (cases m) (auto simp: read_numeric_key_def missing_bytes_def write_optional_def bytes_written
        sortable_long_to_double_def sortable_canonical intro!: info_i32_bnd info_i32_last)
qed

lemma numeric_key_bnd:
  "info_reads (f (canonical_key key)) [] w \<Longrightarrow>
   info_reads (bnd (read_numeric_key field (key_type_name key)) f) (missing_bytes key) w"
  by (rule decodes_last [OF numeric_key_reads])

lemma marker_reads:
  "info_reads (f missing) [] w \<Longrightarrow>
   info_reads (bnd read_string_missing_marker f) (write_string_missing_marker [] missing) w"
  by (rule decodes_last [where v = missing])
     (cases missing; simp add: read_string_missing_marker_def write_string_missing_marker_def bytes_written info_i32_last)

lemma string_missing_reads:
  assumes "info_reads (f missing) [] w"
  shows "info_reads (bnd read_string_missing f)
    (case missing of MissingNone \<Rightarrow> to_le_bytes 4 (0 :: i32) | MissingFirst \<Rightarrow> to_le_bytes 4 (1 :: i32) @ to_le_bytes 4 (1 :: i32)
     | MissingLast \<Rightarrow> to_le_bytes 4 (1 :: i32) @ to_le_bytes 4 (0 :: i32)) w"
proof (rule decodes_last [where v = missing])
qed (use assms in \<open>cases missing; simp add: read_string_missing_def info_i32_last info_i32_bnd\<close>)+

lemma selector_reads:
  "info_reads (f sel) bs w \<Longrightarrow> info_reads (bnd read_sorted_numeric_selector f)
     (to_le_bytes 4 (case sel of NumericMin \<Rightarrow> 0 :: i32 | NumericMax \<Rightarrow> 1) @ bs) w"
  "info_reads (g set_sel) bs w \<Longrightarrow> info_reads (bnd read_sorted_set_selector g)
     (to_le_bytes 4 (case set_sel of SetMin \<Rightarrow> 0 :: i32 | SetMax \<Rightarrow> 1 | SetMiddleMin \<Rightarrow> 2 | SetMiddleMax \<Rightarrow> 3) @ bs) w"
proof -
  show "info_reads (f sel) bs w \<Longrightarrow> info_reads (bnd read_sorted_numeric_selector f)
     (to_le_bytes 4 (case sel of NumericMin \<Rightarrow> 0 :: i32 | NumericMax \<Rightarrow> 1) @ bs) w"
    by (rule decodes_bnd [where v = sel]) (cases sel; simp add: read_sorted_numeric_selector_def info_i32_last)
  show "info_reads (g set_sel) bs w \<Longrightarrow> info_reads (bnd read_sorted_set_selector g)
     (to_le_bytes 4 (case set_sel of SetMin \<Rightarrow> 0 :: i32 | SetMax \<Rightarrow> 1 | SetMiddleMin \<Rightarrow> 2 | SetMiddleMax \<Rightarrow> 3) @ bs) w"
    by (rule decodes_bnd [where v = set_sel]) (cases set_sel; simp add: read_sorted_set_selector_def info_i32_last)
qed

text \<open>A sort field.\<close>

definition sort_field_bytes :: "index_sort_field \<Rightarrow> u8 list" where
  "sort_field_bytes sf = write_sort_field [] sf"

lemma write_marker_bytes: "write_string_missing_marker out missing = out @ write_string_missing_marker [] missing"
  by (simp add: write_string_missing_marker_def bytes_written)

lemma write_sort_field_bytes: "write_sort_field out sf = out @ sort_field_bytes sf"
  by (cases "sort_kind sf")
     (simp_all add: sort_field_bytes_def write_sort_field_def write_sort_field_value_def Let_def bytes_written
        write_missing_bytes write_marker_bytes [of "_ @ _"] split: string_missing_value.split)

lemma key_type_names: "key_type_name key \<in> {TYPE_INT, TYPE_LONG, TYPE_FLOAT, TYPE_DOUBLE, TYPE_STRING}" "key_type_name key \<noteq> TYPE_STRING"
  by (cases key; simp)+

lemmas sort_value_bytes = sort_field_bytes_def write_sort_field_def write_sort_field_value_def Let_def bytes_written
  write_missing_bytes write_marker_bytes [of "_ @ _"] sort_field_provider_def read_sort_field_provider_def canonical_field_def

lemma sort_field_reads:
  assumes "good_string (sort_field sf)"
  shows "info_reads read_sort_field (sort_field_bytes sf) (canonical_field sf)"
proof -
  obtain field r kind where sf: "sf = \<lparr>sort_field = field, sort_reverse = r, sort_kind = kind\<rparr>" by (cases sf)
  have g: "good_string field" using assms sf by simp
  have plain: "info_reads (bnd (bnd (read_numeric_key field (key_type_name key)) (\<lambda>k. ret (NumericSort k)))
       (\<lambda>kind. ret \<lparr>sort_field = field, sort_reverse = r, sort_kind = kind\<rparr>)) (missing_bytes key)
       \<lparr>sort_field = field, sort_reverse = r, sort_kind = NumericSort (canonical_key key)\<rparr>" for key
    by (intro decodes_map decodes_map [OF numeric_key_reads])
  have strings: "info_reads (bnd (bnd read_string_missing (\<lambda>m. ret (StringSort m)))
       (\<lambda>kind. ret \<lparr>sort_field = field, sort_reverse = r, sort_kind = kind\<rparr>))
       (case missing of MissingNone \<Rightarrow> to_le_bytes 4 (0 :: i32) | MissingFirst \<Rightarrow> to_le_bytes 4 (1 :: i32) @ to_le_bytes 4 (1 :: i32)
        | MissingLast \<Rightarrow> to_le_bytes 4 (1 :: i32) @ to_le_bytes 4 (0 :: i32))
       \<lparr>sort_field = field, sort_reverse = r, sort_kind = StringSort missing\<rparr>" for missing
    by (intro decodes_map string_missing_reads decodes_ret)
  show ?thesis
  proof (cases kind)
    case (NumericSort key)
    then show ?thesis
      using g key_type_names [of key] plain unfolding read_sort_field_def sf
      by (simp add: sort_value_bytes read_plain_sort_field_def info_string_bnd type_reads reverse_reads)
  next
    case (StringSort missing)
    then show ?thesis
      using g strings [of missing] unfolding read_sort_field_def sf
      by (cases missing) (simp_all add: sort_value_bytes read_plain_sort_field_def info_string_bnd type_reads reverse_reads)
  next
    case (SortedNumericSort key selector)
    then show ?thesis
      using g key_type_names [of key] unfolding read_sort_field_def sf
      by (simp add: sort_value_bytes read_sorted_numeric_sort_field_def info_string_bnd type_reads reverse_reads selector_reads
          numeric_key_bnd)
  next
    case (SortedSetSort selector missing)
    then show ?thesis
      using g unfolding read_sort_field_def sf
      by (simp add: sort_value_bytes read_sorted_set_sort_field_def info_string_bnd reverse_reads selector_reads marker_reads)
  next
    case (BinarySort missing)
    then show ?thesis
      using g unfolding read_sort_field_def sf
      by (simp add: sort_value_bytes read_binary_sort_field_def info_string_bnd reverse_reads marker_reads)
  qed
qed

section \<open>The whole file\<close>

definition info_bytes :: "segment_info \<Rightarrow> u8 list" where
  "info_bytes si =
     to_le_bytes 4 (major (info_version si)) @ to_le_bytes 4 (minor (info_version si)) @ to_le_bytes 4 (bugfix (info_version si)) @
     (case info_min_version si of
        None \<Rightarrow> [0]
      | Some v \<Rightarrow> 1 # to_le_bytes 4 (major v) @ to_le_bytes 4 (minor v) @ to_le_bytes 4 (bugfix v)) @
     to_le_bytes 4 (doc_count si) @ [yes_no (is_compound_file si)] @ [yes_no (has_blocks si)] @
     map_bytes (diagnostics si) @ set_bytes (info_files si) @ map_bytes (attributes si) @
     (case index_sort si of
        None \<Rightarrow> encode_varint 0
      | Some sfs \<Rightarrow> encode_varint (ucast (of_nat (length sfs) :: i32)) @ concat (map sort_field_bytes sfs))"

lemma info_write_eq:
  assumes "length (info_id si) = ID_LENGTH" and "length suffix < 256"
  shows "info_write K threads si suffix = Some (write_footer K threads
    (index_header_bytes INFO_CODEC_NAME INFO_VERSION_CURRENT (info_id si) suffix @ info_bytes si))"
proof -
  have "write_index_header bytes_impl [] INFO_CODEC_NAME INFO_VERSION_CURRENT (info_id si) suffix =
      Some (index_header_bytes INFO_CODEC_NAME INFO_VERSION_CURRENT (info_id si) suffix)"
    using assms by (subst write_index_header_eq) (simp_all add: INFO_CODEC_NAME_def ascii_def usize_max_def bytes_written)
  then show ?thesis
    by (simp add: info_write_def info_bytes_def write_version_def bytes_written bytes.written_foldl [OF write_sort_field_bytes]
        split: option.split)
qed

text \<open>What the types and the flush path guarantee of a segment's information.\<close>

definition good_info :: "segment_info \<Rightarrow> bool" where
  "good_info si =
     (length (info_id si) = ID_LENGTH \<and> good_version (info_version si) \<and>
      (case info_min_version si of None \<Rightarrow> True | Some v \<Rightarrow> good_version v) \<and> 0 \<le> sint (doc_count si) \<and>
      list_all (\<lambda>(k, v). good_string k \<and> good_string v) (diagnostics si) \<and> length (diagnostics si) < 2 ^ 31 \<and>
      good_strings (info_files si) \<and>
      list_all (\<lambda>(k, v). good_string k \<and> good_string v) (attributes si) \<and> length (attributes si) < 2 ^ 31 \<and>
      (case index_sort si of None \<Rightarrow> True
       | Some sfs \<Rightarrow> sfs \<noteq> [] \<and> length sfs < 2 ^ 31 \<and> list_all (\<lambda>sf. good_string (sort_field sf)) sfs))"

definition canonical_info :: "segment_info \<Rightarrow> segment_info" where
  "canonical_info si = si\<lparr>index_sort := map_option (map canonical_field) (index_sort si)\<rparr>"

lemma component_info:
  "sint v \<in> {0..255} \<Longrightarrow> info_reads (f v) bs w \<Longrightarrow> info_reads (bnd (read_component which) f) (to_le_bytes 4 v @ bs) w"
  by (rule decodes_bnd [where v = v])
     (simp_all add: read_component_def info_check_version_component_def info_i32_last reads_lift)

lemma version_info:
  assumes "good_version v" and "info_reads (f v) bs w"
  shows "info_reads (bnd read_version f)
    (to_le_bytes 4 (major v) @ to_le_bytes 4 (minor v) @ to_le_bytes 4 (bugfix v) @ bs) w"
proof -
  have "info_reads read_version (to_le_bytes 4 (major v) @ to_le_bytes 4 (minor v) @ to_le_bytes 4 (bugfix v) @ []) v"
    using assms(1) unfolding read_version_def good_version_def by (intro component_info) (cases v; simp)+
  from decodes_bnd [where f = f and v = v, OF this assms(2)] show ?thesis by simp
qed

lemma sort_fields_read:
  assumes "list_all (\<lambda>sf. good_string (sort_field sf)) sfs"
  shows "info_reads (read_many read_sort_field (length sfs)) (concat (map sort_field_bytes sfs)) (map canonical_field sfs)"
  using assms
proof (induction sfs)
  case (Cons sf sfs)
  then show ?case
    by (auto intro!: decodes_bnd [OF sort_field_reads] decodes_map)
qed simp

lemma length_sort_field_bytes: "1 \<le> length (sort_field_bytes sf)"
  using length_string_bytes [of "sort_field_provider sf"]
  by (cases "sort_kind sf") (simp_all add: sort_value_bytes split: string_missing_value.split)

lemma index_sort_reads:
  assumes "case isort of None \<Rightarrow> True | Some sfs \<Rightarrow> sfs \<noteq> [] \<and> length sfs < 2 ^ 31 \<and> list_all (\<lambda>sf. good_string (sort_field sf)) sfs"
  shows "info_reads read_index_sort
    (case isort of None \<Rightarrow> encode_varint 0
     | Some sfs \<Rightarrow> encode_varint (ucast (of_nat (length sfs) :: i32)) @ concat (map sort_field_bytes sfs))
    (map_option (map canonical_field) isort)"
proof (cases isort)
  case None
  have "info_reads read_index_sort (encode_varint (ucast (0 :: i32))) None"
    unfolding read_index_sort_def by (rule decodes_last [OF info_slice(1)]) (simp add: decodes_def)
  then show ?thesis using None by simp
next
  case (Some sfs)
  let ?n = "of_nat (length sfs) :: i32"
  have n: "sint ?n = int (length sfs)" "?n \<noteq> 0" using assms Some small_count [of "length sfs"] by auto
  have len: "length sfs \<le> length (concat (map sort_field_bytes sfs))"
    by (rule length_concat_ge) (rule length_sort_field_bytes)
  have "info_reads (\<lambda>s. if sint ?n < 0 then fail (InvalidSortFieldCount (sint ?n)) s
       else if slice_remaining s < nat (sint ?n) then fail (InvalidSortFieldCount (sint ?n)) s
       else if ?n = 0 then ret None s
       else bnd (read_many read_sort_field (nat (sint ?n))) (\<lambda>sfs. ret (Some sfs)) s)
     (concat (map sort_field_bytes sfs)) (Some (map canonical_field sfs))"
    unfolding decodes_def
  proof (intro allI impI)
    fix s r assume s: "slice_ok s" "as_slice s = concat (map sort_field_bytes sfs) @ r"
    then have "length sfs \<le> slice_remaining s"
      using len by (metis (no_types) as_slice_def dual_order.trans le_add1 length_append length_drop slice_remaining_def)
    moreover have "info_reads (bnd (read_many read_sort_field (length sfs)) (\<lambda>sfs. ret (Some sfs)))
        (concat (map sort_field_bytes sfs)) (Some (map canonical_field sfs))"
      using assms Some by (intro decodes_map sort_fields_read) simp
    ultimately show "\<exists>s'. (if sint ?n < 0 then fail (InvalidSortFieldCount (sint ?n)) s
       else if slice_remaining s < nat (sint ?n) then fail (InvalidSortFieldCount (sint ?n)) s
       else if ?n = 0 then ret None s
       else bnd (read_many read_sort_field (nat (sint ?n))) (\<lambda>sfs. ret (Some sfs)) s) =
        (Inr (Some (map canonical_field sfs)), s') \<and> slice_ok s' \<and> as_slice s' = r"
      using s n by (simp add: decodes_def)
  qed
  from decodes_bnd [OF info_slice(1), where f = "\<lambda>n s. if sint n < 0 then fail (InvalidSortFieldCount (sint n)) s
       else if slice_remaining s < nat (sint n) then fail (InvalidSortFieldCount (sint n)) s
       else if n = 0 then ret None s
       else bnd (read_many read_sort_field (nat (sint n))) (\<lambda>sfs. ret (Some sfs)) s", OF this]
  show ?thesis using Some by (simp add: read_index_sort_def)
qed

lemma header_info:
  assumes "length i = ID_LENGTH" and "\<And>h. info_reads (f h) bs w"
  shows "info_reads (bnd (info_store (check_index_header INFO_CODEC_NAME INFO_VERSION_START INFO_VERSION_CURRENT i [])) f)
    (index_header_bytes INFO_CODEC_NAME INFO_VERSION_CURRENT i [] @ bs) w"
  using assms
  by (intro decodes_bnd [OF decodes_map_err [OF index_header_decodes]])
     (simp_all add: INFO_CODEC_NAME_def ascii_def INFO_VERSION_START_def INFO_VERSION_CURRENT_def)

lemma byte_info: "info_reads (f b) bs w \<Longrightarrow> info_reads (bnd (info_store slice_read_byte) f) (b # bs) w"
  using decodes_bnd [OF decodes_map_err [OF slice.read_byte_law [of b]], of f bs w InfoStore] by (simp add: slice_impl_def)

lemma map_info:
  "list_all (\<lambda>(k, v). good_string k \<and> good_string v) m \<Longrightarrow> length m < 2 ^ 31 \<Longrightarrow>
   info_reads (info_store (read_map_of_strings slice_impl slice_read_string)) (map_bytes m) m"
  by (intro decodes_map_err slice.map_ok slice_string) (auto simp: list_all_iff)

lemma set_info:
  "good_strings xs \<Longrightarrow> info_reads (info_store (read_set_of_strings slice_impl slice_read_string)) (set_bytes xs) xs"
  by (intro decodes_map_err slice.set_ok slice_string) (auto simp: good_strings_def list_all_iff)

lemma bnd_ret: "bnd (ret v) f = f v"
  by (rule ext) simp

lemma min_version_info:
  assumes "case m of None \<Rightarrow> True | Some v \<Rightarrow> good_version v" and "info_reads (f m) bs w"
  shows "info_reads (bnd (info_store slice_read_byte) (\<lambda>has_min_version.
       bnd (if has_min_version = 0 then ret None else if has_min_version = 1 then bnd read_version (\<lambda>v. ret (Some v))
            else fail (IllegalHasMinVersion has_min_version)) f))
    ((case m of None \<Rightarrow> [0] | Some v \<Rightarrow> 1 # to_le_bytes 4 (major v) @ to_le_bytes 4 (minor v) @ to_le_bytes 4 (bugfix v)) @ bs) w"
proof (cases m)
  case None
  then show ?thesis using assms(2) by (auto intro!: byte_info simp: bnd_ret)
next
  case (Some v)
  have "info_reads (bnd read_version (\<lambda>v. ret (Some v))) (to_le_bytes 4 (major v) @ to_le_bytes 4 (minor v) @ to_le_bytes 4 (bugfix v) @ []) (Some v)"
    using assms(1) Some by (intro version_info) simp_all
  from decodes_bnd [where v = "Some v" and f = f, OF this] show ?thesis
    using Some assms(2) by (auto intro!: byte_info)
qed

lemma decodes_if: "\<not> c \<Longrightarrow> decodes ok rest Q bs v \<Longrightarrow> decodes ok rest (if c then P else Q) bs v"
  by simp

lemma yes_no_flag: "(yes_no flag = 1) = flag"
  by (simp add: yes_no_def)

lemma payload_info:
  assumes "good_info si"
  shows "info_reads (info_payload (info_id si) SegmentInfoLucene99)
    (index_header_bytes INFO_CODEC_NAME INFO_VERSION_CURRENT (info_id si) [] @ info_bytes si) (canonical_info si)"
proof -
  note g = assms [unfolded good_info_def]
  have blocks: "info_reads (f (has_blocks si)) bs w \<Longrightarrow>
      info_reads (bnd (bnd (info_store slice_read_byte) (\<lambda>b. ret (b = 1))) f) (yes_no (has_blocks si) # bs) w"
    for f bs and w :: segment_info
    by (rule decodes_bnd [where v = "has_blocks si" and bs = "[_]" and cs = bs, simplified])
       (auto intro: byte_info simp: yes_no_flag)
  have si: "canonical_info si = \<lparr>info_id = info_id si, info_version = info_version si, info_min_version = info_min_version si,
      doc_count = doc_count si, is_compound_file = (yes_no (is_compound_file si) = 1), has_blocks = has_blocks si,
      diagnostics = diagnostics si, info_files = info_files si, attributes = attributes si,
      index_sort = map_option (map canonical_field) (index_sort si)\<rparr>"
    by (cases si) (simp add: canonical_info_def yes_no_flag)
  show ?thesis
    unfolding info_payload_def info_bytes_def segment_info_format.case append_Cons append_Nil si
    using g
    by (intro header_info version_info min_version_info info_i32_bnd decodes_if byte_info blocks decodes_bnd [OF map_info]
        decodes_bnd [OF set_info] decodes_last [OF index_sort_reads])
      simp_all
qed

text \<open>Reading leaves the buffer alone.\<close>

lemma keeps_info_primitives:
  "keeps (reading b) slice_read_i32" "keeps (reading b) slice_read_i64"
proof -
  have fixed: "keeps (reading b) (slice_read_fixed n)" for n
    by (auto simp: keeps_def slice_read_fixed_def slice_ok_def slice_get_def split: option.splits if_splits)
  show "keeps (reading b) slice_read_i32" "keeps (reading b) slice_read_i64"
    unfolding slice_read_i32_def slice_read_u32_le_def slice_read_i64_def by (intro keeps_bnd fixed keeps_ret)+
qed

lemmas keeps_info = keeps_reading keeps_info_primitives keeps_if keeps_bnd

lemma keeps_sort_field: "keeps (reading b) read_sort_field"
proof -
  have basic: "keeps (reading b) read_type" "keeps (reading b) read_reverse" "keeps (reading b) (read_numeric_key field n)"
      "keeps (reading b) read_string_missing" "keeps (reading b) read_string_missing_marker"
      "keeps (reading b) read_sorted_numeric_selector" "keeps (reading b) read_sorted_set_selector" for field n
    unfolding read_type_def read_reverse_def read_numeric_key_def read_missing_def read_string_missing_def read_string_missing_marker_def
      read_sorted_numeric_selector_def read_sorted_set_selector_def Let_def
    by (intro keeps_info)+
  show ?thesis
    unfolding read_sort_field_def read_sort_field_provider_def read_plain_sort_field_def read_sorted_numeric_sort_field_def
      read_sorted_set_sort_field_def read_binary_sort_field_def
    by (intro keeps_info basic)
qed

lemma keeps_index_sort: "keeps (reading b) read_index_sort"
proof -
  have "keeps (reading b) (read_many read_sort_field n)" for n by (rule keeps_many [OF keeps_sort_field])
  then have "keeps (reading b) (bnd (read_many read_sort_field n) (\<lambda>sfs. ret (Some sfs)))" for n by (rule keeps_bnd) simp
  then have "keeps (reading b) (\<lambda>s. if sint n < 0 then fail (InvalidSortFieldCount (sint n)) s
       else if slice_remaining s < nat (sint n) then fail (InvalidSortFieldCount (sint n)) s
       else if n = 0 then ret None s
       else bnd (read_many read_sort_field (nat (sint n))) (\<lambda>sfs. ret (Some sfs)) s)" for n
    by (rule keeps_pointwise_if [OF keeps_fail keeps_pointwise_if [OF keeps_fail keeps_pointwise_if [OF keeps_ret]]])
  moreover have "keeps (reading b) (info_store slice_read_vint)" by (intro keeps_reading)
  ultimately show ?thesis unfolding read_index_sort_def by (rule keeps_bnd [rotated])
qed

lemma keeps_info_payload: "keeps (reading b) (info_payload i format)"
proof -
  have version: "keeps (reading b) read_version"
    unfolding read_version_def read_component_def by (intro keeps_info)
  show ?thesis
    unfolding info_payload_def
    by (intro keeps_info keeps_reading_index_header version keeps_index_sort) (cases format; auto intro!: keeps_info)
qed

lemma parse_written:
  assumes "good_info si" and "info_write K threads si [] = Some b" and "length b \<le> usize_max"
  shows "info_parse K threads b (info_id si) = Inr (canonical_info si)"
  unfolding info_parse_def parse_with_format_def
proof (rule parse_framed [OF payload_info [OF assms(1)] keeps_info_payload _ assms(3)])
  show "b = write_footer K threads (index_header_bytes INFO_CODEC_NAME INFO_VERSION_CURRENT (info_id si) [] @ info_bytes si)"
    using assms(1,2) by (simp add: info_write_eq good_info_def)
qed

section \<open>Properties\<close>

text \<open>
  C14: A \<open>.si\<close> file reads back what was written. Every field is returned exactly, and so is every sort field (its name, direction, kind,
  selector and missing value), except that a missing value that is a NaN becomes the canonical NaN; a segment whose sort has no such
  missing value is returned unchanged. The codec table sends a segment of the current codec to the same reader, and the comparators of the
  index sort that was read order documents exactly as the original ones do, whatever their keys and whether they have one.
\<close>
theorem segment_info_round_trip:
  assumes "good_info si" and "info_write K threads si [] = Some b" and "length b \<le> usize_max"
  shows "\<exists>si'. info_parse K threads b (info_id si) = Inr si' \<and>
    parse_for_codec K threads registered b (info_id si) (ascii ''Lucene104'') = Inr si' \<and>
    si' = si\<lparr>index_sort := map_option (map canonical_field) (index_sort si)\<rparr> \<and>
    ((\<forall>sfs. index_sort si = Some sfs \<longrightarrow> list_all (\<lambda>sf. \<not> nan_missing (sort_kind sf)) sfs) \<longrightarrow> si' = si) \<and>
    rel_option (list_all2 (\<lambda>sf sf'. sort_field sf' = sort_field sf \<and> sort_reverse sf' = sort_reverse sf \<and>
       (\<forall>x y. compare (comparator_new sf') x y = compare (comparator_new sf) x y))) (index_sort si) (index_sort si')"
proof -
  have "for_name registered (ascii ''Lucene104'') = Some (CODECS ! 10)"
    by (simp add: for_name_def CODECS_def ascii_def)
  then have codec: "parse_for_codec K threads registered b (info_id si) (ascii ''Lucene104'') = info_parse K threads b (info_id si)"
    by (simp add: parse_for_codec_def info_parse_def CODECS_def)
  have "rel_option (list_all2 (\<lambda>sf sf'. sort_field sf' = sort_field sf \<and> sort_reverse sf' = sort_reverse sf \<and>
       (\<forall>x y. compare (comparator_new sf') x y = compare (comparator_new sf) x y))) (index_sort si) (index_sort (canonical_info si))"
    by (cases "index_sort si") (simp_all add: canonical_info_def list_all2_conv_all_nth compare_canonical, simp add: canonical_field_def)
  moreover have "canonical_info si = si" if "\<forall>sfs. index_sort si = Some sfs \<longrightarrow> list_all (\<lambda>sf. \<not> nan_missing (sort_kind sf)) sfs"
  proof -
    have "map_option (map canonical_field) (index_sort si) = index_sort si"
      using that by (cases "index_sort si") (auto simp: list_all_iff intro!: map_idI canonical_field_id)
    then show ?thesis by (simp add: canonical_info_def)
  qed
  ultimately show ?thesis
    using parse_written [OF assms] codec unfolding canonical_info_def by (intro exI [of _ "canonical_info si"]) (simp add: canonical_info_def)
qed

definition sample_field :: index_sort_field where
  "sample_field = \<lparr>sort_field = ascii ''f'', sort_reverse = True, sort_kind = SortedNumericSort (FloatKey (Some 0xffc00001)) NumericMax\<rparr>"

definition sample_info :: segment_info where
  "sample_info =
     \<lparr>info_id = replicate 16 7, info_version = \<lparr>major = 10, minor = 4, bugfix = 0\<rparr>, info_min_version = None, doc_count = 3,
      is_compound_file = False, has_blocks = True, diagnostics = [], info_files = [ascii ''_0.si''], attributes = [],
      index_sort = Some [sample_field]\<rparr>"

lemma sample_info_good: "good_info sample_info"
  by (simp add: good_info_def sample_info_def sample_field_def good_version_def good_strings_def good_ascii ascii_def ID_LENGTH_def)

lemma sample_info_bytes:
  obtains b where "info_write xor_hasher 4 sample_info [] = Some b" "length b \<le> usize_max"
proof -
  obtain b where b: "info_write xor_hasher 4 sample_info [] = Some b"
    using sample_info_good by (simp add: info_write_eq good_info_def)
  have "missing_bytes (FloatKey (Some 0xffc00001)) = to_le_bytes 4 (1 :: i32) @ to_le_bytes 4 (float_to_sortable_int 0xffc00001)"
    by (simp add: missing_bytes_def write_optional_def bytes_written)
  then have "sort_field_bytes sample_field = string_bytes PROVIDER_SORTED_NUMERIC @ string_bytes (ascii ''f'') @ string_bytes TYPE_FLOAT @
      to_le_bytes 4 (1 :: i32) @ to_le_bytes 4 (1 :: i32) @ to_le_bytes 4 (1 :: i32) @ to_le_bytes 4 (float_to_sortable_int 0xffc00001)"
    by (simp add: sort_value_bytes sample_field_def)
  then have "length (sort_field_bytes sample_field) \<le> 100"
    using length_string_bytes_le [of PROVIDER_SORTED_NUMERIC] length_string_bytes_le [of "ascii ''f''"] length_string_bytes_le [of TYPE_FLOAT]
    by (simp add: sort_constants ascii_def)
  then have "length (info_bytes sample_info) \<le> 1000"
    using length_string_bytes_le [of "ascii ''_0.si''"]
    by (simp add: info_bytes_def sample_info_def ascii_def map_bytes_def set_bytes_def encode_varint_single)
  moreover have "length (index_header_bytes INFO_CODEC_NAME INFO_VERSION_CURRENT (info_id sample_info) []) \<le> 1000"
    by (subst length_index_header_bytes) (simp_all add: INFO_CODEC_NAME_def ascii_def sample_info_def ID_LENGTH_def
        index_header_length_def header_length_def)
  moreover have "length b = length (index_header_bytes INFO_CODEC_NAME INFO_VERSION_CURRENT (info_id sample_info) []) +
      length (info_bytes sample_info) + 16"
    using b sample_info_good by (auto simp: info_write_eq good_info_def length_write_footer)
  ultimately have "length b \<le> usize_max" by (simp add: usize_max_def)
  with b show thesis by (rule that)
qed

theorem segment_info_round_trip_witness:
  "\<exists>b si'. info_write xor_hasher 4 sample_info [] = Some b \<and> info_parse xor_hasher 4 b (replicate 16 7) = Inr si' \<and>
    info_files si' = [ascii ''_0.si''] \<and>
    index_sort si' = Some [\<lparr>sort_field = ascii ''f'', sort_reverse = True, sort_kind = SortedNumericSort (FloatKey (Some 0x7fc00000)) NumericMax\<rparr>]"
proof -
  obtain b where b: "info_write xor_hasher 4 sample_info [] = Some b" "length b \<le> usize_max" by (rule sample_info_bytes)
  have "canonical_field sample_field =
      \<lparr>sort_field = ascii ''f'', sort_reverse = True, sort_kind = SortedNumericSort (FloatKey (Some 0x7fc00000)) NumericMax\<rparr>"
    by (simp add: canonical_field_def sample_field_def canonical_float_bits_def float_nan_def float_magnitude_def f32_infinity_def)
  then have "map_option (map canonical_field) (index_sort sample_info) =
      Some [\<lparr>sort_field = ascii ''f'', sort_reverse = True, sort_kind = SortedNumericSort (FloatKey (Some 0x7fc00000)) NumericMax\<rparr>]"
    by (simp add: sample_info_def)
  moreover obtain si' where "info_parse xor_hasher 4 b (info_id sample_info) = Inr si'"
      "si' = sample_info\<lparr>index_sort := map_option (map canonical_field) (index_sort sample_info)\<rparr>"
    using segment_info_round_trip [OF sample_info_good b, of "[]"] by blast
  moreover have "info_id sample_info = replicate 16 7" "info_files sample_info = [ascii ''_0.si'']" by (simp_all add: sample_info_def)
  ultimately show ?thesis using b(1) by auto
qed

text \<open>
  C31: \<open>SortKeyComparator::compare\<close> is a total preorder on the keys of documents, documents without one included:
  a key equals itself, swapping the arguments reverses the answer, and \<open>not greater\<close> is transitive. On floats it is
  the order of the sortable integers, so a NaN is above everything and \<open>-0.0\<close> is below \<open>0.0\<close>.
\<close>
theorem sort_key_order:
  "compare c a a = Equal \<and> compare c b a = reverse_ordering (compare c a b) \<and>
   (compare c a b \<noteq> Greater \<longrightarrow> compare c b d \<noteq> Greater \<longrightarrow> compare c a d \<noteq> Greater) \<and>
   java_float_compare v w = cmp (sint (float_to_sortable_int v)) (sint (float_to_sortable_int w)) \<and>
   java_double_compare x y = cmp (sint (double_to_sortable_long x)) (sint (double_to_sortable_long y))"
  by (auto simp: compare_rank cmp_def java_compare_rank sortable_canonical sint_sortable)

theorem sort_key_order_witness:
  "compare (comparator_new (isf_long [] True None)) (Some 3) None \<noteq> Greater \<and>
   compare (comparator_new (isf_long [] True None)) (Some 5) None \<noteq> Greater"
proof -
  let ?c = "comparator_new (isf_long [] True None)"
  have "compare ?c (Some 5) (Some 3) \<noteq> Greater" "compare ?c (Some 3) None \<noteq> Greater"
    by (simp_all add: compare_def comparator_new_def isf_long_def key_comparison_def compare_keys_def cmp_def unwrap_or_def)
  then show ?thesis using sort_key_order [of ?c "Some 5" "Some 3" None] by blast
qed

end
