(* ===== verification/Deletion_Policy.thy ===== *)
theory Deletion_Policy
  imports Store_Directory
begin

text \<open>
  \<open>deletion_policy.rs\<close>: the commit points handed to a deletion policy, the policy trait as a record of its two
  methods over the policy's own state, and the policies \<open>KeepOnlyLastCommit\<close>, \<open>NoDeletion\<close>, \<open>KeepLastNCommits\<close> and
  \<open>Snapshot\<close>. A policy receives \<open>&mut [IndexCommit]\<close>, whose length is fixed and whose only mutator is \<open>delete\<close>:
  the locale \<open>deletion_policy\<close> states exactly that, and every policy here interprets it.

  The text of an error is the datatype \<open>policy_reason\<close>. Reference counts of snapshots are \<open>i32\<close> values, integers with the saturating steps written out. A hash map is
  an association list read with \<open>map_of\<close>; the order of its entries is never observed. The mutex is not modelled:
  every method holds it throughout. The policy that persists its snapshots is not modelled.
\<close>

datatype policy_reason =
    CommitsToKeepNotPositive
  | NotSnapshotted int
  | NotUsedByWriter
  | NoCommitToSnapshot

datatype policy_error =
    PolicyStore error
  | PolicyIllegalArgument policy_reason
  | PolicyIllegalState policy_reason

record index_commit =
  ic_generation :: i64
  ic_segments_file_name :: name
  ic_file_names :: "name list"
  ic_segment_count :: nat
  ic_user_data :: "(u8 list \<times> u8 list) list"
  ic_deleted :: bool

definition ic_new ::
    "i64 \<Rightarrow> name \<Rightarrow> name list \<Rightarrow> nat \<Rightarrow> (u8 list \<times> u8 list) list \<Rightarrow> index_commit" where
  "ic_new g n fs count udata =
     \<lparr>ic_generation = g, ic_segments_file_name = n, ic_file_names = fs, ic_segment_count = count,
      ic_user_data = udata, ic_deleted = False\<rparr>"

definition ic_delete :: "index_commit \<Rightarrow> index_commit" where
  "ic_delete c = c\<lparr>ic_deleted := True\<rparr>"

type_synonym 'p decision = "index_commit list \<Rightarrow> ('p, policy_error, index_commit list) fallible"

record 'p index_deletion_policy =
  on_init :: "'p decision"
  on_commit :: "'p decision"

text \<open>\<open>for commit in &mut commits[..n] { commit.delete() }\<close>\<close>

definition delete_first :: "nat \<Rightarrow> index_commit list \<Rightarrow> index_commit list" where
  "delete_first n cs = map ic_delete (take n cs) @ drop n cs"

section \<open>The stateless policies\<close>

definition keep_only_last_on_commit :: "unit decision" where
  "keep_only_last_on_commit cs = ret (delete_first (length cs - 1) cs)"

definition keep_only_last_policy :: "unit index_deletion_policy" where
  "keep_only_last_policy = \<lparr>on_init = keep_only_last_on_commit, on_commit = keep_only_last_on_commit\<rparr>"

definition no_deletion_policy :: "unit index_deletion_policy" where
  "no_deletion_policy = \<lparr>on_init = (\<lambda>cs. ret cs), on_commit = (\<lambda>cs. ret cs)\<rparr>"

text \<open>The state of \<open>KeepLastNCommitsDeletionPolicy\<close> is the number of commits to keep.\<close>

definition keep_last_n_new :: "i32 \<Rightarrow> policy_error + nat" where
  "keep_last_n_new n =
     (if sint n \<le> 0 then Inl (PolicyIllegalArgument CommitsToKeepNotPositive)
      else Inr (nat (sint n)))"

definition keep_last_n_on_commit :: "nat decision" where
  "keep_last_n_on_commit cs n = (Inr (delete_first (length cs - n) cs), n)"

definition keep_last_n_policy :: "nat index_deletion_policy" where
  "keep_last_n_policy = \<lparr>on_init = keep_last_n_on_commit, on_commit = keep_last_n_on_commit\<rparr>"

section \<open>Snapshots\<close>

record 'p snapshot_state =
  primary :: 'p
  sn_ref_counts :: "(i64 \<times> int) list"
  sn_index_commits :: "(i64 \<times> index_commit) list"
  last_commit :: "index_commit option"
  init_called :: bool

definition snapshot_new :: "'p \<Rightarrow> 'p snapshot_state" where
  "snapshot_new p = \<lparr>primary = p, sn_ref_counts = [], sn_index_commits = [], last_commit = None, init_called = False\<rparr>"

definition pinned :: "'p snapshot_state \<Rightarrow> i64 \<Rightarrow> bool" where
  "pinned st g = (map_of (sn_ref_counts st) g \<noteq> None)"

definition run_primary :: "'p index_deletion_policy \<Rightarrow> bool \<Rightarrow> ('p snapshot_state) decision" where
  "run_primary P init cs st =
     (case (if init then on_init P else on_commit P) cs (primary st) of
        (Inl e, p) \<Rightarrow> (Inl e, st\<lparr>primary := p\<rparr>)
      | (Inr wrapped, p) \<Rightarrow>
          (Inr (map (\<lambda>(c, decided). if ic_deleted decided \<and> \<not> pinned st (ic_generation c) then ic_delete c else c)
                  (zip cs wrapped) @ drop (length wrapped) cs),
           st\<lparr>primary := p\<rparr>))"

definition sn_inc_ref :: "index_commit \<Rightarrow> 'p snapshot_state \<Rightarrow> 'p snapshot_state" where
  "sn_inc_ref commit st =
     (let g = ic_generation commit in
      case map_of (sn_ref_counts st) g of
        None \<Rightarrow> st\<lparr>sn_index_commits := AList.update g commit (sn_index_commits st),
                    sn_ref_counts := AList.update g 1 (sn_ref_counts st)\<rparr>
      | Some c \<Rightarrow> st\<lparr>sn_ref_counts := AList.update g (min (c + 1) (2 ^ 31 - 1)) (sn_ref_counts st)\<rparr>)"

definition snapshot :: "('p snapshot_state, policy_error, index_commit) fallible" where
  "snapshot st =
     (if \<not> init_called st then (Inl (PolicyIllegalState NotUsedByWriter), st)
      else case last_commit st of
             None \<Rightarrow> (Inl (PolicyIllegalState NoCommitToSnapshot), st)
           | Some c \<Rightarrow> (Inr c, sn_inc_ref c st))"

definition release_gen :: "i64 \<Rightarrow> ('p snapshot_state, policy_error, unit) fallible" where
  "release_gen g st =
     (if \<not> init_called st then (Inl (PolicyIllegalState NotUsedByWriter), st)
      else case map_of (sn_ref_counts st) g of
             None \<Rightarrow> (Inl (PolicyIllegalArgument (NotSnapshotted (sint g))), st)
           | Some c \<Rightarrow>
               let c = max (c - 1) (- (2 ^ 31)) in
               if c = 0 then
                 (Inr (), st\<lparr>sn_ref_counts := AList.delete g (sn_ref_counts st),
                             sn_index_commits := AList.delete g (sn_index_commits st)\<rparr>)
               else (Inr (), st\<lparr>sn_ref_counts := AList.update g c (sn_ref_counts st)\<rparr>))"

definition release :: "index_commit \<Rightarrow> ('p snapshot_state, policy_error, unit) fallible" where
  "release commit = release_gen (ic_generation commit)"

definition snapshots :: "'p snapshot_state \<Rightarrow> index_commit list" where
  "snapshots st = sort_key (\<lambda>c. sint (ic_generation c)) (map snd (sn_index_commits st))"

definition snapshot_count :: "'p snapshot_state \<Rightarrow> int" where
  "snapshot_count st =
     foldl (\<lambda>a c. max (- (2 ^ 31)) (min (a + c) (2 ^ 31 - 1))) 0 (map snd (sn_ref_counts st))"

definition sn_index_commit :: "'p snapshot_state \<Rightarrow> i64 \<Rightarrow> index_commit option" where
  "sn_index_commit st g = map_of (sn_index_commits st) g"

definition last_opt :: "'a list \<Rightarrow> 'a option" where
  "last_opt xs = (if xs = [] then None else Some (last xs))"

definition snapshot_on_init :: "'p index_deletion_policy \<Rightarrow> ('p snapshot_state) decision" where
  "snapshot_on_init P cs st =
     bnd (run_primary P True cs) (\<lambda>cs st.
       (Inr cs, st\<lparr>sn_index_commits :=
                     foldl (\<lambda>ics c. if pinned st (ic_generation c) then AList.update (ic_generation c) c ics else ics)
                       (sn_index_commits st) cs,
                   last_commit := (case last_opt cs of None \<Rightarrow> last_commit st | Some c \<Rightarrow> Some c)\<rparr>))
       (st\<lparr>init_called := True\<rparr>)"

definition snapshot_on_commit :: "'p index_deletion_policy \<Rightarrow> ('p snapshot_state) decision" where
  "snapshot_on_commit P cs st =
     bnd (run_primary P False cs) (\<lambda>cs st. (Inr cs, st\<lparr>last_commit := last_opt cs\<rparr>)) st"

definition snapshot_policy :: "'p index_deletion_policy \<Rightarrow> 'p snapshot_state index_deletion_policy" where
  "snapshot_policy P = \<lparr>on_init = snapshot_on_init P, on_commit = snapshot_on_commit P\<rparr>"

section \<open>What a policy may do\<close>

text \<open>\<open>marks cs cs'\<close>: the same commits, some of them newly marked as deleted.\<close>

definition marks :: "index_commit list \<Rightarrow> index_commit list \<Rightarrow> bool" where
  "marks cs cs' = list_all2 (\<lambda>c c'. c' = c \<or> c' = ic_delete c) cs cs'"

lemma marks_refl [simp]: "marks cs cs"
  by (simp add: marks_def list.rel_refl)

lemma marks_length: "marks cs cs' \<Longrightarrow> length cs' = length cs"
  by (simp add: marks_def list_all2_lengthD)

lemma marks_delete_first: "marks cs (delete_first n cs)"
proof -
  have "list_all2 (\<lambda>c c'. c' = c \<or> c' = ic_delete c) (take n cs @ drop n cs) (map ic_delete (take n cs) @ drop n cs)"
    by (intro list_all2_appendI) (auto simp: list_all2_conv_all_nth)
  then show ?thesis by (simp add: marks_def delete_first_def)
qed

locale deletion_policy =
  fixes P :: "'p index_deletion_policy"
  assumes init_marks: "on_init P cs p = (Inr cs', p') \<Longrightarrow> marks cs cs'"
    and commit_marks: "on_commit P cs p = (Inr cs', p') \<Longrightarrow> marks cs cs'"
begin

lemma run_primary_marks:
  assumes "run_primary P init cs st = (Inr cs', st')"
  shows "marks cs cs'" "sn_ref_counts st' = sn_ref_counts st" "sn_index_commits st' = sn_index_commits st"
    "last_commit st' = last_commit st" "init_called st' = init_called st"
proof -
  obtain wrapped p where w: "(if init then on_init P else on_commit P) cs (primary st) = (Inr wrapped, p)"
    using assms by (auto simp: run_primary_def split: prod.splits sum.splits)
  then have "marks cs wrapped" using init_marks commit_marks by (auto split: if_splits)
  then have len: "length wrapped = length cs" by (rule marks_length)
  have r: "cs' = map (\<lambda>(c, decided). if ic_deleted decided \<and> \<not> pinned st (ic_generation c) then ic_delete c else c) (zip cs wrapped)"
    "st' = st\<lparr>primary := p\<rparr>"
    using assms w len by (auto simp: run_primary_def)
  then show "marks cs cs'" using len by (auto simp: marks_def list_all2_conv_all_nth)
  show "sn_ref_counts st' = sn_ref_counts st" "sn_index_commits st' = sn_index_commits st"
    "last_commit st' = last_commit st" "init_called st' = init_called st"
    using r(2) by simp_all
qed

text \<open>A commit whose generation is pinned keeps its mark; any other takes the primary policy's.\<close>

lemma run_primary_decides:
  assumes "run_primary P init cs st = (Inr cs', st')" and "i < length cs"
    and "(if init then on_init P else on_commit P) cs (primary st) = (Inr decided, p)"
  shows "ic_deleted (cs' ! i) \<longleftrightarrow>
    ic_deleted (cs ! i) \<or> ic_deleted (decided ! i) \<and> \<not> pinned st (ic_generation (cs ! i))"
proof -
  have "marks cs decided" using assms(3) init_marks commit_marks by (auto split: if_splits)
  then have len: "length decided = length cs" by (rule marks_length)
  then have "cs' = map (\<lambda>(c, d). if ic_deleted d \<and> \<not> pinned st (ic_generation c) then ic_delete c else c) (zip cs decided)"
    using assms(1,3) by (auto simp: run_primary_def)
  then show ?thesis using assms(2) len by (auto simp: ic_delete_def)
qed

end

lemma snapshot_is_policy: "deletion_policy P \<Longrightarrow> deletion_policy (snapshot_policy P)"
  by (rule deletion_policy.intro)
     (auto simp: snapshot_policy_def snapshot_on_init_def snapshot_on_commit_def bnd_eq_Inr_iff
       dest: deletion_policy.run_primary_marks(1))

interpretation keep_only_last: deletion_policy keep_only_last_policy
  by unfold_locales (auto simp: keep_only_last_policy_def keep_only_last_on_commit_def marks_delete_first)

interpretation no_deletion: deletion_policy no_deletion_policy
  by unfold_locales (auto simp: no_deletion_policy_def)

interpretation keep_last_n: deletion_policy keep_last_n_policy
  by unfold_locales (auto simp: keep_last_n_policy_def keep_last_n_on_commit_def marks_delete_first)

interpretation snapshots_over_last: deletion_policy "snapshot_policy keep_only_last_policy"
  by (rule snapshot_is_policy [OF keep_only_last.deletion_policy_axioms])

section \<open>Properties\<close>

lemma keep_only_last_decides:
  assumes "i < length cs"
  shows "ic_deleted (delete_first n cs ! i) \<longleftrightarrow> i < n \<or> ic_deleted (cs ! i)"
  using assms by (auto simp: delete_first_def nth_append ic_delete_def min_def)

text \<open>
  C28: A snapshot protects its commit. When \<open>SnapshotDeletionPolicy\<close> runs (over any primary policy that can only
  mark commits), a commit whose generation is snapshotted is not marked; every other commit is marked exactly when
  the primary policy marks it. The newest commit becomes the one the next snapshot pins, and no snapshot is lost.
\<close>
theorem snapshot_protects:
  assumes "deletion_policy P" and "on_commit (snapshot_policy P) cs st = (Inr cs', st')" and "i < length cs"
    and "on_commit P cs (primary st) = (Inr decided, p)"
  shows "(ic_deleted (cs' ! i) \<longleftrightarrow>
      ic_deleted (cs ! i) \<or> ic_deleted (decided ! i) \<and> \<not> pinned st (ic_generation (cs ! i))) \<and>
    sn_ref_counts st' = sn_ref_counts st \<and> sn_index_commits st' = sn_index_commits st \<and> last_commit st' = Some (last cs')"
proof -
  obtain st1 where r: "run_primary P False cs st = (Inr cs', st1)" "st' = st1\<lparr>last_commit := last_opt cs'\<rparr>"
    using assms(2) by (auto simp: snapshot_policy_def snapshot_on_commit_def bnd_eq_Inr_iff)
  note m = deletion_policy.run_primary_marks [OF assms(1) r(1)]
  have "cs' \<noteq> []" using marks_length [OF m(1)] assms(3) by auto
  then show ?thesis
    using deletion_policy.run_primary_decides [OF assms(1) r(1) assms(3)] assms(4) r(2) m(2,3) by (simp add: last_opt_def)
qed

definition sample_ic :: "i64 \<Rightarrow> index_commit" where
  "sample_ic g = ic_new g (ascii ''segments_1'') [] 0 []"

theorem snapshot_protects_witness:
  "\<exists>cs' st'. on_commit (snapshot_policy keep_only_last_policy) [sample_ic 1, sample_ic 2, sample_ic 3]
      (snapshot_new () \<lparr>init_called := True, sn_ref_counts := [(1, 1)]\<rparr>) = (Inr cs', st') \<and>
    \<not> ic_deleted (cs' ! 0) \<and> ic_deleted (cs' ! 1)"
proof -
  let ?cs = "[sample_ic 1, sample_ic 2, sample_ic 3]"
  let ?st = "snapshot_new () \<lparr>init_called := True, sn_ref_counts := [(1, 1)]\<rparr>"
  let ?decided = "delete_first 2 ?cs"
  have prim: "on_commit keep_only_last_policy ?cs (primary ?st) = (Inr ?decided, ())"
    by (simp add: keep_only_last_policy_def keep_only_last_on_commit_def snapshot_new_def numeral_2_eq_2)
  obtain cs' st' where run: "on_commit (snapshot_policy keep_only_last_policy) ?cs ?st = (Inr cs', st')"
    by (simp add: snapshot_policy_def snapshot_on_commit_def run_primary_def keep_only_last_policy_def
        keep_only_last_on_commit_def bnd_def)
  have "\<not> ic_deleted (cs' ! 0)"
    using snapshot_protects [OF keep_only_last.deletion_policy_axioms run _ prim, of 0]
    by (simp add: pinned_def sample_ic_def ic_new_def snapshot_new_def)
  moreover have "ic_deleted (cs' ! 1)"
    using snapshot_protects [OF keep_only_last.deletion_policy_axioms run _ prim, of 1] keep_only_last_decides [of 1 ?cs 2]
    by (simp add: pinned_def sample_ic_def ic_new_def snapshot_new_def)
  ultimately show ?thesis using run by blast
qed

text \<open>
  Snapshots are counted. A snapshot pins the last commit the policy saw; releasing it restores exactly the pins
  held before (unless the counter was saturated), so a commit held by several snapshots stays pinned until the last
  is released. A release that has no snapshot is an error and changes nothing.
\<close>
theorem snapshot_release_inverse:
  assumes "snapshot st = (Inr c, st')" and "release c st' = (r, st'')"
    and "map_of (sn_ref_counts st) (ic_generation c) \<noteq> Some (2 ^ 31 - 1)" and "map_of (sn_ref_counts st) (ic_generation c) \<noteq> Some 0"
    and "map_of (sn_ref_counts st) (ic_generation c) = None \<longrightarrow> map_of (sn_index_commits st) (ic_generation c) = None"
    and "\<forall>k \<in> ran (map_of (sn_ref_counts st)). - (2 ^ 31) \<le> k \<and> k < 2 ^ 31"
  shows "last_commit st = Some c \<and> pinned st' (ic_generation c) \<and> r = Inr () \<and>
    map_of (sn_ref_counts st'') = map_of (sn_ref_counts st) \<and> map_of (sn_index_commits st'') = map_of (sn_index_commits st) \<and>
    (\<not> pinned st (ic_generation c) \<longrightarrow> fst (release c st'') = Inl (PolicyIllegalArgument (NotSnapshotted (sint (ic_generation c)))))"
proof -
  let ?g = "ic_generation c"
  have st': "last_commit st = Some c" "st' = sn_inc_ref c st" "init_called st"
    using assms(1) by (auto simp: snapshot_def split: if_splits option.splits)
  have init': "init_called st'" using st' by (simp add: sn_inc_ref_def Let_def split: option.splits)
  show ?thesis
  proof (cases "map_of (sn_ref_counts st) ?g")
    case None
    then have "map_of (sn_ref_counts st') ?g = Some 1" "map_of (sn_ref_counts st'') = map_of (sn_ref_counts st)"
      "map_of (sn_index_commits st'') = map_of (sn_index_commits st)" "r = Inr ()" "init_called st''"
      using assms(2,5) st' init'
      by (auto simp: sn_inc_ref_def Let_def release_def release_gen_def update_conv' delete_conv' fun_eq_iff)
    with None st' show ?thesis by (simp add: pinned_def release_def release_gen_def)
  next
    case (Some k)
    then have "k \<noteq> 2 ^ 31 - 1" "- (2 ^ 31) \<le> k" "k < 2 ^ 31" "k \<noteq> 0" using assms(3,4,6) by (auto simp: ran_def)
    then have k: "min (k + 1) (2 ^ 31 - 1) = k + 1" "max (k + 1 - 1) (- (2 ^ 31)) = k" by auto
    have "map_of (sn_ref_counts st') ?g = Some (k + 1)" using st'(2) Some k(1) by (simp add: sn_inc_ref_def Let_def update_conv')
    moreover from this have "map_of (sn_ref_counts st'') = map_of (sn_ref_counts st)"
      "map_of (sn_index_commits st'') = map_of (sn_index_commits st)" "r = Inr ()"
      using assms(2) init' Some k \<open>k \<noteq> 0\<close> st'(2)
      by (auto simp: release_def release_gen_def Let_def update_conv' sn_inc_ref_def fun_eq_iff)
    ultimately show ?thesis using st' Some by (simp add: pinned_def)
  qed
qed

theorem snapshot_release_inverse_witness:
  "\<exists>st' st''. snapshot (snapshot_new () \<lparr>init_called := True, last_commit := Some (sample_ic 7)\<rparr>) = (Inr (sample_ic 7), st') \<and>
     pinned st' 7 \<and> release (sample_ic 7) st' = (Inr (), st'') \<and>
     fst (release (sample_ic 7) st'') = Inl (PolicyIllegalArgument (NotSnapshotted 7))"
proof -
  let ?st = "snapshot_new () \<lparr>init_called := True, last_commit := Some (sample_ic 7)\<rparr>"
  have gen: "ic_generation (sample_ic 7) = 7" by (simp add: sample_ic_def ic_new_def)
  obtain st' where s: "snapshot ?st = (Inr (sample_ic 7), st')" by (simp add: snapshot_def)
  obtain r st'' where "release (sample_ic 7) st' = (r, st'')" by (metis surj_pair)
  with snapshot_release_inverse [OF s this] s gen show ?thesis
    by (simp add: snapshot_new_def pinned_def)
qed

end
