(* ===== verification/Index_File_Deleter.thy ===== *)
theory Index_File_Deleter
  imports Segment_Info Deletion_Policy Index_File_Names "HOL-Library.Multiset"
begin

text \<open>
  \<open>index_file_deleter.rs\<close>: the reference counts that decide which files of an index may be deleted. A file is
  referenced by the commit points that name it, by the last checkpoint of the writer, and by whoever holds it (a merge
  in progress, a buffer). The state is the record \<open>index_file_deleter\<close> with the state of its directory inside; a
  hash map is an association list read with \<open>map_of\<close> (its entries are \<open>AList.clearjunk\<close>), a count a natural number with the saturation at \<open>u32::MAX\<close>
  written out.

  The directory, the pluggable policy, the checksum library, the registered codecs and the reader of SimpleText \<open>.si\<close>
  files are the fields of \<open>deleter_env\<close>. The policy object is shared, so its state may change between two operations.
  The debug assertion of \<open>dec_ref_all\<close> is not modelled; \<open>expect("just ensured above")\<close> is a lookup that
  \<open>ensured_si_files\<close> shows to succeed.
\<close>

section \<open>State\<close>

datatype deleter_error =
    IfdStore error
  | IfdSegmentInfo info_error
  | IfdSegmentInfos si_error
  | IfdPolicy policy_error
  | UnreferencedCommitFile name

datatype stock_policy = KeepOnlyLastCommit | KeepAll

record commit_point =
  cp_generation :: i64
  cp_segments_file_name :: name
  cp_files :: "name list"
  cp_segment_count :: nat
  cp_user_data :: "(u8 list \<times> u8 list) list"

record ('d, 'p) index_file_deleter =
  ifd_dir :: 'd
  ifd_policy :: stock_policy
  custom :: "'p option"
  ref_counts :: "(name \<times> nat) list"
  commits :: "commit_point list"
  last_files :: "name list"
  si_files :: "(name \<times> (u8 list \<times> name list)) list"
  synced :: "name set"

record ('d, 'o, 'p, 'h) deleter_env =
  env_dir :: "('d, 'o) directory"
  env_policy :: "'p index_deletion_policy"
  env_crc :: "'h crc32fast"
  env_threads :: nat
  env_registered :: "codec_formats list"
  env_simpletext :: "u8 list \<Rightarrow> name \<Rightarrow> u8 list \<Rightarrow> info_error + name list"

type_synonym ('d, 'p, 'a) deleter = "(('d, 'p) index_file_deleter, deleter_error, 'a) fallible"

text \<open>An operation of the directory inside an operation of the deleter.\<close>

definition in_dir :: "('d, deleter_error, 'a) fallible \<Rightarrow> ('d, 'p, 'a) deleter" where
  "in_dir m s = (let (r, d) = m (ifd_dir s) in (r, s\<lparr>ifd_dir := d\<rparr>))"

fun for_each :: "('a \<Rightarrow> ('s, 'e, unit) fallible) \<Rightarrow> 'a list \<Rightarrow> ('s, 'e, unit) fallible" where
  "for_each f [] = ret ()"
| "for_each f (x # xs) = bnd (f x) (\<lambda>_. for_each f xs)"

section \<open>The files a commit names\<close>

definition si_file_name :: "name \<Rightarrow> name" where
  "si_file_name segment = segment @ ascii ''.si''"

definition with_self_listing :: "name \<Rightarrow> name list \<Rightarrow> name list" where
  "with_self_listing segment files =
     (let n = si_file_name segment in if \<not> list_ex (\<lambda>f. f = n) files then files @ [n] else files)"

definition segment_info_files :: "('d, 'o, 'p, 'h) deleter_env \<Rightarrow> segment_commit_info \<Rightarrow> ('d, deleter_error, name list) fallible" where
  "segment_info_files E sci =
     bnd (map_err IfdStore (dir_open (env_dir E) (si_file_name (segment_name sci)))) (\<lambda>bytes.
     bnd (map_err IfdSegmentInfo (lift_res
            (if codec_name sci = ascii ''SimpleText'' then env_simpletext E bytes (segment_name sci) (segment_id sci)
             else map_sum id info_files
               (parse_for_codec (env_crc E) (env_threads E) (env_registered E) bytes (segment_id sci) (codec_name sci))))) (\<lambda>files.
       ret (with_self_listing (segment_name sci) files)))"

definition segment_files :: "('d, 'o, 'p, 'h) deleter_env \<Rightarrow> segment_commit_info \<Rightarrow> ('d, deleter_error, name list) fallible" where
  "segment_files E sci = bnd (segment_info_files E sci) (\<lambda>files. ret (sci_files sci files))"

fun collect_segment_files ::
    "('d, 'o, 'p, 'h) deleter_env \<Rightarrow> name list \<Rightarrow> segment_commit_info list \<Rightarrow> ('d, deleter_error, name list) fallible" where
  "collect_segment_files E out [] = ret out"
| "collect_segment_files E out (sci # rest) =
     bnd (segment_files E sci) (\<lambda>files. collect_segment_files E (foldl push_new out files) rest)"

definition own_segments_file :: "segment_infos \<Rightarrow> name list" where
  "own_segments_file infos = (case segments_file_name (generation infos) of Some n \<Rightarrow> [n] | None \<Rightarrow> [])"

definition files_of_infos ::
    "('d, 'o, 'p, 'h) deleter_env \<Rightarrow> segment_infos \<Rightarrow> bool \<Rightarrow> ('d, deleter_error, name list) fallible" where
  "files_of_infos E infos include_segments_file =
     collect_segment_files E (if include_segments_file then own_segments_file infos else []) (segments infos)"

definition ensure_si_files :: "('d, 'o, 'p, 'h) deleter_env \<Rightarrow> segment_commit_info \<Rightarrow> ('d, 'p, unit) deleter" where
  "ensure_si_files E sci s =
     (if map_option fst (map_of (si_files s) (segment_name sci)) = Some (segment_id sci) then (Inr (), s)
      else bnd (in_dir (segment_info_files E sci)) (\<lambda>files s.
        (Inr (), s\<lparr>si_files := AList.update (segment_name sci) (segment_id sci, files) (si_files s)\<rparr>)) s)"

definition recorded_files :: "('d, 'p) index_file_deleter \<Rightarrow> segment_commit_info \<Rightarrow> name list" where
  "recorded_files s sci =
     sci_files sci (case map_of (si_files s) (segment_name sci) of Some (_, files) \<Rightarrow> files | None \<Rightarrow> [])"

definition commit_files :: "('d, 'o, 'p, 'h) deleter_env \<Rightarrow> segment_infos \<Rightarrow> bool \<Rightarrow> ('d, 'p, name list) deleter" where
  "commit_files E infos include_segments_file =
     bnd (for_each (ensure_si_files E) (segments infos)) (\<lambda>_ s.
       (Inr (foldl (\<lambda>out sci. foldl push_new out (recorded_files s sci))
               (if include_segments_file then own_segments_file infos else []) (segments infos)), s))"

section \<open>Reference counts\<close>

definition ref_count :: "('d, 'p) index_file_deleter \<Rightarrow> name \<Rightarrow> nat" where
  "ref_count s n = (case map_of (ref_counts s) n of Some c \<Rightarrow> c | None \<Rightarrow> 0)"

definition exists_ref :: "('d, 'p) index_file_deleter \<Rightarrow> name \<Rightarrow> bool" where
  "exists_ref s n = (0 < ref_count s n)"

definition u32_max :: nat where
  "u32_max = 2 ^ 32 - 1"

definition inc_ref :: "(name \<times> nat) list \<Rightarrow> name \<Rightarrow> (name \<times> nat) list" where
  "inc_ref counts n =
     (let c = (case map_of counts n of Some c \<Rightarrow> c | None \<Rightarrow> 0) in AList.update n (min (c + 1) u32_max) counts)"

definition inc_ref_all :: "name list \<Rightarrow> ('d, 'p) index_file_deleter \<Rightarrow> ('d, 'p) index_file_deleter" where
  "inc_ref_all files s = s\<lparr>ref_counts := foldl inc_ref (ref_counts s) files\<rparr>"

text \<open>One pass of \<open>delete_files\<close>: every name of the pass is forgotten and tried, the first failure is kept.\<close>

fun delete_pass ::
    "('d, 'o, 'p, 'h) deleter_env \<Rightarrow> bool \<Rightarrow> error option \<Rightarrow> name list \<Rightarrow> ('d, 'p) index_file_deleter \<Rightarrow>
     error option \<times> ('d, 'p) index_file_deleter" where
  "delete_pass E segments_pass first [] s = (first, s)"
| "delete_pass E segments_pass first (n # names) s =
     (if is_segments_file_name n = segments_pass then
        let (r, d) = delete_file (env_dir E) n (ifd_dir s);
            s = s\<lparr>ref_counts := AList.delete n (ref_counts s), synced := synced s - {n}, ifd_dir := d\<rparr>;
            first = (case (first, r) of (None, Inl e) \<Rightarrow> Some e | _ \<Rightarrow> first)
        in delete_pass E segments_pass first names s
      else delete_pass E segments_pass first names s)"

definition delete_files :: "('d, 'o, 'p, 'h) deleter_env \<Rightarrow> name list \<Rightarrow> ('d, 'p, unit) deleter" where
  "delete_files E names s =
     (case delete_pass E True None names s of
        (Some e, s) \<Rightarrow> (Inl (IfdStore e), s)
      | (None, s) \<Rightarrow>
          (case delete_pass E False None names s of
             (Some e, s) \<Rightarrow> (Inl (IfdStore e), s)
           | (None, s) \<Rightarrow> (Inr (), s)))"

definition dec_ref :: "(name \<times> nat) list \<times> name list \<Rightarrow> name \<Rightarrow> (name \<times> nat) list \<times> name list" where
  "dec_ref = (\<lambda>(counts, to_delete) n.
     case map_of counts n of
       None \<Rightarrow> (counts, to_delete)
     | Some c \<Rightarrow>
         let c = c - 1 in
         if c = 0 then (AList.delete n counts, to_delete @ [n]) else (AList.update n c counts, to_delete))"

definition dec_ref_all :: "('d, 'o, 'p, 'h) deleter_env \<Rightarrow> name list \<Rightarrow> ('d, 'p, unit) deleter" where
  "dec_ref_all E files s =
     (let (counts, to_delete) = foldl dec_ref (ref_counts s, []) files
      in delete_files E to_delete (s\<lparr>ref_counts := counts\<rparr>))"

definition unrefed_files :: "('d, 'p) index_file_deleter \<Rightarrow> name list" where
  "unrefed_files s = sort (map fst (filter (\<lambda>(n, c). c = 0) (AList.clearjunk (ref_counts s))))"

section \<open>Commit points\<close>

definition index_commits :: "('d, 'p) index_file_deleter \<Rightarrow> index_commit list" where
  "index_commits s =
     map (\<lambda>c. ic_new (cp_generation c) (cp_segments_file_name c) (cp_files c) (cp_segment_count c) (cp_user_data c)) (commits s)"

definition drop_points :: "('d, 'o, 'p, 'h) deleter_env \<Rightarrow> commit_point list \<Rightarrow> ('d, 'p, unit) deleter" where
  "drop_points E doomed = for_each (\<lambda>c. dec_ref_all E (cp_files c)) doomed"

definition apply_policy :: "('d, 'o, 'p, 'h) deleter_env \<Rightarrow> bool \<Rightarrow> ('d, 'p, unit) deleter" where
  "apply_policy E init s =
     (case custom s of
        Some p \<Rightarrow>
          (case (if init then on_init (env_policy E) else on_commit (env_policy E)) (index_commits s) p of
             (Inl e, p) \<Rightarrow> (Inl (IfdPolicy e), s\<lparr>custom := Some p\<rparr>)
           | (Inr decided, p) \<Rightarrow>
               let pairs = zip (commits s) decided;
                   doomed = map fst (filter (\<lambda>(c, d). ic_deleted d) pairs);
                   kept = map fst (filter (\<lambda>(c, d). \<not> ic_deleted d) pairs)
               in drop_points E doomed (s\<lparr>custom := Some p, commits := kept\<rparr>))
      | None \<Rightarrow>
          if ifd_policy s = KeepAll \<or> length (commits s) < 2 then (Inr (), s)
          else
            let keep_from = length (commits s) - 1
            in drop_points E (take keep_from (commits s)) (s\<lparr>commits := drop keep_from (commits s)\<rparr>))"

definition forget_dead_segments :: "('d, 'p) index_file_deleter \<Rightarrow> ('d, 'p) index_file_deleter" where
  "forget_dead_segments s =
     (let referenced = map (\<lambda>(f, _). parse_segment_name f) (ref_counts s)
      in s\<lparr>si_files := filter (\<lambda>(n, _). n \<in> set referenced) (si_files s)\<rparr>)"

definition forget_dead :: "('d, 'p, unit) deleter" where
  "forget_dead s = (Inr (), forget_dead_segments s)"

definition sort_commits :: "commit_point list \<Rightarrow> commit_point list" where
  "sort_commits cs = sort_key (\<lambda>c. sint (cp_generation c)) cs"

definition checkpoint :: "('d, 'o, 'p, 'h) deleter_env \<Rightarrow> segment_infos \<Rightarrow> bool \<Rightarrow> ('d, 'p, unit) deleter" where
  "checkpoint E infos is_commit =
     bnd (commit_files E infos is_commit) (\<lambda>files s.
       let s = inc_ref_all files s in
       if is_commit then
         let point = \<lparr>cp_generation = generation infos,
               cp_segments_file_name = (case segments_file_name (generation infos) of Some n \<Rightarrow> n | None \<Rightarrow> ascii ''segments''),
               cp_files = files, cp_segment_count = length (segments infos), cp_user_data = user_data infos\<rparr>
         in bnd (apply_policy E False) (\<lambda>_. forget_dead) (s\<lparr>commits := sort_commits (commits s @ [point])\<rparr>)
       else
         bnd (dec_ref_all E (last_files s)) (\<lambda>_ s. forget_dead (s\<lparr>last_files := files\<rparr>)) (s\<lparr>last_files := []\<rparr>))"

definition set_policy :: "('d, 'o, 'p, 'h) deleter_env \<Rightarrow> stock_policy \<Rightarrow> ('d, 'p, unit) deleter" where
  "set_policy E policy s = apply_policy E False (s\<lparr>ifd_policy := policy, custom := None\<rparr>)"

definition set_custom_policy :: "('d, 'o, 'p, 'h) deleter_env \<Rightarrow> 'p \<Rightarrow> ('d, 'p, unit) deleter" where
  "set_custom_policy E policy s =
     (let s = s\<lparr>custom := Some policy\<rparr> in if commits s = [] then (Inr (), s) else apply_policy E False s)"

definition revisit_policy :: "('d, 'o, 'p, 'h) deleter_env \<Rightarrow> ('d, 'p, unit) deleter" where
  "revisit_policy E s =
     (if commits s = [] then (Inr (), s) else bnd (apply_policy E False) (\<lambda>_. forget_dead) s)"

definition drop_commits :: "('d, 'o, 'p, 'h) deleter_env \<Rightarrow> i64 list \<Rightarrow> ('d, 'p, unit) deleter" where
  "drop_commits E generations s =
     (let newest = map_option cp_generation (last_opt (commits s));
          (doomed, kept) = partition (\<lambda>c. Some (cp_generation c) \<noteq> newest \<and> cp_generation c \<in> set generations) (commits s)
      in bnd (drop_points E doomed) (\<lambda>_. forget_dead) (s\<lparr>commits := kept\<rparr>))"

definition commit_generations :: "('d, 'p) index_file_deleter \<Rightarrow> i64 list" where
  "commit_generations s = map cp_generation (commits s)"

definition commit_count :: "('d, 'p) index_file_deleter \<Rightarrow> nat" where
  "commit_count s = length (commits s)"

definition ifd_commit_file_names :: "('d, 'p) index_file_deleter \<Rightarrow> name list" where
  "ifd_commit_file_names s = map cp_segments_file_name (commits s)"

section \<open>Deleting, holding and syncing files\<close>

definition refresh :: "('d, 'o, 'p, 'h) deleter_env \<Rightarrow> ('d, 'p, unit) deleter" where
  "refresh E =
     bnd (in_dir (map_err IfdStore (dir_list_all (env_dir E)))) (\<lambda>files s.
       delete_files E (filter (\<lambda>n. is_index_file_name n \<and> \<not> exists_ref s n) files) s)"

definition delete_new_files :: "('d, 'o, 'p, 'h) deleter_env \<Rightarrow> name list \<Rightarrow> ('d, 'p, unit) deleter" where
  "delete_new_files E files s =
     bnd (delete_files E (filter (\<lambda>n. \<not> exists_ref s n) files)) (\<lambda>_. forget_dead) s"

definition sync_commit_files :: "('d, 'o, 'p, 'h) deleter_env \<Rightarrow> segment_infos \<Rightarrow> ('d, 'p, unit) deleter" where
  "sync_commit_files E infos =
     bnd (commit_files E infos False) (\<lambda>files s.
       let to_sync = sort (filter (\<lambda>n. n \<notin> synced s) files) in
       if to_sync = [] then (Inr (), s)
       else bnd (in_dir (map_err IfdStore (sync (env_dir E) to_sync))) (\<lambda>_ s.
         (Inr (), s\<lparr>synced := synced s \<union> set to_sync\<rparr>)) s)"

definition is_synced :: "('d, 'p) index_file_deleter \<Rightarrow> name \<Rightarrow> bool" where
  "is_synced s n = (n \<in> synced s)"

definition record_segment_files :: "segment_commit_info \<Rightarrow> name list \<Rightarrow> ('d, 'p) index_file_deleter \<Rightarrow> ('d, 'p) index_file_deleter" where
  "record_segment_files sci files s =
     s\<lparr>si_files := AList.update (segment_name sci) (segment_id sci, with_self_listing (segment_name sci) files) (si_files s)\<rparr>"

definition forget_segment_files :: "('d, 'p) index_file_deleter \<Rightarrow> ('d, 'p) index_file_deleter" where
  "forget_segment_files s = s\<lparr>si_files := []\<rparr>"

fun hold_loop ::
    "('d, 'o, 'p, 'h) deleter_env \<Rightarrow> name list \<Rightarrow> segment_commit_info list \<Rightarrow> ('d, 'p, name list) deleter" where
  "hold_loop E held [] = ret held"
| "hold_loop E held (sci # rest) =
     bnd (ensure_si_files E sci) (\<lambda>_ s. hold_loop E (held @ recorded_files s sci) rest s)"

definition hold_segment_files :: "('d, 'o, 'p, 'h) deleter_env \<Rightarrow> segment_commit_info list \<Rightarrow> ('d, 'p, name list) deleter" where
  "hold_segment_files E segs = bnd (hold_loop E [] segs) (\<lambda>held s. (Inr held, inc_ref_all held s))"

definition hold_files :: "name list \<Rightarrow> ('d, 'p) index_file_deleter \<Rightarrow> ('d, 'p) index_file_deleter" where
  "hold_files files s = inc_ref_all files s"

definition release_files :: "('d, 'o, 'p, 'h) deleter_env \<Rightarrow> name list \<Rightarrow> ('d, 'p, unit) deleter" where
  "release_files E files = bnd (dec_ref_all E files) (\<lambda>_. forget_dead)"

section \<open>Opening\<close>

definition load_commit :: "('d, 'o, 'p, 'h) deleter_env \<Rightarrow> name \<Rightarrow> ('d, 'p, unit) deleter" where
  "load_commit E file_name =
     bnd (map_err IfdStore (lift_res (generation_from_segments_file_name file_name))) (\<lambda>g.
     bnd (in_dir (map_err IfdStore (dir_open (env_dir E) file_name))) (\<lambda>bytes.
     bnd (map_err IfdSegmentInfos (lift_res (parse (env_crc E) (env_threads E) bytes g))) (\<lambda>sis.
     bnd (commit_files E sis True) (\<lambda>files s.
       let s = inc_ref_all files s;
           point = \<lparr>cp_generation = g, cp_segments_file_name = file_name, cp_files = files,
             cp_segment_count = length (segments sis), cp_user_data = user_data sis\<rparr>
       in (Inr (), s\<lparr>synced := synced s \<union> set files, commits := commits s @ [point]\<rparr>)))))"

definition scan_file :: "('d, 'o, 'p, 'h) deleter_env \<Rightarrow> name \<Rightarrow> ('d, 'p, unit) deleter" where
  "scan_file E file_name s =
     (if \<not> is_index_file_name file_name then (Inr (), s)
      else
        let s = s\<lparr>ref_counts :=
              (case map_of (ref_counts s) file_name of None \<Rightarrow> AList.update file_name 0 (ref_counts s) | Some _ \<Rightarrow> ref_counts s)\<rparr>
        in if \<not> is_segments_file_name file_name then (Inr (), s) else load_commit E file_name s)"

definition open_inner ::
    "('d, 'o, 'p, 'h) deleter_env \<Rightarrow> 'd \<Rightarrow> segment_infos \<Rightarrow> stock_policy \<Rightarrow> 'p option \<Rightarrow>
     (deleter_error + unit) \<times> ('d, 'p) index_file_deleter" where
  "open_inner E d current policy cust =
     bnd (in_dir (map_err IfdStore (dir_list_all (env_dir E)))) (\<lambda>files.
     bnd (for_each (scan_file E) files) (\<lambda>_ s.
       let s = s\<lparr>commits := sort_commits (commits s)\<rparr>;
           unrefed = unrefed_files s
       in case find is_segments_file_name unrefed of
            Some n \<Rightarrow> (Inl (UnreferencedCommitFile n), s)
          | None \<Rightarrow>
              bnd (delete_files E unrefed) (\<lambda>_.
              bnd (checkpoint E current False) (\<lambda>_.
                apply_policy E True)) s))
     \<lparr>ifd_dir = d, ifd_policy = policy, custom = cust, ref_counts = [], commits = [], last_files = [], si_files = [], synced = {}\<rparr>"

definition ifd_open where
  "ifd_open E d current policy = open_inner E d current policy None"

definition open_with_policy where
  "open_with_policy E d current policy = open_inner E d current KeepOnlyLastCommit (Some policy)"

section \<open>Listing commits\<close>

definition commit_file_names ::
    "('d, 'o, 'p, 'h) deleter_env \<Rightarrow> segment_infos \<Rightarrow> ('d, deleter_error, name list) fallible" where
  "commit_file_names E infos = collect_segment_files E (own_segments_file infos) (segments infos)"

fun older_commits ::
    "('d, 'o, 'p, 'h) deleter_env \<Rightarrow> i64 \<Rightarrow> name list \<Rightarrow> ('d, deleter_error, segment_infos list) fallible" where
  "older_commits E current [] = ret []"
| "older_commits E current (n # names) =
     (if \<not> starts_with n (ascii ''segments'') then older_commits E current names
      else
        bnd (map_err IfdStore (lift_res (generation_from_segments_file_name n))) (\<lambda>g.
          if sint current \<le> sint g then older_commits E current names
          else (\<lambda>d.
            case dir_open (env_dir E) n d of
              (Inl e, d) \<Rightarrow> if is_no_such_file e then older_commits E current names d else (Inl (IfdStore e), d)
            | (Inr bytes, d) \<Rightarrow>
                bnd (map_err IfdSegmentInfos (lift_res (parse (env_crc E) (env_threads E) bytes g))) (\<lambda>infos.
                bnd (older_commits E current names) (\<lambda>rest. ret (infos # rest))) d)))"

fun to_index_commits ::
    "('d, 'o, 'p, 'h) deleter_env \<Rightarrow> segment_infos list \<Rightarrow> ('d, deleter_error, index_commit list) fallible" where
  "to_index_commits E [] = ret []"
| "to_index_commits E (infos # rest) =
     bnd (commit_file_names E infos) (\<lambda>files.
     bnd (to_index_commits E rest) (\<lambda>cs.
       ret (ic_new (generation infos) (unwrap_or [] (segments_file_name (generation infos))) files
              (length (segments infos)) (user_data infos) # cs)))"

definition list_commits :: "('d, 'o, 'p, 'h) deleter_env \<Rightarrow> ('d, deleter_error, index_commit list) fallible" where
  "list_commits E =
     bnd (map_err IfdStore (dir_list_all (env_dir E))) (\<lambda>files.
     bnd (map_err IfdSegmentInfos (read_latest (env_crc E) (env_threads E) (env_dir E))) (\<lambda>latest.
     bnd (older_commits E (generation latest) files) (\<lambda>older.
       to_index_commits E (sort_key (\<lambda>infos. sint (generation infos)) (latest # older)))))"

section \<open>What references a file\<close>

text \<open>
  \<open>refs s\<close> is the multiset of the references the deleter itself keeps; \<open>H\<close> is what the callers hold.
  \<open>covered H s\<close>: every reference is counted. (A failed operation may leave a count too high, never too low.)
\<close>

definition points_refs :: "commit_point list \<Rightarrow> name multiset" where
  "points_refs cs = mset (concat (map cp_files cs))"

definition refs :: "('d, 'p) index_file_deleter \<Rightarrow> name multiset" where
  "refs s = points_refs (commits s) + mset (last_files s)"

definition covered :: "name multiset \<Rightarrow> ('d, 'p) index_file_deleter \<Rightarrow> bool" where
  "covered H s \<longleftrightarrow> (\<forall>f. count (refs s + H) f \<le> ref_count s f)"

definition exact :: "name multiset \<Rightarrow> ('d, 'p) index_file_deleter \<Rightarrow> bool" where
  "exact H s \<longleftrightarrow> (\<forall>f. ref_count s f = count (refs s + H) f)"

definition sorted_points :: "commit_point list \<Rightarrow> bool" where
  "sorted_points cs = sorted (map (\<lambda>c. sint (cp_generation c)) cs)"

lemma points_refs_simps [simp]:
  "points_refs [] = {#}" "points_refs (c # cs) = mset (cp_files c) + points_refs cs"
  "points_refs (cs @ ds) = points_refs cs + points_refs ds"
  by (simp_all add: points_refs_def)

lemma points_refs_mset: "mset cs = mset ds \<Longrightarrow> points_refs cs = points_refs ds"
proof -
  have "points_refs cs = \<Sum>\<^sub># (image_mset (\<lambda>c. mset (cp_files c)) (mset cs))" for cs by (induction cs) simp_all
  then show "mset cs = mset ds \<Longrightarrow> points_refs cs = points_refs ds" by simp
qed

lemma points_refs_split:
  "points_refs (map fst (filter P zs)) + points_refs (map fst (filter (\<lambda>z. \<not> P z) zs)) = points_refs (map fst zs)"
  by (induction zs) (auto simp: ac_simps)

lemma points_refs_partition: "points_refs (filter (\<lambda>c. \<not> P c) cs) + points_refs (filter P cs) = points_refs cs"
  by (induction cs) (auto simp: ac_simps)

lemma sort_commits [simp]:
  "mset (sort_commits cs) = mset cs" "length (sort_commits cs) = length cs" "sorted_points (sort_commits cs)"
  "points_refs (sort_commits cs) = points_refs cs"
proof -
  show m: "mset (sort_commits cs) = mset cs" by (simp add: sort_commits_def)
  then show "points_refs (sort_commits cs) = points_refs cs" by (rule points_refs_mset)
qed (simp_all add: sort_commits_def sorted_points_def)

text \<open>A counter as a total function.\<close>

definition counter_of :: "(name \<times> nat) list \<Rightarrow> name \<Rightarrow> nat" where
  "counter_of counts n = (case map_of counts n of Some c \<Rightarrow> c | None \<Rightarrow> 0)"

lemma ref_count_counter: "ref_count s = counter_of (ref_counts s)"
  by (simp add: ref_count_def counter_of_def fun_eq_iff)

lemma counter_update [simp]: "counter_of (AList.update n c counts) f = (if f = n then c else counter_of counts f)"
  by (simp add: counter_of_def update_conv')

lemma counter_delete [simp]: "counter_of (AList.delete n counts) f = (if f = n then 0 else counter_of counts f)"
  by (simp add: counter_of_def delete_conv')

lemma inc_refs_bounds:
  "min (counter_of counts f + count (mset fs) f) u32_max \<le> counter_of (foldl inc_ref counts fs) f"
  "counter_of (foldl inc_ref counts fs) f \<le> counter_of counts f + count (mset fs) f"
proof -
  have step: "counter_of (inc_ref counts n) g = (if g = n then min (counter_of counts g + 1) u32_max else counter_of counts g)" for counts n g
    by (simp add: inc_ref_def flip: counter_of_def)
  show "min (counter_of counts f + count (mset fs) f) u32_max \<le> counter_of (foldl inc_ref counts fs) f"
    "counter_of (foldl inc_ref counts fs) f \<le> counter_of counts f + count (mset fs) f"
  proof (induction fs arbitrary: counts)
    case (Cons n fs)
    { case 1 then show ?case using Cons(1) [of "inc_ref counts n"] by (auto simp: step min_def split: if_splits) }
    { case 2 then show ?case using Cons(2) [of "inc_ref counts n"] by (auto simp: step min_def split: if_splits) }
  qed simp_all
qed

lemma dec_refs_effect:
  assumes "foldl dec_ref (counts, del0) fs = (counts', del)"
  shows "(\<forall>f. counter_of counts' f = counter_of counts f - count (mset fs) f) \<and> set del0 \<subseteq> set del \<and>
    (\<forall>f. f \<in> set del \<longrightarrow> f \<in> set del0 \<or> f \<in> set fs \<and> counter_of counts' f = 0) \<and>
    (\<forall>f. 0 < counter_of counts f \<and> counter_of counts' f = 0 \<longrightarrow> f \<in> set del)"
  using assms
proof (induction fs arbitrary: counts del0)
  case (Cons n fs)
  obtain counts1 del1 where d: "dec_ref (counts, del0) n = (counts1, del1)" by (metis surj_pair)
  have cn: "map_of counts n = None \<Longrightarrow> counter_of counts n = 0" "map_of counts n = Some c \<Longrightarrow> counter_of counts n = c" for c
    by (simp_all add: counter_of_def)
  have c1: "counter_of counts1 g = (if g = n then counter_of counts g - 1 else counter_of counts g)" for g
    using d cn by (cases "map_of counts n") (auto simp: dec_ref_def Let_def split: if_splits)
  have d1: "del1 = del0 \<or> del1 = del0 @ [n] \<and> counter_of counts1 n = 0"
    "0 < counter_of counts n \<Longrightarrow> counter_of counts1 n = 0 \<Longrightarrow> n \<in> set del1"
    using d cn by (auto simp: dec_ref_def Let_def split: option.splits if_splits)
  have "foldl dec_ref (counts1, del1) fs = (counts', del)" using Cons.prems d by simp
  note IH = Cons.IH [OF this]
  have "counter_of counts' f = counter_of counts f - count (mset (n # fs)) f" for f
    using IH c1 [of f] by auto
  moreover have "f \<in> set del0 \<or> f \<in> set (n # fs) \<and> counter_of counts' f = 0" if "f \<in> set del" for f
    using IH d1(1) that by auto
  moreover have "f \<in> set del" if "0 < counter_of counts f" "counter_of counts' f = 0" for f
    using IH c1 [of f] d1(2) that by (cases "counter_of counts1 f = 0"; cases "f = n") auto
  ultimately show ?case using IH d1(1) by auto
qed auto

section \<open>Effects of the building blocks\<close>

text \<open>\<open>quiet\<close>: no reference changes and no file does. \<open>lowers M r\<close>: the references \<open>M\<close> are given up; a file
  still counted afterwards is untouched; on success the counts drop by exactly \<open>M\<close> and what reaches zero is gone.\<close>

definition same_points :: "('d, 'p) index_file_deleter \<Rightarrow> ('d, 'p) index_file_deleter \<Rightarrow> bool" where
  "same_points s s' \<longleftrightarrow> commits s' = commits s \<and> last_files s' = last_files s \<and> custom s' = custom s \<and> ifd_policy s' = ifd_policy s"

definition quiet ::
    "('d \<Rightarrow> name \<Rightarrow> 'f option) \<Rightarrow> ('d \<Rightarrow> bool) \<Rightarrow> ('d, 'p) index_file_deleter \<Rightarrow> ('d, 'p) index_file_deleter \<Rightarrow> bool" where
  "quiet view good s s' \<longleftrightarrow>
     same_points s s' \<and> good (ifd_dir s') \<and> view (ifd_dir s') = view (ifd_dir s) \<and> ref_counts s' = ref_counts s"

definition lowers ::
    "('d \<Rightarrow> name \<Rightarrow> 'f option) \<Rightarrow> ('d \<Rightarrow> bool) \<Rightarrow> name multiset \<Rightarrow> 'e + unit \<Rightarrow>
     ('d, 'p) index_file_deleter \<Rightarrow> ('d, 'p) index_file_deleter \<Rightarrow> bool" where
  "lowers view good M r s s' \<longleftrightarrow>
     same_points s s' \<and> good (ifd_dir s') \<and>
     (\<forall>f. ref_count s f - count M f \<le> ref_count s' f \<and> ref_count s' f \<le> ref_count s f) \<and>
     (\<forall>f. 0 < ref_count s' f \<longrightarrow> view (ifd_dir s') f = view (ifd_dir s) f) \<and>
     (r = Inr () \<longrightarrow> (\<forall>f. ref_count s' f = ref_count s f - count M f) \<and>
       (\<forall>f. view (ifd_dir s') f = view (ifd_dir s) f \<or> view (ifd_dir s') f = None) \<and>
       (\<forall>f. 0 < ref_count s f \<and> ref_count s' f = 0 \<longrightarrow> view (ifd_dir s') f = None))"

lemma lowersI:
  assumes "same_points s s'" and "good (ifd_dir s')"
    and "\<And>f. ref_count s f - count M f \<le> ref_count s' f \<and> ref_count s' f \<le> ref_count s f"
    and "\<And>f. 0 < ref_count s' f \<Longrightarrow> view (ifd_dir s') f = view (ifd_dir s) f"
    and "\<And>f. r = Inr () \<Longrightarrow> ref_count s' f = ref_count s f - count M f"
    and "\<And>f. r = Inr () \<Longrightarrow> view (ifd_dir s') f = view (ifd_dir s) f \<or> view (ifd_dir s') f = None"
    and "\<And>f. r = Inr () \<Longrightarrow> 0 < ref_count s f \<Longrightarrow> ref_count s' f = 0 \<Longrightarrow> view (ifd_dir s') f = None"
  shows "lowers view good M r s s'"
  using assms by (simp add: lowers_def)

lemma lowersD:
  assumes "lowers view good M r s s'"
  shows "same_points s s'" "good (ifd_dir s')"
    "\<And>f. ref_count s f - count M f \<le> ref_count s' f" "\<And>f. ref_count s' f \<le> ref_count s f"
    "\<And>f. 0 < ref_count s' f \<Longrightarrow> view (ifd_dir s') f = view (ifd_dir s) f"
    "\<And>f. r = Inr () \<Longrightarrow> ref_count s' f = ref_count s f - count M f"
    "\<And>f. r = Inr () \<Longrightarrow> view (ifd_dir s') f = view (ifd_dir s) f \<or> view (ifd_dir s') f = None"
    "\<And>f. r = Inr () \<Longrightarrow> 0 < ref_count s f \<Longrightarrow> ref_count s' f = 0 \<Longrightarrow> view (ifd_dir s') f = None"
  using assms by (simp_all add: lowers_def)

lemma same_points_trans: "same_points s s1 \<Longrightarrow> same_points s1 s2 \<Longrightarrow> same_points s s2"
  by (simp add: same_points_def)

lemma lowers_refl: "good (ifd_dir s) \<Longrightarrow> lowers view good {#} r s s"
  by (rule lowersI) (simp_all add: same_points_def)

lemma lowers_more: "lowers view good M (Inl e) s s' \<Longrightarrow> lowers view good (M + N) (Inl e) s s'"
proof (rule lowersI)
  assume a: "lowers view good M (Inl e) s s'"
  note A = lowersD [OF a]
  show "same_points s s'" "good (ifd_dir s')" by (rule A)+
  fix f
  show "ref_count s f - count (M + N) f \<le> ref_count s' f \<and> ref_count s' f \<le> ref_count s f"
    using A(3,4) [of f] by simp
  show "view (ifd_dir s') f = view (ifd_dir s) f" if "0 < ref_count s' f" using that by (rule A(5))
qed simp_all

lemma lowers_trans:
  assumes a: "lowers view good M (Inr ()) s s1" and b: "lowers view good N r s1 s2"
  shows "lowers view good (M + N) r s s2"
proof (rule lowersI)
  note A = lowersD [OF a] and B = lowersD [OF b]
  show "same_points s s2" using A(1) B(1) by (rule same_points_trans)
  show "good (ifd_dir s2)" by (rule B(2))
  fix f
  have le: "ref_count s2 f \<le> ref_count s1 f" "ref_count s1 f \<le> ref_count s f" by (rule B(4), rule A(4))
  show "ref_count s f - count (M + N) f \<le> ref_count s2 f \<and> ref_count s2 f \<le> ref_count s f"
    using le A(6) [of f] B(3) [of f] by simp
  show "view (ifd_dir s2) f = view (ifd_dir s) f" if "0 < ref_count s2 f"
    using that le A(5) [of f] B(5) [of f] by simp
  show "ref_count s2 f = ref_count s f - count (M + N) f" if "r = Inr ()"
    using that A(6) [of f] B(6) [of f] by simp
  show "view (ifd_dir s2) f = view (ifd_dir s) f \<or> view (ifd_dir s2) f = None" if "r = Inr ()"
    using that A(7) [of f] B(7) [of f] by auto
  show "view (ifd_dir s2) f = None" if "r = Inr ()" "0 < ref_count s f" "ref_count s2 f = 0"
    using that A(8) [of f] B(7,8) [of f] by (cases "ref_count s1 f = 0") auto
qed

locale deleter_over = directory_laws "env_dir E" view good
  for E :: "('d, 'o, 'p, 'h) deleter_env" and view :: "'d \<Rightarrow> name \<Rightarrow> 'f option" and good :: "'d \<Rightarrow> bool"
begin

lemma delete_pass_effect:
  assumes "delete_pass E b first ns s = (e, s')" and "good (ifd_dir s)"
  shows "good (ifd_dir s') \<and> same_points s s' \<and>
    (\<forall>f. f \<notin> set ns \<or> is_segments_file_name f \<noteq> b \<longrightarrow>
       view (ifd_dir s') f = view (ifd_dir s) f \<and> ref_count s' f = ref_count s f) \<and>
    (\<forall>f. ref_count s' f = ref_count s f \<or> ref_count s' f = 0) \<and>
    (e = None \<longrightarrow> first = None \<and> (\<forall>f. view (ifd_dir s') f = view (ifd_dir s) f \<or> view (ifd_dir s') f = None) \<and>
       (\<forall>f. f \<in> set ns \<and> is_segments_file_name f = b \<longrightarrow> view (ifd_dir s') f = None))"
  using assms
proof (induction ns arbitrary: first s)
  case (Cons n ns)
  obtain r d where del: "delete_file (env_dir E) n (ifd_dir s) = (r, d)" by (metis surj_pair)
  let ?s = "s\<lparr>ref_counts := AList.delete n (ref_counts s), synced := synced s - {n}, ifd_dir := d\<rparr>"
  let ?first = "case (first, r) of (None, Inl e) \<Rightarrow> Some e | _ \<Rightarrow> first"
  have dl: "good d" "\<And>k. k \<noteq> n \<Longrightarrow> view d k = view (ifd_dir s) k" "r = Inr () \<Longrightarrow> view d n = None"
    using delete_law [OF Cons.prems(2) del] by blast+
  have step: "delete_pass E b first (n # ns) s =
      (if is_segments_file_name n = b then delete_pass E b ?first ns ?s else delete_pass E b first ns s)"
    by (simp add: del Let_def)
  have rc: "ref_count ?s f = (if f = n then 0 else ref_count s f)" for f by (simp add: ref_count_counter)
  have sp: "same_points ?s t \<longleftrightarrow> same_points s t" for t by (simp add: same_points_def)
  show ?case
  proof (cases "is_segments_file_name n = b")
    case True
    then have "delete_pass E b ?first ns ?s = (e, s')" using Cons.prems(1) step by simp
    note IH = Cons.IH [OF this, unfolded sp rc]
    have ok: "first = None \<and> r = Inr ()" if "e = None"
      using IH that dl(1) by (auto split: option.splits sum.splits)
    show ?thesis
    proof (intro conjI allI impI)
      show "good (ifd_dir s')" "same_points s s'" using IH dl(1) by simp_all
      fix f
      have out: "f \<notin> set ns \<or> is_segments_file_name f \<noteq> b \<Longrightarrow> view (ifd_dir s') f = view d f \<and> ref_count s' f = (if f = n then 0 else ref_count s f)"
        using IH dl(1) by simp
      show "view (ifd_dir s') f = view (ifd_dir s) f" "ref_count s' f = ref_count s f"
        if "f \<notin> set (n # ns) \<or> is_segments_file_name f \<noteq> b"
        using that out dl(2) [of f] True by (cases "f = n"; auto)+
      have "ref_count s' f = (if f = n then 0 else ref_count s f) \<or> ref_count s' f = 0" using IH dl(1) by simp
      then show "ref_count s' f = ref_count s f \<or> ref_count s' f = 0" by (simp split: if_splits)
      assume e: "e = None"
      then have v: "view (ifd_dir s') f = view d f \<or> view (ifd_dir s') f = None" using IH dl(1) by simp
      have n: "view d n = None" using ok [OF e] dl(3) by simp
      show "first = None" using ok [OF e] by simp
      show "view (ifd_dir s') f = view (ifd_dir s) f \<or> view (ifd_dir s') f = None"
        using v n dl(2) [of f] by (cases "f = n") auto
      show "view (ifd_dir s') f = None" if "f \<in> set (n # ns) \<and> is_segments_file_name f = b"
      proof (cases "f = n")
        case True
        then show ?thesis using v n by auto
      next
        case False
        then show ?thesis using that IH dl(1) e by simp
      qed
    qed
  next
    case False
    then show ?thesis using Cons.IH [of first s] Cons.prems step by auto
  qed
qed (simp_all add: same_points_def)

lemma delete_files_effect:
  assumes "delete_files E ns s = (r, s')" and "good (ifd_dir s)"
  shows "good (ifd_dir s') \<and> same_points s s' \<and>
    (\<forall>f. f \<notin> set ns \<longrightarrow> view (ifd_dir s') f = view (ifd_dir s) f \<and> ref_count s' f = ref_count s f) \<and>
    (\<forall>f. ref_count s' f = ref_count s f \<or> ref_count s' f = 0) \<and>
    (r = Inr () \<longrightarrow> (\<forall>f. view (ifd_dir s') f = view (ifd_dir s) f \<or> view (ifd_dir s') f = None) \<and>
       (\<forall>f. f \<in> set ns \<longrightarrow> view (ifd_dir s') f = None))"
    and "n \<in> set ns \<Longrightarrow> is_segments_file_name n \<Longrightarrow> view (ifd_dir s') n \<noteq> None \<Longrightarrow> \<not> is_segments_file_name f \<Longrightarrow>
      view (ifd_dir s') f = view (ifd_dir s) f"
proof -
  obtain e1 s1 where p1: "delete_pass E True None ns s = (e1, s1)" by (metis surj_pair)
  note P1 = delete_pass_effect [OF p1 assms(2)]
  obtain e2 s2 where p2: "delete_pass E False None ns s1 = (e2, s2)" by (metis surj_pair)
  have g1: "good (ifd_dir s1)" using P1 by blast
  note P2 = delete_pass_effect [OF p2 g1]
  consider e where "e1 = Some e" "r = Inl (IfdStore e)" "s' = s1" | "e1 = None" "s' = s2" "r = Inr () \<longrightarrow> e2 = None"
    using assms(1) p1 p2 by (cases e1; cases e2) (auto simp: delete_files_def)
  note cases = this
  show "good (ifd_dir s') \<and> same_points s s' \<and>
    (\<forall>f. f \<notin> set ns \<longrightarrow> view (ifd_dir s') f = view (ifd_dir s) f \<and> ref_count s' f = ref_count s f) \<and>
    (\<forall>f. ref_count s' f = ref_count s f \<or> ref_count s' f = 0) \<and>
    (r = Inr () \<longrightarrow> (\<forall>f. view (ifd_dir s') f = view (ifd_dir s) f \<or> view (ifd_dir s') f = None) \<and>
       (\<forall>f. f \<in> set ns \<longrightarrow> view (ifd_dir s') f = None))"
  proof (rule cases)
    fix e assume "e1 = Some e" "r = Inl (IfdStore e)" "s' = s1"
    then show ?thesis using P1 by simp
  next
    assume c: "e1 = None" "s' = s2" "r = Inr () \<longrightarrow> e2 = None"
    have "same_points s s2" using P1 P2 same_points_trans by blast
    moreover have "view (ifd_dir s2) f = None" if "f \<in> set ns" "r = Inr ()" for f
      using that P1 P2 c by (cases "is_segments_file_name f") metis+
    moreover have "view (ifd_dir s2) f = view (ifd_dir s) f \<or> view (ifd_dir s2) f = None" if "r = Inr ()" for f
      using that P1 P2 c by metis
    moreover have "ref_count s2 f = ref_count s f \<or> ref_count s2 f = 0" for f using P1 P2 by metis
    ultimately show ?thesis using P1 P2 c(2) by simp
  qed
  show "view (ifd_dir s') f = view (ifd_dir s) f"
    if "n \<in> set ns" "is_segments_file_name n" "view (ifd_dir s') n \<noteq> None" "\<not> is_segments_file_name f"
  proof (rule cases)
    fix e assume "e1 = Some e" "r = Inl (IfdStore e)" "s' = s1"
    then show ?thesis using P1 that(4) by simp
  next
    assume c: "e1 = None" "s' = s2" "r = Inr () \<longrightarrow> e2 = None"
    then have "view (ifd_dir s1) n = None" using P1 that by simp
    moreover have "view (ifd_dir s2) n = view (ifd_dir s1) n" using P2 that(2) by simp
    ultimately show ?thesis using that(3) c(2) by simp
  qed
qed

lemma dec_ref_all_lowers:
  assumes "dec_ref_all E fs s = (r, s')" and "good (ifd_dir s)"
  shows "lowers view good (mset fs) r s s'"
proof -
  obtain counts del where d: "foldl dec_ref (ref_counts s, []) fs = (counts, del)" by (metis surj_pair)
  note D = dec_refs_effect [OF d]
  let ?s = "s\<lparr>ref_counts := counts\<rparr>"
  have del: "delete_files E del ?s = (r, s')" using assms(1) d by (simp add: dec_ref_all_def)
  have "good (ifd_dir ?s)" using assms(2) by simp
  note F = delete_files_effect(1) [OF del this]
  have rc: "ref_count ?s f = ref_count s f - count (mset fs) f" for f using D by (simp add: ref_count_counter)
  have zero: "f \<in> set del \<Longrightarrow> ref_count ?s f = 0" for f using D unfolding ref_count_counter by auto
  have rc': "ref_count s' f = ref_count s f - count (mset fs) f" for f
  proof (cases "f \<in> set del")
    case True
    moreover have "ref_count s' f = ref_count ?s f \<or> ref_count s' f = 0"
      using F [THEN conjunct2, THEN conjunct2, THEN conjunct2, THEN conjunct1] by (rule spec)
    ultimately show ?thesis using zero [of f] rc [of f] by auto
  next
    case False
    then show ?thesis using F rc [of f] by simp
  qed
  show ?thesis
  proof (rule lowersI)
    show "same_points s s'" using F by (simp add: same_points_def)
    show "good (ifd_dir s')" using F by simp
    fix f
    show "ref_count s f - count (mset fs) f \<le> ref_count s' f \<and> ref_count s' f \<le> ref_count s f" using rc' [of f] by simp
    show "ref_count s' f = ref_count s f - count (mset fs) f" by (rule rc')
    have "0 < ref_count s' f \<Longrightarrow> f \<notin> set del" using zero [of f] rc [of f] rc' [of f] by auto
    then show "0 < ref_count s' f \<Longrightarrow> view (ifd_dir s') f = view (ifd_dir s) f" using F by simp
    show "view (ifd_dir s') f = view (ifd_dir s) f \<or> view (ifd_dir s') f = None" if "r = Inr ()" using F that by simp
    have "0 < ref_count s f \<Longrightarrow> ref_count s' f = 0 \<Longrightarrow> f \<in> set del" using D rc [of f] rc' [of f] by (simp add: ref_count_counter)
    then show "view (ifd_dir s') f = None" if "r = Inr ()" "0 < ref_count s f" "ref_count s' f = 0" using F that by simp
  qed
qed

lemma drop_points_lowers:
  assumes "drop_points E doomed s = (r, s')" and "good (ifd_dir s)"
  shows "lowers view good (points_refs doomed) r s s'"
  using assms
proof (induction doomed arbitrary: s)
  case (Cons c cs)
  obtain r1 s1 where d: "dec_ref_all E (cp_files c) s = (r1, s1)" by (metis surj_pair)
  note L = dec_ref_all_lowers [OF d Cons.prems(2)]
  show ?case
  proof (cases r1)
    case (Inl e)
    then have "r = Inl e" "s' = s1" using Cons.prems(1) d by (simp_all add: drop_points_def)
    then show ?thesis using lowers_more L Inl by auto
  next
    case (Inr u)
    then have "drop_points E cs s1 = (r, s')" using Cons.prems(1) d by (simp add: drop_points_def)
    from lowers_trans [OF _ Cons.IH [OF this lowersD(2) [OF L]]] show ?thesis using L Inr by simp
  qed
qed (simp add: drop_points_def lowers_refl)

text \<open>The operations that only read.\<close>

lemma in_dir_quiet:
  assumes "\<And>v. keeps (\<lambda>d. good d \<and> view d = v) m"
  shows "keeps (quiet view good s0) (in_dir m)"
  unfolding keeps_def
proof (intro allI impI)
  fix s r s' assume q: "quiet view good s0 s" and m: "in_dir m s = (r, s')"
  obtain r' d where d: "m (ifd_dir s) = (r', d)" by (metis surj_pair)
  have "good d \<and> view d = view (ifd_dir s)" using keepsD [OF assms _ d] q by (simp add: quiet_def)
  moreover have "s' = s\<lparr>ifd_dir := d\<rparr>" using m d by (simp add: in_dir_def)
  ultimately show "quiet view good s0 s'" using q by (simp add: quiet_def same_points_def)
qed

lemma dir_open_quiet: "keeps (\<lambda>d. good d \<and> view d = v) (dir_open (env_dir E) n)"
  unfolding keeps_def using open_law by metis

lemma dir_list_quiet: "keeps (\<lambda>d. good d \<and> view d = v) (dir_list_all (env_dir E))"
  unfolding keeps_def using list_law by metis

lemma dir_sync_quiet: "keeps (\<lambda>d. good d \<and> view d = v) (sync (env_dir E) ns)"
  unfolding keeps_def using sync_law by metis

lemma segment_info_files_quiet: "keeps (\<lambda>d. good d \<and> view d = v) (segment_info_files E sci)"
  unfolding segment_info_files_def by (intro keeps_bnd keeps_map_err keeps_lift_res keeps_ret dir_open_quiet)

lemma ensure_si_files_quiet: "keeps (quiet view good s0) (ensure_si_files E sci)"
proof -
  have upd: "keeps (quiet view good s0) (\<lambda>s. (Inr (), s\<lparr>si_files := g s\<rparr>))" for g
    by (auto simp: keeps_def quiet_def same_points_def)
  have nop: "keeps (quiet view good s0) (\<lambda>s. (Inr (), s))" by (auto simp: keeps_def)
  show ?thesis
    unfolding ensure_si_files_def
    by (rule keeps_pointwise_if [OF nop keeps_bnd [OF in_dir_quiet [OF segment_info_files_quiet] upd]])
qed

lemma for_each_quiet: "(\<And>x. keeps ok (f x)) \<Longrightarrow> keeps ok (for_each f xs)"
  by (induction xs) auto

lemma commit_files_quiet: "keeps (quiet view good s0) (commit_files E infos b)"
  unfolding commit_files_def
  by (rule keeps_bnd [OF for_each_quiet [OF ensure_si_files_quiet]]) (auto simp: keeps_def)

lemma hold_loop_quiet: "keeps (quiet view good s0) (hold_loop E held segs)"
proof (induction segs arbitrary: held)
  case (Cons sci segs)
  have "keeps (quiet view good s0) (\<lambda>s. hold_loop E (held @ recorded_files s sci) segs s)"
    using Cons unfolding keeps_def by blast
  then show ?case by (auto intro!: keeps_bnd ensure_si_files_quiet)
qed simp

end

lemma quiet_refl: "good (ifd_dir s) \<Longrightarrow> quiet view good s s"
  by (simp add: quiet_def same_points_def)

lemma distinct_commit_files:
  assumes "commit_files E infos b s = (Inr files, s')"
  shows "distinct files"
proof -
  have "distinct (if b then own_segments_file infos else [])" by (simp add: own_segments_file_def split: option.split)
  then have "distinct (foldl (\<lambda>out sci. foldl push_new out (recorded_files t sci)) (if b then own_segments_file infos else []) xs)" for t xs
    by (induction xs arbitrary: infos rule: rev_induct) (simp_all add: distinct_foldl_push_new)
  then show ?thesis using assms by (auto simp: commit_files_def bnd_eq_Inr_iff)
qed

text \<open>The \<open>expect\<close> of \<open>commit_files\<close>: once ensured, every segment has an entry.\<close>

lemma ensured_si_files:
  assumes "for_each (ensure_si_files E) segs s = (Inr (), s')" and "sci \<in> set segs \<or> segment_name sci \<in> fst ` set (si_files s)"
  shows "map_of (si_files s') (segment_name sci) \<noteq> None"
  using assms
proof (induction segs arbitrary: s)
  case Nil
  then show ?case by (auto simp: map_of_eq_None_iff)
next
  case (Cons x segs)
  obtain s1 where s1: "ensure_si_files E x s = (Inr (), s1)" "for_each (ensure_si_files E) segs s1 = (Inr (), s')"
    using Cons.prems(1) by (auto simp: bnd_eq_Inr_iff)
  then have "segment_name x \<in> fst ` set (si_files s1)" "fst ` set (si_files s) \<subseteq> fst ` set (si_files s1)"
    by (auto simp: ensure_si_files_def bnd_eq_Inr_iff in_dir_def dom_map_of_conv_image_fst [symmetric] dom_def update_conv'
        split: if_splits prod.splits)
  then have "sci \<in> set segs \<or> segment_name sci \<in> fst ` set (si_files s1)"
  proof -
    from Cons.prems(2) consider "sci = x" | "sci \<in> set segs" | "segment_name sci \<in> fst ` set (si_files s)"
      unfolding list.set insert_iff by blast
    then show ?thesis using \<open>segment_name x \<in> _\<close> \<open>_ \<subseteq> fst ` set (si_files s1)\<close> by cases blast+
  qed
  then show ?case by (rule Cons.IH [OF s1(2)])
qed

section \<open>The invariant\<close>

definition deleter_inv :: "('d \<Rightarrow> bool) \<Rightarrow> name multiset \<Rightarrow> ('d, 'p) index_file_deleter \<Rightarrow> bool" where
  "deleter_inv good H s \<longleftrightarrow> good (ifd_dir s) \<and> covered H s \<and> sorted_points (commits s)"

definition safe_step ::
    "('d \<Rightarrow> name \<Rightarrow> 'f option) \<Rightarrow> ('d, 'p) index_file_deleter \<Rightarrow> ('d, 'p) index_file_deleter \<Rightarrow> bool" where
  "safe_step view s s' \<longleftrightarrow> (\<forall>f. 0 < ref_count s' f \<longrightarrow> view (ifd_dir s') f = view (ifd_dir s) f)"

lemma covered_mono: "covered (H + M) s \<Longrightarrow> covered H s"
  unfolding covered_def
proof
  fix f assume "\<forall>f. count (refs s + (H + M)) f \<le> ref_count s f"
  then have "count (refs s + (H + M)) f \<le> ref_count s f" by blast
  then show "count (refs s + H) f \<le> ref_count s f" by simp
qed

lemma covered_lowers:
  assumes "covered (M + H) s" and "lowers view good M r s s'"
  shows "covered H s'"
  unfolding covered_def
proof
  fix f
  have "refs s' = refs s" using lowersD(1) [OF assms(2)] by (simp add: refs_def same_points_def)
  moreover have "count (refs s + (M + H)) f \<le> ref_count s f" using assms(1) by (simp add: covered_def)
  ultimately show "count (refs s' + H) f \<le> ref_count s' f" using lowersD(3) [OF assms(2), of f] by simp
qed

lemma covered_inc:
  assumes "covered H s" and "\<And>f. count (refs s + H) f + count (mset fs) f \<le> u32_max"
  shows "covered (mset fs + H) (inc_ref_all fs s)"
  unfolding covered_def
proof
  fix f
  have "count (refs s + H) f \<le> ref_count s f" using assms(1) by (simp add: covered_def)
  then show "count (refs (inc_ref_all fs s) + (mset fs + H)) f \<le> ref_count (inc_ref_all fs s) f"
    using inc_refs_bounds(1) [of "ref_counts s" f fs] assms(2) [of f]
    by (simp add: inc_ref_all_def refs_def ref_count_counter min_def split: if_splits)
qed

lemma covered_cong: "refs s' + H' = refs s + H \<Longrightarrow> ref_counts s' = ref_counts s \<Longrightarrow> covered H s \<Longrightarrow> covered H' s'"
  by (simp add: covered_def ref_count_def)

lemma covered_subset:
  assumes "refs s' + H' \<subseteq># refs s + H" and "ref_counts s' = ref_counts s" and "covered H s"
  shows "covered H' s'"
  using assms by (auto simp: covered_def ref_count_def subseteq_mset_def intro: order_trans)

context deleter_over
begin

text \<open>A policy drops commit points and gives up their references.\<close>

lemma apply_policy_lowers:
  assumes "apply_policy E init s = (r, s')" and "good (ifd_dir s)"
  obtains doomed s0 where "lowers view good (points_refs doomed) r s0 s'" "ifd_dir s0 = ifd_dir s"
    "ref_counts s0 = ref_counts s" "last_files s0 = last_files s"
    "points_refs (commits s0) + points_refs doomed \<subseteq># points_refs (commits s)"
    "sorted_points (commits s) \<Longrightarrow> sorted_points (commits s0)" "length (commits s0) \<le> length (commits s)"
proof (cases "custom s")
  case None
  show ?thesis
  proof (cases "ifd_policy s = KeepAll \<or> length (commits s) < 2")
    case True
    then have "s' = s" using assms(1) None by (auto simp: apply_policy_def)
    then show ?thesis using that [of "[]" s] lowers_refl [of good s view r] assms(2) by simp
  next
    case False
    let ?k = "length (commits s) - 1"
    let ?s0 = "s\<lparr>commits := drop ?k (commits s)\<rparr>"
    have d: "drop_points E (take ?k (commits s)) ?s0 = (r, s')"
      using assms(1) None False by (simp add: apply_policy_def Let_def)
    have "lowers view good (points_refs (take ?k (commits s))) r ?s0 s'"
      by (rule drop_points_lowers [OF d]) (simp add: assms(2))
    moreover have "points_refs (drop ?k (commits s)) + points_refs (take ?k (commits s)) = points_refs (commits s)"
      by (metis append_take_drop_id points_refs_simps(3) union_commute)
    moreover have "sorted_points (commits s) \<Longrightarrow> sorted_points (drop ?k (commits s))"
      by (simp add: sorted_points_def flip: drop_map)
    ultimately show ?thesis using that [of "take ?k (commits s)" ?s0] by simp
  qed
next
  case (Some p)
  obtain res p' where run: "(if init then on_init (env_policy E) else on_commit (env_policy E)) (index_commits s) p = (res, p')"
    by (metis surj_pair)
  show ?thesis
  proof (cases res)
    case (Inl e)
    then have "s' = s\<lparr>custom := Some p'\<rparr>" using assms(1) Some run by (simp add: apply_policy_def)
    moreover have "good (ifd_dir (s\<lparr>custom := Some p'\<rparr>))" using assms(2) by simp
    ultimately show ?thesis using that [of "[]" s'] lowers_refl [of good s' view r] by simp
  next
    case (Inr decided)
    define pairs where "pairs = zip (commits s) decided"
    define doomed where "doomed = map fst (filter (\<lambda>(c, d). ic_deleted d) pairs)"
    define kept where "kept = map fst (filter (\<lambda>(c, d). \<not> ic_deleted d) pairs)"
    let ?s0 = "s\<lparr>custom := Some p', commits := kept\<rparr>"
    have d: "drop_points E doomed ?s0 = (r, s')"
      using assms(1) Some run Inr by (simp add: apply_policy_def Let_def doomed_def kept_def pairs_def)
    have "lowers view good (points_refs doomed) r ?s0 s'"
      by (rule drop_points_lowers [OF d]) (simp add: assms(2))
    moreover have "points_refs kept + points_refs doomed = points_refs (map fst pairs)"
      using points_refs_split [of "\<lambda>(c, d). ic_deleted d" pairs] by (simp add: doomed_def kept_def case_prod_unfold union_commute)
    moreover have "map fst pairs = take (length decided) (commits s)" by (simp add: pairs_def map_fst_zip_take min_def)
    moreover have "points_refs (take n (commits s)) \<subseteq># points_refs (commits s)" for n
      by (metis append_take_drop_id mset_subset_eq_add_left points_refs_simps(3))
    moreover have "sorted_points kept" if "sorted_points (commits s)"
    proof -
      have "sorted_points (map fst pairs)"
        using that \<open>map fst pairs = _\<close> by (simp add: sorted_points_def take_map [symmetric] sorted_wrt_take)
      then show ?thesis
        using sorted_filter [of "\<lambda>z. sint (cp_generation (fst z))" pairs]
        by (simp add: sorted_points_def kept_def comp_def case_prod_unfold)
    qed
    moreover have "length kept \<le> length (commits s)"
      using length_filter_le [of _ pairs] by (simp add: kept_def pairs_def le_trans [OF length_filter_le])
    ultimately show ?thesis using that [of doomed ?s0] by simp
  qed
qed

lemma apply_policy_inv:
  assumes "apply_policy E init s = (r, s')" and "deleter_inv good H s"
  shows "deleter_inv good H s' \<and> safe_step view s s'"
proof -
  have good: "good (ifd_dir s)" using assms(2) by (simp add: deleter_inv_def)
  obtain doomed s0 where L: "lowers view good (points_refs doomed) r s0 s'" and eqs: "ifd_dir s0 = ifd_dir s"
    "ref_counts s0 = ref_counts s" "last_files s0 = last_files s"
    and pts: "points_refs (commits s0) + points_refs doomed \<subseteq># points_refs (commits s)"
    and srt: "sorted_points (commits s) \<Longrightarrow> sorted_points (commits s0)"
    by (rule apply_policy_lowers [OF assms(1) good]) blast
  have "refs s0 + (points_refs doomed + H) \<subseteq># refs s + H"
    using pts by (simp add: refs_def eqs ac_simps subset_mset.add_left_mono)
  then have "covered (points_refs doomed + H) s0"
    by (rule covered_subset) (use assms(2) eqs in \<open>simp_all add: deleter_inv_def\<close>)
  from covered_lowers [OF this L] have "covered H s'" .
  moreover have "commits s' = commits s0" using lowersD(1) [OF L] by (simp add: same_points_def)
  moreover have "ref_count s0 f = ref_count s f" for f by (simp add: ref_count_def eqs)
  ultimately show ?thesis
    using lowersD(2,5) [OF L] srt assms(2) eqs by (simp add: deleter_inv_def safe_step_def)
qed

lemma drop_points_inv:
  assumes "drop_points E doomed (s\<lparr>commits := kept\<rparr>) = (r, s')" and "deleter_inv good H s"
    and "points_refs kept + points_refs doomed \<subseteq># points_refs (commits s)" and "sorted_points kept"
  shows "deleter_inv good H s' \<and> safe_step view s s'"
proof -
  let ?s0 = "s\<lparr>commits := kept\<rparr>"
  have L: "lowers view good (points_refs doomed) r ?s0 s'"
    using drop_points_lowers [OF assms(1)] assms(2) by (simp add: deleter_inv_def)
  have "refs ?s0 + (points_refs doomed + H) \<subseteq># refs s + H"
    using assms(3) by (simp add: refs_def ac_simps subset_mset.add_left_mono)
  then have "covered (points_refs doomed + H) ?s0"
    by (rule covered_subset) (use assms(2) in \<open>simp_all add: deleter_inv_def\<close>)
  from covered_lowers [OF this L] have "covered H s'" .
  moreover have "commits s' = kept" using lowersD(1) [OF L] by (simp add: same_points_def)
  moreover have "ref_count ?s0 f = ref_count s f" for f by (simp add: ref_count_def)
  ultimately show ?thesis
    using lowersD(2,5) [OF L] assms(4) by (simp add: deleter_inv_def safe_step_def)
qed

lemma quiet_inv:
  assumes "quiet view good s s1"
  shows "deleter_inv good H s \<Longrightarrow> deleter_inv good H s1" "ref_count s1 = ref_count s"
    "refs s1 = refs s" "view (ifd_dir s1) = view (ifd_dir s)" "last_files s1 = last_files s" "commits s1 = commits s"
  using assms by (auto simp: quiet_def same_points_def deleter_inv_def covered_def refs_def ref_count_def fun_eq_iff)

lemma quiet_run: "keeps (quiet view good s) P \<Longrightarrow> P s = (r, s') \<Longrightarrow> good (ifd_dir s) \<Longrightarrow> quiet view good s s'"
  using keepsD [of "quiet view good s" P s r s'] quiet_refl [of good s view] by blast

lemma forget_dead_inv: "forget_dead s = (r, s') \<Longrightarrow>
  deleter_inv good H s' = deleter_inv good H s \<and> ref_count s' = ref_count s \<and> ifd_dir s' = ifd_dir s"
  by (auto simp: forget_dead_def forget_dead_segments_def Let_def deleter_inv_def covered_def refs_def ref_count_def fun_eq_iff)

text \<open>Rules for a sequence of steps that ends in a cleanup.\<close>

lemma then_forget:
  assumes "bnd P (\<lambda>_. forget_dead) s = (r, s')" and "\<And>r1 s1. P s = (r1, s1) \<Longrightarrow> deleter_inv good H s1 \<and> safe_step view t s1"
  shows "deleter_inv good H s' \<and> safe_step view t s'"
proof -
  obtain r1 s1 where p: "P s = (r1, s1)" by (metis surj_pair)
  note A = assms(2) [OF p]
  show ?thesis
  proof (cases r1)
    case (Inl e)
    then show ?thesis using A assms(1) p by simp
  next
    case (Inr u)
    then have "forget_dead s1 = (r, s')" using assms(1) p by simp
    from forget_dead_inv [OF this] show ?thesis using A by (simp add: safe_step_def)
  qed
qed

lemma checkpoint_inv:
  assumes "checkpoint E infos is_commit s = (r, s')" and "deleter_inv good H s"
    and "\<And>f. count (refs s + H) f < u32_max"
  shows "deleter_inv good H s' \<and> safe_step view s s'"
proof -
  obtain res s1 where cf: "commit_files E infos is_commit s = (res, s1)" by (metis surj_pair)
  have "quiet view good s s1"
    using keepsD [OF commit_files_quiet _ cf] quiet_refl assms(2) by (auto simp: deleter_inv_def)
  note Q = quiet_inv [OF this]
  show ?thesis
  proof (cases res)
    case (Inl e)
    then show ?thesis using assms(1) cf Q(1) [OF assms(2)] Q(2,4) by (simp add: checkpoint_def safe_step_def)
  next
    case (Inr files)
    let ?s2 = "inc_ref_all files s1"
    have "count (refs s1 + H) f + count (mset files) f \<le> u32_max" for f
    proof -
      have "count (mset files) f \<le> 1"
        using distinct_commit_files [of E infos is_commit s files s1] cf Inr by (auto simp: distinct_count_atmost_1)
      then show ?thesis using assms(3) [of f] unfolding Q(3) by linarith
    qed
    moreover have "covered H s1" using Q(1) [OF assms(2)] by (simp add: deleter_inv_def)
    ultimately have cov: "covered (mset files + H) ?s2" by (intro covered_inc)
    have s2: "ifd_dir ?s2 = ifd_dir s1" "commits ?s2 = commits s" "last_files ?s2 = last_files s" "good (ifd_dir s1)"
      "sorted_points (commits s)"
      using Q(5,6) Q(1) [OF assms(2)] by (simp_all add: inc_ref_all_def deleter_inv_def)
    show ?thesis
    proof (cases is_commit)
      case True
      define point where "point = \<lparr>cp_generation = generation infos,
               cp_segments_file_name = (case segments_file_name (generation infos) of Some n \<Rightarrow> n | None \<Rightarrow> ascii ''segments''),
               cp_files = files, cp_segment_count = length (segments infos), cp_user_data = user_data infos\<rparr>"
      let ?s3 = "?s2\<lparr>commits := sort_commits (commits s @ [point])\<rparr>"
      have run: "bnd (apply_policy E False) (\<lambda>_. forget_dead) ?s3 = (r, s')"
        using assms(1) cf Inr True s2 by (simp add: checkpoint_def Let_def point_def)
      have "covered H ?s3"
        by (rule covered_cong [OF _ _ cov]) (simp_all add: refs_def s2 point_def ac_simps)
      then have "deleter_inv good H ?s3" using s2 by (simp add: deleter_inv_def)
      from then_forget [OF run, of H ?s3] apply_policy_inv [OF _ this]
      show ?thesis using Q(4) s2(1) by (simp add: safe_step_def)
    next
      case False
      let ?s3 = "?s2\<lparr>last_files := []\<rparr>"
      obtain r4 s4 where d: "dec_ref_all E (last_files s) ?s3 = (r4, s4)" by (metis surj_pair)
      have L: "lowers view good (mset (last_files s)) r4 ?s3 s4"
        using dec_ref_all_lowers [OF d] s2 by simp
      have "covered (mset (last_files s) + (mset files + H)) ?s3"
        by (rule covered_cong [OF _ _ cov]) (simp_all add: refs_def s2 ac_simps)
      from covered_lowers [OF this L] have cov4: "covered (mset files + H) s4" .
      have safe4: "safe_step view s s4"
        using lowersD(5) [OF L] Q(4) s2(1) by (simp add: safe_step_def)
      have s4: "commits s4 = commits s" "good (ifd_dir s4)" "last_files s4 = []"
        using lowersD(1,2) [OF L] s2 by (simp_all add: same_points_def)
      show ?thesis
      proof (cases r4)
        case (Inl e)
        then have "s' = s4" using assms(1) cf Inr False d s2 by (simp add: checkpoint_def Let_def)
        moreover have "covered H s4" using cov4 covered_mono [of H "mset files" s4] by (simp add: union_commute)
        ultimately show ?thesis using s4 safe4 s2 by (simp add: deleter_inv_def)
      next
        case (Inr u)
        then have "forget_dead (s4\<lparr>last_files := files\<rparr>) = (r, s')"
          using assms(1) cf \<open>res = Inr files\<close> False d s2 by (simp add: checkpoint_def Let_def)
        note F = forget_dead_inv [OF this, of H]
        have "covered H (s4\<lparr>last_files := files\<rparr>)"
          by (rule covered_cong [OF _ _ cov4]) (simp_all add: refs_def s4 ac_simps)
        then show ?thesis using F s4 safe4 s2 by (simp add: deleter_inv_def safe_step_def ref_count_def)
      qed
    qed
  qed
qed

lemma delete_unreferenced_inv:
  assumes "delete_files E ns s = (r, s')" and "deleter_inv good H s" and "\<And>n. n \<in> set ns \<Longrightarrow> ref_count s n = 0"
  shows "deleter_inv good H s' \<and> safe_step view s s'"
proof -
  have "good (ifd_dir s)" using assms(2) by (simp add: deleter_inv_def)
  note F = delete_files_effect(1) [OF assms(1) this]
  have rc: "ref_count s' f = ref_count s f" for f
  proof (cases "f \<in> set ns")
    case True
    then show ?thesis using F [THEN conjunct2, THEN conjunct2, THEN conjunct2, THEN conjunct1, THEN spec, of f] assms(3) by auto
  next
    case False
    then show ?thesis using F by simp
  qed
  have "0 < ref_count s' f \<Longrightarrow> f \<notin> set ns" for f using rc assms(3) by fastforce
  then have "safe_step view s s'" using F by (simp add: safe_step_def)
  moreover have "deleter_inv good H s'"
    using F rc assms(2) by (simp add: deleter_inv_def covered_def refs_def same_points_def)
  ultimately show ?thesis by blast
qed

lemma set_policy_inv:
  assumes "set_policy E pol s = (r, s')" and "deleter_inv good H s"
  shows "deleter_inv good H s' \<and> safe_step view s s'"
  using apply_policy_inv [of False "s\<lparr>ifd_policy := pol, custom := None\<rparr>" r s' H] assms
  by (simp add: set_policy_def deleter_inv_def covered_def refs_def ref_count_def safe_step_def)

lemma set_custom_policy_inv:
  assumes "set_custom_policy E p s = (r, s')" and "deleter_inv good H s"
  shows "deleter_inv good H s' \<and> safe_step view s s'"
proof -
  let ?s = "s\<lparr>custom := Some p\<rparr>"
  have inv: "deleter_inv good H ?s" using assms(2) by (simp add: deleter_inv_def covered_def refs_def ref_count_def)
  show ?thesis
  proof (cases "commits s = []")
    case True
    then have "s' = ?s" using assms(1) by (simp add: set_custom_policy_def)
    then show ?thesis using inv by (simp add: safe_step_def)
  next
    case False
    then have "apply_policy E False ?s = (r, s')" using assms(1) by (simp add: set_custom_policy_def)
    from apply_policy_inv [OF this inv] show ?thesis by (simp add: safe_step_def)
  qed
qed

lemma revisit_policy_inv:
  assumes "revisit_policy E s = (r, s')" and "deleter_inv good H s"
  shows "deleter_inv good H s' \<and> safe_step view s s'"
proof (cases "commits s = []")
  case True
  then have "s' = s" using assms(1) by (simp add: revisit_policy_def)
  then show ?thesis using assms(2) by (simp add: safe_step_def)
next
  case False
  then have run: "bnd (apply_policy E False) (\<lambda>_. forget_dead) s = (r, s')" using assms(1) by (simp add: revisit_policy_def)
  show ?thesis by (rule then_forget [OF run]) (rule apply_policy_inv [OF _ assms(2)])
qed

lemma drop_commits_inv:
  assumes "drop_commits E gens s = (r, s')" and "deleter_inv good H s"
  shows "deleter_inv good H s' \<and> safe_step view s s'"
proof -
  define P :: "commit_point \<Rightarrow> bool" where
    "P = (\<lambda>c. Some (cp_generation c) \<noteq> map_option cp_generation (last_opt (commits s)) \<and> cp_generation c \<in> set gens)"
  have run: "bnd (drop_points E (filter P (commits s))) (\<lambda>_. forget_dead) (s\<lparr>commits := filter (\<lambda>c. \<not> P c) (commits s)\<rparr>) = (r, s')"
    using assms(1) by (simp add: drop_commits_def Let_def P_def comp_def cong: filter_cong)
  have "sorted_points (filter (\<lambda>c. \<not> P c) (commits s))"
    using assms(2) by (auto simp: deleter_inv_def sorted_points_def intro: sorted_filter)
  note D = drop_points_inv [OF _ assms(2) _ this, of "filter P (commits s)"]
  show ?thesis by (rule then_forget [OF run]) (rule D, auto simp: points_refs_partition)
qed

lemma refresh_inv:
  assumes "refresh E s = (r, s')" and "deleter_inv good H s"
  shows "deleter_inv good H s' \<and> safe_step view s s'"
proof -
  obtain res s1 where l: "in_dir (map_err IfdStore (dir_list_all (env_dir E))) s = (res, s1)" by (metis surj_pair)
  have "keeps (quiet view good s) (in_dir (map_err IfdStore (dir_list_all (env_dir E))))"
    by (intro in_dir_quiet keeps_map_err dir_list_quiet)
  from quiet_run [OF this l] have "quiet view good s s1" using assms(2) by (simp add: deleter_inv_def)
  note Q = quiet_inv [OF this]
  show ?thesis
  proof (cases res)
    case (Inl e)
    then have "s' = s1" using assms(1) l by (simp add: refresh_def)
    then show ?thesis using Q(1) [OF assms(2)] Q(4) by (simp add: safe_step_def)
  next
    case (Inr files)
    then have "delete_files E (filter (\<lambda>n. is_index_file_name n \<and> \<not> exists_ref s1 n) files) s1 = (r, s')"
      using assms(1) l by (simp add: refresh_def)
    from delete_unreferenced_inv [OF this Q(1) [OF assms(2)]] show ?thesis
      using Q(4) by (simp add: exists_ref_def safe_step_def)
  qed
qed

lemma delete_new_files_inv:
  assumes "delete_new_files E files s = (r, s')" and "deleter_inv good H s"
  shows "deleter_inv good H s' \<and> safe_step view s s'"
  using assms(1) unfolding delete_new_files_def
  by (rule then_forget) (rule delete_unreferenced_inv [OF _ assms(2)], auto simp: exists_ref_def)

lemma sync_commit_files_inv:
  assumes "sync_commit_files E infos s = (r, s')" and "deleter_inv good H s"
  shows "deleter_inv good H s' \<and> safe_step view s s'"
proof -
  have nop: "keeps (quiet view good s) (\<lambda>s. (Inr (), s))"
    and upd: "keeps (quiet view good s) (\<lambda>s. (Inr (), s\<lparr>synced := synced s \<union> X\<rparr>))" for X
    by (auto simp: keeps_def quiet_def same_points_def)
  have "keeps (quiet view good s) (sync_commit_files E infos)"
    unfolding sync_commit_files_def Let_def keeps_def
  proof (intro allI impI)
    fix t r t' assume q: "quiet view good s t"
      and run: "bnd (commit_files E infos False) (\<lambda>files s.
        if sort (filter (\<lambda>n. n \<notin> synced s) files) = [] then (Inr (), s)
        else bnd (in_dir (map_err IfdStore (sync (env_dir E) (sort (filter (\<lambda>n. n \<notin> synced s) files))))) (\<lambda>_ sa.
          (Inr (), sa\<lparr>synced := synced sa \<union> set (sort (filter (\<lambda>n. n \<notin> synced s) files))\<rparr>)) s) t = (r, t')"
    obtain res t1 where c: "commit_files E infos False t = (res, t1)" by (metis surj_pair)
    have q1: "quiet view good s t1" by (rule keepsD [OF commit_files_quiet q c])
    have k: "keeps (quiet view good s) (bnd (in_dir (map_err IfdStore (sync (env_dir E) ns))) (\<lambda>_ s. (Inr (), s\<lparr>synced := synced s \<union> set ns\<rparr>)))" for ns
      by (intro keeps_bnd in_dir_quiet keeps_map_err dir_sync_quiet upd)
    show "quiet view good s t'"
      using run c q1 keepsD [OF k q1] by (cases res) (auto split: if_splits simp del: set_sort set_filter)
  qed
  from keepsD [OF this _ assms(1)] have "quiet view good s s'" using quiet_refl assms(2) by (auto simp: deleter_inv_def)
  note Q = quiet_inv [OF this]
  show ?thesis using Q(1) [OF assms(2)] Q(4) by (simp add: safe_step_def)
qed

lemma hold_segment_files_inv:
  assumes "hold_segment_files E segs s = (r, s')" and "deleter_inv good H s"
    and "\<And>held f. r = Inr held \<Longrightarrow> count (refs s + H) f + count (mset held) f \<le> u32_max"
  shows "deleter_inv good (H + (case r of Inr held \<Rightarrow> mset held | Inl _ \<Rightarrow> {#})) s' \<and> safe_step view s s'"
proof -
  obtain res s1 where h: "hold_loop E [] segs s = (res, s1)" by (metis surj_pair)
  have "quiet view good s s1"
    using keepsD [OF hold_loop_quiet _ h] quiet_refl assms(2) by (auto simp: deleter_inv_def)
  note Q = quiet_inv [OF this]
  show ?thesis
  proof (cases res)
    case (Inl e)
    then have "s' = s1" "r = Inl e" using assms(1) h by (simp_all add: hold_segment_files_def)
    then show ?thesis using Q(1) [OF assms(2)] Q(4) by (simp add: safe_step_def)
  next
    case (Inr held)
    then have s': "r = Inr held" "s' = inc_ref_all held s1" using assms(1) h by (simp_all add: hold_segment_files_def)
    have i: "deleter_inv good H s1" by (rule Q(1) [OF assms(2)])
    have "covered (mset held + H) s'"
      using covered_inc [of H s1 held] assms(3) [OF s'(1)] i Q(3) s'(2) by (simp add: deleter_inv_def)
    then show ?thesis
      using i Q(4) s' by (simp add: deleter_inv_def inc_ref_all_def safe_step_def union_commute)
  qed
qed

lemma hold_files_inv:
  assumes "deleter_inv good H s" and "\<And>f. count (refs s + H) f + count (mset fs) f \<le> u32_max"
  shows "deleter_inv good (H + mset fs) (hold_files fs s) \<and> safe_step view s (hold_files fs s)"
  using covered_inc [of H s fs] assms
  by (simp add: deleter_inv_def hold_files_def inc_ref_all_def safe_step_def union_commute)

lemma release_files_inv:
  assumes "release_files E fs s = (r, s')" and "deleter_inv good H s" and "mset fs \<subseteq># H"
  shows "deleter_inv good (H - mset fs) s' \<and> safe_step view s s'"
  using assms(1) unfolding release_files_def
proof (rule then_forget)
  fix r1 s1 assume d: "dec_ref_all E fs s = (r1, s1)"
  have "good (ifd_dir s)" using assms(2) by (simp add: deleter_inv_def)
  note L = dec_ref_all_lowers [OF d this]
  have "covered (mset fs + (H - mset fs)) s" using assms(2,3) by (simp add: deleter_inv_def)
  from covered_lowers [OF this L] show "deleter_inv good (H - mset fs) s1 \<and> safe_step view s s1"
    using lowersD(1,2,5) [OF L] assms(2) by (simp add: deleter_inv_def safe_step_def same_points_def)
qed

end

section \<open>Runs\<close>

text \<open>
  One operation of the deleter. The second component is what the callers hold; an operation happens only while no file
  has \<open>u32::MAX\<close> references, and callers release what they hold.
\<close>

inductive deleter_step ::
    "('d, 'o, 'p, 'h) deleter_env \<Rightarrow> ('d, 'p) index_file_deleter \<times> name multiset \<Rightarrow> ('d, 'p) index_file_deleter \<times> name multiset \<Rightarrow> bool"
  for E where
  step_checkpoint: "checkpoint E infos is_commit s = (r, s') \<Longrightarrow> \<forall>f. count (refs s + H) f < u32_max \<Longrightarrow> deleter_step E (s, H) (s', H)"
| step_set_policy: "set_policy E policy s = (r, s') \<Longrightarrow> deleter_step E (s, H) (s', H)"
| step_set_custom_policy: "set_custom_policy E p s = (r, s') \<Longrightarrow> deleter_step E (s, H) (s', H)"
| step_revisit_policy: "revisit_policy E s = (r, s') \<Longrightarrow> deleter_step E (s, H) (s', H)"
| step_drop_commits: "drop_commits E gens s = (r, s') \<Longrightarrow> deleter_step E (s, H) (s', H)"
| step_refresh: "refresh E s = (r, s') \<Longrightarrow> deleter_step E (s, H) (s', H)"
| step_delete_new_files: "delete_new_files E files s = (r, s') \<Longrightarrow> deleter_step E (s, H) (s', H)"
| step_sync: "sync_commit_files E infos s = (r, s') \<Longrightarrow> deleter_step E (s, H) (s', H)"
| step_record: "deleter_step E (s, H) (record_segment_files sci files s, H)"
| step_forget: "deleter_step E (s, H) (forget_segment_files s, H)"
| step_hold_segments: "hold_segment_files E segs s = (Inr held, s') \<Longrightarrow>
    \<forall>f. count (refs s + H) f + count (mset held) f \<le> u32_max \<Longrightarrow> deleter_step E (s, H) (s', H + mset held)"
| step_hold_fails: "hold_segment_files E segs s = (Inl e, s') \<Longrightarrow> deleter_step E (s, H) (s', H)"
| step_hold: "\<forall>f. count (refs s + H) f + count (mset files) f \<le> u32_max \<Longrightarrow> deleter_step E (s, H) (hold_files files s, H + mset files)"
| step_release: "release_files E files s = (r, s') \<Longrightarrow> mset files \<subseteq># H \<Longrightarrow> deleter_step E (s, H) (s', H - mset files)"

text \<open>
  A run: it starts when the deleter opens a directory; between two operations others may change the directory (flushes
  and merges write files) and the shared policy object.
\<close>

inductive deleter_run ::
    "('d, 'o, 'p, 'h) deleter_env \<Rightarrow> ('d \<Rightarrow> bool) \<Rightarrow> ('d, 'p) index_file_deleter \<times> name multiset \<Rightarrow> bool"
  for E good where
  run_open: "good d \<Longrightarrow> fst (dir_list_all (env_dir E) d) = Inr files \<Longrightarrow> length files < u32_max \<Longrightarrow>
    open_inner E d current policy cust = (Inr (), s) \<Longrightarrow> deleter_run E good (s, {#})"
| run_step: "deleter_run E good st \<Longrightarrow> deleter_step E st st' \<Longrightarrow> deleter_run E good st'"
| run_others: "deleter_run E good (s, H) \<Longrightarrow> good d \<Longrightarrow> deleter_run E good (s\<lparr>ifd_dir := d\<rparr>, H)"
| run_policy: "deleter_run E good (s, H) \<Longrightarrow> deleter_run E good (s\<lparr>custom := p\<rparr>, H)"

context deleter_over
begin

lemma step_inv:
  assumes "deleter_step E (s, H) (s', H')" and "deleter_inv good H s"
  shows "deleter_inv good H' s' \<and> safe_step view s s'"
  using assms(1)
proof cases
  case (step_checkpoint infos is_commit r)
  then show ?thesis using checkpoint_inv assms(2) by blast
next
  case (step_record sci files)
  then show ?thesis using assms(2)
    by (simp add: record_segment_files_def deleter_inv_def covered_def refs_def ref_count_def safe_step_def)
next
  case step_forget
  then show ?thesis using assms(2)
    by (simp add: forget_segment_files_def deleter_inv_def covered_def refs_def ref_count_def safe_step_def)
next
  case (step_hold_segments segs held)
  then show ?thesis using hold_segment_files_inv [of segs s "Inr held" s' H] assms(2) by auto
next
  case (step_hold_fails segs e)
  then show ?thesis using hold_segment_files_inv [of segs s "Inl e" s' H] assms(2) by auto
next
  case (step_hold files)
  then show ?thesis using hold_files_inv [of H s files] assms(2) by auto
next
  case (step_release files r)
  then show ?thesis using release_files_inv assms(2) by blast
qed (blast dest: set_policy_inv [OF _ assms(2)] set_custom_policy_inv [OF _ assms(2)] revisit_policy_inv [OF _ assms(2)]
    drop_commits_inv [OF _ assms(2)] refresh_inv [OF _ assms(2)] delete_new_files_inv [OF _ assms(2)]
    sync_commit_files_inv [OF _ assms(2)])+

text \<open>Opening: while the directory is scanned a file has at most one reference per commit loaded.\<close>

lemma scan_effect:
  assumes "scan_file E n s = (Inr (), s')" and "deleter_inv good {#} (s\<lparr>commits := sort_commits (commits s)\<rparr>)" and "last_files s = []"
    and "\<And>f. count (points_refs (commits s)) f \<le> length (commits s)" and "length (commits s) < u32_max"
  shows "deleter_inv good {#} (s'\<lparr>commits := sort_commits (commits s')\<rparr>) \<and> last_files s' = [] \<and>
    (\<forall>f. count (points_refs (commits s')) f \<le> length (commits s')) \<and> length (commits s') \<le> length (commits s) + 1"
proof -
  define t where "t = s\<lparr>ref_counts :=
    (case map_of (ref_counts s) n of None \<Rightarrow> AList.update n 0 (ref_counts s) | Some _ \<Rightarrow> ref_counts s)\<rparr>"
  have rc: "ref_count t f = ref_count s f" for f
    by (cases "map_of (ref_counts s) n") (auto simp: t_def ref_count_counter counter_of_def [of "ref_counts s" n])
  have cov: "covered {#} t" "good (ifd_dir t)"
    using assms(2,3) rc by (simp_all add: deleter_inv_def covered_def refs_def t_def ref_count_def)
  have t: "commits t = commits s" "last_files t = []" using assms(3) by (simp_all add: t_def)
  consider "s' = s" | "s' = t" | "load_commit E n t = (Inr (), s')"
    using assms(1) unfolding scan_file_def Let_def t_def [symmetric]
    by (cases "is_index_file_name n"; cases "is_segments_file_name n") simp_all
  then show ?thesis
  proof cases
    case 1
    then show ?thesis using assms by simp
  next
    case 2
    then show ?thesis using assms(3,4) cov t by (simp add: deleter_inv_def covered_def refs_def ref_count_def)
  next
    case 3
    then obtain g bytes sis files t1 t2 where run: "in_dir (map_err IfdStore (dir_open (env_dir E) n)) t = (Inr bytes, t1)"
      "commit_files E sis True t1 = (Inr files, t2)"
      and s': "s' = (inc_ref_all files t2)\<lparr>synced := synced (inc_ref_all files t2) \<union> set files, commits := commits t2 @
        [\<lparr>cp_generation = g, cp_segments_file_name = n, cp_files = files, cp_segment_count = length (segments sis), cp_user_data = user_data sis\<rparr>]\<rparr>"
      by (auto simp: load_commit_def bnd_eq_Inr_iff map_err_eq_Inr_iff Let_def inc_ref_all_def)
    have "keeps (quiet view good t) (in_dir (map_err IfdStore (dir_open (env_dir E) n)))"
      by (intro in_dir_quiet keeps_map_err dir_open_quiet)
    from quiet_run [OF this run(1) cov(2)] have q1: "quiet view good t t1" .
    have "quiet view good t t2" by (rule keepsD [OF commit_files_quiet q1 run(2)])
    note Q = quiet_inv [OF this]
    have cnt: "count (mset files) f \<le> 1" for f using distinct_commit_files [OF run(2)] by (simp add: distinct_count_atmost_1)
    have "refs t2 = points_refs (commits s)" using Q(3) t by (simp add: refs_def)
    then have "count (refs t2 + {#}) f + count (mset files) f \<le> u32_max" for f
      using cnt [of f] assms(4) [of f] assms(5) by simp
    moreover have "covered {#} t2" using cov Q(2,3) by (simp add: covered_def)
    ultimately have "covered (mset files + {#}) (inc_ref_all files t2)" by (intro covered_inc)
    then have "covered {#} (s'\<lparr>commits := sort_commits (commits s')\<rparr>)"
      by (rule covered_cong [rotated 2]) (simp_all add: s' refs_def inc_ref_all_def)
    moreover have "count (points_refs (commits s')) f \<le> length (commits s')" for f
      using assms(4) [of f] cnt [of f] Q(6) t by (simp add: s')
    moreover have "good (ifd_dir s')" using \<open>quiet view good t t2\<close> by (simp add: quiet_def s' inc_ref_all_def)
    ultimately show ?thesis using Q(5,6) t by (simp add: deleter_inv_def s' inc_ref_all_def)
  qed
qed

lemma scan_all_effect:
  assumes "for_each (scan_file E) ns s = (Inr (), s')" and "deleter_inv good {#} (s\<lparr>commits := sort_commits (commits s)\<rparr>)"
    and "last_files s = []" and "\<And>f. count (points_refs (commits s)) f \<le> length (commits s)"
    and "length (commits s) + length ns \<le> u32_max"
  shows "deleter_inv good {#} (s'\<lparr>commits := sort_commits (commits s')\<rparr>) \<and> last_files s' = [] \<and>
    (\<forall>f. count (points_refs (commits s')) f \<le> length (commits s')) \<and> length (commits s') \<le> length (commits s) + length ns"
  using assms
proof (induction ns arbitrary: s)
  case (Cons n ns)
  obtain s1 where s1: "scan_file E n s = (Inr (), s1)" "for_each (scan_file E) ns s1 = (Inr (), s')"
    using Cons.prems(1) by (auto simp: bnd_eq_Inr_iff)
  have "length (commits s) < u32_max" using Cons.prems(5) by simp
  note A = scan_effect [OF s1(1) Cons.prems(2,3,4) this]
  then have len: "length (commits s1) + length ns \<le> u32_max" using Cons.prems(5) by simp
  have "deleter_inv good {#} (s'\<lparr>commits := sort_commits (commits s')\<rparr>) \<and> last_files s' = [] \<and>
    (\<forall>f. count (points_refs (commits s')) f \<le> length (commits s')) \<and> length (commits s') \<le> length (commits s1) + length ns"
    using A by (intro Cons.IH [OF s1(2) _ _ _ len]) simp_all
  then show ?case using A by simp
qed simp

lemma open_inv:
  assumes "open_inner E d current policy cust = (Inr (), s)" and "good d"
    and "fst (dir_list_all (env_dir E) d) = Inr files" and "length files < u32_max"
  shows "deleter_inv good {#} s"
proof -
  let ?s0 = "\<lparr>ifd_dir = d, ifd_policy = policy, custom = cust, ref_counts = [], commits = [], last_files = [], si_files = [], synced = {}\<rparr>"
  obtain d1 where l: "dir_list_all (env_dir E) d = (Inr files, d1)" using assms(3) by (metis prod.collapse)
  have g1: "good d1" using list_law [OF assms(2) l] by blast
  let ?s1 = "?s0\<lparr>ifd_dir := d1\<rparr>"
  have l1: "in_dir (map_err IfdStore (dir_list_all (env_dir E))) ?s0 = (Inr files, ?s1)"
    using l by (simp add: in_dir_def)
  obtain s2 s3 s4 where scan: "for_each (scan_file E) files ?s1 = (Inr (), s2)"
    and del: "delete_files E (unrefed_files (s2\<lparr>commits := sort_commits (commits s2)\<rparr>)) (s2\<lparr>commits := sort_commits (commits s2)\<rparr>) = (Inr (), s3)"
    and chk: "checkpoint E current False s3 = (Inr (), s4)" and pol: "apply_policy E True s4 = (Inr (), s)"
    using assms(1) l1 unfolding open_inner_def
    by (auto simp: bnd_eq_Inr_iff Let_def split: option.splits)
  have "deleter_inv good {#} (?s1\<lparr>commits := sort_commits (commits ?s1)\<rparr>)"
    using g1 by (simp add: deleter_inv_def covered_def refs_def sort_commits_def sorted_points_def)
  note S = scan_all_effect [OF scan this]
  let ?s2 = "s2\<lparr>commits := sort_commits (commits s2)\<rparr>"
  have S: "deleter_inv good {#} ?s2" "last_files s2 = []" "\<And>f. count (points_refs (commits s2)) f \<le> length (commits s2)"
    "length (commits s2) \<le> length files"
    using S assms(4) by simp_all
  have zero: "ref_count ?s2 n = 0" if "n \<in> set (unrefed_files ?s2)" for n
  proof -
    have "(n, 0) \<in> set (AList.clearjunk (ref_counts ?s2))" using that by (auto simp: unrefed_files_def)
    then have "map_of (AList.clearjunk (ref_counts ?s2)) n = Some 0" by (simp add: distinct_clearjunk)
    then show ?thesis by (simp add: ref_count_def map_of_clearjunk)
  qed
  have inv3: "deleter_inv good {#} s3" using delete_unreferenced_inv [OF del S(1) zero] by blast
  have "same_points ?s2 s3" using delete_files_effect(1) [OF del] S(1) by (simp add: deleter_inv_def)
  then have "count (refs s3 + {#}) f < u32_max" for f
    using S(2,4) S(3) [of f] assms(4) by (simp add: refs_def same_points_def)
  then have "deleter_inv good {#} s4" using checkpoint_inv [OF chk inv3] by blast
  then show ?thesis using apply_policy_inv [OF pol] by blast
qed

lemma run_inv: "deleter_run E good (s, H) \<Longrightarrow> deleter_inv good H s"
proof (induction "(s, H)" arbitrary: s H rule: deleter_run.induct)
  case (run_open d files current policy cust s)
  then show ?case by (intro open_inv)
next
  case (run_step st s' H')
  obtain s H where st: "st = (s, H)" by (metis surj_pair)
  then show ?case using step_inv run_step by blast
next
  case (run_others s H d)
  then show ?case by (simp add: deleter_inv_def covered_def refs_def ref_count_def)
next
  case (run_policy s H p)
  then show ?case by (simp add: deleter_inv_def covered_def refs_def ref_count_def)
qed

end

definition bb_env ::
    "'p index_deletion_policy \<Rightarrow> 'h crc32fast \<Rightarrow> nat \<Rightarrow> codec_formats list \<Rightarrow> (u8 list \<Rightarrow> name \<Rightarrow> u8 list \<Rightarrow> info_error + name list) \<Rightarrow>
     (byte_buffers_directory, nat, 'p, 'h) deleter_env" where
  "bb_env P K threads registered simpletext =
     \<lparr>env_dir = bb_impl, env_policy = P, env_crc = K, env_threads = threads, env_registered = registered, env_simpletext = simpletext\<rparr>"

interpretation bb_deleter: deleter_over "bb_env P K threads registered simpletext" bb_file bb_good
  for P K threads registered simpletext
  by (simp add: deleter_over_def bb_env_def bb.directory_laws_axioms)

section \<open>Properties\<close>

text \<open>A commit checkpoint, step by step.\<close>

lemma commit_checkpoint_cases:
  assumes "deleter_over E view good" and "checkpoint E infos True s = (Inr (), s')" and "good (ifd_dir s)"
  obtains files s1 point s3 s4 where "quiet view good s s1" "distinct files"
    "point = \<lparr>cp_generation = generation infos,
       cp_segments_file_name = (case segments_file_name (generation infos) of Some n \<Rightarrow> n | None \<Rightarrow> ascii ''segments''),
       cp_files = files, cp_segment_count = length (segments infos), cp_user_data = user_data infos\<rparr>"
    "s3 = (inc_ref_all files s1)\<lparr>commits := sort_commits (commits s @ [point])\<rparr>"
    "apply_policy E False s3 = (Inr (), s4)" "s' = forget_dead_segments s4"
proof -
  obtain files s1 where cf: "commit_files E infos True s = (Inr files, s1)"
    using assms(2) by (auto simp: checkpoint_def bnd_eq_Inr_iff)
  have q: "quiet view good s s1"
    using deleter_over.commit_files_quiet [OF assms(1)] cf assms(3) by (rule deleter_over.quiet_run [OF assms(1)])
  have "commits (inc_ref_all files s1) = commits s" using q by (simp add: inc_ref_all_def quiet_def same_points_def)
  then obtain s4 where "apply_policy E False ((inc_ref_all files s1)\<lparr>commits := sort_commits (commits s @
      [\<lparr>cp_generation = generation infos,
       cp_segments_file_name = (case segments_file_name (generation infos) of Some n \<Rightarrow> n | None \<Rightarrow> ascii ''segments''),
       cp_files = files, cp_segment_count = length (segments infos), cp_user_data = user_data infos\<rparr>])\<rparr>) = (Inr (), s4)"
    "s' = forget_dead_segments s4"
    using assms(2) cf by (auto simp: checkpoint_def bnd_eq_Inr_iff Let_def forget_dead_def)
  then show ?thesis using that [OF q distinct_commit_files [OF cf] refl refl] by blast
qed

lemma exact_inc:
  assumes "exact H s" and "\<And>f. count (refs s + H) f + count (mset fs) f \<le> u32_max"
  shows "ref_count (inc_ref_all fs s) f = count (refs s + H) f + count (mset fs) f"
proof -
  have "min (counter_of (ref_counts s) f + count (mset fs) f) u32_max = counter_of (ref_counts s) f + count (mset fs) f"
    "counter_of (ref_counts s) f = count (refs s + H) f"
    using assms by (simp_all add: exact_def ref_count_counter)
  then show ?thesis
    using inc_refs_bounds(1) [where counts = "ref_counts s" and f = f and fs = fs]
      inc_refs_bounds(2) [where counts = "ref_counts s" and f = f and fs = fs]
    by (simp add: ref_count_counter inc_ref_all_def)
qed

text \<open>
  C2: The deleter never deletes a file that is still in use. In every run (operations in any order, with any results,
  interleaved with others who write the directory and with changes of the policy object), after every operation each file
  named by a live commit point, by the last checkpoint or held by a caller is the same file as before the operation, every
  such reference is counted, and the commit points stay sorted. This holds for every directory that keeps the laws and
  every policy, also when deletions fail.
\<close>
theorem referenced_files_survive:
  assumes "deleter_over E view good" and "deleter_run E good (s, H)" and "deleter_step E (s, H) (s', H')"
  shows "(\<forall>f. f \<in># refs s' + H' \<longrightarrow> view (ifd_dir s') f = view (ifd_dir s) f) \<and>
    (\<forall>f. count (refs s' + H') f \<le> ref_count s' f) \<and> sorted_points (commits s')"
proof -
  note inv = deleter_over.run_inv [OF assms(1,2)]
  have "deleter_inv good H' s'" "safe_step view s s'" using deleter_over.step_inv [OF assms(1,3) inv] by blast+
  moreover have "f \<in># refs s' + H' \<Longrightarrow> 0 < count (refs s' + H') f" for f by (simp only: count_greater_zero_iff)
  ultimately show ?thesis
    unfolding deleter_inv_def covered_def safe_step_def by (meson less_le_trans)
qed

definition empty_infos :: "i64 \<Rightarrow> segment_infos" where
  "empty_infos g = sample_commit\<lparr>generation := g, segments := []\<rparr>"

definition sample_env :: "(byte_buffers_directory, nat, unit snapshot_state, u8 list) deleter_env" where
  "sample_env = bb_env (snapshot_policy keep_only_last_policy) xor_hasher 1 [] (\<lambda>_ _ _. Inr [])"

definition files_dir :: "name list \<Rightarrow> byte_buffers_directory" where
  "files_dir ns = \<lparr>bb_files = zip ns [0..<length ns], bb_entries = replicate (length ns) (Some []), temp_counter = 0\<rparr>"

definition opened :: "unit snapshot_state option \<Rightarrow> (byte_buffers_directory, unit snapshot_state) index_file_deleter" where
  "opened cust =
     \<lparr>ifd_dir = bb_new, ifd_policy = KeepOnlyLastCommit, custom = cust, ref_counts = [], commits = [], last_files = [],
      si_files = [], synced = {}\<rparr>"

lemma sample_deleter: "deleter_over sample_env bb_file bb_good"
  unfolding sample_env_def by (rule bb_deleter.deleter_over_axioms)

lemma sample_run: "deleter_run sample_env bb_good (opened None, {#})"
proof (rule run_open)
  show "bb_good bb_new" by (simp add: bb_good_def bb_new_def)
  show "fst (dir_list_all (env_dir sample_env) bb_new) = Inr []"
    by (simp add: sample_env_def bb_env_def bb_impl_def bb_list_all_def bb_new_def)
  show "length ([] :: name list) < u32_max" by (simp add: u32_max_def)
  show "open_inner sample_env bb_new (empty_infos 0) KeepOnlyLastCommit None = (Inr (), opened None)"
    by (simp add: open_inner_def in_dir_def sample_env_def bb_env_def bb_impl_def bb_list_all_def bb_new_def opened_def unrefed_files_def
        delete_files_def checkpoint_def commit_files_def empty_infos_def inc_ref_all_def dec_ref_all_def apply_policy_def
        forget_dead_def forget_dead_segments_def sort_commits_def bnd_def map_err_def)
qed

lemma files_dir_good: "distinct ns \<Longrightarrow> bb_good (files_dir ns)"
  by (auto simp: bb_good_def files_dir_def dest!: map_of_SomeD set_zip_rightD)

theorem referenced_files_survive_witness:
  "\<exists>s s' H. deleter_run sample_env bb_good (s, H) \<and> deleter_step sample_env (s, H) (s', H) \<and>
    bb_file (ifd_dir s') (ascii ''_0.fdt'') = Some 0 \<and> bb_file (ifd_dir s) (ascii ''_1.fdt'') = Some 1"
proof -
  define n where "n = ascii ''_0.fdt''"
  define d where "d = files_dir [n, ascii ''_1.fdt'']"
  define s0 where "s0 = (opened None)\<lparr>ifd_dir := d\<rparr>"
  define s where "s = hold_files [n] s0"
  have ne: "n \<noteq> ascii ''_1.fdt''" by (simp add: n_def ascii_def)
  then have good: "bb_good d" unfolding d_def by (intro files_dir_good) simp
  have files: "bb_file d n = Some 0" "bb_file d (ascii ''_1.fdt'') = Some 1"
    using ne by (simp_all add: d_def files_dir_def bb_file_def)
  have run: "deleter_run sample_env bb_good (s0, {#})"
    unfolding s0_def by (rule run_others [OF sample_run good])
  have "deleter_step sample_env (s0, {#}) (s, {#} + mset [n])"
    unfolding s_def by (rule step_hold) (simp add: s0_def opened_def refs_def u32_max_def)
  from run_step [OF run this] have run': "deleter_run sample_env bb_good (s, {#n#})" by simp
  obtain r s' where "refresh sample_env s = (r, s')" by (metis surj_pair)
  then have step: "deleter_step sample_env (s, {#n#}) (s', {#n#})" by (rule step_refresh)
  have "bb_file (ifd_dir s') n = bb_file (ifd_dir s) n"
    using referenced_files_survive [OF sample_deleter run' step] by simp
  moreover have "ifd_dir s = d" by (simp add: s_def s0_def hold_files_def inc_ref_all_def)
  ultimately show ?thesis
    using run' step files by (intro exI [of _ s] exI [of _ s'] exI [of _ "{#n#}"]) (simp add: n_def)
qed

text \<open>
  C9: Commit files go first. When the references on a list of files are given up and a \<open>segments_N\<close> of the list that nothing
  references any more is still there afterwards (its deletion failed), then every file that is not a commit file is as it was: none
  was deleted. (Other \<open>segments_N\<close> files of the list may be gone: the pass over the commit files tries them all.)
\<close>
theorem commit_files_deleted_first:
  assumes "deleter_over E view good" and "good (ifd_dir s)" and "dec_ref_all E fs s = (r, s')"
    and "n \<in> set fs" and "is_segments_file_name n" and "0 < ref_count s n" and "ref_count s' n = 0"
    and "view (ifd_dir s') n \<noteq> None" and "\<not> is_segments_file_name f"
  shows "view (ifd_dir s') f = view (ifd_dir s) f"
proof -
  obtain counts del where d: "foldl dec_ref (ref_counts s, []) fs = (counts, del)" by (metis surj_pair)
  let ?s = "s\<lparr>ref_counts := counts\<rparr>"
  have del: "delete_files E del ?s = (r, s')" using assms(3) d by (simp add: dec_ref_all_def)
  have g: "good (ifd_dir ?s)" using assms(2) by simp
  note L = deleter_over.dec_ref_all_lowers [OF assms(1,3,2)] and D = dec_refs_effect [OF d]
  have "counter_of counts n = 0" using D lowersD(3) [OF L, of n] assms(7) by (simp add: ref_count_counter)
  then have "n \<in> set del" using D assms(6) by (simp add: ref_count_counter)
  from deleter_over.delete_files_effect(2) [OF assms(1) del g this assms(5,8,9)] show ?thesis by simp
qed

definition stuck_dir :: "(byte_buffers_directory, nat) directory" where
  "stuck_dir = bb_impl\<lparr>delete_file := \<lambda>n d. if is_segments_file_name n then (Inl (Io PermissionDenied n), d) else bb_delete_file n d\<rparr>"

lemma stuck_dir_laws: "directory_laws stuck_dir bb_file bb_good"
proof
  fix d d' :: byte_buffers_directory and m rd
  assume g: "bb_good d" and del: "delete_file stuck_dir m d = (rd, d')"
  show "bb_good d' \<and> (\<forall>n. n \<noteq> m \<longrightarrow> bb_file d' n = bb_file d n) \<and> (rd = Inr () \<longrightarrow> bb_file d' m = None)"
  proof (cases "is_segments_file_name m")
    case True
    then show ?thesis using g del by (auto simp: stuck_dir_def)
  next
    case False
    then have "delete_file bb_impl m d = (rd, d')" using del by (simp add: stuck_dir_def bb_impl_def)
    from bb.delete_law [OF g this] show ?thesis .
  qed
next
  fix d :: byte_buffers_directory and r d'
  assume "bb_good d" "dir_list_all stuck_dir d = (r, d')"
  then show "bb_good d' \<and> bb_file d' = bb_file d \<and> (\<forall>ns. r = Inr ns \<longrightarrow> distinct ns \<and> set ns = {n. bb_file d n \<noteq> None})"
    using bb.list_law [of d r d'] by (simp add: stuck_dir_def)
next
  fix d d' :: byte_buffers_directory and n ro
  assume "bb_good d" "dir_open stuck_dir n d = (ro, d')"
  then show "bb_good d' \<and> bb_file d' = bb_file d" using bb.open_law [of d n ro d'] by (simp add: stuck_dir_def)
next
  fix d d' :: byte_buffers_directory and ns rs
  assume "bb_good d" "sync stuck_dir ns d = (rs, d')"
  then show "bb_good d' \<and> bb_file d' = bb_file d" using bb.sync_law [of d ns rs d'] by (simp add: stuck_dir_def)
qed

text \<open>The commit of the example names \<open>segments_1\<close>, which cannot be deleted, and \<open>_0.fdt\<close>.\<close>

theorem commit_files_deleted_first_witness:
  "\<exists>r s'. dec_ref_all (sample_env\<lparr>env_dir := stuck_dir\<rparr>) [ascii ''_0.fdt'', ascii ''segments_1'']
      (hold_files [ascii ''_0.fdt'', ascii ''segments_1''] ((opened None)\<lparr>ifd_dir := files_dir [ascii ''_0.fdt'', ascii ''segments_1'']\<rparr>)) = (r, s') \<and>
    bb_file (ifd_dir s') (ascii ''_0.fdt'') = Some 0"
proof -
  define n m where "n = ascii ''segments_1''" and "m = ascii ''_0.fdt''"
  let ?E = "sample_env\<lparr>env_dir := stuck_dir\<rparr>"
  let ?s = "hold_files [m, n] ((opened None)\<lparr>ifd_dir := files_dir [m, n]\<rparr>)"
  have nm: "is_segments_file_name n" "\<not> is_segments_file_name m" "n \<noteq> m"
    by (simp_all add: n_def m_def is_segments_file_name_def starts_with_def ascii_def)
  have E: "deleter_over ?E bb_file bb_good" by (simp add: deleter_over_def stuck_dir_laws)
  have good: "bb_good (ifd_dir ?s)" using nm files_dir_good [of "[m, n]"] by (auto simp: hold_files_def inc_ref_all_def)
  have del: "delete_file stuck_dir n d = (Inl (Io PermissionDenied n), d)" for d using nm by (simp add: stuck_dir_def)
  obtain s' where run: "dec_ref_all ?E [m, n] ?s = (Inl (IfdStore (Io PermissionDenied n)), s')"
      "ifd_dir s' = files_dir [m, n]" "ref_count s' n = 0"
    using nm del
    by (simp add: dec_ref_all_def dec_ref_def hold_files_def inc_ref_all_def inc_ref_def opened_def u32_max_def
        delete_files_def ref_count_counter counter_of_def update_conv' delete_conv')
  have "0 < ref_count ?s n" "bb_file (ifd_dir s') n \<noteq> None"
    using nm run(2) by (simp_all add: hold_files_def inc_ref_all_def inc_ref_def opened_def u32_max_def ref_count_def files_dir_def bb_file_def)
  then have "bb_file (ifd_dir s') m = bb_file (ifd_dir ?s) m"
    using commit_files_deleted_first [OF E good run(1), of n m] nm run(3) by simp
  moreover have "bb_file (ifd_dir ?s) m = Some 0" by (simp add: hold_files_def inc_ref_all_def files_dir_def bb_file_def)
  ultimately show ?thesis using run(1) by (auto simp: n_def m_def)
qed

text \<open>
  A successful commit under \<open>KeepOnlyLastCommit\<close>: \<open>olds\<close> are the commit points dropped, \<open>newest\<close> the one kept; \<open>s2\<close> is
  the state after the new references were counted.
\<close>

lemma keep_only_last_effect:
  assumes "deleter_over E view good" and "checkpoint E infos True s = (Inr (), s')" and "deleter_inv good H s"
    and "custom s = None" and "ifd_policy s = KeepOnlyLastCommit"
  obtains files s1 olds newest s2 where "quiet view good s s1" "distinct files" "s2 = (inc_ref_all files s1)\<lparr>commits := [newest]\<rparr>"
    "lowers view good (points_refs olds) (Inr () :: deleter_error + unit) s2 s'"
    "commits s' = [newest]" "last_files s' = last_files s"
    "points_refs olds + mset (cp_files newest) = points_refs (commits s) + mset files"
    "\<And>c. c \<in> set (commits s) \<Longrightarrow> sint (cp_generation c) \<le> sint (cp_generation newest)"
    "sint (generation infos) \<le> sint (cp_generation newest)"
proof -
  obtain files s1 point s3 s4 where q: "quiet view good s s1" and dst: "distinct files"
    and point: "point = \<lparr>cp_generation = generation infos,
       cp_segments_file_name = (case segments_file_name (generation infos) of Some n \<Rightarrow> n | None \<Rightarrow> ascii ''segments''),
       cp_files = files, cp_segment_count = length (segments infos), cp_user_data = user_data infos\<rparr>"
    and s3: "s3 = (inc_ref_all files s1)\<lparr>commits := sort_commits (commits s @ [point])\<rparr>"
    and pol: "apply_policy E False s3 = (Inr (), s4)" and s': "s' = forget_dead_segments s4"
    using assms(3) by (auto simp: deleter_inv_def intro: commit_checkpoint_cases [OF assms(1,2)])
  define k where "k = length (commits s)"
  define cs where "cs = sort_commits (commits s @ [point])"
  have len: "length cs = Suc k" by (simp add: cs_def k_def)
  have "custom s3 = None" "ifd_policy s3 = KeepOnlyLastCommit" "commits s3 = cs"
    using q assms(4,5) by (simp_all add: s3 cs_def inc_ref_all_def quiet_def same_points_def)
  then have drop: "drop_points E (take k cs) (s3\<lparr>commits := drop k cs\<rparr>) = (Inr (), s4)"
    using pol len by (cases "k = 0") (simp_all add: apply_policy_def Let_def drop_points_def)
  let ?p = "last cs"
  have cs: "cs = take k cs @ [?p]" using len by (metis append_butlast_last_id butlast_conv_take diff_Suc_1 list.size(3) nat.distinct(1))
  have last: "drop k cs = [?p]" using cs len by (metis append_eq_conv_conj length_append_singleton length_take min_def nat.inject)
  have L: "lowers view good (points_refs (take k cs)) (Inr () :: deleter_error + unit) ((inc_ref_all files s1)\<lparr>commits := [?p]\<rparr>) s4"
    using deleter_over.drop_points_lowers [OF assms(1) drop] q by (simp add: s3 inc_ref_all_def quiet_def last)
  have srt: "sorted (map (\<lambda>c. sint (cp_generation c)) cs)" using sort_commits(3) by (simp add: cs_def sorted_points_def)
  have newest: "sint (cp_generation c) \<le> sint (cp_generation ?p)" if "c \<in> set cs" for c
    using srt that by (subst (asm) (1 2) cs) (auto simp: sorted_append)
  have setcs: "set cs = insert point (set (commits s))" using sort_commits(1) [of "commits s @ [point]"]
    by (metis cs_def list.simps(15) mset_eq_setD rotate1.simps(2) set_rotate1)
  have pts: "points_refs (take k cs) + mset (cp_files ?p) = points_refs (commits s) + mset files"
  proof -
    have "points_refs cs = points_refs (take k cs) + mset (cp_files ?p)" by (subst cs) simp
    then show ?thesis by (simp add: cs_def point)
  qed
  show ?thesis
  proof (rule that [OF q dst refl _ _ _ pts])
    show "lowers view good (points_refs (take k cs)) (Inr () :: deleter_error + unit) ((inc_ref_all files s1)\<lparr>commits := [?p]\<rparr>) s'"
      using L by (simp add: s' forget_dead_segments_def lowers_def Let_def same_points_def ref_count_def)
    show "commits s' = [?p]" "last_files s' = last_files s"
      using lowersD(1) [OF L] q by (simp_all add: s' forget_dead_segments_def Let_def same_points_def inc_ref_all_def quiet_def)
    show "sint (generation infos) \<le> sint (cp_generation ?p)" using newest [of point] setcs by (simp add: point)
    show "sint (cp_generation c) \<le> sint (cp_generation ?p)" if "c \<in> set (commits s)" for c using newest setcs that by simp
  qed
qed

text \<open>
  C7: What a successful commit under \<open>KeepOnlyLastCommit\<close> leaves behind. Exactly one commit point is live, the one
  with the highest generation, the new commit unless an older one has a higher generation; every file of a dropped
  commit that nothing references any more is gone from the directory; and if every count was exact before, it is exact
  again, so such a file is gone as soon as neither the commit, the last checkpoint nor a holder names it.
\<close>
theorem commit_reclaims:
  assumes "deleter_over E view good" and "deleter_run E good (s, H)" and "checkpoint E infos True s = (Inr (), s')"
    and "custom s = None" and "ifd_policy s = KeepOnlyLastCommit" and "\<forall>f. count (refs s + H) f < u32_max"
  shows "\<exists>point. commits s' = [point] \<and> sint (generation infos) \<le> sint (cp_generation point) \<and>
    (\<forall>c \<in> set (commits s). sint (cp_generation c) \<le> sint (cp_generation point)) \<and>
    (\<forall>c \<in> set (commits s). \<forall>f \<in> set (cp_files c). ref_count s' f = 0 \<longrightarrow> view (ifd_dir s') f = None) \<and>
    (exact H s \<longrightarrow> exact H s')"
proof -
  note inv = deleter_over.run_inv [OF assms(1,2)]
  obtain files s1 olds newest s2 where q: "quiet view good s s1" and dst: "distinct files"
    and s2: "s2 = (inc_ref_all files s1)\<lparr>commits := [newest]\<rparr>"
    and L: "lowers view good (points_refs olds) (Inr () :: deleter_error + unit) s2 s'"
    and s': "commits s' = [newest]" "last_files s' = last_files s"
    and pts: "points_refs olds + mset (cp_files newest) = points_refs (commits s) + mset files"
    and gens: "\<And>c. c \<in> set (commits s) \<Longrightarrow> sint (cp_generation c) \<le> sint (cp_generation newest)"
      "sint (generation infos) \<le> sint (cp_generation newest)"
    by (rule keep_only_last_effect [OF assms(1,3) inv assms(4,5)]) blast
  note Q = deleter_over.quiet_inv [OF assms(1) q]
  have rc2: "ref_count s2 f = ref_count (inc_ref_all files s1) f" for f by (simp add: s2 ref_count_def)
  have gone: "view (ifd_dir s') f = None" if c: "c \<in> set (commits s)" "f \<in> set (cp_files c)" and z: "ref_count s' f = 0" for c f
  proof -
    have "0 < count (refs s) f" using c by (auto simp: refs_def points_refs_def)
    moreover have "count (refs s + H) f \<le> ref_count s f" using inv by (simp add: deleter_inv_def covered_def)
    ultimately have "0 < ref_count s1 f" unfolding count_union Q(2) by linarith
    then have "0 < ref_count (inc_ref_all files s1) f"
      using inc_refs_bounds(1) [where counts = "ref_counts s1" and f = f and fs = files]
      by (simp add: ref_count_counter inc_ref_all_def u32_max_def min_def split: if_splits)
    then have "0 < ref_count s2 f" unfolding rc2 .
    then show ?thesis using lowersD(8) [OF L, of f] z by simp
  qed
  have "exact H s'" if "exact H s"
  proof -
    have "count (refs s1 + H) f + count (mset files) f \<le> u32_max" for f
    proof -
      have "count (mset files) f \<le> 1" using dst by (simp add: distinct_count_atmost_1)
      moreover have "count (refs s1 + H) f < u32_max" using assms(6) unfolding Q(3) by blast
      ultimately show ?thesis by linarith
    qed
    moreover have "exact H s1" using that Q(2,3) by (simp add: exact_def)
    ultimately have r2: "ref_count s2 f = count (refs s + H) f + count (mset files) f" for f
      unfolding rc2 using exact_inc Q(3) by metis
    show ?thesis
      unfolding exact_def
    proof
      fix f
      have "count (points_refs olds) f + count (mset (cp_files newest)) f = count (points_refs (commits s)) f + count (mset files) f"
        using arg_cong [OF pts, of "\<lambda>M. count M f"] by simp
      moreover have "ref_count s' f = ref_count s2 f - count (points_refs olds) f"
        using lowersD(6) [OF L refl, of f] by simp
      ultimately show "ref_count s' f = count (refs s' + H) f" by (simp add: r2 refs_def s')
    qed
  qed
  then show ?thesis using s'(1) gens gone by (intro exI [of _ newest]) auto
qed

definition committed :: "(byte_buffers_directory, unit snapshot_state) index_file_deleter" where
  "committed =
     (opened None)\<lparr>ifd_dir := files_dir [ascii ''segments_1'', ascii ''segments_2''],
       ref_counts := [(ascii ''segments_1'', 1)],
       commits := [\<lparr>cp_generation = 1, cp_segments_file_name = ascii ''segments_1'', cp_files = [ascii ''segments_1''],
         cp_segment_count = 0, cp_user_data = user_data sample_commit\<rparr>]\<rparr>"

lemma segments_names: "segments_file_name 1 = Some (ascii ''segments_1'')" "segments_file_name 2 = Some (ascii ''segments_2'')"
  by code_simp+

lemma empty_commit_files: "commit_files E (empty_infos g) True s = (Inr (own_segments_file (empty_infos g)), s)"
  by (simp add: commit_files_def empty_infos_def own_segments_file_def)

lemma committed_run: "deleter_run sample_env bb_good (committed, {#})"
proof -
  let ?d = "files_dir [ascii ''segments_1'', ascii ''segments_2'']"
  obtain s' where chk: "checkpoint sample_env (empty_infos 1) True (opened None) = (Inr (), s')"
      "s'\<lparr>ifd_dir := ?d\<rparr> = committed"
    by (simp add: checkpoint_def empty_commit_files own_segments_file_def)
       (simp add: empty_infos_def segments_names opened_def inc_ref_all_def inc_ref_def u32_max_def sort_commits_def apply_policy_def
        forget_dead_def forget_dead_segments_def committed_def)
  have "deleter_step sample_env (opened None, {#}) (s', {#})"
    by (rule step_checkpoint [OF chk(1)]) (simp add: opened_def refs_def u32_max_def)
  then have run: "deleter_run sample_env bb_good (s', {#})" by (rule run_step [OF sample_run])
  have "bb_good ?d" by (rule files_dir_good) (simp add: ascii_def)
  then have "deleter_run sample_env bb_good (s'\<lparr>ifd_dir := ?d\<rparr>, {#})" by (rule run_others [OF run])
  then show ?thesis unfolding chk(2) .
qed

theorem commit_reclaims_witness:
  "\<exists>s' point. checkpoint sample_env (empty_infos 2) True committed = (Inr (), s') \<and> commits s' = [point] \<and>
    2 \<le> sint (cp_generation point) \<and> bb_file (ifd_dir s') (ascii ''segments_1'') = None"
proof -
  have ne: "ascii ''segments_1'' \<noteq> ascii ''segments_2''" by (simp add: ascii_def)
  have seg: "is_segments_file_name (ascii ''segments_1'')" by (simp add: is_segments_file_name_def starts_with_def ascii_def)
  obtain s' where chk: "checkpoint sample_env (empty_infos 2) True committed = (Inr (), s')"
      "ref_count s' (ascii ''segments_1'') = 0"
    using ne seg
    by (simp add: checkpoint_def empty_commit_files own_segments_file_def)
       (simp add: empty_infos_def segments_names committed_def opened_def inc_ref_all_def inc_ref_def u32_max_def
        sort_commits_def apply_policy_def drop_points_def dec_ref_all_def dec_ref_def delete_files_def bb_delete_file_def
        sample_env_def bb_env_def bb_impl_def files_dir_def forget_dead_def forget_dead_segments_def ref_count_def)
  have "\<exists>point. commits s' = [point] \<and> sint (generation (empty_infos 2)) \<le> sint (cp_generation point) \<and>
    (\<forall>c \<in> set (commits committed). sint (cp_generation c) \<le> sint (cp_generation point)) \<and>
    (\<forall>c \<in> set (commits committed). \<forall>f \<in> set (cp_files c). ref_count s' f = 0 \<longrightarrow> bb_file (ifd_dir s') f = None) \<and>
    (exact {#} committed \<longrightarrow> exact {#} s')"
    by (rule commit_reclaims [OF sample_deleter committed_run chk(1)])
       (simp_all add: committed_def opened_def refs_def u32_max_def)
  then show ?thesis using chk by (auto simp: empty_infos_def committed_def)
qed


text \<open>A policy that honours snapshots keeps the commit points whose generation is pinned, whatever its outcome.\<close>

lemma apply_policy_keeps_pinned:
  assumes "deleter_over E view good" and "deletion_policy P" and "env_policy E = snapshot_policy P"
    and "apply_policy E init s = (r, s')" and "good (ifd_dir s)" and "custom s = Some st"
    and "c \<in> set (commits s)" and "pinned st (cp_generation c)"
  shows "c \<in> set (commits s')"
proof -
  let ?cs = "index_commits s"
  let ?st = "if init then st\<lparr>init_called := True\<rparr> else st"
  obtain res p where d: "(if init then on_init (env_policy E) else on_commit (env_policy E)) ?cs st = (res, p)"
    by (metis surj_pair)
  show ?thesis
  proof (cases res)
    case (Inl e)
    then show ?thesis using assms(4,6,7) d by (auto simp: apply_policy_def split: if_splits)
  next
    case (Inr decided)
    obtain st' where run: "run_primary P init ?cs ?st = (Inr decided, st')"
      using d Inr assms(3)
      by (auto simp: snapshot_policy_def snapshot_on_init_def snapshot_on_commit_def bnd_eq_Inr_iff split: if_splits)
    obtain w q where w: "(if init then on_init P else on_commit P) ?cs (primary ?st) = (Inr w, q)"
      using run by (auto simp: run_primary_def split: prod.splits sum.splits)
    obtain i where i: "i < length (commits s)" "commits s ! i = c" using assms(7) by (auto simp: in_set_conv_nth)
    have "pinned ?st (cp_generation c)" using assms(8) by (simp add: pinned_def)
    then have undel: "\<not> ic_deleted (decided ! i)"
      using deletion_policy.run_primary_decides [OF assms(2) run _ w, of i] i by (simp add: index_commits_def ic_new_def)
    have "length decided = length (commits s)"
      using marks_length [OF deletion_policy.run_primary_marks(1) [OF assms(2) run]] by (simp add: index_commits_def)
    then have "(c, decided ! i) \<in> set (zip (commits s) decided)" using i by (auto simp: set_zip)
    then have kept: "c \<in> set (map fst (filter (\<lambda>(c, d). \<not> ic_deleted d) (zip (commits s) decided)))"
      using undel by force
    let ?s = "s\<lparr>custom := Some p, commits := map fst (filter (\<lambda>(c, d). \<not> ic_deleted d) (zip (commits s) decided))\<rparr>"
    have "drop_points E (map fst (filter (\<lambda>(c, d). ic_deleted d) (zip (commits s) decided))) ?s = (r, s')"
      using assms(4,6) d Inr by (simp add: apply_policy_def Let_def)
    from deleter_over.drop_points_lowers [OF assms(1) this] have "same_points ?s s'"
      using assms(5) by (simp add: lowers_def)
    then show ?thesis using kept by (simp add: same_points_def)
  qed
qed

text \<open>
  C6: A snapshot protects its files from a commit. If the deleter runs a snapshotting policy over any policy at all and
  a live commit point is pinned, then a commit, successful or not, leaves that commit point live and every one of its
  files as it was.
\<close>
theorem pinned_commit_survives:
  assumes "deleter_over E view good" and "deletion_policy P" and "env_policy E = snapshot_policy P"
    and "deleter_run E good (s, H)" and "custom s = Some st" and "c \<in> set (commits s)" and "pinned st (cp_generation c)"
    and "\<forall>f. count (refs s + H) f < u32_max" and "checkpoint E infos True s = (r, s')"
  shows "c \<in> set (commits s') \<and> (\<forall>f \<in> set (cp_files c). view (ifd_dir s') f = view (ifd_dir s) f)"
proof -
  note inv = deleter_over.run_inv [OF assms(1,4)]
  then have g: "good (ifd_dir s)" by (simp add: deleter_inv_def)
  obtain rf s1 where cf: "commit_files E infos True s = (rf, s1)" by (metis surj_pair)
  have q: "quiet view good s s1"
    using deleter_over.commit_files_quiet [OF assms(1)] cf g by (rule deleter_over.quiet_run [OF assms(1)])
  have live: "c \<in> set (commits s')"
  proof (cases rf)
    case (Inl e)
    then have "s' = s1" using assms(9) cf by (simp add: checkpoint_def)
    then show ?thesis using q assms(6) by (simp add: quiet_def same_points_def)
  next
    case (Inr files)
    define point where "point = \<lparr>cp_generation = generation infos,
       cp_segments_file_name = (case segments_file_name (generation infos) of Some n \<Rightarrow> n | None \<Rightarrow> ascii ''segments''),
       cp_files = files, cp_segment_count = length (segments infos), cp_user_data = user_data infos\<rparr>"
    define s2 where "s2 = (inc_ref_all files s1)\<lparr>commits := sort_commits (commits (inc_ref_all files s1) @ [point])\<rparr>"
    obtain ra s3 where a: "apply_policy E False s2 = (ra, s3)" by (metis surj_pair)
    have run: "bnd (apply_policy E False) (\<lambda>_. forget_dead) s2 = (r, s')"
      using assms(9) cf Inr by (simp add: checkpoint_def Let_def point_def s2_def)
    have "c \<in> set (commits s3)"
    proof (rule apply_policy_keeps_pinned [OF assms(1,2,3) a])
      show "good (ifd_dir s2)" "custom s2 = Some st" "pinned st (cp_generation c)"
        using q assms(5,7) by (simp_all add: s2_def inc_ref_all_def quiet_def same_points_def)
      have "mset (commits s2) = add_mset point (mset (commits s))"
        using q by (simp add: s2_def inc_ref_all_def quiet_def same_points_def)
      then show "c \<in> set (commits s2)" using assms(6) by (metis insert_iff set_mset_add_mset_insert set_mset_mset)
    qed
    moreover have "commits s' = commits s3"
      using run a by (cases ra) (auto simp: bnd_def forget_dead_def forget_dead_segments_def Let_def)
    ultimately show ?thesis by simp
  qed
  have "view (ifd_dir s') f = view (ifd_dir s) f" if "f \<in> set (cp_files c)" for f
  proof -
    have "f \<in># refs s'" using live that by (auto simp: refs_def points_refs_def)
    then have "0 < count (refs s' + H) f" by simp
    moreover have "deleter_inv good H s'" "safe_step view s s'"
      using deleter_over.step_inv [OF assms(1) step_checkpoint [OF assms(9,8)] inv] by blast+
    ultimately show ?thesis unfolding deleter_inv_def covered_def safe_step_def by (meson less_le_trans)
  qed
  then show ?thesis using live by blast
qed

text \<open>The commit of the example is pinned, so that the next commit, which would have dropped it, keeps it.\<close>

theorem pinned_commit_survives_witness:
  "\<exists>r s'. checkpoint sample_env (empty_infos 2) True
      (committed\<lparr>custom := Some (snapshot_new () \<lparr>init_called := True, sn_ref_counts := [(1, 1)]\<rparr>)\<rparr>) = (r, s') \<and>
    hd (commits committed) \<in> set (commits s') \<and>
    bb_file (ifd_dir s') (ascii ''segments_1'') = bb_file (ifd_dir committed) (ascii ''segments_1'') \<and>
    bb_file (ifd_dir committed) (ascii ''segments_1'') = Some 0"
proof -
  define st where "st = snapshot_new () \<lparr>init_called := True, sn_ref_counts := [(1, 1)]\<rparr>"
  define s where "s = committed\<lparr>custom := Some st\<rparr>"
  define c where "c = hd (commits committed)"
  obtain r s' where chk: "checkpoint sample_env (empty_infos 2) True s = (r, s')" by (metis surj_pair)
  have run: "deleter_run sample_env bb_good (s, {#})" unfolding s_def by (rule run_policy [OF committed_run])
  have E: "env_policy sample_env = snapshot_policy keep_only_last_policy" by (simp add: sample_env_def bb_env_def)
  have "custom s = Some st" "c \<in> set (commits s)" "pinned st (cp_generation c)" "\<forall>f. count (refs s + {#}) f < u32_max"
    by (simp_all add: s_def c_def st_def committed_def opened_def pinned_def refs_def u32_max_def)
  from pinned_commit_survives [OF sample_deleter keep_only_last.deletion_policy_axioms E run this chk]
  have "c \<in> set (commits s')" "bb_file (ifd_dir s') (ascii ''segments_1'') = bb_file (ifd_dir s) (ascii ''segments_1'')"
    by (simp_all add: c_def committed_def)
  moreover have "bb_file (ifd_dir committed) (ascii ''segments_1'') = Some 0"
    by (simp add: committed_def files_dir_def bb_file_def)
  ultimately show ?thesis using chk by (auto simp: s_def st_def c_def)
qed

end
