(* ===== verification/Spec2Isabelle.thy ===== *)
theory Spec2Isabelle
  imports Doc_Id_Sets Direct_Monotonic Compound_Reader Wire_Round_Trip Codec_Util Lz4_Compress Index_File_Deleter
begin

text \<open>
  A verification development for \<open>lucene-rust\<close>, a port of Apache Lucene to Rust: a full-text index
  written as immutable files in a directory, published by commits, and read by memory-mapped slices.

  \<^bold>\<open>The program.\<close> The workspace has about thirty crates. \<open>lucene-util\<close> holds bit sets and integer
  kernels. \<open>lucene-store\<close> holds directories, the wire format (\<open>DataInput\<close>, \<open>DataOutput\<close>) and the framing of
  every file (\<open>codec_util\<close>). \<open>lucene-codecs\<close> holds the file formats; stored fields and terms are compressed
  with its LZ4. \<open>lucene-index\<close> holds the writer: it flushes segments, publishes commits (\<open>segments_N\<close>)
  and reclaims files. \<open>lucene-search\<close> and the other crates query the result. The development models the
  core that everything else is written in, bottom up: a file is bytes written with the wire primitives, framed by
  header and footer, possibly compressed, named after a base-36 generation, and alive as long as a commit names it.

  \<^bold>\<open>The theories.\<close>
  \<^item> \<open>Lucene_Prelude\<close>: machine integers as words, errors, the state and error monad (\<open>bnd\<close> is the question mark
    operator), and the standard-library operations the source calls (slices, byte orders, bit counts, UTF-8).
  \<^item> \<open>Bit_Kernels\<close>: \<open>lucene-util/src/zigzag.rs\<close>, \<open>bit_util.rs\<close>, \<open>small_float.rs\<close> and \<open>unsigned_min\<close>.
    Zigzag and Morton codes round-trip; the norm byte never over-estimates and loses at most an eighth.
  \<^item> \<open>Fixed_Bit_Set\<close>: \<open>fixed_bit_set.rs\<close>, every operation, and the portable kernels it calls in \<open>popcount.rs\<close>
    and \<open>simd.rs\<close>. The locale \<open>bit_set\<close> states the set interface; the words refine a set of numbers below the length.
  \<^item> \<open>Sparse_Bit_Set\<close>: \<open>sparse_fixed_bit_set.rs\<close>. Index words and packed blocks refine the same interface: a second
    interpretation of \<open>bit_set\<close>, so that what is proved of the interface holds of both.
  \<^item> \<open>Doc_Id_Sets\<close>: \<open>bits.rs\<close>. The trait object over both sets (a third interpretation), the choice between them by
    density, and the iterator over the complement of another iterator, positioned by an inductive relation.
  \<^item> \<open>Data_Output\<close>, \<open>Data_Input\<close>, \<open>Wire_Round_Trip\<close>: \<open>lucene-store/src/data_output.rs\<close> and \<open>data_input.rs\<close>.
    The traits are records of methods, the locales \<open>data_output_sink\<close> and \<open>data_input_source\<close> state what an
    implementation promises, and the growable buffer and the slice cursor interpret them. Every fast path equals
    the byte loop (the bulk word reads on a whole run; on a truncated one they are all or nothing); any sequence of writes is read back; malformed input ends in the documented error.
  \<^item> \<open>Codec_Util\<close>: \<open>codec_util.rs\<close>. The verdict of the header check on every mismatch, and that the footer check
    accepts exactly what the footer writer produces.
  \<^item> \<open>Packed_Longs\<close>, \<open>Direct_Reader\<close>: \<open>lucene-util/src/packed_longs.rs\<close> and \<open>lucene-codecs/src/direct_reader.rs\<close>, the packed
    arrays under doc values and offsets. What is packed is read back; every fast reader answers what the checked
    reader answers, and no unchecked load leaves its slice.
  \<^item> \<open>Float_Bits\<close>, \<open>Direct_Monotonic\<close>: IEEE arithmetic on bit patterns, and \<open>lucene-codecs/src/direct_monotonic.rs\<close>, the
    non-decreasing sequences of offsets and document numbers: written, loaded and read back by three readers that agree on every
    input, and searched by a binary search that ends at the floor of its key.
  \<^item> \<open>Framed_Files\<close>: what the readers of whole files share: written headers are accepted, reading leaves the bytes
    alone, a body between header and footer is read back.
  \<^item> \<open>Live_Docs\<close>: the trait \<open>Bits\<close> and \<open>lucene-codecs/src/live_docs.rs\<close>. A \<open>.liv\<close> file is read back; the batched writer
    over any source of bits (locale \<open>bits_source\<close>) writes the bytes of the word writer; whatever is parsed is well
    formed.
  \<^item> \<open>Compound_Format\<close>, \<open>Compound_Reader\<close>: \<open>compound_format.rs\<close> and \<open>lucene-index/src/compound_reader.rs\<close>. A packed
    segment opened as a directory shows the packed files, and only them, with their bytes.
  \<^item> \<open>Lz4_Decompress\<close>, \<open>Lz4_Compress\<close>: \<open>lucene-codecs/src/lz4.rs\<close>. Both compressors terminate, never panic on a dictionary of
    at most \<open>MAX_DISTANCE\<close> bytes, and produce blocks that the decoder restores; the fast decoder agrees with the reference decoder; no input makes
    it write outside the destination. The locale \<open>match_finder\<close> is what the compressor needs of a hash table.
  \<^item> \<open>Base36\<close>: \<open>base36.rs\<close> and the commit file names of \<open>directory.rs\<close>.
  \<^item> \<open>Store_Directory\<close>: the \<open>Directory\<close> trait as a record, its laws as the locale \<open>directory_laws\<close>, and
    \<open>byte_buffers_directory.rs\<close>, which interprets it.
  \<^item> \<open>Segment_Infos\<close>: \<open>lucene-index/src/segment_infos.rs\<close>: commits, their counters and file lists, the \<open>segments_N\<close>
    format and the two-phase publication. A commit is parsed back exactly; publishing makes it the latest.
  \<^item> \<open>Segment_Info\<close>: \<open>segment_info.rs\<close>, the index sorts and their comparator, and the table of codecs.
  \<^item> \<open>Index_File_Names\<close>: the names of index files and the generations a listing of the directory forces.
  \<^item> \<open>Deletion_Policy\<close>: \<open>deletion_policy.rs\<close>: the policies as records of two methods, snapshots as a wrapper.
  \<^item> \<open>Index_File_Deleter\<close>: \<open>index_file_deleter.rs\<close>: the reference counts as a state, its runs as an inductive relation
    over arbitrary results of the directory. No referenced file is deleted, pinned commits survive, a commit
    reclaims what it replaces, and commit files go first.

  \<^bold>\<open>How code becomes definitions.\<close> One definition per function, with its name; a loop is a recursive function
  named after what it does. A method with \<open>&mut self\<close> and a \<open>Result\<close> maps a state to a result and a state, so
  what an error leaves behind is part of the model. Panics are \<open>None\<close> or the left side of \<open>panics\<close>. A \<open>str\<close> is its
  UTF-8 bytes; \<open>usize\<close> is a natural number with the checked and saturating operations written out; signed integers
  are words read with \<open>sint\<close>. Code outside the repository is a parameter: the CRC crate (record \<open>crc32fast\<close>, law
  \<open>crc32fast_laws\<close>), the number of threads, \<open>DefaultHasher\<close>. So are objects a caller passes in: a deletion policy, the
  results of a directory in the deleter's runs, the codecs registered at run time, the reader of another format's
  \<open>.si\<close> file.

  \<^bold>\<open>Fuel and bounds.\<close> Loops whose end is structural are total functions. Two searches take fuel and return \<open>None\<close>
  when it runs out: the compressor's search for a better match (fuel: the offset of the first candidate plus one,
  enough because candidates decrease) and the search for a free temporary name (one more than the number of files);
  \<open>lz4_round_trip\<close>, \<open>lz4_high_compression_round_trip\<close> and \<open>create_temp_output_terminates\<close> prove that they end.
  \<open>walk_bits\<close> and \<open>drain\<close>, which run an iterator in a statement, take the number of elements. The deleter's theorems
  hold while no file has \<open>u32::MAX\<close> references, where its counters saturate; packed data have fewer than \<open>2 ^ 61\<close> bytes, so that
  a bit position fits a \<open>u64\<close>, and monotonic sequences fewer than \<open>2 ^ 56\<close> values; other sizes and generations stay below the
  limits each statement names.

  \<^bold>\<open>Not modelled.\<close> SIMD and BMI2 kernels (target intrinsics), prefetch hints, file-system and memory-mapped
  directories, locks, the streaming file output, floating-point cardinality estimates and memory accounting, the
  persistent snapshot policy, the other file formats of the codecs (postings, terms, doc values, stored fields,
  points, vectors), the index writer, merging and \<open>CheckIndex\<close>, searching, and the analysis, vector and tool crates:
  they rest on the layers modelled here and are far larger than them. Of the \<open>debug_assert!\<close>s, those of the LZ4 encoder (the
  dictionary within \<open>MAX_DISTANCE\<close>, every match behind its position and within 16 bits, a table reset before its dictionary) and of the
  monotonic writer (each block non-decreasing) are modelled as panics; the others are not, and theorems describe the release build there
  (a negative \<open>vlong\<close>, for one, is written as ten bytes).
\<close>

end
